(* ===== verification/Prelude.thy ===== *)
theory Prelude
  imports Main "HOL-Library.Word" "HOL-Library.Signed_Division" "HOL-Library.Monad_Syntax"
begin

text \<open>
  What every component of the development shares: bytes and buffers, the memory accesses of the
  C code (a load, a store, a block copy), each of which is an \<open>option\<close> whose \<open>None\<close> is an access
  outside the object, and the lemmas that let a sequence of writes be read as one block and a
  buffer be read through a cursor.
\<close>

unbundle bit_operations_syntax

section \<open>Bytes, buffers and cursors\<close>

type_synonym byte = "8 word"
type_synonym buffer = "byte list"

text \<open>A pointer into a buffer is an offset; a write cursor is the buffer with the offset.\<close>

type_synonym cursor = "buffer \<times> nat"

named_theorems cursor_simps \<open>effect of the writing primitives on a cursor\<close>

definition load :: "'a list \<Rightarrow> nat \<Rightarrow> 'a option" where
  "load b i = (if i < length b then Some (b ! i) else None)"

definition store :: "'a list \<Rightarrow> nat \<Rightarrow> 'a \<Rightarrow> 'a list option" where
  "store b i x = (if i < length b then Some (b[i := x]) else None)"

text \<open>\<open>memcpy\<close> of the block \<open>xs\<close> to the offset \<open>i\<close> of the object \<open>b\<close>.\<close>

definition copy_in :: "'a list \<Rightarrow> nat \<Rightarrow> 'a list \<Rightarrow> 'a list option" where
  "copy_in b i xs = (if i + length xs \<le> length b
     then Some (take i b @ xs @ drop (i + length xs) b) else None)"

text \<open>
  The source of a \<open>memcpy\<close>: a pointer is given by the bytes from it to the end of its object,
  \<open>None\<close> for \<open>NULL\<close>; reading more than there is leaves the object.
\<close>

definition fetch :: "'a list option \<Rightarrow> nat \<Rightarrow> 'a list option" where
  "fetch d n = (case d of None \<Rightarrow> if n = 0 then Some [] else None
     | Some xs \<Rightarrow> if n \<le> length xs then Some (take n xs) else None)"

lemma store_copy_in: "store b i x = copy_in b i [x]"
  by (auto simp: store_def copy_in_def list_eq_iff_nth_eq nth_append nth_list_update
      upd_conv_take_nth_drop)

lemma copy_in_length: "copy_in b i xs = Some b' \<Longrightarrow> length b' = length b"
  by (auto simp: copy_in_def split: if_splits)

lemma copy_in_eq_None: "copy_in b i xs = None \<longleftrightarrow> length b < i + length xs"
  by (auto simp: copy_in_def)

lemma copy_in_take: "copy_in b i xs = Some b' \<Longrightarrow> take (i + length xs) b' = take i b @ xs"
  by (auto simp: copy_in_def split: if_splits)

lemma copy_in_drop:
  "copy_in b i xs = Some b' \<Longrightarrow> drop i b' = xs @ drop (i + length xs) b"
  by (auto simp: copy_in_def split: if_splits)

lemma copy_in_0: "copy_in b 0 xs = (if length xs \<le> length b
     then Some (xs @ drop (length xs) b) else None)"
  by (simp add: copy_in_def)

text \<open>Two adjacent blocks written one after the other are one block.\<close>

lemma copy_in_append:
  "Option.bind (copy_in b i xs) (\<lambda>b'. copy_in b' (i + length xs) ys) = copy_in b i (xs @ ys)"
  by (auto simp: copy_in_def add.assoc add.left_commute add.commute)

definition emit :: "cursor \<Rightarrow> byte list \<Rightarrow> cursor option" where
  "emit c xs = map_option (\<lambda>b. (b, snd c + length xs)) (copy_in (fst c) (snd c) xs)"

lemma emit_emit [cursor_simps]:
  "Option.bind (emit c xs) (\<lambda>c'. emit c' ys) = emit c (xs @ ys)"
  by (cases c) (auto simp: emit_def copy_in_def add.assoc add.left_commute add.commute)

lemma emit_emit_bind [cursor_simps]:
  "Option.bind (emit c xs) (\<lambda>c'. Option.bind (emit c' ys) f) = Option.bind (emit c (xs @ ys)) f"
  by (simp add: emit_emit flip: Option.bind_assoc)

lemma emit_eq_Some:
  "emit (b, p) xs = Some (b', p') \<longleftrightarrow> copy_in b p xs = Some b' \<and> p' = p + length xs"
  by (auto simp: emit_def)

lemma emit_None: "emit (b, p) xs = None \<longleftrightarrow> length b < p + length xs"
  by (simp add: emit_def copy_in_eq_None)

text \<open>How the serializers end: the buffer, and \<open>ptr - buf\<close> as the result.\<close>

definition finish :: "cursor \<Rightarrow> (buffer \<times> int) option" where
  "finish c = Some (fst c, int (snd c))"

lemma emit_finish [cursor_simps]:
  "Option.bind (emit (b, 0) xs) finish =
     (if length xs \<le> length b then Some (xs @ drop (length xs) b, int (length xs)) else None)"
  by (simp add: emit_def copy_in_0 finish_def)

section \<open>Reading through a cursor\<close>

text \<open>
  A reader only sees the bytes from its offset on. Its lemmas are stated over what those bytes
  are, \<open>drop p b = x # xs\<close>, and hand the rest on in the same form.
\<close>

lemma load_drop: "drop p b = x # xs \<Longrightarrow> load b p = Some x"
  by (metis drop_eq_Nil leI list.simps(3) load_def nth_via_drop)

lemma drop_Cons_Suc: "drop p b = x # xs \<Longrightarrow> drop (Suc p) b = xs"
  by (metis drop_Suc list.sel(3) tl_drop)

lemma drop_append_shift:
  "drop p b = xs @ ys \<Longrightarrow> drop (p + length xs) b = ys"
  by (metis add.commute append_eq_conv_conj drop_drop)

lemma drop_length_le: "drop p b = xs \<Longrightarrow> xs \<noteq> [] \<Longrightarrow> p + length xs = length b"
  by (metis drop_eq_Nil le_add_diff_inverse length_drop nat_le_linear)

lemma load_Some_iff: "load b p = Some x \<longleftrightarrow> p < length b \<and> b ! p = x"
  by (simp add: load_def)

lemma load_None_iff: "load b p = None \<longleftrightarrow> length b \<le> p"
  by (simp add: load_def not_less)

section \<open>Bit fields\<close>

text \<open>
  A C bit field of \<open>w\<close> bits at bit \<open>off\<close> of a byte. An assignment keeps the low \<open>w\<close> bits of the
  value and leaves the other fields of the byte alone.
\<close>

definition get_field :: "nat \<Rightarrow> nat \<Rightarrow> byte \<Rightarrow> byte" where
  "get_field off w h = take_bit w (drop_bit off h)"

definition set_field :: "nat \<Rightarrow> nat \<Rightarrow> byte \<Rightarrow> byte \<Rightarrow> byte" where
  "set_field off w v h = (h AND NOT (push_bit off (mask w))) OR push_bit off (take_bit w v)"

lemma get_set_field: "off + w \<le> 8 \<Longrightarrow> get_field off w (set_field off w v h) = take_bit w v"
  by (rule bit_word_eqI) (auto simp: get_field_def set_field_def bit_simps)

lemma get_set_other_field:
  "off + w \<le> off' \<or> off' + w' \<le> off \<Longrightarrow>
   get_field off' w' (set_field off w v h) = get_field off' w' h"
  by (rule bit_word_eqI) (auto simp: get_field_def set_field_def bit_simps dest: bit_imp_le_length)

section \<open>Small facts on words and on C division\<close>

lemma sdiv_nonneg: "0 \<le> a \<Longrightarrow> 0 < b \<Longrightarrow> a sdiv b = a div b" for a b :: int
  by (simp add: signed_divide_int_def sgn_if)

lemma smod_nonneg: "0 \<le> a \<Longrightarrow> 0 < b \<Longrightarrow> a smod b = a mod b" for a b :: int
  by (cases "a = 0") (auto simp: signed_modulo_int_def sdiv_nonneg minus_div_mult_eq_mod sgn_if)

lemma uint_byte_of_int: "0 \<le> n \<Longrightarrow> n < 256 \<Longrightarrow> uint (word_of_int n :: byte) = n"
  by (simp add: uint_word_of_int)

lemma uint_byte_lt: "uint (x :: byte) < 256"
  using unsigned_less [of x, where 'a = int] by simp

lemma unat_byte_lt: "unat (x :: byte) < 256"
  using unsigned_less [of x, where 'a = nat] by simp

lemma byte_and_127: "(x :: byte) AND 127 = take_bit 7 x"
  by (simp add: take_bit_eq_mask mask_numeral)

lemma byte_and_128: "(x :: byte) AND 128 = 0 \<longleftrightarrow> \<not> bit x 7"
  using and_exp_eq_0_iff_not_bit [of x 7] by simp

lemma bit_128: "bit (128 :: byte) n \<longleftrightarrow> n = 7"
  using bit_exp_iff [where 'a = "8 word", of 7 n] by auto

lemma uint_low7:
  assumes "0 \<le> n" "n < 128"
  shows "uint ((word_of_int n :: byte) AND 127) = n" "uint ((word_of_int n OR 128 :: byte) AND 127) = n"
    "(word_of_int n :: byte) AND 128 = 0" "(word_of_int n OR 128 :: byte) AND 128 \<noteq> 0"
proof -
  have t: "take_bit 7 n = n" using assms by (simp add: take_bit_eq_mod)
  then show *: "uint ((word_of_int n :: byte) AND 127) = n"
    by (simp add: byte_and_127 unsigned_take_bit_eq unsigned_of_int)
  have "take_bit 7 (word_of_int n OR 128 :: byte) = take_bit 7 (word_of_int n)"
    by (rule bit_word_eqI) (auto simp: bit_simps bit_128)
  then show "uint ((word_of_int n OR 128 :: byte) AND 127) = n" using * by (simp add: byte_and_127)
  show "(word_of_int n :: byte) AND 128 = 0"
    using t by (simp add: byte_and_128 bit_simps) (metis bit_take_bit_iff less_irrefl)
  show "(word_of_int n OR 128 :: byte) AND 128 \<noteq> 0"
    by (simp add: byte_and_128 bit_simps bit_128)
qed

lemma uint_take_bit_of_int:
  "0 \<le> n \<Longrightarrow> n < 2 ^ k \<Longrightarrow> k \<le> 8 \<Longrightarrow> uint (take_bit k (word_of_int n :: byte)) = n"
  by (simp add: unsigned_take_bit_eq unsigned_of_int take_bit_int_eq_self)

text \<open>A signed \<open>int\<close> as an integer; an overflow is undefined.\<close>

definition checked :: "int \<Rightarrow> int option" where
  "checked i = (if - (2 ^ 31) \<le> i \<and> i < 2 ^ 31 then Some i else None)"

lemma checked_ok: "- (2 ^ 31) \<le> i \<Longrightarrow> i < 2 ^ 31 \<Longrightarrow> checked i = Some i"
  by (simp add: checked_def)

section \<open>What holds of every result\<close>

text \<open>
  \<open>post m P\<close>: if the computation \<open>m\<close> has a result, \<open>P\<close> holds of it. The rules go backwards through a
  \<open>do\<close> block, so that the operations it calls are left, each to be discharged with its own
  lemma by \<open>post_mono\<close>.
\<close>

definition post :: "'a option \<Rightarrow> ('a \<Rightarrow> bool) \<Rightarrow> bool" where
  "post m P \<longleftrightarrow> (\<forall>x. m = Some x \<longrightarrow> P x)"

named_theorems post_intro \<open>rules that take a computation apart\<close>

lemma post_Some [post_intro]: "P x \<Longrightarrow> post (Some x) P"
  by (simp add: post_def)

lemma post_None [post_intro]: "post None P"
  by (simp add: post_def)

lemma post_bind [post_intro]: "post m (\<lambda>x. post (f x) P) \<Longrightarrow> post (Option.bind m f) P"
  by (cases m) (simp_all add: post_def)

lemma post_map [post_intro]: "post m (\<lambda>x. P (f x)) \<Longrightarrow> post (map_option f m) P"
  by (cases m) (simp_all add: post_def)

lemma post_if [post_intro]: "(b \<Longrightarrow> post x P) \<Longrightarrow> (\<not> b \<Longrightarrow> post y P) \<Longrightarrow> post (if b then x else y) P"
  by simp

lemma post_prod [post_intro]: "(\<And>a b. p = (a, b) \<Longrightarrow> post (f a b) P) \<Longrightarrow> post (case p of (a, b) \<Rightarrow> f a b) P"
  by (cases p) simp

lemma post_option [post_intro]:
  "(x = None \<Longrightarrow> post y P) \<Longrightarrow> (\<And>a. x = Some a \<Longrightarrow> post (f a) P) \<Longrightarrow>
   post (case x of None \<Rightarrow> y | Some a \<Rightarrow> f a) P"
  by (cases x) simp_all

lemma post_Let [post_intro]: "(\<And>x. x = v \<Longrightarrow> post (f x) P) \<Longrightarrow> post (Let v f) P"
  by simp

lemma post_mono: "post m Q \<Longrightarrow> (\<And>x. m = Some x \<Longrightarrow> Q x \<Longrightarrow> P x) \<Longrightarrow> post m P"
  by (simp add: post_def)

lemma post_any: "(\<And>x. m = Some x \<Longrightarrow> P x) \<Longrightarrow> post m P"
  by (simp add: post_def)

lemma postD: "post m P \<Longrightarrow> m = Some x \<Longrightarrow> P x"
  by (simp add: post_def)

end
