(* ===== verification/Mqtt_Packet.thy ===== *)
theory Mqtt_Packet
  imports Prelude
begin

text \<open>
  The packet primitives of \<open>src/mqtt/MQTTPacket.c\<close> and \<open>MQTTPacket.h\<close>: the header byte and its
  bit fields, the variable-length remaining length, integers, characters and strings, read and
  written through a pointer into a buffer. A pointer is an offset; every load and store that leaves
  its buffer is \<open>None\<close>. C \<open>int\<close>s are \<open>int\<close>: on the values that occur here (lengths below
  \<open>2 ^ 28\<close>) none of the operations overflows, which \<open>decode_no_overflow\<close> states for the only
  loop that accumulates.
\<close>

section \<open>Return codes, message types and the header byte\<close>

abbreviation (input) MQTTPACKET_BUFFER_TOO_SHORT :: int where "MQTTPACKET_BUFFER_TOO_SHORT \<equiv> - 2"
abbreviation (input) MQTTPACKET_READ_ERROR :: int where "MQTTPACKET_READ_ERROR \<equiv> - 1"

abbreviation (input) CONNECT :: byte where "CONNECT \<equiv> 1"
abbreviation (input) CONNACK :: byte where "CONNACK \<equiv> 2"
abbreviation (input) PUBLISH :: byte where "PUBLISH \<equiv> 3"
abbreviation (input) PUBACK :: byte where "PUBACK \<equiv> 4"
abbreviation (input) PUBREC :: byte where "PUBREC \<equiv> 5"
abbreviation (input) PUBREL :: byte where "PUBREL \<equiv> 6"
abbreviation (input) PUBCOMP :: byte where "PUBCOMP \<equiv> 7"
abbreviation (input) SUBSCRIBE :: byte where "SUBSCRIBE \<equiv> 8"
abbreviation (input) SUBACK :: byte where "SUBACK \<equiv> 9"
abbreviation (input) UNSUBSCRIBE :: byte where "UNSUBSCRIBE \<equiv> 10"
abbreviation (input) UNSUBACK :: byte where "UNSUBACK \<equiv> 11"
abbreviation (input) PINGREQ :: byte where "PINGREQ \<equiv> 12"
abbreviation (input) PINGRESP :: byte where "PINGRESP \<equiv> 13"
abbreviation (input) DISCONNECT :: byte where "DISCONNECT \<equiv> 14"

text \<open>
  The union \<open>MQTTHeader\<close>: the bit fields of the header byte, lowest bit first (\<open>retain : 1\<close>,
  \<open>qos : 2\<close>, \<open>dup : 1\<close>, \<open>type : 4\<close>); an assignment to a field keeps only the bits of its width.
\<close>

definition hdr_retain :: "byte \<Rightarrow> byte" where "hdr_retain = get_field 0 1"
definition hdr_qos :: "byte \<Rightarrow> byte" where "hdr_qos = get_field 1 2"
definition hdr_dup :: "byte \<Rightarrow> byte" where "hdr_dup = get_field 3 1"
definition hdr_type :: "byte \<Rightarrow> byte" where "hdr_type = get_field 4 4"

definition set_retain :: "byte \<Rightarrow> byte \<Rightarrow> byte" where "set_retain = set_field 0 1"
definition set_qos :: "byte \<Rightarrow> byte \<Rightarrow> byte" where "set_qos = set_field 1 2"
definition set_dup :: "byte \<Rightarrow> byte \<Rightarrow> byte" where "set_dup = set_field 3 1"
definition set_type :: "byte \<Rightarrow> byte \<Rightarrow> byte" where "set_type = set_field 4 4"

named_theorems hdr_simps \<open>reading a bit field after an assignment to one\<close>

lemma hdr_get_set [hdr_simps]:
  "hdr_retain (set_retain r h) = take_bit 1 r" "hdr_retain (set_qos q h) = hdr_retain h"
  "hdr_retain (set_dup d h) = hdr_retain h" "hdr_retain (set_type t h) = hdr_retain h"
  "hdr_qos (set_qos q h) = take_bit 2 q" "hdr_qos (set_retain r h) = hdr_qos h"
  "hdr_qos (set_dup d h) = hdr_qos h" "hdr_qos (set_type t h) = hdr_qos h"
  "hdr_dup (set_dup d h) = take_bit 1 d" "hdr_dup (set_retain r h) = hdr_dup h"
  "hdr_dup (set_qos q h) = hdr_dup h" "hdr_dup (set_type t h) = hdr_dup h"
  "hdr_type (set_type t h) = take_bit 4 t" "hdr_type (set_retain r h) = hdr_type h"
  "hdr_type (set_qos q h) = hdr_type h" "hdr_type (set_dup d h) = hdr_type h"
  by (simp_all add: hdr_retain_def hdr_qos_def hdr_dup_def hdr_type_def
      set_retain_def set_qos_def set_dup_def set_type_def get_set_field get_set_other_field)

lemma hdr_zero [hdr_simps]: "hdr_retain 0 = 0" "hdr_qos 0 = 0" "hdr_dup 0 = 0" "hdr_type 0 = 0"
  by (simp_all add: hdr_retain_def hdr_qos_def hdr_dup_def hdr_type_def get_field_def)

section \<open>The remaining length\<close>

text \<open>
  \<open>MQTTPacket_encode\<close>: the do-while loop, with \<open>rc\<close> the number of bytes written so far. C division
  and remainder truncate towards zero, so a negative length writes one byte and stops.
\<close>

function encode_loop :: "buffer \<Rightarrow> nat \<Rightarrow> nat \<Rightarrow> int \<Rightarrow> (buffer \<times> nat) option" where
  "encode_loop buf p rc n =
     (let d = word_of_int (n smod 128) :: byte;
          n' = n sdiv 128;
          d' = (if n' > 0 then d OR 0x80 else d)
      in case store buf (p + rc) d' of
           None \<Rightarrow> None
         | Some buf' \<Rightarrow> if n' > 0 then encode_loop buf' p (Suc rc) n'
                        else Some (buf', Suc rc))"
  by pat_completeness auto
termination
proof (relation "measure (\<lambda>(_, _, _, n). nat n)", goal_cases)
  case 1
  show ?case by simp
next
  case (2 buf p rc n d n' d' buf')
  then have "0 < n"
    by (cases "0 < n") (auto simp: signed_divide_int_def sgn_if split: if_splits)
  with 2 show ?case by (simp add: sdiv_nonneg)
qed

definition MQTTPacket_encode :: "buffer \<Rightarrow> nat \<Rightarrow> int \<Rightarrow> (buffer \<times> nat) option" where
  "MQTTPacket_encode buf p n = encode_loop buf p 0 n"

text \<open>\<open>MQTTPacket_decode\<close>, over any source of single bytes: \<open>get\<close> is \<open>(*getcharfn)(&c, 1)\<close>, its state
  the position of the source. The result is the number of bytes read, \<open>*value\<close> and the state.\<close>

function decode_loop ::
    "('s \<Rightarrow> (int \<times> byte \<times> 's) option) \<Rightarrow> 's \<Rightarrow> nat \<Rightarrow> int \<Rightarrow> int \<Rightarrow> (nat \<times> int \<times> 's) option" where
  "decode_loop get s len multiplier value =
     (if Suc len > 4 then Some (Suc len, value, s)
      else case get s of
             None \<Rightarrow> None
           | Some (rc, c, s') \<Rightarrow>
               if rc \<noteq> 1 then Some (Suc len, value, s')
               else let value' = value + uint (c AND 127) * multiplier
                    in if c AND 128 \<noteq> 0 then decode_loop get s' (Suc len) (multiplier * 128) value'
                       else Some (Suc len, value', s'))"
  by pat_completeness auto
termination
  by (relation "measure (\<lambda>(_, _, len, _, _). 5 - len)") auto

definition MQTTPacket_decode ::
    "('s \<Rightarrow> (int \<times> byte \<times> 's) option) \<Rightarrow> 's \<Rightarrow> (nat \<times> int \<times> 's) option" where
  "MQTTPacket_decode get s = decode_loop get s 0 1 0"

text \<open>\<open>bufchar\<close> with the only count it is called with, 1; the state is \<open>bufptr\<close>.\<close>

definition bufchar :: "buffer \<Rightarrow> nat \<Rightarrow> (int \<times> byte \<times> nat) option" where
  "bufchar buf bufptr = map_option (\<lambda>c. (1, c, Suc bufptr)) (load buf bufptr)"

definition MQTTPacket_decodeBuf :: "buffer \<Rightarrow> nat \<Rightarrow> (nat \<times> int) option" where
  "MQTTPacket_decodeBuf buf p =
     map_option (\<lambda>(len, value, _). (len, value)) (MQTTPacket_decode (bufchar buf) p)"

definition MQTTPacket_len :: "int \<Rightarrow> int" where
  "MQTTPacket_len rem_len =
     (let rem_len = rem_len + 1
      in if rem_len < 128 then rem_len + 1
         else if rem_len < 16384 then rem_len + 2
         else if rem_len < 2097151 then rem_len + 3
         else rem_len + 4)"

declare encode_loop.simps [simp del] decode_loop.simps [simp del]

text \<open>The encoding the MQTT specification defines: seven bits a byte, least significant first, the
  top bit set on every byte but the last.\<close>

function rl_bytes :: "int \<Rightarrow> byte list" where
  "rl_bytes n = (if n < 128 then [word_of_int n]
     else (word_of_int (n mod 128) OR 128) # rl_bytes (n div 128))"
  by pat_completeness auto
termination
  by (relation "measure nat") auto

declare rl_bytes.simps [simp del]

lemma rl_bytes_small: "n < 128 \<Longrightarrow> rl_bytes n = [word_of_int n]"
  by (simp add: rl_bytes.simps)

lemma rl_bytes_big:
  "128 \<le> n \<Longrightarrow> rl_bytes n = (word_of_int (n mod 128) OR 128) # rl_bytes (n div 128)"
  by (simp add: rl_bytes.simps [of n])

lemma encode_loop_rl_bytes:
  "0 \<le> n \<Longrightarrow> encode_loop buf p rc n =
     map_option (\<lambda>b. (b, rc + length (rl_bytes n))) (copy_in buf (p + rc) (rl_bytes n))"
proof (induction n arbitrary: buf rc rule: rl_bytes.induct)
  case (1 n)
  show ?case
  proof (cases "n < 128")
    case True
    with "1.prems" show ?thesis
      by (simp add: encode_loop.simps [of buf] sdiv_nonneg smod_nonneg rl_bytes_small
          store_copy_in split: option.split)
  next
    case False
    let ?d = "word_of_int (n mod 128) OR 0x80 :: byte"
    have pos: "0 < n div 128" using False by simp
    have IH: "encode_loop b p (Suc rc) (n div 128) =
        map_option (\<lambda>b. (b, Suc rc + length (rl_bytes (n div 128))))
          (copy_in b (p + rc + length [?d]) (rl_bytes (n div 128)))" for b
      using "1.IH" [OF False, of b "Suc rc"] pos by simp
    have "encode_loop buf p rc n = Option.bind (copy_in buf (p + rc) [?d])
        (\<lambda>b. encode_loop b p (Suc rc) (n div 128))"
      using False pos by (simp add: encode_loop.simps [of buf p rc n] sdiv_nonneg smod_nonneg
          store_copy_in Let_def split: option.split)
    also have "\<dots> = map_option (\<lambda>b. (b, rc + length (rl_bytes n)))
        (Option.bind (copy_in buf (p + rc) [?d])
          (\<lambda>b. copy_in b (p + rc + length [?d]) (rl_bytes (n div 128))))"
      using False by (simp only: IH) (cases "copy_in buf (p + rc) [?d]"; simp add: rl_bytes_big)
    also have "\<dots> = map_option (\<lambda>b. (b, rc + length (rl_bytes n))) (copy_in buf (p + rc) (rl_bytes n))"
      using False by (simp only: copy_in_append) (simp add: rl_bytes_big)
    finally show ?thesis .
  qed
qed

text \<open>How the callers use the result: \<open>ptr += MQTTPacket_encode(ptr, n)\<close>.\<close>

definition put_rem_len :: "cursor \<Rightarrow> int \<Rightarrow> cursor option" where
  "put_rem_len c n = (case c of (buf, p) \<Rightarrow>
     map_option (\<lambda>(buf', rc). (buf', p + rc)) (MQTTPacket_encode buf p n))"

lemma put_rem_len_emit [cursor_simps]: "0 \<le> n \<Longrightarrow> put_rem_len c n = emit c (rl_bytes n)"
  by (cases c) (simp add: put_rem_len_def MQTTPacket_encode_def encode_loop_rl_bytes emit_def
      option.map_comp comp_def)

lemma length_rl_bytes_pos [simp]: "0 < length (rl_bytes n)"
  by (simp add: rl_bytes.simps [of n])

text \<open>The length of the encoding, and the bound that \<open>MQTTPacket_len\<close> gives for it.\<close>

lemma length_rl_bytes:
  assumes "0 \<le> n" "n < 268435456"
  shows "length (rl_bytes n) = (if n < 128 then 1 else if n < 16384 then 2
    else if n < 2097152 then 3 else 4)"
proof -
  have "n div 128 < 128 \<longleftrightarrow> n < 16384" "n div 16384 < 128 \<longleftrightarrow> n < 2097152"
    "n div 2097152 < 128 \<longleftrightarrow> n < 268435456"
    by (rule iffI; linarith)+
  with assms show ?thesis
    by (simp add: rl_bytes.simps [of n] rl_bytes.simps [of "n div 128"]
      rl_bytes.simps [of "n div 16384"] rl_bytes.simps [of "n div 2097152"] flip: zdiv_zmult2_eq)
qed

text \<open>
  The decoder reads at most four bytes (a fifth is counted, not read), and what it accumulates stays
  below \<open>2 ^ 28\<close>: the \<open>int\<close> of the code never overflows, whatever the source delivers.
\<close>

lemma decode_loop_bounds:
  "decode_loop get s len m v = Some (k, n, s') \<Longrightarrow> len \<le> 4 \<Longrightarrow> m = 128 ^ len \<Longrightarrow>
   0 \<le> v \<Longrightarrow> v < 128 ^ len \<Longrightarrow> len < k \<and> k \<le> 5 \<and> 0 \<le> n \<and> n < 268435456"
proof (induction get s len m v rule: decode_loop.induct)
  case (1 get s len m v)
  have pow: "(128 :: int) ^ len \<le> 128 ^ 4" using "1.prems"(2) by (intro power_increasing) auto
  show ?case
  proof (cases "Suc len > 4 \<or> (case get s of None \<Rightarrow> True | Some (rc, _, _) \<Rightarrow> rc \<noteq> 1)")
    case True
    with "1.prems" pow show ?thesis
      by (auto simp: decode_loop.simps [of get s] split: option.splits prod.splits if_splits)
  next
    case False
    then obtain c s1 where g: "get s = Some (1, c, s1)" and len: "Suc len \<le> 4"
      by (auto split: option.splits prod.splits)
    let ?v = "v + uint (c AND 127) * m"
    have "uint (c AND 127) \<le> 127"
      using unsigned_take_bit_eq [of 7 c, where 'a = int] take_bit_int_less_exp [of 7 "uint c"]
      by (simp add: byte_and_127)
    then have "uint (c AND 127) * m \<le> 127 * 128 ^ len"
      using "1.prems"(3) by (simp add: mult_right_mono)
    moreover have "0 \<le> uint (c AND 127) * m" using "1.prems"(3) by simp
    ultimately have v: "0 \<le> ?v" "?v < 128 ^ Suc len"
      using "1.prems"(4,5) by (simp_all only: power_Suc)
    have pow1: "(128 :: int) ^ Suc len \<le> 128 ^ 4" using len by (intro power_increasing) auto
    show ?thesis
    proof (cases "c AND 128 = 0")
      case True
      with "1.prems" g len v pow1 show ?thesis
        by (auto simp: decode_loop.simps [of get s])
    next
      case c: False
      have "decode_loop get s1 (Suc len) (m * 128) ?v = Some (k, n, s')"
        using "1.prems"(1) g len c by (simp add: decode_loop.simps [of get s])
      from "1.IH" [OF _ g refl refl _ refl c this] v len "1.prems"(3) show ?thesis by simp
    qed
  qed
qed

lemma decode_no_overflow:
  "MQTTPacket_decode get s = Some (k, n, s') \<Longrightarrow> 0 < k \<and> k \<le> 5 \<and> 0 \<le> n \<and> n < 268435456"
  using decode_loop_bounds [of get s 0 1 0 k n s'] by (simp add: MQTTPacket_decode_def)

lemma decodeBuf_bounds:
  "MQTTPacket_decodeBuf buf p = Some (k, n) \<Longrightarrow> 0 < k \<and> k \<le> 5 \<and> 0 \<le> n \<and> n < 268435456"
  by (auto simp: MQTTPacket_decodeBuf_def dest: decode_no_overflow)

text \<open>A remaining length of one byte.\<close>

lemma decodeBuf_short:
  assumes "drop p buf = c # cs" "uint c < 128"
  shows "MQTTPacket_decodeBuf buf p = Some (1, uint c)"
proof -
  have "uint (c AND 127) = uint c" "c AND 128 = 0"
    using uint_low7 [of "uint c"] assms(2) by auto
  then show ?thesis using load_drop [OF assms(1)]
    by (simp add: MQTTPacket_decodeBuf_def MQTTPacket_decode_def decode_loop.simps bufchar_def)
qed

section \<open>Sources of bytes\<close>

text \<open>
  What the decoder needs of its callback: a source still holding \<open>c # cs\<close> delivers \<open>c\<close>, returns
  1, and then holds \<open>cs\<close>.
\<close>

locale byte_source =
  fixes get :: "'s \<Rightarrow> (int \<times> byte \<times> 's) option"
    and view :: "'s \<Rightarrow> byte list"
  assumes get_Cons: "view s = c # cs \<Longrightarrow> \<exists>s'. get s = Some (1, c, s') \<and> view s' = cs"
begin

lemma decode_loop_rl_bytes:
  "0 \<le> n \<Longrightarrow> len + length (rl_bytes n) \<le> 4 \<Longrightarrow> view s = rl_bytes n @ rest \<Longrightarrow>
   \<exists>s'. decode_loop get s len m v = Some (len + length (rl_bytes n), v + n * m, s') \<and> view s' = rest"
proof (induction n arbitrary: s len m v rule: rl_bytes.induct)
  case (1 n)
  show ?case
  proof (cases "n < 128")
    case True
    let ?c = "word_of_int n :: byte"
    have "view s = ?c # rest" using "1.prems" True by (simp add: rl_bytes_small)
    then obtain s' where s': "get s = Some (1, ?c, s')" "view s' = rest"
      using get_Cons by blast
    have "uint (?c AND 127) = n" "?c AND 128 = 0"
      using "1.prems" True by (simp_all add: uint_low7)
    with s' True "1.prems" show ?thesis
      by (simp add: decode_loop.simps [of get s] rl_bytes_small)
  next
    case False
    let ?c = "word_of_int (n mod 128) OR 128 :: byte"
    have "view s = ?c # rl_bytes (n div 128) @ rest"
      using "1.prems" False by (simp add: rl_bytes_big)
    then obtain s' where s': "get s = Some (1, ?c, s')" "view s' = rl_bytes (n div 128) @ rest"
      using get_Cons by blast
    have c: "uint (?c AND 127) = n mod 128" "?c AND 128 \<noteq> 0"
      using uint_low7 [of "n mod 128"] by simp_all
    have "\<exists>s''. decode_loop get s' (Suc len) (m * 128) (v + n mod 128 * m) =
        Some (Suc len + length (rl_bytes (n div 128)), v + n mod 128 * m + n div 128 * (m * 128), s'')
        \<and> view s'' = rest"
      using "1.IH" [OF False, of "Suc len" s' "m * 128" "v + n mod 128 * m"] False "1.prems" s'
      by (simp add: rl_bytes_big)
    then obtain s'' where s'': "decode_loop get s' (Suc len) (m * 128) (v + n mod 128 * m) =
        Some (Suc len + length (rl_bytes (n div 128)), v + n mod 128 * m + n div 128 * (m * 128), s'')"
      "view s'' = rest" by blast
    have "n * m = (n mod 128 + n div 128 * 128) * m" by simp
    then have eq: "v + n mod 128 * m + n div 128 * (m * 128) = v + n * m"
      by (simp only: distrib_right mult.assoc mult.commute [of m] add.assoc)
    have "Suc len \<le> 4" using "1.prems"(2) False by (simp add: rl_bytes_big)
    then have "decode_loop get s len m v = decode_loop get s' (Suc len) (m * 128) (v + n mod 128 * m)"
      using s' c by (simp add: decode_loop.simps [of get s])
    with s'' eq False show ?thesis by (simp add: rl_bytes_big)
  qed
qed

lemma decode_encode:
  assumes "0 \<le> n" "n < 268435456" "view s = rl_bytes n @ rest"
  shows "\<exists>s'. MQTTPacket_decode get s = Some (length (rl_bytes n), n, s') \<and> view s' = rest"
  using decode_loop_rl_bytes [of n 0 s rest 1 0] assms
  by (simp add: MQTTPacket_decode_def length_rl_bytes)

end

interpretation buf_source: byte_source "bufchar buf" "\<lambda>p. drop p buf" for buf
  by unfold_locales (auto simp: bufchar_def load_drop drop_Cons_Suc)

lemma decodeBuf_rl_bytes:
  assumes "0 \<le> n" "n < 268435456" "drop p buf = rl_bytes n @ rest"
  shows "MQTTPacket_decodeBuf buf p = Some (length (rl_bytes n), n)"
  using buf_source.decode_encode [OF assms] by (auto simp: MQTTPacket_decodeBuf_def)

section \<open>Integers and characters\<close>

definition readInt :: "buffer \<Rightarrow> nat \<Rightarrow> (int \<times> nat) option" where
  "readInt buf p = do {
     hi \<leftarrow> load buf p;
     lo \<leftarrow> load buf (p + 1);
     Some (256 * uint hi + uint lo, p + 2) }"

definition readChar :: "buffer \<Rightarrow> nat \<Rightarrow> (byte \<times> nat) option" where
  "readChar buf p = map_option (\<lambda>c. (c, p + 1)) (load buf p)"

definition writeChar :: "cursor \<Rightarrow> byte \<Rightarrow> cursor option" where
  "writeChar c x = map_option (\<lambda>b. (b, snd c + 1)) (store (fst c) (snd c) x)"

definition writeInt :: "cursor \<Rightarrow> int \<Rightarrow> cursor option" where
  "writeInt c anInt = do {
     c \<leftarrow> writeChar c (word_of_int (anInt sdiv 256));
     writeChar c (word_of_int (anInt smod 256)) }"

text \<open>The two bytes of an integer in network order, and what reading them gives back.\<close>

definition be16 :: "int \<Rightarrow> byte list" where
  "be16 n = [word_of_int (n div 256), word_of_int (n mod 256)]"

lemma length_be16 [simp]: "length (be16 n) = 2"
  by (simp add: be16_def)

lemma writeChar_emit [cursor_simps]: "writeChar c x = emit c [x]"
  by (simp add: writeChar_def emit_def store_copy_in)

lemma writeInt_emit [cursor_simps]: "0 \<le> n \<Longrightarrow> writeInt c n = emit c (be16 n)"
  by (simp add: writeInt_def cursor_simps be16_def sdiv_nonneg smod_nonneg)

lemma readChar_drop: "drop p buf = c # cs \<Longrightarrow> readChar buf p = Some (c, p + 1)"
  by (simp add: readChar_def load_drop)

lemma readInt_drop:
  assumes "drop p buf = be16 n @ cs" "0 \<le> n" "n < 65536"
  shows "readInt buf p = Some (n, p + 2)"
proof -
  from assms(1) have "load buf p = Some (word_of_int (n div 256))"
    "load buf (Suc p) = Some (word_of_int (n mod 256))"
    by (auto simp: be16_def intro: load_drop drop_Cons_Suc)
  moreover have "n div 256 < 256" "0 \<le> n div 256" using assms by auto
  ultimately show ?thesis by (simp add: readInt_def uint_byte_of_int)
qed

lemma readInt_range:
  assumes "readInt buf p = Some (n, q)"
  shows "0 \<le> n \<and> n < 65536 \<and> q = p + 2 \<and> q \<le> length buf"
proof -
  have "n = 256 * uint (buf ! p) + uint (buf ! (p + 1))" "q = p + 2" "p + 1 < length buf"
    using assms by (auto simp: readInt_def bind_eq_Some_conv load_Some_iff)
  then show ?thesis using uint_byte_lt [of "buf ! p"] uint_byte_lt [of "buf ! (p + 1)"] by simp
qed

section \<open>Strings\<close>

text \<open>
  \<open>MQTTString\<close>: a C string and a length-delimited one. The C string is given by its bytes up to the
  terminating NUL; the data pointer by the bytes from it to the end of its object; \<open>None\<close> is
  \<open>NULL\<close>.
\<close>

record MQTTLenString =
  ls_len :: int
  ls_data :: "byte list option"

record MQTTString =
  cstring :: "byte list option"
  lenstring :: MQTTLenString

definition MQTTString_initializer :: MQTTString where
  "MQTTString_initializer = \<lparr>cstring = None, lenstring = \<lparr>ls_len = 0, ls_data = None\<rparr>\<rparr>"

definition writeCString :: "cursor \<Rightarrow> byte list \<Rightarrow> cursor option" where
  "writeCString c str = do {
     c \<leftarrow> writeInt c (int (length str));
     emit c str }"

definition getLenStringLen :: "buffer \<Rightarrow> nat \<Rightarrow> int option" where
  "getLenStringLen buf p = do {
     hi \<leftarrow> load buf p;
     lo \<leftarrow> load buf (p + 1);
     Some (256 * uint hi + uint lo) }"

definition writeMQTTString :: "cursor \<Rightarrow> MQTTString \<Rightarrow> cursor option" where
  "writeMQTTString c s =
     (if 0 < ls_len (lenstring s) then do {
        c \<leftarrow> writeInt c (ls_len (lenstring s));
        bs \<leftarrow> fetch (ls_data (lenstring s)) (nat (ls_len (lenstring s)));
        emit c bs }
      else case cstring s of
             Some str \<Rightarrow> writeCString c str
           | None \<Rightarrow> writeInt c 0)"

text \<open>The result is \<open>rc\<close>, the string structure and the advanced pointer.\<close>

definition readMQTTLenString ::
    "MQTTString \<Rightarrow> buffer \<Rightarrow> nat \<Rightarrow> nat \<Rightarrow> (int \<times> MQTTString \<times> nat) option" where
  "readMQTTLenString s buf p enddata =
     (if int enddata - int p > 1 then do {
        (n, p) \<leftarrow> readInt buf p;
        let s = s\<lparr>lenstring := (lenstring s)\<lparr>ls_len := n\<rparr>\<rparr>;
        if int p + n \<le> int enddata
        then Some (1, s\<lparr>lenstring := (lenstring s)\<lparr>ls_data := Some (drop p buf)\<rparr>, cstring := None\<rparr>,
                   p + nat n)
        else Some (0, s\<lparr>cstring := None\<rparr>, p) }
      else Some (0, s\<lparr>cstring := None\<rparr>, p))"

definition MQTTstrlen :: "MQTTString \<Rightarrow> int" where
  "MQTTstrlen s = (case cstring s of Some str \<Rightarrow> int (length str) | None \<Rightarrow> ls_len (lenstring s))"

text \<open>\<open>strncmp\<close> on two objects: it stops at a difference, at a common NUL or after \<open>n\<close> bytes.\<close>

fun strncmp :: "byte list \<Rightarrow> byte list \<Rightarrow> nat \<Rightarrow> int option" where
  "strncmp xs ys 0 = Some 0"
| "strncmp (x # xs) (y # ys) (Suc n) =
     (if x \<noteq> y then Some (uint x - uint y) else if x = 0 then Some 0 else strncmp xs ys n)"
| "strncmp _ _ (Suc n) = None"

definition MQTTPacket_equals :: "MQTTString \<Rightarrow> byte list \<Rightarrow> bool option" where
  "MQTTPacket_equals a bptr =
     (let (aptr, alen) = (case cstring a of
             Some str \<Rightarrow> (Some (str @ [0]), int (length str))
           | None \<Rightarrow> (ls_data (lenstring a), ls_len (lenstring a)));
          blen = int (length bptr)
      in if alen = blen
         then case aptr of
                None \<Rightarrow> if alen = 0 then Some True else None
              | Some xs \<Rightarrow> map_option (\<lambda>r. r = 0) (strncmp xs (bptr @ [0]) (nat alen))
         else Some False)"

text \<open>
  The text an \<open>MQTTString\<close> stands for, the way \<open>writeMQTTString\<close> reads it, and when the two halves
  of the structure agree and describe bytes that are there.
\<close>

definition str_text :: "MQTTString \<Rightarrow> byte list" where
  "str_text s = (if 0 < ls_len (lenstring s)
     then take (nat (ls_len (lenstring s))) (case ls_data (lenstring s) of None \<Rightarrow> [] | Some d \<Rightarrow> d)
     else case cstring s of Some str \<Rightarrow> str | None \<Rightarrow> [])"

definition wf_string :: "MQTTString \<Rightarrow> bool" where
  "wf_string s \<longleftrightarrow>
     (case cstring s of
        Some str \<Rightarrow> ls_len (lenstring s) \<le> 0 \<and> length str < 65536
      | None \<Rightarrow> 0 \<le> ls_len (lenstring s) \<and> ls_len (lenstring s) < 65536 \<and>
          (case ls_data (lenstring s) of
             None \<Rightarrow> ls_len (lenstring s) = 0
           | Some d \<Rightarrow> nat (ls_len (lenstring s)) \<le> length d))"

definition utf :: "byte list \<Rightarrow> byte list" where
  "utf bs = be16 (int (length bs)) @ bs"

lemma length_utf [simp]: "length (utf bs) = 2 + length bs"
  by (simp add: utf_def)

lemma wf_string_length: "wf_string s \<Longrightarrow> length (str_text s) < 65536"
  by (auto simp: wf_string_def str_text_def split: option.splits)

lemma MQTTstrlen_text: "wf_string s \<Longrightarrow> MQTTstrlen s = int (length (str_text s))"
  by (auto simp: wf_string_def MQTTstrlen_def str_text_def split: option.splits)

lemma writeCString_emit [cursor_simps]: "writeCString c str = emit c (utf str)"
  by (simp add: writeCString_def cursor_simps utf_def)

lemma writeMQTTString_emit [cursor_simps]:
  "wf_string s \<Longrightarrow> writeMQTTString c s = emit c (utf (str_text s))"
  by (auto simp: wf_string_def writeMQTTString_def str_text_def cursor_simps utf_def fetch_def
      split: option.splits)

text \<open>A string structure that refers to the bytes \<open>bs\<close> inside a longer object.\<close>

definition len_string :: "byte list \<Rightarrow> byte list \<Rightarrow> MQTTString" where
  "len_string bs rest = \<lparr>cstring = None, lenstring = \<lparr>ls_len = int (length bs), ls_data = Some (bs @ rest)\<rparr>\<rparr>"

lemma str_text_len_string [simp]: "str_text (len_string bs rest) = bs"
  by (simp add: str_text_def len_string_def)

lemma readMQTTLenString_utf:
  assumes "drop p buf = utf bs @ rest" "length bs < 65536" "p + 2 + length bs \<le> enddata"
  shows "readMQTTLenString s buf p enddata = Some (1, len_string bs rest, p + 2 + length bs)"
proof -
  have r: "readInt buf p = Some (int (length bs), p + 2)"
    using assms by (intro readInt_drop) (auto simp: utf_def)
  have "drop (p + 2) buf = bs @ rest"
    using drop_append_shift [of p buf "be16 (int (length bs))" "bs @ rest"] assms(1)
    by (simp add: utf_def)
  with r assms(3) show ?thesis
    by (simp add: readMQTTLenString_def len_string_def)
qed

text \<open>
  With the end of the data inside the buffer, reading a string never leaves the buffer; the pointer
  advances and stays within the data, and the bytes of a string that is accepted are there.
\<close>

lemma readMQTTLenString_safe:
  assumes "enddata \<le> length buf"
  obtains rc s' q where "readMQTTLenString s buf p enddata = Some (rc, s', q)"
    and "rc = 0 \<or> rc = 1" and "p \<le> q" and "p \<le> enddata \<Longrightarrow> q \<le> enddata"
    and "rc = 1 \<Longrightarrow> p + 2 \<le> q \<and> wf_string s' \<and> str_text s' = take (q - (p + 2)) (drop (p + 2) buf)"
proof (cases "int enddata - int p > 1")
  case False
  then show ?thesis by (intro that) (auto simp: readMQTTLenString_def)
next
  case True
  then have lt: "p + 1 < length buf" using assms by simp
  let ?n = "256 * uint (buf ! p) + uint (buf ! (p + 1))"
  have r: "readInt buf p = Some (?n, p + 2)"
    using lt by (simp add: readInt_def load_def)
  have n: "0 \<le> ?n" "?n < 65536" using readInt_range [OF r] by auto
  show ?thesis
  proof (cases "int (p + 2) + ?n \<le> int enddata")
    case True
    with r n assms \<open>int enddata - int p > 1\<close> show ?thesis
      by (intro that [of 1 _ "p + 2 + nat ?n"])
        (auto simp: readMQTTLenString_def wf_string_def str_text_def min_def nat_less_iff)
  next
    case False
    with r n \<open>int enddata - int p > 1\<close> show ?thesis
      by (intro that [of 0 _ "p + 2"]) (auto simp: readMQTTLenString_def)
  qed
qed

lemma readMQTTLenString_total:
  assumes "enddata \<le> length buf" "p \<le> enddata"
  shows "\<exists>rc s' q. readMQTTLenString s buf p enddata = Some (rc, s', q) \<and> (rc = 0 \<or> rc = 1) \<and>
    p \<le> q \<and> q \<le> enddata"
  using assms(2) by (rule_tac readMQTTLenString_safe [OF assms(1), of s p]) blast

lemma strncmp_eq:
  "n \<le> length xs \<Longrightarrow> 0 \<notin> set ys \<Longrightarrow> n \<le> length ys \<Longrightarrow>
   \<exists>r. strncmp xs (ys @ [0]) n = Some r \<and> (r = 0 \<longleftrightarrow> take n xs = take n ys)"
proof (induction n arbitrary: xs ys)
  case 0
  then show ?case by simp
next
  case (Suc n)
  then obtain x xs' y ys' where "xs = x # xs'" "ys = y # ys'"
    by (metis Suc_le_length_iff)
  with Suc show ?case by (auto simp: word_uint_eq_iff)
qed

lemma MQTTPacket_equals_text:
  assumes "wf_string a" "0 \<notin> set b" "case cstring a of Some str \<Rightarrow> 0 \<notin> set str | None \<Rightarrow> True"
  shows "MQTTPacket_equals a b = Some (str_text a = b)"
proof (cases "MQTTstrlen a = int (length b)")
  case False
  with MQTTstrlen_text [OF assms(1)] show ?thesis
    by (auto simp: MQTTPacket_equals_def MQTTstrlen_def split: option.splits)
next
  case True
  show ?thesis
  proof (cases "cstring a")
    case None
    show ?thesis
    proof (cases "ls_data (lenstring a)")
      case [simp]: None
      with assms(1) \<open>cstring a = None\<close> True show ?thesis
        by (auto simp: MQTTPacket_equals_def wf_string_def str_text_def)
    next
      case (Some d)
      with assms \<open>cstring a = None\<close> True strncmp_eq [of "length b" d b] show ?thesis
        by (auto simp: MQTTPacket_equals_def wf_string_def str_text_def MQTTstrlen_def)
    qed
  next
    case (Some str)
    with assms True strncmp_eq [of "length b" "str @ [0]" b] show ?thesis
      by (auto simp: MQTTPacket_equals_def wf_string_def str_text_def MQTTstrlen_def)
  qed
qed

section \<open>Whole packets\<close>

text \<open>Every packet is a header byte, the remaining length and a body of that length.\<close>

definition frame :: "byte \<Rightarrow> byte list \<Rightarrow> byte list" where
  "frame header body = header # rl_bytes (int (length body)) @ body"

lemma length_frame: "length (frame h body) = 1 + length (rl_bytes (int (length body))) + length body"
  by (simp add: frame_def)

lemma MQTTPacket_len_bounds:
  assumes "0 \<le> n" "n < 268435456"
  shows "n + 1 + int (length (rl_bytes n)) \<le> MQTTPacket_len n"
    and "MQTTPacket_len n \<le> n + 2 + int (length (rl_bytes n))"
  using assms by (auto simp: MQTTPacket_len_def Let_def length_rl_bytes)

lemma frame_fits:
  assumes "MQTTPacket_len (int (length body)) \<le> buflen" "length body < 268435456"
  shows "int (length (frame h body)) \<le> buflen"
  using MQTTPacket_len_bounds(1) [of "int (length body)"] assms by (simp add: length_frame)

text \<open>How every deserializer starts on a well-formed packet: the header byte, then the remaining
  length, which leaves the pointer at the body.\<close>

lemma frame_start:
  assumes "buf = frame h body @ rest" "length body < 268435456"
  shows "readChar buf 0 = Some (h, 1)"
    and "MQTTPacket_decodeBuf buf 1 = Some (length (rl_bytes (int (length body))), int (length body))"
    and "drop (1 + length (rl_bytes (int (length body)))) buf = body @ rest"
proof -
  let ?rl = "rl_bytes (int (length body))"
  have d1: "drop 1 buf = ?rl @ body @ rest" using assms(1) by (simp add: frame_def)
  show "readChar buf 0 = Some (h, 1)"
    using readChar_drop [of 0 buf h] assms(1) by (simp add: frame_def)
  show "MQTTPacket_decodeBuf buf 1 = Some (length ?rl, int (length body))"
    using decodeBuf_rl_bytes [OF _ _ d1] assms(2) by simp
  show "drop (1 + length ?rl) buf = body @ rest" by (rule drop_append_shift [OF d1])
qed

end
