(* ===== verification/Mqtt_Read.thy ===== *)
theory Mqtt_Read
  imports Mqtt_Packet
begin

text \<open>
  The two packet readers of \<open>src/mqtt/MQTTPacket.c\<close>: \<open>MQTTPacket_read\<close>, which takes a whole packet from a
  blocking source, and \<open>MQTTPacket_readnb\<close> with its transport structure, a state machine that is called
  again and again until the packet is complete. The callback is given the number of bytes asked for; it returns its
  result and the bytes it stored at the pointer, and moves its own state on. A blocking callback may also
  never return, which is \<open>None\<close>.
\<close>

type_synonym 's blocking_getfn = "nat \<Rightarrow> 's \<Rightarrow> (int \<times> byte list \<times> 's) option"
type_synonym 's getfn = "nat \<Rightarrow> 's \<Rightarrow> int \<times> byte list \<times> 's"

section \<open>The blocking reader\<close>

text \<open>\<open>(*getfn)(&c, 1)\<close>: one byte into a variable, which stays undefined if nothing was stored.\<close>

definition get1 :: "'s blocking_getfn \<Rightarrow> 's \<Rightarrow> (int \<times> byte \<times> 's) option" where
  "get1 getfn s = do {
     (rc, bs, s') \<leftarrow> getfn 1 s;
     if rc \<noteq> 1 then Some (rc, 0, s') else case bs of [c] \<Rightarrow> Some (rc, c, s') | _ \<Rightarrow> None }"

definition MQTTPacket_read :: "'s blocking_getfn \<Rightarrow> buffer \<Rightarrow> int \<Rightarrow> 's \<Rightarrow> (int \<times> buffer \<times> 's) option" where
  "MQTTPacket_read getfn buf buflen s = do {
     (r, bs, s) \<leftarrow> getfn 1 s;
     buf \<leftarrow> copy_in buf 0 bs;
     if r \<noteq> 1 then Some (- 1, buf, s)
     else do {
       (_, rem_len, s) \<leftarrow> MQTTPacket_decode (get1 getfn) s;
       (buf, n) \<leftarrow> MQTTPacket_encode buf 1 rem_len;
       let len = 1 + n;
       if rem_len + int len > buflen then Some (- 1, buf, s)
       else do {
         (r, bs, s) \<leftarrow> getfn (nat rem_len) s;
         buf \<leftarrow> copy_in buf len bs;
         if r \<noteq> rem_len then Some (- 1, buf, s)
         else do {
           h \<leftarrow> load buf 0;
           Some (uint (hdr_type h), buf, s) } } } }"

text \<open>
  What a blocking source of bytes promises: as long as \<open>n\<close> bytes are still to come, it delivers
  exactly \<open>n\<close>, in order.
\<close>

locale packet_source =
  fixes getfn :: "'s blocking_getfn"
    and pending :: "'s \<Rightarrow> byte list"
  assumes deliver: "n \<le> length (pending s) \<Longrightarrow>
    \<exists>s'. getfn n s = Some (int n, take n (pending s), s') \<and> pending s' = drop n (pending s)"

sublocale packet_source \<subseteq> byte_source "get1 getfn" pending
proof
  fix s c cs
  assume p: "pending s = c # cs"
  then obtain s' where "getfn 1 s = Some (1, [c], s')" "pending s' = cs"
    using deliver [of 1 s] by auto
  then show "\<exists>s'. get1 getfn s = Some (1, c, s') \<and> pending s' = cs"
    by (simp add: get1_def)
qed

context packet_source
begin

lemma read_frame:
  assumes "pending s = frame h body @ rest" "length body < 268435456"
    and "int (length (frame h body)) \<le> buflen" "buflen \<le> int (length buf)"
  shows "\<exists>s'. MQTTPacket_read getfn buf buflen s =
      Some (uint (hdr_type h), frame h body @ drop (length (frame h body)) buf, s') \<and> pending s' = rest"
proof -
  let ?n = "int (length body)"
  let ?rl = "rl_bytes ?n"
  obtain s1 where s1: "getfn 1 s = Some (1, [h], s1)" "pending s1 = ?rl @ body @ rest"
    using deliver [of 1 s] assms(1) by (auto simp: frame_def)
  obtain s2 where s2: "MQTTPacket_decode (get1 getfn) s1 = Some (length ?rl, ?n, s2)"
    "pending s2 = body @ rest"
    using decode_encode [OF _ _ s1(2)] assms(2) by auto
  obtain s3 where s3: "getfn (length body) s2 = Some (?n, body, s3)" "pending s3 = rest"
    using deliver [of "length body" s2] s2(2) by auto
  obtain x xs where buf: "buf = x # xs" using assms(3,4) by (cases buf) (auto simp: frame_def)
  have l: "Suc (length ?rl) + length body \<le> length buf"
    using assms(3,4) by (simp add: length_frame)
  have c0: "copy_in buf 0 [h] = Some (h # xs)" by (simp add: copy_in_0 buf)
  have c1: "MQTTPacket_encode (h # xs) 1 ?n = Some (h # ?rl @ drop (length ?rl) xs, length ?rl)"
    using l by (simp add: MQTTPacket_encode_def encode_loop_rl_bytes copy_in_def buf)
  have c2: "copy_in (h # ?rl @ drop (length ?rl) xs) (Suc (length ?rl)) body =
      Some (h # ?rl @ body @ drop (length ?rl + length body) xs)"
    using l by (simp add: copy_in_def buf add.commute)
  have "\<not> ?n + int (1 + length ?rl) > buflen" using assms(3) by (simp add: length_frame)
  then have "MQTTPacket_read getfn buf buflen s =
      Some (uint (hdr_type h), h # ?rl @ body @ drop (length ?rl + length body) xs, s3)"
    using s1(1) s2(1) s3(1) c0 c1 c2 by (simp add: MQTTPacket_read_def Let_def load_def)
  then show ?thesis using s3(2) by (simp add: frame_def buf)
qed

end

section \<open>The non-blocking reader\<close>

record 's MQTTTransport =
  sck :: 's
  multiplier :: int
  rem_len :: int
  tr_len :: int
  state :: int

text \<open>
  \<open>MQTTPacket_decodenb\<close>: the loop counts an attempt in \<open>trp->len\<close> before it is known whether
  a byte has come.
\<close>

function decodenb_loop :: "'s getfn \<Rightarrow> 's MQTTTransport \<Rightarrow> (int \<times> 's MQTTTransport) option" where
  "decodenb_loop getfn trp =
     (let trp = trp\<lparr>tr_len := tr_len trp + 1\<rparr>
      in if tr_len trp > 4 then Some (MQTTPACKET_READ_ERROR, trp)
         else case getfn 1 (sck trp) of (frc, bs, s) \<Rightarrow>
           let trp = trp\<lparr>sck := s\<rparr>
           in if frc = - 1 then Some (MQTTPACKET_READ_ERROR, trp)
              else if frc = 0 then Some (0, trp)
              else case bs of
                     [c] \<Rightarrow>
                       let trp = trp\<lparr>rem_len := rem_len trp + uint (c AND 127) * multiplier trp,
                                     multiplier := multiplier trp * 128\<rparr>
                       in if c AND 128 \<noteq> 0 then decodenb_loop getfn trp else Some (tr_len trp, trp)
                   | _ \<Rightarrow> None)"
  by pat_completeness auto
termination
  by (relation "measure (\<lambda>(_, trp). nat (4 - tr_len trp))") auto

declare decodenb_loop.simps [simp del]

definition MQTTPacket_decodenb :: "'s getfn \<Rightarrow> 's MQTTTransport \<Rightarrow> (int \<times> 's MQTTTransport) option" where
  "MQTTPacket_decodenb getfn trp =
     decodenb_loop getfn (if tr_len trp = 0 then trp\<lparr>multiplier := 1, rem_len := 0\<rparr> else trp)"

text \<open>
  \<open>MQTTPacket_readnb\<close>: each case of the switch, falling through to the next. \<open>exit\<close> resets the state;
  the early \<open>return 0\<close> keeps it.
\<close>

definition readnb_body ::
    "'s getfn \<Rightarrow> buffer \<Rightarrow> 's MQTTTransport \<Rightarrow> (int \<times> buffer \<times> 's MQTTTransport) option" where
  "readnb_body getfn buf trp = do {
     let (frc, bs, s) = getfn (nat (rem_len trp)) (sck trp);
     buf \<leftarrow> copy_in buf (nat (tr_len trp)) bs;
     let trp = trp\<lparr>sck := s\<rparr>;
     if frc = - 1 then Some (- 1, buf, trp\<lparr>state := 0\<rparr>)
     else if frc = 0 then Some (0, buf, trp)
     else do {
       let trp = trp\<lparr>rem_len := rem_len trp - frc, tr_len := tr_len trp + frc\<rparr>;
       if rem_len trp \<noteq> 0 then Some (0, buf, trp)
       else do {
         h \<leftarrow> load buf 0;
         Some (uint (hdr_type h), buf, trp\<lparr>state := 0\<rparr>) } } }"

definition readnb_length ::
    "'s getfn \<Rightarrow> buffer \<Rightarrow> int \<Rightarrow> 's MQTTTransport \<Rightarrow> (int \<times> buffer \<times> 's MQTTTransport) option" where
  "readnb_length getfn buf buflen trp = do {
     (frc, trp) \<leftarrow> MQTTPacket_decodenb getfn trp;
     if frc = MQTTPACKET_READ_ERROR then Some (- 1, buf, trp\<lparr>state := 0\<rparr>)
     else if frc = 0 then Some (0, buf, trp)
     else do {
       (buf, n) \<leftarrow> MQTTPacket_encode buf 1 (rem_len trp);
       let trp = trp\<lparr>tr_len := 1 + int n\<rparr>;
       if rem_len trp + tr_len trp > buflen then Some (- 1, buf, trp\<lparr>state := 0\<rparr>)
       else readnb_body getfn buf (trp\<lparr>state := state trp + 1\<rparr>) } }"

definition MQTTPacket_readnb ::
    "'s getfn \<Rightarrow> buffer \<Rightarrow> int \<Rightarrow> 's MQTTTransport \<Rightarrow> (int \<times> buffer \<times> 's MQTTTransport) option" where
  "MQTTPacket_readnb getfn buf buflen trp =
     (if state trp = 1 then readnb_length getfn buf buflen trp
      else if state trp = 2 then readnb_body getfn buf trp
      else do {
        let trp = trp\<lparr>state := 0\<rparr>;
        let (frc, bs, s) = getfn 1 (sck trp);
        buf \<leftarrow> copy_in buf 0 bs;
        let trp = trp\<lparr>sck := s\<rparr>;
        if frc = - 1 then Some (- 1, buf, trp\<lparr>state := 0\<rparr>)
        else if frc = 0 then Some (0, buf, trp)
        else readnb_length getfn buf buflen (trp\<lparr>tr_len := 0, state := state trp + 1\<rparr>) })"


text \<open>
  A non-blocking source: asked for \<open>n\<close> bytes it stores and reports any number of them up to \<open>n\<close>, the
  next ones in order, where 0 stands for \<^emph>\<open>call again\<close>.
\<close>

definition nonblocking :: "'s getfn \<Rightarrow> ('s \<Rightarrow> byte list) \<Rightarrow> bool" where
  "nonblocking getfn pending \<longleftrightarrow>
     (\<forall>n s. \<exists>k s'. k \<le> n \<and> k \<le> length (pending s) \<and>
        getfn n s = (int k, take k (pending s), s') \<and> pending s' = drop k (pending s))"

lemma nonblockingE:
  assumes "nonblocking getfn pending"
  obtains k s' where "k \<le> n" "k \<le> length (pending s)" "getfn n s = (int k, take k (pending s), s')"
    "pending s' = drop k (pending s)"
  using assms unfolding nonblocking_def by blast

text \<open>
  Where the reader stands between two calls while the packet \<open>frame h body\<close> comes in: before its first byte; in
  the middle of the remaining length, with \<open>m\<close> the part of it still to come, where \<open>z\<close> calls have ended; or in the body.
\<close>

definition reading ::
    "('s \<Rightarrow> byte list) \<Rightarrow> byte \<Rightarrow> byte list \<Rightarrow> byte list \<Rightarrow> nat \<Rightarrow> buffer \<Rightarrow> 's MQTTTransport \<Rightarrow> bool" where
  "reading pending h body rest z buf trp \<longleftrightarrow>
     (let n = int (length body); todo = pending (sck trp) in
      if state trp = 1 then
        take 1 buf = [h] \<and> 0 \<le> tr_len trp \<and>
        (\<exists>m \<ge> 0. todo = rl_bytes m @ body @ rest \<and> tr_len trp + int (length (rl_bytes m)) = int (z + length (rl_bytes n)) \<and>
           (if tr_len trp = 0 then m = n else rem_len trp + m * multiplier trp = n))
      else if state trp = 2 then
        (\<exists>k < length body. tr_len trp = int (length (frame h body) - length body + k) \<and>
           rem_len trp = n - int k \<and> todo = drop k body @ rest \<and>
           take (length (frame h body) - length body + k) buf =
             take (length (frame h body) - length body + k) (frame h body))
      else z = 0 \<and> todo = frame h body @ rest)"

lemma rl_bytes_first:
  assumes "0 \<le> m"
  obtains c cs where "rl_bytes m = c # cs" "c AND 128 = 0" "cs = []" "uint (c AND 127) = m"
  | c cs where "rl_bytes m = c # cs" "c AND 128 \<noteq> 0" "cs = rl_bytes (m div 128)"
      "uint (c AND 127) = m mod 128"
proof (cases "m < 128")
  case True
  with assms show thesis
    using that(1) [of "word_of_int m"] uint_low7 [of m] by (simp add: rl_bytes_small)
next
  case False
  show thesis
    using that(2) [of "word_of_int (m mod 128) OR 128"] uint_low7 [of "m mod 128"] False
    by (simp add: rl_bytes_big)
qed

lemma decodenb_loop_progress:
  assumes nb: "nonblocking getfn pending"
  shows "pending (sck trp) = rl_bytes m @ todo \<Longrightarrow> 0 \<le> m \<Longrightarrow> 0 \<le> tr_len trp \<Longrightarrow>
    rem_len trp + m * multiplier trp = n \<Longrightarrow> tr_len trp + int (length (rl_bytes m)) = c \<Longrightarrow>
    \<exists>rc trp'. decodenb_loop getfn trp = Some (rc, trp') \<and> state trp' = state trp \<and> 0 < tr_len trp' \<and>
      (rc = - 1 \<and> 4 < c \<or>
       rc = 0 \<and> (\<exists>m' \<ge> 0. pending (sck trp') = rl_bytes m' @ todo \<and> rem_len trp' + m' * multiplier trp' = n \<and>
         tr_len trp' + int (length (rl_bytes m')) = c + 1) \<or>
       0 < rc \<and> pending (sck trp') = todo \<and> rem_len trp' = n)"
proof (induction "nat (4 - tr_len trp)" arbitrary: trp m rule: less_induct)
  case less
  show ?case
  proof (cases "tr_len trp + 1 > 4")
    case True
    moreover have "rl_bytes m \<noteq> []" using rl_bytes_first [OF less.prems(2)] by (metis list.distinct(1))
    then have "1 \<le> int (length (rl_bytes m))" by (cases "rl_bytes m") simp_all
    ultimately show ?thesis using less.prems(3,5) by (simp add: decodenb_loop.simps [of getfn trp])
  next
    case len: False
    obtain k s' where k: "k \<le> 1" "getfn 1 (sck trp) = (int k, take k (pending (sck trp)), s')"
      "pending s' = drop k (pending (sck trp))"
      using nonblockingE [OF nb, of 1 "sck trp"] by metis
    show ?thesis
    proof (cases "k = 0")
      case True
      with len k less.prems show ?thesis by (auto simp: decodenb_loop.simps [of getfn trp])
    next
      case False
      with k(1) have [simp]: "k = 1" by simp
      from less.prems(2) show ?thesis
      proof (cases rule: rl_bytes_first)
        case (1 c cs)
        with len k less.prems show ?thesis
          by (simp add: decodenb_loop.simps [of getfn trp])
      next
        case (2 c cs)
        let ?t = "trp\<lparr>tr_len := tr_len trp + 1, sck := s', rem_len := rem_len trp + (m mod 128) * multiplier trp,
          multiplier := multiplier trp * 128\<rparr>"
        have step: "decodenb_loop getfn trp = decodenb_loop getfn ?t"
          using len k(2) 2 less.prems(1) by (simp add: decodenb_loop.simps [of getfn trp])
        have n: "rem_len ?t + (m div 128) * multiplier ?t = n"
          using less.prems(4) by (simp add: algebra_simps flip: distrib_left)
        show ?thesis
          unfolding step using less.hyps [of ?t "m div 128"] len less.prems(2,3,5) n k(2,3) 2 less.prems(1)
          by simp
      qed
    qed
  qed
qed


text \<open>One call: the outcome that each entry point of the switch can have.\<close>

definition progress ::
    "('s \<Rightarrow> byte list) \<Rightarrow> byte \<Rightarrow> byte list \<Rightarrow> byte list \<Rightarrow> buffer \<Rightarrow>
     nat \<Rightarrow> (int \<times> buffer \<times> 's MQTTTransport) option \<Rightarrow> bool" where
  "progress pending h body rest buf z res \<longleftrightarrow>
     (\<exists>rc buf' trp'. res = Some (rc, buf', trp') \<and> length buf' = length buf \<and>
        (rc = 0 \<and> reading pending h body rest (if state trp' = 1 then Suc z else z) buf' trp' \<or>
         rc = uint (hdr_type h) \<and> state trp' = 0 \<and> pending (sck trp') = rest \<and>
           take (length (frame h body)) buf' = frame h body \<or>
         rc = - 1 \<and> state trp' = 0 \<and> 4 < z + length (rl_bytes (int (length body)))))"

lemma readnb_body_eval:
  assumes "getfn (nat (rem_len trp)) (sck trp) = (frc, bs, s')"
    and "copy_in buf (nat (tr_len trp)) bs = Some buf'"
  shows "readnb_body getfn buf trp =
    (if frc = - 1 then Some (- 1, buf', trp\<lparr>sck := s', state := 0\<rparr>)
     else if frc = 0 then Some (0, buf', trp\<lparr>sck := s'\<rparr>)
     else if rem_len trp - frc \<noteq> 0
     then Some (0, buf', trp\<lparr>sck := s', rem_len := rem_len trp - frc, tr_len := tr_len trp + frc\<rparr>)
     else map_option (\<lambda>h. (uint (hdr_type h), buf', trp\<lparr>sck := s', rem_len := rem_len trp - frc,
       tr_len := tr_len trp + frc, state := 0\<rparr>)) (load buf' 0))"
  using assms by (cases "load buf' 0") (auto simp: readnb_body_def Let_def)

lemma readnb_body_progress:
  assumes nb: "nonblocking getfn pending"
    and r: "reading pending h body rest z buf trp" "state trp = 2"
    and fit: "length (frame h body) \<le> length buf"
  shows "progress pending h body rest buf z (readnb_body getfn buf trp)"
proof -
  define L where "L = length (frame h body) - length body"
  have L: "length (frame h body) = L + length body" "0 < L" by (simp_all add: L_def length_frame)
  obtain k where k: "k < length body" "tr_len trp = int (L + k)" "rem_len trp = int (length body - k)"
    "pending (sck trp) = drop k body @ rest" "take (L + k) buf = take (L + k) (frame h body)"
    using r by (auto simp: reading_def L_def of_nat_diff)
  have dropL: "drop L (frame h body) = body" by (simp add: L_def frame_def)
  obtain j s' where j: "j \<le> length body - k"
    "getfn (length body - k) (sck trp) = (int j, take j (pending (sck trp)), s')"
    "pending s' = drop j (pending (sck trp))"
    using nonblockingE [OF nb, of "length body - k" "sck trp"] by metis
  have bs: "take j (pending (sck trp)) = take j (drop k body)" using j(1) k(4) by simp
  have todo: "pending s' = drop (k + j) body @ rest"
    using j(1,3) k(4) by (simp add: add.commute)
  let ?buf = "take (L + k) buf @ take j (drop k body) @ drop (L + k + j) buf"
  have ci: "copy_in buf (L + k) (take j (drop k body)) = Some ?buf"
    using fit L(1) j(1) k(1) by (simp add: copy_in_def)
  have len: "length ?buf = length buf" using copy_in_length [OF ci] .
  have tk: "take (L + (k + j)) ?buf = take (L + (k + j)) (frame h body)"
  proof -
    have "take (L + (k + j)) (frame h body) = take (L + k) (frame h body) @ take j (drop (L + k) (frame h body))"
      by (metis add.assoc take_add)
    also have "drop (L + k) (frame h body) = drop k body"
      by (metis dropL drop_drop add.commute)
    finally have "take (L + (k + j)) (frame h body) = take (L + k) buf @ take j (drop k body)"
      by (simp only: k(5))
    moreover have "length (take (L + k) buf @ take j (drop k body)) = L + (k + j)"
      using fit L(1) j(1) k(1) by simp
    ultimately show ?thesis
      by (metis append.assoc append_eq_conv_conj)
  qed
  have nat: "nat (tr_len trp) = L + k" "nat (rem_len trp) = length body - k" using k(2,3) by simp_all
  have g: "getfn (nat (rem_len trp)) (sck trp) = (int j, take j (drop k body), s')"
    using j(2) bs nat by simp
  note eval = readnb_body_eval [of getfn trp, OF g, unfolded nat(1), OF ci]
  have rem: "rem_len trp - int j = int (length body - (k + j))" using k j(1) by (simp add: of_nat_diff)
  show ?thesis
  proof (cases "j = 0")
    case True
    have "reading pending h body rest z ?buf (trp\<lparr>sck := s'\<rparr>)"
      using True k r(2) todo tk L by (auto simp: reading_def of_nat_diff)
    moreover have "readnb_body getfn buf trp = Some (0, ?buf, trp\<lparr>sck := s'\<rparr>)"
      using True by (simp add: eval)
    ultimately show ?thesis using len r(2) unfolding progress_def by (intro exI [of _ 0] exI [of _ ?buf] exI [of _ "trp\<lparr>sck := s'\<rparr>"]) simp
  next
    case j0: False
    let ?t = "trp\<lparr>sck := s', rem_len := int (length body - (k + j)), tr_len := int (L + (k + j))\<rparr>"
    have e: "trp\<lparr>sck := s', rem_len := rem_len trp - int j, tr_len := tr_len trp + int j\<rparr> = ?t"
      using k j(1) by (simp add: of_nat_diff)
    show ?thesis
    proof (cases "k + j = length body")
      case True
      have "?buf ! 0 = take (L + (k + j)) ?buf ! 0" using L(2) by (intro nth_take [symmetric]) simp
      also have "\<dots> = h" unfolding tk using L(2) by (simp add: frame_def)
      finally have "?buf ! 0 = h" .
      moreover have "load ?buf 0 = Some (?buf ! 0)"
        unfolding load_def len using fit L by (simp only: if_True) auto
      ultimately have "readnb_body getfn buf trp = Some (uint (hdr_type h), ?buf, ?t\<lparr>state := 0\<rparr>)"
        using j0 True rem k(2) by (simp add: eval del: length_append)
      then show ?thesis using len True tk L todo by (auto simp: progress_def)
    next
      case False
      have "reading pending h body rest z ?buf ?t"
        using False k j(1) r(2) todo tk L
        by (auto simp: reading_def of_nat_diff intro!: exI [of _ "k + j"])
      moreover have "readnb_body getfn buf trp = Some (0, ?buf, ?t)"
        using j0 False j(1) k(1,2) rem by (simp add: eval)
      ultimately show ?thesis using len r(2) unfolding progress_def by (intro exI [of _ 0] exI [of _ ?buf] exI [of _ ?t]) simp
    qed
  qed
qed


lemma readnb_length_progress:
  assumes nb: "nonblocking getfn pending"
    and r: "reading pending h body rest z buf trp" "state trp = 1"
    and fit: "int (length (frame h body)) \<le> buflen" "buflen \<le> int (length buf)"
    and body: "body \<noteq> []" "length body < 268435456"
  shows "progress pending h body rest buf z (readnb_length getfn buf buflen trp)"
proof -
  define rl where "rl = rl_bytes (int (length body))"
  have L: "length (frame h body) = 1 + length rl + length body" by (simp add: rl_def length_frame)
  have h: "take 1 buf = [h]" and t0: "0 \<le> tr_len trp" using r by (auto simp: reading_def Let_def)
  let ?init = "if tr_len trp = 0 then trp\<lparr>multiplier := 1, rem_len := 0\<rparr> else trp"
  obtain m where m: "0 \<le> m" "pending (sck ?init) = rl_bytes m @ (body @ rest)" "0 \<le> tr_len ?init"
    "rem_len ?init + m * multiplier ?init = int (length body)" "tr_len ?init + int (length (rl_bytes m)) = int (z + length rl)"
    using r by (cases "tr_len trp = 0") (auto simp: reading_def Let_def rl_def)
  have init: "state ?init = 1" using r(2) by simp
  obtain rc trp' where d: "MQTTPacket_decodenb getfn trp = Some (rc, trp')"
    and st: "state trp' = 1" "0 < tr_len trp'"
    and cases: "rc = - 1 \<and> 4 < int (z + length rl) \<or>
       rc = 0 \<and> (\<exists>m' \<ge> 0. pending (sck trp') = rl_bytes m' @ body @ rest \<and>
         rem_len trp' + m' * multiplier trp' = int (length body) \<and> tr_len trp' + int (length (rl_bytes m')) = int (z + length rl) + 1) \<or>
       0 < rc \<and> pending (sck trp') = body @ rest \<and> rem_len trp' = int (length body)"
    using decodenb_loop_progress [OF nb m(2,1,3,4,5)] init unfolding MQTTPacket_decodenb_def by metis
  from cases show ?thesis
  proof (elim disjE conjE exE)
    assume "rc = - 1" "4 < int (z + length rl)"
    with d show ?thesis by (simp add: progress_def readnb_length_def rl_def)
  next
    fix m' assume "rc = 0" "0 \<le> m'" "pending (sck trp') = rl_bytes m' @ body @ rest"
      "rem_len trp' + m' * multiplier trp' = int (length body)" "tr_len trp' + int (length (rl_bytes m')) = int (z + length rl) + 1"
    with d st h show ?thesis by (auto simp: progress_def readnb_length_def reading_def rl_def Let_def)
  next
    assume rc: "0 < rc" "pending (sck trp') = body @ rest" "rem_len trp' = int (length body)"
    obtain x xs where buf: "buf = h # xs" using h by (cases buf) auto
    let ?buf = "h # rl @ drop (length rl) xs"
    have enc: "MQTTPacket_encode buf 1 (int (length body)) = Some (?buf, length rl)"
      using fit L by (simp add: MQTTPacket_encode_def encode_loop_rl_bytes copy_in_def buf rl_def)
    have len: "length ?buf = length buf" using fit L by (simp add: buf)
    let ?t = "trp'\<lparr>tr_len := 1 + int (length rl), state := 2\<rparr>"
    have "readnb_length getfn buf buflen trp = readnb_body getfn ?buf ?t"
      using d rc enc fit(1) L st(1) by (simp add: readnb_length_def)
    moreover have "reading pending h body rest z ?buf ?t"
      using rc body(1) L by (auto simp: reading_def frame_def rl_def)
    ultimately show ?thesis
      using readnb_body_progress [OF nb, of h body rest z ?buf ?t] fit len by (simp add: progress_def)
  qed
qed

text \<open>One call from any entry point of the switch.\<close>

lemma readnb_call:
  assumes "nonblocking getfn pending" "reading pending h body rest z buf trp"
    and "int (length (frame h body)) \<le> buflen" "buflen \<le> int (length buf)"
    and "body \<noteq> []" "length body < 268435456"
  shows "progress pending h body rest buf z (MQTTPacket_readnb getfn buf buflen trp)"
proof -
  have "progress pending h body rest buf z (MQTTPacket_readnb getfn buf buflen trp)"
  proof (cases "state trp = 1 \<or> state trp = 2")
    case True
    then show ?thesis
      using readnb_length_progress [OF assms(1,2) _ assms(3-6)]
        readnb_body_progress [OF assms(1,2)] assms(3,4) by (auto simp: MQTTPacket_readnb_def)
  next
    case False
    then have z: "z = 0" using assms(2) by (simp add: reading_def)
    from False have todo: "pending (sck trp) = h # rl_bytes (int (length body)) @ body @ rest"
      using assms(2) by (simp add: reading_def frame_def)
    obtain x xs where buf: "buf = x # xs" using assms(3,4) by (cases buf) (auto simp: frame_def)
    obtain k s' where k: "k \<le> 1" "getfn 1 (sck trp) = (int k, take k (pending (sck trp)), s')"
      "pending s' = drop k (pending (sck trp))"
      using nonblockingE [OF assms(1), of 1 "sck trp"] by metis
    show ?thesis
    proof (cases "k = 0")
      case True
      with False k z todo show ?thesis
        by (auto simp: MQTTPacket_readnb_def progress_def reading_def copy_in_def frame_def)
    next
      case k1: False
      with k(1) have [simp]: "k = 1" by simp
      let ?t = "trp\<lparr>sck := s', tr_len := 0, state := 1\<rparr>"
      have "MQTTPacket_readnb getfn buf buflen trp = readnb_length getfn (h # xs) buflen ?t"
        using False k todo buf by (simp add: MQTTPacket_readnb_def copy_in_def)
      moreover have "reading pending h body rest 0 (h # xs) ?t"
        using k todo by (simp add: reading_def)
      ultimately show ?thesis
        using readnb_length_progress [OF assms(1), of h body rest 0 "h # xs" ?t buflen] assms(3-6) buf z
        by (simp add: progress_def)
    qed
  qed
  then show ?thesis .
qed

text \<open>
  Calling the reader until its result is not 0, at most \<open>k\<close> times, with the number \<open>z\<close> of the calls that ended in the remaining length because
  there was no byte.
\<close>

fun readnb_calls ::
    "'s getfn \<Rightarrow> int \<Rightarrow> nat \<Rightarrow> nat \<Rightarrow> buffer \<Rightarrow> 's MQTTTransport \<Rightarrow> (int \<times> nat \<times> buffer \<times> 's MQTTTransport) option" where
  "readnb_calls getfn buflen 0 z buf trp = Some (0, z, buf, trp)"
| "readnb_calls getfn buflen (Suc k) z buf trp = do {
     (rc, buf, trp) \<leftarrow> MQTTPacket_readnb getfn buf buflen trp;
     if rc \<noteq> 0 then Some (rc, z, buf, trp)
     else readnb_calls getfn buflen k (if state trp = 1 then Suc z else z) buf trp }"

lemma readnb_calls_progress:
  assumes "nonblocking getfn pending" "reading pending h body rest z buf trp"
    and "int (length (frame h body)) \<le> buflen" "buflen \<le> int (length buf)"
    and "body \<noteq> []" "length body < 268435456" "hdr_type h \<noteq> 0"
  shows "\<exists>rc z' buf' trp'. readnb_calls getfn buflen k z buf trp = Some (rc, z', buf', trp') \<and> length buf' = length buf \<and>
    (rc = 0 \<and> reading pending h body rest z' buf' trp' \<or>
     rc = uint (hdr_type h) \<and> state trp' = 0 \<and> pending (sck trp') = rest \<and>
       take (length (frame h body)) buf' = frame h body \<or>
     rc = - 1 \<and> state trp' = 0 \<and> 4 < z' + length (rl_bytes (int (length body))))"
  using assms(2,4)
proof (induction k arbitrary: z buf trp)
  case (Suc k)
  have h: "uint (hdr_type h) \<noteq> 0" using assms(7) by (simp add: uint_0_iff)
  obtain rc buf' trp' where c: "MQTTPacket_readnb getfn buf buflen trp = Some (rc, buf', trp')" "length buf' = length buf"
    "rc = 0 \<and> reading pending h body rest (if state trp' = 1 then Suc z else z) buf' trp' \<or>
     rc = uint (hdr_type h) \<and> state trp' = 0 \<and> pending (sck trp') = rest \<and> take (length (frame h body)) buf' = frame h body \<or>
     rc = - 1 \<and> state trp' = 0 \<and> 4 < z + length (rl_bytes (int (length body)))"
    using readnb_call [OF assms(1) Suc.prems(1) assms(3) Suc.prems(2) assms(5,6)] unfolding progress_def by blast
  show ?case
  proof (cases "rc = 0")
    case True
    then have "reading pending h body rest (if state trp' = 1 then Suc z else z) buf' trp'" using c(3) h by auto
    from Suc.IH [OF this] show ?thesis using True c(1,2) Suc.prems(2) by simp
  next
    case False
    then show ?thesis using c by auto
  qed
qed auto

section \<open>Properties\<close>

text \<open>
  C35. The non-blocking reader, called again and again while a packet with a body comes in, in pieces of any size: after any number of calls it
  still asks to be called again and has kept its place in the packet exactly, or it has completed the packet, which is whole at the start
  of the buffer, with its type as the result and the source at the byte after it, or it has failed; it fails only when the calls that found no
  byte of the remaining length and the bytes of this length are more than four together. It never writes outside the buffer.
\<close>

theorem readnb_progress:
  assumes "nonblocking getfn pending" "pending (sck trp) = frame h body @ rest" "state trp = 0"
    and "int (length (frame h body)) \<le> buflen" "buflen \<le> int (length buf)"
    and "body \<noteq> []" "length body < 268435456" "hdr_type h \<noteq> 0"
  shows "\<exists>rc z buf' trp'. readnb_calls getfn buflen k 0 buf trp = Some (rc, z, buf', trp') \<and> length buf' = length buf \<and>
    (rc = 0 \<and> reading pending h body rest z buf' trp' \<or>
     rc = uint (hdr_type h) \<and> state trp' = 0 \<and> pending (sck trp') = rest \<and>
       take (length (frame h body)) buf' = frame h body \<or>
     rc = - 1 \<and> state trp' = 0 \<and> 4 < z + length (rl_bytes (int (length body))))"
  by (rule readnb_calls_progress [OF assms(1) _ assms(4-8)]) (simp add: reading_def assms(2,3))

text \<open>A source with its bytes in a list and a schedule of how many to deliver at each call.\<close>

definition scheduled :: "nat \<Rightarrow> nat list \<times> byte list \<Rightarrow> int \<times> byte list \<times> nat list \<times> byte list" where
  "scheduled n s = (case s of (ks, bs) \<Rightarrow>
     let k = min n (min (length bs) (case ks of [] \<Rightarrow> n | k # _ \<Rightarrow> k))
     in (int k, take k bs, tl ks, drop k bs))"

lemma nonblocking_scheduled: "nonblocking scheduled snd"
  unfolding nonblocking_def scheduled_def
  by (auto simp: Let_def split: prod.split intro!: exI [of _ "min _ _"])

theorem readnb_progress_witness:
  "\<exists>rc z buf' trp'. readnb_calls scheduled 4 9 0 [9, 9, 9, 9]
      \<lparr>sck = ([1, 0, 1, 0, 1], [0x30, 2, 7, 8]), multiplier = 1, rem_len = 0, tr_len = 0, state = 0\<rparr> = Some (rc, z, buf', trp') \<and>
    length buf' = length [9, 9, 9, 9 :: byte] \<and>
    (rc = 0 \<and> reading snd 0x30 [7, 8] [] z buf' trp' \<or>
     rc = uint (hdr_type 0x30) \<and> state trp' = 0 \<and> snd (sck trp') = [] \<and>
       take (length (frame 0x30 [7, 8])) buf' = frame 0x30 [7, 8] \<or>
     rc = - 1 \<and> state trp' = 0 \<and> 4 < z + length (rl_bytes (int (length [7, 8 :: byte]))))"
  by (rule readnb_progress [OF nonblocking_scheduled])
    (simp_all add: frame_def rl_bytes_small hdr_type_def get_field_def)

text \<open>Calling the reader \<open>k\<close> times, with the list of its results.\<close>

fun readnb_poll ::
    "'s getfn \<Rightarrow> int \<Rightarrow> nat \<Rightarrow> buffer \<Rightarrow> 's MQTTTransport \<Rightarrow> (int list \<times> buffer \<times> 's MQTTTransport) option" where
  "readnb_poll getfn buflen 0 buf trp = Some ([], buf, trp)"
| "readnb_poll getfn buflen (Suc k) buf trp = do {
     (rc, buf, trp) \<leftarrow> MQTTPacket_readnb getfn buf buflen trp;
     (rcs, buf, trp) \<leftarrow> readnb_poll getfn buflen k buf trp;
     Some (rc # rcs, buf, trp) }"

text \<open>
  The non-blocking reader never completes a packet without a body: at the end of the remaining
  length 0 it asks its source for 0 bytes, and takes the answer 0, the number of bytes read, for
  \<^emph>\<open>call again\<close>. Every further call returns 0 and leaves the transport in state 2; a ping response is
  never received, and neither is anything after it.
\<close>

theorem readnb_empty_body_stuck:
  assumes "nonblocking getfn pending" "state trp = 2" "rem_len trp = 0" "nat (tr_len trp) \<le> length buf"
  shows "\<exists>s'. readnb_poll getfn buflen k buf trp = Some (replicate k 0, buf, trp\<lparr>sck := s'\<rparr>) \<and>
    pending s' = pending (sck trp)"
  using assms(2-4)
proof (induction k arbitrary: trp)
  case 0
  show ?case by (rule exI [of _ "sck trp"]) simp
next
  case (Suc k)
  obtain s' where s': "getfn 0 (sck trp) = (0, [], s')" "pending s' = pending (sck trp)"
    using nonblockingE [OF assms(1), of 0 "sck trp"] by force
  have "MQTTPacket_readnb getfn buf buflen trp = Some (0, buf, trp\<lparr>sck := s'\<rparr>)"
    using Suc.prems s'(1) by (simp add: MQTTPacket_readnb_def readnb_body_def copy_in_def)
  then show ?case using Suc.IH [of "trp\<lparr>sck := s'\<rparr>"] Suc.prems s'(2) by auto
qed

theorem readnb_empty_body_stuck_witness:
  "\<exists>s'. readnb_poll scheduled 4 9 [0xD0, 0, 5, 5]
      \<lparr>sck = ([], [0x30]), multiplier = 128, rem_len = 0, tr_len = 2, state = 2\<rparr> =
    Some (replicate 9 0, [0xD0, 0, 5, 5],
      \<lparr>sck = ([], [0x30]), multiplier = 128, rem_len = 0, tr_len = 2, state = 2\<rparr>\<lparr>sck := s'\<rparr>) \<and>
    snd s' = snd ([] :: nat list, [0x30 :: byte])"
  using readnb_empty_body_stuck [OF nonblocking_scheduled,
      of "\<lparr>sck = ([], [0x30]), multiplier = 128, rem_len = 0, tr_len = 2, state = 2\<rparr>" "[0xD0, 0, 5, 5]" 4 9]
  by simp

text \<open>
  The non-blocking reader counts its attempts, not the bytes, of the remaining length: when the source has
  nothing yet after the header byte, four calls ask to be called again and the fifth fails and drops the packet,
  although no byte of a length has been read.
\<close>

theorem readnb_starved:
  assumes "getfn 1 (sck trp) = (0, [], sck trp)" "state trp = 1" "tr_len trp = 0"
  shows "\<exists>trp'. readnb_poll getfn buflen 5 buf trp = Some ([0, 0, 0, 0, - 1], buf, trp') \<and> state trp' = 0"
proof -
  define t where "t l = trp\<lparr>multiplier := 1, rem_len := 0, tr_len := l\<rparr>" for l
  have first: "MQTTPacket_readnb getfn buf buflen trp = Some (0, buf, t 1)"
    using assms by (simp add: MQTTPacket_readnb_def readnb_length_def MQTTPacket_decodenb_def
        decodenb_loop.simps [of getfn "trp\<lparr>multiplier := 1, rem_len := 0\<rparr>"] t_def)
  have fields: "state (t l) = 1" "tr_len (t l) = l" for l using assms(2) by (simp_all add: t_def)
  have "decodenb_loop getfn (t l) = Some (if l < 4 then 0 else - 1, t (l + 1))" for l
    using assms(1) by (subst decodenb_loop.simps) (simp add: t_def)
  then have again: "MQTTPacket_readnb getfn buf buflen (t l) =
      Some (if l < 4 then 0 else - 1, buf, if l < 4 then t (l + 1) else (t (l + 1))\<lparr>state := 0\<rparr>)" if "0 < l" for l
    using that fields by (simp add: MQTTPacket_readnb_def readnb_length_def MQTTPacket_decodenb_def)
  show ?thesis
    using first again [of 1] again [of 2] again [of 3] again [of 4] by (simp add: eval_nat_numeral)
qed

theorem readnb_starved_witness:
  "\<exists>trp'. readnb_poll (\<lambda>n s. (0, [], s)) 4 5 [0x30, 0, 0, 0]
      \<lparr>sck = (), multiplier = 0, rem_len = 0, tr_len = 0, state = 1\<rparr> =
    Some ([0, 0, 0, 0, - 1], [0x30, 0, 0, 0], trp') \<and> state trp' = 0"
  by (rule readnb_starved) simp_all

end
