(* ===== verification/Lwip_Socket.thy ===== *)
theory Lwip_Socket
  imports Prelude
begin

text \<open>
  The receiving side of a TCP socket: \<open>netconn_recv_data\<close> of \<open>src/LwIP/src/api/api_lib.c\<close> and
  \<open>lwip_recvfrom\<close>, \<open>event_callback\<close> and the error table of \<open>src/LwIP/src/api/sockets.c\<close>. The receive mailbox
  holds what the stack has delivered, or will deliver while a call waits: data, or \<open>NULL\<close> for the end of
  the stream. A fetch from an empty mailbox times out after \<open>recv_timeout\<close>; with a timeout of 0 it waits
  for ever, which is \<open>None\<close>.
\<close>

section \<open>Errors\<close>

abbreviation (input) ERR_OK :: int where "ERR_OK \<equiv> 0"
abbreviation (input) ERR_TIMEOUT :: int where "ERR_TIMEOUT \<equiv> - 3"
abbreviation (input) ERR_ISCONN :: int where "ERR_ISCONN \<equiv> - 9"
abbreviation (input) ERR_CLSD :: int where "ERR_CLSD \<equiv> - 12"

definition ERR_IS_FATAL :: "int \<Rightarrow> bool" where
  "ERR_IS_FATAL e \<longleftrightarrow> e < ERR_ISCONN"

datatype errno = E_NONE | ENOMEM | ENOBUFS | EWOULDBLOCK | EHOSTUNREACH | EINPROGRESS | EINVAL
  | EADDRINUSE | EALREADY | ECONNABORTED | ECONNRESET | ENOTCONN | EIO | E_IF

definition err_to_errno_table :: "errno list" where
  "err_to_errno_table = [E_NONE, ENOMEM, ENOBUFS, EWOULDBLOCK, EHOSTUNREACH, EINPROGRESS, EINVAL,
     EWOULDBLOCK, EADDRINUSE, EALREADY, ECONNABORTED, ECONNRESET, ENOTCONN, ENOTCONN, EIO, E_IF]"

text \<open>The index is compared as an unsigned number, so a positive error code is outside the table.\<close>

definition err_to_errno :: "int \<Rightarrow> errno" where
  "err_to_errno err = (if 0 \<le> - err \<and> nat (- err) < length err_to_errno_table
     then err_to_errno_table ! nat (- err) else EIO)"

section \<open>The connection and the socket\<close>

text \<open>A received buffer: its bytes (\<open>tot_len\<close> is their number) and \<open>PBUF_FLAG_PUSH\<close>.\<close>

record pbuf =
  p_data :: "byte list"
  p_push :: bool

record lwip_sock =
  recvmbox :: "pbuf option list"
  recv_timeout :: int
  last_err :: int
  lastdata :: "pbuf option"
  lastoffset :: nat
  rcvevent :: int
  sock_err :: errno

definition NETCONN_SET_SAFE_ERR :: "int \<Rightarrow> lwip_sock \<Rightarrow> lwip_sock" where
  "NETCONN_SET_SAFE_ERR err conn = (if \<not> ERR_IS_FATAL (last_err conn) then conn\<lparr>last_err := err\<rparr> else conn)"

datatype netconn_evt = RCVPLUS | RCVMINUS

definition event_callback :: "netconn_evt \<Rightarrow> lwip_sock \<Rightarrow> lwip_sock" where
  "event_callback evt sock = (case evt of
     RCVPLUS \<Rightarrow> sock\<lparr>rcvevent := rcvevent sock + 1\<rparr>
   | RCVMINUS \<Rightarrow> sock\<lparr>rcvevent := rcvevent sock - 1\<rparr>)"

text \<open>\<open>netconn_recv_data\<close> on a TCP connection: the error code, the buffer and the connection.\<close>

definition netconn_recv_data :: "lwip_sock \<Rightarrow> (int \<times> pbuf option \<times> lwip_sock) option" where
  "netconn_recv_data conn =
     (if ERR_IS_FATAL (last_err conn) then Some (last_err conn, None, conn)
      else case recvmbox conn of
             [] \<Rightarrow> if recv_timeout conn = 0 then None
                    else Some (ERR_TIMEOUT, None, NETCONN_SET_SAFE_ERR ERR_TIMEOUT conn)
           | buf # ms \<Rightarrow>
               let conn = event_callback RCVMINUS (conn\<lparr>recvmbox := ms\<rparr>)
               in case buf of
                    None \<Rightarrow> Some (ERR_CLSD, None, NETCONN_SET_SAFE_ERR ERR_CLSD conn)
                  | Some p \<Rightarrow> Some (ERR_OK, Some p, conn))"

section \<open>Receiving from a socket\<close>

text \<open>
  The first part of an iteration of \<open>lwip_recvfrom\<close>: the buffer to copy from, or the result of the
  call. \<open>mem\<close> is what has been copied so far, \<open>off\<close> its length.
\<close>

definition recv_buf :: "bool \<Rightarrow> lwip_sock \<Rightarrow> byte list \<Rightarrow>
    ((int \<times> byte list \<times> lwip_sock) + (pbuf \<times> lwip_sock)) option" where
  "recv_buf dontwait sock mem =
     (case lastdata sock of
        Some p \<Rightarrow> Some (Inr (p, sock))
      | None \<Rightarrow>
          if dontwait \<and> rcvevent sock \<le> 0 then
            Some (Inl (if mem \<noteq> [] then (int (length mem), mem, sock\<lparr>sock_err := E_NONE\<rparr>)
                       else (- 1, mem, sock\<lparr>sock_err := EWOULDBLOCK\<rparr>)))
          else case netconn_recv_data sock of
                 None \<Rightarrow> None
               | Some (err, Some p, sock) \<Rightarrow> Some (Inr (p, sock\<lparr>lastdata := Some p\<rparr>))
               | Some (err, None, sock) \<Rightarrow>
                   Some (Inl (if mem \<noteq> [] then (int (length mem), mem, sock\<lparr>sock_err := E_NONE\<rparr>)
                              else (if err = ERR_CLSD then 0 else - 1, mem,
                                    sock\<lparr>sock_err := err_to_errno err\<rparr>))))"

text \<open>The second part: the copy and the remainder kept for the next call; and whether the loop is done.\<close>

definition recv_copy :: "bool \<Rightarrow> pbuf \<Rightarrow> lwip_sock \<Rightarrow> nat \<Rightarrow> byte list \<times> lwip_sock" where
  "recv_copy peek p sock len =
     (let buflen = length (p_data p) - lastoffset sock;
          copylen = (if len > buflen then buflen else len);
          bytes = take copylen (drop (lastoffset sock) (p_data p))
      in (bytes,
          if peek then sock
          else if buflen - copylen > 0
          then sock\<lparr>lastdata := Some p, lastoffset := lastoffset sock + copylen\<rparr>
          else sock\<lparr>lastdata := None, lastoffset := 0\<rparr>))"

function recvfrom_loop :: "bool \<Rightarrow> bool \<Rightarrow> lwip_sock \<Rightarrow> nat \<Rightarrow> byte list \<Rightarrow>
    (int \<times> byte list \<times> lwip_sock) option" where
  "recvfrom_loop dontwait peek sock len mem =
     (case recv_buf dontwait sock mem of
        None \<Rightarrow> None
      | Some (Inl res) \<Rightarrow> Some res
      | Some (Inr (p, sock)) \<Rightarrow>
          (case recv_copy peek p sock len of (bytes, sock') \<Rightarrow>
             let mem' = mem @ bytes; len' = len - length bytes
             in if len' = 0 \<or> p_push p \<or> rcvevent sock \<le> 0 \<or> peek
                then Some (int (length mem'), mem', sock'\<lparr>sock_err := E_NONE\<rparr>)
                else recvfrom_loop dontwait peek sock' len' mem'))"
  by pat_completeness auto
termination
  by (relation "measure (\<lambda>(_, _, sock, _, _). length (recvmbox sock) + (if lastdata sock = None then 0 else 1))")
    (auto simp: recv_buf_def recv_copy_def netconn_recv_data_def event_callback_def NETCONN_SET_SAFE_ERR_def
      Let_def min_def split: option.splits if_splits list.splits)

declare recvfrom_loop.simps [simp del]

text \<open>\<open>recv(s, mem, len, 0)\<close>: the flags of a blocking call.\<close>

definition lwip_recvfrom :: "bool \<Rightarrow> bool \<Rightarrow> lwip_sock \<Rightarrow> nat \<Rightarrow> (int \<times> byte list \<times> lwip_sock) option" where
  "lwip_recvfrom dontwait peek sock len = recvfrom_loop dontwait peek sock len []"

definition lwip_recv :: "lwip_sock \<Rightarrow> nat \<Rightarrow> (int \<times> byte list \<times> lwip_sock) option" where
  "lwip_recv sock len = lwip_recvfrom False False sock len"

section \<open>The byte stream of a socket\<close>

text \<open>What the application can still receive: the rest of the buffer in hand, and the data ahead of the
  end of the stream, unless the connection has already failed.\<close>

fun mbox_bytes :: "pbuf option list \<Rightarrow> byte list" where
  "mbox_bytes [] = []"
| "mbox_bytes (None # ms) = []"
| "mbox_bytes (Some p # ms) = p_data p @ mbox_bytes ms"

definition sock_stream :: "lwip_sock \<Rightarrow> byte list" where
  "sock_stream sock =
     (case lastdata sock of Some p \<Rightarrow> drop (lastoffset sock) (p_data p) | None \<Rightarrow> []) @
     (if ERR_IS_FATAL (last_err sock) then [] else mbox_bytes (recvmbox sock))"

definition sock_ok :: "lwip_sock \<Rightarrow> bool" where
  "sock_ok sock \<longleftrightarrow>
     (case lastdata sock of Some p \<Rightarrow> lastoffset sock < length (p_data p) | None \<Rightarrow> lastoffset sock = 0) \<and>
     (\<forall>m \<in> set (recvmbox sock). case m of Some p \<Rightarrow> p_data p \<noteq> [] | None \<Rightarrow> True) \<and>
     rcvevent sock = int (length (recvmbox sock))"

lemma sock_err_irrelevant [simp]:
  "sock_stream (sock\<lparr>sock_err := e\<rparr>) = sock_stream sock" "sock_ok (sock\<lparr>sock_err := e\<rparr>) = sock_ok sock"
  by (cases "lastdata sock"; simp add: sock_stream_def sock_ok_def)+

lemma recv_timeout_irrelevant [simp]:
  "sock_stream (sock\<lparr>recv_timeout := t\<rparr>) = sock_stream sock" "sock_ok (sock\<lparr>recv_timeout := t\<rparr>) = sock_ok sock"
  by (cases "lastdata sock"; simp add: sock_stream_def sock_ok_def)+

lemma recv_copy_stream:
  assumes "lastdata sock = Some p" "sock_ok sock" "0 < len" "recv_copy False p sock len = (bytes, sock')"
  shows "\<exists>k. 0 < k \<and> k \<le> len \<and> k \<le> length (sock_stream sock) \<and> bytes = take k (sock_stream sock) \<and>
    sock_stream sock' = drop k (sock_stream sock) \<and> sock_ok sock' \<and> length bytes = k \<and>
    recvmbox sock' = recvmbox sock \<and> rcvevent sock' = rcvevent sock \<and> last_err sock' = last_err sock \<and>
    recv_timeout sock' = recv_timeout sock \<and> (k < len \<longrightarrow> lastdata sock' = None)"
proof -
  define d where "d = drop (lastoffset sock) (p_data p)"
  define k where "k = min len (length d)"
  define tl where "tl = (if ERR_IS_FATAL (last_err sock) then [] else mbox_bytes (recvmbox sock))"
  have off: "lastoffset sock < length (p_data p)" using assms(1,2) by (simp add: sock_ok_def)
  then have d: "length (p_data p) - lastoffset sock = length d" "d \<noteq> []" by (simp_all add: d_def)
  have k: "0 < k" "k \<le> len" "k \<le> length d" "k < len \<longrightarrow> k = length d"
    using d(2) assms(3) by (auto simp: k_def min_def)
  have st: "sock_stream sock = d @ tl" using assms(1) by (simp add: sock_stream_def d_def tl_def)
  have r: "bytes = take k d" "sock' = (if k < length d
      then sock\<lparr>lastdata := Some p, lastoffset := lastoffset sock + k\<rparr>
      else sock\<lparr>lastdata := None, lastoffset := 0\<rparr>)"
    using assms(4) by (auto simp: recv_copy_def Let_def d(1) d_def [symmetric] k_def min_def split: if_splits)
  have st': "sock_stream sock' = drop k d @ tl"
    using k(3) by (auto simp: r sock_stream_def tl_def d_def add.commute)
  have ok': "sock_ok sock'"
    using assms(2) k(3) d(1) off by (auto simp: r sock_ok_def)
  show ?thesis
    using k st st' ok' by (intro exI [of _ k]) (auto simp: r)
qed


lemma recv_buf_stream:
  assumes "sock_ok sock" "sock_stream sock \<noteq> []"
  shows "\<exists>p sock1. recv_buf False sock mem = Some (Inr (p, sock1)) \<and> lastdata sock1 = Some p \<and>
    sock_ok sock1 \<and> sock_stream sock1 = sock_stream sock \<and> last_err sock1 = last_err sock \<and>
    recv_timeout sock1 = recv_timeout sock \<and>
    length (recvmbox sock1) + 1 \<le> length (recvmbox sock) + (if lastdata sock = None then 0 else 1)"
proof (cases "lastdata sock")
  case (Some p)
  with assms show ?thesis by (simp add: recv_buf_def)
next
  case None
  then have nf: "\<not> ERR_IS_FATAL (last_err sock)" and "mbox_bytes (recvmbox sock) \<noteq> []"
    using assms(2) by (auto simp: sock_stream_def split: if_splits)
  then obtain p ms where ms: "recvmbox sock = Some p # ms"
    by (metis list.exhaust mbox_bytes.simps(1,2) option.exhaust)
  let ?sock = "sock\<lparr>recvmbox := ms, rcvevent := rcvevent sock - 1, lastdata := Some p\<rparr>"
  have "recv_buf False sock mem = Some (Inr (p, ?sock))"
    using None nf ms by (simp add: recv_buf_def netconn_recv_data_def event_callback_def)
  moreover have "sock_ok ?sock" "sock_stream ?sock = sock_stream sock"
    using assms(1) None nf ms by (auto simp: sock_ok_def sock_stream_def)
  ultimately show ?thesis using None ms by simp
qed

text \<open>
  A call that finds data or has already copied some delivers the next bytes of the stream, between 1 and the
  number asked for, without waiting.
\<close>

lemma recvfrom_loop_stream:
  assumes "sock_ok sock" "0 < len" "sock_stream sock \<noteq> [] \<or> mem \<noteq> [] \<and> lastdata sock = None \<and> recvmbox sock \<noteq> []"
  shows "\<exists>k sock'. recvfrom_loop False False sock len mem =
      Some (int (length mem + k), mem @ take k (sock_stream sock), sock') \<and>
    k \<le> len \<and> k \<le> length (sock_stream sock) \<and> (sock_stream sock \<noteq> [] \<longrightarrow> 0 < k) \<and>
    sock_stream sock' = drop k (sock_stream sock) \<and> sock_ok sock' \<and> recv_timeout sock' = recv_timeout sock"
  using assms
proof (induction "length (recvmbox sock) + (if lastdata sock = None then 0 else 1)"
    arbitrary: sock len mem rule: less_induct)
  case less
  show ?case
  proof (cases "sock_stream sock = []")
    case True
    then have mem: "mem \<noteq> []" "lastdata sock = None" "recvmbox sock \<noteq> []" using less.prems(3) by auto
    then obtain m ms where ms: "recvmbox sock = m # ms" by (cases "recvmbox sock") auto
    have "ERR_IS_FATAL (last_err sock) \<or> m = None"
      using True mem(2) ms less.prems(1) by (cases m) (auto simp: sock_stream_def sock_ok_def split: if_splits)
    then show ?thesis
      using mem ms less.prems(1) True
      by (auto simp: recvfrom_loop.simps [of False False sock] recv_buf_def netconn_recv_data_def
          event_callback_def NETCONN_SET_SAFE_ERR_def sock_ok_def sock_stream_def ERR_IS_FATAL_def)
  next
    case False
    then obtain p sock1 where b: "recv_buf False sock mem = Some (Inr (p, sock1))" "lastdata sock1 = Some p"
      and ok1: "sock_ok sock1" "sock_stream sock1 = sock_stream sock" "recv_timeout sock1 = recv_timeout sock"
      and msr: "length (recvmbox sock1) + 1 \<le> length (recvmbox sock) + (if lastdata sock = None then 0 else 1)"
      using recv_buf_stream [OF less.prems(1), of mem] by metis
    obtain bytes sock2 where c: "recv_copy False p sock1 len = (bytes, sock2)" by force
    obtain k where k: "0 < k" "k \<le> len" "k \<le> length (sock_stream sock)" "bytes = take k (sock_stream sock)"
      "length bytes = k" and s2: "sock_stream sock2 = drop k (sock_stream sock)" "sock_ok sock2"
      "recvmbox sock2 = recvmbox sock1" "rcvevent sock2 = rcvevent sock1" "recv_timeout sock2 = recv_timeout sock"
      "k < len \<longrightarrow> lastdata sock2 = None"
      using recv_copy_stream [OF b(2) ok1(1) less.prems(2) c] ok1(2,3) by metis
    show ?thesis
    proof (cases "len - k = 0 \<or> p_push p \<or> rcvevent sock1 \<le> 0")
      case True
      with b(1) c k s2 show ?thesis
        by (intro exI [of _ k] exI [of _ "sock2\<lparr>sock_err := E_NONE\<rparr>"])
          (auto simp: recvfrom_loop.simps [of False False sock])
    next
      case again: False
      then have none: "lastdata sock2 = None" using s2(6) by auto
      have "recvmbox sock2 \<noteq> []" using again ok1(1) s2(3) by (auto simp: sock_ok_def)
      then have pre: "sock_stream sock2 \<noteq> [] \<or> mem @ bytes \<noteq> [] \<and> lastdata sock2 = None \<and> recvmbox sock2 \<noteq> []"
        using none k(1,5) by auto
      have "length (recvmbox sock2) + (if lastdata sock2 = None then 0 else 1)
          < length (recvmbox sock) + (if lastdata sock = None then 0 else 1)"
        using msr s2(3) none by simp
      from less.hyps [OF this s2(2) _ pre, of "len - k"] again
      obtain j sock' where j: "recvfrom_loop False False sock2 (len - k) (mem @ bytes) =
          Some (int (length (mem @ bytes) + j), (mem @ bytes) @ take j (sock_stream sock2), sock')"
        "j \<le> len - k" "j \<le> length (sock_stream sock2)" "sock_stream sock' = drop j (sock_stream sock2)"
        "sock_ok sock'" "recv_timeout sock' = recv_timeout sock2"
        by auto
      have "recvfrom_loop False False sock len mem = recvfrom_loop False False sock2 (len - k) (mem @ bytes)"
        using b(1) c again k(5) by (simp add: recvfrom_loop.simps [of False False sock])
      moreover have "take k (sock_stream sock) @ take j (sock_stream sock2) = take (k + j) (sock_stream sock)"
        by (simp add: s2(1) take_add)
      ultimately show ?thesis
        using j k s2 by (intro exI [of _ "k + j"] exI [of _ sock']) (auto simp: add.assoc add.commute)
    qed
  qed
qed

lemma lwip_recv_stream:
  assumes "sock_ok sock" "0 < len" "sock_stream sock \<noteq> []"
  obtains k sock' where "lwip_recv sock len = Some (int k, take k (sock_stream sock), sock')"
    "0 < k" "k \<le> len" "k \<le> length (sock_stream sock)" "sock_stream sock' = drop k (sock_stream sock)"
    "sock_ok sock'" "recv_timeout sock' = recv_timeout sock"
  using recvfrom_loop_stream [OF assms(1,2), of "[]"] assms(3)
  by (auto simp: lwip_recv_def lwip_recvfrom_def)

text \<open>After the end of the stream, or a fatal error, every call gives the same answer at once.\<close>

lemma lwip_recv_closed:
  assumes "lastdata sock = None" "last_err sock = ERR_CLSD"
  shows "lwip_recv sock len = Some (0, [], sock\<lparr>sock_err := ENOTCONN\<rparr>)"
  using assms by (simp add: lwip_recv_def lwip_recvfrom_def recvfrom_loop.simps recv_buf_def
      netconn_recv_data_def ERR_IS_FATAL_def err_to_errno_def err_to_errno_table_def)

lemma lwip_recv_eof:
  assumes "lastdata sock = None" "\<not> ERR_IS_FATAL (last_err sock)" "recvmbox sock = None # ms"
  shows "lwip_recv sock len = Some (0, [], sock\<lparr>recvmbox := ms, rcvevent := rcvevent sock - 1,
    last_err := ERR_CLSD, sock_err := ENOTCONN\<rparr>)"
  using assms by (simp add: lwip_recv_def lwip_recvfrom_def recvfrom_loop.simps recv_buf_def
      netconn_recv_data_def event_callback_def NETCONN_SET_SAFE_ERR_def err_to_errno_def err_to_errno_table_def)

end
