(* ===== verification/Mqtt_Platform.thy ===== *)
theory Mqtt_Platform
  imports Mqtt_Read Lwip_Socket
begin

text \<open>
  The network functions of \<open>src/mqtt/MQTTPlatform.c\<close> that the client reaches through the
  function pointers of its \<open>Network\<close>: \<open>LwIP_read\<close>, over the socket of the TCP/IP stack, and \<open>TLS_read\<close> and
  \<open>TLS_write\<close>, over the two calls of the TLS library, which are parameters. \<open>LwIP_read\<close> is the provider of the
  interface the packet readers are written against.
\<close>

section \<open>Plain sockets\<close>

text \<open>
  The loop of \<open>LwIP_read\<close>: \<open>acc\<close> holds the bytes stored so far, its length is \<open>bytes\<close>. Not returning is \<open>None\<close>.
\<close>

partial_function (option) read_loop ::
    "lwip_sock \<Rightarrow> nat \<Rightarrow> byte list \<Rightarrow> (int \<times> byte list \<times> lwip_sock) option" where
  "read_loop sock len acc =
     (if length acc < len then
        Option.bind (lwip_recv sock (len - length acc)) (\<lambda>(rc, bs, sock).
          if rc = - 1 then
            if sock_err sock \<noteq> ENOTCONN \<and> sock_err sock \<noteq> ECONNRESET then Some (- 1, acc, sock)
            else read_loop sock len acc
          else read_loop sock len (acc @ bs))
      else Some (int (length acc), acc, sock))"

declare read_loop.simps [code]

definition LwIP_read :: "nat \<Rightarrow> int \<Rightarrow> lwip_sock \<Rightarrow> (int \<times> byte list \<times> lwip_sock) option" where
  "LwIP_read len timeout_ms sock = read_loop (sock\<lparr>recv_timeout := timeout_ms\<rparr>) len []"

text \<open>As long as enough of the stream is there, the loop collects exactly what was asked for.\<close>

lemma read_loop_stream:
  assumes "sock_ok sock" "length acc \<le> len" "len - length acc \<le> length (sock_stream sock)"
  shows "\<exists>sock'. read_loop sock len acc =
      Some (int len, acc @ take (len - length acc) (sock_stream sock), sock') \<and>
    sock_stream sock' = drop (len - length acc) (sock_stream sock) \<and> sock_ok sock'"
  using assms
proof (induction "len - length acc" arbitrary: sock acc rule: less_induct)
  case less
  show ?case
  proof (cases "length acc < len")
    case False
    with less.prems show ?thesis by (simp add: read_loop.simps [of sock])
  next
    case True
    let ?n = "len - length acc"
    have "0 < ?n" "sock_stream sock \<noteq> []" using True less.prems(3) by auto
    then obtain k sock1 where k: "lwip_recv sock ?n = Some (int k, take k (sock_stream sock), sock1)"
      "0 < k" "k \<le> ?n" "k \<le> length (sock_stream sock)" "sock_stream sock1 = drop k (sock_stream sock)"
      "sock_ok sock1"
      using lwip_recv_stream [OF less.prems(1)] by metis
    let ?acc = "acc @ take k (sock_stream sock)"
    have l: "length ?acc = length acc + k" using k(4) by simp
    have "read_loop sock len acc = read_loop sock1 len ?acc"
      using True k(1) by (simp add: read_loop.simps [of sock])
    moreover have p: "len - length ?acc < ?n" "length ?acc \<le> len"
      "len - length ?acc \<le> length (sock_stream sock1)"
      using True k less.prems l by auto
    moreover obtain sock' where "read_loop sock1 len ?acc =
        Some (int len, ?acc @ take (len - length ?acc) (sock_stream sock1), sock')"
      "sock_stream sock' = drop (len - length ?acc) (sock_stream sock1)" "sock_ok sock'"
      using less.hyps [OF p(1) k(6) p(2,3)] by blast
    moreover have "len - length acc = k + (len - length ?acc)" using k(3) l by simp
    then have "take (len - length acc) (sock_stream sock) =
        take k (sock_stream sock) @ take (len - length ?acc) (sock_stream sock1)"
      "drop (len - length acc) (sock_stream sock) = drop (len - length ?acc) (sock_stream sock1)"
      by (simp_all only: k(5) take_add drop_drop) (simp add: add.commute)
    ultimately show ?thesis by auto
  qed
qed

text \<open>The stream of a socket in order; a socket that is not delivers nothing.\<close>

definition sock_pending :: "lwip_sock \<Rightarrow> byte list" where
  "sock_pending sock = (if sock_ok sock then sock_stream sock else [])"

lemma LwIP_read_deliver:
  assumes "n \<le> length (sock_pending sock)"
  shows "\<exists>sock'. LwIP_read n timeout_ms sock = Some (int n, take n (sock_pending sock), sock') \<and>
    sock_pending sock' = drop n (sock_pending sock)"
proof (cases "sock_ok sock")
  case True
  with read_loop_stream [of "sock\<lparr>recv_timeout := timeout_ms\<rparr>" "[]" n] assms show ?thesis
    by (auto simp: LwIP_read_def sock_pending_def)
next
  case False
  with assms show ?thesis by (simp add: LwIP_read_def read_loop.simps sock_pending_def)
qed

interpretation tcp: packet_source "\<lambda>n. LwIP_read n timeout_ms" sock_pending for timeout_ms
  by unfold_locales (rule LwIP_read_deliver)

text \<open>The stream is at its end: the connection is closed, or the mark of its end is next.\<close>

definition at_end :: "lwip_sock \<Rightarrow> bool" where
  "at_end sock \<longleftrightarrow> lastdata sock = None \<and>
     (last_err sock = ERR_CLSD \<or> \<not> ERR_IS_FATAL (last_err sock) \<and> (\<exists>ms. recvmbox sock = None # ms))"

lemma lwip_recv_at_end:
  assumes "at_end sock"
  obtains sock' where "lwip_recv sock n = Some (0, [], sock')" "at_end sock'"
  using assms lwip_recv_closed [of sock n] lwip_recv_eof [of sock _ n]
  by (auto simp: at_end_def)

lemma read_loop_result:
  "read_loop sock len acc = Some r \<Longrightarrow> at_end sock \<longrightarrow> length acc < len \<longrightarrow> False"
proof (induction rule: read_loop.raw_induct [rotated, consumes 1, case_names step])
  case (step f sock len acc r)
  show ?case
  proof (intro impI)
    assume e: "at_end sock" and l: "length acc < len"
    obtain sock' where "lwip_recv sock (len - length acc) = Some (0, [], sock')" and e': "at_end sock'"
      using lwip_recv_at_end [OF e] .
    with step(2) l have "f sock' len acc = Some r" by simp
    from step(1) [OF this] e' l show False by simp
  qed
qed

lemma read_loop_at_end: "at_end sock \<Longrightarrow> length acc < len \<Longrightarrow> read_loop sock len acc = None"
  using read_loop_result by (cases "read_loop sock len acc") blast+

section \<open>TLS\<close>

abbreviation (input) MBEDTLS_ERR_SSL_TIMEOUT :: int where "MBEDTLS_ERR_SSL_TIMEOUT \<equiv> - 0x6800"
abbreviation (input) MBEDTLS_ERR_SSL_PEER_CLOSE_NOTIFY :: int where
  "MBEDTLS_ERR_SSL_PEER_CLOSE_NOTIFY \<equiv> - 0x7880"

definition TLS_read ::
    "(nat \<Rightarrow> 'w \<Rightarrow> int \<times> byte list \<times> 'w) \<Rightarrow> nat \<Rightarrow> int \<Rightarrow> 'w \<Rightarrow> int \<times> byte list \<times> 'w" where
  "TLS_read mbedtls_ssl_read len timeout_ms w =
     (case mbedtls_ssl_read len w of (ret, bs, w) \<Rightarrow>
        if ret > 0 then (ret, bs, w)
        else if ret = MBEDTLS_ERR_SSL_TIMEOUT then (- 1, bs, w)
        else if ret = 0 then (- 2, bs, w)
        else if ret = MBEDTLS_ERR_SSL_PEER_CLOSE_NOTIFY then (- 2, bs, w)
        else (- 1, bs, w))"

definition TLS_write :: "(byte list \<Rightarrow> 'w \<Rightarrow> int \<times> 'w) \<Rightarrow> byte list \<Rightarrow> int \<Rightarrow> 'w \<Rightarrow> int \<times> 'w" where
  "TLS_write mbedtls_ssl_write bs timeout_ms w =
     (case mbedtls_ssl_write bs w of (ret, w) \<Rightarrow> if ret \<ge> 0 then (ret, w) else (- 1, w))"

section \<open>Properties\<close>

text \<open>
  A packet over TCP: when the stream of the socket begins with a packet that fits the buffer, however it has been
  cut into segments, reading it through \<open>LwIP_read\<close> puts the packet at the start of the buffer,
  returns its type, and leaves the socket at the byte after it.
\<close>

theorem read_packet_over_tcp:
  assumes "sock_ok sock" "sock_stream sock = frame h body @ rest" "length body < 268435456"
    and "int (length (frame h body)) \<le> buflen" "buflen \<le> int (length buf)"
  shows "\<exists>sock'. MQTTPacket_read (\<lambda>n. LwIP_read n timeout_ms) buf buflen sock =
      Some (uint (hdr_type h), frame h body @ drop (length (frame h body)) buf, sock') \<and>
    sock_pending sock' = rest"
  using tcp.read_frame [OF _ assms(3-5), of sock rest timeout_ms] assms(1,2)
  by (simp add: sock_pending_def)

theorem read_packet_over_tcp_witness:
  "\<exists>sock'. MQTTPacket_read (\<lambda>n. LwIP_read n 100) [9, 9, 9, 9, 9] 5
      \<lparr>recvmbox = [Some \<lparr>p_data = [2, 7], p_push = False\<rparr>, Some \<lparr>p_data = [8, 1], p_push = True\<rparr>],
       recv_timeout = 0, last_err = 0, lastdata = Some \<lparr>p_data = [5, 0x30], p_push = False\<rparr>, lastoffset = 1,
       rcvevent = 2, sock_err = E_NONE\<rparr> =
      Some (uint (hdr_type 0x30), frame 0x30 [7, 8] @ drop (length (frame 0x30 [7, 8])) [9, 9, 9, 9, 9], sock') \<and>
    sock_pending sock' = [1]"
  by (rule read_packet_over_tcp)
    (simp_all add: sock_ok_def sock_stream_def frame_def rl_bytes_small ERR_IS_FATAL_def)

text \<open>
  C38. \<open>LwIP_read\<close> does not return once the peer has closed the connection: \<open>recv\<close> then answers 0, at once and every
  time, the count never reaches the length asked for, and there is no other way out of the loop.
\<close>

theorem LwIP_read_hangs_on_close:
  assumes "lastdata sock = None" "\<not> ERR_IS_FATAL (last_err sock)" "recvmbox sock = None # ms" "0 < len"
  shows "LwIP_read len timeout_ms sock = None"
  using assms by (simp add: LwIP_read_def read_loop_at_end at_end_def)

theorem LwIP_read_hangs_on_close_witness:
  "LwIP_read 1 1000 \<lparr>recvmbox = [None], recv_timeout = 0, last_err = 0, lastdata = None, lastoffset = 0,
     rcvevent = 1, sock_err = E_NONE\<rparr> = None"
  by (rule LwIP_read_hangs_on_close) (simp_all add: ERR_IS_FATAL_def)

text \<open>
  A timeout in the middle of a read loses what had already arrived: \<open>LwIP_read\<close> takes the available bytes
  off the stream, and when the next call times out it reports only the error.
\<close>

theorem LwIP_read_timeout_loses_data:
  assumes "sock_ok sock" "lastdata sock = Some p" "recvmbox sock = []" "\<not> ERR_IS_FATAL (last_err sock)"
    and "length (p_data p) - lastoffset sock < len" "timeout_ms \<noteq> 0"
  shows "\<exists>sock'. LwIP_read len timeout_ms sock = Some (- 1, drop (lastoffset sock) (p_data p), sock') \<and>
    sock_err sock' = EWOULDBLOCK \<and> sock_stream sock' = []"
proof -
  let ?d = "drop (lastoffset sock) (p_data p)"
  let ?s = "sock\<lparr>recv_timeout := timeout_ms, lastdata := None, lastoffset := 0, sock_err := E_NONE\<rparr>"
  have z: "rcvevent sock = 0" "0 < length ?d" using assms(1,2,3) by (auto simp: sock_ok_def)
  have first: "lwip_recv (sock\<lparr>recv_timeout := timeout_ms\<rparr>) len = Some (int (length ?d), ?d, ?s)"
    using assms z by (simp add: lwip_recv_def lwip_recvfrom_def recvfrom_loop.simps recv_buf_def recv_copy_def Let_def)
  have second: "lwip_recv ?s (len - length ?d) = Some (- 1, [], ?s\<lparr>last_err := ERR_TIMEOUT, sock_err := EWOULDBLOCK\<rparr>)"
    using assms z by (simp add: lwip_recv_def lwip_recvfrom_def recvfrom_loop.simps recv_buf_def
        netconn_recv_data_def NETCONN_SET_SAFE_ERR_def err_to_errno_def err_to_errno_table_def)
  have "LwIP_read len timeout_ms sock = Some (- 1, ?d, ?s\<lparr>last_err := ERR_TIMEOUT, sock_err := EWOULDBLOCK\<rparr>)"
    using assms(5) first second z(2)
    by (simp add: LwIP_read_def read_loop.simps [of _ len])
  then show ?thesis using assms(3) by (simp add: sock_stream_def)
qed

theorem LwIP_read_timeout_loses_data_witness:
  "\<exists>sock'. LwIP_read 4 1000 \<lparr>recvmbox = [], recv_timeout = 0, last_err = 0,
      lastdata = Some \<lparr>p_data = [1, 2, 3], p_push = True\<rparr>, lastoffset = 1, rcvevent = 0, sock_err = E_NONE\<rparr> =
      Some (- 1, drop 1 [1, 2, 3], sock') \<and> sock_err sock' = EWOULDBLOCK \<and> sock_stream sock' = []"
  using LwIP_read_timeout_loses_data [of "\<lparr>recvmbox = [], recv_timeout = 0, last_err = 0,
      lastdata = Some \<lparr>p_data = [1, 2, 3], p_push = True\<rparr>, lastoffset = 1, rcvevent = 0, sock_err = E_NONE\<rparr>"
      "\<lparr>p_data = [1, 2, 3], p_push = True\<rparr>" 4 1000]
  by (simp add: sock_ok_def ERR_IS_FATAL_def)

end
