(* ===== verification/Mqtt_Publish.thy ===== *)
theory Mqtt_Publish
  imports Mqtt_Packet
begin

text \<open>
  \<open>src/mqtt/MQTTSerializePublish.c\<close> and \<open>MQTTDeserializePublish.c\<close>: the publish packet and the
  four acknowledgements. A serializer returns the buffer and \<open>rc\<close>; a deserializer returns \<open>rc\<close> and
  the variables its out-parameters point to, which it is given and updates as the code does, so a
  variable the code does not assign keeps its value.
\<close>

section \<open>Publish\<close>

definition MQTTSerialize_publishLength :: "int \<Rightarrow> MQTTString \<Rightarrow> int \<Rightarrow> int" where
  "MQTTSerialize_publishLength qos topicName payloadlen =
     (let len = 2 + MQTTstrlen topicName + payloadlen
      in if qos > 0 then len + 2 else len)"

definition MQTTSerialize_publish ::
    "buffer \<Rightarrow> int \<Rightarrow> byte \<Rightarrow> int \<Rightarrow> byte \<Rightarrow> 16 word \<Rightarrow> MQTTString \<Rightarrow> byte list option \<Rightarrow> int \<Rightarrow>
     (buffer \<times> int) option" where
  "MQTTSerialize_publish buf buflen dup qos retained packetid topicName payload payloadlen =
     (let rem_len = MQTTSerialize_publishLength qos topicName payloadlen
      in if MQTTPacket_len rem_len > buflen then Some (buf, MQTTPACKET_BUFFER_TOO_SHORT)
         else do {
           let header = set_retain retained (set_qos (word_of_int qos) (set_dup dup (set_type PUBLISH 0)));
           ptr \<leftarrow> writeChar (buf, 0) header;
           ptr \<leftarrow> put_rem_len ptr rem_len;
           ptr \<leftarrow> writeMQTTString ptr topicName;
           ptr \<leftarrow> (if qos > 0 then writeInt ptr (uint packetid) else Some ptr);
           bs \<leftarrow> (if 0 \<le> payloadlen then fetch payload (nat payloadlen) else None);
           ptr \<leftarrow> emit ptr bs;
           finish ptr })"

record publish_data =
  pub_dup :: byte
  pub_qos :: int
  pub_retained :: byte
  pub_packetid :: "16 word"
  pub_topicName :: MQTTString
  pub_payload :: "byte list option"
  pub_payloadlen :: int

definition MQTTDeserialize_publish ::
    "publish_data \<Rightarrow> buffer \<Rightarrow> int \<Rightarrow> (int \<times> publish_data) option" where
  "MQTTDeserialize_publish d buf buflen = do {
     (header, curdata) \<leftarrow> readChar buf 0;
     if hdr_type header \<noteq> PUBLISH then Some (0, d)
     else do {
       let d = d\<lparr>pub_dup := hdr_dup header, pub_qos := uint (hdr_qos header),
                 pub_retained := hdr_retain header\<rparr>;
       (rc, mylen) \<leftarrow> MQTTPacket_decodeBuf buf curdata;
       let curdata = curdata + rc;
       let enddata = curdata + nat mylen;
       (ok, topic, curdata) \<leftarrow> readMQTTLenString (pub_topicName d) buf curdata enddata;
       let d = d\<lparr>pub_topicName := topic\<rparr>;
       if ok = 0 \<or> int enddata - int curdata < 0 then Some (int rc, d)
       else do {
         (d, curdata) \<leftarrow> (if pub_qos d > 0
             then do { (n, curdata) \<leftarrow> readInt buf curdata;
                       Some (d\<lparr>pub_packetid := word_of_int n\<rparr>, curdata) }
             else Some (d, curdata));
         Some (1, d\<lparr>pub_payloadlen := int enddata - int curdata,
                     pub_payload := Some (drop curdata buf)\<rparr>) } } }"

text \<open>The packet the specification describes.\<close>

definition publish_body :: "int \<Rightarrow> 16 word \<Rightarrow> byte list \<Rightarrow> byte list \<Rightarrow> byte list" where
  "publish_body qos packetid topic payload =
     utf topic @ (if qos > 0 then be16 (uint packetid) else []) @ payload"

definition publish_header :: "byte \<Rightarrow> int \<Rightarrow> byte \<Rightarrow> byte" where
  "publish_header dup qos retained =
     set_retain retained (set_qos (word_of_int qos) (set_dup dup (set_type PUBLISH 0)))"

lemma hdr_publish_header [hdr_simps]:
  "hdr_type (publish_header dup qos retained) = PUBLISH"
  "hdr_dup (publish_header dup qos retained) = take_bit 1 dup"
  "hdr_qos (publish_header dup qos retained) = take_bit 2 (word_of_int qos)"
  "hdr_retain (publish_header dup qos retained) = take_bit 1 retained"
  by (simp_all add: publish_header_def hdr_simps)

lemma publish_length:
  assumes "wf_string topic" "0 \<le> qos"
  shows "MQTTSerialize_publishLength qos topic (int (length payload)) =
    int (length (publish_body qos packetid (str_text topic) payload))"
  using assms by (simp add: MQTTSerialize_publishLength_def publish_body_def MQTTstrlen_text)

text \<open>Serializing writes exactly that packet at the start of the buffer, or nothing at all.\<close>

lemma MQTTSerialize_publish_frame:
  assumes "wf_string topic" "0 \<le> qos"
  shows "MQTTSerialize_publish buf buflen dup qos retained packetid topic
      (Some (payload @ junk)) (int (length payload)) =
    (let pkt = frame (publish_header dup qos retained)
                 (publish_body qos packetid (str_text topic) payload)
     in if MQTTPacket_len (int (length (publish_body qos packetid (str_text topic) payload))) > buflen
        then Some (buf, MQTTPACKET_BUFFER_TOO_SHORT)
        else if length pkt \<le> length buf then Some (pkt @ drop (length pkt) buf, int (length pkt))
        else None)"
proof -
  have f: "fetch (Some (payload @ junk)) (nat (int (length payload))) = Some payload"
    by (simp add: fetch_def)
  show ?thesis
    using assms f
    by (simp add: MQTTSerialize_publish_def publish_length [where packetid = packetid] cursor_simps
        publish_header_def [symmetric] Let_def frame_def publish_body_def)
qed

text \<open>And deserializing the packet gives its fields back.\<close>

lemma MQTTDeserialize_publish_frame:
  assumes buf: "buf = frame (publish_header dup qos retained) (publish_body qos packetid topic payload) @ rest"
    and "0 \<le> qos" "qos < 4" "take_bit 1 dup = dup" "take_bit 1 retained = retained"
    and topic: "length topic < 65536"
    and len: "length (publish_body qos packetid topic payload) < 268435456"
  shows "MQTTDeserialize_publish d buf buflen = Some (1, d\<lparr>pub_dup := dup, pub_qos := qos,
      pub_retained := retained,
      pub_topicName := len_string topic ((if qos > 0 then be16 (uint packetid) else []) @ payload @ rest),
      pub_packetid := (if qos > 0 then packetid else pub_packetid d),
      pub_payloadlen := int (length payload), pub_payload := Some (payload @ rest)\<rparr>)"
proof -
  let ?body = "publish_body qos packetid topic payload"
  let ?id = "if qos > 0 then be16 (uint packetid) else []"
  define n where "n = length ?body"
  define k where "k = length (rl_bytes (int n))"
  note st = frame_start [OF buf len, folded n_def, folded k_def]
  have n: "n = 2 + length topic + length ?id + length payload"
    by (simp add: n_def publish_body_def)
  have d1: "drop (1 + k) buf = utf topic @ (?id @ payload @ rest)"
    using st(3) by (simp add: publish_body_def)
  have r: "readMQTTLenString t buf (1 + k) (1 + k + n) =
      Some (1, len_string topic (?id @ payload @ rest), 1 + k + 2 + length topic)" for t
    using topic n by (intro readMQTTLenString_utf [OF d1]) simp_all
  have d2: "drop (1 + k + 2 + length topic) buf = ?id @ payload @ rest"
    using drop_append_shift [OF d1] by (simp add: add.assoc)
  have q: "uint (take_bit 2 (word_of_int qos :: byte)) = qos"
    using assms(2,3) by (intro uint_take_bit_of_int) auto
  have id: "readInt buf (1 + k + 2 + length topic) = Some (uint packetid, 1 + k + 2 + length topic + 2)"
    if "qos > 0" using that d2 unsigned_less [of packetid, where 'a = int]
    by (intro readInt_drop [where cs = "payload @ rest"]) auto
  have d3: "drop (1 + k + 2 + length topic + length ?id) buf = payload @ rest"
    by (rule drop_append_shift [OF d2])
  have e: "\<not> int (1 + k + n) - int (1 + k + 2 + length topic) < 0"
    "int (1 + k + n) - int (1 + k + 2 + length topic + length ?id) = int (length payload)"
    by (simp_all add: n)
  show ?thesis
  proof (cases "qos > 0")
    case True
    with st(1,2) r q id d3 e assms(4,5) show ?thesis
      by (simp add: MQTTDeserialize_publish_def hdr_simps)
  next
    case False
    with st(1,2) r q d3 e assms(2,4,5) show ?thesis
      by (simp add: MQTTDeserialize_publish_def hdr_simps)
  qed
qed

section \<open>Acknowledgements\<close>

definition MQTTSerialize_ack ::
    "buffer \<Rightarrow> int \<Rightarrow> byte \<Rightarrow> byte \<Rightarrow> 16 word \<Rightarrow> (buffer \<times> int) option" where
  "MQTTSerialize_ack buf buflen packettype dup packetid =
     (if buflen < 4 then Some (buf, MQTTPACKET_BUFFER_TOO_SHORT)
      else do {
        let header = set_qos (if packettype = PUBREL then 1 else 0) (set_dup dup (set_type packettype 0));
        ptr \<leftarrow> writeChar (buf, 0) header;
        ptr \<leftarrow> put_rem_len ptr 2;
        ptr \<leftarrow> writeInt ptr (uint packetid);
        finish ptr })"

definition MQTTSerialize_puback :: "buffer \<Rightarrow> int \<Rightarrow> 16 word \<Rightarrow> (buffer \<times> int) option" where
  "MQTTSerialize_puback buf buflen packetid = MQTTSerialize_ack buf buflen PUBACK 0 packetid"

definition MQTTSerialize_pubrel :: "buffer \<Rightarrow> int \<Rightarrow> byte \<Rightarrow> 16 word \<Rightarrow> (buffer \<times> int) option" where
  "MQTTSerialize_pubrel buf buflen dup packetid = MQTTSerialize_ack buf buflen PUBREL dup packetid"

definition MQTTSerialize_pubcomp :: "buffer \<Rightarrow> int \<Rightarrow> 16 word \<Rightarrow> (buffer \<times> int) option" where
  "MQTTSerialize_pubcomp buf buflen packetid = MQTTSerialize_ack buf buflen PUBCOMP 0 packetid"

record ack_data =
  ack_packettype :: byte
  ack_dup :: byte
  ack_packetid :: "16 word"

definition MQTTDeserialize_ack :: "ack_data \<Rightarrow> buffer \<Rightarrow> int \<Rightarrow> (int \<times> ack_data) option" where
  "MQTTDeserialize_ack d buf buflen = do {
     (header, curdata) \<leftarrow> readChar buf 0;
     let d = d\<lparr>ack_dup := hdr_dup header, ack_packettype := hdr_type header\<rparr>;
     (rc, mylen) \<leftarrow> MQTTPacket_decodeBuf buf curdata;
     let curdata = curdata + rc;
     let enddata = curdata + nat mylen;
     if int enddata - int curdata < 2 then Some (int rc, d)
     else do {
       (n, curdata) \<leftarrow> readInt buf curdata;
       Some (1, d\<lparr>ack_packetid := word_of_int n\<rparr>) } }"

definition ack_header :: "byte \<Rightarrow> byte \<Rightarrow> byte" where
  "ack_header packettype dup =
     set_qos (if packettype = PUBREL then 1 else 0) (set_dup dup (set_type packettype 0))"

lemma hdr_ack_header [hdr_simps]:
  "hdr_type (ack_header t dup) = take_bit 4 t" "hdr_dup (ack_header t dup) = take_bit 1 dup"
  by (simp_all add: ack_header_def hdr_simps)

lemma uint_packetid: "0 \<le> uint (i :: 16 word)" "uint (i :: 16 word) < 65536"
  using unsigned_less [of i, where 'a = int] by simp_all

lemma MQTTSerialize_ack_frame:
  "MQTTSerialize_ack buf buflen t dup packetid =
    (if buflen < 4 then Some (buf, MQTTPACKET_BUFFER_TOO_SHORT)
     else if 4 \<le> length buf
     then Some (frame (ack_header t dup) (be16 (uint packetid)) @ drop 4 buf, 4) else None)"
  by (simp add: MQTTSerialize_ack_def cursor_simps ack_header_def [symmetric] frame_def
      rl_bytes_small)

lemma MQTTDeserialize_ack_frame:
  assumes buf: "buf = frame (ack_header t dup) (be16 (uint packetid)) @ rest"
  shows "MQTTDeserialize_ack d buf buflen = Some (1, \<lparr>ack_packettype = take_bit 4 t,
    ack_dup = take_bit 1 dup, ack_packetid = packetid, \<dots> = ack_data.more d\<rparr>)"
proof -
  note st = frame_start [OF buf]
  have "readInt buf (1 + length (rl_bytes 2)) = Some (uint packetid, 1 + length (rl_bytes 2) + 2)"
    using st(3) uint_packetid [of packetid] by (intro readInt_drop [where cs = rest]) auto
  with st(1,2) show ?thesis
    by (simp add: MQTTDeserialize_ack_def hdr_simps rl_bytes_small)
qed

section \<open>Properties\<close>

text \<open>
  C29. Publish round trip: a publish packet that was serialized is deserialized, from the buffer it
  was written to, to the same flags, quality of service, topic, packet identifier (when there is
  one) and payload.
\<close>

theorem publish_roundtrip:
  assumes "MQTTSerialize_publish buf buflen dup qos retained packetid topic
      (Some (payload @ junk)) (int (length payload)) = Some (buf', rc)" "0 < rc"
    and "wf_string topic" "0 \<le> qos" "qos < 4" "take_bit 1 dup = dup" "take_bit 1 retained = retained"
    and "length buf < 268435456"
  shows "\<exists>d'. MQTTDeserialize_publish d buf' buflen' = Some (1, d') \<and>
    pub_dup d' = dup \<and> pub_qos d' = qos \<and> pub_retained d' = retained \<and>
    str_text (pub_topicName d') = str_text topic \<and>
    pub_packetid d' = (if qos > 0 then packetid else pub_packetid d) \<and>
    pub_payloadlen d' = int (length payload) \<and>
    fetch (pub_payload d') (length payload) = Some payload"
proof -
  let ?body = "publish_body qos packetid (str_text topic) payload"
  let ?pkt = "frame (publish_header dup qos retained) ?body"
  have b: "buf' = ?pkt @ drop (length ?pkt) buf" "length ?pkt \<le> length buf"
    using assms(1,2) by (auto simp: MQTTSerialize_publish_frame [OF assms(3,4)] Let_def split: if_splits)
  then have "length ?body < 268435456" using assms(8) by (simp add: length_frame)
  then show ?thesis
    using MQTTDeserialize_publish_frame [OF b(1) assms(4-7) wf_string_length [OF assms(3)]]
    by (simp add: fetch_def)
qed

theorem publish_roundtrip_witness:
  "\<exists>d'. MQTTDeserialize_publish \<lparr>pub_dup = 0, pub_qos = 0, pub_retained = 0, pub_packetid = 0,
      pub_topicName = MQTTString_initializer, pub_payload = None, pub_payloadlen = 0\<rparr>
      [0x33, 7, 0, 1, 97, 0, 10, 1, 2, 0, 0] 11 = Some (1, d') \<and>
    pub_dup d' = 0 \<and> pub_qos d' = 1 \<and> pub_retained d' = 1 \<and>
    str_text (pub_topicName d') = [97] \<and> pub_packetid d' = 10 \<and>
    pub_payloadlen d' = 2 \<and> fetch (pub_payload d') 2 = Some [1, 2]"
proof -
  let ?topic = "MQTTString_initializer\<lparr>cstring := Some [97]\<rparr>"
  have s: "MQTTSerialize_publish (replicate 11 0) 11 0 1 1 10 ?topic
      (Some ([1, 2] @ [])) (int (length [1, 2 :: byte])) =
      Some ([0x33, 7, 0, 1, 97, 0, 10, 1, 2, 0, 0], 9)"
    by code_simp
  have w: "wf_string ?topic" by (simp add: wf_string_def MQTTString_initializer_def)
  show ?thesis
    using publish_roundtrip [OF s _ w] w
    by (simp add: str_text_def MQTTString_initializer_def numeral_2_eq_2)
qed

text \<open>
  Serializing a publish never writes outside a buffer of the advertised length: it reports
  \<open>MQTTPACKET_BUFFER_TOO_SHORT\<close> and writes nothing, or it returns the length of the packet, which
  is then exactly the beginning of the buffer, the rest being untouched.
\<close>

theorem publish_serialize_bounds:
  assumes "wf_string topic" "0 \<le> qos" "buflen \<le> int (length buf)" "length buf < 268435456"
  shows "\<exists>buf' rc. MQTTSerialize_publish buf buflen dup qos retained packetid topic
      (Some (payload @ junk)) (int (length payload)) = Some (buf', rc) \<and>
    length buf' = length buf \<and>
    (if rc = MQTTPACKET_BUFFER_TOO_SHORT then buf' = buf
     else 0 < rc \<and> rc \<le> buflen \<and>
       take (nat rc) buf' = frame (publish_header dup qos retained)
         (publish_body qos packetid (str_text topic) payload) \<and>
       drop (nat rc) buf' = drop (nat rc) buf)"
proof -
  let ?body = "publish_body qos packetid (str_text topic) payload"
  let ?h = "publish_header dup qos retained"
  have "int (length (frame ?h ?body)) \<le> buflen" if "MQTTPacket_len (int (length ?body)) \<le> buflen"
  proof -
    have "int (length ?body) < buflen" using that by (auto simp: MQTTPacket_len_def Let_def split: if_splits)
    then show ?thesis using frame_fits [OF that] assms(3,4) by simp
  qed
  moreover have "frame ?h ?body \<noteq> []" by (simp add: frame_def)
  ultimately show ?thesis
    using assms(3) by (cases "MQTTPacket_len (int (length ?body)) \<le> buflen")
      (auto simp: MQTTSerialize_publish_frame [OF assms(1,2)] Let_def)
qed

theorem publish_serialize_bounds_witness:
  "\<exists>buf' rc. MQTTSerialize_publish [0, 0, 0, 0, 0, 0, 0] 7 0 0 0 0
      \<lparr>cstring = Some [97], lenstring = \<lparr>ls_len = 0, ls_data = None\<rparr>\<rparr>
      (Some ([5] @ [])) (int (length [5 :: byte])) = Some (buf', rc) \<and>
    length buf' = length [0, 0, 0, 0, 0, 0, 0 :: byte] \<and>
    (if rc = - 2 then buf' = [0, 0, 0, 0, 0, 0, 0]
     else 0 < rc \<and> rc \<le> 7 \<and>
       take (nat rc) buf' = frame (publish_header 0 0 0) (publish_body 0 0
         (str_text \<lparr>cstring = Some [97], lenstring = \<lparr>ls_len = 0, ls_data = None\<rparr>\<rparr>) [5]) \<and>
       drop (nat rc) buf' = drop (nat rc) [0, 0, 0, 0, 0, 0, 0])"
  by (rule publish_serialize_bounds) (simp_all add: wf_string_def)

text \<open>
  A truncated publish is accepted. When the topic length field of a short publish points past
  the remaining length, the deserializer fails to read the topic and leaves by the error exit, but
  \<open>rc\<close> still holds the number of remaining-length bytes, which is 1, the success code: the caller is
  told the packet is good while the payload pointer and length were never assigned.
\<close>

theorem publish_truncated_accepted:
  assumes "buf = h # n # hi # lo # rest" "hdr_type h = PUBLISH" "2 \<le> uint n" "uint n < 128"
    and "uint n < 2 + (256 * uint hi + uint lo)"
  shows "\<exists>d'. MQTTDeserialize_publish d buf buflen = Some (1, d') \<and>
    pub_payload d' = pub_payload d \<and> pub_payloadlen d' = pub_payloadlen d"
proof -
  have dec: "MQTTPacket_decodeBuf buf 1 = Some (1, uint n)"
    using assms by (intro decodeBuf_short) auto
  have ri: "readInt buf 2 = Some (256 * uint hi + uint lo, 4)"
    using assms(1) by (simp add: readInt_def load_def)
  have "readMQTTLenString (pub_topicName d) buf 2 (2 + nat (uint n)) =
      Some (0, (pub_topicName d)\<lparr>lenstring := (lenstring (pub_topicName d))\<lparr>ls_len := 256 * uint hi + uint lo\<rparr>,
        cstring := None\<rparr>, 4)"
    using ri assms(3,5) by (simp add: readMQTTLenString_def)
  with dec assms(1,2) show ?thesis
    by (simp add: MQTTDeserialize_publish_def readChar_def load_def numeral_2_eq_2)
qed

theorem publish_truncated_accepted_witness:
  "\<exists>d'. MQTTDeserialize_publish \<lparr>pub_dup = 0, pub_qos = 0, pub_retained = 0, pub_packetid = 0,
      pub_topicName = MQTTString_initializer, pub_payload = None, pub_payloadlen = 77\<rparr>
      [0x30, 2, 1, 0] 4 = Some (1, d') \<and> pub_payload d' = None \<and> pub_payloadlen d' = 77"
  using publish_truncated_accepted [of "[0x30, 2, 1, 0]" "0x30" 2 1 0 "[]"
      "\<lparr>pub_dup = 0, pub_qos = 0, pub_retained = 0, pub_packetid = 0,
      pub_topicName = MQTTString_initializer, pub_payload = None, pub_payloadlen = 77\<rparr>" 4]
  by (simp add: hdr_type_def get_field_def)

text \<open>
  Whatever a packet's bytes are, deserializing it as a publish reads nothing outside the buffer
  as long as the extent its remaining length announces ends two bytes before the end of the buffer;
  the two bytes are needed because the packet identifier is read without a check, which also makes
  a payload length of -1 or -2 possible.
\<close>

theorem publish_deserialize_bounds:
  assumes "MQTTPacket_decodeBuf buf 1 = Some (k, n)" "1 + k + nat n + 2 \<le> length buf"
  shows "\<exists>rc d'. MQTTDeserialize_publish d buf buflen = Some (rc, d') \<and>
    (rc = 1 \<and> pub_payloadlen d' \<noteq> pub_payloadlen d \<longrightarrow> - 2 \<le> pub_payloadlen d' \<and> pub_payloadlen d' \<le> n)"
proof -
  have kn: "0 < k" "0 \<le> n" using decodeBuf_bounds [OF assms(1)] by auto
  have rc: "readChar buf 0 = Some (buf ! 0, 1)"
    using assms(2) by (cases buf) (auto simp: readChar_def load_def)
  let ?e = "1 + k + nat n"
  obtain ok t q where r: "readMQTTLenString (pub_topicName d) buf (1 + k) ?e = Some (ok, t, q)"
    and q: "1 + k \<le> q" "q \<le> ?e"
    using readMQTTLenString_total [of ?e buf "1 + k" "pub_topicName d"] assms(2) by auto
  have id: "readInt buf q = Some (256 * uint (buf ! q) + uint (buf ! (q + 1)), q + 2)"
    using q assms(2) by (simp add: readInt_def load_def)
  show ?thesis
  proof (cases "hdr_type (buf ! 0) = PUBLISH")
    case False
    with rc show ?thesis by (simp add: MQTTDeserialize_publish_def)
  next
    case True
    with assms(1) rc r id q kn show ?thesis
      by (auto simp: MQTTDeserialize_publish_def Let_def)
  qed
qed

theorem publish_deserialize_bounds_witness:
  "\<exists>rc d'. MQTTDeserialize_publish \<lparr>pub_dup = 0, pub_qos = 0, pub_retained = 0, pub_packetid = 0,
      pub_topicName = MQTTString_initializer, pub_payload = None, pub_payloadlen = 0\<rparr>
      [0x32, 3, 0, 1, 97, 9, 9] 7 = Some (rc, d') \<and>
    (rc = 1 \<and> pub_payloadlen d' \<noteq> 0 \<longrightarrow> - 2 \<le> pub_payloadlen d' \<and> pub_payloadlen d' \<le> 3)"
proof -
  have d: "MQTTPacket_decodeBuf [0x32, 3, 0, 1, 97, 9, 9] 1 = Some (1, 3)" by code_simp
  show ?thesis
    using publish_deserialize_bounds [OF d, of "\<lparr>pub_dup = 0, pub_qos = 0, pub_retained = 0,
      pub_packetid = 0, pub_topicName = MQTTString_initializer, pub_payload = None,
      pub_payloadlen = 0\<rparr>" 7] by simp
qed

text \<open>
  Acknowledgement round trip: an acknowledgement serialized into a buffer of at least four bytes
  is deserialized to its type, duplicate flag and packet identifier; a shorter buffer is refused.
\<close>

theorem ack_roundtrip:
  assumes "take_bit 4 t = t" "take_bit 1 dup = dup" "4 \<le> length buf"
  shows "\<exists>buf'. MQTTSerialize_ack buf (int (length buf)) t dup packetid = Some (buf', 4) \<and>
      MQTTDeserialize_ack d buf' buflen = Some (1, \<lparr>ack_packettype = t, ack_dup = dup,
        ack_packetid = packetid, \<dots> = ack_data.more d\<rparr>)"
  using assms MQTTDeserialize_ack_frame [OF refl, of d t dup packetid "drop 4 buf" buflen]
  by (simp add: MQTTSerialize_ack_frame)

theorem ack_roundtrip_witness:
  "\<exists>buf'. MQTTSerialize_ack [0, 0, 0, 0] (int (length [0, 0, 0, 0 :: byte])) PUBREL 1 4660 = Some (buf', 4) \<and>
      MQTTDeserialize_ack \<lparr>ack_packettype = 0, ack_dup = 0, ack_packetid = 0\<rparr> buf' 4 =
        Some (1, \<lparr>ack_packettype = PUBREL, ack_dup = 1, ack_packetid = 4660\<rparr>)"
  using ack_roundtrip [of PUBREL 1 "[0, 0, 0, 0]" 4660
      "\<lparr>ack_packettype = 0, ack_dup = 0, ack_packetid = 0\<rparr>" 4]
  by simp

end
