(* ===== verification/Mqtt_Connect.thy ===== *)
theory Mqtt_Connect
  imports Mqtt_Publish
begin

text \<open>
  \<open>src/mqtt/MQTTConnectClient.c\<close>, \<open>MQTTConnectServer.c\<close> and \<open>MQTTConnect.h\<close>: the connect packet with its
  options and flags, the connack packet, and the two packets without a body. As for the other
  packets, an access outside a buffer is \<open>None\<close>, and a variable that is not assigned keeps its value.
\<close>

section \<open>Options and flags\<close>

record MQTTPacket_willOptions =
  topicName :: MQTTString
  message :: MQTTString
  will_retained :: byte
  will_qos :: byte

record MQTTPacket_connectData =
  MQTTVersion :: byte
  clientID :: MQTTString
  keepAliveInterval :: "16 word"
  cleansession :: byte
  willFlag :: byte
  will :: MQTTPacket_willOptions
  username :: MQTTString
  password :: MQTTString

definition MQTTPacket_connectData_initializer :: MQTTPacket_connectData where
  "MQTTPacket_connectData_initializer =
     \<lparr>MQTTVersion = 4, clientID = MQTTString_initializer, keepAliveInterval = 60, cleansession = 1,
      willFlag = 0, will = \<lparr>topicName = MQTTString_initializer, message = MQTTString_initializer,
                           will_retained = 0, will_qos = 0\<rparr>,
      username = MQTTString_initializer, password = MQTTString_initializer\<rparr>"

text \<open>
  The union \<open>MQTTConnectFlags\<close>: after one unused bit, \<open>cleansession : 1\<close>, \<open>will : 1\<close>, \<open>willQoS : 2\<close>,
  \<open>willRetain : 1\<close>, \<open>password : 1\<close>, \<open>username : 1\<close>. In \<open>MQTTConnackFlags\<close> the session present flag comes
  after seven unused bits, which makes it the top bit of the byte.
\<close>

definition cf_cleansession :: "byte \<Rightarrow> byte" where "cf_cleansession = get_field 1 1"
definition cf_will :: "byte \<Rightarrow> byte" where "cf_will = get_field 2 1"
definition cf_willQoS :: "byte \<Rightarrow> byte" where "cf_willQoS = get_field 3 2"
definition cf_willRetain :: "byte \<Rightarrow> byte" where "cf_willRetain = get_field 5 1"
definition cf_password :: "byte \<Rightarrow> byte" where "cf_password = get_field 6 1"
definition cf_username :: "byte \<Rightarrow> byte" where "cf_username = get_field 7 1"

definition set_cleansession :: "byte \<Rightarrow> byte \<Rightarrow> byte" where "set_cleansession = set_field 1 1"
definition set_will :: "byte \<Rightarrow> byte \<Rightarrow> byte" where "set_will = set_field 2 1"
definition set_willQoS :: "byte \<Rightarrow> byte \<Rightarrow> byte" where "set_willQoS = set_field 3 2"
definition set_willRetain :: "byte \<Rightarrow> byte \<Rightarrow> byte" where "set_willRetain = set_field 5 1"
definition set_password :: "byte \<Rightarrow> byte \<Rightarrow> byte" where "set_password = set_field 6 1"
definition set_username :: "byte \<Rightarrow> byte \<Rightarrow> byte" where "set_username = set_field 7 1"

definition caf_sessionpresent :: "byte \<Rightarrow> byte" where "caf_sessionpresent = get_field 7 1"
definition set_sessionpresent :: "byte \<Rightarrow> byte \<Rightarrow> byte" where "set_sessionpresent = set_field 7 1"

lemmas cf_defs = cf_cleansession_def cf_will_def cf_willQoS_def cf_willRetain_def cf_password_def
  cf_username_def set_cleansession_def set_will_def set_willQoS_def set_willRetain_def
  set_password_def set_username_def caf_sessionpresent_def set_sessionpresent_def

section \<open>Connect, client side\<close>

text \<open>The condition \<open>s.cstring || s.lenstring.data\<close>.\<close>

definition present :: "MQTTString \<Rightarrow> bool" where
  "present s \<longleftrightarrow> cstring s \<noteq> None \<or> ls_data (lenstring s) \<noteq> None"

definition MQTTSerialize_connectLength :: "MQTTPacket_connectData \<Rightarrow> int" where
  "MQTTSerialize_connectLength options =
     (let len = (if MQTTVersion options = 3 then 12 else if MQTTVersion options = 4 then 10 else 0);
          len = len + MQTTstrlen (clientID options) + 2;
          len = (if willFlag options \<noteq> 0
                 then len + MQTTstrlen (topicName (will options)) + 2
                          + MQTTstrlen (message (will options)) + 2
                 else len);
          len = (if present (username options) then len + MQTTstrlen (username options) + 2 else len);
          len = (if present (password options) then len + MQTTstrlen (password options) + 2 else len)
      in len)"

text \<open>The bytes of \<open>"MQTT"\<close> and \<open>"MQIsdp"\<close>.\<close>

abbreviation (input) MQTT_name :: "byte list" where "MQTT_name \<equiv> [77, 81, 84, 84]"
abbreviation (input) MQIsdp_name :: "byte list" where "MQIsdp_name \<equiv> [77, 81, 73, 115, 100, 112]"

definition connect_flags :: "MQTTPacket_connectData \<Rightarrow> byte" where
  "connect_flags options =
     (let flags = set_cleansession (cleansession options) 0;
          flags = set_will (if willFlag options \<noteq> 0 then 1 else 0) flags;
          flags = (if cf_will flags \<noteq> 0
                   then set_willRetain (will_retained (will options))
                          (set_willQoS (will_qos (will options)) flags)
                   else flags);
          flags = (if present (username options) then set_username 1 flags else flags);
          flags = (if present (password options) then set_password 1 flags else flags)
      in flags)"

definition MQTTSerialize_connect ::
    "buffer \<Rightarrow> int \<Rightarrow> MQTTPacket_connectData \<Rightarrow> (buffer \<times> int) option" where
  "MQTTSerialize_connect buf buflen options =
     (let len = MQTTSerialize_connectLength options
      in if MQTTPacket_len len > buflen then Some (buf, MQTTPACKET_BUFFER_TOO_SHORT)
         else do {
           ptr \<leftarrow> writeChar (buf, 0) (set_type CONNECT 0);
           ptr \<leftarrow> put_rem_len ptr len;
           ptr \<leftarrow> (if MQTTVersion options = 4
                   then do { ptr \<leftarrow> writeCString ptr MQTT_name; writeChar ptr 4 }
                   else do { ptr \<leftarrow> writeCString ptr MQIsdp_name; writeChar ptr 3 });
           let flags = connect_flags options;
           ptr \<leftarrow> writeChar ptr flags;
           ptr \<leftarrow> writeInt ptr (uint (keepAliveInterval options));
           ptr \<leftarrow> writeMQTTString ptr (clientID options);
           ptr \<leftarrow> (if willFlag options \<noteq> 0
                   then do { ptr \<leftarrow> writeMQTTString ptr (topicName (will options));
                             writeMQTTString ptr (message (will options)) }
                   else Some ptr);
           ptr \<leftarrow> (if cf_username flags \<noteq> 0 then writeMQTTString ptr (username options) else Some ptr);
           ptr \<leftarrow> (if cf_password flags \<noteq> 0 then writeMQTTString ptr (password options) else Some ptr);
           finish ptr })"

text \<open>\<open>*sessionPresent\<close> and \<open>*connack_rc\<close> are the pair passed in and out.\<close>

definition MQTTDeserialize_connack ::
    "byte \<times> byte \<Rightarrow> buffer \<Rightarrow> int \<Rightarrow> (int \<times> byte \<times> byte) option" where
  "MQTTDeserialize_connack out buf buflen = do {
     (header, curdata) \<leftarrow> readChar buf 0;
     if hdr_type header \<noteq> CONNACK then Some (0, out)
     else do {
       (rc, mylen) \<leftarrow> MQTTPacket_decodeBuf buf curdata;
       let curdata = curdata + rc;
       let enddata = curdata + nat mylen;
       if int enddata - int curdata < 2 then Some (int rc, out)
       else do {
         (flags, curdata) \<leftarrow> readChar buf curdata;
         (connack_rc, curdata) \<leftarrow> readChar buf curdata;
         Some (1, caf_sessionpresent flags, connack_rc) } } }"

definition MQTTSerialize_zero :: "buffer \<Rightarrow> int \<Rightarrow> byte \<Rightarrow> (buffer \<times> int) option" where
  "MQTTSerialize_zero buf buflen packettype =
     (if buflen < 2 then Some (buf, MQTTPACKET_BUFFER_TOO_SHORT)
      else do {
        ptr \<leftarrow> writeChar (buf, 0) (set_type packettype 0);
        ptr \<leftarrow> put_rem_len ptr 0;
        finish ptr })"

definition MQTTSerialize_disconnect :: "buffer \<Rightarrow> int \<Rightarrow> (buffer \<times> int) option" where
  "MQTTSerialize_disconnect buf buflen = MQTTSerialize_zero buf buflen DISCONNECT"

definition MQTTSerialize_pingreq :: "buffer \<Rightarrow> int \<Rightarrow> (buffer \<times> int) option" where
  "MQTTSerialize_pingreq buf buflen = MQTTSerialize_zero buf buflen PINGREQ"

section \<open>Connect, server side\<close>

text \<open>\<open>memcmp\<close> of two objects is defined when both have \<open>n\<close> bytes.\<close>

definition memcmp_eq :: "byte list option \<Rightarrow> byte list \<Rightarrow> nat \<Rightarrow> bool option" where
  "memcmp_eq xs ys n = do {
     a \<leftarrow> fetch xs n;
     b \<leftarrow> fetch (Some ys) n;
     Some (a = b) }"

definition MQTTPacket_checkVersion :: "MQTTString \<Rightarrow> int \<Rightarrow> bool option" where
  "MQTTPacket_checkVersion protocol version =
     (let data = ls_data (lenstring protocol); len = ls_len (lenstring protocol)
      in if version = 3 then memcmp_eq data MQIsdp_name (nat (min 6 len))
         else if version = 4 then memcmp_eq data MQTT_name (nat (min 4 len))
         else Some False)"

text \<open>The will of a connect packet; the result says whether both strings were there.\<close>

definition read_will ::
    "byte \<Rightarrow> MQTTPacket_connectData \<Rightarrow> buffer \<Rightarrow> nat \<Rightarrow> nat \<Rightarrow>
     (bool \<times> MQTTPacket_connectData \<times> nat) option" where
  "read_will flags data buf curdata enddata =
     (if cf_will flags = 0 then Some (True, data, curdata)
      else do {
        let data = data\<lparr>will := (will data)\<lparr>will_qos := cf_willQoS flags,
                                           will_retained := cf_willRetain flags\<rparr>\<rparr>;
        (ok, s, curdata) \<leftarrow> readMQTTLenString (topicName (will data)) buf curdata enddata;
        let data = data\<lparr>will := (will data)\<lparr>topicName := s\<rparr>\<rparr>;
        if ok = 0 then Some (False, data, curdata)
        else do {
          (ok, s, curdata) \<leftarrow> readMQTTLenString (message (will data)) buf curdata enddata;
          let data = data\<lparr>will := (will data)\<lparr>message := s\<rparr>\<rparr>;
          Some (ok \<noteq> 0, data, curdata) } })"

definition read_credentials ::
    "byte \<Rightarrow> MQTTPacket_connectData \<Rightarrow> buffer \<Rightarrow> nat \<Rightarrow> nat \<Rightarrow>
     (int \<times> MQTTPacket_connectData) option" where
  "read_credentials flags data buf curdata enddata =
     (if cf_username flags \<noteq> 0 then
        if int enddata - int curdata < 3 then Some (0, data)
        else do {
          (ok, s, curdata) \<leftarrow> readMQTTLenString (username data) buf curdata enddata;
          let data = data\<lparr>username := s\<rparr>;
          if ok = 0 then Some (0, data)
          else if cf_password flags \<noteq> 0 then
            if int enddata - int curdata < 3 then Some (0, data)
            else do {
              (ok, s, curdata) \<leftarrow> readMQTTLenString (password data) buf curdata enddata;
              let data = data\<lparr>password := s\<rparr>;
              Some (if ok = 0 then 0 else 1, data) }
          else Some (1, data) }
      else if cf_password flags \<noteq> 0 then Some (0, data)
      else Some (1, data))"

definition MQTTDeserialize_connect ::
    "MQTTPacket_connectData \<Rightarrow> buffer \<Rightarrow> nat \<Rightarrow> (int \<times> MQTTPacket_connectData) option" where
  "MQTTDeserialize_connect data buf len = do {
     let enddata = len;
     (header, curdata) \<leftarrow> readChar buf 0;
     if hdr_type header \<noteq> CONNECT then Some (0, data)
     else do {
       (k, mylen) \<leftarrow> MQTTPacket_decodeBuf buf curdata;
       let curdata = curdata + k;
       (ok, Protocol, curdata) \<leftarrow> readMQTTLenString MQTTString_initializer buf curdata enddata;
       if ok = 0 \<or> int enddata - int curdata < 0 then Some (0, data)
       else do {
         (version, curdata) \<leftarrow> readChar buf curdata;
         valid \<leftarrow> MQTTPacket_checkVersion Protocol (uint version);
         if \<not> valid then Some (0, data)
         else do {
           (flags, curdata) \<leftarrow> readChar buf curdata;
           let data = data\<lparr>cleansession := cf_cleansession flags\<rparr>;
           (n, curdata) \<leftarrow> readInt buf curdata;
           let data = data\<lparr>keepAliveInterval := word_of_int n\<rparr>;
           (ok, s, curdata) \<leftarrow> readMQTTLenString (clientID data) buf curdata enddata;
           let data = data\<lparr>clientID := s\<rparr>;
           if ok = 0 then Some (0, data)
           else do {
             let data = data\<lparr>willFlag := cf_will flags\<rparr>;
             (ok, data, curdata) \<leftarrow> read_will flags data buf curdata enddata;
             if \<not> ok then Some (0, data)
             else read_credentials flags data buf curdata enddata } } } } }"

definition MQTTSerialize_connack :: "buffer \<Rightarrow> int \<Rightarrow> byte \<Rightarrow> byte \<Rightarrow> (buffer \<times> int) option" where
  "MQTTSerialize_connack buf buflen connack_rc sessionPresent =
     (if buflen < 2 then Some (buf, MQTTPACKET_BUFFER_TOO_SHORT)
      else do {
        ptr \<leftarrow> writeChar (buf, 0) (set_type CONNACK 0);
        ptr \<leftarrow> put_rem_len ptr 2;
        let flags = set_sessionpresent sessionPresent 0;
        ptr \<leftarrow> writeChar ptr flags;
        ptr \<leftarrow> writeChar ptr connack_rc;
        finish ptr })"

section \<open>The packet\<close>

lemma connect_flags_bits [hdr_simps]:
  "cf_cleansession (connect_flags o') = take_bit 1 (cleansession o')"
  "cf_will (connect_flags o') = (if willFlag o' \<noteq> 0 then 1 else 0)"
  "cf_username (connect_flags o') = (if present (username o') then 1 else 0)"
  "cf_password (connect_flags o') = (if present (password o') then 1 else 0)"
  "willFlag o' \<noteq> 0 \<Longrightarrow> cf_willQoS (connect_flags o') = take_bit 2 (will_qos (will o'))"
  "willFlag o' \<noteq> 0 \<Longrightarrow> cf_willRetain (connect_flags o') = take_bit 1 (will_retained (will o'))"
proof -
  have z: "get_field off w 0 = 0" for off w by (simp add: get_field_def)
  show "cf_cleansession (connect_flags o') = take_bit 1 (cleansession o')"
    "cf_will (connect_flags o') = (if willFlag o' \<noteq> 0 then 1 else 0)"
    "cf_username (connect_flags o') = (if present (username o') then 1 else 0)"
    "cf_password (connect_flags o') = (if present (password o') then 1 else 0)"
    "willFlag o' \<noteq> 0 \<Longrightarrow> cf_willQoS (connect_flags o') = take_bit 2 (will_qos (will o'))"
    "willFlag o' \<noteq> 0 \<Longrightarrow> cf_willRetain (connect_flags o') = take_bit 1 (will_retained (will o'))"
    by (simp_all add: connect_flags_def Let_def cf_defs get_set_field get_set_other_field z)
qed

definition opt_utf :: "MQTTString \<Rightarrow> byte list" where
  "opt_utf s = (if present s then utf (str_text s) else [])"

definition connect_body :: "MQTTPacket_connectData \<Rightarrow> byte list" where
  "connect_body o' = (if MQTTVersion o' = 4 then utf MQTT_name @ [4] else utf MQIsdp_name @ [3]) @
     [connect_flags o'] @ be16 (uint (keepAliveInterval o')) @ utf (str_text (clientID o')) @
     (if willFlag o' \<noteq> 0
      then utf (str_text (topicName (will o'))) @ utf (str_text (message (will o'))) else []) @
     opt_utf (username o') @ opt_utf (password o')"

text \<open>The options that describe a packet: version 3.1 or 3.1.1 and strings that are there.\<close>

definition wf_connect :: "MQTTPacket_connectData \<Rightarrow> bool" where
  "wf_connect o' \<longleftrightarrow> (MQTTVersion o' = 3 \<or> MQTTVersion o' = 4) \<and> wf_string (clientID o') \<and>
     wf_string (topicName (will o')) \<and> wf_string (message (will o')) \<and>
     wf_string (username o') \<and> wf_string (password o')"

text \<open>The packets the server accepts: a password comes with a user name and is not empty, and an empty user name comes with a password.\<close>

definition accepted :: "MQTTPacket_connectData \<Rightarrow> bool" where
  "accepted o' \<longleftrightarrow> (present (password o') \<longrightarrow> present (username o') \<and> str_text (password o') \<noteq> []) \<and>
     (present (username o') \<longrightarrow> str_text (username o') \<noteq> [] \<or> present (password o'))"

lemma connect_length: "wf_connect o' \<Longrightarrow> MQTTSerialize_connectLength o' = int (length (connect_body o'))"
  by (auto simp: wf_connect_def MQTTSerialize_connectLength_def connect_body_def opt_utf_def
      MQTTstrlen_text)

lemma connect_body_small:
  assumes "wf_connect o'" shows "length (connect_body o') < 268435456"
  using assms wf_string_length [of "clientID o'"] wf_string_length [of "topicName (will o')"]
    wf_string_length [of "message (will o')"] wf_string_length [of "username o'"]
    wf_string_length [of "password o'"]
  by (simp add: wf_connect_def connect_body_def opt_utf_def)

lemma MQTTSerialize_connect_frame:
  assumes "wf_connect o'"
  shows "MQTTSerialize_connect buf buflen o' =
    (let pkt = frame (set_type CONNECT 0) (connect_body o')
     in if MQTTPacket_len (int (length (connect_body o'))) > buflen
        then Some (buf, MQTTPACKET_BUFFER_TOO_SHORT)
        else if length pkt \<le> length buf then Some (pkt @ drop (length pkt) buf, int (length pkt))
        else None)"
  using assms unfolding wf_connect_def
  by (simp add: MQTTSerialize_connect_def connect_length [OF assms] hdr_simps cursor_simps Let_def
      frame_def connect_body_def opt_utf_def)

text \<open>Reading the optional parts back, from the bytes of the packet at the pointer.\<close>

lemma readMQTTLenString_next:
  assumes "drop p buf = utf bs @ rest" "length bs < 65536" "p + 2 + length bs \<le> e"
  shows "readMQTTLenString s buf p e = Some (1, len_string bs rest, p + 2 + length bs)"
    and "drop (p + 2 + length bs) buf = rest"
  using readMQTTLenString_utf [OF assms] drop_append_shift [OF assms(1)]
  by (simp_all add: add.assoc)

lemma read_will_bytes:
  assumes "drop p buf = utf t @ utf m @ rest" "length t < 65536" "length m < 65536"
    and "p + 4 + length t + length m \<le> e" "cf_will flags \<noteq> 0"
  shows "read_will flags data buf p e = Some (True, data\<lparr>will := (will data)\<lparr>
      will_qos := cf_willQoS flags, will_retained := cf_willRetain flags,
      topicName := len_string t (utf m @ rest), message := len_string m rest\<rparr>\<rparr>,
      p + 4 + length t + length m)"
proof -
  have e1: "p + 2 + length t \<le> e" and e2: "(p + 2 + length t) + 2 + length m \<le> e"
    using assms(4) by auto
  note s1 = readMQTTLenString_next [OF assms(1,2) e1]
  note s2 = readMQTTLenString_next(1) [OF s1(2) assms(3) e2]
  show ?thesis using assms(5) s1(1) s2 by (simp add: read_will_def)
qed

lemma read_credentials_bytes:
  assumes "drop p buf = (if cf_username flags \<noteq> 0 then utf u else []) @
      (if cf_password flags \<noteq> 0 then utf w else []) @ rest"
    and "length u < 65536" "length w < 65536"
    and "p + length ((if cf_username flags \<noteq> 0 then utf u else []) @
      (if cf_password flags \<noteq> 0 then utf w else [])) = e"
    and ok: "ok \<longleftrightarrow> (cf_password flags \<noteq> 0 \<longrightarrow> cf_username flags \<noteq> 0 \<and> w \<noteq> []) \<and>
      (cf_username flags \<noteq> 0 \<longrightarrow> u \<noteq> [] \<or> cf_password flags \<noteq> 0)"
  shows "\<exists>d. read_credentials flags data buf p e = Some (if ok then 1 else 0, d) \<and>
    (ok \<longrightarrow> (cf_username flags \<noteq> 0 \<longrightarrow> str_text (username d) = u) \<and>
      (cf_password flags \<noteq> 0 \<longrightarrow> str_text (password d) = w)) \<and>
    d = data\<lparr>username := username d, password := password d\<rparr>"
proof (cases "cf_username flags = 0")
  case True
  with ok show ?thesis by (auto simp: read_credentials_def)
next
  case False
  let ?w = "if cf_password flags \<noteq> 0 then utf w else []"
  have d1: "drop p buf = utf u @ (?w @ rest)" and e1: "p + 2 + length u \<le> e"
    using False assms(1,4) by auto
  note s1 = readMQTTLenString_next [OF d1 assms(2) e1]
  show ?thesis
  proof (cases "cf_password flags = 0")
    case True
    then have "int e - int p < 3 \<longleftrightarrow> \<not> ok" using False assms(4) ok by (cases u) auto
    with True False s1 show ?thesis by (auto simp: read_credentials_def)
  next
    case pw: False
    have d2: "drop (p + 2 + length u) buf = utf w @ rest" and e2: "(p + 2 + length u) + 2 + length w \<le> e"
      using s1(2) pw False assms(4) by auto
    note s2 = readMQTTLenString_next(1) [OF d2 assms(3) e2]
    have n1: "\<not> int e - int p < 3" using False pw assms(4) by auto
    have n2: "int e - int (p + 2 + length u) < 3 \<longleftrightarrow> \<not> ok" using False pw assms(4) ok by (cases w) auto
    show ?thesis using False pw s1(1) s2 n1 n2 by (auto simp: read_credentials_def)
  qed
qed

text \<open>
  The version check compares no more characters than the protocol name has, so it accepts every
  string that agrees with the name as far as both go: a prefix of the name, or a longer string.
\<close>

lemma memcmp_text:
  assumes "cstring s = None" "wf_string s"
  shows "memcmp_eq (ls_data (lenstring s)) name (nat (min (int (length name)) (ls_len (lenstring s)))) =
    Some (take (length name) (str_text s) = take (length (str_text s)) name)"
proof (cases "ls_data (lenstring s)")
  case None
  with assms show ?thesis by (simp add: wf_string_def memcmp_eq_def fetch_def str_text_def)
next
  case (Some d)
  define n where "n = nat (ls_len (lenstring s))"
  have n: "ls_len (lenstring s) = int n" "n \<le> length d"
    using assms Some by (simp_all add: wf_string_def n_def)
  have t: "str_text s = take n d"
    using assms(1) Some n by (auto simp: str_text_def)
  have m: "nat (min (int (length name)) (ls_len (lenstring s))) = min (length name) n"
    using n by (simp add: min_def)
  show ?thesis
    unfolding memcmp_eq_def m Some t
    using n(2) by (cases "length name \<le> n") (simp_all add: fetch_def)
qed

lemma checkVersion_text:
  assumes "cstring s = None" "wf_string s"
  shows "MQTTPacket_checkVersion s v =
    Some (v = 3 \<and> take 6 (str_text s) = take (length (str_text s)) MQIsdp_name \<or>
          v = 4 \<and> take 4 (str_text s) = take (length (str_text s)) MQTT_name)"
  using memcmp_text [OF assms, of MQIsdp_name] memcmp_text [OF assms, of MQTT_name]
  by (simp add: MQTTPacket_checkVersion_def Let_def eval_nat_numeral)

text \<open>Deserializing the packet gives the options back.\<close>

lemma MQTTDeserialize_connect_frame:
  assumes wf: "wf_connect o'"
    and buf: "buf = frame (set_type CONNECT 0) (connect_body o') @ rest"
    and len: "length (frame (set_type CONNECT 0) (connect_body o')) = e"
  shows "\<exists>d. MQTTDeserialize_connect data buf e = Some (if accepted o' then 1 else 0, d) \<and>
    MQTTVersion d = MQTTVersion data \<and>
    cleansession d = take_bit 1 (cleansession o') \<and>
    keepAliveInterval d = keepAliveInterval o' \<and>
    str_text (clientID d) = str_text (clientID o') \<and>
    willFlag d = (if willFlag o' \<noteq> 0 then 1 else 0) \<and>
    (willFlag o' \<noteq> 0 \<longrightarrow> str_text (topicName (will d)) = str_text (topicName (will o')) \<and>
       str_text (message (will d)) = str_text (message (will o')) \<and>
       will_qos (will d) = take_bit 2 (will_qos (will o')) \<and>
       will_retained (will d) = take_bit 1 (will_retained (will o'))) \<and>
    (accepted o' \<longrightarrow> (present (username o') \<longrightarrow> str_text (username d) = str_text (username o')) \<and>
       (present (password o') \<longrightarrow> str_text (password d) = str_text (password o')))"
proof -
  let ?f = "connect_flags o'"
  define name where "name = (if MQTTVersion o' = 4 then MQTT_name else MQIsdp_name)"
  define v where "v = (if MQTTVersion o' = 4 then 4 else 3 :: byte)"
  define wl where "wl = (if willFlag o' \<noteq> 0
      then utf (str_text (topicName (will o'))) @ utf (str_text (message (will o'))) else [])"
  define cred where "cred = opt_utf (username o') @ opt_utf (password o')"
  define k where "k = length (rl_bytes (int (length (connect_body o'))))"
  have body: "connect_body o' = utf name @ [v] @ [?f] @ be16 (uint (keepAliveInterval o')) @
      utf (str_text (clientID o')) @ wl @ cred"
    by (simp add: connect_body_def name_def v_def wl_def cred_def)
  note st = frame_start [OF buf connect_body_small [OF wf], folded k_def]
  have e: "1 + k + length (connect_body o') = e" using len by (simp add: length_frame k_def)
  define p0 where "p0 = 1 + k + 2 + length name"
  define p1 where "p1 = p0 + 4 + 2 + length (str_text (clientID o'))"
  have lens: "length (str_text s) < 65536" if "wf_string s" for s
    using wf_string_length that .
  have wfs: "wf_string (clientID o')" "wf_string (topicName (will o'))" "wf_string (message (will o'))"
    "wf_string (username o')" "wf_string (password o')" using wf by (simp_all add: wf_connect_def)
  have elen: "p1 + length wl + length cred = e" using e by (simp add: body p1_def p0_def)
  have r0: "drop (1 + k) buf = utf name @ [v] @ [?f] @ be16 (uint (keepAliveInterval o')) @
      utf (str_text (clientID o')) @ wl @ cred @ rest" using st(3) by (simp add: body)
  have nm: "length name < 65536" by (simp add: name_def)
  have e0: "1 + k + 2 + length name \<le> e" using elen by (simp add: p1_def p0_def)
  note s0 = readMQTTLenString_next [OF r0 nm e0, folded p0_def]
  have cv: "MQTTPacket_checkVersion (len_string name r) (uint v) = Some True" for r
    using checkVersion_text [of "len_string name r" "uint v"]
    by (simp add: name_def v_def len_string_def wf_string_def str_text_def)
  have rv: "readChar buf p0 = Some (v, p0 + 1)" "readChar buf (p0 + 1) = Some (?f, p0 + 2)"
    using readChar_drop [OF s0(2) [simplified]]
      readChar_drop [OF drop_Cons_Suc [OF s0(2) [simplified]]] by simp_all
  have d1: "drop (p0 + 2) buf = be16 (uint (keepAliveInterval o')) @
      utf (str_text (clientID o')) @ wl @ cred @ rest"
    using drop_append_shift [of p0 buf "[v, ?f]"] s0(2) by simp
  have ri: "readInt buf (p0 + 2) = Some (uint (keepAliveInterval o'), p0 + 4)"
    using readInt_drop [OF d1 uint_packetid] by simp
  have d2: "drop (p0 + 4) buf = utf (str_text (clientID o')) @ wl @ cred @ rest"
    using drop_append_shift [OF d1] by (simp add: eval_nat_numeral)
  have e1: "p0 + 4 + 2 + length (str_text (clientID o')) \<le> e" using elen by (simp add: p1_def)
  note s1 = readMQTTLenString_next [OF d2 lens [OF wfs(1)] e1, folded p1_def]
  define D where "D = data\<lparr>cleansession := take_bit 1 (cleansession o'),
      keepAliveInterval := keepAliveInterval o',
      clientID := len_string (str_text (clientID o')) (wl @ cred @ rest),
      willFlag := (if willFlag o' \<noteq> 0 then 1 else 0)\<rparr>"
  have start: "MQTTDeserialize_connect data buf e = Option.bind (read_will ?f D buf p1 e)
      (\<lambda>(ok, data, curdata). if \<not> ok then Some (0, data) else read_credentials ?f data buf curdata e)"
    using st(1,2) s0(1) e0 cv rv ri s1(1)
    by (simp add: MQTTDeserialize_connect_def Let_def hdr_simps p0_def D_def)
  obtain D' where w: "read_will ?f D buf p1 e = Some (True, D', p1 + length wl)"
    and D': "MQTTVersion D' = MQTTVersion D" "cleansession D' = cleansession D" "keepAliveInterval D' = keepAliveInterval D"
      "clientID D' = clientID D" "willFlag D' = willFlag D"
      "willFlag o' \<noteq> 0 \<Longrightarrow> str_text (topicName (will D')) = str_text (topicName (will o')) \<and>
       str_text (message (will D')) = str_text (message (will o')) \<and>
       will_qos (will D') = take_bit 2 (will_qos (will o')) \<and>
       will_retained (will D') = take_bit 1 (will_retained (will o'))"
  proof (cases "willFlag o' = 0")
    case True
    then show thesis by (intro that [of D]) (simp_all add: read_will_def hdr_simps wl_def)
  next
    case False
    have dw: "drop p1 buf = utf (str_text (topicName (will o'))) @ utf (str_text (message (will o'))) @ cred @ rest"
      using s1(2) False by (simp add: wl_def)
    have ew: "p1 + 4 + length (str_text (topicName (will o'))) + length (str_text (message (will o'))) \<le> e"
      using elen False by (simp add: wl_def)
    have f: "cf_will ?f \<noteq> 0" using False by (simp add: hdr_simps)
    have q: "p1 + 4 + length (str_text (topicName (will o'))) + length (str_text (message (will o'))) =
        p1 + length wl" using False by (simp add: wl_def)
    note w = read_will_bytes [OF dw lens [OF wfs(2)] lens [OF wfs(3)] ew f, of D, unfolded q]
    show thesis by (rule that [OF w]) (simp_all add: False hdr_simps)
  qed
  have fb: "cf_username ?f \<noteq> 0 \<longleftrightarrow> present (username o')" "cf_password ?f \<noteq> 0 \<longleftrightarrow> present (password o')"
    by (simp_all add: hdr_simps)
  have dc: "drop (p1 + length wl) buf = (if cf_username ?f \<noteq> 0 then utf (str_text (username o')) else []) @
      (if cf_password ?f \<noteq> 0 then utf (str_text (password o')) else []) @ rest"
    using drop_append_shift [OF s1(2)] by (simp add: hdr_simps cred_def opt_utf_def)
  obtain d where c: "read_credentials ?f D' buf (p1 + length wl) e = Some (if accepted o' then 1 else 0, d)"
    and "accepted o' \<longrightarrow> (present (username o') \<longrightarrow> str_text (username d) = str_text (username o')) \<and>
       (present (password o') \<longrightarrow> str_text (password d) = str_text (password o'))"
    and d: "d = D'\<lparr>username := username d, password := password d\<rparr>"
    using read_credentials_bytes [OF dc lens [OF wfs(4)] lens [OF wfs(5)], of e "accepted o'" D', unfolded fb] elen
    by (auto simp: cred_def opt_utf_def accepted_def)
  moreover have "MQTTDeserialize_connect data buf e = Some (if accepted o' then 1 else 0, d)"
    by (simp add: start w c)
  moreover have "MQTTVersion d = MQTTVersion D'" "cleansession d = cleansession D'" "keepAliveInterval d = keepAliveInterval D'"
    "clientID d = clientID D'" "willFlag d = willFlag D'" "will d = will D'"
    by (subst d, simp)+
  ultimately show ?thesis using D' by (auto simp: D_def)
qed

text \<open>A connack as the client reads it.\<close>

lemma MQTTDeserialize_connack_bytes:
  assumes "hdr_type h = CONNACK"
  shows "MQTTDeserialize_connack out (h # 2 # flags # code # rest) buflen =
      Some (1, caf_sessionpresent flags, code)"
proof -
  have "MQTTPacket_decodeBuf (h # 2 # flags # code # rest) 1 = Some (1, 2)"
    using decodeBuf_short [of 1 "h # 2 # flags # code # rest" 2 "flags # code # rest"] by simp
  with assms show ?thesis
    by (simp add: MQTTDeserialize_connack_def readChar_def load_def numeral_2_eq_2)
qed

lemma MQTTSerialize_connack_bytes:
  assumes "4 \<le> length buf"
  shows "MQTTSerialize_connack buf (int (length buf)) code sp =
    Some (set_type CONNACK 0 # 2 # set_sessionpresent sp 0 # code # drop 4 buf, 4)"
  using assms by (simp add: MQTTSerialize_connack_def cursor_simps rl_bytes_small eval_nat_numeral)

section \<open>Properties\<close>

text \<open>
  C30. A connect packet that the client writes, of version 3.1 or 3.1.1, is read by the server from exactly the bytes written, with the same
  clean-session flag, keep-alive interval, client identifier and will. The server accepts it, with the same credentials, unless there is a
  password without a user name, an empty password, or an empty user name alone: these it refuses. The version is checked and not kept.
\<close>

theorem connect_roundtrip:
  assumes "MQTTSerialize_connect buf buflen o' = Some (buf', rc)" "0 < rc" "wf_connect o'"
  shows "\<exists>d. MQTTDeserialize_connect data buf' (nat rc) = Some (if accepted o' then 1 else 0, d) \<and>
    MQTTVersion d = MQTTVersion data \<and>
    cleansession d = take_bit 1 (cleansession o') \<and>
    keepAliveInterval d = keepAliveInterval o' \<and>
    str_text (clientID d) = str_text (clientID o') \<and>
    willFlag d = (if willFlag o' \<noteq> 0 then 1 else 0) \<and>
    (willFlag o' \<noteq> 0 \<longrightarrow> str_text (topicName (will d)) = str_text (topicName (will o')) \<and>
       str_text (message (will d)) = str_text (message (will o')) \<and>
       will_qos (will d) = take_bit 2 (will_qos (will o')) \<and>
       will_retained (will d) = take_bit 1 (will_retained (will o'))) \<and>
    (accepted o' \<longrightarrow> (present (username o') \<longrightarrow> str_text (username d) = str_text (username o')) \<and>
       (present (password o') \<longrightarrow> str_text (password d) = str_text (password o')))"
proof -
  let ?pkt = "frame (set_type CONNECT 0) (connect_body o')"
  have b: "buf' = ?pkt @ drop (length ?pkt) buf" "nat rc = length ?pkt"
    using assms(1,2) by (auto simp: MQTTSerialize_connect_frame [OF assms(3)] Let_def split: if_splits)
  show ?thesis by (rule MQTTDeserialize_connect_frame [OF assms(3) b(1) b(2) [symmetric]])
qed

theorem connect_roundtrip_witness:
  "\<exists>d. MQTTDeserialize_connect MQTTPacket_connectData_initializer
      [0x10, 16, 0, 4, 77, 81, 84, 84, 4, 0x82, 0, 60, 0, 1, 99, 0, 1, 117] 18 = Some (1, d) \<and>
    cleansession d = 1 \<and> keepAliveInterval d = 60 \<and> str_text (clientID d) = [99] \<and>
    willFlag d = 0 \<and> str_text (username d) = [117]"
proof -
  let ?o = "MQTTPacket_connectData_initializer\<lparr>clientID := \<lparr>cstring = Some [99],
      lenstring = \<lparr>ls_len = 0, ls_data = None\<rparr>\<rparr>, username := \<lparr>cstring = Some [117],
      lenstring = \<lparr>ls_len = 0, ls_data = None\<rparr>\<rparr>\<rparr>"
  have s: "MQTTSerialize_connect (replicate 18 0) 20 ?o =
      Some ([0x10, 16, 0, 4, 77, 81, 84, 84, 4, 0x82, 0, 60, 0, 1, 99, 0, 1, 117], 18)"
    by code_simp
  have w: "wf_connect ?o"
    by (simp add: wf_connect_def wf_string_def MQTTPacket_connectData_initializer_def
        MQTTString_initializer_def)
  obtain c where c: "c = ?o" by blast
  then have o': "present (username c)" "\<not> present (password c)" "str_text (username c) = [117]" "str_text (clientID c) = [99]"
    "willFlag c = 0" "cleansession c = 1" "keepAliveInterval c = 60"
    by (simp_all add: present_def str_text_def MQTTPacket_connectData_initializer_def MQTTString_initializer_def)
  then have "accepted c" by (simp add: accepted_def)
  then show ?thesis
    using connect_roundtrip [OF s [folded c] _ w [folded c], of MQTTPacket_connectData_initializer] o' by auto
qed

text \<open>
  Connack round trip: the return code and the session flag survive serialization into a buffer of four
  bytes or more.
\<close>

theorem connack_roundtrip:
  assumes "4 \<le> length buf"
  shows "\<exists>buf'. MQTTSerialize_connack buf (int (length buf)) code sp = Some (buf', 4) \<and>
      MQTTDeserialize_connack out buf' buflen = Some (1, take_bit 1 sp, code)"
  unfolding MQTTSerialize_connack_bytes [OF assms]
  by (simp add: MQTTDeserialize_connack_bytes hdr_simps caf_sessionpresent_def
      set_sessionpresent_def get_set_field)

theorem connack_roundtrip_witness:
  "\<exists>buf'. MQTTSerialize_connack [0, 0, 0, 0] (int (length [0, 0, 0, 0 :: byte])) 5 1 = Some (buf', 4) \<and>
     MQTTDeserialize_connack (9, 9) buf' 4 = Some (1, take_bit 1 1, 5)"
  by (rule connack_roundtrip) simp

text \<open>
  The session present flag is read from bit 7 of the flags byte, whoever wrote the packet; MQTT 3.1.1
  puts it in bit 0, so the flag a conforming server sets is always read as 0.
\<close>

theorem connack_session_bit:
  "MQTTDeserialize_connack out (0x20 # 2 # flags # code # rest) buflen =
     Some (1, if bit flags 7 then 1 else 0, code)"
proof -
  have f: "get_field 7 1 flags = (if bit flags 7 then 1 else 0)"
    by (rule bit_word_eqI) (auto simp: get_field_def bit_simps bit_iff_odd_drop_bit [of flags 7])
  have h: "hdr_type 0x20 = CONNACK" by (simp add: hdr_type_def get_field_def)
  show ?thesis
    by (simp add: MQTTDeserialize_connack_bytes [OF h] caf_sessionpresent_def f [unfolded One_nat_def])
qed

text \<open>
  The connack serializer checks for two bytes and writes four: a buffer of two or three bytes, of
  which it is told the right size, is written past its end.
\<close>

theorem connack_serialize_overrun:
  assumes "2 \<le> length buf" "length buf < 4"
  shows "MQTTSerialize_connack buf (int (length buf)) code sp = None"
  using assms by (simp add: MQTTSerialize_connack_def cursor_simps rl_bytes_small)

theorem connack_serialize_overrun_witness:
  "MQTTSerialize_connack [0, 0] (int (length [0, 0 :: byte])) 0 0 = None"
  by (rule connack_serialize_overrun) simp_all

text \<open>
  The protocol check looks only at as many characters as the packet's name has: a version 4 packet
  whose protocol name is any prefix of \<open>"MQTT"\<close>, the empty string included, or any extension of it
  passes, and the same holds for version 3 and \<open>"MQIsdp"\<close>.
\<close>

theorem checkVersion_prefix:
  assumes "cstring s = None" "wf_string s"
    and "str_text s = take n MQTT_name \<or> str_text s = MQTT_name @ more'"
  shows "MQTTPacket_checkVersion s 4 = Some True"
proof -
  have "take 4 (str_text s) = take (length (str_text s)) MQTT_name"
    using assms(3) by (auto simp: min_def)
  then show ?thesis by (simp add: checkVersion_text [OF assms(1,2)])
qed

theorem checkVersion_prefix_witness:
  "MQTTPacket_checkVersion (len_string [] [1, 2]) 4 = Some True"
  by (rule checkVersion_prefix [of _ 0 "[]"]) (simp_all add: len_string_def wf_string_def str_text_def)

end
