(* ===== verification/Mqtt_Subscribe.thy ===== *)
theory Mqtt_Subscribe
  imports Mqtt_Publish
begin

text \<open>
  \<open>src/mqtt/MQTTSubscribeClient.c\<close>, \<open>MQTTSubscribeServer.c\<close>, \<open>MQTTUnsubscribeClient.c\<close> and
  \<open>MQTTUnsubscribeServer.c\<close>. The arrays the callers pass are lists of their real size, and an
  element outside an array is an access outside the object, as for buffers. A \<open>char\<close> is unsigned on
  the target, so a quality of service is read as \<open>uint\<close>.
\<close>

section \<open>Subscribe\<close>

definition MQTTSerialize_subscribeLength :: "nat \<Rightarrow> MQTTString list \<Rightarrow> int option" where
  "MQTTSerialize_subscribeLength count topicFilters =
     map_option (foldl (\<lambda>len t. len + (2 + MQTTstrlen t + 1)) 2) (fetch (Some topicFilters) count)"

fun write_filters :: "cursor \<Rightarrow> (MQTTString \<times> int) list \<Rightarrow> cursor option" where
  "write_filters ptr [] = Some ptr"
| "write_filters ptr ((t, qos) # rest) = do {
     ptr \<leftarrow> writeMQTTString ptr t;
     ptr \<leftarrow> writeChar ptr (word_of_int qos);
     write_filters ptr rest }"

definition MQTTSerialize_subscribe ::
    "buffer \<Rightarrow> int \<Rightarrow> byte \<Rightarrow> 16 word \<Rightarrow> nat \<Rightarrow> MQTTString list \<Rightarrow> int list \<Rightarrow> (buffer \<times> int) option" where
  "MQTTSerialize_subscribe buf buflen dup packetid count topicFilters requestedQoSs = do {
     rem_len \<leftarrow> MQTTSerialize_subscribeLength count topicFilters;
     if MQTTPacket_len rem_len > buflen then Some (buf, MQTTPACKET_BUFFER_TOO_SHORT)
     else do {
       let header = set_qos 1 (set_dup dup (set_type SUBSCRIBE 0));
       ptr \<leftarrow> writeChar (buf, 0) header;
       ptr \<leftarrow> put_rem_len ptr rem_len;
       ptr \<leftarrow> writeInt ptr (uint packetid);
       ts \<leftarrow> fetch (Some topicFilters) count;
       qs \<leftarrow> fetch (Some requestedQoSs) count;
       ptr \<leftarrow> write_filters ptr (zip ts qs);
       finish ptr } }"

record subscribe_data =
  sub_dup :: byte
  sub_packetid :: "16 word"
  sub_count :: nat
  sub_topicFilters :: "MQTTString list"
  sub_requestedQoSs :: "int list"

lemma readMQTTLenString_mono:
  "readMQTTLenString s buf p e = Some (ok, s', q) \<Longrightarrow> p \<le> q"
  by (auto simp: readMQTTLenString_def bind_eq_Some_conv Let_def split: if_splits
      dest: readInt_range)

text \<open>The loop over the filters; the boolean says whether it left by \<open>goto exit\<close>.\<close>

function subscribe_loop ::
    "subscribe_data \<Rightarrow> buffer \<Rightarrow> nat \<Rightarrow> nat \<Rightarrow> (bool \<times> subscribe_data) option" where
  "subscribe_loop d buf curdata enddata =
     (if curdata < enddata then do {
        t \<leftarrow> load (sub_topicFilters d) (sub_count d);
        (ok, t, curdata') \<leftarrow> readMQTTLenString t buf curdata enddata;
        ts \<leftarrow> store (sub_topicFilters d) (sub_count d) t;
        let d = d\<lparr>sub_topicFilters := ts\<rparr>;
        if ok = 0 then Some (True, d)
        else if curdata' \<ge> enddata then Some (True, d)
        else do {
          (q, curdata'') \<leftarrow> readChar buf curdata';
          qs \<leftarrow> store (sub_requestedQoSs d) (sub_count d) (uint q);
          subscribe_loop (d\<lparr>sub_requestedQoSs := qs, sub_count := Suc (sub_count d)\<rparr>)
            buf curdata'' enddata } }
      else Some (False, d))"
  by pat_completeness auto
termination
  by (relation "measure (\<lambda>(_, _, curdata, enddata). enddata - curdata)")
    (auto simp: readChar_def dest!: readMQTTLenString_mono)

declare subscribe_loop.simps [simp del]

definition MQTTDeserialize_subscribe ::
    "subscribe_data \<Rightarrow> int \<Rightarrow> buffer \<Rightarrow> int \<Rightarrow> (int \<times> subscribe_data) option" where
  "MQTTDeserialize_subscribe d maxcount buf buflen = do {
     (header, curdata) \<leftarrow> readChar buf 0;
     if hdr_type header \<noteq> SUBSCRIBE then Some (- 1, d)
     else do {
       let d = d\<lparr>sub_dup := hdr_dup header\<rparr>;
       (rc, mylen) \<leftarrow> MQTTPacket_decodeBuf buf curdata;
       let curdata = curdata + rc;
       let enddata = curdata + nat mylen;
       (n, curdata) \<leftarrow> readInt buf curdata;
       let d = d\<lparr>sub_packetid := word_of_int n, sub_count := 0\<rparr>;
       (failed, d) \<leftarrow> subscribe_loop d buf curdata enddata;
       Some (if failed then int rc else 1, d) } }"

section \<open>Suback\<close>

definition MQTTSerialize_suback ::
    "buffer \<Rightarrow> int \<Rightarrow> 16 word \<Rightarrow> nat \<Rightarrow> int list \<Rightarrow> (buffer \<times> int) option" where
  "MQTTSerialize_suback buf buflen packetid count grantedQoSs =
     (if buflen < 2 + int count then Some (buf, MQTTPACKET_BUFFER_TOO_SHORT)
      else do {
        ptr \<leftarrow> writeChar (buf, 0) (set_type SUBACK 0);
        ptr \<leftarrow> put_rem_len ptr (2 + int count);
        ptr \<leftarrow> writeInt ptr (uint packetid);
        qs \<leftarrow> fetch (Some grantedQoSs) count;
        ptr \<leftarrow> foldl (\<lambda>c q. Option.bind c (\<lambda>ptr. writeChar ptr (word_of_int q))) (Some ptr) qs;
        finish ptr })"

record suback_data =
  sa_packetid :: "16 word"
  sa_count :: int
  sa_grantedQoSs :: "int list"

text \<open>The loop over the return codes; the boolean says whether it left with \<open>rc = -1\<close>.\<close>

function suback_loop ::
    "suback_data \<Rightarrow> int \<Rightarrow> buffer \<Rightarrow> nat \<Rightarrow> nat \<Rightarrow> (bool \<times> suback_data) option" where
  "suback_loop d maxcount buf curdata enddata =
     (if curdata < enddata then
        if sa_count d > maxcount then Some (True, d)
        else do {
          (q, curdata') \<leftarrow> readChar buf curdata;
          qs \<leftarrow> store (sa_grantedQoSs d) (nat (sa_count d)) (uint q);
          suback_loop (d\<lparr>sa_grantedQoSs := qs, sa_count := sa_count d + 1\<rparr>) maxcount buf curdata' enddata }
      else Some (False, d))"
  by pat_completeness auto
termination
  by (relation "measure (\<lambda>(_, _, _, curdata, enddata). enddata - curdata)") (auto simp: readChar_def)

declare suback_loop.simps [simp del]

definition MQTTDeserialize_suback ::
    "suback_data \<Rightarrow> int \<Rightarrow> buffer \<Rightarrow> int \<Rightarrow> (int \<times> suback_data) option" where
  "MQTTDeserialize_suback d maxcount buf buflen = do {
     (header, curdata) \<leftarrow> readChar buf 0;
     if hdr_type header \<noteq> SUBACK then Some (0, d)
     else do {
       (rc, mylen) \<leftarrow> MQTTPacket_decodeBuf buf curdata;
       let curdata = curdata + rc;
       let enddata = curdata + nat mylen;
       if int enddata - int curdata < 2 then Some (int rc, d)
       else do {
         (n, curdata) \<leftarrow> readInt buf curdata;
         let d = d\<lparr>sa_packetid := word_of_int n, sa_count := 0\<rparr>;
         (failed, d) \<leftarrow> suback_loop d maxcount buf curdata enddata;
         Some (if failed then - 1 else 1, d) } } }"

section \<open>Unsubscribe\<close>

definition MQTTSerialize_unsubscribeLength :: "nat \<Rightarrow> MQTTString list \<Rightarrow> int option" where
  "MQTTSerialize_unsubscribeLength count topicFilters =
     map_option (foldl (\<lambda>len t. len + (2 + MQTTstrlen t)) 2) (fetch (Some topicFilters) count)"

fun write_strings :: "cursor \<Rightarrow> MQTTString list \<Rightarrow> cursor option" where
  "write_strings ptr [] = Some ptr"
| "write_strings ptr (t # rest) = do {
     ptr \<leftarrow> writeMQTTString ptr t;
     write_strings ptr rest }"

definition MQTTSerialize_unsubscribe ::
    "buffer \<Rightarrow> int \<Rightarrow> byte \<Rightarrow> 16 word \<Rightarrow> nat \<Rightarrow> MQTTString list \<Rightarrow> (buffer \<times> int) option" where
  "MQTTSerialize_unsubscribe buf buflen dup packetid count topicFilters = do {
     rem_len \<leftarrow> MQTTSerialize_unsubscribeLength count topicFilters;
     if MQTTPacket_len rem_len > buflen then Some (buf, MQTTPACKET_BUFFER_TOO_SHORT)
     else do {
       let header = set_qos 1 (set_dup dup (set_type UNSUBSCRIBE 0));
       ptr \<leftarrow> writeChar (buf, 0) header;
       ptr \<leftarrow> put_rem_len ptr rem_len;
       ptr \<leftarrow> writeInt ptr (uint packetid);
       ts \<leftarrow> fetch (Some topicFilters) count;
       ptr \<leftarrow> write_strings ptr ts;
       finish ptr } }"

function unsubscribe_loop ::
    "subscribe_data \<Rightarrow> buffer \<Rightarrow> nat \<Rightarrow> nat \<Rightarrow> (bool \<times> subscribe_data) option" where
  "unsubscribe_loop d buf curdata enddata =
     (if curdata < enddata then do {
        t \<leftarrow> load (sub_topicFilters d) (sub_count d);
        (ok, t, curdata') \<leftarrow> readMQTTLenString t buf curdata enddata;
        ts \<leftarrow> store (sub_topicFilters d) (sub_count d) t;
        let d = d\<lparr>sub_topicFilters := ts\<rparr>;
        if ok = 0 then Some (True, d)
        else unsubscribe_loop (d\<lparr>sub_count := Suc (sub_count d)\<rparr>) buf curdata' enddata }
      else Some (False, d))"
  by pat_completeness auto
termination
proof (relation "measure (\<lambda>(_, _, curdata, enddata). enddata - curdata)", goal_cases)
  case 1
  show ?case by simp
next
  case (2 d buf curdata enddata t x ok y t' curdata' ts da)
  then have "ok = 1 \<and> curdata < curdata'"
    by (auto simp: readMQTTLenString_def bind_eq_Some_conv Let_def split: if_splits dest!: readInt_range)
  with 2 show ?case by (simp add: diff_less_mono2)
qed

declare unsubscribe_loop.simps [simp del]

text \<open>The unsubscribe packet has no qualities of service; \<open>sub_requestedQoSs\<close> is not used.\<close>

definition MQTTDeserialize_unsubscribe ::
    "subscribe_data \<Rightarrow> int \<Rightarrow> buffer \<Rightarrow> int \<Rightarrow> (int \<times> subscribe_data) option" where
  "MQTTDeserialize_unsubscribe d maxcount buf len = do {
     (header, curdata) \<leftarrow> readChar buf 0;
     if hdr_type header \<noteq> UNSUBSCRIBE then Some (0, d)
     else do {
       let d = d\<lparr>sub_dup := hdr_dup header\<rparr>;
       (rc, mylen) \<leftarrow> MQTTPacket_decodeBuf buf curdata;
       let curdata = curdata + rc;
       let enddata = curdata + nat mylen;
       (n, curdata) \<leftarrow> readInt buf curdata;
       let d = d\<lparr>sub_packetid := word_of_int n, sub_count := 0\<rparr>;
       (failed, d) \<leftarrow> unsubscribe_loop d buf curdata enddata;
       Some (if failed then int rc else 1, d) } }"

definition MQTTSerialize_unsuback :: "buffer \<Rightarrow> int \<Rightarrow> 16 word \<Rightarrow> (buffer \<times> int) option" where
  "MQTTSerialize_unsuback buf buflen packetid =
     (if buflen < 2 then Some (buf, MQTTPACKET_BUFFER_TOO_SHORT)
      else do {
        ptr \<leftarrow> writeChar (buf, 0) (set_type UNSUBACK 0);
        ptr \<leftarrow> put_rem_len ptr 2;
        ptr \<leftarrow> writeInt ptr (uint packetid);
        finish ptr })"

text \<open>\<open>type\<close> and \<open>dup\<close> are locals initialised to 0; only the packet identifier is the caller's.\<close>

definition MQTTDeserialize_unsuback :: "16 word \<Rightarrow> buffer \<Rightarrow> int \<Rightarrow> (int \<times> 16 word) option" where
  "MQTTDeserialize_unsuback packetid buf buflen = do {
     (rc, a) \<leftarrow> MQTTDeserialize_ack \<lparr>ack_packettype = 0, ack_dup = 0, ack_packetid = packetid\<rparr> buf buflen;
     Some (if ack_packettype a = UNSUBACK then 1 else rc, ack_packetid a) }"

section \<open>The loops on well-formed packets\<close>

definition filter_bytes :: "byte list \<times> int \<Rightarrow> byte list" where
  "filter_bytes = (\<lambda>(t, q). utf t @ [word_of_int q])"

lemma write_filters_emit:
  "\<forall>(t, q) \<in> set fs. wf_string t \<Longrightarrow>
   Option.bind (emit c xs) (\<lambda>c. Option.bind (write_filters c fs) f) =
   Option.bind (emit c (xs @ concat (map (\<lambda>(t, q). filter_bytes (str_text t, q)) fs))) f"
proof (induction fs arbitrary: xs)
  case Nil
  then show ?case by simp
next
  case (Cons tq fs)
  obtain t q where [simp]: "tq = (t, q)" by (cases tq)
  have "Option.bind (emit c xs) (\<lambda>c. Option.bind (write_filters c (tq # fs)) f) =
    Option.bind (emit c (xs @ filter_bytes (str_text t, q))) (\<lambda>c. Option.bind (write_filters c fs) f)"
    using Cons.prems by (simp add: cursor_simps filter_bytes_def)
  with Cons show ?case by simp
qed

lemma write_strings_emit:
  "\<forall>t \<in> set ts. wf_string t \<Longrightarrow>
   Option.bind (emit c xs) (\<lambda>c. Option.bind (write_strings c ts) f) =
   Option.bind (emit c (xs @ concat (map (\<lambda>t. utf (str_text t)) ts))) f"
proof (induction ts arbitrary: xs)
  case Nil
  then show ?case by simp
next
  case (Cons t ts)
  have "Option.bind (emit c xs) (\<lambda>c. Option.bind (write_strings c (t # ts)) f) =
    Option.bind (emit c (xs @ utf (str_text t))) (\<lambda>c. Option.bind (write_strings c ts) f)"
    using Cons.prems by (simp add: cursor_simps)
  with Cons show ?case by simp
qed

lemma write_qoss_emit:
  "Option.bind (emit c xs) (\<lambda>ptr. Option.bind
     (foldl (\<lambda>c q. Option.bind c (\<lambda>ptr. emit ptr [word_of_int q])) (Some ptr) qs) f) =
   Option.bind (emit c (xs @ map word_of_int qs)) f"
proof -
  let ?F = "foldl (\<lambda>c q. Option.bind c (\<lambda>ptr. emit ptr [word_of_int q]))"
  have f: "?F (emit c xs) qs = emit c (xs @ map word_of_int qs)" for xs
    by (induction qs arbitrary: xs) (simp_all add: cursor_simps)
  have n: "?F None qs = None" by (induction qs) simp_all
  show ?thesis
  proof (cases "emit c xs")
    case None
    with f [of xs] n have "emit c (xs @ map word_of_int qs) = None" by simp
    with None show ?thesis by simp
  next
    case (Some a)
    with f [of xs] have "?F (Some a) qs = emit c (xs @ map word_of_int qs)" by simp
    with Some show ?thesis by simp
  qed
qed

lemma subscribe_loop_filters:
  assumes "drop curdata buf = concat (map filter_bytes fs) @ rest"
    and "enddata = curdata + length (concat (map filter_bytes fs))"
    and "\<forall>(t, q) \<in> set fs. length t < 65536 \<and> 0 \<le> q \<and> q < 256"
    and "sub_count d + length fs \<le> length (sub_topicFilters d)"
    and "sub_count d + length fs \<le> length (sub_requestedQoSs d)"
  shows "\<exists>ts qs. subscribe_loop d buf curdata enddata = Some (False, d\<lparr>sub_topicFilters := ts,
      sub_requestedQoSs := qs, sub_count := sub_count d + length fs\<rparr>) \<and>
    map str_text (take (sub_count d + length fs) ts) =
      map str_text (take (sub_count d) (sub_topicFilters d)) @ map fst fs \<and>
    take (sub_count d + length fs) qs = take (sub_count d) (sub_requestedQoSs d) @ map snd fs"
  using assms
proof (induction fs arbitrary: d curdata)
  case Nil
  then show ?case by (auto simp: subscribe_loop.simps [of d] intro!: exI)
next
  case (Cons tq fs)
  obtain t q where [simp]: "tq = (t, q)" by (cases tq)
  let ?i = "sub_count d"
  let ?rest = "concat (map filter_bytes fs) @ rest"
  let ?e = "curdata + 2 + length t"
  have d1: "drop curdata buf = utf t @ ([word_of_int q] @ ?rest)"
    using Cons.prems(1) by (simp add: filter_bytes_def)
  have lt: "curdata < enddata" "?e < enddata" using Cons.prems(2) by (auto simp: filter_bytes_def)
  have i: "?i < length (sub_topicFilters d)" "?i < length (sub_requestedQoSs d)"
    using Cons.prems(4,5) by auto
  define t' where "t' = len_string t ([word_of_int q] @ ?rest)"
  have r: "readMQTTLenString s buf curdata enddata = Some (1, t', ?e)" for s
    unfolding t'_def using Cons.prems(3) lt by (intro readMQTTLenString_utf [OF d1]) auto
  have "drop ?e buf = [word_of_int q] @ ?rest"
    using drop_append_shift [OF d1] by (simp add: add.assoc)
  then have c: "readChar buf ?e = Some (word_of_int q, ?e + 1)" "drop (?e + 1) buf = ?rest"
    by (auto simp: readChar_drop intro: drop_Cons_Suc)
  define d' where "d' = d\<lparr>sub_topicFilters := (sub_topicFilters d)[?i := t'],
    sub_requestedQoSs := (sub_requestedQoSs d)[?i := q], sub_count := Suc ?i\<rparr>"
  have q: "uint (word_of_int q :: byte) = q" using Cons.prems(3) by (simp add: uint_byte_of_int)
  have step: "subscribe_loop d buf curdata enddata = subscribe_loop d' buf (?e + 1) enddata"
    using lt i r c q by (simp add: subscribe_loop.simps [of d] load_def store_def d'_def)
  have tk: "take (Suc ?i) (sub_topicFilters d') = take ?i (sub_topicFilters d) @ [t']"
    "take (Suc ?i) (sub_requestedQoSs d') = take ?i (sub_requestedQoSs d) @ [q]"
    using i by (simp_all add: d'_def take_Suc_conv_app_nth)
  have cnt: "sub_count d' = Suc ?i" by (simp add: d'_def)
  have "\<exists>ts qs. subscribe_loop d' buf (?e + 1) enddata = Some (False, d'\<lparr>sub_topicFilters := ts,
      sub_requestedQoSs := qs, sub_count := sub_count d' + length fs\<rparr>) \<and>
    map str_text (take (sub_count d' + length fs) ts) =
      map str_text (take (sub_count d') (sub_topicFilters d')) @ map fst fs \<and>
    take (sub_count d' + length fs) qs = take (sub_count d') (sub_requestedQoSs d') @ map snd fs"
    using Cons.prems c(2) by (intro Cons.IH) (auto simp: filter_bytes_def d'_def)
  then show ?case
    unfolding step cnt tk by (simp add: t'_def) (simp add: d'_def)
qed

lemma unsubscribe_loop_filters:
  assumes "drop curdata buf = concat (map utf ts) @ rest"
    and "enddata = curdata + length (concat (map utf ts))"
    and "\<forall>t \<in> set ts. length t < 65536"
    and "sub_count d + length ts \<le> length (sub_topicFilters d)"
  shows "\<exists>ts'. unsubscribe_loop d buf curdata enddata = Some (False, d\<lparr>sub_topicFilters := ts',
      sub_count := sub_count d + length ts\<rparr>) \<and>
    map str_text (take (sub_count d + length ts) ts') =
      map str_text (take (sub_count d) (sub_topicFilters d)) @ ts"
  using assms
proof (induction ts arbitrary: d curdata)
  case Nil
  then show ?case by (auto simp: unsubscribe_loop.simps [of d] intro!: exI)
next
  case (Cons t ts)
  let ?i = "sub_count d"
  let ?rest = "concat (map utf ts) @ rest"
  let ?e = "curdata + 2 + length t"
  have d1: "drop curdata buf = utf t @ ?rest" using Cons.prems(1) by simp
  have lt: "curdata < enddata" "?e \<le> enddata" using Cons.prems(2) by auto
  have i: "?i < length (sub_topicFilters d)" using Cons.prems(4) by auto
  define t' where "t' = len_string t ?rest"
  have r: "readMQTTLenString s buf curdata enddata = Some (1, t', ?e)" for s
    unfolding t'_def using Cons.prems(3) lt by (intro readMQTTLenString_utf [OF d1]) auto
  have c: "drop ?e buf = ?rest" using drop_append_shift [OF d1] by (simp add: add.assoc)
  define d' where "d' = d\<lparr>sub_topicFilters := (sub_topicFilters d)[?i := t'], sub_count := Suc ?i\<rparr>"
  have step: "unsubscribe_loop d buf curdata enddata = unsubscribe_loop d' buf ?e enddata"
    using lt i r by (simp add: unsubscribe_loop.simps [of d] load_def store_def d'_def)
  have tk: "take (Suc ?i) (sub_topicFilters d') = take ?i (sub_topicFilters d) @ [t']"
    using i by (simp add: d'_def take_Suc_conv_app_nth)
  have cnt: "sub_count d' = Suc ?i" by (simp add: d'_def)
  have "\<exists>ts'. unsubscribe_loop d' buf ?e enddata = Some (False, d'\<lparr>sub_topicFilters := ts',
      sub_count := sub_count d' + length ts\<rparr>) \<and>
    map str_text (take (sub_count d' + length ts) ts') =
      map str_text (take (sub_count d') (sub_topicFilters d')) @ ts"
    using Cons.prems c by (intro Cons.IH) (auto simp: d'_def)
  then show ?case
    unfolding step cnt tk by (simp add: t'_def) (simp add: d'_def)
qed

lemma suback_loop_codes:
  assumes "drop curdata buf = map word_of_int qs @ rest" "enddata = curdata + length qs"
    and "\<forall>q \<in> set qs. 0 \<le> q \<and> q < 256" "0 \<le> sa_count d"
    and "nat (sa_count d) + length qs \<le> length (sa_grantedQoSs d)"
    and "sa_count d + int (length qs) \<le> maxcount + 1"
  shows "\<exists>gs. suback_loop d maxcount buf curdata enddata =
      Some (False, d\<lparr>sa_grantedQoSs := gs, sa_count := sa_count d + int (length qs)\<rparr>) \<and>
    take (nat (sa_count d) + length qs) gs = take (nat (sa_count d)) (sa_grantedQoSs d) @ qs"
  using assms
proof (induction qs arbitrary: d curdata)
  case Nil
  then show ?case by (auto simp: suback_loop.simps [of d] intro!: exI)
next
  case (Cons q qs)
  let ?i = "nat (sa_count d)"
  have c: "readChar buf curdata = Some (word_of_int q, curdata + 1)"
    "drop (curdata + 1) buf = map word_of_int qs @ rest"
    using Cons.prems(1) by (auto simp: readChar_drop intro: drop_Cons_Suc)
  have i: "?i < length (sa_grantedQoSs d)" using Cons.prems(5) by simp
  define d' where "d' = d\<lparr>sa_grantedQoSs := (sa_grantedQoSs d)[?i := q], sa_count := sa_count d + 1\<rparr>"
  have q: "uint (word_of_int q :: byte) = q" using Cons.prems(3) by (simp add: uint_byte_of_int)
  have step: "suback_loop d maxcount buf curdata enddata = suback_loop d' maxcount buf (curdata + 1) enddata"
    using Cons.prems(2,6) i c(1) q by (simp add: suback_loop.simps [of d] store_def d'_def)
  have cnt: "sa_count d' = sa_count d + 1" "nat (sa_count d + 1) = Suc ?i"
    using Cons.prems(4) by (simp_all add: d'_def)
  have tk: "take (Suc ?i) (sa_grantedQoSs d') = take ?i (sa_grantedQoSs d) @ [q]"
    using i by (simp add: d'_def take_Suc_conv_app_nth)
  have "\<exists>gs. suback_loop d' maxcount buf (curdata + 1) enddata =
      Some (False, d'\<lparr>sa_grantedQoSs := gs, sa_count := sa_count d' + int (length qs)\<rparr>) \<and>
    take (nat (sa_count d') + length qs) gs = take (nat (sa_count d')) (sa_grantedQoSs d') @ qs"
    using Cons.prems c(2) cnt by (intro Cons.IH) (auto simp: d'_def)
  then show ?case
    unfolding step cnt tk by (simp add: d'_def algebra_simps)
qed

section \<open>Whole packets\<close>

definition subscribe_body :: "16 word \<Rightarrow> (byte list \<times> int) list \<Rightarrow> byte list" where
  "subscribe_body packetid fs = be16 (uint packetid) @ concat (map filter_bytes fs)"

definition subscribe_header :: "byte \<Rightarrow> byte" where
  "subscribe_header dup = set_qos 1 (set_dup dup (set_type SUBSCRIBE 0))"

lemma hdr_subscribe_header [hdr_simps]:
  "hdr_type (subscribe_header dup) = SUBSCRIBE" "hdr_dup (subscribe_header dup) = take_bit 1 dup"
  by (simp_all add: subscribe_header_def hdr_simps)

lemma subscribe_length:
  assumes "\<forall>(t, q) \<in> set fs. wf_string t"
  shows "foldl (\<lambda>len t. len + (3 + MQTTstrlen t)) n (map fst fs) =
    n + int (length (concat (map (\<lambda>(t, q). filter_bytes (str_text t, q)) fs)))"
  using assms by (induction fs arbitrary: n) (auto simp: MQTTstrlen_text filter_bytes_def)

lemma MQTTSerialize_subscribe_frame:
  assumes "\<forall>(t, q) \<in> set fs. wf_string t"
  shows "MQTTSerialize_subscribe buf buflen dup packetid (length fs) (map fst fs) (map snd fs) =
    (let body = subscribe_body packetid (map (\<lambda>(t, q). (str_text t, q)) fs);
         pkt = frame (subscribe_header dup) body
     in if MQTTPacket_len (int (length body)) > buflen then Some (buf, MQTTPACKET_BUFFER_TOO_SHORT)
        else if length pkt \<le> length buf then Some (pkt @ drop (length pkt) buf, int (length pkt))
        else None)"
proof -
  let ?body = "subscribe_body packetid (map (\<lambda>(t, q). (str_text t, q)) fs)"
  have m: "map filter_bytes (map (\<lambda>(t, q). (str_text t, q)) fs) =
      map (\<lambda>(t, q). filter_bytes (str_text t, q)) fs"
    by auto
  have len: "MQTTSerialize_subscribeLength (length fs) (map fst fs) = Some (int (length ?body))"
    by (simp add: MQTTSerialize_subscribeLength_def fetch_def subscribe_length [OF assms]
        subscribe_body_def m del: map_map)
  have w: "Option.bind (emit c xs) (\<lambda>c. Option.bind (write_filters c fs) finish) =
      Option.bind (emit c (xs @ concat (map filter_bytes (map (\<lambda>(t, q). (str_text t, q)) fs)))) finish"
    for c xs unfolding m by (rule write_filters_emit [OF assms])
  show ?thesis
    by (simp add: MQTTSerialize_subscribe_def len fetch_def zip_map_fst_snd w cursor_simps Let_def
        subscribe_header_def [symmetric] frame_def del: map_map) (simp add: subscribe_body_def)
qed

lemma MQTTDeserialize_subscribe_frame:
  assumes buf: "buf = frame (subscribe_header dup) (subscribe_body packetid fs) @ rest"
    and "length (subscribe_body packetid fs) < 268435456"
    and "\<forall>(t, q) \<in> set fs. length t < 65536 \<and> 0 \<le> q \<and> q < 256"
    and "length fs \<le> length (sub_topicFilters d)" "length fs \<le> length (sub_requestedQoSs d)"
  shows "\<exists>d'. MQTTDeserialize_subscribe d maxcount buf buflen = Some (1, d') \<and>
    sub_dup d' = take_bit 1 dup \<and> sub_packetid d' = packetid \<and> sub_count d' = length fs \<and>
    map str_text (take (length fs) (sub_topicFilters d')) = map fst fs \<and>
    take (length fs) (sub_requestedQoSs d') = map snd fs"
proof -
  define n where "n = length (subscribe_body packetid fs)"
  define k where "k = length (rl_bytes (int n))"
  note st = frame_start [OF buf assms(2), folded n_def, folded k_def]
  have d1: "drop (1 + k) buf = be16 (uint packetid) @ concat (map filter_bytes fs) @ rest"
    using st(3) by (simp add: subscribe_body_def)
  have id: "readInt buf (1 + k) = Some (uint packetid, 1 + k + 2)"
    using readInt_drop [OF d1] uint_packetid [of packetid] by simp
  have d2: "drop (1 + k + 2) buf = concat (map filter_bytes fs) @ rest"
    using drop_append_shift [OF d1] by simp
  define d1 where "d1 = d\<lparr>sub_dup := take_bit 1 dup, sub_packetid := packetid, sub_count := 0\<rparr>"
  have e: "1 + k + n = 1 + k + 2 + length (concat (map filter_bytes fs))"
    by (simp add: n_def subscribe_body_def)
  obtain ts qs where l: "subscribe_loop d1 buf (1 + k + 2) (1 + k + n) = Some (False,
      d1\<lparr>sub_topicFilters := ts, sub_requestedQoSs := qs, sub_count := length fs\<rparr>)"
    "map str_text (take (length fs) ts) = map fst fs" "take (length fs) qs = map snd fs"
    using subscribe_loop_filters [OF d2 e assms(3), of d1] assms(4,5) by (auto simp: d1_def)
  from st(1,2) id l show ?thesis
    by (simp add: MQTTDeserialize_subscribe_def hdr_simps d1_def)
qed

definition unsubscribe_body :: "16 word \<Rightarrow> byte list list \<Rightarrow> byte list" where
  "unsubscribe_body packetid ts = be16 (uint packetid) @ concat (map utf ts)"

definition unsubscribe_header :: "byte \<Rightarrow> byte" where
  "unsubscribe_header dup = set_qos 1 (set_dup dup (set_type UNSUBSCRIBE 0))"

lemma hdr_unsubscribe_header [hdr_simps]:
  "hdr_type (unsubscribe_header dup) = UNSUBSCRIBE" "hdr_dup (unsubscribe_header dup) = take_bit 1 dup"
  by (simp_all add: unsubscribe_header_def hdr_simps)

lemma unsubscribe_length:
  assumes "\<forall>t \<in> set ts. wf_string t"
  shows "foldl (\<lambda>len t. len + (2 + MQTTstrlen t)) n ts =
    n + int (length (concat (map (\<lambda>t. utf (str_text t)) ts)))"
  using assms by (induction ts arbitrary: n) (auto simp: MQTTstrlen_text)

lemma MQTTSerialize_unsubscribe_frame:
  assumes "\<forall>t \<in> set ts. wf_string t"
  shows "MQTTSerialize_unsubscribe buf buflen dup packetid (length ts) ts =
    (let body = unsubscribe_body packetid (map str_text ts);
         pkt = frame (unsubscribe_header dup) body
     in if MQTTPacket_len (int (length body)) > buflen then Some (buf, MQTTPACKET_BUFFER_TOO_SHORT)
        else if length pkt \<le> length buf then Some (pkt @ drop (length pkt) buf, int (length pkt))
        else None)"
proof -
  let ?body = "unsubscribe_body packetid (map str_text ts)"
  have m: "map utf (map str_text ts) = map (\<lambda>t. utf (str_text t)) ts" by simp
  have len: "MQTTSerialize_unsubscribeLength (length ts) ts = Some (int (length ?body))"
    by (simp add: MQTTSerialize_unsubscribeLength_def fetch_def unsubscribe_length [OF assms]
        unsubscribe_body_def m del: map_map)
  have w: "Option.bind (emit c xs) (\<lambda>c. Option.bind (write_strings c ts) finish) =
      Option.bind (emit c (xs @ concat (map utf (map str_text ts)))) finish"
    for c xs unfolding m by (rule write_strings_emit [OF assms])
  show ?thesis
    by (simp add: MQTTSerialize_unsubscribe_def len fetch_def w cursor_simps Let_def
        unsubscribe_header_def [symmetric] frame_def del: map_map) (simp add: unsubscribe_body_def)
qed

lemma MQTTDeserialize_unsubscribe_frame:
  assumes buf: "buf = frame (unsubscribe_header dup) (unsubscribe_body packetid ts) @ rest"
    and "length (unsubscribe_body packetid ts) < 268435456"
    and "\<forall>t \<in> set ts. length t < 65536" and "length ts \<le> length (sub_topicFilters d)"
  shows "\<exists>d'. MQTTDeserialize_unsubscribe d maxcount buf buflen = Some (1, d') \<and>
    sub_dup d' = take_bit 1 dup \<and> sub_packetid d' = packetid \<and> sub_count d' = length ts \<and>
    map str_text (take (length ts) (sub_topicFilters d')) = ts"
proof -
  define n where "n = length (unsubscribe_body packetid ts)"
  define k where "k = length (rl_bytes (int n))"
  note st = frame_start [OF buf assms(2), folded n_def, folded k_def]
  have d1: "drop (1 + k) buf = be16 (uint packetid) @ concat (map utf ts) @ rest"
    using st(3) by (simp add: unsubscribe_body_def)
  have id: "readInt buf (1 + k) = Some (uint packetid, 1 + k + 2)"
    using readInt_drop [OF d1] uint_packetid [of packetid] by simp
  have d2: "drop (1 + k + 2) buf = concat (map utf ts) @ rest"
    using drop_append_shift [OF d1] by simp
  define d1 where "d1 = d\<lparr>sub_dup := take_bit 1 dup, sub_packetid := packetid, sub_count := 0\<rparr>"
  have e: "1 + k + n = 1 + k + 2 + length (concat (map utf ts))"
    by (simp add: n_def unsubscribe_body_def)
  obtain ts' where l: "unsubscribe_loop d1 buf (1 + k + 2) (1 + k + n) = Some (False,
      d1\<lparr>sub_topicFilters := ts', sub_count := length ts\<rparr>)"
    "map str_text (take (length ts) ts') = ts"
    using unsubscribe_loop_filters [OF d2 e assms(3), of d1] assms(4) by (auto simp: d1_def)
  from st(1,2) id l show ?thesis
    by (simp add: MQTTDeserialize_unsubscribe_def hdr_simps d1_def)
qed

definition suback_body :: "16 word \<Rightarrow> int list \<Rightarrow> byte list" where
  "suback_body packetid qs = be16 (uint packetid) @ map word_of_int qs"

lemma MQTTSerialize_suback_frame:
  "MQTTSerialize_suback buf buflen packetid (length qs) qs =
    (let pkt = frame (set_type SUBACK 0) (suback_body packetid qs)
     in if buflen < 2 + int (length qs) then Some (buf, MQTTPACKET_BUFFER_TOO_SHORT)
        else if length pkt \<le> length buf then Some (pkt @ drop (length pkt) buf, int (length pkt))
        else None)"
  by (simp add: MQTTSerialize_suback_def fetch_def write_qoss_emit cursor_simps Let_def)
    (simp add: frame_def suback_body_def)

lemma suback_start:
  assumes buf: "buf = frame (set_type SUBACK 0) (suback_body packetid qs) @ rest"
    and len: "length qs < 268435454"
  obtains c e where "e = c + length qs" "drop c buf = map word_of_int qs @ rest"
    "MQTTDeserialize_suback d maxcount buf buflen = Option.bind
      (suback_loop (d\<lparr>sa_packetid := packetid, sa_count := 0\<rparr>) maxcount buf c e)
      (\<lambda>(failed, d). Some (if failed then - 1 else 1, d))"
proof -
  define n where "n = length (suback_body packetid qs)"
  define k where "k = length (rl_bytes (int n))"
  have n: "n = 2 + length qs" by (simp add: n_def suback_body_def)
  then have "length (suback_body packetid qs) < 268435456" using len by (simp add: n_def)
  note st = frame_start [OF buf this, folded n_def, folded k_def]
  have d1: "drop (1 + k) buf = be16 (uint packetid) @ map word_of_int qs @ rest"
    using st(3) by (simp add: suback_body_def)
  have id: "readInt buf (1 + k) = Some (uint packetid, 1 + k + 2)"
    using readInt_drop [OF d1] uint_packetid [of packetid] by simp
  have e: "\<not> int (1 + k + n) - int (1 + k) < 2" using n by simp
  show ?thesis
  proof (rule that [of "1 + k + n" "1 + k + 2"])
    show "1 + k + n = 1 + k + 2 + length qs" using n by simp
    show "drop (1 + k + 2) buf = map word_of_int qs @ rest"
      using drop_append_shift [OF d1] by simp
    from st(1,2) id e
    show "MQTTDeserialize_suback d maxcount buf buflen = Option.bind
        (suback_loop (d\<lparr>sa_packetid := packetid, sa_count := 0\<rparr>) maxcount buf (1 + k + 2) (1 + k + n))
        (\<lambda>(failed, d). Some (if failed then - 1 else 1, d))"
      by (simp add: MQTTDeserialize_suback_def hdr_simps)
  qed
qed

text \<open>One code more than the array holds: the store leaves the array.\<close>

lemma suback_loop_overrun:
  assumes "drop curdata buf = map word_of_int qs @ rest" "enddata = curdata + length qs"
    and "\<forall>q \<in> set qs. 0 \<le> q \<and> q < 256" "0 \<le> sa_count d"
    and "length (sa_grantedQoSs d) < nat (sa_count d) + length qs"
    and "int (length (sa_grantedQoSs d)) = maxcount" "sa_count d \<le> maxcount"
  shows "suback_loop d maxcount buf curdata enddata = None"
  using assms
proof (induction qs arbitrary: d curdata)
  case Nil
  then show ?case by simp
next
  case (Cons q qs)
  have c: "readChar buf curdata = Some (word_of_int q, curdata + 1)"
    "drop (curdata + 1) buf = map word_of_int qs @ rest"
    using Cons.prems(1) by (auto simp: readChar_drop intro: drop_Cons_Suc)
  show ?case
  proof (cases "sa_count d = maxcount")
    case True
    with Cons.prems c(1) show ?thesis
      by (auto simp: suback_loop.simps [of d] store_def)
  next
    case False
    let ?gs = "(sa_grantedQoSs d)[nat (sa_count d) := uint (word_of_int q :: byte)]"
    let ?d = "d\<lparr>sa_grantedQoSs := ?gs, sa_count := sa_count d + 1\<rparr>"
    have "suback_loop ?d maxcount buf (curdata + 1) enddata = None"
      using Cons.prems c(2) False by (intro Cons.IH) auto
    with False Cons.prems c(1) show ?thesis
      by (simp add: suback_loop.simps [of d] store_def)
  qed
qed

section \<open>Properties\<close>

text \<open>
  Subscribe round trip: the server reads from a serialized subscribe packet the packet
  identifier, the duplicate flag, and exactly the topic filters and requested qualities of service
  the client put in, in order.
\<close>

theorem subscribe_roundtrip:
  assumes "MQTTSerialize_subscribe buf buflen dup packetid (length fs) (map fst fs) (map snd fs) =
      Some (buf', rc)" "0 < rc"
    and "\<forall>(t, q) \<in> set fs. wf_string t \<and> 0 \<le> q \<and> q < 256" "length buf < 268435456"
    and "length fs \<le> length (sub_topicFilters d)" "length fs \<le> length (sub_requestedQoSs d)"
  shows "\<exists>d'. MQTTDeserialize_subscribe d maxcount buf' buflen' = Some (1, d') \<and>
    sub_dup d' = take_bit 1 dup \<and> sub_packetid d' = packetid \<and> sub_count d' = length fs \<and>
    map str_text (take (length fs) (sub_topicFilters d')) = map (\<lambda>(t, q). str_text t) fs \<and>
    take (length fs) (sub_requestedQoSs d') = map snd fs"
proof -
  let ?fs = "map (\<lambda>(t, q). (str_text t, q)) fs"
  let ?pkt = "frame (subscribe_header dup) (subscribe_body packetid ?fs)"
  have wf: "\<forall>(t, q) \<in> set fs. wf_string t" using assms(3) by auto
  have b: "buf' = ?pkt @ drop (length ?pkt) buf" "length ?pkt \<le> length buf"
    using assms(1,2) by (auto simp: MQTTSerialize_subscribe_frame [OF wf] Let_def split: if_splits)
  then have len: "length (subscribe_body packetid ?fs) < 268435456"
    using assms(4) by (simp add: length_frame)
  have fs: "\<forall>(t, q) \<in> set ?fs. length t < 65536 \<and> 0 \<le> q \<and> q < 256"
    using assms(3) by (auto dest: wf_string_length)
  have m: "map fst ?fs = map (\<lambda>(t, q). str_text t) fs" "map snd ?fs = map snd fs" by auto
  show ?thesis
    using MQTTDeserialize_subscribe_frame [OF b(1) len fs, of d maxcount buflen'] assms(5,6)
    unfolding m by simp
qed

theorem subscribe_roundtrip_witness:
  "\<exists>d'. MQTTDeserialize_subscribe \<lparr>sub_dup = 0, sub_packetid = 0, sub_count = 0,
      sub_topicFilters = [MQTTString_initializer], sub_requestedQoSs = [0]\<rparr> 1
      [0x82, 6, 0, 7, 0, 1, 97, 2, 0] 9 = Some (1, d') \<and>
    sub_packetid d' = 7 \<and> map str_text (take 1 (sub_topicFilters d')) = [[97]] \<and>
    take 1 (sub_requestedQoSs d') = [2]"
proof -
  let ?fs = "[(\<lparr>cstring = Some [97], lenstring = \<lparr>ls_len = 0, ls_data = None\<rparr>\<rparr>, 2)]"
  have s: "MQTTSerialize_subscribe (replicate 9 0) 9 0 7 (length ?fs) (map fst ?fs) (map snd ?fs) =
      Some ([0x82, 6, 0, 7, 0, 1, 97, 2, 0], 8)"
    by code_simp
  show ?thesis
    using subscribe_roundtrip [OF s, of "\<lparr>sub_dup = 0, sub_packetid = 0, sub_count = 0,
      sub_topicFilters = [MQTTString_initializer], sub_requestedQoSs = [0]\<rparr>" 1 9]
    by (auto simp: wf_string_def str_text_def)
qed

text \<open>
  Suback round trip: with an array of at least as many elements as there are return codes, and
  \<open>maxcount\<close> not below their number, the client reads back the packet identifier and the codes the
  server serialized, in order.
\<close>

theorem suback_roundtrip:
  assumes "MQTTSerialize_suback buf buflen packetid (length qs) qs = Some (buf', rc)" "0 < rc"
    and "\<forall>q \<in> set qs. 0 \<le> q \<and> q < 256" "length buf < 268435456"
    and "length qs \<le> length (sa_grantedQoSs d)" "int (length qs) \<le> maxcount"
  shows "\<exists>gs. MQTTDeserialize_suback d maxcount buf' buflen' =
      Some (1, d\<lparr>sa_packetid := packetid, sa_count := int (length qs), sa_grantedQoSs := gs\<rparr>) \<and>
    take (length qs) gs = qs"
proof -
  let ?pkt = "frame (set_type SUBACK 0) (suback_body packetid qs)"
  have b: "buf' = ?pkt @ drop (length ?pkt) buf" "length ?pkt \<le> length buf"
    using assms(1,2) by (auto simp: MQTTSerialize_suback_frame Let_def split: if_splits)
  then have "length qs < 268435454" using assms(4) by (simp add: length_frame suback_body_def)
  then obtain c e where e: "e = c + length qs" "drop c buf' = map word_of_int qs @ drop (length ?pkt) buf"
    and d: "MQTTDeserialize_suback d maxcount buf' buflen' = Option.bind
      (suback_loop (d\<lparr>sa_packetid := packetid, sa_count := 0\<rparr>) maxcount buf' c e)
      (\<lambda>(failed, d). Some (if failed then - 1 else 1, d))"
    using suback_start [OF b(1), of d maxcount buflen'] by metis
  obtain gs where "suback_loop (d\<lparr>sa_packetid := packetid, sa_count := 0\<rparr>) maxcount buf' c e =
      Some (False, d\<lparr>sa_packetid := packetid, sa_grantedQoSs := gs, sa_count := int (length qs)\<rparr>)"
    "take (length qs) gs = qs"
    using suback_loop_codes [OF e(2,1) assms(3), of "d\<lparr>sa_packetid := packetid, sa_count := 0\<rparr>" maxcount]
      assms(5,6) by auto
  then show ?thesis unfolding d by (intro exI [of _ gs]) (cases d, simp)
qed

theorem suback_roundtrip_witness:
  "\<exists>gs. MQTTDeserialize_suback \<lparr>sa_packetid = 0, sa_count = 0, sa_grantedQoSs = [- 1]\<rparr> 1
      [0x90, 3, 0, 7, 0x80] 5 =
      Some (1, \<lparr>sa_packetid = 7, sa_count = 1, sa_grantedQoSs = gs\<rparr>) \<and> take 1 gs = [128]"
proof -
  have s: "MQTTSerialize_suback (replicate 5 0) 5 7 (length [128 :: int]) [128] = Some ([0x90, 3, 0, 7, 0x80], 5)"
    by code_simp
  show ?thesis
    using suback_roundtrip [OF s, of "\<lparr>sa_packetid = 0, sa_count = 0, sa_grantedQoSs = [- 1]\<rparr>" 1 5]
    by simp
qed

text \<open>
  Suback overrun: the guard \<open>*count > maxcount\<close> lets one element too many through. For an array of
  exactly \<open>maxcount\<close> elements, every suback packet with more return codes than that makes the client
  store outside the array (as \<open>MQTTSubscribe\<close>, which passes 1 and the address of one \<open>int\<close>, does on
  any suback with two codes).
\<close>

theorem suback_overrun:
  assumes "buf = frame (set_type SUBACK 0) (suback_body packetid qs) @ rest" "length qs < 268435454"
    and "\<forall>q \<in> set qs. 0 \<le> q \<and> q < 256"
    and "int (length (sa_grantedQoSs d)) = maxcount" "maxcount < int (length qs)"
  shows "MQTTDeserialize_suback d maxcount buf buflen = None"
proof -
  obtain c e where e: "e = c + length qs" "drop c buf = map word_of_int qs @ rest"
    and d: "MQTTDeserialize_suback d maxcount buf buflen = Option.bind
      (suback_loop (d\<lparr>sa_packetid := packetid, sa_count := 0\<rparr>) maxcount buf c e)
      (\<lambda>(failed, d). Some (if failed then - 1 else 1, d))"
    using suback_start [OF assms(1,2), of d maxcount buflen] by metis
  show ?thesis
    unfolding d using suback_loop_overrun [OF e(2,1) assms(3), of "d\<lparr>sa_packetid := packetid, sa_count := 0\<rparr>"]
      assms(4,5) by auto
qed

theorem suback_overrun_witness:
  "MQTTDeserialize_suback \<lparr>sa_packetid = 0, sa_count = 0, sa_grantedQoSs = [- 1]\<rparr> 1
     (frame (set_type SUBACK 0) (suback_body 7 [0, 1]) @ []) 6 = None"
  by (rule suback_overrun [OF refl]) auto

text \<open>
  Suback serialization overruns its buffer: the length check counts the packet identifier and the
  codes but not the two bytes of header, so for every suback with fewer than 126 codes a buffer of
  \<open>2 + count\<close> or \<open>3 + count\<close> bytes passes the check and is written past its end.
\<close>

theorem suback_serialize_overrun:
  assumes "length qs < 126" "2 + length qs \<le> length buf" "length buf < 4 + length qs"
  shows "MQTTSerialize_suback buf (int (length buf)) packetid (length qs) qs = None"
  using assms by (simp add: MQTTSerialize_suback_frame Let_def length_frame suback_body_def rl_bytes_small)

theorem suback_serialize_overrun_witness:
  "MQTTSerialize_suback [0, 0, 0] (int (length [0, 0, 0 :: byte])) 7 (length [1 :: int]) [1] = None"
  by (rule suback_serialize_overrun) auto

end
