(* ===== verification/Rtos_Timeout.thy ===== *)
theory Rtos_Timeout
  imports Prelude
begin

text \<open>
  The time-out service of \<open>src/FreeRTOS/tasks.c\<close> (\<open>vTaskSetTimeOutState\<close>, \<open>xTaskCheckForTimeOut\<close>, the
  tick count and its overflow count) and the timers of \<open>src/mqtt/MQTTPlatform.c\<close>. The tick count is a
  32 bit word that wraps; the abstract specification is a clock that does not, and the service is
  right as long as no more than one turn of the tick count passes between two checks.
\<close>

section \<open>The tick count\<close>

type_synonym tick_type = "32 word"

record ticks =
  xTickCount :: tick_type
  xNumOfOverflows :: "32 word"

text \<open>What \<open>xTaskIncrementTick\<close> does to the two counters.\<close>

definition increment_counters :: "ticks \<Rightarrow> ticks" where
  "increment_counters t =
     (let t = t\<lparr>xTickCount := xTickCount t + 1\<rparr>
      in if xTickCount t = 0 then t\<lparr>xNumOfOverflows := xNumOfOverflows t + 1\<rparr> else t)"

text \<open>The counters at time \<open>n\<close>, counted in ticks from the start of the scheduler.\<close>

definition ticks_at :: "nat \<Rightarrow> ticks" where
  "ticks_at n = \<lparr>xTickCount = word_of_nat n, xNumOfOverflows = word_of_nat (n div 2 ^ 32)\<rparr>"

lemma tick_eq_0_iff: "(word_of_nat n :: 32 word) = 0 \<longleftrightarrow> 2 ^ 32 dvd n"
  by (simp add: word_of_nat_eq_0_iff)

lemma increment_counters_at: "increment_counters (ticks_at n) = ticks_at (Suc n)"
proof (cases "2 ^ 32 dvd Suc n")
  case True
  then have "Suc n div 2 ^ 32 = Suc (n div 2 ^ 32)" by (simp add: div_Suc dvd_eq_mod_eq_0)
  with True show ?thesis
    using tick_eq_0_iff [of "Suc n"] by (simp add: increment_counters_def ticks_at_def add.commute)
next
  case False
  then have "Suc n div 2 ^ 32 = n div 2 ^ 32" by (simp add: div_Suc dvd_eq_mod_eq_0)
  with False show ?thesis
    using tick_eq_0_iff [of "Suc n"] by (simp add: increment_counters_def ticks_at_def add.commute)
qed

section \<open>Time-outs\<close>

record timeout =
  xOverflowCount :: "32 word"
  xTimeOnEntering :: tick_type

definition vTaskSetTimeOutState :: "ticks \<Rightarrow> timeout" where
  "vTaskSetTimeOutState t = \<lparr>xOverflowCount = xNumOfOverflows t, xTimeOnEntering = xTickCount t\<rparr>"

abbreviation (input) portMAX_DELAY :: tick_type where "portMAX_DELAY \<equiv> 0xffffffff"

text \<open>\<open>xTaskCheckForTimeOut\<close>: whether the time is up, with \<open>*pxTimeOut\<close> and \<open>*pxTicksToWait\<close>.\<close>

definition xTaskCheckForTimeOut :: "ticks \<Rightarrow> timeout \<Rightarrow> tick_type \<Rightarrow> bool \<times> timeout \<times> tick_type" where
  "xTaskCheckForTimeOut t pxTimeOut pxTicksToWait =
     (let xConstTickCount = xTickCount t
      in if pxTicksToWait = portMAX_DELAY then (False, pxTimeOut, pxTicksToWait)
         else if xNumOfOverflows t \<noteq> xOverflowCount pxTimeOut \<and> xConstTickCount \<ge> xTimeOnEntering pxTimeOut
         then (True, pxTimeOut, pxTicksToWait)
         else if xConstTickCount - xTimeOnEntering pxTimeOut < pxTicksToWait
         then (False, vTaskSetTimeOutState t,
               pxTicksToWait - (xConstTickCount - xTimeOnEntering pxTimeOut))
         else (True, pxTimeOut, pxTicksToWait))"

text \<open>The elapsed time as the code computes it, and when the overflow test fires.\<close>

lemma elapsed_ticks:
  assumes "t0 \<le> t" "t - t0 < 2 ^ 32"
  shows "unat (xTickCount (ticks_at t) - xTickCount (ticks_at t0)) = t - t0"
proof -
  have "xTickCount (ticks_at t) - xTickCount (ticks_at t0) = word_of_nat (t - t0)"
    using assms(1) by (simp add: ticks_at_def of_nat_diff)
  then show ?thesis using assms(2) by (simp add: unat_of_nat take_bit_nat_eq_self)
qed

lemma overflow_test:
  assumes "t0 \<le> t" "t - t0 < 2 ^ 32"
  shows "\<not> (xNumOfOverflows (ticks_at t) \<noteq> xNumOfOverflows (ticks_at t0) \<and>
            xTickCount (ticks_at t) \<ge> xTickCount (ticks_at t0))"
proof (cases "t div 2 ^ 32 = t0 div 2 ^ 32")
  case True
  then show ?thesis by (simp add: ticks_at_def)
next
  case False
  with assms(1) have "t0 div 2 ^ 32 < t div 2 ^ 32" by (simp add: div_le_mono le_neq_implies_less)
  then have "t mod 2 ^ 32 < t0 mod 2 ^ 32"
  proof -
    have "2 ^ 32 * Suc (t0 div 2 ^ 32) \<le> 2 ^ 32 * (t div 2 ^ 32)"
      using \<open>t0 div 2 ^ 32 < t div 2 ^ 32\<close> by (intro mult_le_mono2 Suc_leI)
    then have "2 ^ 32 + 2 ^ 32 * (t0 div 2 ^ 32) \<le> 2 ^ 32 * (t div 2 ^ 32)" by (simp only: mult_Suc_right)
    with assms mult_div_mod_eq [of "2 ^ 32" t] mult_div_mod_eq [of "2 ^ 32" t0] show ?thesis
      by linarith
  qed
  then show ?thesis by (simp add: ticks_at_def word_le_nat_alt unat_of_nat take_bit_eq_mod)
qed

text \<open>
  The service against the clock: a time-out of \<open>n\<close> ticks set at \<open>t0\<close> and checked at \<open>t\<close>, less than one turn of
  the tick count later, is up exactly when \<open>n\<close> ticks have passed, whether or not the count has wrapped
  in between; if it is not, what is left is restarted from \<open>t\<close>. \<open>portMAX_DELAY\<close> never times out.
\<close>

lemma check_for_timeout:
  assumes "t0 \<le> t" "t - t0 < 2 ^ 32"
  shows "xTaskCheckForTimeOut (ticks_at t) (vTaskSetTimeOutState (ticks_at t0)) n =
    (if n = portMAX_DELAY then (False, vTaskSetTimeOutState (ticks_at t0), n)
     else if t - t0 < unat n then (False, vTaskSetTimeOutState (ticks_at t), n - word_of_nat (t - t0))
     else (True, vTaskSetTimeOutState (ticks_at t0), n))"
proof -
  let ?d = "xTickCount (ticks_at t) - xTickCount (ticks_at t0)"
  have d: "?d = word_of_nat (t - t0)" using assms(1) by (simp add: ticks_at_def of_nat_diff)
  have "?d < n \<longleftrightarrow> t - t0 < unat n"
    using elapsed_ticks [OF assms] by (simp add: word_less_nat_alt)
  with overflow_test [OF assms] show ?thesis
    unfolding xTaskCheckForTimeOut_def Let_def vTaskSetTimeOutState_def d [symmetric] by auto
qed

section \<open>Timers\<close>

record Timer =
  xTicksToWait :: tick_type
  xTimeOut :: timeout

definition TimerInit :: Timer where
  "TimerInit = \<lparr>xTicksToWait = 0, xTimeOut = \<lparr>xOverflowCount = 0, xTimeOnEntering = 0\<rparr>\<rparr>"

text \<open>\<open>portTICK_PERIOD_MS\<close> is 1 at the 1000 Hz of \<open>src/FreeRTOSConfig.h\<close>.\<close>

abbreviation (input) portTICK_PERIOD_MS :: "32 word" where "portTICK_PERIOD_MS \<equiv> 1"

definition TimerCountdownMS :: "ticks \<Rightarrow> 32 word \<Rightarrow> Timer" where
  "TimerCountdownMS t timeout_ms =
     \<lparr>xTicksToWait = timeout_ms div portTICK_PERIOD_MS, xTimeOut = vTaskSetTimeOutState t\<rparr>"

definition TimerCountdown :: "ticks \<Rightarrow> 32 word \<Rightarrow> Timer" where
  "TimerCountdown t timeout = TimerCountdownMS t (timeout * 1000)"

definition TimerIsExpired :: "ticks \<Rightarrow> Timer \<Rightarrow> bool \<times> Timer" where
  "TimerIsExpired t timer =
     (case xTaskCheckForTimeOut t (xTimeOut timer) (xTicksToWait timer) of
        (up, to, n) \<Rightarrow> (up, \<lparr>xTicksToWait = n, xTimeOut = to\<rparr>))"

text \<open>The test \<open>xTicksToWait < 0\<close> of the unsigned count never holds; the result is read as an \<open>int\<close>.\<close>

definition TimerLeftMS :: "ticks \<Rightarrow> Timer \<Rightarrow> int \<times> Timer" where
  "TimerLeftMS t timer =
     (case xTaskCheckForTimeOut t (xTimeOut timer) (xTicksToWait timer) of
        (_, to, n) \<Rightarrow> (sint (n * portTICK_PERIOD_MS), \<lparr>xTicksToWait = n, xTimeOut = to\<rparr>))"

section \<open>Properties\<close>

text \<open>
  Timers: \<open>TimerIsExpired\<close>, asked within one turn of the tick count after the countdown was set, says
  whether the time is up, across any wrap of the tick count; and asking it, which adjusts the timer, does not
  change when a later call will say so.
\<close>

theorem timer_expires_on_time:
  assumes "t0 \<le> t" "t \<le> t'" "t' - t0 < 2 ^ 32" "ms \<noteq> portMAX_DELAY"
  shows "case TimerIsExpired (ticks_at t) (TimerCountdownMS (ticks_at t0) ms) of (up, timer) \<Rightarrow>
    (up \<longleftrightarrow> unat ms \<le> t - t0) \<and>
    (fst (TimerIsExpired (ticks_at t') timer) \<longleftrightarrow> unat ms \<le> t' - t0)"
proof (cases "t - t0 < unat ms")
  case True
  define d where "d = t - t0"
  define n where "n = ms - word_of_nat d"
  have d0: "d < 2 ^ 32" "d < unat ms" using True assms(1-3) by (simp_all add: d_def)
  have d: "unat (word_of_nat d :: 32 word) = d"
    using d0(1) by (simp add: unat_of_nat take_bit_nat_eq_self)
  have n: "unat n = unat ms - d"
    unfolding n_def using d d0 by (subst unat_sub) (simp_all add: word_le_nat_alt)
  have nm: "n \<noteq> portMAX_DELAY"
  proof
    assume "n = portMAX_DELAY"
    then have "unat portMAX_DELAY \<le> unat ms" using n by simp
    moreover have "unat ms < 2 ^ 32" using unsigned_less [of ms, where 'a = nat] by simp
    ultimately show False using assms(4) by (simp add: word_unat_eq_iff)
  qed
  have first: "TimerIsExpired (ticks_at t) (TimerCountdownMS (ticks_at t0) ms) =
      (False, \<lparr>xTicksToWait = n, xTimeOut = vTaskSetTimeOutState (ticks_at t)\<rparr>)"
    using assms check_for_timeout [of t0 t ms] True
    by (simp add: TimerIsExpired_def TimerCountdownMS_def n_def d_def del: of_nat_diff)
  have "fst (TimerIsExpired (ticks_at t') \<lparr>xTicksToWait = n, xTimeOut = vTaskSetTimeOutState (ticks_at t)\<rparr>) \<longleftrightarrow>
      unat n \<le> t' - t"
    using assms check_for_timeout [of t t' n] nm by (simp add: TimerIsExpired_def)
  then show ?thesis using True assms(1,2) n by (auto simp: first d_def)
next
  case False
  with assms check_for_timeout [of t0 t ms] check_for_timeout [of t0 t' ms] show ?thesis
    by (simp add: TimerIsExpired_def TimerCountdownMS_def)
qed

theorem timer_expires_on_time_witness:
  "case TimerIsExpired (ticks_at 4294967297) (TimerCountdownMS (ticks_at 4294967290) 10) of (up, timer) \<Rightarrow>
    (up \<longleftrightarrow> unat (10 :: 32 word) \<le> 4294967297 - 4294967290) \<and>
    (fst (TimerIsExpired (ticks_at 4294967300) timer) \<longleftrightarrow> unat (10 :: 32 word) \<le> 4294967300 - 4294967290)"
  by (rule timer_expires_on_time) simp_all

text \<open>
  \<open>TimerLeftMS\<close> of a timer that is up is not 0: the check does not clear the count, so the whole of
  the last period is reported as left. A caller that passes it on as a socket timeout waits again.
\<close>

theorem timer_left_after_expiry:
  assumes "t0 \<le> t" "t - t0 < 2 ^ 32" "unat ms \<le> t - t0" "ms \<noteq> portMAX_DELAY"
  shows "fst (TimerLeftMS (ticks_at t) (TimerCountdownMS (ticks_at t0) ms)) = sint ms"
  using assms check_for_timeout [OF assms(1,2), of ms]
  by (simp add: TimerLeftMS_def TimerCountdownMS_def)

theorem timer_left_after_expiry_witness:
  "fst (TimerLeftMS (ticks_at 4294967300) (TimerCountdownMS (ticks_at 4294967290) 5)) = sint (5 :: 32 word)"
  by (rule timer_left_after_expiry) simp_all

end
