(* ===== verification/Mqtt_Client.thy ===== *)
theory Mqtt_Client
  imports Mqtt_Platform Mqtt_Connect Mqtt_Subscribe Rtos_Timeout
begin

text \<open>
  The client of \<open>src/mqtt/MQTTClient.c\<close>. Its surroundings are an \<open>env\<close>: the two function pointers of the network, the
  tick count (which may move on whenever it is read), and the values uninitialised local variables happen to have;
  \<open>'w\<close> is the state of the world they work on. A function takes and returns the client, the timers it is
  given and the world; \<open>None\<close> is an access outside a buffer or a call that never returns.
\<close>

abbreviation (input) MQTT_FAILURE :: int where "MQTT_FAILURE \<equiv> - 1"
abbreviation (input) MQTT_SUCCESS :: int where "MQTT_SUCCESS \<equiv> 0"
abbreviation (input) MAX_PACKET_ID :: "32 word" where "MAX_PACKET_ID \<equiv> 65535"
abbreviation (input) MAX_MESSAGE_HANDLERS :: nat where "MAX_MESSAGE_HANDLERS \<equiv> 5"

section \<open>Data\<close>

record MQTTMessage =
  msg_qos :: int
  msg_retained :: byte
  msg_dup :: byte
  msg_id :: "16 word"
  msg_payload :: "byte list option"
  msg_payloadlen :: int

text \<open>A handler is called with the two components of its \<open>MessageData\<close>.\<close>

type_synonym 'w handler = "MQTTString \<Rightarrow> MQTTMessage \<Rightarrow> 'w \<Rightarrow> 'w"

record 'w env =
  mqttread :: "nat \<Rightarrow> int \<Rightarrow> 'w \<Rightarrow> (int \<times> byte list \<times> 'w) option"
  mqttwrite :: "byte list \<Rightarrow> int \<Rightarrow> 'w \<Rightarrow> (int \<times> 'w) option"
  clock :: "'w \<Rightarrow> ticks \<times> 'w"
  uninit_publish :: publish_data
  uninit_ack :: ack_data

record 'w MQTTClient =
  next_packetid :: "32 word"
  command_timeout_ms :: "32 word"
  buf_size :: int
  readbuf_size :: int
  buf :: buffer
  readbuf :: buffer
  c_keepAliveInterval :: "32 word"
  ping_outstanding :: bool
  isconnected :: bool
  messageHandlers :: "(byte list option \<times> 'w handler option) list"
  defaultMessageHandler :: "'w handler option"
  ping_timer :: Timer

definition MQTTClientInit ::
    "'w MQTTClient \<Rightarrow> 32 word \<Rightarrow> buffer \<Rightarrow> int \<Rightarrow> buffer \<Rightarrow> int \<Rightarrow> 'w MQTTClient" where
  "MQTTClientInit c command_timeout sendbuf sendbuf_size rbuf rbuf_size =
     c\<lparr>messageHandlers := map (\<lambda>(_, fp). (None, fp)) (messageHandlers c),
       command_timeout_ms := command_timeout, buf := sendbuf, buf_size := sendbuf_size,
       readbuf := rbuf, readbuf_size := rbuf_size, isconnected := False, ping_outstanding := False,
       defaultMessageHandler := None, next_packetid := 1, ping_timer := TimerInit\<rparr>"

definition getNextPacketId :: "'w MQTTClient \<Rightarrow> 16 word \<times> 'w MQTTClient" where
  "getNextPacketId c =
     (let n = (if next_packetid c = MAX_PACKET_ID then 1 else next_packetid c + 1)
      in (ucast n, c\<lparr>next_packetid := n\<rparr>))"

section \<open>Timers\<close>

definition expired :: "'w env \<Rightarrow> Timer \<Rightarrow> 'w \<Rightarrow> bool \<times> Timer \<times> 'w" where
  "expired E timer w = (case clock E w of (t, w) \<Rightarrow> case TimerIsExpired t timer of (up, timer) \<Rightarrow> (up, timer, w))"

definition left_ms :: "'w env \<Rightarrow> Timer \<Rightarrow> 'w \<Rightarrow> int \<times> Timer \<times> 'w" where
  "left_ms E timer w = (case clock E w of (t, w) \<Rightarrow> case TimerLeftMS t timer of (ms, timer) \<Rightarrow> (ms, timer, w))"

definition countdown_ms :: "'w env \<Rightarrow> 32 word \<Rightarrow> 'w \<Rightarrow> Timer \<times> 'w" where
  "countdown_ms E ms w = (case clock E w of (t, w) \<Rightarrow> (TimerCountdownMS t ms, w))"

definition restart_ping :: "'w env \<Rightarrow> 'w MQTTClient \<Rightarrow> 'w \<Rightarrow> 'w MQTTClient \<times> 'w" where
  "restart_ping E c w =
     (case clock E w of (t, w) \<Rightarrow> (c\<lparr>ping_timer := TimerCountdown t (c_keepAliveInterval c)\<rparr>, w))"

section \<open>Sending\<close>

text \<open>
  The loop of \<open>sendPacket\<close>: each round passes the address of \<open>buf[sent]\<close> and the whole \<open>length\<close>. The result
  is \<open>sent\<close>.
\<close>

partial_function (option) send_loop ::
    "'w env \<Rightarrow> buffer \<Rightarrow> int \<Rightarrow> Timer \<Rightarrow> 'w \<Rightarrow> int \<Rightarrow> (int \<times> Timer \<times> 'w) option" where
  "send_loop E b len timer w sent =
     (if sent < len then
        case expired E timer w of (up, timer, w) \<Rightarrow>
          if up then Some (sent, timer, w)
          else case left_ms E timer w of (ms, timer, w) \<Rightarrow>
            Option.bind (fetch (Some (drop (nat sent) b)) (nat len)) (\<lambda>bs.
            Option.bind (mqttwrite E bs ms w) (\<lambda>(rc, w).
              if rc < 0 then Some (sent, timer, w) else send_loop E b len timer w (sent + rc)))
      else Some (sent, timer, w))"

declare send_loop.simps [code]

definition sendPacket ::
    "'w env \<Rightarrow> 'w MQTTClient \<Rightarrow> int \<Rightarrow> Timer \<Rightarrow> 'w \<Rightarrow> (int \<times> 'w MQTTClient \<times> Timer \<times> 'w) option" where
  "sendPacket E c len timer w = do {
     (sent, timer, w) \<leftarrow> send_loop E (buf c) len timer w 0;
     if sent = len
     then case restart_ping E c w of (c, w) \<Rightarrow> Some (MQTT_SUCCESS, c, timer, w)
     else Some (MQTT_FAILURE, c, timer, w) }"

section \<open>Receiving\<close>

text \<open>\<open>decodePacket\<close>: the loop of \<open>MQTTPacket_decode\<close> again, over \<open>mqttread\<close>.\<close>

function decodePacket_loop ::
    "'w env \<Rightarrow> int \<Rightarrow> 'w \<Rightarrow> nat \<Rightarrow> int \<Rightarrow> int \<Rightarrow> (nat \<times> int \<times> 'w) option" where
  "decodePacket_loop E timeout_ms w len mult value =
     (if Suc len > 4 then Some (Suc len, value, w)
      else Option.bind (mqttread E 1 timeout_ms w) (\<lambda>(rc, bs, w).
        if rc \<noteq> 1 then Some (Suc len, value, w)
        else case bs of
          [i] \<Rightarrow>
            let value = value + uint (i AND 127) * mult
            in if i AND 128 \<noteq> 0 then decodePacket_loop E timeout_ms w (Suc len) (mult * 128) value
               else Some (Suc len, value, w)
        | _ \<Rightarrow> None))"
  by pat_completeness auto
termination
  by (relation "measure (\<lambda>(_, _, _, len, _, _). 5 - len)") auto

declare decodePacket_loop.simps [simp del]

definition decodePacket :: "'w env \<Rightarrow> int \<Rightarrow> 'w \<Rightarrow> (nat \<times> int \<times> 'w) option" where
  "decodePacket E timeout_ms w = decodePacket_loop E timeout_ms w 0 1 0"

definition readPacket ::
    "'w env \<Rightarrow> 'w MQTTClient \<Rightarrow> Timer \<Rightarrow> 'w \<Rightarrow> (int \<times> 'w MQTTClient \<times> Timer \<times> 'w) option" where
  "readPacket E c timer w = do {
     let (ms, timer, w) = left_ms E timer w;
     (r, bs, w) \<leftarrow> mqttread E 1 ms w;
     b \<leftarrow> copy_in (readbuf c) 0 bs;
     let c = c\<lparr>readbuf := b\<rparr>;
     if r \<noteq> 1 then Some (MQTT_FAILURE, c, timer, w)
     else do {
       let (ms, timer, w) = left_ms E timer w;
       (_, rlen, w) \<leftarrow> decodePacket E ms w;
       (b, n) \<leftarrow> MQTTPacket_encode (readbuf c) 1 rlen;
       let c = c\<lparr>readbuf := b\<rparr>;
       let len = 1 + n;
       (ok, c, timer, w) \<leftarrow>
         (if rlen > 0 then do {
            let (ms, timer, w) = left_ms E timer w;
            (r, bs, w) \<leftarrow> mqttread E (nat rlen) ms w;
            b \<leftarrow> copy_in (readbuf c) len bs;
            Some (r = rlen, c\<lparr>readbuf := b\<rparr>, timer, w) }
          else Some (True, c, timer, w));
       if \<not> ok then Some (MQTT_FAILURE, c, timer, w)
       else do {
         h \<leftarrow> load (readbuf c) 0;
         Some (uint (hdr_type h), c, timer, w) } } }"

section \<open>Dispatch\<close>

text \<open>
  \<open>isTopicMatched\<close>: \<open>curf\<close> and \<open>curn\<close> are given by what is left of the filter and of the name from them
  on, so \<open>*curf\<close> is 0 when the filter is \<open>[]\<close> and \<open>curn = curn_end\<close> when the name is. \<open>skip_level\<close> is the inner
  loop of the \<open>+\<close> wildcard.
\<close>

abbreviation (input) chr_slash :: byte where "chr_slash \<equiv> 47"
abbreviation (input) chr_plus :: byte where "chr_plus \<equiv> 43"
abbreviation (input) chr_hash :: byte where "chr_hash \<equiv> 35"

fun skip_level :: "byte list \<Rightarrow> byte list" where
  "skip_level (c # d # ns) = (if d \<noteq> chr_slash then skip_level (d # ns) else c # d # ns)"
| "skip_level ns = ns"

function match_loop :: "byte list \<Rightarrow> byte list \<Rightarrow> bool" where
  "match_loop (f # fs) (n # ns) =
     (if n = chr_slash \<and> f \<noteq> chr_slash then False
      else if f \<noteq> chr_plus \<and> f \<noteq> chr_hash \<and> f \<noteq> n then False
      else match_loop fs (tl (if f = chr_plus then skip_level (n # ns)
                              else if f = chr_hash then [last (n # ns)] else n # ns)))"
| "match_loop [] ns = (ns = [])"
| "match_loop (f # fs) [] = False"
  by pat_completeness auto
termination
  by (relation "measure (\<lambda>(fs, _). length fs)") auto

definition isTopicMatched :: "byte list \<Rightarrow> MQTTString \<Rightarrow> bool option" where
  "isTopicMatched topicFilter topic =
     (if ls_len (lenstring topic) < 0 then Some False
      else map_option (match_loop topicFilter)
             (fetch (ls_data (lenstring topic)) (nat (ls_len (lenstring topic)))))"

text \<open>The loop over the handlers; the result is \<open>rc\<close>.\<close>

fun deliver_loop ::
    "(byte list option \<times> 'w handler option) list \<Rightarrow> MQTTString \<Rightarrow> MQTTMessage \<Rightarrow> int \<Rightarrow> 'w \<Rightarrow>
     (int \<times> 'w) option" where
  "deliver_loop [] topic msg rc w = Some (rc, w)"
| "deliver_loop ((None, fp) # hs) topic msg rc w = deliver_loop hs topic msg rc w"
| "deliver_loop ((Some topicFilter, fp) # hs) topic msg rc w = do {
     eq \<leftarrow> MQTTPacket_equals topic topicFilter;
     matched \<leftarrow> (if eq then Some True else isTopicMatched topicFilter topic);
     case (matched, fp) of
       (True, Some h) \<Rightarrow> deliver_loop hs topic msg MQTT_SUCCESS (h topic msg w)
     | _ \<Rightarrow> deliver_loop hs topic msg rc w }"

definition deliverMessage ::
    "'w MQTTClient \<Rightarrow> MQTTString \<Rightarrow> MQTTMessage \<Rightarrow> 'w \<Rightarrow> (int \<times> 'w) option" where
  "deliverMessage c topic msg w = do {
     (rc, w) \<leftarrow> deliver_loop (messageHandlers c) topic msg MQTT_FAILURE w;
     case defaultMessageHandler c of
       Some h \<Rightarrow> if rc = MQTT_FAILURE then Some (MQTT_SUCCESS, h topic msg w) else Some (rc, w)
     | None \<Rightarrow> Some (rc, w) }"

section \<open>The cycle\<close>

definition keepalive :: "'w env \<Rightarrow> 'w MQTTClient \<Rightarrow> 'w \<Rightarrow> (int \<times> 'w MQTTClient \<times> 'w) option" where
  "keepalive E c w =
     (if c_keepAliveInterval c = 0 then Some (MQTT_SUCCESS, c, w)
      else case expired E (ping_timer c) w of (up, pt, w) \<Rightarrow>
        let c = c\<lparr>ping_timer := pt\<rparr>
        in if up \<and> \<not> ping_outstanding c then
             case countdown_ms E 1000 w of (timer, w) \<Rightarrow> do {
               (b, len) \<leftarrow> MQTTSerialize_pingreq (buf c) (buf_size c);
               let c = c\<lparr>buf := b\<rparr>;
               if len > 0 then do {
                 (rc, c, timer, w) \<leftarrow> sendPacket E c len timer w;
                 Some (rc, if rc = MQTT_SUCCESS then c\<lparr>ping_outstanding := True\<rparr> else c, w) }
               else Some (MQTT_FAILURE, c, w) }
           else Some (MQTT_FAILURE, c, w))"

text \<open>
  The three cases of \<open>cycle\<close> with a body, each with its \<open>rc\<close> and whether it leaves by \<open>goto exit\<close>.
\<close>

definition cycle_publish ::
    "'w env \<Rightarrow> 'w MQTTClient \<Rightarrow> Timer \<Rightarrow> 'w \<Rightarrow> (bool \<times> int \<times> 'w MQTTClient \<times> Timer \<times> 'w) option" where
  "cycle_publish E c timer w = do {
     (r, d) \<leftarrow> MQTTDeserialize_publish (uninit_publish E) (readbuf c) (readbuf_size c);
     if r \<noteq> 1 then Some (True, MQTT_SUCCESS, c, timer, w)
     else do {
       let msg = \<lparr>msg_qos = pub_qos d, msg_retained = pub_retained d, msg_dup = pub_dup d, msg_id = pub_packetid d,
                  msg_payload = pub_payload d, msg_payloadlen = pub_payloadlen d\<rparr>;
       (_, w) \<leftarrow> deliverMessage c (pub_topicName d) msg w;
       if msg_qos msg = 0 then Some (False, MQTT_SUCCESS, c, timer, w)
       else do {
         (b, len) \<leftarrow>
           (if msg_qos msg = 1 then MQTTSerialize_ack (buf c) (buf_size c) PUBACK 0 (msg_id msg)
            else if msg_qos msg = 2 then MQTTSerialize_ack (buf c) (buf_size c) PUBREC 0 (msg_id msg)
            else Some (buf c, 0));
         let c = c\<lparr>buf := b\<rparr>;
         (rc, c, timer, w) \<leftarrow>
           (if len \<le> 0 then Some (MQTT_FAILURE, c, timer, w) else sendPacket E c len timer w);
         Some (rc = MQTT_FAILURE, rc, c, timer, w) } } }"

definition cycle_pubrec ::
    "'w env \<Rightarrow> 'w MQTTClient \<Rightarrow> Timer \<Rightarrow> 'w \<Rightarrow> (bool \<times> int \<times> 'w MQTTClient \<times> Timer \<times> 'w) option" where
  "cycle_pubrec E c timer w = do {
     (r, a) \<leftarrow> MQTTDeserialize_ack (uninit_ack E) (readbuf c) (readbuf_size c);
     if r \<noteq> 1 then Some (True, MQTT_FAILURE, c, timer, w)
     else do {
       (b, len) \<leftarrow> MQTTSerialize_ack (buf c) (buf_size c) PUBREL 0 (ack_packetid a);
       let c = c\<lparr>buf := b\<rparr>;
       if len \<le> 0 then Some (True, MQTT_FAILURE, c, timer, w)
       else do {
         (rc, c, timer, w) \<leftarrow> sendPacket E c len timer w;
         if rc \<noteq> MQTT_SUCCESS then Some (True, MQTT_FAILURE, c, timer, w)
         else Some (False, rc, c, timer, w) } } }"

text \<open>\<open>packet_type\<close> is an \<open>unsigned short\<close>, so a failed read becomes 65535.\<close>

definition cycle ::
    "'w env \<Rightarrow> 'w MQTTClient \<Rightarrow> Timer \<Rightarrow> 'w \<Rightarrow> (int \<times> 'w MQTTClient \<times> Timer \<times> 'w) option" where
  "cycle E c timer w = do {
     (r, c, timer, w) \<leftarrow> readPacket E c timer w;
     let packet_type = uint (word_of_int r :: 16 word);
     (exit, rc, c, timer, w) \<leftarrow>
       (if packet_type = uint PUBLISH then cycle_publish E c timer w
        else if packet_type = uint PUBREC then cycle_pubrec E c timer w
        else if packet_type = uint PINGRESP
        then Some (False, MQTT_SUCCESS, c\<lparr>ping_outstanding := False\<rparr>, timer, w)
        else Some (False, MQTT_SUCCESS, c, timer, w));
     (c, w) \<leftarrow> (if exit then Some (c, w) else map_option (\<lambda>(_, c, w). (c, w)) (keepalive E c w));
     Some (if rc = MQTT_SUCCESS then packet_type else rc, c, timer, w) }"


partial_function (option) yield_loop ::
    "'w env \<Rightarrow> 'w MQTTClient \<Rightarrow> Timer \<Rightarrow> 'w \<Rightarrow> (int \<times> 'w MQTTClient \<times> 'w) option" where
  "yield_loop E c timer w =
     Option.bind (cycle E c timer w) (\<lambda>(rc, c, timer, w).
       if rc = MQTT_FAILURE then Some (MQTT_FAILURE, c, w)
       else case expired E timer w of (up, timer, w) \<Rightarrow>
         if up then Some (MQTT_SUCCESS, c, w) else yield_loop E c timer w)"

declare yield_loop.simps [code]

definition MQTTYield ::
    "'w env \<Rightarrow> 'w MQTTClient \<Rightarrow> int \<Rightarrow> 'w \<Rightarrow> (int \<times> 'w MQTTClient \<times> 'w) option" where
  "MQTTYield E c timeout_ms w =
     (case countdown_ms E (word_of_int timeout_ms) w of (timer, w) \<Rightarrow> yield_loop E c timer w)"

text \<open>\<open>waitfor\<close>: the loop carries \<open>rc\<close>, which a time-out returns.\<close>

partial_function (option) wait_loop ::
    "'w env \<Rightarrow> 'w MQTTClient \<Rightarrow> int \<Rightarrow> Timer \<Rightarrow> 'w \<Rightarrow> int \<Rightarrow> (int \<times> 'w MQTTClient \<times> Timer \<times> 'w) option" where
  "wait_loop E c packet_type timer w rc =
     (case expired E timer w of (up, timer, w) \<Rightarrow>
        if up then Some (rc, c, timer, w)
        else Option.bind (cycle E c timer w) (\<lambda>(rc, c, timer, w).
          if rc \<noteq> packet_type then wait_loop E c packet_type timer w rc else Some (rc, c, timer, w)))"

declare wait_loop.simps [code]

definition waitfor ::
    "'w env \<Rightarrow> 'w MQTTClient \<Rightarrow> int \<Rightarrow> Timer \<Rightarrow> 'w \<Rightarrow> (int \<times> 'w MQTTClient \<times> Timer \<times> 'w) option" where
  "waitfor E c packet_type timer w = wait_loop E c packet_type timer w MQTT_FAILURE"

section \<open>The client's calls\<close>

definition MQTTConnect ::
    "'w env \<Rightarrow> 'w MQTTClient \<Rightarrow> MQTTPacket_connectData option \<Rightarrow> 'w \<Rightarrow> (int \<times> 'w MQTTClient \<times> 'w) option" where
  "MQTTConnect E c opts w =
     (if isconnected c then Some (MQTT_FAILURE, c, w)
      else do {
        let (timer, w) = countdown_ms E (command_timeout_ms c) w;
        let options = (case opts of Some d \<Rightarrow> d | None \<Rightarrow> MQTTPacket_connectData_initializer);
        let c = c\<lparr>c_keepAliveInterval := ucast (keepAliveInterval options)\<rparr>;
        let (c, w) = restart_ping E c w;
        (b, len) \<leftarrow> MQTTSerialize_connect (buf c) (buf_size c) options;
        let c = c\<lparr>buf := b\<rparr>;
        if len \<le> 0 then Some (MQTT_FAILURE, c, w)
        else do {
          (rc, c, timer, w) \<leftarrow> sendPacket E c len timer w;
          if rc \<noteq> MQTT_SUCCESS then Some (rc, c, w)
          else do {
            (r, c, timer, w) \<leftarrow> waitfor E c (uint CONNACK) timer w;
            rc \<leftarrow> (if r = uint CONNACK then do {
                     (ok, _, connack_rc) \<leftarrow> MQTTDeserialize_connack (0, 255) (readbuf c) (readbuf_size c);
                     Some (if ok = 1 then uint connack_rc else MQTT_FAILURE) }
                   else Some MQTT_FAILURE);
            Some (rc, if rc = MQTT_SUCCESS then c\<lparr>isconnected := True\<rparr> else c, w) } } })"

text \<open>The loop of \<open>MQTTSubscribe\<close> over the handlers: the first free entry is taken, and \<open>rc\<close> becomes 0.\<close>

fun add_handler ::
    "byte list \<Rightarrow> 'w handler option \<Rightarrow> (byte list option \<times> 'w handler option) list \<Rightarrow> int \<Rightarrow>
     int \<times> (byte list option \<times> 'w handler option) list" where
  "add_handler topicFilter h [] rc = (rc, [])"
| "add_handler topicFilter h ((None, fp) # hs) rc = (0, (Some topicFilter, h) # hs)"
| "add_handler topicFilter h ((Some tf, fp) # hs) rc =
     (case add_handler topicFilter h hs rc of (rc, hs) \<Rightarrow> (rc, (Some tf, fp) # hs))"

definition topic_of :: "byte list \<Rightarrow> MQTTString" where
  "topic_of str = MQTTString_initializer\<lparr>cstring := Some str\<rparr>"

definition MQTTSubscribe ::
    "'w env \<Rightarrow> 'w MQTTClient \<Rightarrow> byte list \<Rightarrow> int \<Rightarrow> 'w handler option \<Rightarrow> 'w \<Rightarrow>
     (int \<times> 'w MQTTClient \<times> 'w) option" where
  "MQTTSubscribe E c topicFilter qos h w =
     (if \<not> isconnected c then Some (MQTT_FAILURE, c, w)
      else do {
        let (timer, w) = countdown_ms E (command_timeout_ms c) w;
        let (packetid, c) = getNextPacketId c;
        (b, len) \<leftarrow> MQTTSerialize_subscribe (buf c) (buf_size c) 0 packetid 1 [topic_of topicFilter] [qos];
        let c = c\<lparr>buf := b\<rparr>;
        if len \<le> 0 then Some (MQTT_FAILURE, c, w)
        else do {
          (rc, c, timer, w) \<leftarrow> sendPacket E c len timer w;
          if rc \<noteq> MQTT_SUCCESS then Some (rc, c, w)
          else do {
            (r, c, timer, w) \<leftarrow> waitfor E c (uint SUBACK) timer w;
            if r = uint SUBACK then do {
              (ok, d) \<leftarrow> MQTTDeserialize_suback
                 \<lparr>sa_packetid = ack_packetid (uninit_ack E), sa_count = 0, sa_grantedQoSs = [- 1]\<rparr> 1
                 (readbuf c) (readbuf_size c);
              let rc = (if ok = 1 then hd (sa_grantedQoSs d) else rc);
              let (rc, hs) = (if rc \<noteq> 0x80 then add_handler topicFilter h (messageHandlers c) rc
                              else (rc, messageHandlers c));
              Some (rc, c\<lparr>messageHandlers := hs\<rparr>, w) }
            else Some (MQTT_FAILURE, c, w) } } })"

definition MQTTUnsubscribe ::
    "'w env \<Rightarrow> 'w MQTTClient \<Rightarrow> byte list \<Rightarrow> 'w \<Rightarrow> (int \<times> 'w MQTTClient \<times> 'w) option" where
  "MQTTUnsubscribe E c topicFilter w =
     (if \<not> isconnected c then Some (MQTT_FAILURE, c, w)
      else do {
        let (timer, w) = countdown_ms E (command_timeout_ms c) w;
        let (packetid, c) = getNextPacketId c;
        (b, len) \<leftarrow> MQTTSerialize_unsubscribe (buf c) (buf_size c) 0 packetid 1 [topic_of topicFilter];
        let c = c\<lparr>buf := b\<rparr>;
        if len \<le> 0 then Some (MQTT_FAILURE, c, w)
        else do {
          (rc, c, timer, w) \<leftarrow> sendPacket E c len timer w;
          if rc \<noteq> MQTT_SUCCESS then Some (rc, c, w)
          else do {
            (r, c, timer, w) \<leftarrow> waitfor E c (uint UNSUBACK) timer w;
            rc \<leftarrow> (if r = uint UNSUBACK then do {
                     (ok, _) \<leftarrow> MQTTDeserialize_unsuback (ack_packetid (uninit_ack E)) (readbuf c) (readbuf_size c);
                     Some (if ok = 1 then 0 else rc) }
                   else Some MQTT_FAILURE);
            Some (rc, c, w) } } })"

text \<open>How \<open>MQTTPublish\<close> waits for the acknowledgement of type \<open>t\<close>.\<close>

definition await_ack ::
    "'w env \<Rightarrow> 'w MQTTClient \<Rightarrow> byte \<Rightarrow> Timer \<Rightarrow> 'w \<Rightarrow> int \<Rightarrow> (int \<times> 'w MQTTClient \<times> 'w) option" where
  "await_ack E c t timer w rc = do {
     (r, c, timer, w) \<leftarrow> waitfor E c (uint t) timer w;
     rc \<leftarrow> (if r = uint t then do {
              (ok, _) \<leftarrow> MQTTDeserialize_ack (uninit_ack E) (readbuf c) (readbuf_size c);
              Some (if ok \<noteq> 1 then MQTT_FAILURE else rc) }
            else Some MQTT_FAILURE);
     Some (rc, c, w) }"

text \<open>The message is returned too: \<open>message->id\<close> is assigned.\<close>

definition MQTTPublish ::
    "'w env \<Rightarrow> 'w MQTTClient \<Rightarrow> byte list \<Rightarrow> MQTTMessage \<Rightarrow> 'w \<Rightarrow>
     (int \<times> 'w MQTTClient \<times> MQTTMessage \<times> 'w) option" where
  "MQTTPublish E c topic msg w =
     (if \<not> isconnected c then Some (MQTT_FAILURE, c, msg, w)
      else do {
        let (timer, w) = countdown_ms E (command_timeout_ms c) w;
        let (c, msg) = (if msg_qos msg = 1 \<or> msg_qos msg = 2
                        then case getNextPacketId c of (i, c) \<Rightarrow> (c, msg\<lparr>msg_id := i\<rparr>)
                        else (c, msg));
        (b, len) \<leftarrow> MQTTSerialize_publish (buf c) (buf_size c) 0 (msg_qos msg) (msg_retained msg) (msg_id msg)
           (topic_of topic) (msg_payload msg) (msg_payloadlen msg);
        let c = c\<lparr>buf := b\<rparr>;
        if len \<le> 0 then Some (MQTT_FAILURE, c, msg, w)
        else do {
          (rc, c, timer, w) \<leftarrow> sendPacket E c len timer w;
          if rc \<noteq> MQTT_SUCCESS then Some (rc, c, msg, w)
          else do {
            (rc, c, w) \<leftarrow>
              (if msg_qos msg = 1 then await_ack E c PUBACK timer w rc
               else if msg_qos msg = 2 then await_ack E c PUBCOMP timer w rc
               else Some (rc, c, w));
            Some (rc, c, msg, w) } } })"

definition MQTTDisconnect :: "'w env \<Rightarrow> 'w MQTTClient \<Rightarrow> 'w \<Rightarrow> (int \<times> 'w MQTTClient \<times> 'w) option" where
  "MQTTDisconnect E c w = do {
     let (timer, w) = countdown_ms E (command_timeout_ms c) w;
     (b, len) \<leftarrow> MQTTSerialize_disconnect (buf c) (buf_size c);
     let c = c\<lparr>buf := b\<rparr>;
     (rc, c, w) \<leftarrow>
       (if len > 0 then do {
          (rc, c, timer, w) \<leftarrow> sendPacket E c len timer w;
          Some (rc, c, w) }
        else Some (MQTT_FAILURE, c, w));
     Some (rc, c\<lparr>isconnected := False\<rparr>, w) }"

end
