(* ===== verification/Mqtt_Topic.thy ===== *)
theory Mqtt_Topic
  imports Mqtt_Client
begin

text \<open>
  Topic matching: \<open>isTopicMatched\<close> of \<open>src/mqtt/MQTTClient.c\<close>, which walks over the characters of the filter and the
  name, against the level-by-level definition of the MQTT specification. The two agree on filters and
  names without empty levels, except that a final \<open>#\<close> does not match the level above it.
\<close>

section \<open>Levels\<close>

fun join_levels :: "byte list list \<Rightarrow> byte list" where
  "join_levels [] = []"
| "join_levels [l] = l"
| "join_levels (l # m # ls) = l @ chr_slash # join_levels (m # ls)"

text \<open>What follows a level.\<close>

definition join_tail :: "byte list list \<Rightarrow> byte list" where
  "join_tail ls = (if ls = [] then [] else chr_slash # join_levels ls)"

lemma join_levels_Cons: "join_levels (l # ls) = l @ join_tail ls"
  by (cases ls) (simp_all add: join_tail_def)

text \<open>
  A filter matches a name: \<open>+\<close> stands for one level that is not empty, \<open>#\<close>, at the end, for all remaining
  levels, of which the first is there and not empty; every other level stands for itself.
\<close>

fun levels_match :: "byte list list \<Rightarrow> byte list list \<Rightarrow> bool" where
  "levels_match [] [] = True"
| "levels_match (f # fs) (n # ns) =
     (if f = [chr_hash] \<and> fs = [] then n \<noteq> []
      else (if f = [chr_plus] then n \<noteq> [] else f = n) \<and> levels_match fs ns)"
| "levels_match _ _ = False"

definition plain_level :: "byte list \<Rightarrow> bool" where
  "plain_level l \<longleftrightarrow> chr_slash \<notin> set l \<and> chr_plus \<notin> set l \<and> chr_hash \<notin> set l"

text \<open>Wildcards stand alone in their level, and \<open>#\<close> is last.\<close>

fun valid_filter :: "byte list list \<Rightarrow> bool" where
  "valid_filter [] = True"
| "valid_filter (f # fs) = ((plain_level f \<or> f = [chr_plus] \<or> f = [chr_hash] \<and> fs = []) \<and> valid_filter fs)"

section \<open>The character loop\<close>

definition at_sep :: "byte list \<Rightarrow> bool" where
  "at_sep t \<longleftrightarrow> t = [] \<or> hd t = chr_slash"

lemma at_sep_join_tail [simp]: "at_sep (join_tail ls)"
  by (simp add: at_sep_def join_tail_def)

lemma match_plain:
  assumes "at_sep F" "at_sep N"
  shows "plain_level f \<Longrightarrow> chr_slash \<notin> set n \<Longrightarrow> match_loop (f @ F) (n @ N) \<longleftrightarrow> f = n \<and> match_loop F N"
proof (induction f arbitrary: n)
  case Nil
  show ?case
  proof (cases n)
    case (Cons c n')
    with Nil assms show ?thesis by (cases F) (auto simp: at_sep_def)
  qed simp
next
  case (Cons a f)
  show ?case
  proof (cases n)
    case Nil
    with Cons.prems assms show ?thesis by (cases N) (auto simp: at_sep_def plain_level_def)
  next
    case n: (Cons c n')
    with Cons.prems Cons.IH [of n'] show ?thesis by (auto simp: plain_level_def)
  qed
qed

lemma skip_level_tail:
  "n \<noteq> [] \<Longrightarrow> chr_slash \<notin> set n \<Longrightarrow> at_sep N \<Longrightarrow> tl (skip_level (n @ N)) = N"
  by (induction n rule: skip_level.induct; cases N) (auto simp: at_sep_def)

lemma match_plus:
  assumes "chr_slash \<notin> set n" "at_sep N"
  shows "match_loop (chr_plus # F) (n @ N) \<longleftrightarrow> n \<noteq> [] \<and> match_loop F N"
proof (cases n)
  case Nil
  with assms show ?thesis by (cases N) (auto simp: at_sep_def)
next
  case (Cons c n')
  then have "match_loop (chr_plus # F) (n @ N) = match_loop F (tl (skip_level (n @ N)))"
    using assms by simp
  with skip_level_tail [of n N] assms Cons show ?thesis by simp
qed

lemma match_hash:
  assumes "chr_slash \<notin> set n" "at_sep N"
  shows "match_loop [chr_hash] (n @ N) \<longleftrightarrow> n \<noteq> []"
proof (cases n)
  case Nil
  with assms show ?thesis by (cases N) (auto simp: at_sep_def)
next
  case (Cons c n')
  with assms show ?thesis by simp
qed

lemma match_join_tail:
  "match_loop (join_tail fs) (join_tail ns) \<longleftrightarrow>
     fs = [] \<and> ns = [] \<or> fs \<noteq> [] \<and> ns \<noteq> [] \<and> match_loop (join_levels fs) (join_levels ns)"
  by (auto simp: join_tail_def)

lemma match_levels:
  "valid_filter fs \<Longrightarrow> \<forall>n \<in> set ns. chr_slash \<notin> set n \<Longrightarrow> fs \<noteq> [] \<Longrightarrow> ns \<noteq> [] \<Longrightarrow>
   match_loop (join_levels fs) (join_levels ns) = levels_match fs ns"
proof (induction fs ns rule: levels_match.induct)
  case (2 f fs n ns)
  have n: "chr_slash \<notin> set n" using "2.prems" by simp
  have tails: "match_loop (join_tail fs) (join_tail ns) = levels_match fs ns"
    if "\<not> (f = [chr_hash] \<and> fs = [])"
    using "2.IH" that "2.prems" by (cases fs; cases ns) (simp_all add: match_join_tail)
  have nil: "join_tail [] = []" by (simp add: join_tail_def)
  from "2.prems"(1) consider "f = [chr_hash]" "fs = []" | "f = [chr_plus]" "\<not> (f = [chr_hash] \<and> fs = [])"
    | "plain_level f" "f \<noteq> [chr_plus]" "\<not> (f = [chr_hash] \<and> fs = [])" by auto
  then show ?case
  proof cases
    case 1
    with match_hash [OF n at_sep_join_tail] show ?thesis by (simp add: join_levels_Cons nil)
  next
    case 2
    with match_plus [OF n at_sep_join_tail] tails show ?thesis by (simp add: join_levels_Cons)
  next
    case 3
    then have "f \<noteq> [chr_hash]" by (auto simp: plain_level_def)
    with 3 match_plain [OF at_sep_join_tail at_sep_join_tail 3(1) n] tails show ?thesis
      by (simp add: join_levels_Cons)
  qed
qed simp_all

section \<open>Properties\<close>

text \<open>
  C33. Topic matching: for a filter whose wildcards stand where MQTT allows them, the character loop of \<open>isTopicMatched\<close>
  accepts exactly the topic names that match level by level.
\<close>

theorem isTopicMatched_levels:
  assumes "valid_filter fs" "fs \<noteq> []" "ns \<noteq> []" "\<forall>n \<in> set ns. chr_slash \<notin> set n"
  shows "isTopicMatched (join_levels fs) (len_string (join_levels ns) rest) = Some (levels_match fs ns)"
  using match_levels [OF assms(1,4,2,3)]
  by (simp add: isTopicMatched_def len_string_def fetch_def)

theorem isTopicMatched_levels_witness:
  "isTopicMatched (join_levels [[97], [43], [35]]) (len_string (join_levels [[97], [98, 99], [100], [101]]) [0]) =
     Some (levels_match [[97], [43], [35]] [[97], [98, 99], [100], [101]])"
  by (rule isTopicMatched_levels) (simp_all add: plain_level_def)

end
