(* ===== verification/Mqtt_Client_Proofs.thy ===== *)
theory Mqtt_Client_Proofs
  imports Mqtt_Topic
begin

text \<open>
  What the client of \<open>src/mqtt/MQTTClient.c\<close> guarantees: which parts of its state each operation can change, what it
  reads from the network and sends to it, and when it reports success. The interface it needs of its network is a
  locale, which the TCP socket of \<open>Lwip_Socket\<close> implements.
\<close>

section \<open>What an operation leaves alone\<close>

text \<open>Everything but the contents of the two buffers and the state of the keep-alive.\<close>

definition same_config :: "'w MQTTClient \<Rightarrow> 'w MQTTClient \<Rightarrow> bool" where
  "same_config c c' \<longleftrightarrow> next_packetid c' = next_packetid c \<and> command_timeout_ms c' = command_timeout_ms c \<and>
     buf_size c' = buf_size c \<and> readbuf_size c' = readbuf_size c \<and>
     length (buf c') = length (buf c) \<and> length (readbuf c') = length (readbuf c) \<and>
     c_keepAliveInterval c' = c_keepAliveInterval c \<and> isconnected c' = isconnected c \<and>
     messageHandlers c' = messageHandlers c \<and> defaultMessageHandler c' = defaultMessageHandler c"

named_theorems frame_intro \<open>operations that leave the configuration alone\<close>

lemma same_config_refl [simp]: "same_config c c"
  by (simp add: same_config_def)

lemma same_config_trans: "same_config a b \<Longrightarrow> same_config b c \<Longrightarrow> same_config a c"
  by (simp add: same_config_def)

lemma same_config_update:
  "length b = length (buf c) \<Longrightarrow> same_config c (c\<lparr>buf := b\<rparr>)"
  "length b = length (readbuf c) \<Longrightarrow> same_config c (c\<lparr>readbuf := b\<rparr>)"
  "same_config c (c\<lparr>ping_timer := t\<rparr>)" "same_config c (c\<lparr>ping_outstanding := p\<rparr>)"
  by (simp_all add: same_config_def)

lemma same_config_ping_irrelevant [simp]:
  "same_config c (c'\<lparr>ping_timer := t\<rparr>) = same_config c c'"
  "same_config c (c'\<lparr>ping_outstanding := p\<rparr>) = same_config c c'"
  "same_config (c\<lparr>ping_timer := t\<rparr>) c' = same_config c c'"
  "same_config (c\<lparr>ping_outstanding := p\<rparr>) c' = same_config c c'"
  by (simp_all add: same_config_def)

lemma same_config_buf_irrelevant:
  "length b = length (buf c) \<Longrightarrow> same_config (c\<lparr>buf := b\<rparr>) c' = same_config c c'"
  "length b = length (readbuf c) \<Longrightarrow> same_config (c\<lparr>readbuf := b\<rparr>) c' = same_config c c'"
  by (simp_all add: same_config_def)

text \<open>That a computation which ends with the client as the \<open>n\<close>th component of its result keeps it.\<close>

abbreviation (input) keeps2 :: "'w MQTTClient \<Rightarrow> ('a \<times> 'w MQTTClient \<times> 'b) option \<Rightarrow> bool" where
  "keeps2 c m \<equiv> post m (\<lambda>(_, c', _). same_config c c')"

abbreviation (input) keeps3 :: "'w MQTTClient \<Rightarrow> ('a \<times> 'b \<times> 'w MQTTClient \<times> 'd) option \<Rightarrow> bool" where
  "keeps3 c m \<equiv> post m (\<lambda>(_, _, c', _). same_config c c')"

lemma restart_ping_config: "restart_ping E c w = (c', w') \<Longrightarrow> same_config c c'"
  by (auto simp: restart_ping_def split: prod.splits)

lemma sendPacket_config: "keeps2 c (sendPacket E c len timer w)"
  unfolding sendPacket_def
  by (intro post_intro post_any) (auto dest: restart_ping_config)

lemma MQTTSerialize_ack_length:
  "MQTTSerialize_ack b n t dup i = Some (b', rc) \<Longrightarrow> length b' = length b"
  by (auto simp: MQTTSerialize_ack_frame length_frame rl_bytes_small split: if_splits)

lemma MQTTSerialize_zero_frame:
  "MQTTSerialize_zero b n t =
    (if n < 2 then Some (b, MQTTPACKET_BUFFER_TOO_SHORT)
     else if 2 \<le> length b then Some (frame (set_type t 0) [] @ drop 2 b, 2) else None)"
  by (simp add: MQTTSerialize_zero_def cursor_simps frame_def rl_bytes_small numeral_2_eq_2)

lemma MQTTSerialize_zero_length: "MQTTSerialize_zero b n t = Some (b', rc) \<Longrightarrow> length b' = length b"
  by (auto simp: MQTTSerialize_zero_frame length_frame rl_bytes_small split: if_splits)

lemma encode_loop_length: "encode_loop b p rc n = Some (b', k) \<Longrightarrow> length b' = length b"
proof (induction b p rc n rule: encode_loop.induct)
  case (1 b p rc n)
  from "1.prems" show ?case
    using "1.IH" [OF refl refl refl]
    by (subst (asm) encode_loop.simps) (auto simp: Let_def store_def split: if_splits option.splits)
qed

lemma MQTTPacket_encode_length: "MQTTPacket_encode b p n = Some (b', k) \<Longrightarrow> length b' = length b"
  by (simp add: MQTTPacket_encode_def encode_loop_length)

lemma readPacket_config: "keeps2 c (readPacket E c timer w)"
  unfolding readPacket_def
  by (intro post_intro post_any) (auto simp: same_config_def dest!: copy_in_length MQTTPacket_encode_length)

lemmas serialized_lengths = MQTTSerialize_zero_length MQTTSerialize_ack_length

lemma keepalive_config: "keeps2 c (keepalive E c w)"
  unfolding keepalive_def MQTTSerialize_pingreq_def
  by (intro post_intro post_any)
    (auto dest!: serialized_lengths postD [OF sendPacket_config] simp: same_config_def)

lemma cycle_publish_config: "keeps3 c (cycle_publish E c timer w)"
  unfolding cycle_publish_def
  by (intro post_intro post_any)
    (auto dest!: serialized_lengths postD [OF sendPacket_config] simp: same_config_def split: if_splits)

lemma cycle_pubrec_config: "keeps3 c (cycle_pubrec E c timer w)"
  unfolding cycle_pubrec_def
  by (intro post_intro post_any)
    (auto dest!: serialized_lengths postD [OF sendPacket_config] simp: same_config_def)

lemma cycle_config: "keeps2 c (cycle E c timer w)"
  unfolding cycle_def
  by (intro post_intro post_any)
    (auto dest!: postD [OF readPacket_config] postD [OF cycle_publish_config] postD [OF cycle_pubrec_config]
      postD [OF keepalive_config] simp: same_config_def split: if_splits)

lemma yield_loop_config: "yield_loop E c timer w = Some (rc, c', w') \<Longrightarrow> same_config c c'"
proof (induction "(rc, c', w')" rule: yield_loop.raw_induct [rotated, consumes 1, case_names step])
  case (step f E c timer w)
  from step(2) obtain r c1 timer1 w1 up timer2 w2
    where cy: "cycle E c timer w = Some (r, c1, timer1, w1)" and ex: "expired E timer1 w1 = (up, timer2, w2)"
    by (cases "cycle E c timer w"; cases "expired E (fst (snd (snd (the (cycle E c timer w)))))
      (snd (snd (snd (the (cycle E c timer w)))))") auto
  then have "same_config c c1" using postD [OF cycle_config cy] by simp
  with step cy ex show ?case by (auto split: if_splits elim: same_config_trans)
qed

lemma wait_loop_config: "wait_loop E c t timer w rc = Some (rc', c', timer', w') \<Longrightarrow> same_config c c'"
proof (induction "(rc', c', timer', w')" rule: wait_loop.raw_induct [rotated, consumes 1, case_names step])
  case (step f E c t timer w rc)
  obtain up timer1 w1 where ex: "expired E timer w = (up, timer1, w1)" by (metis prod_cases3)
  show ?case
  proof (cases up)
    case True
    with step(2) ex show ?thesis by simp
  next
    case False
    with step(2) ex obtain r c1 timer2 w2 where cy: "cycle E c timer1 w1 = Some (r, c1, timer2, w2)"
      by (cases "cycle E c timer1 w1") auto
    then have "same_config c c1" using postD [OF cycle_config cy] by simp
    with step False cy ex show ?thesis by (auto split: if_splits elim: same_config_trans)
  qed
qed

lemma waitfor_config: "keeps2 c (waitfor E c t timer w)"
  unfolding waitfor_def by (intro post_any) (auto dest: wait_loop_config)

section \<open>Packets from the network\<close>

text \<open>\<open>decodePacket\<close> is the decoder of the packet library again, over the network.\<close>

lemma decodePacket_loop_decode:
  "decodePacket_loop E t w len m v = decode_loop (get1 (\<lambda>n. mqttread E n t)) w len m v"
proof (induction E t w len m v rule: decodePacket_loop.induct)
  case (1 E t w len m v)
  show ?case
  proof (cases "Suc len > 4")
    case True
    then show ?thesis by (simp add: decodePacket_loop.simps [of E t w] decode_loop.simps [of _ w])
  next
    case len: False
    show ?thesis
    proof (cases "mqttread E 1 t w")
      case None
      with len show ?thesis by (simp add: decodePacket_loop.simps [of E t w] decode_loop.simps [of _ w] get1_def)
    next
      case (Some r)
      obtain rc bs w' where r: "r = (rc, bs, w')" by (metis prod_cases3)
      show ?thesis
        using 1 [of r rc "(bs, w')" bs w'] len Some r
        by (auto simp: decodePacket_loop.simps [of E t w] decode_loop.simps [of _ w] get1_def Let_def
            split: list.splits)
    qed
  qed
qed

lemma decodePacket_decode: "decodePacket E t w = MQTTPacket_decode (get1 (\<lambda>n. mqttread E n t)) w"
  by (simp add: decodePacket_def MQTTPacket_decode_def decodePacket_loop_decode)


text \<open>
  What the client needs of its network: bytes that are pending are delivered in order and in the number asked for,
  and looking at the clock does not lose any.
\<close>

locale client_network =
  fixes E :: "'w env"
    and pending :: "'w \<Rightarrow> byte list"
  assumes reads: "n \<le> length (pending w) \<Longrightarrow>
      \<exists>w'. mqttread E n t w = Some (int n, take n (pending w), w') \<and> pending w' = drop n (pending w)"
    and clock_pending: "clock E w = (t', w') \<Longrightarrow> pending w' = pending w"

sublocale client_network \<subseteq> packet_source "\<lambda>n. mqttread E n t" pending for t
  by unfold_locales (rule reads)

context client_network
begin

lemma left_ms_pending:
  obtains ms timer' w' where "left_ms E timer w = (ms, timer', w')" "pending w' = pending w"
proof -
  obtain t w1 ms timer1 where t: "clock E w = (t, w1)" "TimerLeftMS t timer = (ms, timer1)" by fastforce
  show thesis
    by (rule that [of ms timer1 w1]) (use t clock_pending [OF t(1)] in \<open>simp_all add: left_ms_def\<close>)
qed

text \<open>Up to the body, reading a packet does not depend on whether the rest fits.\<close>

lemma readPacket_start:
  assumes "pending w = frame h body @ rest" "length body < 268435456" "body \<noteq> []"
  obtains ms timer' w' where "pending w' = body @ rest"
    "readPacket E c timer w = do {
       b \<leftarrow> copy_in (readbuf c) 0 [h];
       (b, n) \<leftarrow> MQTTPacket_encode b 1 (int (length body));
       (r, bs, w) \<leftarrow> mqttread E (length body) ms w';
       b \<leftarrow> copy_in b (1 + n) bs;
       if r \<noteq> int (length body) then Some (MQTT_FAILURE, c\<lparr>readbuf := b\<rparr>, timer', w)
       else do { h \<leftarrow> load b 0; Some (uint (hdr_type h), c\<lparr>readbuf := b\<rparr>, timer', w) } }"
proof -
  let ?n = "int (length body)"
  obtain m1 t1 w1 where l1: "left_ms E timer w = (m1, t1, w1)" "pending w1 = pending w"
    by (rule left_ms_pending)
  obtain w2 where r1: "mqttread E 1 m1 w1 = Some (1, [h], w2)" "pending w2 = rl_bytes ?n @ body @ rest"
    using reads [of 1 w1 m1] assms(1) l1(2) by (auto simp: frame_def)
  obtain m2 t2 w3 where l2: "left_ms E t1 w2 = (m2, t2, w3)" "pending w3 = pending w2"
    by (rule left_ms_pending)
  obtain w4 where d: "decodePacket E m2 w3 = Some (length (rl_bytes ?n), ?n, w4)" "pending w4 = body @ rest"
    using decode_encode [of ?n w3 "body @ rest" m2] r1(2) l2(2) assms(2) by (auto simp: decodePacket_decode)
  obtain m3 t3 w5 where l3: "left_ms E t2 w4 = (m3, t3, w5)" "pending w5 = pending w4"
    by (rule left_ms_pending)
  have pos: "0 < ?n" using assms(3) by simp
  show thesis
  proof (rule that [of w5 m3 t3])
    show "pending w5 = body @ rest" using l3(2) d(2) by simp
    show "readPacket E c timer w = do {
       b \<leftarrow> copy_in (readbuf c) 0 [h];
       (b, n) \<leftarrow> MQTTPacket_encode b 1 (int (length body));
       (r, bs, w) \<leftarrow> mqttread E (length body) m3 w5;
       b \<leftarrow> copy_in b (1 + n) bs;
       if r \<noteq> int (length body) then Some (MQTT_FAILURE, c\<lparr>readbuf := b\<rparr>, t3, w)
       else do { h \<leftarrow> load b 0; Some (uint (hdr_type h), c\<lparr>readbuf := b\<rparr>, t3, w) } }"
      using l1 r1 l2 d l3 pos by (simp add: readPacket_def Let_def split_def cong: if_cong)
  qed
qed

lemma readPacket_frame:
  assumes "pending w = frame h body @ rest" "length body < 268435456" "body \<noteq> []"
    and "length (frame h body) \<le> length (readbuf c)"
  shows "\<exists>timer' w'. readPacket E c timer w = Some (uint (hdr_type h),
      c\<lparr>readbuf := frame h body @ drop (length (frame h body)) (readbuf c)\<rparr>, timer', w') \<and> pending w' = rest"
proof -
  let ?rl = "rl_bytes (int (length body))"
  obtain ms timer' w1 where w1: "pending w1 = body @ rest"
    and rp: "readPacket E c timer w = do {
       b \<leftarrow> copy_in (readbuf c) 0 [h];
       (b, n) \<leftarrow> MQTTPacket_encode b 1 (int (length body));
       (r, bs, w) \<leftarrow> mqttread E (length body) ms w1;
       b \<leftarrow> copy_in b (1 + n) bs;
       if r \<noteq> int (length body) then Some (MQTT_FAILURE, c\<lparr>readbuf := b\<rparr>, timer', w)
       else do { h \<leftarrow> load b 0; Some (uint (hdr_type h), c\<lparr>readbuf := b\<rparr>, timer', w) } }"
    by (rule readPacket_start [OF assms(1-3)])
  obtain w2 where r: "mqttread E (length body) ms w1 = Some (int (length body), body, w2)" "pending w2 = rest"
    using reads [of "length body" w1 ms] w1 by auto
  obtain x xs where buf: "readbuf c = x # xs" using assms(4) by (cases "readbuf c") (auto simp: frame_def)
  have l: "Suc (length ?rl) + length body \<le> Suc (length xs)" using assms(4) by (simp add: length_frame buf)
  have c0: "copy_in (readbuf c) 0 [h] = Some (h # xs)" by (simp add: copy_in_0 buf)
  have c1: "MQTTPacket_encode (h # xs) 1 (int (length body)) = Some (h # ?rl @ drop (length ?rl) xs, length ?rl)"
    using l by (simp add: MQTTPacket_encode_def encode_loop_rl_bytes copy_in_def)
  have c2: "copy_in (h # ?rl @ drop (length ?rl) xs) (1 + length ?rl) body =
      Some (h # ?rl @ body @ drop (length ?rl + length body) xs)"
    using l by (simp add: copy_in_def add.commute)
  have "readPacket E c timer w =
      Some (uint (hdr_type h), c\<lparr>readbuf := h # ?rl @ body @ drop (length ?rl + length body) xs\<rparr>, timer', w2)"
    unfolding rp c0 using c1 r(1) c2 by (simp add: load_def)
  then show ?thesis using r(2) by (simp add: frame_def buf)
qed

lemma readPacket_overrun:
  assumes "pending w = frame h body @ rest" "length body < 268435456" "body \<noteq> []"
    and "length (readbuf c) < length (frame h body)"
  shows "readPacket E c timer w = None"
proof -
  let ?rl = "rl_bytes (int (length body))"
  obtain ms timer' w1 where w1: "pending w1 = body @ rest"
    and rp: "readPacket E c timer w = do {
       b \<leftarrow> copy_in (readbuf c) 0 [h];
       (b, n) \<leftarrow> MQTTPacket_encode b 1 (int (length body));
       (r, bs, w) \<leftarrow> mqttread E (length body) ms w1;
       b \<leftarrow> copy_in b (1 + n) bs;
       if r \<noteq> int (length body) then Some (MQTT_FAILURE, c\<lparr>readbuf := b\<rparr>, timer', w)
       else do { h \<leftarrow> load b 0; Some (uint (hdr_type h), c\<lparr>readbuf := b\<rparr>, timer', w) } }"
    by (rule readPacket_start [OF assms(1-3)])
  obtain w2 where r: "mqttread E (length body) ms w1 = Some (int (length body), body, w2)"
    using reads [of "length body" w1 ms] w1 by auto
  show ?thesis
  proof (cases "copy_in (readbuf c) 0 [h]")
    case None
    then show ?thesis by (simp add: rp)
  next
    case b1: (Some b1)
    have l1: "length b1 = length (readbuf c)" by (rule copy_in_length [OF b1])
    show ?thesis
    proof (cases "copy_in b1 1 ?rl")
      case None
      then show ?thesis by (simp add: rp b1 MQTTPacket_encode_def encode_loop_rl_bytes)
    next
      case b2: (Some b2)
      have l2: "length b2 = length (readbuf c)" using copy_in_length [OF b2] l1 by simp
      have enc: "MQTTPacket_encode b1 1 (int (length body)) = Some (b2, length ?rl)"
        using b2 by (simp add: MQTTPacket_encode_def encode_loop_rl_bytes)
      have "copy_in b2 (1 + length ?rl) body = None"
        using assms(4) l2 by (simp add: copy_in_eq_None length_frame)
      then show ?thesis using enc r by (simp add: rp b1)
    qed
  qed
qed

end

text \<open>
  The client on a plain TCP connection: the network of \<open>NetworkConnect\<close>, with \<open>LwIP_read\<close> for \<open>mqttread\<close>. The
  world is the socket and whatever else there is; writing and the clock are left open.
\<close>

definition tcp_env ::
    "(byte list \<Rightarrow> int \<Rightarrow> lwip_sock \<times> 'x \<Rightarrow> (int \<times> lwip_sock \<times> 'x) option) \<Rightarrow> ('x \<Rightarrow> ticks \<times> 'x) \<Rightarrow>
     publish_data \<Rightarrow> ack_data \<Rightarrow> (lwip_sock \<times> 'x) env" where
  "tcp_env wr ck up ua =
     \<lparr>mqttread = (\<lambda>n t (sock, x). map_option (\<lambda>(r, bs, sock). (r, bs, sock, x)) (LwIP_read n t sock)),
      mqttwrite = wr,
      clock = (\<lambda>(sock, x). case ck x of (t, x) \<Rightarrow> (t, sock, x)),
      uninit_publish = up, uninit_ack = ua\<rparr>"

interpretation tcp_client: client_network "tcp_env wr ck up ua" "\<lambda>(sock, x). sock_pending sock" for wr ck up ua
proof
  fix n :: nat and t :: int and w :: "lwip_sock \<times> 'a"
  assume "n \<le> length (case w of (sock, x) \<Rightarrow> sock_pending sock)"
  then show "\<exists>w'. mqttread (tcp_env wr ck up ua) n t w =
      Some (int n, take n (case w of (sock, x) \<Rightarrow> sock_pending sock), w') \<and>
      (case w' of (sock, x) \<Rightarrow> sock_pending sock) = drop n (case w of (sock, x) \<Rightarrow> sock_pending sock)"
    using LwIP_read_deliver [of n "fst w" t] by (cases w) (auto simp: tcp_env_def)
qed (auto simp: tcp_env_def split: prod.splits)


section \<open>Sending\<close>

lemma expired_at_start:
  "clock E = (\<lambda>w. (t, w)) \<Longrightarrow> 0 < ms \<Longrightarrow> expired E (TimerCountdownMS t ms) w = (False, TimerCountdownMS t ms, w)"
  by (simp add: expired_def TimerIsExpired_def TimerCountdownMS_def xTaskCheckForTimeOut_def
      vTaskSetTimeOutState_def Let_def)

lemma left_ms_at_start:
  "clock E = (\<lambda>w. (t, w)) \<Longrightarrow> 0 < ms \<Longrightarrow>
   left_ms E (TimerCountdownMS t ms) w = (sint ms, TimerCountdownMS t ms, w)"
  by (simp add: left_ms_def TimerLeftMS_def TimerCountdownMS_def xTaskCheckForTimeOut_def
      vTaskSetTimeOutState_def Let_def)

text \<open>One round of the loop while the time is not up.\<close>

lemma send_loop_round:
  assumes "clock E = (\<lambda>w. (t, w))" "0 < ms" "sent < len" "nat sent + nat len \<le> length b"
    and "mqttwrite E (take (nat len) (drop (nat sent) b)) (sint ms) w = Some (rc, w')"
  shows "send_loop E b len (TimerCountdownMS t ms) w sent =
    (if rc < 0 then Some (sent, TimerCountdownMS t ms, w')
     else send_loop E b len (TimerCountdownMS t ms) w' (sent + rc))"
  using assms by (subst send_loop.simps) (simp add: expired_at_start left_ms_at_start fetch_def le_diff_conv2)

section \<open>What the calls change\<close>

lemma getNextPacketId_fields:
  "(i, c') = getNextPacketId c \<Longrightarrow> messageHandlers c' = messageHandlers c \<and> isconnected c' = isconnected c"
  by (simp add: getNextPacketId_def Let_def)

text \<open>The fields the calls are about, as each step leaves them.\<close>

lemma step_fields:
  "sendPacket E c len timer w = Some (rc, c', timer', w') \<Longrightarrow>
     messageHandlers c' = messageHandlers c \<and> isconnected c' = isconnected c \<and> next_packetid c' = next_packetid c"
  "waitfor E c t timer w = Some (rc, c', timer', w') \<Longrightarrow>
     messageHandlers c' = messageHandlers c \<and> isconnected c' = isconnected c \<and> next_packetid c' = next_packetid c"
  "(c', w') = restart_ping E c w \<Longrightarrow>
     messageHandlers c' = messageHandlers c \<and> isconnected c' = isconnected c \<and> next_packetid c' = next_packetid c"
  using postD [OF sendPacket_config, of E c len timer w] postD [OF waitfor_config, of E c t timer w]
    restart_ping_config [of E c w c' w'] by (auto simp: same_config_def)

lemma MQTTUnsubscribe_fields:
  "post (MQTTUnsubscribe E c tf w) (\<lambda>(_, c', _). messageHandlers c' = messageHandlers c \<and> isconnected c' = isconnected c)"
  unfolding MQTTUnsubscribe_def
  by (intro post_intro post_any) (auto dest!: step_fields getNextPacketId_fields)

lemma MQTTConnect_fields:
  "post (MQTTConnect E c opts w) (\<lambda>(rc, c', _). messageHandlers c' = messageHandlers c \<and>
     (isconnected c' \<longleftrightarrow> isconnected c \<or> rc = MQTT_SUCCESS) \<and> next_packetid c' = next_packetid c)"
  unfolding MQTTConnect_def
  by (intro post_intro post_any)
    (auto dest!: step_fields)

text \<open>The first free entry, if there is one, takes the subscription.\<close>

definition handler_added ::
    "byte list \<Rightarrow> 'w handler option \<Rightarrow> (byte list option \<times> 'w handler option) list \<Rightarrow>
     (byte list option \<times> 'w handler option) list \<Rightarrow> bool" where
  "handler_added tf h hs hs' \<longleftrightarrow> (\<exists>pre fp rest. hs = pre @ (None, fp) # rest \<and>
     (\<forall>x \<in> set pre. fst x \<noteq> None) \<and> hs' = pre @ (Some tf, h) # rest)"

lemma handler_added_Cons:
  assumes "handler_added tf h hs hs'"
  shows "handler_added tf h ((Some t, fp) # hs) ((Some t, fp) # hs')"
proof -
  obtain pre f rest where "hs = pre @ (None, f) # rest" "\<forall>x \<in> set pre. fst x \<noteq> None"
    "hs' = pre @ (Some tf, h) # rest" using assms by (auto simp: handler_added_def)
  then show ?thesis unfolding handler_added_def
    by (intro exI [of _ "(Some t, fp) # pre"] exI [of _ f] exI [of _ rest]) simp
qed

lemma add_handler_spec:
  "(rc', hs') = add_handler tf h hs rc \<Longrightarrow>
   rc' = 0 \<and> handler_added tf h hs hs' \<or> rc' = rc \<and> hs' = hs \<and> (\<forall>x \<in> set hs. fst x \<noteq> None)"
proof (induction tf h hs rc arbitrary: rc' hs' rule: add_handler.induct)
  case (2 tf h fp hs rc)
  then show ?case by (auto simp: handler_added_def intro!: exI [of _ "[]"])
next
  case (3 tf h t fp hs rc)
  obtain r gs where r: "add_handler tf h hs rc = (r, gs)" by force
  from "3.IH" [OF r [symmetric]] "3.prems" r show ?case
    by (auto intro: handler_added_Cons)
qed simp

lemma MQTTSubscribe_fields:
  "post (MQTTSubscribe E c tf qos h w) (\<lambda>(rc, c', _). isconnected c' = isconnected c \<and>
     (messageHandlers c' = messageHandlers c \<or>
      rc = 0 \<and> handler_added tf h (messageHandlers c) (messageHandlers c')))"
  unfolding MQTTSubscribe_def
  by (intro post_intro post_any)
    (auto dest!: step_fields getNextPacketId_fields add_handler_spec split: if_splits)


section \<open>Delivery\<close>

text \<open>The handlers whose filter is the name itself or matches it, in the order of the table.\<close>

definition matching :: "(byte list option \<times> 'w handler option) list \<Rightarrow> byte list \<Rightarrow> 'w handler list" where
  "matching hs name = List.map_filter (\<lambda>(tf, fp). case tf of None \<Rightarrow> None
     | Some f \<Rightarrow> if f = name \<or> match_loop f name then fp else None) hs"

lemma isTopicMatched_text: "isTopicMatched f (len_string name rest) = Some (match_loop f name)"
  by (simp add: isTopicMatched_def len_string_def fetch_def)

lemma wf_len_string: "length name < 65536 \<Longrightarrow> wf_string (len_string name rest)"
  by (simp add: wf_string_def len_string_def)

lemma deliver_loop_matching:
  assumes "length name < 65536"
  shows "\<forall>(tf, fp) \<in> set hs. \<forall>f. tf = Some f \<longrightarrow> 0 \<notin> set f \<Longrightarrow>
    deliver_loop hs (len_string name rest) msg rc w =
      Some (if matching hs name = [] then rc else MQTT_SUCCESS,
        fold (\<lambda>h w. h (len_string name rest) msg w) (matching hs name) w)"
proof (induction hs arbitrary: rc w)
  case Nil
  show ?case by (simp add: matching_def List.map_filter_def)
next
  case (Cons a hs)
  obtain tf fp where a: "a = (tf, fp)" by force
  show ?case
  proof (cases tf)
    case None
    with Cons a show ?thesis by (simp add: matching_def map_filter_simps)
  next
    case (Some f)
    have "MQTTPacket_equals (len_string name rest) f = Some (name = f)"
      using MQTTPacket_equals_text [OF wf_len_string [OF assms]] Cons.prems a Some
      by (simp add: len_string_def str_text_def)
    with Cons a Some show ?thesis
      by (cases fp; cases "name = f"; cases "match_loop f name")
        (auto simp: matching_def map_filter_simps isTopicMatched_text)
  qed
qed

end
