(* ===== verification/Mqtt_Client_Props.thy ===== *)
theory Mqtt_Client_Props
  imports Mqtt_Client_Proofs
begin

text \<open>
  The properties of the client of \<open>src/mqtt/MQTTClient.c\<close>: what it reads and writes, what it delivers to which
  handler, and where its return codes and its buffers go wrong.
\<close>

section \<open>A connection to try things on\<close>

text \<open>A socket with some bytes in its mailbox, a network that takes everything, and a clock that stands still.\<close>

definition example_ticks :: ticks where
  "example_ticks = \<lparr>xTickCount = 7, xNumOfOverflows = 0\<rparr>"

definition example_env :: "(lwip_sock \<times> byte list) env" where
  "example_env = tcp_env (\<lambda>bs ms (s, out). Some (int (length bs), s, out @ bs)) (\<lambda>out. (example_ticks, out))
     \<lparr>pub_dup = 0, pub_qos = 0, pub_retained = 0, pub_packetid = 0, pub_topicName = MQTTString_initializer,
      pub_payload = None, pub_payloadlen = 0\<rparr>
     \<lparr>ack_packettype = 0, ack_dup = 0, ack_packetid = 0\<rparr>"

definition example_sock :: "byte list \<Rightarrow> lwip_sock" where
  "example_sock bs = \<lparr>recvmbox = [Some \<lparr>p_data = bs, p_push = True\<rparr>], recv_timeout = 0, last_err = 0,
     lastdata = None, lastoffset = 0, rcvevent = 1, sock_err = E_NONE\<rparr>"

definition example_client :: "bool \<Rightarrow> (lwip_sock \<times> byte list) MQTTClient" where
  "example_client connected = \<lparr>next_packetid = 1, command_timeout_ms = 1000, buf_size = 16, readbuf_size = 16,
     buf = replicate 16 0, readbuf = replicate 16 0, c_keepAliveInterval = 0, ping_outstanding = False,
     isconnected = connected, messageHandlers = [(Some [97], None), (None, None)],
     defaultMessageHandler = None, ping_timer = TimerInit\<rparr>"

section \<open>Properties\<close>

text \<open>
  Packet identifiers are between 1 and 65535, as MQTT requires, and each differs from the one before.
\<close>

theorem getNextPacketId_range:
  assumes "1 \<le> next_packetid c" "next_packetid c \<le> 65535" "getNextPacketId c = (i, c')"
  shows "1 \<le> next_packetid c' \<and> next_packetid c' \<le> 65535 \<and> unat i = unat (next_packetid c') \<and>
    next_packetid c' \<noteq> next_packetid c"
proof -
  let ?n = "if next_packetid c = 65535 then 1 else next_packetid c + 1"
  have n: "unat ?n = (if unat (next_packetid c) = 65535 then 1 else unat (next_packetid c) + 1)"
    using assms(2) by (auto simp: word_le_nat_alt word_unat_eq_iff unat_word_ariths)
  have r: "i = ucast ?n" "next_packetid c' = ?n"
    using assms(3) by (auto simp: getNextPacketId_def Let_def)
  have "unat ?n \<le> 65535" "1 \<le> unat ?n" "unat ?n \<noteq> unat (next_packetid c)"
    using n assms(1,2) by (auto simp: word_le_nat_alt)
  moreover from this(1) have "unat (ucast ?n :: 16 word) = unat ?n"
    by (simp only: unsigned_ucast_eq) (simp add: take_bit_nat_eq_self)
  ultimately show ?thesis using r by (simp add: word_le_nat_alt word_unat_eq_iff)
qed

theorem getNextPacketId_range_witness:
  "1 \<le> next_packetid ((example_client True)\<lparr>next_packetid := 1\<rparr>) \<and>
   next_packetid ((example_client True)\<lparr>next_packetid := 1\<rparr>) \<le> 65535 \<and>
   unat (1 :: 16 word) = unat (next_packetid ((example_client True)\<lparr>next_packetid := 1\<rparr>)) \<and>
   next_packetid ((example_client True)\<lparr>next_packetid := 1\<rparr>) \<noteq>
     next_packetid ((example_client True)\<lparr>next_packetid := 65535\<rparr>)"
  by (rule getNextPacketId_range) (simp_all add: getNextPacketId_def)

text \<open>
  C31. Reading a packet on a TCP connection: a packet with a body that fits the read buffer is put at its start, its
  type is the result, and the next read begins right after it, however the segments were cut and whatever
  the timer says.
\<close>

theorem readPacket_over_tcp:
  assumes "sock_pending sock = frame h body @ rest" "length body < 268435456" "body \<noteq> []"
    and "length (frame h body) \<le> length (readbuf c)"
  shows "\<exists>timer' sock' x'. readPacket (tcp_env wr ck up ua) c timer (sock, x) = Some (uint (hdr_type h),
      c\<lparr>readbuf := frame h body @ drop (length (frame h body)) (readbuf c)\<rparr>, timer', sock', x') \<and>
    sock_pending sock' = rest"
  using tcp_client.readPacket_frame [of "(sock, x)" h body rest c wr ck up ua timer] assms by auto

theorem readPacket_over_tcp_witness:
  "\<exists>timer' sock' x'. readPacket example_env (example_client True) TimerInit (example_sock [0xB0, 2, 0, 2, 9], []) =
      Some (uint (hdr_type 0xB0), (example_client True)\<lparr>readbuf := frame 0xB0 [0, 2] @
        drop (length (frame 0xB0 [0, 2])) (readbuf (example_client True))\<rparr>, timer', sock', x') \<and>
    sock_pending sock' = [9]"
  unfolding example_env_def
  by (rule readPacket_over_tcp)
    (simp_all add: sock_pending_def example_sock_def sock_ok_def sock_stream_def ERR_IS_FATAL_def frame_def
      rl_bytes_small example_client_def)

text \<open>
  C37. The read buffer is not protected: the remaining length is not compared with its size, so any packet longer than
  the buffer, which the peer chooses, is written past its end.
\<close>

theorem readPacket_overruns_readbuf:
  assumes "sock_pending sock = frame h body @ rest" "length body < 268435456" "body \<noteq> []"
    and "length (readbuf c) < length (frame h body)"
  shows "readPacket (tcp_env wr ck up ua) c timer (sock, x) = None"
  using tcp_client.readPacket_overrun [of "(sock, x)" h body rest c wr ck up ua timer] assms by auto

theorem readPacket_overruns_readbuf_witness:
  "readPacket example_env (example_client True\<lparr>readbuf := [0, 0, 0]\<rparr>) TimerInit (example_sock [0xB0, 2, 0, 2], []) = None"
  unfolding example_env_def
  by (rule readPacket_overruns_readbuf [of _ "0xB0" "[0, 2]" "[]"])
    (simp_all add: sock_pending_def example_sock_def sock_ok_def sock_stream_def ERR_IS_FATAL_def frame_def
      rl_bytes_small)

text \<open>\<open>decodePacket\<close> computes what \<open>MQTTPacket_decode\<close> computes, over the network's read function.\<close>

theorem decodePacket_is_decode:
  "decodePacket E timeout_ms w = MQTTPacket_decode (get1 (\<lambda>n. mqttread E n timeout_ms)) w"
  by (rule decodePacket_decode)

text \<open>
  A failed read is not reported: \<open>cycle\<close> stores the failure code -1 in an unsigned short, finds no packet of
  type 65535, and returns 65535, which no caller takes for a failure. \<open>MQTTYield\<close> on a dead connection reports
  success once its time is up.
\<close>

theorem cycle_hides_read_failure:
  assumes "mqttread E 1 (fst (left_ms E timer w)) (snd (snd (left_ms E timer w))) = Some (r, [], w')"
    and "r \<noteq> 1" "c_keepAliveInterval c = 0"
  shows "\<exists>timer'. cycle E c timer w = Some (65535, c, timer', w')"
proof -
  obtain ms timer' w1 where l: "left_ms E timer w = (ms, timer', w1)" by (metis prod_cases3)
  have u: "uint (- 1 :: 16 word) = 65535"
    by (simp add: unsigned_minus_1_eq_mask mask_eq_exp_minus_1)
  have "readPacket E c timer w = Some (MQTT_FAILURE, c, timer', w')"
    using assms l by (simp add: readPacket_def copy_in_0)
  then show ?thesis using assms(3) u by (simp add: cycle_def keepalive_def Let_def)
qed

theorem cycle_hides_read_failure_witness:
  "\<exists>timer'. cycle (example_env\<lparr>mqttread := \<lambda>n t w. Some (- 1, [], w)\<rparr>) (example_client True) TimerInit
      (example_sock [], []) = Some (65535, example_client True, timer', example_sock [], [])"
  by (rule cycle_hides_read_failure [where r = "- 1"])
    (simp_all add: example_client_def left_ms_def example_env_def tcp_env_def split: prod.splits)

text \<open>
  A release of a message of quality of service 2 is read and ignored: \<open>cycle\<close> has no case for \<open>PUBREL\<close>, so
  the \<open>PUBCOMP\<close> that would complete the exchange is never sent, and the world is as the read left it.
\<close>

theorem cycle_ignores_pubrel:
  assumes "readPacket E c timer w = Some (uint PUBREL, c', timer', w')" "c_keepAliveInterval c' = 0"
  shows "cycle E c timer w = Some (uint PUBREL, c', timer', w')"
  using assms by (simp add: cycle_def keepalive_def Let_def uint_word_of_int)

theorem cycle_ignores_pubrel_witness:
  "\<exists>c' timer' sock'. cycle example_env (example_client True) TimerInit (example_sock [0x62, 2, 0, 9], []) =
     Some (uint PUBREL, c', timer', sock', [])"
proof -
  have "map_option (\<lambda>(r, c, t, s, out). (r, out)) (readPacket example_env (example_client True) TimerInit
      (example_sock [0x62, 2, 0, 9], [])) = Some (uint PUBREL, [])"
    "map_option (\<lambda>(r, c, t, w). c_keepAliveInterval c) (readPacket example_env (example_client True) TimerInit
      (example_sock [0x62, 2, 0, 9], [])) = Some 0"
    by code_simp+
  then obtain c' timer' sock' where "readPacket example_env (example_client True) TimerInit
      (example_sock [0x62, 2, 0, 9], []) = Some (uint PUBREL, c', timer', sock', [])" "c_keepAliveInterval c' = 0"
    by auto
  from cycle_ignores_pubrel [OF this] show ?thesis by blast
qed

text \<open>
  Unsubscribing does not remove the handler: \<open>MQTTUnsubscribe\<close> never changes the table, so after enough
  subscriptions it is full for good, whatever has been unsubscribed.
\<close>

theorem MQTTUnsubscribe_keeps_handlers:
  assumes "MQTTUnsubscribe E c topicFilter w = Some (rc, c', w')"
  shows "messageHandlers c' = messageHandlers c"
  using postD [OF MQTTUnsubscribe_fields assms] by simp

theorem MQTTUnsubscribe_keeps_handlers_witness:
  "\<exists>c' w'. MQTTUnsubscribe example_env (example_client True) [97] (example_sock [0xB0, 2, 0, 2], []) = Some (0, c', w') \<and>
     messageHandlers c' = messageHandlers (example_client True)"
proof -
  have "map_option fst (MQTTUnsubscribe example_env (example_client True) [97] (example_sock [0xB0, 2, 0, 2], [])) = Some 0"
    by code_simp
  then obtain c' w' where r: "MQTTUnsubscribe example_env (example_client True) [97]
      (example_sock [0xB0, 2, 0, 2], []) = Some (0, c', w')" by auto
  from MQTTUnsubscribe_keeps_handlers [OF r] r show ?thesis by blast
qed

text \<open>
  Subscribing: the handler table is left alone unless the call returns 0, and then its first free entry has been
  given the topic filter and the handler.
\<close>

theorem MQTTSubscribe_adds_handler:
  assumes "MQTTSubscribe E c topicFilter qos h w = Some (rc, c', w')"
  shows "messageHandlers c' = messageHandlers c \<or>
    rc = 0 \<and> handler_added topicFilter h (messageHandlers c) (messageHandlers c')"
  using postD [OF MQTTSubscribe_fields assms] by simp

theorem MQTTSubscribe_adds_handler_witness:
  "\<exists>c' w'. MQTTSubscribe example_env (example_client True) [98] 1 None (example_sock [0x90, 3, 0, 2, 1], []) =
      Some (0, c', w') \<and> map fst (messageHandlers c') = [Some [97], Some [98]] \<and>
    (messageHandlers c' = messageHandlers (example_client True) \<or>
     0 = (0 :: int) \<and> handler_added [98] None (messageHandlers (example_client True)) (messageHandlers c'))"
proof -
  have "map_option (\<lambda>(rc, c, w). (rc, map fst (messageHandlers c))) (MQTTSubscribe example_env (example_client True) [98] 1 None
      (example_sock [0x90, 3, 0, 2, 1], [])) = Some (0, [Some [97], Some [98]])"
    by code_simp
  then obtain c' w' where r: "MQTTSubscribe example_env (example_client True) [98] 1 None
      (example_sock [0x90, 3, 0, 2, 1], []) = Some (0, c', w')" "map fst (messageHandlers c') = [Some [97], Some [98]]"
    by auto
  from MQTTSubscribe_adds_handler [OF r(1)] r show ?thesis by (intro exI [of _ c'] exI [of _ w']) simp
qed

text \<open>
  Connecting: after \<open>MQTTConnect\<close> the client is connected if it was, in which case nothing was sent, or if the
  result is 0, the return code of an accepted connection; and the handlers are untouched.
\<close>

theorem MQTTConnect_connected:
  assumes "MQTTConnect E c options w = Some (rc, c', w')"
  shows "(isconnected c' \<longleftrightarrow> isconnected c \<or> rc = MQTT_SUCCESS) \<and> messageHandlers c' = messageHandlers c \<and>
    (isconnected c \<longrightarrow> rc = MQTT_FAILURE \<and> w' = w)"
  using postD [OF MQTTConnect_fields assms] assms by (auto simp: MQTTConnect_def)

theorem MQTTConnect_connected_witness:
  "\<exists>c' w'. MQTTConnect example_env (example_client False) None (example_sock [0x20, 2, 0, 0], []) = Some (0, c', w') \<and>
    isconnected c'"
proof -
  have "map_option fst (MQTTConnect example_env (example_client False) None (example_sock [0x20, 2, 0, 0], [])) = Some 0"
    by code_simp
  then obtain c' w' where r: "MQTTConnect example_env (example_client False) None
      (example_sock [0x20, 2, 0, 0], []) = Some (0, c', w')" by auto
  from MQTTConnect_connected [OF r] r show ?thesis by blast
qed

text \<open>
  Partial writes break a packet: the second round of \<open>sendPacket\<close> passes the length of the whole packet again, so
  when the network first takes \<open>k\<close> bytes and then everything it is given, it is given \<open>k\<close> bytes from behind the packet, and
  the call reports failure although all of the packet was sent.
\<close>

theorem sendPacket_partial_write:
  assumes "clock E = (\<lambda>w. (t, w))" "0 < ms" "0 < k" "k < len" "k + len \<le> length (buf c)"
    and "mqttwrite E (take len (buf c)) (sint ms) w = Some (int k, w1)"
    and "mqttwrite E (take len (drop k (buf c))) (sint ms) w1 = Some (int len, w2)"
  shows "sendPacket E c (int len) (TimerCountdownMS t ms) w = Some (MQTT_FAILURE, c, TimerCountdownMS t ms, w2)"
proof -
  note round = send_loop_round [OF assms(1,2), of _ "int len" "buf c"]
  have "send_loop E (buf c) (int len) (TimerCountdownMS t ms) w 0 =
      send_loop E (buf c) (int len) (TimerCountdownMS t ms) w1 (int k)"
    using round [of 0 w "int k" w1] assms(3-6) by simp
  also have "\<dots> = send_loop E (buf c) (int len) (TimerCountdownMS t ms) w2 (int k + int len)"
    using round [of "int k" w1 "int len" w2] assms(3-5,7) by simp
  also have "\<dots> = Some (int k + int len, TimerCountdownMS t ms, w2)"
    using assms(3) by (subst send_loop.simps) simp
  finally show ?thesis using assms(3) by (simp add: sendPacket_def)
qed

theorem sendPacket_partial_write_witness:
  "sendPacket (example_env\<lparr>clock := \<lambda>w. (example_ticks, w),
       mqttwrite := \<lambda>bs ms (s, out). Some (if out = [] then 1 else int (length bs), s, out @ (if out = [] then take 1 bs else bs))\<rparr>)
     ((example_client True)\<lparr>buf := [1, 2, 99, 99]\<rparr>) (int 2) (TimerCountdownMS example_ticks 5) (example_sock [], []) =
   Some (MQTT_FAILURE, (example_client True)\<lparr>buf := [1, 2, 99, 99]\<rparr>, TimerCountdownMS example_ticks 5,
     example_sock [], [1, 2, 99])"
  by (rule sendPacket_partial_write [where k = 1 and ?w1.0 = "(example_sock [], [1])"])
    (simp_all add: take_Cons' drop_Cons')

text \<open>
  C34. Delivery: a message is handed, in the order of the table, to every handler whose filter equals its topic or
  matches it, and to the default handler exactly when there is none; the result says whether anybody took it.
\<close>

theorem deliverMessage_matching:
  assumes "length name < 65536" "\<forall>(tf, fp) \<in> set (messageHandlers c). \<forall>f. tf = Some f \<longrightarrow> 0 \<notin> set f"
  shows "deliverMessage c (len_string name rest) msg w =
    (let hs = matching (messageHandlers c) name; call = (\<lambda>h w. h (len_string name rest) msg w)
     in case defaultMessageHandler c of
          Some h \<Rightarrow> Some (MQTT_SUCCESS, if hs = [] then call h w else fold call hs w)
        | None \<Rightarrow> Some (if hs = [] then MQTT_FAILURE else MQTT_SUCCESS, fold call hs w))"
  using deliver_loop_matching [OF assms, of rest msg MQTT_FAILURE w]
  by (simp add: deliverMessage_def Let_def split: option.split)

theorem deliverMessage_matching_witness:
  "deliverMessage ((example_client True)\<lparr>messageHandlers := [(Some [97], None), (Some [43], Some (\<lambda>t m w. (fst w, [1])))]\<rparr>)
     (len_string [97] [])
      \<lparr>msg_qos = 0, msg_retained = 0, msg_dup = 0, msg_id = 5, msg_payload = Some [8], msg_payloadlen = 1\<rparr> (example_sock [], []) = Some (MQTT_SUCCESS, example_sock [], [1])"
  using deliverMessage_matching [of "[97]" "(example_client True)\<lparr>messageHandlers := [(Some [97], None),
      (Some [43], Some (\<lambda>t m w. (fst w, [1])))]\<rparr>" "[]"
      "\<lparr>msg_qos = 0, msg_retained = 0, msg_dup = 0, msg_id = 5, msg_payload = Some [8], msg_payloadlen = 1\<rparr>" "(example_sock [], [])"]
  by (simp add: matching_def map_filter_simps example_client_def)

text \<open>
  C32. A publish of quality of service 1 or 2 is delivered and then acknowledged, with the identifier it came with: by
  \<open>PUBACK\<close> for 1 and \<open>PUBREC\<close> for 2.
\<close>

theorem cycle_publish_acknowledges:
  assumes "readbuf c = frame (publish_header dup qos retained) (publish_body qos packetid name payload) @ junk"
    and "qos = 1 \<or> qos = 2" "take_bit 1 dup = dup" "take_bit 1 retained = retained" "length name < 65536"
    and "length (publish_body qos packetid name payload) < 268435456"
    and "4 \<le> buf_size c" "4 \<le> length (buf c)"
  shows "cycle_publish E c timer w = do {
    (_, w) \<leftarrow> deliverMessage c (len_string name (be16 (uint packetid) @ payload @ junk))
      \<lparr>msg_qos = qos, msg_retained = retained, msg_dup = dup, msg_id = packetid,
       msg_payload = Some (payload @ junk), msg_payloadlen = int (length payload)\<rparr> w;
    (rc, c, timer, w) \<leftarrow> sendPacket E (c\<lparr>buf :=
      frame (ack_header (if qos = 1 then PUBACK else PUBREC) 0) (be16 (uint packetid)) @ drop 4 (buf c)\<rparr>) 4 timer w;
    Some (rc = MQTT_FAILURE, rc, c, timer, w) }"
proof -
  have q: "0 \<le> qos" "qos < 4" "qos > 0" using assms(2) by auto
  note d = MQTTDeserialize_publish_frame [OF assms(1) q(1,2) assms(3,4,5,6), of "uninit_publish E" "readbuf_size c"]
  have a: "MQTTSerialize_ack (buf c) (buf_size c) t 0 packetid =
      Some (frame (ack_header t 0) (be16 (uint packetid)) @ drop 4 (buf c), 4)" for t
    using assms(7,8) by (simp add: MQTTSerialize_ack_frame)
  show ?thesis
    using assms(2) q(3) by (auto simp: cycle_publish_def d a)
qed

theorem cycle_publish_acknowledges_witness:
  "cycle_publish example_env ((example_client True)\<lparr>readbuf := frame (publish_header 0 1 0) (publish_body 1 5 [97] [8]) @ [0]\<rparr>)
     TimerInit (example_sock [], []) = do {
    (_, w) \<leftarrow> deliverMessage ((example_client True)\<lparr>readbuf := frame (publish_header 0 1 0) (publish_body 1 5 [97] [8]) @ [0]\<rparr>)
      (len_string [97] (be16 (uint (5 :: 16 word)) @ [8] @ [0]))
      \<lparr>msg_qos = 1, msg_retained = 0, msg_dup = 0, msg_id = 5,
       msg_payload = Some ([8] @ [0]), msg_payloadlen = int (length [8 :: byte])\<rparr> (example_sock [], []);
    (rc, c, timer, w) \<leftarrow> sendPacket example_env
      ((example_client True)\<lparr>readbuf := frame (publish_header 0 1 0) (publish_body 1 5 [97] [8]) @ [0], buf :=
      frame (ack_header (if (1 :: int) = 1 then PUBACK else PUBREC) 0) (be16 (uint (5 :: 16 word))) @ drop 4 (replicate 16 0)\<rparr>) 4 TimerInit w;
    Some (rc = MQTT_FAILURE, rc, c, timer, w) }"
  using cycle_publish_acknowledges [of "(example_client True)\<lparr>readbuf := frame (publish_header 0 1 0) (publish_body 1 5 [97] [8]) @ [0]\<rparr>"
      0 1 0 5 "[97]" "[8]" "[0]" example_env TimerInit "(example_sock [], [])"]
  by (simp add: example_client_def publish_body_def)

end
