(* ===== verification/Rtos_List.thy ===== *)
theory Rtos_List
  imports Prelude
begin

text \<open>
  \<open>src/FreeRTOS/list.c\<close> and \<open>list.h\<close>: the doubly linked ring every queue of tasks of the kernel is kept in. The
  items and the end markers live in one store, pointers are their addresses, and an operation is the same
  sequence of assignments as in the code. The abstract specification is a HOL list of items; every operation is
  shown to implement its list operation, which is what the kernel relies on: an insertion keeps the order of
  the values and comes after its equals.
\<close>

section \<open>The store\<close>

text \<open>An address is an item, or the end marker \<open>xListEnd\<close> embedded in a list.\<close>

datatype ptr = Item nat | End nat

type_synonym tick = "32 word"

record ListItem =
  xItemValue :: tick
  pxNext :: ptr
  pxPrevious :: ptr
  pvContainer :: "nat option"

record RList =
  uxNumberOfItems :: "32 word"
  pxIndex :: ptr

record store =
  items :: "ptr \<Rightarrow> ListItem"
  lists :: "nat \<Rightarrow> RList"

abbreviation (input) MAX_VALUE :: tick where "MAX_VALUE \<equiv> 0xffffffff"

definition set_next :: "ptr \<Rightarrow> ptr \<Rightarrow> store \<Rightarrow> store" where
  "set_next p q h = h\<lparr>items := (items h)(p := (items h p)\<lparr>pxNext := q\<rparr>)\<rparr>"

definition set_prev :: "ptr \<Rightarrow> ptr \<Rightarrow> store \<Rightarrow> store" where
  "set_prev p q h = h\<lparr>items := (items h)(p := (items h p)\<lparr>pxPrevious := q\<rparr>)\<rparr>"

definition set_container :: "ptr \<Rightarrow> nat option \<Rightarrow> store \<Rightarrow> store" where
  "set_container p l h = h\<lparr>items := (items h)(p := (items h p)\<lparr>pvContainer := l\<rparr>)\<rparr>"

definition set_value :: "ptr \<Rightarrow> tick \<Rightarrow> store \<Rightarrow> store" where
  "set_value p v h = h\<lparr>items := (items h)(p := (items h p)\<lparr>xItemValue := v\<rparr>)\<rparr>"

definition set_index :: "nat \<Rightarrow> ptr \<Rightarrow> store \<Rightarrow> store" where
  "set_index l p h = h\<lparr>lists := (lists h)(l := (lists h l)\<lparr>pxIndex := p\<rparr>)\<rparr>"

definition set_count :: "nat \<Rightarrow> 32 word \<Rightarrow> store \<Rightarrow> store" where
  "set_count l n h = h\<lparr>lists := (lists h)(l := (lists h l)\<lparr>uxNumberOfItems := n\<rparr>)\<rparr>"

abbreviation next_of :: "store \<Rightarrow> ptr \<Rightarrow> ptr" where "next_of h p \<equiv> pxNext (items h p)"
abbreviation prev_of :: "store \<Rightarrow> ptr \<Rightarrow> ptr" where "prev_of h p \<equiv> pxPrevious (items h p)"
abbreviation value_of :: "store \<Rightarrow> ptr \<Rightarrow> tick" where "value_of h p \<equiv> xItemValue (items h p)"
abbreviation container_of :: "store \<Rightarrow> ptr \<Rightarrow> nat option" where "container_of h p \<equiv> pvContainer (items h p)"

named_theorems store_simps \<open>reading the store after an assignment\<close>

lemma items_set [store_simps]:
  "items (set_next p q h) r = (if r = p then (items h p)\<lparr>pxNext := q\<rparr> else items h r)"
  "items (set_prev p q h) r = (if r = p then (items h p)\<lparr>pxPrevious := q\<rparr> else items h r)"
  "items (set_container p c h) r = (if r = p then (items h p)\<lparr>pvContainer := c\<rparr> else items h r)"
  "items (set_value p v h) r = (if r = p then (items h p)\<lparr>xItemValue := v\<rparr> else items h r)"
  "items (set_index l p h) r = items h r"
  "items (set_count l n h) r = items h r"
  by (simp_all add: set_next_def set_prev_def set_container_def set_value_def set_index_def set_count_def)

lemma lists_set [store_simps]:
  "lists (set_next p q h) = lists h" "lists (set_prev p q h) = lists h"
  "lists (set_container p c h) = lists h" "lists (set_value p v h) = lists h"
  "lists (set_index l p h) = (lists h)(l := (lists h l)\<lparr>pxIndex := p\<rparr>)"
  "lists (set_count l n h) = (lists h)(l := (lists h l)\<lparr>uxNumberOfItems := n\<rparr>)"
  by (simp_all add: set_next_def set_prev_def set_container_def set_value_def set_index_def set_count_def)

section \<open>The operations\<close>

definition vListInitialise :: "nat \<Rightarrow> store \<Rightarrow> store" where
  "vListInitialise l h =
     (let h = set_index l (End l) h;
          h = set_value (End l) MAX_VALUE h;
          h = set_next (End l) (End l) h;
          h = set_prev (End l) (End l) h
      in set_count l 0 h)"

definition vListInitialiseItem :: "ptr \<Rightarrow> store \<Rightarrow> store" where
  "vListInitialiseItem p h = set_container p None h"

definition vListInsertEnd :: "nat \<Rightarrow> ptr \<Rightarrow> store \<Rightarrow> store" where
  "vListInsertEnd l new h =
     (let idx = pxIndex (lists h l);
          h = set_next new idx h;
          h = set_prev new (prev_of h idx) h;
          h = set_next (prev_of h idx) new h;
          h = set_prev idx new h;
          h = set_container new (Some l) h
      in set_count l (uxNumberOfItems (lists h l) + 1) h)"

text \<open>The loop that looks for the insertion point; it may not end in a store that is no list.\<close>

partial_function (option) find_iterator :: "store \<Rightarrow> tick \<Rightarrow> ptr \<Rightarrow> ptr option" where
  "find_iterator h v p =
     (if value_of h (next_of h p) \<le> v then find_iterator h v (next_of h p) else Some p)"

declare find_iterator.simps [code]

definition vListInsert :: "nat \<Rightarrow> ptr \<Rightarrow> store \<Rightarrow> store option" where
  "vListInsert l new h =
     (let v = value_of h new in do {
        p \<leftarrow> (if v = MAX_VALUE then Some (prev_of h (End l)) else find_iterator h v (End l));
        let h = set_next new (next_of h p) h;
        let h = set_prev (next_of h new) new h;
        let h = set_prev new p h;
        let h = set_next p new h;
        let h = set_container new (Some l) h;
        Some (set_count l (uxNumberOfItems (lists h l) + 1) h) })"

text \<open>\<open>pvContainer\<close> is dereferenced: an item that is on no list is an error.\<close>

definition uxListRemove :: "ptr \<Rightarrow> store \<Rightarrow> (32 word \<times> store) option" where
  "uxListRemove p h = do {
     l \<leftarrow> container_of h p;
     let h = set_prev (next_of h p) (prev_of h p) h;
     let h = set_next (prev_of h p) (next_of h p) h;
     let h = (if pxIndex (lists h l) = p then set_index l (prev_of h p) h else h);
     let h = set_container p None h;
     let h = set_count l (uxNumberOfItems (lists h l) - 1) h;
     Some (uxNumberOfItems (lists h l), h) }"

text \<open>\<open>listGET_OWNER_OF_NEXT_ENTRY\<close>: the index moves on, past the end marker, and the item it reaches is returned.\<close>

definition listGET_OWNER_OF_NEXT_ENTRY :: "nat \<Rightarrow> store \<Rightarrow> ptr \<times> store" where
  "listGET_OWNER_OF_NEXT_ENTRY l h =
     (let h = set_index l (next_of h (pxIndex (lists h l))) h;
          h = (if pxIndex (lists h l) = End l then set_index l (next_of h (pxIndex (lists h l))) h else h)
      in (pxIndex (lists h l), h))"

section \<open>Rings\<close>

text \<open>The chain from \<open>a\<close> over the items \<open>xs\<close> to \<open>b\<close>, linked both ways.\<close>

fun seg :: "store \<Rightarrow> ptr \<Rightarrow> ptr list \<Rightarrow> ptr \<Rightarrow> bool" where
  "seg h a [] b \<longleftrightarrow> next_of h a = b \<and> prev_of h b = a"
| "seg h a (x # xs) b \<longleftrightarrow> next_of h a = x \<and> prev_of h x = a \<and> seg h x xs b"

lemma seg_append: "seg h a (xs @ y # ys) b \<longleftrightarrow> seg h a xs y \<and> seg h y ys b"
  by (induction xs arbitrary: a) auto

lemma seg_last: "seg h a xs b \<Longrightarrow> next_of h (last (a # xs)) = b \<and> prev_of h b = last (a # xs)"
  by (induction xs arbitrary: a) auto

lemma seg_first: "seg h a xs b \<Longrightarrow> next_of h a = hd (xs @ [b]) \<and> prev_of h (hd (xs @ [b])) = a"
  by (cases xs) auto

text \<open>A chain is read through the next pointers of all but its last and the previous pointers of all but its first.\<close>

lemma seg_frame:
  "\<forall>p \<in> set (a # xs). next_of h' p = next_of h p \<Longrightarrow> \<forall>p \<in> set (xs @ [b]). prev_of h' p = prev_of h p \<Longrightarrow>
   seg h a xs b \<Longrightarrow> seg h' a xs b"
  by (induction xs arbitrary: a) auto

text \<open>Turning the last link of a chain to another target.\<close>

lemma seg_retarget:
  "seg h a xs n \<Longrightarrow> distinct (a # xs) \<Longrightarrow> x \<notin> set xs \<Longrightarrow>
   \<forall>p \<in> set (butlast (a # xs)). next_of h' p = next_of h p \<Longrightarrow> \<forall>p \<in> set xs. prev_of h' p = prev_of h p \<Longrightarrow>
   next_of h' (last (a # xs)) = x \<Longrightarrow> prev_of h' x = last (a # xs) \<Longrightarrow> seg h' a xs x"
  by (induction xs arbitrary: a) auto

definition is_list :: "store \<Rightarrow> nat \<Rightarrow> ptr list \<Rightarrow> bool" where
  "is_list h l xs \<longleftrightarrow> seg h (End l) xs (End l) \<and> distinct (End l # xs) \<and>
     (\<forall>x \<in> set xs. container_of h x = Some l) \<and> length xs < 2 ^ 32 \<and>
     uxNumberOfItems (lists h l) = word_of_nat (length xs) \<and>
     pxIndex (lists h l) \<in> set (End l # xs) \<and> value_of h (End l) = MAX_VALUE"

lemma last_notin_butlast: "distinct xs \<Longrightarrow> xs \<noteq> [] \<Longrightarrow> last xs \<notin> set (butlast xs)"
  by (metis append_butlast_last_id distinct_append disjoint_insert(2) list.simps(15))

text \<open>Linking \<open>x\<close> in between \<open>p\<close> and its successor, the four assignments both insertions end in.\<close>

lemma seg_insert:
  assumes ring: "seg h e (pre @ suf) e" "distinct (e # pre @ suf)" "x \<notin> set (e # pre @ suf)"
    and p: "p = last (e # pre)" and n: "n = hd (suf @ [e])"
    and h': "next_of h' x = n" "prev_of h' n = x" "prev_of h' x = p" "next_of h' p = x"
    and same: "\<And>q. q \<noteq> x \<Longrightarrow> q \<noteq> p \<Longrightarrow> next_of h' q = next_of h q"
      "\<And>q. q \<noteq> x \<Longrightarrow> q \<noteq> n \<Longrightarrow> prev_of h' q = prev_of h q"
  shows "seg h' e (pre @ x # suf) e"
proof -
  have bl: "pre \<noteq> [] \<Longrightarrow> last pre \<notin> set (butlast pre)"
    using ring(2) by (intro last_notin_butlast) auto
  have pre_part: "seg h' e pre x" if s: "seg h e pre n" and d: "n \<notin> set pre"
    using s ring(2,3) h'(3,4) p d
    by (intro seg_retarget [OF s]) (auto dest: bl in_set_butlastD intro!: same split: if_splits)
  show ?thesis
  proof (cases suf)
    case Nil
    have "seg h e pre n" using ring(1) n Nil by simp
    moreover have "n \<notin> set pre" using ring(2) n Nil by simp
    ultimately have "seg h' e pre x" by (rule pre_part)
    moreover have "seg h' x [] e" using h'(1,2) n Nil by simp
    ultimately show ?thesis using Nil by (simp add: seg_append)
  next
    case (Cons y ys)
    have ny: "n = y" using n Cons by simp
    have s: "seg h e pre y" "seg h y ys e" using ring(1) Cons by (simp_all add: seg_append)
    have "seg h' e pre x" using pre_part ny s(1) ring(2) Cons by auto
    moreover have "seg h' y ys e"
    proof (rule seg_frame [OF _ _ s(2)])
      have "p \<in> set (e # pre)" unfolding p by (rule last_in_set) simp
      then show "\<forall>q \<in> set (y # ys). next_of h' q = next_of h q"
        using ring(2,3) Cons by (auto intro!: same(1))
      show "\<forall>q \<in> set (ys @ [e]). prev_of h' q = prev_of h q"
        using ring(2,3) Cons ny by (auto intro!: same(2))
    qed
    ultimately show ?thesis using Cons h'(1,2) ny by (simp add: seg_append)
  qed
qed


text \<open>Unlinking \<open>x\<close>, the two assignments of \<open>uxListRemove\<close>.\<close>

lemma seg_remove:
  assumes ring: "seg h e (pre @ x # suf) e" "distinct (e # pre @ x # suf)"
    and p: "p = last (e # pre)" and n: "n = hd (suf @ [e])"
    and h': "prev_of h' n = p" "next_of h' p = n"
    and same: "\<And>q. q \<noteq> x \<Longrightarrow> q \<noteq> p \<Longrightarrow> next_of h' q = next_of h q"
      "\<And>q. q \<noteq> x \<Longrightarrow> q \<noteq> n \<Longrightarrow> prev_of h' q = prev_of h q"
  shows "seg h' e (pre @ suf) e"
proof -
  have s: "seg h e pre x" "seg h x suf e" using ring(1) by (simp_all add: seg_append)
  have bl: "pre \<noteq> [] \<Longrightarrow> last pre \<notin> set (butlast pre)"
    using ring(2) by (intro last_notin_butlast) auto
  have nn: "n \<notin> set pre" "n \<noteq> x" using ring(2) n by (cases suf; auto)+
  have pre_part: "seg h' e pre n"
    using ring(2) h' p nn
    by (intro seg_retarget [OF s(1)]) (auto dest: bl in_set_butlastD intro!: same split: if_splits)
  show ?thesis
  proof (cases suf)
    case Nil
    with pre_part n show ?thesis by simp
  next
    case (Cons y ys)
    have "seg h y ys e" using s(2) Cons by simp
    then have "seg h' y ys e"
    proof (rule seg_frame [rotated 2])
      have "p \<in> set (e # pre)" unfolding p by (rule last_in_set) simp
      then show "\<forall>q \<in> set (y # ys). next_of h' q = next_of h q"
        using ring(2) Cons by (auto intro!: same(1))
      show "\<forall>q \<in> set (ys @ [e]). prev_of h' q = prev_of h q"
        using ring(2) Cons n by (auto intro!: same(2))
    qed
    with pre_part n Cons show ?thesis by (simp add: seg_append)
  qed
qed

lemma seg_cut:
  "seg h e (pre @ suf) b \<Longrightarrow>
   next_of h (last (e # pre)) = hd (suf @ [b]) \<and> prev_of h (hd (suf @ [b])) = last (e # pre)"
  using seg_last [of h e pre] by (cases suf) (auto simp: seg_append)

section \<open>Every operation implements its list operation\<close>

lemma vListInitialise_is_list: "is_list (vListInitialise l h) l []"
  by (simp add: vListInitialise_def is_list_def Let_def store_simps)

lemma vListInsertEnd_is_list:
  assumes "is_list h l (pre @ suf)" "pxIndex (lists h l) = hd (suf @ [End l])"
    and "x \<notin> set (End l # pre @ suf)" "length (pre @ suf) + 1 < 2 ^ 32"
  shows "is_list (vListInsertEnd l x h) l (pre @ x # suf)"
    and "pxIndex (lists (vListInsertEnd l x h) l) = pxIndex (lists h l)"
proof -
  let ?h = "vListInsertEnd l x h"
  define n where "n = hd (suf @ [End l])"
  define p where "p = last (End l # pre)"
  have r: "seg h (End l) (pre @ suf) (End l)" "distinct (End l # pre @ suf)"
    using assms(1) by (simp_all add: is_list_def)
  have pn: "prev_of h n = p" using seg_cut [OF r(1)] by (simp add: n_def p_def)
  have n: "n \<in> set (End l # pre @ suf)" by (cases suf) (auto simp: n_def)
  have p: "p \<in> set (End l # pre)" unfolding p_def by (rule last_in_set) simp
  have ne: "n \<noteq> x" "p \<noteq> x" using n p assms(3) by auto
  have idx: "pxIndex (lists h l) = n" using assms(2) n_def by simp
  have h': "next_of ?h x = n" "prev_of ?h n = x" "prev_of ?h x = p" "next_of ?h p = x"
    "\<And>q. q \<noteq> x \<Longrightarrow> q \<noteq> p \<Longrightarrow> next_of ?h q = next_of h q"
    "\<And>q. q \<noteq> x \<Longrightarrow> q \<noteq> n \<Longrightarrow> prev_of ?h q = prev_of h q"
    using ne pn by (auto simp: vListInsertEnd_def Let_def idx store_simps)
  have "seg ?h (End l) (pre @ x # suf) (End l)"
    by (rule seg_insert [OF r assms(3) p_def n_def h'])
  moreover have "value_of ?h q = value_of h q" "container_of ?h q = (if q = x then Some l else container_of h q)" for q
    by (simp_all add: vListInsertEnd_def Let_def store_simps)
  moreover have l': "lists ?h l = (lists h l)\<lparr>uxNumberOfItems := uxNumberOfItems (lists h l) + 1\<rparr>"
    by (simp add: vListInsertEnd_def Let_def store_simps)
  ultimately show "is_list ?h l (pre @ x # suf)"
    using assms(1,3,4) by (auto simp: is_list_def add.commute)
  show "pxIndex (lists ?h l) = pxIndex (lists h l)" by (simp add: l')
qed

lemma le_MAX_VALUE: "v \<le> MAX_VALUE" for v :: tick
  using unsigned_less [of v, where 'a = nat] by (simp add: word_le_nat_alt)

lemma find_iterator_seg:
  assumes "v < MAX_VALUE" "value_of h b = MAX_VALUE"
  shows "seg h a xs b \<Longrightarrow> find_iterator h v a = Some (last (a # takeWhile (\<lambda>y. value_of h y \<le> v) xs))"
proof (induction xs arbitrary: a)
  case Nil
  with assms show ?case by (subst find_iterator.simps) (auto simp: not_le)
next
  case (Cons x xs)
  then show ?case by (subst find_iterator.simps) auto
qed

text \<open>Where an insertion by value goes: behind every item up to the first with a greater value.\<close>

definition insert_point :: "store \<Rightarrow> tick \<Rightarrow> ptr list \<Rightarrow> ptr list \<times> ptr list" where
  "insert_point h v xs = (takeWhile (\<lambda>y. value_of h y \<le> v) xs, dropWhile (\<lambda>y. value_of h y \<le> v) xs)"

lemma vListInsert_is_list:
  assumes "is_list h l xs" "x \<notin> set (End l # xs)" "length xs + 1 < 2 ^ 32"
    and "insert_point h (value_of h x) xs = (pre, suf)"
  shows "\<exists>h'. vListInsert l x h = Some h' \<and> is_list h' l (pre @ x # suf) \<and>
    (\<forall>q. value_of h' q = value_of h q) \<and> pxIndex (lists h' l) = pxIndex (lists h l)"
proof -
  let ?v = "value_of h x"
  have xs: "xs = pre @ suf" "pre = takeWhile (\<lambda>y. value_of h y \<le> ?v) xs"
    using assms(4) by (auto simp: insert_point_def)
  define n where "n = hd (suf @ [End l])"
  define p where "p = last (End l # pre)"
  have r: "seg h (End l) (pre @ suf) (End l)" "distinct (End l # pre @ suf)"
    and x: "x \<notin> set (End l # pre @ suf)" and mx: "value_of h (End l) = MAX_VALUE"
    using assms(1,2) xs(1) by (simp_all add: is_list_def)
  have np: "next_of h p = n" using seg_cut [OF r(1)] by (simp add: n_def p_def)
  have n: "n \<in> set (End l # pre @ suf)" by (cases suf) (auto simp: n_def)
  have p: "p \<in> set (End l # pre)" unfolding p_def by (rule last_in_set) simp
  have ne: "n \<noteq> x" "p \<noteq> x" using n p x by auto
  have it: "(if ?v = MAX_VALUE then Some (prev_of h (End l)) else find_iterator h ?v (End l)) = Some p"
  proof (cases "?v = MAX_VALUE")
    case True
    then have "value_of h y \<le> ?v" for y by (simp add: le_MAX_VALUE)
    then have "pre = xs" using xs(2) by (simp add: takeWhile_eq_all_conv)
    then have "suf = []" using xs(1) by simp
    with r(1) seg_last [of h "End l" pre "End l"] True show ?thesis by (simp add: p_def)
  next
    case False
    then have "?v < MAX_VALUE" by (simp add: order_less_le le_MAX_VALUE)
    moreover have "seg h (End l) xs (End l)" using r(1) xs(1) by simp
    ultimately have "find_iterator h ?v (End l) = Some (last (End l # takeWhile (\<lambda>y. value_of h y \<le> ?v) xs))"
      by (rule find_iterator_seg [OF _ mx])
    then show ?thesis using False by (simp only: xs(2) [symmetric] p_def if_False)
  qed
  define h' where "h' = (let h = set_next x n h; h = set_prev n x h; h = set_prev x p h;
     h = set_next p x h; h = set_container x (Some l) h in set_count l (uxNumberOfItems (lists h l) + 1) h)"
  have ins: "vListInsert l x h = Some h'"
    using it ne np by (simp add: vListInsert_def Let_def h'_def store_simps)
  have links: "next_of h' x = n" "prev_of h' n = x" "prev_of h' x = p" "next_of h' p = x"
    "\<And>q. q \<noteq> x \<Longrightarrow> q \<noteq> p \<Longrightarrow> next_of h' q = next_of h q"
    "\<And>q. q \<noteq> x \<Longrightarrow> q \<noteq> n \<Longrightarrow> prev_of h' q = prev_of h q"
    using ne by (auto simp: h'_def Let_def store_simps)
  have "seg h' (End l) (pre @ x # suf) (End l)"
    by (rule seg_insert [OF r x p_def n_def links])
  moreover have vals: "value_of h' q = value_of h q"
    "container_of h' q = (if q = x then Some l else container_of h q)" for q
    by (simp_all add: h'_def Let_def store_simps)
  moreover have l': "lists h' l = (lists h l)\<lparr>uxNumberOfItems := uxNumberOfItems (lists h l) + 1\<rparr>"
    by (simp add: h'_def Let_def store_simps)
  ultimately have "is_list h' l (pre @ x # suf)"
    using assms(1,3) x xs(1) by (auto simp: is_list_def add.commute)
  then show ?thesis using ins vals l' by auto
qed

lemma uxListRemove_is_list:
  assumes "is_list h l (pre @ x # suf)"
  shows "\<exists>h'. uxListRemove x h = Some (word_of_nat (length (pre @ suf)), h') \<and> is_list h' l (pre @ suf) \<and>
    container_of h' x = None \<and> (\<forall>q. value_of h' q = value_of h q) \<and>
    pxIndex (lists h' l) = (if pxIndex (lists h l) = x then last (End l # pre) else pxIndex (lists h l))"
proof -
  define n where "n = hd (suf @ [End l])"
  define p where "p = last (End l # pre)"
  have r: "seg h (End l) (pre @ x # suf) (End l)" "distinct (End l # pre @ x # suf)"
    and c: "container_of h x = Some l"
    using assms by (simp_all add: is_list_def)
  have np: "next_of h x = n" "prev_of h x = p"
    using seg_first [of h x suf "End l"] seg_last [of h "End l" pre x] r(1) by (simp_all add: seg_append n_def p_def)
  have n: "n \<in> set (End l # suf)" by (cases suf) (auto simp: n_def)
  have p: "p \<in> set (End l # pre)" unfolding p_def by (rule last_in_set) simp
  have ne: "n \<noteq> x" "p \<noteq> x" using n p r(2) by auto
  define N where "N = uxNumberOfItems (lists h l) - 1"
  define h' where "h' = (let h = set_prev n p h; h = set_next p n h;
     h = (if pxIndex (lists h l) = x then set_index l p h else h); h = set_container x None h
     in set_count l N h)"
  have N: "N = word_of_nat (length (pre @ suf))" using assms by (simp add: N_def is_list_def)
  have rm: "uxListRemove x h = Some (N, h')"
    using c np ne by (simp add: uxListRemove_def Let_def h'_def N_def store_simps)
  have links: "prev_of h' n = p" "next_of h' p = n"
    "\<And>q. q \<noteq> x \<Longrightarrow> q \<noteq> p \<Longrightarrow> next_of h' q = next_of h q"
    "\<And>q. q \<noteq> x \<Longrightarrow> q \<noteq> n \<Longrightarrow> prev_of h' q = prev_of h q"
    by (auto simp: h'_def Let_def store_simps)
  have "seg h' (End l) (pre @ suf) (End l)"
    by (rule seg_remove [OF r p_def n_def links])
  moreover have vals: "value_of h' q = value_of h q"
    "container_of h' q = (if q = x then None else container_of h q)" for q
    by (simp_all add: h'_def Let_def store_simps)
  moreover have idx: "pxIndex (lists h' l) = (if pxIndex (lists h l) = x then p else pxIndex (lists h l))"
    "uxNumberOfItems (lists h' l) = N"
    by (simp_all add: h'_def Let_def store_simps)
  ultimately have "is_list h' l (pre @ suf)"
    using assms p N by (auto simp: is_list_def)
  then show ?thesis using rm vals idx N p_def by auto
qed

text \<open>The index walks round the ring.\<close>

lemma listGET_OWNER_OF_NEXT_ENTRY_next:
  assumes "is_list h l (pre @ suf)" "pre @ suf \<noteq> []" "pxIndex (lists h l) = last (End l # pre)"
    and "listGET_OWNER_OF_NEXT_ENTRY l h = (p, h')"
  shows "p = hd (suf @ pre) \<and> is_list h' l (pre @ suf) \<and> pxIndex (lists h' l) = p \<and> items h' = items h"
proof -
  let ?e = "End l"
  have r: "seg h ?e (pre @ suf) ?e" "distinct (?e # pre @ suf)"
    using assms(1) by (simp_all add: is_list_def)
  have nx: "next_of h (last (?e # pre)) = hd (suf @ [?e])" using seg_cut [OF r(1)] by simp
  have first: "next_of h ?e = hd ((pre @ suf) @ [?e])" using seg_first [OF r(1)] by simp
  have g: "p = (if hd (suf @ [?e]) = ?e then next_of h ?e else hd (suf @ [?e])) \<and>
      h' = h\<lparr>lists := (lists h)(l := (lists h l)\<lparr>pxIndex := p\<rparr>)\<rparr>"
    using assms(3,4) nx by (auto simp: listGET_OWNER_OF_NEXT_ENTRY_def Let_def set_index_def split: if_splits)
  have p: "p = hd (suf @ pre)"
    using g first r(2) assms(2) by (cases suf; cases pre) auto
  then have "p \<in> set (pre @ suf)" using assms(2) by (cases suf; cases pre) auto
  moreover have "seg h' ?e (pre @ suf) ?e"
    using g by (intro seg_frame [OF _ _ r(1)]) auto
  ultimately show ?thesis using assms(1) g p by (auto simp: is_list_def)
qed

lemma sorted_insert:
  "sorted (map f (a @ b)) \<Longrightarrow> \<forall>y \<in> set a. f y \<le> f x \<Longrightarrow> \<forall>y \<in> set b. f x < f y \<Longrightarrow> sorted (map f (a @ x # b))"
  for f :: "'a \<Rightarrow> 'b :: linorder"
  by (auto simp: sorted_append less_imp_le)

lemma vListInsert_ordered:
  assumes "is_list h l xs" "x \<notin> set (End l # xs)" "length xs + 1 < 2 ^ 32" "sorted (map (value_of h) xs)"
  shows "\<exists>h' pre suf. vListInsert l x h = Some h' \<and> xs = pre @ suf \<and> is_list h' l (pre @ x # suf) \<and>
    (\<forall>y \<in> set pre. value_of h y \<le> value_of h x) \<and> (\<forall>y \<in> set suf. value_of h x < value_of h y) \<and>
    sorted (map (value_of h') (pre @ x # suf)) \<and> pxIndex (lists h' l) = pxIndex (lists h l)"
proof -
  let ?P = "\<lambda>y. value_of h y \<le> value_of h x"
  let ?pre = "takeWhile ?P xs" let ?suf = "dropWhile ?P xs"
  obtain h' where h': "vListInsert l x h = Some h'" "is_list h' l (?pre @ x # ?suf)"
    "\<And>q. value_of h' q = value_of h q"
    "pxIndex (lists h' l) = pxIndex (lists h l)"
    using vListInsert_is_list [OF assms(1-3), of ?pre ?suf] by (auto simp: insert_point_def)
  have pre: "\<forall>y \<in> set ?pre. ?P y" by (auto dest: set_takeWhileD)
  have suf: "\<forall>y \<in> set ?suf. value_of h x < value_of h y"
  proof (cases ?suf)
    case (Cons z zs)
    then have "\<not> ?P z" by (metis hd_dropWhile list.sel(1) list.distinct(1))
    moreover have "sorted (map (value_of h) (z # zs))"
      using assms(4) Cons by (metis map_append sorted_append takeWhile_dropWhile_id)
    ultimately show ?thesis using Cons by auto
  next
    case Nil
    then show ?thesis by (simp only: list.set(1) ball_empty)
  qed
  have "sorted (map (value_of h) (?pre @ ?suf))" using assms(4) by simp
  then have so: "sorted (map (value_of h') (?pre @ x # ?suf))"
    unfolding h'(3) using pre suf by (rule sorted_insert)
  have xs: "xs = ?pre @ ?suf" by (rule takeWhile_dropWhile_id [symmetric])
  show ?thesis
    by (rule exI [of _ h'], rule exI [of _ ?pre], rule exI [of _ ?suf], intro conjI)
      (rule h'(1) xs h'(2) pre suf so h'(4))+
qed

section \<open>Properties\<close>

text \<open>
  Insertion by value implements insertion into an ordered list: in a list ordered by value the new item is put in
  order, behind the items of the same value; the loop that looks for the place ends, no other item moves,
  and the back links, the containers, the count and the index stay right.
\<close>

theorem vListInsert_sorted:
  assumes "is_list h l xs" "x \<notin> set (End l # xs)" "length xs + 1 < 2 ^ 32" "sorted (map (value_of h) xs)"
  shows "\<exists>h' pre suf. vListInsert l x h = Some h' \<and> xs = pre @ suf \<and> is_list h' l (pre @ x # suf) \<and>
    (\<forall>y \<in> set pre. value_of h y \<le> value_of h x) \<and> (\<forall>y \<in> set suf. value_of h x < value_of h y) \<and>
    sorted (map (value_of h') (pre @ x # suf))"
  using vListInsert_ordered [OF assms] by blast

text \<open>A store with one list of two items, of the values 3 and 7.\<close>

definition example_store :: "tick \<Rightarrow> store option" where
  "example_store v = do {
     let h = \<lparr>items = (\<lambda>_. \<lparr>xItemValue = 0, pxNext = End 9, pxPrevious = End 9, pvContainer = None\<rparr>),
               lists = (\<lambda>_. \<lparr>uxNumberOfItems = 0, pxIndex = End 9\<rparr>)\<rparr>;
     let h = vListInitialise 0 h;
     let h = set_value (Item 1) 7 (set_value (Item 2) 3 (set_value (Item 3) v h));
     h \<leftarrow> vListInsert 0 (Item 1) h;
     vListInsert 0 (Item 2) h }"


lemma example_store_list:
  obtains h where "example_store v = Some h" "is_list h 0 [Item 2, Item 1]"
    "value_of h (Item 1) = 7" "value_of h (Item 2) = 3" "value_of h (Item 3) = v" "pxIndex (lists h 0) = End 0"
proof -
  define h0 where "h0 = set_value (Item 1) 7 (set_value (Item 2) 3 (set_value (Item 3) v (vListInitialise 0
    \<lparr>items = (\<lambda>_. \<lparr>xItemValue = 0, pxNext = End 9, pxPrevious = End 9, pvContainer = None\<rparr>),
     lists = (\<lambda>_. \<lparr>uxNumberOfItems = 0, pxIndex = End 9\<rparr>)\<rparr>)))"
  have h0: "is_list h0 0 []" "value_of h0 (Item 1) = 7" "value_of h0 (Item 2) = 3" "value_of h0 (Item 3) = v"
    "pxIndex (lists h0 0) = End 0"
    by (simp_all add: h0_def is_list_def vListInitialise_def Let_def store_simps)
  obtain h1 where h1: "vListInsert 0 (Item 1) h0 = Some h1" "is_list h1 0 [Item 1]"
    "\<And>q. value_of h1 q = value_of h0 q" "pxIndex (lists h1 0) = pxIndex (lists h0 0)"
    using vListInsert_is_list [OF h0(1), of "Item 1" "[]" "[]"] by (auto simp: insert_point_def)
  obtain h2 where "vListInsert 0 (Item 2) h1 = Some h2" "is_list h2 0 [Item 2, Item 1]"
    "\<And>q. value_of h2 q = value_of h1 q" "pxIndex (lists h2 0) = pxIndex (lists h1 0)"
    using vListInsert_is_list [OF h1(2), of "Item 2" "[]" "[Item 1]"] h1(3) h0 by (auto simp: insert_point_def)
  moreover have "example_store v = Option.bind (vListInsert 0 (Item 1) h0) (vListInsert 0 (Item 2))"
    unfolding example_store_def Let_def h0_def by (rule refl)
  ultimately show thesis using h0 h1 by (intro that [of h2]) simp_all
qed

theorem vListInsert_sorted_witness:
  "\<exists>h. example_store 3 = Some h \<and>
    (\<exists>h' pre suf. vListInsert 0 (Item 3) h = Some h' \<and> [Item 2, Item 1] = pre @ suf \<and>
      is_list h' 0 (pre @ Item 3 # suf) \<and> (\<forall>y \<in> set pre. value_of h y \<le> value_of h (Item 3)) \<and>
      (\<forall>y \<in> set suf. value_of h (Item 3) < value_of h y) \<and> sorted (map (value_of h') (pre @ Item 3 # suf)))"
proof -
  obtain h where h: "example_store 3 = Some h" "is_list h 0 [Item 2, Item 1]"
    "value_of h (Item 1) = 7" "value_of h (Item 2) = 3" "value_of h (Item 3) = 3"
    by (rule example_store_list)
  have "sorted (map (value_of h) [Item 2, Item 1])" using h by simp
  from vListInsert_sorted [OF h(2) _ _ this, of "Item 3"] h(1) show ?thesis by simp
qed

text \<open>
  Insertion at the end: wherever the index stands, the new item comes right before it in the ring, so that it is
  the last one the walk through the ring will reach; nothing else moves.
\<close>

theorem vListInsertEnd_before_index:
  assumes "is_list h l (pre @ suf)" "pxIndex (lists h l) = hd (suf @ [End l])"
    and "x \<notin> set (End l # pre @ suf)" "length (pre @ suf) + 1 < 2 ^ 32"
  shows "is_list (vListInsertEnd l x h) l (pre @ x # suf) \<and>
    pxIndex (lists (vListInsertEnd l x h) l) = pxIndex (lists h l)"
  using vListInsertEnd_is_list [OF assms] by simp

theorem vListInsertEnd_before_index_witness:
  "\<exists>h. example_store 3 = Some h \<and> is_list (vListInsertEnd 0 (Item 3) h) 0 ([Item 2, Item 1] @ Item 3 # []) \<and>
    pxIndex (lists (vListInsertEnd 0 (Item 3) h) 0) = pxIndex (lists h 0)"
proof -
  obtain h where h: "example_store 3 = Some h" "is_list h 0 [Item 2, Item 1]" "pxIndex (lists h 0) = End 0"
    by (rule example_store_list)
  from vListInsertEnd_before_index [of h 0 "[Item 2, Item 1]" "[]" "Item 3"] h show ?thesis by simp
qed

text \<open>
  Removal: an item on a list is unlinked from it, wherever it is, the rest keeps its order, the result is the number
  of items left, the item is on no list, and the index, if it stood on the item, steps back.
\<close>

theorem uxListRemove_removes:
  assumes "is_list h l (pre @ x # suf)"
  shows "\<exists>h'. uxListRemove x h = Some (word_of_nat (length (pre @ suf)), h') \<and> is_list h' l (pre @ suf) \<and>
    container_of h' x = None \<and>
    pxIndex (lists h' l) = (if pxIndex (lists h l) = x then last (End l # pre) else pxIndex (lists h l))"
  using uxListRemove_is_list [OF assms] by blast

theorem uxListRemove_removes_witness:
  "\<exists>h h'. example_store 3 = Some h \<and> uxListRemove (Item 1) h = Some (1, h') \<and> is_list h' 0 [Item 2]"
proof -
  obtain h where h: "example_store 3 = Some h" "is_list h 0 [Item 2, Item 1]" by (rule example_store_list)
  from uxListRemove_removes [of h 0 "[Item 2]" "Item 1" "[]"] h show ?thesis by auto
qed

text \<open>
  The walk through a ring, by which the scheduler gives tasks of one priority their turns, reaches the items in the
  order of the ring and begins again after the last, the end marker being passed over.
\<close>

theorem listGET_OWNER_OF_NEXT_ENTRY_round_robin:
  assumes "is_list h l (pre @ suf)" "pre @ suf \<noteq> []" "pxIndex (lists h l) = last (End l # pre)"
    and "listGET_OWNER_OF_NEXT_ENTRY l h = (p, h')"
  shows "p = hd (suf @ pre) \<and> is_list h' l (pre @ suf) \<and> pxIndex (lists h' l) = p"
  using listGET_OWNER_OF_NEXT_ENTRY_next [OF assms] by blast


theorem listGET_OWNER_OF_NEXT_ENTRY_round_robin_witness:
  "\<exists>h h'. example_store 3 = Some h \<and> listGET_OWNER_OF_NEXT_ENTRY 0 h = (Item 2, h') \<and>
     is_list h' 0 [Item 2, Item 1] \<and> pxIndex (lists h' 0) = Item 2"
proof -
  obtain h where h: "example_store 3 = Some h" "is_list h 0 [Item 2, Item 1]" "pxIndex (lists h 0) = End 0"
    by (rule example_store_list)
  obtain p h' where g: "listGET_OWNER_OF_NEXT_ENTRY 0 h = (p, h')" by force
  from listGET_OWNER_OF_NEXT_ENTRY_round_robin [of h 0 "[]" "[Item 2, Item 1]", OF _ _ _ g] h g
  show ?thesis by auto
qed

end
