(* ===== verification/Rtos_Store.thy ===== *)
theory Rtos_Store
  imports Rtos_List
begin

text \<open>
  Many lists in one store. An operation of \<open>list.c\<close> on one list only writes the ring of that list and the item it
  moves, so the other lists keep their contents: \<open>holds\<close> says what the lists of a kernel contain, and each
  operation has one lemma that says how the contents change. The kernel components prove their
  invariants over contents and never look at a pointer.
\<close>

section \<open>What an operation leaves alone\<close>

text \<open>From \<open>h\<close> to \<open>h'\<close> only the ring \<open>S\<close> of list \<open>l\<close> and the item \<open>x\<close> were written; \<open>x\<close> is now in \<open>c\<close>.\<close>

definition changed :: "store \<Rightarrow> store \<Rightarrow> nat \<Rightarrow> ptr \<Rightarrow> nat option \<Rightarrow> ptr set \<Rightarrow> bool" where
  "changed h h' l x c S \<longleftrightarrow> (\<forall>q. q \<notin> insert x S \<longrightarrow> items h' q = items h q) \<and>
     (\<forall>q. value_of h' q = value_of h q) \<and>
     (\<forall>q. container_of h' q = (if q = x then c else container_of h q)) \<and>
     (\<forall>m. m \<noteq> l \<longrightarrow> lists h' m = lists h m)"

lemma ring_next: "seg h e xs e \<Longrightarrow> q \<in> set (e # xs) \<Longrightarrow> next_of h q \<in> set (e # xs)"
proof -
  have "seg h a xs b \<Longrightarrow> q \<in> set (a # xs) \<Longrightarrow> next_of h q \<in> set (xs @ [b])" for a b
    by (induction xs arbitrary: a) auto
  then show "seg h e xs e \<Longrightarrow> q \<in> set (e # xs) \<Longrightarrow> next_of h q \<in> set (e # xs)" by fastforce
qed

lemma ring_prev: "seg h e xs e \<Longrightarrow> q \<in> set (e # xs) \<Longrightarrow> prev_of h q \<in> set (e # xs)"
proof -
  have "seg h a xs b \<Longrightarrow> q \<in> set (xs @ [b]) \<Longrightarrow> prev_of h q \<in> set (a # xs)" for a b
    by (induction xs arbitrary: a) auto
  then show "seg h e xs e \<Longrightarrow> q \<in> set (e # xs) \<Longrightarrow> prev_of h q \<in> set (e # xs)" by fastforce
qed

lemma vListInsertEnd_changed:
  assumes "is_list h l xs" "x \<notin> set (End l # xs)"
  shows "changed h (vListInsertEnd l x h) l x (Some l) (set (End l # xs))"
proof -
  define n where "n = pxIndex (lists h l)"
  have n: "n \<in> set (End l # xs)" using assms(1) by (simp add: is_list_def n_def)
  have p: "prev_of h n \<in> set (End l # xs)"
    using assms(1) n by (intro ring_prev) (simp_all add: is_list_def)
  have "n \<noteq> x" "prev_of h n \<noteq> x" using n p assms(2) by auto
  then show ?thesis
    using n p by (auto simp: changed_def vListInsertEnd_def Let_def store_simps simp flip: n_def)
qed

lemma vListInsert_changed:
  assumes "is_list h l xs" "x \<notin> set (End l # xs)" "vListInsert l x h = Some h'"
  shows "changed h h' l x (Some l) (set (End l # xs))"
proof -
  let ?v = "value_of h x" let ?R = "set (End l # xs)"
  have r: "seg h (End l) xs (End l)" and mx: "value_of h (End l) = MAX_VALUE"
    using assms(1) by (simp_all add: is_list_def)
  obtain p where p: "(if ?v = MAX_VALUE then Some (prev_of h (End l)) else find_iterator h ?v (End l)) = Some p"
    using assms(3) by (auto simp: vListInsert_def Let_def simp del: if_split split: bind_splits)
  have "p \<in> ?R"
  proof (cases "?v = MAX_VALUE")
    case True
    with p r show ?thesis using ring_prev [of h "End l" xs "End l"] by simp
  next
    case False
    then have "?v < MAX_VALUE" by (simp add: order_less_le le_MAX_VALUE)
    from find_iterator_seg [OF this mx r] False p
    have "p = last (End l # takeWhile (\<lambda>y. value_of h y \<le> ?v) xs)" by simp
    moreover have "last (End l # takeWhile (\<lambda>y. value_of h y \<le> ?v) xs) \<in> ?R"
      by (metis (no_types, lifting) last_in_set list.distinct(1) list.set_intros(1) list.set_intros(2)
          set_ConsD set_takeWhileD)
    ultimately show ?thesis by simp
  qed
  moreover define n where "n = next_of h p"
  ultimately have "n \<in> ?R" unfolding n_def by (intro ring_next [OF r])
  with \<open>p \<in> ?R\<close> assms(2) have "n \<noteq> x" "p \<noteq> x" by auto
  then have "h' = (let h = set_next x n h; h = set_prev n x h; h = set_prev x p h; h = set_next p x h;
     h = set_container x (Some l) h in set_count l (uxNumberOfItems (lists h l) + 1) h)"
    using assms(3) p by (simp add: vListInsert_def Let_def store_simps n_def)
  then show ?thesis
    using \<open>p \<in> ?R\<close> \<open>n \<in> ?R\<close> by (auto simp: changed_def Let_def store_simps)
qed

lemma uxListRemove_changed:
  assumes "is_list h l xs" "x \<in> set xs" "uxListRemove x h = Some (r, h')"
  shows "changed h h' l x None (set (End l # xs))"
proof -
  let ?R = "set (End l # xs)"
  have s: "seg h (End l) xs (End l)" "container_of h x = Some l" "distinct (End l # xs)"
    using assms(1,2) by (simp_all add: is_list_def)
  define p n where "p = prev_of h x" and "n = next_of h x"
  have "p \<in> ?R" "n \<in> ?R"
    unfolding p_def n_def using assms(2) by (intro ring_prev [OF s(1)] ring_next [OF s(1)]; simp)+
  moreover obtain pre suf where xs: "xs = pre @ x # suf" using split_list [OF assms(2)] by auto
  have "p = last (End l # pre)" "n = hd (suf @ [End l])"
    using s(1) seg_last [of h "End l" pre x] seg_first [of h x suf "End l"]
    by (auto simp: xs seg_append p_def n_def)
  then have "p \<noteq> x" "n \<noteq> x"
    using s(3) by (auto simp: xs hd_append split: if_splits)
  ultimately show ?thesis
    using assms(3) s(2)
    by (auto simp: changed_def uxListRemove_def Let_def store_simps simp flip: p_def n_def split: if_splits)
qed

section \<open>The contents of the lists\<close>

text \<open>
  The lists \<open>L\<close> are rings of items below \<open>n\<close> and contain \<open>f\<close>; an item that names a list as its container is on it.
\<close>

definition holds :: "nat set \<Rightarrow> nat \<Rightarrow> store \<Rightarrow> (nat \<Rightarrow> ptr list) \<Rightarrow> bool" where
  "holds L n h f \<longleftrightarrow> n < 2 ^ 32 \<and> (\<forall>l \<in> L. is_list h l (f l) \<and> set (f l) \<subseteq> Item ` {..<n}) \<and>
     (\<forall>i < n. \<forall>l. container_of h (Item i) = Some l \<longrightarrow> l \<in> L \<and> Item i \<in> set (f l))"

lemma holds_is_list: "holds L n h f \<Longrightarrow> l \<in> L \<Longrightarrow> is_list h l (f l)"
  by (simp add: holds_def)

lemma holds_container:
  "holds L n h f \<Longrightarrow> i < n \<Longrightarrow> l \<in> L \<Longrightarrow> container_of h (Item i) = Some l \<longleftrightarrow> Item i \<in> set (f l)"
  unfolding holds_def is_list_def by blast

lemma holds_distinct: "holds L n h f \<Longrightarrow> l \<in> L \<Longrightarrow> distinct (f l)"
  by (simp add: holds_def is_list_def)

lemma holds_item: "holds L n h f \<Longrightarrow> l \<in> L \<Longrightarrow> x \<in> set (f l) \<Longrightarrow> \<exists>i < n. x = Item i"
  by (auto simp: holds_def)

lemma holds_disjoint: "holds L n h f \<Longrightarrow> l \<in> L \<Longrightarrow> m \<in> L \<Longrightarrow> x \<in> set (f l) \<Longrightarrow> x \<in> set (f m) \<Longrightarrow> l = m"
  by (metis holds_container holds_item option.inject)

lemma holds_count: "holds L n h f \<Longrightarrow> l \<in> L \<Longrightarrow> uxNumberOfItems (lists h l) = 0 \<longleftrightarrow> f l = []"
proof -
  assume a: "holds L n h f" "l \<in> L"
  have e: "uxNumberOfItems (lists h l) = word_of_nat (length (f l))" "length (f l) < 2 ^ 32"
    using holds_is_list [OF a] by (simp_all add: is_list_def)
  have "(word_of_nat (length (f l)) :: 32 word) = 0 \<longleftrightarrow> 2 ^ 32 dvd length (f l)"
    by (simp add: word_of_nat_eq_0_iff)
  also have "\<dots> \<longleftrightarrow> length (f l) = 0" using e(2) nat_dvd_not_less [of "length (f l)" "2 ^ 32"] by (cases "length (f l) = 0") auto
  finally show ?thesis using e(1) by simp
qed

lemma holds_room:
  assumes "holds L n h f" "l \<in> L" "i < n" "Item i \<notin> set (f l)"
  shows "length (f l) + 1 < 2 ^ 32"
proof -
  have "set (Item i # f l) \<subseteq> Item ` {..<n}" "distinct (Item i # f l)"
    using assms(3,4) holds_distinct [OF assms(1,2)] assms(1,2) by (auto simp: holds_def)
  then have "length (Item i # f l) \<le> n"
    by (metis card_image_le card_lessThan card_mono distinct_card finite_imageI finite_lessThan order_trans)
  then show ?thesis using assms(1) by (simp add: holds_def)
qed

lemma is_list_same:
  "\<forall>q \<in> set (End l # xs). items h' q = items h q \<Longrightarrow> lists h' l = lists h l \<Longrightarrow> is_list h l xs \<Longrightarrow> is_list h' l xs"
  using seg_frame [of "End l" xs h' h "End l"] by (simp add: is_list_def)

text \<open>Every operation on the list \<open>l\<close> and the item \<open>Item i\<close> changes the contents of \<open>l\<close> only.\<close>

lemma holds_changed:
  assumes "holds L n h f" "l \<in> L" "i < n" "changed h h' l (Item i) c (set (End l # f l))"
    and "container_of h (Item i) = None \<or> container_of h (Item i) = Some l"
    and "is_list h' l ys" "set ys \<subseteq> insert (Item i) (set (f l))"
    and "set (f l) \<subseteq> insert (Item i) (set ys)" "c = (if Item i \<in> set ys then Some l else None)"
  shows "holds L n h' (f(l := ys))"
proof -
  have "is_list h' m (f m)" if m: "m \<in> L" "m \<noteq> l" for m
  proof (rule is_list_same [OF _ _ holds_is_list [OF assms(1) m(1)]])
    have "q \<notin> set (End l # f l)" if "q \<in> set (End m # f m)" for q
      using that m assms(1,2) holds_disjoint [OF assms(1,2) m(1)] by (auto dest: holds_item)
    moreover have "q \<noteq> Item i" if "q \<in> set (End m # f m)" for q
      using that assms(1,3,5) m holds_container [OF assms(1,3) m(1)] by auto
    ultimately show "\<forall>q \<in> set (End m # f m). items h' q = items h q"
      using assms(4) by (auto simp: changed_def)
    show "lists h' m = lists h m" using assms(4) m by (simp add: changed_def)
  qed
  moreover have "set ys \<subseteq> Item ` {..<n}" using assms(1,2,3,7) by (auto simp: holds_def)
  moreover have "Item j \<in> set ys"
    if "j < n" "j \<noteq> i" "container_of h (Item j) = Some l" for j
  proof -
    have "Item j \<in> set (f l)" using that assms(1) unfolding holds_def by blast
    then show ?thesis using that(2) assms(8) by auto
  qed
  ultimately show ?thesis
    using assms(1,2,4,6,9) by (auto simp: holds_def changed_def split: if_splits)
qed

text \<open>What an operation on \<open>Item i\<close> tells its caller about values, containers and the other indexes.\<close>

definition moved :: "store \<Rightarrow> store \<Rightarrow> nat \<Rightarrow> nat \<Rightarrow> nat option \<Rightarrow> bool" where
  "moved h h' l i c \<longleftrightarrow> (\<forall>q. value_of h' q = value_of h q) \<and>
     (\<forall>q. container_of h' q = (if q = Item i then c else container_of h q)) \<and>
     (\<forall>m. m \<noteq> l \<longrightarrow> lists h' m = lists h m)"

lemma changed_moved: "changed h h' l (Item i) c S \<Longrightarrow> moved h h' l i c"
  by (simp add: changed_def moved_def)

lemma holds_insert_end:
  assumes "holds L n h f" "l \<in> L" "i < n" "container_of h (Item i) = None"
  shows "\<exists>pre suf. f l = pre @ suf \<and> holds L n (vListInsertEnd l (Item i) h) (f(l := pre @ Item i # suf)) \<and>
    moved h (vListInsertEnd l (Item i) h) l i (Some l) \<and> pxIndex (lists (vListInsertEnd l (Item i) h) l) = pxIndex (lists h l) \<and>
    pxIndex (lists h l) = hd (suf @ [End l])"
proof -
  let ?h = "vListInsertEnd l (Item i) h"
  have il: "is_list h l (f l)" using assms(1,2) by (rule holds_is_list)
  have ni: "Item i \<notin> set (End l # f l)" using assms holds_container [of L n h f i l] by auto
  obtain pre suf where ps: "f l = pre @ suf" "pxIndex (lists h l) = hd (suf @ [End l])"
  proof (cases "pxIndex (lists h l) = End l")
    case True
    then show ?thesis using that [of "f l" "[]"] by simp
  next
    case False
    then have "pxIndex (lists h l) \<in> set (f l)" using il by (auto simp: is_list_def)
    then obtain pre suf where "f l = pre @ pxIndex (lists h l) # suf" by (meson split_list)
    then show ?thesis using that [of pre "pxIndex (lists h l) # suf"] by simp
  qed
  have room: "length (pre @ suf) + 1 < 2 ^ 32"
    using holds_room [OF assms(1,2,3)] ni ps(1) by simp
  have new: "is_list ?h l (pre @ Item i # suf)" "pxIndex (lists ?h l) = pxIndex (lists h l)"
    using vListInsertEnd_is_list [of h l pre suf "Item i"] il ni ps room by simp_all
  have ch: "changed h ?h l (Item i) (Some l) (set (End l # f l))"
    using il ni by (rule vListInsertEnd_changed)
  have "holds L n ?h (f(l := pre @ Item i # suf))"
    by (rule holds_changed [OF assms(1-3) ch _ new(1)]) (use assms(4) ps(1) in auto)
  with ps new(2) changed_moved [OF ch] show ?thesis by auto
qed

lemma holds_insert:
  assumes "holds L n h f" "l \<in> L" "i < n" "container_of h (Item i) = None" "sorted (map (value_of h) (f l))"
  shows "\<exists>h' pre suf. vListInsert l (Item i) h = Some h' \<and> f l = pre @ suf \<and>
    holds L n h' (f(l := pre @ Item i # suf)) \<and> moved h h' l i (Some l) \<and> pxIndex (lists h' l) = pxIndex (lists h l) \<and>
    (\<forall>y \<in> set pre. value_of h y \<le> value_of h (Item i)) \<and> (\<forall>y \<in> set suf. value_of h (Item i) < value_of h y) \<and>
    sorted (map (value_of h') (pre @ Item i # suf))"
proof -
  let ?P = "\<lambda>y. value_of h y \<le> value_of h (Item i)"
  have il: "is_list h l (f l)" using assms(1,2) by (rule holds_is_list)
  have ni: "Item i \<notin> set (End l # f l)" using assms(1-4) holds_container [of L n h f i l] by auto
  have room: "length (f l) + 1 < 2 ^ 32" using holds_room [OF assms(1,2,3)] ni by simp
  obtain h' pre suf where h': "vListInsert l (Item i) h = Some h'" "f l = pre @ suf"
    "is_list h' l (pre @ Item i # suf)" "\<forall>y \<in> set pre. ?P y" "\<forall>y \<in> set suf. value_of h (Item i) < value_of h y"
    "sorted (map (value_of h') (pre @ Item i # suf))" "pxIndex (lists h' l) = pxIndex (lists h l)"
    using vListInsert_ordered [OF il ni room assms(5)] by blast
  have ch: "changed h h' l (Item i) (Some l) (set (End l # f l))"
    using il ni h'(1) by (rule vListInsert_changed)
  have "holds L n h' (f(l := pre @ Item i # suf))"
    by (rule holds_changed [OF assms(1-3) ch _ h'(3)]) (use assms(4) h'(2) in auto)
  with h' changed_moved [OF ch] show ?thesis by blast
qed

text \<open>An insertion by value works on any list, but only an ordered one is ordered afterwards.\<close>

lemma holds_insert_any:
  assumes "holds L n h f" "l \<in> L" "i < n" "container_of h (Item i) = None"
  shows "\<exists>h' pre suf. vListInsert l (Item i) h = Some h' \<and> f l = pre @ suf \<and>
    holds L n h' (f(l := pre @ Item i # suf)) \<and> moved h h' l i (Some l) \<and>
    insert_point h (value_of h (Item i)) (f l) = (pre, suf)"
proof -
  have il: "is_list h l (f l)" using assms(1,2) by (rule holds_is_list)
  have ni: "Item i \<notin> set (End l # f l)" using assms(1-4) holds_container [of L n h f i l] by auto
  have room: "length (f l) + 1 < 2 ^ 32" using holds_room [OF assms(1,2,3)] ni by simp
  obtain pre suf where ip: "insert_point h (value_of h (Item i)) (f l) = (pre, suf)" by fastforce
  then have fl: "f l = pre @ suf" by (auto simp: insert_point_def)
  obtain h' where h': "vListInsert l (Item i) h = Some h'" "is_list h' l (pre @ Item i # suf)"
    using vListInsert_is_list [OF il ni room ip] by blast
  have ch: "changed h h' l (Item i) (Some l) (set (End l # f l))"
    using il ni h'(1) by (rule vListInsert_changed)
  have "holds L n h' (f(l := pre @ Item i # suf))"
    by (rule holds_changed [OF assms(1-3) ch _ h'(2)]) (use assms(4) fl in auto)
  with h' ip fl changed_moved [OF ch] show ?thesis by blast
qed

lemma holds_remove:
  assumes "holds L n h f" "l \<in> L" "i < n" "container_of h (Item i) = Some l"
  shows "\<exists>h'. uxListRemove (Item i) h = Some (word_of_nat (length (remove1 (Item i) (f l))), h') \<and>
    holds L n h' (f(l := remove1 (Item i) (f l))) \<and> moved h h' l i None \<and>
    pxIndex (lists h' l) \<in> set (End l # remove1 (Item i) (f l))"
proof -
  have il: "is_list h l (f l)" using assms(1,2) by (rule holds_is_list)
  have mem: "Item i \<in> set (f l)" using assms holds_container by blast
  then obtain pre suf where ps: "f l = pre @ Item i # suf" "Item i \<notin> set pre" by (meson split_list_first)
  then have rm: "remove1 (Item i) (f l) = pre @ suf" by (simp add: remove1_append)
  obtain h' where h': "uxListRemove (Item i) h = Some (word_of_nat (length (pre @ suf)), h')" "is_list h' l (pre @ suf)"
    using uxListRemove_is_list [of h l pre "Item i" suf] il ps(1) by auto
  have ch: "changed h h' l (Item i) None (set (End l # f l))"
    using il mem h'(1) by (rule uxListRemove_changed)
  have d: "distinct (f l)" using assms(1,2) by (rule holds_distinct)
  have "holds L n h' (f(l := pre @ suf))"
    by (rule holds_changed [OF assms(1-3) ch _ h'(2)]) (use assms(4) ps d in auto)
  moreover have "pxIndex (lists h' l) \<in> set (End l # pre @ suf)" using h'(2) by (simp add: is_list_def)
  ultimately show ?thesis using h'(1) changed_moved [OF ch] by (auto simp: rm)
qed

text \<open>The walk moves the index of one list and nothing else.\<close>

lemma holds_next:
  assumes "holds L n h f" "l \<in> L" "f l \<noteq> []" "listGET_OWNER_OF_NEXT_ENTRY l h = (p, h')"
  shows "p \<in> set (f l) \<and> holds L n h' f \<and> items h' = items h"
proof -
  have il: "is_list h l (f l)" using assms(1,2) by (rule holds_is_list)
  obtain pre suf where ps: "f l = pre @ suf" "pxIndex (lists h l) = last (End l # pre)"
  proof (cases "pxIndex (lists h l) = End l")
    case True
    then show ?thesis using that [of "[]" "f l"] by simp
  next
    case False
    then have "pxIndex (lists h l) \<in> set (f l)" using il by (auto simp: is_list_def)
    then obtain a b where ab: "f l = a @ pxIndex (lists h l) # b" by (meson split_list)
    then show ?thesis using that [of "a @ [pxIndex (lists h l)]" b] by simp
  qed
  have nx: "p = hd (suf @ pre) \<and> is_list h' l (pre @ suf) \<and> pxIndex (lists h' l) = p \<and> items h' = items h"
    using listGET_OWNER_OF_NEXT_ENTRY_next [of h l pre suf p h'] il ps assms(3,4) by simp
  then have "p \<in> set (f l)" using assms(3) ps(1) by (cases suf; cases pre) auto
  moreover have oth: "lists h' m = lists h m" if "m \<noteq> l" for m
    using assms(4) that by (auto simp: listGET_OWNER_OF_NEXT_ENTRY_def Let_def store_simps split: if_splits)
  have "is_list h' m (f m)" if "m \<in> L" for m
  proof (cases "m = l")
    case True
    then show ?thesis using nx ps(1) by simp
  next
    case False
    with that show ?thesis
      using is_list_same [of m "f m" h' h] holds_is_list [OF assms(1) that] nx oth by simp
  qed
  then have "holds L n h' f" using assms(1) nx by (simp add: holds_def)
  ultimately show ?thesis using nx by blast
qed

end
