(* ===== verification/Rtos_Tasks.thy ===== *)
theory Rtos_Tasks
  imports Rtos_Store Rtos_Timeout
begin

text \<open>
  The scheduler of \<open>src/FreeRTOS/tasks.c\<close> with the configuration of \<open>src/FreeRTOSConfig.h\<close> (preemption and time
  slicing, ten priorities, mutexes, \<open>INCLUDE_vTaskSuspend\<close>, the task selection of the Cortex-M4F port): the file's
  static variables are the record \<open>kernel\<close>, the lists live in the store of \<open>Rtos_Store\<close>, and an operation is the
  sequence of assignments of the code. A task has two items, \<open>generic t\<close> for its state and \<open>event t\<close> for what it
  waits for. \<open>None\<close> is a failed \<open>configASSERT\<close>, a \<open>NULL\<close> pointer or a list operation on an item without a
  list. A critical section is one step; \<open>portYIELD\<close> sets the pending bit of PendSV, whose handler calls
  \<open>vTaskSwitchContext\<close>.
\<close>

section \<open>State\<close>

abbreviation (input) configMAX_PRIORITIES :: nat where "configMAX_PRIORITIES \<equiv> 10"

text \<open>\<open>xGenericListItem\<close> and \<open>xEventListItem\<close>, and their owner; the end markers have none.\<close>

definition generic :: "nat \<Rightarrow> ptr" where "generic t = Item (2 * t)"
definition event :: "nat \<Rightarrow> ptr" where "event t = Item (2 * t + 1)"

fun owner_of :: "ptr \<Rightarrow> nat option" where
  "owner_of (Item i) = Some (i div 2)"
| "owner_of (End l) = None"

text \<open>
  The lists: \<open>pxReadyTasksLists[p]\<close> is list \<open>p\<close>, then come the two delayed lists, the pending ready list, the suspended
  tasks and the tasks waiting for termination; the event lists of queues and event groups are numbered from 15.
\<close>

abbreviation (input) xDelayedTaskList1 :: nat where "xDelayedTaskList1 \<equiv> 10"
abbreviation (input) xDelayedTaskList2 :: nat where "xDelayedTaskList2 \<equiv> 11"
abbreviation (input) xPendingReadyList :: nat where "xPendingReadyList \<equiv> 12"
abbreviation (input) xSuspendedTaskList :: nat where "xSuspendedTaskList \<equiv> 13"
abbreviation (input) xTasksWaitingTermination :: nat where "xTasksWaitingTermination \<equiv> 14"

record TCB =
  uxPriority :: nat
  uxBasePriority :: nat
  uxMutexesHeld :: "32 word"

record kernel =
  heap :: store
  tcb :: "nat \<Rightarrow> TCB"
  pxCurrentTCB :: "nat option"
  pxDelayedTaskList :: nat
  pxOverflowDelayedTaskList :: nat
  uxTopReadyPriority :: "32 word"
  counters :: ticks
  xNextTaskUnblockTime :: tick
  uxSchedulerSuspended :: "32 word"
  uxPendedTicks :: "32 word"
  xYieldPending :: bool
  xSchedulerRunning :: bool
  uxCurrentNumberOfTasks :: "32 word"
  pendsv :: bool

abbreviation now :: "kernel \<Rightarrow> tick" where "now k \<equiv> xTickCount (counters k)"
abbreviation priority_of :: "kernel \<Rightarrow> nat \<Rightarrow> nat" where "priority_of k t \<equiv> uxPriority (tcb k t)"

definition set_tcb :: "nat \<Rightarrow> (TCB \<Rightarrow> TCB) \<Rightarrow> kernel \<Rightarrow> kernel" where
  "set_tcb t f k = k\<lparr>tcb := (tcb k)(t := f (tcb k t))\<rparr>"

section \<open>Lists of the kernel\<close>

definition list_length :: "nat \<Rightarrow> kernel \<Rightarrow> 32 word" where
  "list_length l k = uxNumberOfItems (lists (heap k) l)"

definition list_is_empty :: "nat \<Rightarrow> kernel \<Rightarrow> bool" where
  "list_is_empty l k \<longleftrightarrow> list_length l k = 0"

text \<open>\<open>listGET_OWNER_OF_HEAD_ENTRY\<close>\<close>

definition head_owner :: "nat \<Rightarrow> kernel \<Rightarrow> nat option" where
  "head_owner l k = owner_of (next_of (heap k) (End l))"

definition list_insert_end :: "nat \<Rightarrow> ptr \<Rightarrow> kernel \<Rightarrow> kernel" where
  "list_insert_end l p k = k\<lparr>heap := vListInsertEnd l p (heap k)\<rparr>"

definition list_insert :: "nat \<Rightarrow> ptr \<Rightarrow> kernel \<Rightarrow> kernel option" where
  "list_insert l p k = map_option (\<lambda>h. k\<lparr>heap := h\<rparr>) (vListInsert l p (heap k))"

definition list_remove :: "ptr \<Rightarrow> kernel \<Rightarrow> (32 word \<times> kernel) option" where
  "list_remove p k = map_option (\<lambda>(n, h). (n, k\<lparr>heap := h\<rparr>)) (uxListRemove p (heap k))"

definition item_value :: "kernel \<Rightarrow> ptr \<Rightarrow> tick" where
  "item_value k p = value_of (heap k) p"

definition set_item_value :: "ptr \<Rightarrow> tick \<Rightarrow> kernel \<Rightarrow> kernel" where
  "set_item_value p v k = k\<lparr>heap := set_value p v (heap k)\<rparr>"

definition item_container :: "kernel \<Rightarrow> ptr \<Rightarrow> nat option" where
  "item_container k p = container_of (heap k) p"

section \<open>The ready bitmap of the port\<close>

definition portRECORD_READY_PRIORITY :: "nat \<Rightarrow> kernel \<Rightarrow> kernel" where
  "portRECORD_READY_PRIORITY p k = k\<lparr>uxTopReadyPriority := uxTopReadyPriority k OR push_bit p 1\<rparr>"

definition portRESET_READY_PRIORITY :: "nat \<Rightarrow> kernel \<Rightarrow> kernel" where
  "portRESET_READY_PRIORITY p k = k\<lparr>uxTopReadyPriority := uxTopReadyPriority k AND NOT (push_bit p 1)\<rparr>"

definition taskRESET_READY_PRIORITY :: "nat \<Rightarrow> kernel \<Rightarrow> kernel" where
  "taskRESET_READY_PRIORITY p k = (if list_length p k = 0 then portRESET_READY_PRIORITY p k else k)"

text \<open>\<open>31 - clz\<close> in the arithmetic of \<open>int\<close>, converted to \<open>UBaseType_t\<close>: no bit set gives an index outside the array.\<close>

definition clz :: "32 word \<Rightarrow> nat" where
  "clz w = length (takeWhile (\<lambda>i. \<not> bit w i) (rev [0..<32]))"

definition portGET_HIGHEST_PRIORITY :: "kernel \<Rightarrow> nat option" where
  "portGET_HIGHEST_PRIORITY k =
     (let n = clz (uxTopReadyPriority k) in if n \<le> 31 then Some (31 - n) else None)"

definition prvAddTaskToReadyList :: "nat \<Rightarrow> kernel \<Rightarrow> kernel" where
  "prvAddTaskToReadyList t k =
     list_insert_end (priority_of k t) (generic t) (portRECORD_READY_PRIORITY (priority_of k t) k)"

section \<open>Delays\<close>

definition prvResetNextTaskUnblockTime :: "kernel \<Rightarrow> kernel option" where
  "prvResetNextTaskUnblockTime k =
     (if list_is_empty (pxDelayedTaskList k) k then Some (k\<lparr>xNextTaskUnblockTime := portMAX_DELAY\<rparr>)
      else do {
        t \<leftarrow> head_owner (pxDelayedTaskList k) k;
        Some (k\<lparr>xNextTaskUnblockTime := item_value k (generic t)\<rparr>) })"

text \<open>The counters were advanced by \<open>increment_counters\<close>, which also counts the overflow.\<close>

definition taskSWITCH_DELAYED_LISTS :: "kernel \<Rightarrow> kernel option" where
  "taskSWITCH_DELAYED_LISTS k =
     (if \<not> list_is_empty (pxDelayedTaskList k) k then None
      else prvResetNextTaskUnblockTime
        (k\<lparr>pxDelayedTaskList := pxOverflowDelayedTaskList k, pxOverflowDelayedTaskList := pxDelayedTaskList k\<rparr>))"

definition prvAddCurrentTaskToDelayedList :: "tick \<Rightarrow> kernel \<Rightarrow> kernel option" where
  "prvAddCurrentTaskToDelayedList xTimeToWake k = do {
     t \<leftarrow> pxCurrentTCB k;
     let k = set_item_value (generic t) xTimeToWake k;
     if xTimeToWake < now k then list_insert (pxOverflowDelayedTaskList k) (generic t) k
     else do {
       k \<leftarrow> list_insert (pxDelayedTaskList k) (generic t) k;
       Some (if xTimeToWake < xNextTaskUnblockTime k then k\<lparr>xNextTaskUnblockTime := xTimeToWake\<rparr> else k) } }"

text \<open>
  How a call that blocks takes the running task off its ready list, and where it puts it: with the suspended tasks when it waits
  forever, on a delayed list otherwise.
\<close>

definition leave_ready_list :: "nat \<Rightarrow> kernel \<Rightarrow> kernel option" where
  "leave_ready_list t k = do {
     (n, k) \<leftarrow> list_remove (generic t) k;
     Some (if n = 0 then portRESET_READY_PRIORITY (priority_of k t) k else k) }"

definition block_current :: "bool \<Rightarrow> tick \<Rightarrow> kernel \<Rightarrow> kernel option" where
  "block_current forever ticksToWait k = do {
     t \<leftarrow> pxCurrentTCB k;
     if forever then Some (list_insert_end xSuspendedTaskList (generic t) k)
     else prvAddCurrentTaskToDelayedList (now k + ticksToWait) k }"

section \<open>Switching tasks\<close>

definition portYIELD :: "kernel \<Rightarrow> kernel" where
  "portYIELD k = k\<lparr>pendsv := True\<rparr>"

definition taskSELECT_HIGHEST_PRIORITY_TASK :: "kernel \<Rightarrow> kernel option" where
  "taskSELECT_HIGHEST_PRIORITY_TASK k = do {
     p \<leftarrow> portGET_HIGHEST_PRIORITY k;
     if list_length p k = 0 then None
     else do {
       let (q, h) = listGET_OWNER_OF_NEXT_ENTRY p (heap k);
       t \<leftarrow> owner_of q;
       Some (k\<lparr>heap := h, pxCurrentTCB := Some t\<rparr>) } }"

definition vTaskSwitchContext :: "kernel \<Rightarrow> kernel option" where
  "vTaskSwitchContext k =
     (if uxSchedulerSuspended k \<noteq> 0 then Some (k\<lparr>xYieldPending := True\<rparr>)
      else taskSELECT_HIGHEST_PRIORITY_TASK (k\<lparr>xYieldPending := False\<rparr>))"

section \<open>The tick\<close>

text \<open>The loop over the tasks whose time has come; the flag is \<open>xSwitchRequired\<close>.\<close>

partial_function (option) unblock_loop :: "tick \<Rightarrow> bool \<Rightarrow> kernel \<Rightarrow> (bool \<times> kernel) option" where
  "unblock_loop xConstTickCount sw k =
     (if list_is_empty (pxDelayedTaskList k) k then Some (sw, k\<lparr>xNextTaskUnblockTime := portMAX_DELAY\<rparr>)
      else do {
        t \<leftarrow> head_owner (pxDelayedTaskList k) k;
        if xConstTickCount < item_value k (generic t)
        then Some (sw, k\<lparr>xNextTaskUnblockTime := item_value k (generic t)\<rparr>)
        else do {
          (_, k) \<leftarrow> list_remove (generic t) k;
          k \<leftarrow> (if item_container k (event t) \<noteq> None then map_option snd (list_remove (event t) k) else Some k);
          let k = prvAddTaskToReadyList t k;
          cur \<leftarrow> pxCurrentTCB k;
          unblock_loop xConstTickCount (if priority_of k cur \<le> priority_of k t then True else sw) k } })"

declare unblock_loop.simps [code]

definition xTaskIncrementTick :: "kernel \<Rightarrow> (bool \<times> kernel) option" where
  "xTaskIncrementTick k =
     (if uxSchedulerSuspended k = 0 then do {
        let k = k\<lparr>counters := increment_counters (counters k)\<rparr>;
        let xConstTickCount = now k;
        k \<leftarrow> (if xConstTickCount = 0 then taskSWITCH_DELAYED_LISTS k else Some k);
        (sw, k) \<leftarrow> (if xNextTaskUnblockTime k \<le> xConstTickCount then unblock_loop xConstTickCount False k
                   else Some (False, k));
        cur \<leftarrow> pxCurrentTCB k;
        let sw = (if 1 < list_length (priority_of k cur) k then True else sw);
        Some (if xYieldPending k then True else sw, k) }
      else do {
        let k = k\<lparr>uxPendedTicks := uxPendedTicks k + 1\<rparr>;
        Some (xYieldPending k, k) })"

definition vTaskSuspendAll :: "kernel \<Rightarrow> kernel" where
  "vTaskSuspendAll k = k\<lparr>uxSchedulerSuspended := uxSchedulerSuspended k + 1\<rparr>"

text \<open>The two loops of \<open>xTaskResumeAll\<close>: the tasks readied meanwhile, and the ticks missed meanwhile.\<close>

partial_function (option) ready_pending :: "kernel \<Rightarrow> kernel option" where
  "ready_pending k =
     (if list_is_empty xPendingReadyList k then Some k
      else do {
        t \<leftarrow> head_owner xPendingReadyList k;
        (_, k) \<leftarrow> list_remove (event t) k;
        (_, k) \<leftarrow> list_remove (generic t) k;
        let k = prvAddTaskToReadyList t k;
        cur \<leftarrow> pxCurrentTCB k;
        ready_pending (if priority_of k cur \<le> priority_of k t then k\<lparr>xYieldPending := True\<rparr> else k) })"

declare ready_pending.simps [code]

partial_function (option) catch_up :: "kernel \<Rightarrow> kernel option" where
  "catch_up k =
     (if uxPendedTicks k = 0 then Some k
      else do {
        (sw, k) \<leftarrow> xTaskIncrementTick k;
        let k = (if sw then k\<lparr>xYieldPending := True\<rparr> else k);
        catch_up (k\<lparr>uxPendedTicks := uxPendedTicks k - 1\<rparr>) })"

declare catch_up.simps [code]

definition xTaskResumeAll :: "kernel \<Rightarrow> (bool \<times> kernel) option" where
  "xTaskResumeAll k =
     (if uxSchedulerSuspended k = 0 then None
      else do {
        let k = k\<lparr>uxSchedulerSuspended := uxSchedulerSuspended k - 1\<rparr>;
        if uxSchedulerSuspended k = 0 \<and> uxCurrentNumberOfTasks k > 0 then do {
          k \<leftarrow> ready_pending k;
          k \<leftarrow> catch_up k;
          Some (if xYieldPending k then (True, portYIELD k) else (False, k)) }
        else Some (False, k) })"

section \<open>Blocking calls\<close>

definition vTaskDelay :: "tick \<Rightarrow> kernel \<Rightarrow> kernel option" where
  "vTaskDelay xTicksToDelay k = do {
     (xAlreadyYielded, k) \<leftarrow>
       (if xTicksToDelay > 0 then
          if uxSchedulerSuspended k \<noteq> 0 then None
          else do {
            let k = vTaskSuspendAll k;
            t \<leftarrow> pxCurrentTCB k;
            let xTimeToWake = now k + xTicksToDelay;
            k \<leftarrow> leave_ready_list t k;
            k \<leftarrow> prvAddCurrentTaskToDelayedList xTimeToWake k;
            xTaskResumeAll k }
        else Some (False, k));
     Some (if \<not> xAlreadyYielded then portYIELD k else k) }"

text \<open>The new \<open>*pxPreviousWakeTime\<close> is returned with the state.\<close>

definition vTaskDelayUntil :: "tick \<Rightarrow> tick \<Rightarrow> kernel \<Rightarrow> (tick \<times> kernel) option" where
  "vTaskDelayUntil pxPreviousWakeTime xTimeIncrement k =
     (if \<not> xTimeIncrement > 0 \<or> uxSchedulerSuspended k \<noteq> 0 then None
      else do {
        let k = vTaskSuspendAll k;
        let xConstTickCount = now k;
        let xTimeToWake = pxPreviousWakeTime + xTimeIncrement;
        let xShouldDelay =
          (if xConstTickCount < pxPreviousWakeTime
           then xTimeToWake < pxPreviousWakeTime \<and> xTimeToWake > xConstTickCount
           else xTimeToWake < pxPreviousWakeTime \<or> xTimeToWake > xConstTickCount);
        k \<leftarrow> (if xShouldDelay then do {
               t \<leftarrow> pxCurrentTCB k;
               k \<leftarrow> leave_ready_list t k;
               prvAddCurrentTaskToDelayedList xTimeToWake k }
             else Some k);
        (xAlreadyYielded, k) \<leftarrow> xTaskResumeAll k;
        Some (xTimeToWake, if \<not> xAlreadyYielded then portYIELD k else k) })"

definition vTaskPlaceOnEventList :: "nat \<Rightarrow> tick \<Rightarrow> kernel \<Rightarrow> kernel option" where
  "vTaskPlaceOnEventList pxEventList ticksToWait k = do {
     t \<leftarrow> pxCurrentTCB k;
     k \<leftarrow> list_insert pxEventList (event t) k;
     k \<leftarrow> leave_ready_list t k;
     block_current (ticksToWait = portMAX_DELAY) ticksToWait k }"

abbreviation (input) taskEVENT_LIST_ITEM_VALUE_IN_USE :: tick where
  "taskEVENT_LIST_ITEM_VALUE_IN_USE \<equiv> 0x80000000"

definition vTaskPlaceOnUnorderedEventList :: "nat \<Rightarrow> tick \<Rightarrow> tick \<Rightarrow> kernel \<Rightarrow> kernel option" where
  "vTaskPlaceOnUnorderedEventList pxEventList itemValue ticksToWait k =
     (if uxSchedulerSuspended k = 0 then None
      else do {
        t \<leftarrow> pxCurrentTCB k;
        let k = set_item_value (event t) (itemValue OR taskEVENT_LIST_ITEM_VALUE_IN_USE) k;
        let k = list_insert_end pxEventList (event t) k;
        k \<leftarrow> leave_ready_list t k;
        block_current (ticksToWait = portMAX_DELAY) ticksToWait k })"

definition vTaskPlaceOnEventListRestricted :: "nat \<Rightarrow> tick \<Rightarrow> bool \<Rightarrow> kernel \<Rightarrow> kernel option" where
  "vTaskPlaceOnEventListRestricted pxEventList ticksToWait xWaitIndefinitely k = do {
     t \<leftarrow> pxCurrentTCB k;
     let k = list_insert_end pxEventList (event t) k;
     k \<leftarrow> leave_ready_list t k;
     block_current xWaitIndefinitely ticksToWait k }"

section \<open>Waking tasks\<close>

definition xTaskRemoveFromEventList :: "nat \<Rightarrow> kernel \<Rightarrow> (bool \<times> kernel) option" where
  "xTaskRemoveFromEventList pxEventList k = do {
     t \<leftarrow> head_owner pxEventList k;
     (_, k) \<leftarrow> list_remove (event t) k;
     k \<leftarrow> (if uxSchedulerSuspended k = 0 then do {
            (_, k) \<leftarrow> list_remove (generic t) k;
            Some (prvAddTaskToReadyList t k) }
          else Some (list_insert_end xPendingReadyList (event t) k));
     cur \<leftarrow> pxCurrentTCB k;
     Some (if priority_of k t > priority_of k cur then (True, k\<lparr>xYieldPending := True\<rparr>) else (False, k)) }"

definition xTaskRemoveFromUnorderedEventList :: "ptr \<Rightarrow> tick \<Rightarrow> kernel \<Rightarrow> (bool \<times> kernel) option" where
  "xTaskRemoveFromUnorderedEventList pxEventListItem itemValue k =
     (if uxSchedulerSuspended k = 0 then None
      else do {
        let k = set_item_value pxEventListItem (itemValue OR taskEVENT_LIST_ITEM_VALUE_IN_USE) k;
        t \<leftarrow> owner_of pxEventListItem;
        (_, k) \<leftarrow> list_remove pxEventListItem k;
        (_, k) \<leftarrow> list_remove (generic t) k;
        let k = prvAddTaskToReadyList t k;
        cur \<leftarrow> pxCurrentTCB k;
        Some (if priority_of k t > priority_of k cur then (True, k\<lparr>xYieldPending := True\<rparr>) else (False, k)) })"

definition vTaskMissedYield :: "kernel \<Rightarrow> kernel" where
  "vTaskMissedYield k = k\<lparr>xYieldPending := True\<rparr>"

text \<open>The value of the event item after a wait on an event group; the item gets its priority value back.\<close>

definition priority_value :: "nat \<Rightarrow> tick" where
  "priority_value p = word_of_nat configMAX_PRIORITIES - word_of_nat p"

definition uxTaskResetEventItemValue :: "kernel \<Rightarrow> (tick \<times> kernel) option" where
  "uxTaskResetEventItemValue k = do {
     t \<leftarrow> pxCurrentTCB k;
     Some (item_value k (event t), set_item_value (event t) (priority_value (priority_of k t)) k) }"

section \<open>Priorities and mutexes\<close>

definition prvGetTCBFromHandle :: "nat option \<Rightarrow> kernel \<Rightarrow> nat option" where
  "prvGetTCBFromHandle pxHandle k = (case pxHandle of None \<Rightarrow> pxCurrentTCB k | Some t \<Rightarrow> Some t)"

definition uxTaskPriorityGet :: "nat option \<Rightarrow> kernel \<Rightarrow> nat option" where
  "uxTaskPriorityGet xTask k = map_option (priority_of k) (prvGetTCBFromHandle xTask k)"

text \<open>The value of the event item is its priority unless an event group uses it.\<close>

definition set_event_priority :: "nat \<Rightarrow> nat \<Rightarrow> kernel \<Rightarrow> kernel" where
  "set_event_priority t p k =
     (if item_value k (event t) AND taskEVENT_LIST_ITEM_VALUE_IN_USE = 0
      then set_item_value (event t) (priority_value p) k else k)"

definition vTaskPrioritySet :: "nat option \<Rightarrow> nat \<Rightarrow> kernel \<Rightarrow> kernel option" where
  "vTaskPrioritySet xTask uxNewPriority k =
     (if \<not> uxNewPriority < configMAX_PRIORITIES then None
      else do {
        t \<leftarrow> prvGetTCBFromHandle xTask k;
        cur \<leftarrow> pxCurrentTCB k;
        let uxCurrentBasePriority = uxBasePriority (tcb k t);
        if uxCurrentBasePriority = uxNewPriority then Some k
        else do {
          let xYieldRequired =
            (if uxNewPriority > uxCurrentBasePriority then t \<noteq> cur \<and> uxNewPriority \<ge> priority_of k cur else t = cur);
          let uxPriorityUsedOnEntry = priority_of k t;
          let k = set_tcb t (\<lambda>c. (if uxBasePriority c = uxPriority c then c\<lparr>uxPriority := uxNewPriority\<rparr> else c)
                                 \<lparr>uxBasePriority := uxNewPriority\<rparr>) k;
          let k = set_event_priority t uxNewPriority k;
          k \<leftarrow> (if item_container k (generic t) = Some uxPriorityUsedOnEntry then do {
                 (n, k) \<leftarrow> list_remove (generic t) k;
                 let k = (if n = 0 then portRESET_READY_PRIORITY uxPriorityUsedOnEntry k else k);
                 Some (prvAddTaskToReadyList t k) }
               else Some k);
          Some (if xYieldRequired then portYIELD k else k) } })"

definition vTaskPriorityInherit :: "nat option \<Rightarrow> kernel \<Rightarrow> kernel option" where
  "vTaskPriorityInherit pxMutexHolder k =
     (case pxMutexHolder of
        None \<Rightarrow> Some k
      | Some t \<Rightarrow> do {
          cur \<leftarrow> pxCurrentTCB k;
          if priority_of k t < priority_of k cur then do {
            let k = set_event_priority t (priority_of k cur) k;
            if item_container k (generic t) = Some (priority_of k t) then do {
              (n, k) \<leftarrow> list_remove (generic t) k;
              let k = (if n = 0 then taskRESET_READY_PRIORITY (priority_of k t) k else k);
              let k = set_tcb t (\<lambda>c. c\<lparr>uxPriority := priority_of k cur\<rparr>) k;
              Some (prvAddTaskToReadyList t k) }
            else Some (set_tcb t (\<lambda>c. c\<lparr>uxPriority := priority_of k cur\<rparr>) k) }
          else Some k })"

definition xTaskPriorityDisinherit :: "nat option \<Rightarrow> kernel \<Rightarrow> (bool \<times> kernel) option" where
  "xTaskPriorityDisinherit pxMutexHolder k =
     (case pxMutexHolder of
        None \<Rightarrow> Some (False, k)
      | Some t \<Rightarrow>
          if pxCurrentTCB k \<noteq> Some t \<or> uxMutexesHeld (tcb k t) = 0 then None
          else do {
            let k = set_tcb t (\<lambda>c. c\<lparr>uxMutexesHeld := uxMutexesHeld c - 1\<rparr>) k;
            if priority_of k t \<noteq> uxBasePriority (tcb k t) \<and> uxMutexesHeld (tcb k t) = 0 then do {
              (n, k) \<leftarrow> list_remove (generic t) k;
              let k = (if n = 0 then taskRESET_READY_PRIORITY (priority_of k t) k else k);
              let k = set_tcb t (\<lambda>c. c\<lparr>uxPriority := uxBasePriority c\<rparr>) k;
              let k = set_item_value (event t) (priority_value (priority_of k t)) k;
              Some (True, prvAddTaskToReadyList t k) }
            else Some (False, k) })"

definition pvTaskIncrementMutexHeldCount :: "kernel \<Rightarrow> nat option \<times> kernel" where
  "pvTaskIncrementMutexHeldCount k =
     (pxCurrentTCB k, case pxCurrentTCB k of None \<Rightarrow> k
        | Some t \<Rightarrow> set_tcb t (\<lambda>c. c\<lparr>uxMutexesHeld := uxMutexesHeld c + 1\<rparr>) k)"

section \<open>Suspending and deleting\<close>

text \<open>Taking a task off whatever list its two items are on.\<close>

definition unlink_task :: "nat \<Rightarrow> kernel \<Rightarrow> kernel option" where
  "unlink_task t k = do {
     (n, k) \<leftarrow> list_remove (generic t) k;
     let k = (if n = 0 then taskRESET_READY_PRIORITY (priority_of k t) k else k);
     if item_container k (event t) \<noteq> None then map_option snd (list_remove (event t) k) else Some k }"

definition vTaskSuspend :: "nat option \<Rightarrow> kernel \<Rightarrow> kernel option" where
  "vTaskSuspend xTaskToSuspend k = do {
     t \<leftarrow> prvGetTCBFromHandle xTaskToSuspend k;
     k \<leftarrow> unlink_task t k;
     let k = list_insert_end xSuspendedTaskList (generic t) k;
     if pxCurrentTCB k = Some t then
       if xSchedulerRunning k then (if uxSchedulerSuspended k \<noteq> 0 then None else Some (portYIELD k))
       else if list_length xSuspendedTaskList k = uxCurrentNumberOfTasks k then Some (k\<lparr>pxCurrentTCB := None\<rparr>)
       else vTaskSwitchContext k
     else if xSchedulerRunning k then prvResetNextTaskUnblockTime k else Some k }"

definition prvTaskIsTaskSuspended :: "nat \<Rightarrow> kernel \<Rightarrow> bool" where
  "prvTaskIsTaskSuspended t k \<longleftrightarrow> item_container k (generic t) = Some xSuspendedTaskList \<and>
     item_container k (event t) \<noteq> Some xPendingReadyList \<and> item_container k (event t) = None"

definition vTaskResume :: "nat \<Rightarrow> kernel \<Rightarrow> kernel option" where
  "vTaskResume t k =
     (if pxCurrentTCB k \<noteq> Some t \<and> prvTaskIsTaskSuspended t k then do {
        (_, k) \<leftarrow> list_remove (generic t) k;
        let k = prvAddTaskToReadyList t k;
        cur \<leftarrow> pxCurrentTCB k;
        Some (if priority_of k t \<ge> priority_of k cur then portYIELD k else k) }
      else Some k)"

definition xTaskResumeFromISR :: "nat \<Rightarrow> kernel \<Rightarrow> (bool \<times> kernel) option" where
  "xTaskResumeFromISR t k =
     (if prvTaskIsTaskSuspended t k then
        if uxSchedulerSuspended k = 0 then do {
          cur \<leftarrow> pxCurrentTCB k;
          let xYieldRequired = (priority_of k t \<ge> priority_of k cur);
          (_, k) \<leftarrow> list_remove (generic t) k;
          Some (xYieldRequired, prvAddTaskToReadyList t k) }
        else Some (False, list_insert_end xPendingReadyList (event t) k)
      else Some (False, k))"

end
