(* ===== verification/Rtos_Kernel.thy ===== *)
theory Rtos_Kernel
  imports Rtos_Tasks
begin

text \<open>
  The invariant of the scheduler. Where a task is, is the container of its two items; the lists themselves only matter
  for their order. The invariant exempts the tasks \<open>X\<close> that an operation is moving, so that it can be
  carried through the list operations of a call one by one.
\<close>

section \<open>The invariant\<close>

text \<open>The contents of the lists, for \<open>T\<close> tasks and the event lists \<open>Q\<close>; the delayed lists are in the order of their wake times.\<close>

definition kernel_lists :: "nat \<Rightarrow> nat set \<Rightarrow> (nat \<Rightarrow> ptr list) \<Rightarrow> kernel \<Rightarrow> bool" where
  "kernel_lists T Q f k \<longleftrightarrow> holds ({..<15} \<union> Q) (2 * T) (heap k) f \<and> Q \<subseteq> {15..} \<and>
     (\<forall>l \<in> {xDelayedTaskList1, xDelayedTaskList2}. sorted (map (item_value k) (f l)))"

text \<open>Every task has its state item on a list of states, and its event item on no list while it is ready.\<close>

definition tasks_ok :: "nat \<Rightarrow> nat set \<Rightarrow> nat set \<Rightarrow> kernel \<Rightarrow> bool" where
  "tasks_ok T Q X k \<longleftrightarrow>
     (\<forall>t < T. \<forall>l. item_container k (generic t) = Some l \<longrightarrow> l < 15 \<and> l \<noteq> xPendingReadyList) \<and>
     (\<forall>t < T. \<forall>l. item_container k (event t) = Some l \<longrightarrow> l = xPendingReadyList \<or> l \<in> Q) \<and>
     (\<forall>t < T. t \<notin> X \<longrightarrow> item_container k (generic t) \<noteq> None) \<and>
     (\<forall>t < T. t \<notin> X \<longrightarrow> item_container k (event t) \<noteq> None \<longrightarrow>
        (\<forall>p < configMAX_PRIORITIES. item_container k (generic t) \<noteq> Some p)) \<and>
     (\<forall>t < T. priority_of k t < configMAX_PRIORITIES \<and> uxBasePriority (tcb k t) < configMAX_PRIORITIES) \<and>
     (\<exists>cur < T. pxCurrentTCB k = Some cur)"

text \<open>A task on a ready list is on that of its priority, and the bitmap tells which of them are not empty.\<close>

definition ready_ok :: "nat \<Rightarrow> nat set \<Rightarrow> kernel \<Rightarrow> bool" where
  "ready_ok T X k \<longleftrightarrow>
     (\<forall>t < T. t \<notin> X \<longrightarrow> (\<forall>p < configMAX_PRIORITIES. item_container k (generic t) = Some p \<longrightarrow> priority_of k t = p)) \<and>
     (\<forall>p. bit (uxTopReadyPriority k) p \<longleftrightarrow>
        p < configMAX_PRIORITIES \<and> (\<exists>t < T. item_container k (generic t) = Some p))"

text \<open>
  The wake times on the delayed list are ahead and those on the overflow list behind the tick count (their ticks
  come after its next overflow); \<open>xNextTaskUnblockTime\<close> is no later than the first of them.
\<close>

definition delays_ok :: "nat \<Rightarrow> kernel \<Rightarrow> bool" where
  "delays_ok T k \<longleftrightarrow>
     (pxDelayedTaskList k = xDelayedTaskList1 \<and> pxOverflowDelayedTaskList k = xDelayedTaskList2 \<or>
      pxDelayedTaskList k = xDelayedTaskList2 \<and> pxOverflowDelayedTaskList k = xDelayedTaskList1) \<and>
     (\<forall>t < T. item_container k (generic t) = Some (pxDelayedTaskList k) \<longrightarrow>
        now k < item_value k (generic t) \<and> xNextTaskUnblockTime k \<le> item_value k (generic t)) \<and>
     (\<forall>t < T. item_container k (generic t) = Some (pxOverflowDelayedTaskList k) \<longrightarrow>
        item_value k (generic t) < now k)"

text \<open>There are tasks, and they are only made pending while the scheduler is suspended.\<close>

definition pending_ok :: "nat \<Rightarrow> kernel \<Rightarrow> bool" where
  "pending_ok T k \<longleftrightarrow> 0 < uxCurrentNumberOfTasks k \<and> (uxSchedulerSuspended k = 0 \<longrightarrow> (\<forall>t < T. item_container k (event t) \<noteq> Some xPendingReadyList))"

definition kernel_core :: "nat \<Rightarrow> nat set \<Rightarrow> nat set \<Rightarrow> kernel \<Rightarrow> bool" where
  "kernel_core T Q X k \<longleftrightarrow> (\<exists>f. kernel_lists T Q f k) \<and> tasks_ok T Q X k \<and> ready_ok T X k"

definition kernel_inv :: "nat \<Rightarrow> nat set \<Rightarrow> kernel \<Rightarrow> bool" where
  "kernel_inv T Q k \<longleftrightarrow> kernel_core T Q {} k \<and> delays_ok T k \<and> pending_ok T k"

section \<open>Items and lists\<close>

lemma item_simps [simp]:
  "generic t = generic u \<longleftrightarrow> t = u" "event t = event u \<longleftrightarrow> t = u" "generic t \<noteq> event u" "event u \<noteq> generic t"
  by (auto simp: generic_def event_def) presburger+

lemma owner_simps [simp]: "owner_of (generic t) = Some t" "owner_of (event t) = Some t"
  by (simp_all add: generic_def event_def)

lemma item_cases:
  assumes "i < 2 * T"
  obtains t where "t < T" "Item i = generic t" | t where "t < T" "Item i = event t"
proof (cases "even i")
  case True
  then show ?thesis using that(1) [of "i div 2"] assms by (auto simp: generic_def elim!: evenE)
next
  case False
  then show ?thesis using that(2) [of "i div 2"] assms by (auto simp: event_def elim!: oddE)
qed

lemma kernel_list [simp]: "l < 15 \<Longrightarrow> l \<in> {..<15} \<union> Q" "l \<in> Q \<Longrightarrow> l \<in> {..<15} \<union> Q"
  by auto

text \<open>What a list operation of the kernel leaves in place, with the item it moved.\<close>

definition only_moved :: "kernel \<Rightarrow> kernel \<Rightarrow> ptr \<Rightarrow> nat option \<Rightarrow> bool" where
  "only_moved k k' p c \<longleftrightarrow> k' = k\<lparr>heap := heap k'\<rparr> \<and> item_value k' = item_value k \<and>
     item_container k' = (item_container k)(p := c)"

lemma only_moved_simps:
  assumes "only_moved k k' p c"
  shows "item_value k' = item_value k" "item_container k' = (item_container k)(p := c)" "tcb k' = tcb k"
    "pxCurrentTCB k' = pxCurrentTCB k" "pxDelayedTaskList k' = pxDelayedTaskList k"
    "pxOverflowDelayedTaskList k' = pxOverflowDelayedTaskList k" "uxTopReadyPriority k' = uxTopReadyPriority k"
    "counters k' = counters k" "xNextTaskUnblockTime k' = xNextTaskUnblockTime k"
    "uxSchedulerSuspended k' = uxSchedulerSuspended k" "uxPendedTicks k' = uxPendedTicks k"
    "xYieldPending k' = xYieldPending k" "xSchedulerRunning k' = xSchedulerRunning k"
    "uxCurrentNumberOfTasks k' = uxCurrentNumberOfTasks k" "pendsv k' = pendsv k"
proof -
  have k': "k' = k\<lparr>heap := heap k'\<rparr>" using assms by (simp add: only_moved_def)
  show "item_value k' = item_value k" "item_container k' = (item_container k)(p := c)"
    using assms by (simp_all add: only_moved_def)
  show "tcb k' = tcb k"
    "pxCurrentTCB k' = pxCurrentTCB k" "pxDelayedTaskList k' = pxDelayedTaskList k"
    "pxOverflowDelayedTaskList k' = pxOverflowDelayedTaskList k" "uxTopReadyPriority k' = uxTopReadyPriority k"
    "counters k' = counters k" "xNextTaskUnblockTime k' = xNextTaskUnblockTime k"
    "uxSchedulerSuspended k' = uxSchedulerSuspended k" "uxPendedTicks k' = uxPendedTicks k"
    "xYieldPending k' = xYieldPending k" "xSchedulerRunning k' = xSchedulerRunning k"
    "uxCurrentNumberOfTasks k' = uxCurrentNumberOfTasks k" "pendsv k' = pendsv k"
    by (subst k', simp)+
qed

lemma moved_only_moved:
  assumes "moved (heap k) h' l i c"
  shows "only_moved k (k\<lparr>heap := h'\<rparr>) (Item i) c"
  using assms by (auto simp: only_moved_def moved_def item_value_def item_container_def fun_eq_iff)

lemma kernel_lists_changed:
  assumes "kernel_lists T Q f k" "holds ({..<15} \<union> Q) (2 * T) h' (f(l := ys))" "moved (heap k) h' l i c"
    and "l = xDelayedTaskList1 \<or> l = xDelayedTaskList2 \<Longrightarrow> sorted (map (item_value k) ys)"
  shows "kernel_lists T Q (f(l := ys)) (k\<lparr>heap := h'\<rparr>)"
  using assms(1,2,4) only_moved_simps(1) [OF moved_only_moved [OF assms(3)]] by (simp add: kernel_lists_def)

text \<open>Removing an item that is on a list, inserting one that is on none.\<close>

lemma list_remove_step:
  assumes "kernel_lists T Q f k" "p = Item i" "i < 2 * T" "item_container k p = Some l"
  shows "\<exists>n k'. list_remove p k = Some (n, k') \<and> kernel_lists T Q (f(l := remove1 p (f l))) k' \<and>
    only_moved k k' p None \<and> (n = 0 \<longleftrightarrow> remove1 p (f l) = [])"
proof -
  let ?L = "{..<15} \<union> Q"
  have h: "holds ?L (2 * T) (heap k) f" and so: "\<forall>l \<in> {10, 11}. sorted (map (item_value k) (f l))"
    using assms(1) by (simp_all add: kernel_lists_def)
  have l: "l \<in> ?L" using h assms(2-4) unfolding holds_def item_container_def by blast
  have c: "container_of (heap k) (Item i) = Some l" using assms(2,4) by (simp add: item_container_def)
  obtain h' where h': "uxListRemove (Item i) (heap k) = Some (word_of_nat (length (remove1 p (f l))), h')"
    "holds ?L (2 * T) h' (f(l := remove1 p (f l)))" "moved (heap k) h' l i None"
    using holds_remove [OF h l assms(3) c] assms(2) by auto
  have "length (remove1 p (f l)) < 2 ^ 32"
    using holds_is_list [OF h'(2) l] by (simp add: is_list_def)
  then have n: "(word_of_nat (length (remove1 p (f l))) :: 32 word) = 0 \<longleftrightarrow> remove1 p (f l) = []"
    by (simp add: word_of_nat_eq_0_iff) (use nat_dvd_not_less in force)
  have "kernel_lists T Q (f(l := remove1 p (f l))) (k\<lparr>heap := h'\<rparr>)"
    by (rule kernel_lists_changed [OF assms(1) h'(2,3)]) (use so in \<open>auto simp: sorted_map_remove1\<close>)
  then show ?thesis
    using h'(1) n assms(2) moved_only_moved [OF h'(3)] by (auto simp: list_remove_def)
qed

lemma list_insert_end_step:
  assumes "kernel_lists T Q f k" "p = Item i" "i < 2 * T" "item_container k p = None"
    and "l < 15 \<or> l \<in> Q" "l \<noteq> xDelayedTaskList1" "l \<noteq> xDelayedTaskList2"
  shows "\<exists>ys. kernel_lists T Q (f(l := ys)) (list_insert_end l p k) \<and> only_moved k (list_insert_end l p k) p (Some l)"
proof -
  let ?L = "{..<15} \<union> Q" and ?h = "vListInsertEnd l p (heap k)"
  have h: "holds ?L (2 * T) (heap k) f" and so: "\<forall>l \<in> {10, 11}. sorted (map (item_value k) (f l))"
    using assms(1) by (simp_all add: kernel_lists_def)
  have l: "l \<in> ?L" using assms(5) by auto
  have c: "container_of (heap k) (Item i) = None" using assms(2,4) by (simp add: item_container_def)
  obtain ys where h': "holds ?L (2 * T) ?h (f(l := ys))" "moved (heap k) ?h l i (Some l)"
    using holds_insert_end [OF h l assms(3) c] assms(2) by blast
  have "kernel_lists T Q (f(l := ys)) (list_insert_end l p k)"
    unfolding list_insert_end_def by (rule kernel_lists_changed [OF assms(1) h']) (use assms(6,7) in auto)
  then show ?thesis
    using moved_only_moved [OF h'(2)] assms(2) by (auto simp: list_insert_end_def)
qed

lemma list_insert_step:
  assumes "kernel_lists T Q f k" "p = Item i" "i < 2 * T" "item_container k p = None" "l < 15 \<or> l \<in> Q"
  shows "\<exists>k' ys. list_insert l p k = Some k' \<and> kernel_lists T Q (f(l := ys)) k' \<and> only_moved k k' p (Some l)"
proof -
  let ?L = "{..<15} \<union> Q"
  have h: "holds ?L (2 * T) (heap k) f" and so: "\<forall>l \<in> {10, 11}. sorted (map (item_value k) (f l))"
    using assms(1) by (simp_all add: kernel_lists_def)
  have l: "l \<in> ?L" using assms(5) by auto
  have c: "container_of (heap k) (Item i) = None" using assms(2,4) by (simp add: item_container_def)
  have iv: "item_value k = value_of (heap k)" by (simp add: item_value_def fun_eq_iff)
  obtain h' ys where h': "vListInsert l p (heap k) = Some h'" "holds ?L (2 * T) h' (f(l := ys))"
    "moved (heap k) h' l i (Some l)" "l \<in> {10, 11} \<Longrightarrow> sorted (map (item_value k) ys)"
  proof (cases "l \<in> {10, 11}")
    case True
    then have "sorted (map (value_of (heap k)) (f l))" using so by (auto simp: iv)
    with that show ?thesis
      using holds_insert [OF h l assms(3) c] assms(2) by (fastforce simp: moved_def iv cong: map_cong)
  next
    case False
    with that show ?thesis using holds_insert_any [OF h l assms(3) c] assms(2) by blast
  qed
  have "kernel_lists T Q (f(l := ys)) (k\<lparr>heap := h'\<rparr>)"
    by (rule kernel_lists_changed [OF assms(1) h'(2,3)]) (use h'(4) in auto)
  then show ?thesis
    using h'(1) moved_only_moved [OF h'(3)] assms(2) by (auto simp: list_insert_def)
qed

text \<open>Emptiness, length and the head of a list, read off the containers.\<close>

lemma list_empty_iff:
  assumes "kernel_lists T Q f k" "l < 15 \<or> l \<in> Q"
  shows "list_is_empty l k \<longleftrightarrow> f l = []"
  using assms holds_count [of "{..<15} \<union> Q" "2 * T" "heap k" f l]
  by (auto simp: list_is_empty_def list_length_def kernel_lists_def)

lemma container_iff:
  assumes "kernel_lists T Q f k" "l < 15 \<or> l \<in> Q" "p = Item i" "i < 2 * T"
  shows "item_container k p = Some l \<longleftrightarrow> p \<in> set (f l)"
  using assms holds_container [of "{..<15} \<union> Q" "2 * T" "heap k" f i l]
  by (auto simp: item_container_def kernel_lists_def)

lemma list_item:
  assumes "kernel_lists T Q f k" "l < 15 \<or> l \<in> Q" "x \<in> set (f l)"
  obtains i where "i < 2 * T" "x = Item i"
  using assms holds_item [of "{..<15} \<union> Q" "2 * T" "heap k" f l x] by (auto simp: kernel_lists_def)

lemma head_owner_hd:
  assumes "kernel_lists T Q f k" "l < 15 \<or> l \<in> Q" "f l \<noteq> []"
  shows "head_owner l k = owner_of (hd (f l))"
proof -
  have "is_list (heap k) l (f l)"
    using assms holds_is_list [of "{..<15} \<union> Q" "2 * T" "heap k" f l] by (auto simp: kernel_lists_def)
  then have "next_of (heap k) (End l) = hd (f l @ [End l])"
    using seg_first [of "heap k" "End l" "f l" "End l"] by (simp add: is_list_def)
  then show ?thesis using assms(3) by (simp add: head_owner_def hd_append)
qed

section \<open>Moving one task\<close>

text \<open>
  An operation on the items of one task changes the store and perhaps the bitmap. The state it leaves is told by where the item
  now is.
\<close>

definition relocated :: "kernel \<Rightarrow> kernel \<Rightarrow> ptr \<Rightarrow> nat option \<Rightarrow> bool" where
  "relocated k k' p c \<longleftrightarrow> k' = k\<lparr>heap := heap k', uxTopReadyPriority := uxTopReadyPriority k'\<rparr> \<and>
     item_value k' = item_value k \<and> item_container k' = (item_container k)(p := c)"

lemma only_moved_relocated: "only_moved k k' p c \<Longrightarrow> relocated k k' p c"
  by (auto simp: relocated_def only_moved_def intro: kernel.equality dest: arg_cong [of _ _ uxTopReadyPriority])

lemma relocated_simps:
  assumes "relocated k k' p c"
  shows "item_value k' = item_value k" "item_container k' = (item_container k)(p := c)" "tcb k' = tcb k"
    "pxCurrentTCB k' = pxCurrentTCB k" "pxDelayedTaskList k' = pxDelayedTaskList k"
    "pxOverflowDelayedTaskList k' = pxOverflowDelayedTaskList k"
    "counters k' = counters k" "xNextTaskUnblockTime k' = xNextTaskUnblockTime k"
    "uxSchedulerSuspended k' = uxSchedulerSuspended k" "uxPendedTicks k' = uxPendedTicks k"
    "xYieldPending k' = xYieldPending k" "xSchedulerRunning k' = xSchedulerRunning k"
    "uxCurrentNumberOfTasks k' = uxCurrentNumberOfTasks k" "pendsv k' = pendsv k"
proof -
  have k': "k' = k\<lparr>heap := heap k', uxTopReadyPriority := uxTopReadyPriority k'\<rparr>"
    using assms by (simp add: relocated_def)
  show "item_value k' = item_value k" "item_container k' = (item_container k)(p := c)"
    using assms by (simp_all add: relocated_def)
  show "tcb k' = tcb k"
    "pxCurrentTCB k' = pxCurrentTCB k" "pxDelayedTaskList k' = pxDelayedTaskList k"
    "pxOverflowDelayedTaskList k' = pxOverflowDelayedTaskList k"
    "counters k' = counters k" "xNextTaskUnblockTime k' = xNextTaskUnblockTime k"
    "uxSchedulerSuspended k' = uxSchedulerSuspended k" "uxPendedTicks k' = uxPendedTicks k"
    "xYieldPending k' = xYieldPending k" "xSchedulerRunning k' = xSchedulerRunning k"
    "uxCurrentNumberOfTasks k' = uxCurrentNumberOfTasks k" "pendsv k' = pendsv k"
    by (subst k', simp)+
qed

text \<open>A task that is not on a delayed list does not matter for the delays.\<close>

lemma delays_ok_relocated:
  assumes "delays_ok T k" "relocated k k' p c" "c \<noteq> Some xDelayedTaskList1" "c \<noteq> Some xDelayedTaskList2"
  shows "delays_ok T k'"
  using assms(1,3,4) unfolding delays_ok_def by (auto simp: relocated_simps [OF assms(2)])

lemma kernel_core_weaken: "kernel_core T Q X k \<Longrightarrow> X \<subseteq> Y \<Longrightarrow> kernel_core T Q Y k"
  by (auto simp: kernel_core_def tasks_ok_def ready_ok_def)

lemma kernel_core_lists: "kernel_core T Q X k \<Longrightarrow> \<exists>f. kernel_lists T Q f k"
  by (simp add: kernel_core_def)

lemma generic_container:
  "kernel_core T Q X k \<Longrightarrow> t < T \<Longrightarrow> item_container k (generic t) = Some l \<Longrightarrow> l < 15 \<and> l \<noteq> xPendingReadyList"
  by (simp add: kernel_core_def tasks_ok_def)

lemma event_container:
  "kernel_core T Q X k \<Longrightarrow> t < T \<Longrightarrow> item_container k (event t) = Some l \<Longrightarrow> l = xPendingReadyList \<or> l \<in> Q"
  by (simp add: kernel_core_def tasks_ok_def)

lemma ready_priority:
  "kernel_core T Q X k \<Longrightarrow> t < T \<Longrightarrow> t \<notin> X \<Longrightarrow> item_container k (generic t) = Some p \<Longrightarrow>
   p < configMAX_PRIORITIES \<Longrightarrow> p = priority_of k t"
  by (auto simp: kernel_core_def ready_ok_def)

lemma priority_less: "kernel_core T Q X k \<Longrightarrow> t < T \<Longrightarrow> priority_of k t < configMAX_PRIORITIES"
  by (simp add: kernel_core_def tasks_ok_def)

lemma current_task: "kernel_core T Q X k \<Longrightarrow> \<exists>cur < T. pxCurrentTCB k = Some cur"
  by (simp add: kernel_core_def tasks_ok_def)

lemma generic_Item: "t < T \<Longrightarrow> generic t = Item (2 * t) \<and> 2 * t < 2 * T"
  by (simp add: generic_def)

lemma event_Item: "t < T \<Longrightarrow> event t = Item (2 * t + 1) \<and> 2 * t + 1 < 2 * T"
  by (simp add: event_def)

text \<open>The parts of the invariant after a move.\<close>

lemma tasks_ok_relocated:
  assumes "tasks_ok T Q X k" "relocated k k' (generic t) c" "t \<in> X" "\<And>l. c = Some l \<Longrightarrow> l < 15 \<and> l \<noteq> xPendingReadyList"
  shows "tasks_ok T Q X k'"
  using assms(1,3,4) unfolding tasks_ok_def by (auto simp: relocated_simps [OF assms(2)])

lemma tasks_ok_relocated_event:
  assumes "tasks_ok T Q X k" "relocated k k' (event t) c" "c = None \<or> t \<in> X" "\<And>l. c = Some l \<Longrightarrow> l = xPendingReadyList \<or> l \<in> Q"
  shows "tasks_ok T Q X k'"
  using assms(1,3,4) unfolding tasks_ok_def by (auto simp: relocated_simps [OF assms(2)])

lemma ready_ok_same:
  assumes "ready_ok T X k" "tcb k' = tcb k" "uxTopReadyPriority k' = uxTopReadyPriority k"
    and same: "\<And>u p. u < T \<Longrightarrow> p < configMAX_PRIORITIES \<Longrightarrow>
      item_container k' (generic u) = Some p \<longleftrightarrow> item_container k (generic u) = Some p"
  shows "ready_ok T X k'"
proof -
  have "(\<exists>t < T. item_container k' (generic t) = Some p) \<longleftrightarrow> (\<exists>t < T. item_container k (generic t) = Some p)"
    if "p < configMAX_PRIORITIES" for p
    using same that by blast
  then have "(p < configMAX_PRIORITIES \<and> (\<exists>t < T. item_container k' (generic t) = Some p)) \<longleftrightarrow>
      (p < configMAX_PRIORITIES \<and> (\<exists>t < T. item_container k (generic t) = Some p))" for p
    by blast
  then show ?thesis using assms(1-3) same by (simp add: ready_ok_def)
qed

lemma pending_ok_relocated:
  assumes "pending_ok T k" "relocated k k' p c" "c \<noteq> Some xPendingReadyList \<or> uxSchedulerSuspended k \<noteq> 0 \<or> (\<exists>t. p = generic t)"
  shows "pending_ok T k'"
  using assms(1,3) unfolding pending_ok_def by (auto simp: relocated_simps [OF assms(2)])

lemma core_moved:
  assumes "kernel_core T Q X k" "only_moved k k' p c" "\<exists>f. kernel_lists T Q f k'"
    and "p = event t \<and> (\<forall>l. c = Some l \<longrightarrow> t \<in> X \<and> (l \<in> Q \<or> l = xPendingReadyList)) \<or>
         p = generic t \<and> t \<in> X \<and> (\<forall>q. item_container k p = Some q \<longrightarrow> configMAX_PRIORITIES \<le> q) \<and>
           (\<forall>l. c = Some l \<longrightarrow> configMAX_PRIORITIES \<le> l \<and> l < 15 \<and> l \<noteq> xPendingReadyList)"
  shows "kernel_core T Q X k'"
proof -
  note r = only_moved_relocated [OF assms(2)]
  have c: "tasks_ok T Q X k" "ready_ok T X k" using assms(1) by (simp_all add: kernel_core_def)
  have "ready_ok T X k'"
    by (rule ready_ok_same [OF c(2)]) (use assms(4) in \<open>auto simp: only_moved_simps [OF assms(2)]\<close>)
  moreover have "tasks_ok T Q X k'"
    using assms(4) tasks_ok_relocated [OF c(1), of k' t c] tasks_ok_relocated_event [OF c(1), of k' t c] r by (cases c) auto
  ultimately show ?thesis using assms(3) by (simp add: kernel_core_def)
qed

lemma core_queues: "kernel_core T Q X k \<Longrightarrow> Q \<subseteq> {15..}"
  by (auto simp: kernel_core_def kernel_lists_def)

lemma core_remove_generic:
  assumes "kernel_core T Q X k" "t < T" "t \<in> X" "item_container k (generic t) = Some l" "configMAX_PRIORITIES \<le> l"
  shows "\<exists>n k'. list_remove (generic t) k = Some (n, k') \<and> kernel_core T Q X k' \<and> only_moved k k' (generic t) None"
proof -
  obtain f where f: "kernel_lists T Q f k" using assms(1) kernel_core_lists by blast
  note g = generic_Item [OF assms(2)]
  obtain n k' where k': "list_remove (generic t) k = Some (n, k')" "\<exists>f. kernel_lists T Q f k'"
    "only_moved k k' (generic t) None"
    using list_remove_step [OF f conjunct1 [OF g] conjunct2 [OF g] assms(4)] by blast
  have "kernel_core T Q X k'"
    by (rule core_moved [OF assms(1) k'(3,2)]) (use assms(3-5) in auto)
  then show ?thesis using k'(1,3) by blast
qed

lemma core_remove_event:
  assumes "kernel_core T Q X k" "t < T" "item_container k (event t) = Some l"
  shows "\<exists>n k'. list_remove (event t) k = Some (n, k') \<and> kernel_core T Q X k' \<and> only_moved k k' (event t) None"
proof -
  obtain f where f: "kernel_lists T Q f k" using assms(1) kernel_core_lists by blast
  note g = event_Item [OF assms(2)]
  obtain n k' where k': "list_remove (event t) k = Some (n, k')" "\<exists>f. kernel_lists T Q f k'"
    "only_moved k k' (event t) None"
    using list_remove_step [OF f conjunct1 [OF g] conjunct2 [OF g] assms(3)] by blast
  have "kernel_core T Q X k'"
    by (rule core_moved [OF assms(1) k'(3,2)]) auto
  then show ?thesis using k'(1,3) by blast
qed

lemma core_insert_event_end:
  assumes "kernel_core T Q X k" "t < T" "t \<in> X" "item_container k (event t) = None"
    and "l \<in> Q \<or> l = xPendingReadyList"
  shows "kernel_core T Q X (list_insert_end l (event t) k) \<and> only_moved k (list_insert_end l (event t) k) (event t) (Some l)"
proof -
  obtain f where f: "kernel_lists T Q f k" using assms(1) kernel_core_lists by blast
  note g = event_Item [OF assms(2)]
  have l: "l < 15 \<or> l \<in> Q" "l \<noteq> xDelayedTaskList1" "l \<noteq> xDelayedTaskList2"
    using assms(5) core_queues [OF assms(1)] by auto
  have ins: "\<exists>f. kernel_lists T Q f (list_insert_end l (event t) k)"
      "only_moved k (list_insert_end l (event t) k) (event t) (Some l)"
    using list_insert_end_step [OF f conjunct1 [OF g] conjunct2 [OF g] assms(4) l] by auto
  then show ?thesis
    using core_moved [OF assms(1) ins(2,1)] assms(3,5) by auto
qed

lemma core_insert_event:
  assumes "kernel_core T Q X k" "t < T" "t \<in> X" "item_container k (event t) = None" "l \<in> Q"
  shows "\<exists>k'. list_insert l (event t) k = Some k' \<and> kernel_core T Q X k' \<and> only_moved k k' (event t) (Some l)"
proof -
  obtain f where f: "kernel_lists T Q f k" using assms(1) kernel_core_lists by blast
  note g = event_Item [OF assms(2)]
  obtain k' where k': "list_insert l (event t) k = Some k'" "\<exists>f. kernel_lists T Q f k'"
      "only_moved k k' (event t) (Some l)"
    using list_insert_step [OF f conjunct1 [OF g] conjunct2 [OF g] assms(4)] assms(5) by blast
  then show ?thesis
    using core_moved [OF assms(1) k'(3,2)] assms(3,5) by auto
qed

lemma core_suspend:
  assumes "kernel_core T Q X k" "t < T" "t \<in> X" "item_container k (generic t) = None"
  shows "kernel_core T Q X (list_insert_end xSuspendedTaskList (generic t) k) \<and>
    only_moved k (list_insert_end xSuspendedTaskList (generic t) k) (generic t) (Some xSuspendedTaskList)"
proof -
  obtain f where f: "kernel_lists T Q f k" using assms(1) kernel_core_lists by blast
  note g = generic_Item [OF assms(2)]
  have ins: "\<exists>f. kernel_lists T Q f (list_insert_end xSuspendedTaskList (generic t) k)"
      "only_moved k (list_insert_end xSuspendedTaskList (generic t) k) (generic t) (Some xSuspendedTaskList)"
    using list_insert_end_step [OF f conjunct1 [OF g] conjunct2 [OF g] assms(4), of xSuspendedTaskList] by auto
  then show ?thesis
    using core_moved [OF assms(1) ins(2,1)] assms(3,4) by auto
qed

lemma core_insert_delayed:
  assumes "kernel_core T Q X k" "t < T" "t \<in> X" "item_container k (generic t) = None"
    and "l = xDelayedTaskList1 \<or> l = xDelayedTaskList2"
  shows "\<exists>k'. list_insert l (generic t) k = Some k' \<and> kernel_core T Q X k' \<and> only_moved k k' (generic t) (Some l)"
proof -
  obtain f where f: "kernel_lists T Q f k" using assms(1) kernel_core_lists by blast
  note g = generic_Item [OF assms(2)]
  obtain k' where k': "list_insert l (generic t) k = Some k'" "\<exists>f. kernel_lists T Q f k'"
      "only_moved k k' (generic t) (Some l)"
    using list_insert_step [OF f conjunct1 [OF g] conjunct2 [OF g] assms(4), of l] assms(5) by force
  then show ?thesis
    using core_moved [OF assms(1) k'(3,2)] assms(3-5) by auto
qed

section \<open>Entering and leaving the ready lists\<close>

lemma bit_record: "bit (w OR push_bit p 1 :: 32 word) q \<longleftrightarrow> bit w q \<or> q = p \<and> p < 32"
  by (auto simp: bit_simps)

lemma bit_reset: "bit (w AND NOT (push_bit p 1) :: 32 word) q \<longleftrightarrow> bit w q \<and> q \<noteq> p"
  using bit_imp_le_length [of w q] by (auto simp: bit_simps)

text \<open>The list of a ready task, without it, is empty exactly when no other task is on it.\<close>

lemma list_of_generics:
  assumes "kernel_lists T Q f k" "tasks_ok T Q X k" "p < 15" "p \<noteq> xPendingReadyList"
  shows "set (f p) = generic ` {t. t < T \<and> item_container k (generic t) = Some p}"
proof (intro equalityI subsetI)
  fix x assume x: "x \<in> set (f p)"
  then obtain i where i: "i < 2 * T" "x = Item i" using assms(1,3) list_item [of T Q f k p x] by auto
  have c: "item_container k x = Some p" using container_iff [OF assms(1) _ i(2,1)] assms(3) x by blast
  show "x \<in> generic ` {t. t < T \<and> item_container k (generic t) = Some p}"
  proof (rule item_cases [OF i(1)])
    fix t assume t: "t < T" "Item i = generic t"
    then show ?thesis using c i(2) by auto
  next
    fix t assume t: "t < T" "Item i = event t"
    then show ?thesis using c i(2) assms by (fastforce simp: tasks_ok_def kernel_lists_def)
  qed
next
  fix x assume "x \<in> generic ` {t. t < T \<and> item_container k (generic t) = Some p}"
  then obtain t where t: "t < T" "x = generic t" "item_container k x = Some p" by auto
  then show "x \<in> set (f p)"
    using container_iff [OF assms(1), of p x "2 * t"] generic_Item [OF t(1)] assms(3) by auto
qed

lemma list_of_events:
  assumes "kernel_lists T Q f k" "tasks_ok T Q X k" "l = xPendingReadyList \<or> l \<in> Q"
  shows "set (f l) = event ` {t. t < T \<and> item_container k (event t) = Some l}"
proof (intro equalityI subsetI)
  have l: "l < 15 \<or> l \<in> Q" using assms(3) by auto
  fix x assume x: "x \<in> set (f l)"
  then obtain i where i: "i < 2 * T" "x = Item i" using assms(1) l list_item by metis
  have c: "item_container k x = Some l" using container_iff [OF assms(1) l i(2,1)] x by blast
  show "x \<in> event ` {t. t < T \<and> item_container k (event t) = Some l}"
  proof (rule item_cases [OF i(1)])
    fix t assume t: "t < T" "Item i = event t"
    then show ?thesis using c i(2) by auto
  next
    fix t assume t: "t < T" "Item i = generic t"
    then show ?thesis using c i(2) assms by (fastforce simp: tasks_ok_def kernel_lists_def)
  qed
next
  have l: "l < 15 \<or> l \<in> Q" using assms(3) by auto
  fix x assume "x \<in> event ` {t. t < T \<and> item_container k (event t) = Some l}"
  then obtain t where t: "t < T" "x = event t" "item_container k x = Some l" by auto
  then show "x \<in> set (f l)"
    using container_iff [OF assms(1) l, of x "2 * t + 1"] event_Item [OF t(1)] by auto
qed

text \<open>The head of a list of waiting tasks.\<close>

lemma event_head:
  assumes "kernel_core T Q X k" "l = xPendingReadyList \<or> l \<in> Q"
  shows "list_is_empty l k \<longleftrightarrow> \<not> (\<exists>t < T. item_container k (event t) = Some l)"
    and "\<not> list_is_empty l k \<Longrightarrow> \<exists>t < T. head_owner l k = Some t \<and> item_container k (event t) = Some l"
proof -
  obtain f where f: "kernel_lists T Q f k" using assms(1) kernel_core_lists by blast
  have tk: "tasks_ok T Q X k" using assms(1) by (simp add: kernel_core_def)
  have l: "l < 15 \<or> l \<in> Q" using assms(2) by auto
  note s = list_of_events [OF f tk assms(2)]
  have e: "list_is_empty l k \<longleftrightarrow> f l = []" using list_empty_iff [OF f l] .
  show "list_is_empty l k \<longleftrightarrow> \<not> (\<exists>t < T. item_container k (event t) = Some l)"
    unfolding e set_empty [symmetric] s by auto
  assume "\<not> list_is_empty l k"
  then obtain x xs where x: "f l = x # xs" using e by (cases "f l") auto
  then have "x \<in> event ` {t. t < T \<and> item_container k (event t) = Some l}" using s by auto
  then show "\<exists>t < T. head_owner l k = Some t \<and> item_container k (event t) = Some l"
    using head_owner_hd [OF f l] x by auto
qed

lemma core_leave_ready:
  assumes "kernel_core T Q X k" "t < T" "t \<in> X" "item_container k (generic t) = Some p" "p < configMAX_PRIORITIES"
  shows "\<exists>n k'. list_remove (generic t) k = Some (n, k') \<and> only_moved k k' (generic t) None \<and>
    (n = 0 \<longleftrightarrow> list_length p k' = 0) \<and>
    kernel_core T Q X (if n = 0 then portRESET_READY_PRIORITY p k' else k')"
proof -
  obtain f where f: "kernel_lists T Q f k" using assms(1) kernel_core_lists by blast
  have c: "tasks_ok T Q X k" "ready_ok T X k" using assms(1) by (simp_all add: kernel_core_def)
  note g = generic_Item [OF assms(2)]
  let ?f = "f(p := remove1 (generic t) (f p))"
  obtain n k' where k': "list_remove (generic t) k = Some (n, k')" "kernel_lists T Q ?f k'"
    "only_moved k k' (generic t) None" "n = 0 \<longleftrightarrow> remove1 (generic t) (f p) = []"
    using list_remove_step [OF f conjunct1 [OF g] conjunct2 [OF g] assms(4)] by blast
  note o = only_moved_simps [OF k'(3)] and r = only_moved_relocated [OF k'(3)]
  have t': "tasks_ok T Q X k'" by (rule tasks_ok_relocated [OF c(1) r assms(3)]) simp
  have n: "n = 0 \<longleftrightarrow> \<not> (\<exists>u < T. item_container k' (generic u) = Some p)"
  proof -
    have "set (remove1 (generic t) (f p)) = generic ` {u. u < T \<and> item_container k' (generic u) = Some p}"
      using list_of_generics [OF k'(2) t', of p] assms(5) by simp
    then show ?thesis unfolding k'(4) set_empty [symmetric] by auto
  qed
  have "n = 0 \<longleftrightarrow> list_length p k' = 0"
    using list_empty_iff [OF k'(2), of p] assms(5) k'(4) by (simp add: list_is_empty_def)
  moreover have "kernel_core T Q X (if n = 0 then portRESET_READY_PRIORITY p k' else k')"
  proof -
    let ?k = "if n = 0 then portRESET_READY_PRIORITY p k' else k'"
    have b: "bit (uxTopReadyPriority ?k) q \<longleftrightarrow> bit (uxTopReadyPriority k) q \<and> (n = 0 \<longrightarrow> q \<noteq> p)" for q
      by (simp add: portRESET_READY_PRIORITY_def bit_reset o(7) del: push_bit_of_1)
    have same: "heap ?k = heap k'" "tcb ?k = tcb k'" "pxCurrentTCB ?k = pxCurrentTCB k'" "uxSchedulerSuspended ?k = uxSchedulerSuspended k'"
      by (simp_all add: portRESET_READY_PRIORITY_def)
    have cont: "item_container ?k = item_container k'" "item_value ?k = item_value k'"
      by (simp_all add: item_container_def item_value_def fun_eq_iff same)
    have "kernel_lists T Q ?f ?k" using k'(2) by (simp add: kernel_lists_def same cont)
    moreover have "tasks_ok T Q X ?k" using t' by (simp add: tasks_ok_def same cont)
    moreover have "ready_ok T X ?k"
    proof -
      have "bit (uxTopReadyPriority ?k) q \<longleftrightarrow>
          q < configMAX_PRIORITIES \<and> (\<exists>u < T. item_container ?k (generic u) = Some q)" for q
      proof (cases "q = p")
        case True
        have "bit (uxTopReadyPriority k) p" using c(2) assms(2,4,5) by (auto simp: ready_ok_def)
        then show ?thesis
          using True n assms(5) unfolding b cont by auto
      next
        case False
        have "bit (uxTopReadyPriority ?k) q \<longleftrightarrow> bit (uxTopReadyPriority k) q"
          using False unfolding b by simp
        also have "\<dots> \<longleftrightarrow> q < configMAX_PRIORITIES \<and> (\<exists>u < T. item_container k (generic u) = Some q)"
          using c(2) by (simp add: ready_ok_def)
        also have "(\<exists>u < T. item_container k (generic u) = Some q) \<longleftrightarrow>
            (\<exists>u < T. item_container ?k (generic u) = Some q)"
        proof -
          have "item_container ?k (generic u) = Some q \<longleftrightarrow> item_container k (generic u) = Some q" for u
            using False assms(4) unfolding cont by (simp add: o(2))
          then show ?thesis by blast
        qed
        finally show ?thesis .
      qed
      moreover have "\<forall>u < T. u \<notin> X \<longrightarrow> (\<forall>q < configMAX_PRIORITIES. item_container ?k (generic u) = Some q \<longrightarrow> uxPriority (tcb ?k u) = q)"
        using c(2) unfolding cont same by (auto simp: ready_ok_def o)
      ultimately show ?thesis by (simp add: ready_ok_def)
    qed
    ultimately show ?thesis unfolding kernel_core_def by blast
  qed
  ultimately show ?thesis using k'(1,3) by blast
qed

lemma record_simps [simp]:
  "heap (portRECORD_READY_PRIORITY p k) = heap k" "tcb (portRECORD_READY_PRIORITY p k) = tcb k"
  "item_value (portRECORD_READY_PRIORITY p k) = item_value k"
  "item_container (portRECORD_READY_PRIORITY p k) = item_container k"
  by (simp_all add: portRECORD_READY_PRIORITY_def item_value_def item_container_def fun_eq_iff)

text \<open>A task whose state item is free enters the ready list of its priority and need no longer be exempted.\<close>

lemma core_add_ready:
  assumes "kernel_core T Q (insert t X) k" "t < T" "item_container k (generic t) = None" "item_container k (event t) = None"
  shows "kernel_core T Q X (prvAddTaskToReadyList t k) \<and>
    relocated k (prvAddTaskToReadyList t k) (generic t) (Some (priority_of k t))"
proof -
  obtain f where f: "kernel_lists T Q f k" using assms(1) kernel_core_lists by blast
  have c: "tasks_ok T Q (insert t X) k" "ready_ok T (insert t X) k" using assms(1) by (simp_all add: kernel_core_def)
  define p where "p = priority_of k t"
  have p: "p < configMAX_PRIORITIES" using priority_less [OF assms(1,2)] by (simp add: p_def)
  define k1 where "k1 = portRECORD_READY_PRIORITY p k"
  define k2 where "k2 = list_insert_end p (generic t) k1"
  have k2: "prvAddTaskToReadyList t k = k2" by (simp add: prvAddTaskToReadyList_def k1_def k2_def p_def)
  note g = generic_Item [OF assms(2)]
  have f1: "kernel_lists T Q f k1" using f by (simp add: kernel_lists_def k1_def)
  have ins: "\<exists>f. kernel_lists T Q f k2" "only_moved k1 k2 (generic t) (Some p)"
    using list_insert_end_step [OF f1 conjunct1 [OF g] conjunct2 [OF g], of p] assms(3) p by (auto simp: k1_def k2_def)
  have r: "relocated k k2 (generic t) (Some p)"
    using only_moved_relocated [OF ins(2)]
    by (auto simp: relocated_def k1_def portRECORD_READY_PRIORITY_def item_value_def item_container_def
        intro!: kernel.equality)
  note o = relocated_simps [OF r]
  have b: "bit (uxTopReadyPriority k2) q \<longleftrightarrow> bit (uxTopReadyPriority k) q \<or> q = p" for q
    using p by (simp add: only_moved_simps(7) [OF ins(2)] k1_def portRECORD_READY_PRIORITY_def bit_record del: push_bit_of_1)
  have "tasks_ok T Q X k2"
  proof -
    have "tasks_ok T Q (insert t X) k2" by (rule tasks_ok_relocated [OF c(1) r]) (use p in auto)
    then show ?thesis using assms(4) unfolding tasks_ok_def by (auto simp: o(2))
  qed
  moreover have "ready_ok T X k2"
  proof -
    have "(\<exists>u < T. item_container k2 (generic u) = Some q) \<longleftrightarrow> (\<exists>u < T. item_container k (generic u) = Some q) \<or> q = p" for q
    proof -
      have "item_container k2 (generic u) = Some q \<longleftrightarrow> item_container k (generic u) = Some q \<or> u = t \<and> q = p" for u
        using assms(3) by (auto simp: o(2))
      then show ?thesis using assms(2) by blast
    qed
    then show ?thesis using c(2) p by (auto simp: ready_ok_def b o(2,3) p_def)
  qed
  ultimately show ?thesis using ins(1) r by (simp add: kernel_core_def k2 p_def)
qed

text \<open>A blocking task stays exempted while its items move; at the end it is exempted no more.\<close>

lemma core_settled:
  assumes "kernel_core T Q (insert t X) k" "item_container k (generic t) = Some l" "configMAX_PRIORITIES \<le> l"
  shows "kernel_core T Q X k"
  using assms by (auto simp: kernel_core_def tasks_ok_def ready_ok_def)

end
