(* ===== verification/Rtos_Sched.thy ===== *)
theory Rtos_Sched
  imports Rtos_Kernel
begin

text \<open>
  The operations of the scheduler over the invariant: the tick, the switch of tasks, suspending and resuming the scheduler,
  blocking and waking. Each lemma says that the operation returns, which makes every \<open>configASSERT\<close> on its
  way a theorem, that the invariant holds again, and where the tasks are afterwards.
\<close>

section \<open>What the operations leave alone\<close>

definition lists_changed :: "kernel \<Rightarrow> kernel \<Rightarrow> bool" where
  "lists_changed k k' \<longleftrightarrow> tcb k' = tcb k \<and> pxCurrentTCB k' = pxCurrentTCB k \<and>
     pxDelayedTaskList k' = pxDelayedTaskList k \<and> pxOverflowDelayedTaskList k' = pxOverflowDelayedTaskList k \<and>
     counters k' = counters k \<and> uxSchedulerSuspended k' = uxSchedulerSuspended k \<and> uxPendedTicks k' = uxPendedTicks k \<and>
     xYieldPending k' = xYieldPending k \<and> xSchedulerRunning k' = xSchedulerRunning k \<and>
     uxCurrentNumberOfTasks k' = uxCurrentNumberOfTasks k \<and> pendsv k' = pendsv k"

lemma lists_changed_refl [simp]: "lists_changed k k"
  by (simp add: lists_changed_def)

lemma lists_changed_trans: "lists_changed k k' \<Longrightarrow> lists_changed k' k'' \<Longrightarrow> lists_changed k k''"
  by (simp add: lists_changed_def)

lemma relocated_lists_changed: "relocated k k' p c \<Longrightarrow> lists_changed k k'"
  by (simp add: lists_changed_def relocated_simps)

lemma lists_changed_unblock [simp]: "lists_changed k (k\<lparr>xNextTaskUnblockTime := v\<rparr>)"
  by (simp add: lists_changed_def)

text \<open>The invariant does not look at the other fields.\<close>

lemma items_cong: "heap k' = heap k \<Longrightarrow> item_container k' = item_container k \<and> item_value k' = item_value k"
  by (simp add: item_container_def item_value_def fun_eq_iff)

lemma core_cong:
  assumes "heap k' = heap k" "tcb k' = tcb k" "pxCurrentTCB k' = pxCurrentTCB k"
    "uxTopReadyPriority k' = uxTopReadyPriority k"
  shows "kernel_core T Q X k' = kernel_core T Q X k"
  unfolding kernel_core_def kernel_lists_def tasks_ok_def ready_ok_def assms
    conjunct1 [OF items_cong [OF assms(1)]] conjunct2 [OF items_cong [OF assms(1)]] by (rule refl)

lemma field_items [simp]:
  "item_container (k\<lparr>xNextTaskUnblockTime := v\<rparr>) = item_container k"
  "item_value (k\<lparr>xNextTaskUnblockTime := v\<rparr>) = item_value k"
  "item_container (k\<lparr>counters := c\<rparr>) = item_container k" "item_value (k\<lparr>counters := c\<rparr>) = item_value k"
  "item_container (k\<lparr>pxDelayedTaskList := a, pxOverflowDelayedTaskList := b\<rparr>) = item_container k"
  "item_value (k\<lparr>pxDelayedTaskList := a, pxOverflowDelayedTaskList := b\<rparr>) = item_value k"
  "item_container (k\<lparr>uxPendedTicks := m\<rparr>) = item_container k" "item_value (k\<lparr>uxPendedTicks := m\<rparr>) = item_value k"
  "item_container (k\<lparr>xYieldPending := y\<rparr>) = item_container k" "item_value (k\<lparr>xYieldPending := y\<rparr>) = item_value k"
  "item_container (k\<lparr>pendsv := y\<rparr>) = item_container k" "item_value (k\<lparr>pendsv := y\<rparr>) = item_value k"
  "item_container (k\<lparr>uxSchedulerSuspended := m\<rparr>) = item_container k"
  "item_value (k\<lparr>uxSchedulerSuspended := m\<rparr>) = item_value k"
  by (simp_all add: item_container_def item_value_def fun_eq_iff)

lemma field_core [simp]:
  "kernel_core T Q X (k\<lparr>xNextTaskUnblockTime := v\<rparr>) = kernel_core T Q X k"
  "kernel_core T Q X (k\<lparr>counters := c\<rparr>) = kernel_core T Q X k"
  "kernel_core T Q X (k\<lparr>pxDelayedTaskList := a, pxOverflowDelayedTaskList := b\<rparr>) = kernel_core T Q X k"
  "kernel_core T Q X (k\<lparr>uxPendedTicks := m\<rparr>) = kernel_core T Q X k"
  "kernel_core T Q X (k\<lparr>xYieldPending := y\<rparr>) = kernel_core T Q X k"
  "kernel_core T Q X (k\<lparr>pendsv := y\<rparr>) = kernel_core T Q X k"
  "kernel_core T Q X (k\<lparr>uxSchedulerSuspended := m\<rparr>) = kernel_core T Q X k"
  by (rule core_cong; simp)+

section \<open>The tick\<close>

text \<open>The head of a delayed list is the task with the earliest wake time.\<close>

lemma delayed_head:
  assumes "kernel_core T Q X k" "l = xDelayedTaskList1 \<or> l = xDelayedTaskList2"
  shows "list_is_empty l k \<longleftrightarrow> \<not> (\<exists>t < T. item_container k (generic t) = Some l)"
    and "\<not> list_is_empty l k \<Longrightarrow> \<exists>t < T. head_owner l k = Some t \<and> item_container k (generic t) = Some l \<and>
      (\<forall>u < T. item_container k (generic u) = Some l \<longrightarrow> item_value k (generic t) \<le> item_value k (generic u))"
proof -
  obtain f where f: "kernel_lists T Q f k" using assms(1) kernel_core_lists by blast
  have tk: "tasks_ok T Q X k" using assms(1) by (simp add: kernel_core_def)
  have l: "l < 15" "l \<noteq> xPendingReadyList" using assms(2) by auto
  note s = list_of_generics [OF f tk l]
  have e: "list_is_empty l k \<longleftrightarrow> f l = []" using list_empty_iff [OF f] l by blast
  show "list_is_empty l k \<longleftrightarrow> \<not> (\<exists>t < T. item_container k (generic t) = Some l)"
    unfolding e set_empty [symmetric] s by auto
  assume ne: "\<not> list_is_empty l k"
  then obtain x xs where x: "f l = x # xs" using e by (cases "f l") auto
  then have "x \<in> generic ` {t. t < T \<and> item_container k (generic t) = Some l}" using s by auto
  then obtain t where t: "t < T" "x = generic t" "item_container k (generic t) = Some l" by auto
  have "head_owner l k = Some t" using head_owner_hd [OF f, of l] l x t(2) by simp
  moreover have "item_value k x \<le> item_value k (generic u)" if "u < T" "item_container k (generic u) = Some l" for u
  proof -
    have "generic u \<in> set (f l)" using s that by auto
    moreover have "sorted (map (item_value k) (x # xs))" using f assms(2) x by (auto simp: kernel_lists_def)
    ultimately show ?thesis using x by auto
  qed
  ultimately show "\<exists>t < T. head_owner l k = Some t \<and> item_container k (generic t) = Some l \<and>
      (\<forall>u < T. item_container k (generic u) = Some l \<longrightarrow> item_value k (generic t) \<le> item_value k (generic u))"
    using t by auto
qed

text \<open>Waking one task: its items leave their lists and it becomes ready.\<close>

lemma wake_one:
  assumes "kernel_core T Q {} k" "t < T" "item_container k (generic t) = Some l" "configMAX_PRIORITIES \<le> l"
  shows "\<exists>n k1 k2. list_remove (generic t) k = Some (n, k1) \<and>
    (if item_container k1 (event t) \<noteq> None then map_option snd (list_remove (event t) k1) else Some k1) = Some k2 \<and>
    kernel_core T Q {} (prvAddTaskToReadyList t k2) \<and> lists_changed k (prvAddTaskToReadyList t k2) \<and>
    item_value (prvAddTaskToReadyList t k2) = item_value k \<and>
    xNextTaskUnblockTime (prvAddTaskToReadyList t k2) = xNextTaskUnblockTime k \<and>
    item_container (prvAddTaskToReadyList t k2) = (item_container k)(generic t := Some (priority_of k t), event t := None)"
proof -
  have X: "kernel_core T Q {t} k" using assms(1) kernel_core_weaken by blast
  obtain n k1 where k1: "list_remove (generic t) k = Some (n, k1)" "kernel_core T Q {t} k1" "only_moved k k1 (generic t) None"
    using core_remove_generic [OF X assms(2) _ assms(3,4)] by auto
  obtain k2 where k2: "(if item_container k1 (event t) \<noteq> None then map_option snd (list_remove (event t) k1) else Some k1) = Some k2"
    "kernel_core T Q {t} k2" "relocated k1 k2 (event t) None"
  proof (cases "item_container k1 (event t)")
    case None
    then have "relocated k1 k1 (event t) None" by (auto simp: relocated_def)
    then show ?thesis using that None k1(2) by simp
  next
    case (Some m)
    obtain n' k2 where "list_remove (event t) k1 = Some (n', k2)" "kernel_core T Q {t} k2" "only_moved k1 k2 (event t) None"
      using core_remove_event [OF k1(2) assms(2) Some] by blast
    then show ?thesis using that Some only_moved_relocated by simp
  qed
  note o1 = only_moved_simps [OF k1(3)] and o2 = relocated_simps [OF k2(3)]
  have free: "item_container k2 (generic t) = None" "item_container k2 (event t) = None" by (simp_all add: o1(2) o2(2))
  have r: "kernel_core T Q {} (prvAddTaskToReadyList t k2)"
    "relocated k2 (prvAddTaskToReadyList t k2) (generic t) (Some (priority_of k2 t))"
    using core_add_ready [OF k2(2) assms(2) free] by simp_all
  note o3 = relocated_simps [OF r(2)]
  have "lists_changed k (prvAddTaskToReadyList t k2)"
    using relocated_lists_changed [OF only_moved_relocated [OF k1(3)]] relocated_lists_changed [OF k2(3)]
      relocated_lists_changed [OF r(2)] lists_changed_trans by blast
  moreover have "item_container (prvAddTaskToReadyList t k2) =
      (item_container k)(generic t := Some (priority_of k t), event t := None)"
    by (auto simp: o1 o2 o3 fun_eq_iff)
  ultimately show ?thesis using k1(1) k2(1) r(1) by (auto simp: o1 o2 o3)
qed

text \<open>The tasks on the delayed list \<open>d\<close> whose wake time has come at \<open>c\<close>.\<close>

definition due :: "nat \<Rightarrow> nat \<Rightarrow> tick \<Rightarrow> kernel \<Rightarrow> nat \<Rightarrow> bool" where
  "due T d c k t \<longleftrightarrow> t < T \<and> item_container k (generic t) = Some d \<and> item_value k (generic t) \<le> c"

text \<open>The state after the tasks that are due were woken.\<close>

definition woken :: "nat \<Rightarrow> nat \<Rightarrow> tick \<Rightarrow> kernel \<Rightarrow> kernel \<Rightarrow> bool" where
  "woken T d c k k' \<longleftrightarrow> lists_changed k k' \<and> item_value k' = item_value k \<and>
     (\<forall>t. item_container k' (generic t) = (if due T d c k t then Some (priority_of k t) else item_container k (generic t))) \<and>
     (\<forall>t. item_container k' (event t) = (if due T d c k t then None else item_container k (event t)))"

lemma woken_none: "\<not> (\<exists>t. due T d c k t) \<Longrightarrow> woken T d c k (k\<lparr>xNextTaskUnblockTime := v\<rparr>)"
  by (simp add: woken_def)

lemma unblock_loop_spec:
  assumes "kernel_core T Q {} k" "pxDelayedTaskList k = d" "d = xDelayedTaskList1 \<or> d = xDelayedTaskList2"
    and "pxCurrentTCB k = Some cur"
  shows "\<exists>k'. unblock_loop c sw k = Some (sw \<or> (\<exists>t. due T d c k t \<and> priority_of k cur \<le> priority_of k t), k') \<and>
    kernel_core T Q {} k' \<and> woken T d c k k' \<and>
    (\<forall>t < T. item_container k' (generic t) = Some d \<longrightarrow>
       c < item_value k' (generic t) \<and> xNextTaskUnblockTime k' \<le> item_value k' (generic t))"
  using assms
proof (induction "card {t. t < T \<and> item_container k (generic t) = Some d}" arbitrary: k sw rule: less_induct)
  case less
  note core = less.prems(1) and d = less.prems(2,3) and cur = less.prems(4)
  note head = delayed_head [OF core d(2)]
  show ?case
  proof (cases "list_is_empty d k")
    case True
    then have none: "\<not> (\<exists>t. due T d c k t)" using head(1) by (auto simp: due_def)
    have "unblock_loop c sw k = Some (sw, k\<lparr>xNextTaskUnblockTime := portMAX_DELAY\<rparr>)"
      using True d(1) by (subst unblock_loop.simps) simp
    moreover have "\<forall>t < T. item_container k (generic t) \<noteq> Some d" using True head(1) by blast
    ultimately show ?thesis using core none woken_none [OF none] by auto
  next
    case False
    then obtain t where t: "t < T" "head_owner d k = Some t" "item_container k (generic t) = Some d"
      "\<And>u. u < T \<Longrightarrow> item_container k (generic u) = Some d \<Longrightarrow> item_value k (generic t) \<le> item_value k (generic u)"
      using head(2) by blast
    show ?thesis
    proof (cases "c < item_value k (generic t)")
      case True
      then have none: "\<not> (\<exists>t. due T d c k t)" using t(4) by (auto simp: due_def) (meson leD order.trans)
      have "unblock_loop c sw k = Some (sw, k\<lparr>xNextTaskUnblockTime := item_value k (generic t)\<rparr>)"
        using False True d(1) t(2) by (subst unblock_loop.simps) simp
      moreover have "c < item_value k (generic u)" if "u < T" "item_container k (generic u) = Some d" for u
        using True t(4) [OF that] by (meson order.strict_trans2)
      ultimately show ?thesis using core none woken_none [OF none] t(4) by auto
    next
      case now: False
      have dt: "due T d c k t" using t(1,3) now by (simp add: due_def not_less)
      obtain n k1 k2 where w: "list_remove (generic t) k = Some (n, k1)"
        "(if item_container k1 (event t) \<noteq> None then map_option snd (list_remove (event t) k1) else Some k1) = Some k2"
        "kernel_core T Q {} (prvAddTaskToReadyList t k2)" "lists_changed k (prvAddTaskToReadyList t k2)"
        "item_value (prvAddTaskToReadyList t k2) = item_value k"
        "item_container (prvAddTaskToReadyList t k2) = (item_container k)(generic t := Some (priority_of k t), event t := None)"
        using wake_one [OF core t(1,3)] d(2) by auto
      define k3 where "k3 = prvAddTaskToReadyList t k2"
      note w = w [folded k3_def]
      have pt: "priority_of k t \<noteq> d" using priority_less [OF core t(1)] d(2) by auto
      have same: "tcb k3 = tcb k" "pxCurrentTCB k3 = Some cur" "pxDelayedTaskList k3 = d"
        using w(4) cur d(1) by (simp_all add: lists_changed_def)
      have due: "due T d c k3 u \<longleftrightarrow> due T d c k u \<and> u \<noteq> t" for u
        using pt by (auto simp: due_def w(5,6))
      have "{u. u < T \<and> item_container k3 (generic u) = Some d} = {u. u < T \<and> item_container k (generic u) = Some d} - {t}"
        using pt by (auto simp: w(6))
      then have "card {u. u < T \<and> item_container k3 (generic u) = Some d} < card {u. u < T \<and> item_container k (generic u) = Some d}"
        using t(1,3) by (simp only:) (rule card_Diff1_less, simp_all)
      from less.hyps [OF this w(3) same(3) d(2) same(2),
          of "if priority_of k3 cur \<le> priority_of k3 t then True else sw"]
      obtain k' where k': "unblock_loop c (if priority_of k3 cur \<le> priority_of k3 t then True else sw) k3 =
          Some ((if priority_of k3 cur \<le> priority_of k3 t then True else sw) \<or>
            (\<exists>u. due T d c k3 u \<and> priority_of k3 cur \<le> priority_of k3 u), k')"
        "kernel_core T Q {} k'" "woken T d c k3 k'"
        "\<forall>u < T. item_container k' (generic u) = Some d \<longrightarrow>
           c < item_value k' (generic u) \<and> xNextTaskUnblockTime k' \<le> item_value k' (generic u)"
        by blast
      have "unblock_loop c sw k = unblock_loop c (if priority_of k3 cur \<le> priority_of k3 t then True else sw) k3"
        using False now d(1) t(2) w(1,2) same(2) by (subst unblock_loop.simps) (simp flip: k3_def)
      moreover have "((if priority_of k3 cur \<le> priority_of k3 t then True else sw) \<or>
            (\<exists>u. due T d c k3 u \<and> priority_of k3 cur \<le> priority_of k3 u)) \<longleftrightarrow>
          sw \<or> (\<exists>u. due T d c k u \<and> priority_of k cur \<le> priority_of k u)"
        using dt by (auto simp: same(1) due)
      moreover have "woken T d c k k'"
        using k'(3) dt w(4) by (auto simp: woken_def due w(5,6) same(1) intro: lists_changed_trans)
      ultimately show ?thesis using k' by auto
    qed
  qed
qed

lemma prvResetNextTaskUnblockTime_spec:
  assumes "kernel_core T Q X k" "pxDelayedTaskList k = xDelayedTaskList1 \<or> pxDelayedTaskList k = xDelayedTaskList2"
  shows "\<exists>v. prvResetNextTaskUnblockTime k = Some (k\<lparr>xNextTaskUnblockTime := v\<rparr>) \<and>
    (\<forall>t < T. item_container k (generic t) = Some (pxDelayedTaskList k) \<longrightarrow> v \<le> item_value k (generic t))"
proof (cases "list_is_empty (pxDelayedTaskList k) k")
  case True
  then show ?thesis using delayed_head(1) [OF assms] by (auto simp: prvResetNextTaskUnblockTime_def)
next
  case False
  then show ?thesis using delayed_head(2) [OF assms] by (auto simp: prvResetNextTaskUnblockTime_def)
qed

lemma increment_counters_tick [simp]: "xTickCount (increment_counters c) = xTickCount c + 1"
  by (simp add: increment_counters_def Let_def)

text \<open>The list whose tasks the next tick looks at: at the overflow of the tick count the two delayed lists change places.\<close>

definition next_delayed :: "kernel \<Rightarrow> nat" where
  "next_delayed k = (if now k + 1 = 0 then pxOverflowDelayedTaskList k else pxDelayedTaskList k)"

text \<open>Up to the loop: the counters are advanced, the lists switched, and nobody on the delayed list is missed.\<close>

lemma tick_start:
  assumes "kernel_inv T Q k"
  shows "\<exists>k1. (if now k + 1 = 0 then taskSWITCH_DELAYED_LISTS (k\<lparr>counters := increment_counters (counters k)\<rparr>)
      else Some (k\<lparr>counters := increment_counters (counters k)\<rparr>)) = Some k1 \<and>
    kernel_core T Q {} k1 \<and> item_container k1 = item_container k \<and> item_value k1 = item_value k \<and>
    k1 = k\<lparr>counters := increment_counters (counters k), pxDelayedTaskList := pxDelayedTaskList k1,
      pxOverflowDelayedTaskList := pxOverflowDelayedTaskList k1, xNextTaskUnblockTime := xNextTaskUnblockTime k1\<rparr> \<and>
    pxDelayedTaskList k1 = next_delayed k \<and>
    (pxDelayedTaskList k1 = xDelayedTaskList1 \<and> pxOverflowDelayedTaskList k1 = xDelayedTaskList2 \<or>
     pxDelayedTaskList k1 = xDelayedTaskList2 \<and> pxOverflowDelayedTaskList k1 = xDelayedTaskList1) \<and>
    (\<forall>t < T. item_container k (generic t) = Some (pxDelayedTaskList k1) \<longrightarrow>
       xNextTaskUnblockTime k1 \<le> item_value k (generic t)) \<and>
    (\<forall>t < T. item_container k (generic t) = Some (pxOverflowDelayedTaskList k1) \<longrightarrow>
       item_value k (generic t) < now k + 1)"
proof -
  let ?k = "k\<lparr>counters := increment_counters (counters k)\<rparr>"
  have core: "kernel_core T Q {} k" and del: "delays_ok T k" using assms by (simp_all add: kernel_inv_def)
  show ?thesis
  proof (cases "now k + 1 = 0")
    case True
    then have mx: "now k = portMAX_DELAY" by (simp add: eq_neg_iff_add_eq_0 [symmetric])
    have "\<not> now k < v" for v unfolding mx using le_MAX_VALUE [of v] by (simp add: not_less)
    then have none: "\<not> (\<exists>t < T. item_container k (generic t) = Some (pxDelayedTaskList k))"
      using del by (auto simp: delays_ok_def)
    have l: "pxDelayedTaskList k = xDelayedTaskList1 \<or> pxDelayedTaskList k = xDelayedTaskList2"
      using del by (auto simp: delays_ok_def)
    let ?s = "?k\<lparr>pxDelayedTaskList := pxOverflowDelayedTaskList k, pxOverflowDelayedTaskList := pxDelayedTaskList k\<rparr>"
    have "list_is_empty (pxDelayedTaskList k) ?k"
      using none delayed_head(1) [OF core l] by (simp add: list_is_empty_def list_length_def)
    moreover obtain v where "prvResetNextTaskUnblockTime ?s = Some (?s\<lparr>xNextTaskUnblockTime := v\<rparr>)"
      "\<forall>t < T. item_container k (generic t) = Some (pxOverflowDelayedTaskList k) \<longrightarrow> v \<le> item_value k (generic t)"
      using prvResetNextTaskUnblockTime_spec [of T Q "{}" ?s] core del by (auto simp: delays_ok_def)
    ultimately show ?thesis
      using True del core none by (auto simp: taskSWITCH_DELAYED_LISTS_def next_delayed_def delays_ok_def)
  next
    case False
    then have "now k < now k + 1" using unatSuc [of "now k"] by (simp add: word_less_nat_alt add.commute)
    then show ?thesis
      using False del core by (auto simp: next_delayed_def delays_ok_def intro: less_trans)
  qed
qed

text \<open>
  The state after a tick: the counters are one ahead, the tasks whose wake time is the new count or earlier are ready, and
  everything else is as it was.
\<close>

definition ticked :: "nat \<Rightarrow> kernel \<Rightarrow> kernel \<Rightarrow> bool" where
  "ticked T k k' \<longleftrightarrow> counters k' = increment_counters (counters k) \<and> item_value k' = item_value k \<and>
     (\<forall>t. item_container k' (generic t) =
        (if due T (next_delayed k) (now k + 1) k t then Some (priority_of k t) else item_container k (generic t))) \<and>
     (\<forall>t. item_container k' (event t) = (if due T (next_delayed k) (now k + 1) k t then None else item_container k (event t))) \<and>
     tcb k' = tcb k \<and> pxCurrentTCB k' = pxCurrentTCB k \<and> pxDelayedTaskList k' = next_delayed k \<and>
     uxSchedulerSuspended k' = uxSchedulerSuspended k \<and> uxPendedTicks k' = uxPendedTicks k \<and>
     xYieldPending k' = xYieldPending k \<and> xSchedulerRunning k' = xSchedulerRunning k \<and>
     uxCurrentNumberOfTasks k' = uxCurrentNumberOfTasks k \<and> pendsv k' = pendsv k"

lemma tick_spec:
  assumes "kernel_inv T Q k" "uxSchedulerSuspended k = 0"
  shows "\<exists>sw k'. xTaskIncrementTick k = Some (sw, k') \<and> kernel_inv T Q k' \<and> ticked T k k' \<and>
    (\<forall>t cur. due T (next_delayed k) (now k + 1) k t \<longrightarrow> pxCurrentTCB k = Some cur \<longrightarrow>
       priority_of k cur \<le> priority_of k t \<longrightarrow> sw)"
proof -
  let ?c = "now k + 1" and ?d = "next_delayed k"
  obtain cur where cur: "pxCurrentTCB k = Some cur"
    using assms(1) current_task unfolding kernel_inv_def by blast
  obtain k1 where k1: "(if now k + 1 = 0 then taskSWITCH_DELAYED_LISTS (k\<lparr>counters := increment_counters (counters k)\<rparr>)
        else Some (k\<lparr>counters := increment_counters (counters k)\<rparr>)) = Some k1"
      "kernel_core T Q {} k1" "item_container k1 = item_container k" "item_value k1 = item_value k"
    and same: "k1 = k\<lparr>counters := increment_counters (counters k), pxDelayedTaskList := pxDelayedTaskList k1,
      pxOverflowDelayedTaskList := pxOverflowDelayedTaskList k1, xNextTaskUnblockTime := xNextTaskUnblockTime k1\<rparr>"
    and d: "pxDelayedTaskList k1 = ?d"
      "pxDelayedTaskList k1 = xDelayedTaskList1 \<and> pxOverflowDelayedTaskList k1 = xDelayedTaskList2 \<or>
       pxDelayedTaskList k1 = xDelayedTaskList2 \<and> pxOverflowDelayedTaskList k1 = xDelayedTaskList1"
    and early: "\<forall>t < T. item_container k (generic t) = Some (pxDelayedTaskList k1) \<longrightarrow>
       xNextTaskUnblockTime k1 \<le> item_value k (generic t)"
    and over: "\<forall>t < T. item_container k (generic t) = Some (pxOverflowDelayedTaskList k1) \<longrightarrow>
       item_value k (generic t) < now k + 1"
    using tick_start [OF assms(1)] by blast
  have f1: "tcb k1 = tcb k" "pxCurrentTCB k1 = Some cur" "counters k1 = increment_counters (counters k)"
    "uxSchedulerSuspended k1 = 0" "uxPendedTicks k1 = uxPendedTicks k" "xYieldPending k1 = xYieldPending k"
    "xSchedulerRunning k1 = xSchedulerRunning k" "uxCurrentNumberOfTasks k1 = uxCurrentNumberOfTasks k" "pendsv k1 = pendsv k"
    using cur assms(2) by (subst same, simp)+
  have due1: "due T ?d ?c k1 t \<longleftrightarrow> due T ?d ?c k t" for t by (simp add: due_def k1(3,4))
  obtain sw k2 where k2: "(if xNextTaskUnblockTime k1 \<le> ?c then unblock_loop ?c False k1 else Some (False, k1)) = Some (sw, k2)"
    "kernel_core T Q {} k2" "woken T ?d ?c k1 k2"
    "\<forall>t < T. item_container k2 (generic t) = Some ?d \<longrightarrow>
       ?c < item_value k2 (generic t) \<and> xNextTaskUnblockTime k2 \<le> item_value k2 (generic t)"
    "\<And>t. due T ?d ?c k t \<Longrightarrow> priority_of k cur \<le> priority_of k t \<Longrightarrow> sw"
  proof (cases "xNextTaskUnblockTime k1 \<le> ?c")
    case True
    have "?d = xDelayedTaskList1 \<or> ?d = xDelayedTaskList2" using d by auto
    from unblock_loop_spec [OF k1(2) d(1) this f1(2), of ?c False] True that show ?thesis
      by (auto simp: due1 f1(1))
  next
    case False
    then have late: "?c < item_value k (generic t)" if "t < T" "item_container k (generic t) = Some ?d" for t
      using early that by (auto simp: d(1) not_le intro: less_le_trans)
    then have none: "\<not> due T ?d ?c k t" for t by (auto simp: due_def not_le)
    have "woken T ?d ?c k1 k1" using none by (auto simp: woken_def due1)
    moreover have "\<forall>t < T. item_container k1 (generic t) = Some ?d \<longrightarrow>
       ?c < item_value k1 (generic t) \<and> xNextTaskUnblockTime k1 \<le> item_value k1 (generic t)"
      using late early by (simp add: k1(3,4) d(1))
    ultimately show ?thesis using that [of False k1] False k1(2) none by auto
  qed
  have w: "lists_changed k1 k2" "item_value k2 = item_value k"
    "\<And>t. item_container k2 (generic t) = (if due T ?d ?c k t then Some (priority_of k t) else item_container k (generic t))"
    "\<And>t. item_container k2 (event t) = (if due T ?d ?c k t then None else item_container k (event t))"
    using k2(3) by (auto simp: woken_def due1 f1(1) k1(3,4))
  have f2: "pxDelayedTaskList k2 = ?d" "pxOverflowDelayedTaskList k2 = pxOverflowDelayedTaskList k1"
    "counters k2 = increment_counters (counters k)" "pxCurrentTCB k2 = Some cur" "tcb k2 = tcb k"
    using w(1) by (simp_all add: lists_changed_def d(1) f1)
  have o: "item_container k2 (generic t) = Some (pxOverflowDelayedTaskList k1) \<longleftrightarrow>
      item_container k (generic t) = Some (pxOverflowDelayedTaskList k1)" if "t < T" for t
    using d priority_less [OF k1(2) that] by (auto simp: w(3) due_def f1(1))
  have "delays_ok T k2"
    using d k2(4) over o by (auto simp: delays_ok_def f2 w(2))
  moreover have "pending_ok T k2"
    using assms(1) w(1,4) f1(4,8) by (simp add: kernel_inv_def pending_ok_def lists_changed_def assms(2))
  ultimately have inv: "kernel_inv T Q k2" using k2(2) by (simp add: kernel_inv_def)
  have tk: "ticked T k k2"
    using w f2 cur assms(2) f1 by (simp add: ticked_def lists_changed_def)
  define sw' where "sw' = (if 1 < list_length (priority_of k2 cur) k2 then True else sw)"
  have "now (k\<lparr>counters := increment_counters (counters k)\<rparr>) = ?c" by simp
  then have run: "xTaskIncrementTick k = Some (if xYieldPending k2 then True else sw', k2)"
    unfolding xTaskIncrementTick_def Let_def
    by (simp only: assms(2) k1(1) k2(1) f2(4) sw'_def refl if_True Option.bind.bind_lunit prod.case)
  show ?thesis
    using run inv tk k2(5) cur by (auto simp: sw'_def split: if_splits)
qed

section \<open>Switching tasks\<close>

lemma clz_highest:
  assumes "bit w m" "\<And>q. m < q \<Longrightarrow> \<not> bit w q"
  shows "m < 32 \<and> clz w = 31 - m"
proof -
  have m: "m < 32" using bit_imp_le_length [OF assms(1)] by simp
  have "[0..<32] = [0..<m] @ m # [Suc m..<32]"
    using upt_add_eq_append [of 0 m "32 - m"] upt_conv_Cons [OF m] m by simp
  then have "rev [0..<32] = rev [Suc m..<32] @ m # rev [0..<m]" by simp
  moreover have "takeWhile (\<lambda>i. \<not> bit w i) (rev [Suc m..<32] @ m # rev [0..<m]) = rev [Suc m..<32]"
    using assms by (subst takeWhile_append2) auto
  ultimately show ?thesis using m by (simp add: clz_def)
qed

abbreviation is_ready :: "kernel \<Rightarrow> nat \<Rightarrow> bool" where
  "is_ready k t \<equiv> item_container k (generic t) = Some (priority_of k t)"

lemma ready_on_list:
  "kernel_core T Q {} k \<Longrightarrow> t < T \<Longrightarrow> item_container k (generic t) = Some p \<Longrightarrow> p < configMAX_PRIORITIES \<Longrightarrow> is_ready k t"
  using ready_priority by fastforce

text \<open>The scheduler selects a ready task of the highest priority there is.\<close>

lemma switch_spec:
  assumes "kernel_inv T Q k" "uxSchedulerSuspended k = 0" "u < T" "is_ready k u"
  shows "\<exists>t h. vTaskSwitchContext k = Some (k\<lparr>xYieldPending := False, heap := h, pxCurrentTCB := Some t\<rparr>) \<and>
    kernel_inv T Q (k\<lparr>xYieldPending := False, heap := h, pxCurrentTCB := Some t\<rparr>) \<and> items h = items (heap k) \<and>
    t < T \<and> is_ready k t \<and> (\<forall>v < T. is_ready k v \<longrightarrow> priority_of k v \<le> priority_of k t)"
proof -
  have core: "kernel_core T Q {} k" and del: "delays_ok T k" using assms(1) by (simp_all add: kernel_inv_def)
  have rd: "ready_ok T {} k" and tk: "tasks_ok T Q {} k" using core by (simp_all add: kernel_core_def)
  obtain f where f: "kernel_lists T Q f k" using core kernel_core_lists by blast
  have bits: "bit (uxTopReadyPriority k) p \<longleftrightarrow> (\<exists>v < T. is_ready k v \<and> priority_of k v = p)" for p
  proof
    assume "bit (uxTopReadyPriority k) p"
    then show "\<exists>v < T. is_ready k v \<and> priority_of k v = p" using rd by (fastforce simp: ready_ok_def)
  next
    assume "\<exists>v < T. is_ready k v \<and> priority_of k v = p"
    then show "bit (uxTopReadyPriority k) p" using rd priority_less [OF core] by (auto simp: ready_ok_def)
  qed
  define P where "P = {p. bit (uxTopReadyPriority k) p}"
  define p where "p = Max P"
  have "P \<subseteq> {..<10}" using rd by (auto simp: P_def ready_ok_def)
  then have P: "finite P" "P \<noteq> {}" using bits assms(3,4) by (auto simp: P_def intro: finite_subset)
  then have p: "bit (uxTopReadyPriority k) p" "\<And>q. p < q \<Longrightarrow> \<not> bit (uxTopReadyPriority k) q"
    using Max_in [OF P] Max_ge [OF P(1)] by (auto simp: p_def P_def dest: leD)
  then have p10: "p < 10" using rd by (auto simp: ready_ok_def)
  have high: "portGET_HIGHEST_PRIORITY k = Some p"
    using clz_highest [OF p] p10 by (simp add: portGET_HIGHEST_PRIORITY_def Let_def)
  have ne: "f p \<noteq> []"
    using list_of_generics [OF f tk, of p] p(1) p10 rd by (auto simp: ready_ok_def)
  then have len: "list_length p k \<noteq> 0"
    using list_empty_iff [OF f, of p] p10 by (simp add: list_is_empty_def)
  obtain q h where g: "listGET_OWNER_OF_NEXT_ENTRY p (heap k) = (q, h)" by fastforce
  have hold: "holds ({..<15} \<union> Q) (2 * T) (heap k) f" using f by (simp add: kernel_lists_def)
  have nx: "q \<in> set (f p)" "holds ({..<15} \<union> Q) (2 * T) h f" "items h = items (heap k)"
    using holds_next [OF hold _ ne g] p10 by auto
  obtain t where t: "q = generic t" "t < T" "item_container k (generic t) = Some p"
    using nx(1) list_of_generics [OF f tk, of p] p10 by auto
  have rt: "is_ready k t" using ready_on_list [OF core t(2,3)] p10 by simp
  then have pt: "priority_of k t = p" using t(3) by simp
  define k' where "k' = k\<lparr>xYieldPending := False, heap := h, pxCurrentTCB := Some t\<rparr>"
  have run: "vTaskSwitchContext k = Some k'"
    using assms(2) high len g t(1)
    by (simp add: vTaskSwitchContext_def taskSELECT_HIGHEST_PRIORITY_TASK_def portGET_HIGHEST_PRIORITY_def
        list_length_def k'_def)
  have it: "item_container k' = item_container k" "item_value k' = item_value k"
    by (simp_all add: k'_def item_container_def item_value_def fun_eq_iff nx(3))
  have "kernel_lists T Q f k'" using f nx(2) it(2) by (simp add: kernel_lists_def k'_def)
  moreover have "tasks_ok T Q {} k'" using tk t(2) unfolding tasks_ok_def it by (simp add: k'_def)
  moreover have "ready_ok T {} k'" using rd unfolding ready_ok_def it by (simp add: k'_def)
  moreover have "pending_ok T k'" using assms(1) unfolding kernel_inv_def pending_ok_def it by (simp add: k'_def)
  moreover have "delays_ok T k'" using del unfolding delays_ok_def it by (simp add: k'_def)
  ultimately have "kernel_inv T Q k'" by (auto simp: kernel_inv_def kernel_core_def)
  moreover have "priority_of k v \<le> priority_of k t" if "v < T" "is_ready k v" for v
  proof -
    have "bit (uxTopReadyPriority k) (priority_of k v)" using bits that by blast
    then show ?thesis using p(2) pt by (meson leI)
  qed
  ultimately show ?thesis using run nx(3) t(2) rt unfolding k'_def by blast
qed

section \<open>Suspending and resuming the scheduler\<close>

lemma vTaskSuspendAll_spec:
  assumes "kernel_inv T Q k" "uxSchedulerSuspended k + 1 \<noteq> 0"
  shows "kernel_inv T Q (vTaskSuspendAll k)"
  using assms by (simp add: kernel_inv_def vTaskSuspendAll_def delays_ok_def pending_ok_def)

text \<open>Readying one task that waits for an event: both items leave their lists.\<close>

lemma unblock_one:
  assumes "kernel_core T Q {} k" "t < T" "item_container k (event t) = Some l"
  shows "\<exists>n m k1 k2. list_remove (event t) k = Some (n, k1) \<and> list_remove (generic t) k1 = Some (m, k2) \<and>
    kernel_core T Q {} (prvAddTaskToReadyList t k2) \<and> lists_changed k (prvAddTaskToReadyList t k2) \<and>
    xNextTaskUnblockTime (prvAddTaskToReadyList t k2) = xNextTaskUnblockTime k \<and>
    item_value (prvAddTaskToReadyList t k2) = item_value k \<and>
    item_container (prvAddTaskToReadyList t k2) = (item_container k)(generic t := Some (priority_of k t), event t := None)"
proof -
  obtain g where g: "item_container k (generic t) = Some g" "configMAX_PRIORITIES \<le> g"
    using assms unfolding kernel_core_def tasks_ok_def by (metis empty_iff not_le option.distinct(1) option.exhaust)
  have X: "kernel_core T Q {t} k" using assms(1) kernel_core_weaken by blast
  obtain n k1 where k1: "list_remove (event t) k = Some (n, k1)" "kernel_core T Q {t} k1" "only_moved k k1 (event t) None"
    using core_remove_event [OF X assms(2,3)] by auto
  note o1 = only_moved_simps [OF k1(3)]
  have g1: "item_container k1 (generic t) = Some g" using g(1) by (simp add: o1(2))
  obtain m k2 where k2: "list_remove (generic t) k1 = Some (m, k2)" "kernel_core T Q {t} k2" "only_moved k1 k2 (generic t) None"
    using core_remove_generic [OF k1(2) assms(2) _ g1 g(2)] by auto
  note o2 = only_moved_simps [OF k2(3)]
  have free: "item_container k2 (generic t) = None" "item_container k2 (event t) = None" by (simp_all add: o1(2) o2(2))
  have r: "kernel_core T Q {} (prvAddTaskToReadyList t k2)"
    "relocated k2 (prvAddTaskToReadyList t k2) (generic t) (Some (priority_of k2 t))"
    using core_add_ready [OF k2(2) assms(2) free] by simp_all
  note o3 = relocated_simps [OF r(2)]
  have "lists_changed k (prvAddTaskToReadyList t k2)"
    using relocated_lists_changed [OF only_moved_relocated [OF k1(3)]] relocated_lists_changed [OF only_moved_relocated [OF k2(3)]]
      relocated_lists_changed [OF r(2)] lists_changed_trans by blast
  moreover have "item_container (prvAddTaskToReadyList t k2) =
      (item_container k)(generic t := Some (priority_of k t), event t := None)"
    by (auto simp: o1 o2 o3 fun_eq_iff)
  ultimately show ?thesis using k1(1) k2(1) r(1) by (auto simp: o1 o2 o3)
qed

text \<open>Ready tasks do not matter for the delays.\<close>

lemma delays_ok_readied:
  assumes "delays_ok T k" "kernel_core T Q X k" "lists_changed k k'" "xNextTaskUnblockTime k' = xNextTaskUnblockTime k"
    and "item_value k' = item_value k"
    and "\<And>t. t < T \<Longrightarrow> item_container k' (generic t) = item_container k (generic t) \<or> item_container k' (generic t) = Some (priority_of k t)"
  shows "delays_ok T k'"
proof -
  have "item_container k (generic t) = Some l"
    if "t < T" "item_container k' (generic t) = Some l" "l = xDelayedTaskList1 \<or> l = xDelayedTaskList2" for t l
    using assms(6) [OF that(1)] that priority_less [OF assms(2) that(1)] by auto
  then show ?thesis using assms(1,3,4,5) unfolding delays_ok_def lists_changed_def by metis
qed

definition pending :: "nat \<Rightarrow> kernel \<Rightarrow> nat \<Rightarrow> bool" where
  "pending T k t \<longleftrightarrow> t < T \<and> item_container k (event t) = Some xPendingReadyList"

lemma ready_pending_spec:
  assumes "kernel_core T Q {} k" "delays_ok T k" "pxCurrentTCB k = Some cur"
  shows "\<exists>y k'. ready_pending k = Some k' \<and> kernel_core T Q {} k' \<and> delays_ok T k' \<and>
    lists_changed (k\<lparr>xYieldPending := y\<rparr>) k' \<and> item_value k' = item_value k \<and>
    (y \<longleftrightarrow> xYieldPending k \<or> (\<exists>t. pending T k t \<and> priority_of k cur \<le> priority_of k t)) \<and>
    (\<forall>t. item_container k' (generic t) = (if pending T k t then Some (priority_of k t) else item_container k (generic t))) \<and>
    (\<forall>t. item_container k' (event t) = (if pending T k t then None else item_container k (event t)))"
  using assms
proof (induction "card {t. pending T k t}" arbitrary: k rule: less_induct)
  case less
  note core = less.prems(1) and cur = less.prems(3)
  note head = event_head [OF core, of xPendingReadyList, simplified]
  show ?case
  proof (cases "list_is_empty xPendingReadyList k")
    case True
    then have none: "\<not> pending T k t" for t using head(1) by (auto simp: pending_def)
    have "ready_pending k = Some k" using True by (subst ready_pending.simps) simp
    then show ?thesis using less.prems none by (intro exI [of _ "xYieldPending k"] exI [of _ k]) (simp add: lists_changed_def)
  next
    case False
    then obtain t where t: "t < T" "head_owner xPendingReadyList k = Some t" "item_container k (event t) = Some xPendingReadyList"
      using head(2) by blast
    have pt: "pending T k t" using t by (simp add: pending_def)
    obtain n m k1 k2 where w: "list_remove (event t) k = Some (n, k1)" "list_remove (generic t) k1 = Some (m, k2)"
      "kernel_core T Q {} (prvAddTaskToReadyList t k2)" "lists_changed k (prvAddTaskToReadyList t k2)"
      "xNextTaskUnblockTime (prvAddTaskToReadyList t k2) = xNextTaskUnblockTime k"
      "item_value (prvAddTaskToReadyList t k2) = item_value k"
      "item_container (prvAddTaskToReadyList t k2) = (item_container k)(generic t := Some (priority_of k t), event t := None)"
      using unblock_one [OF core t(1,3)] by blast
    define k3 where "k3 = prvAddTaskToReadyList t k2"
    note w = w [folded k3_def]
    define k4 where "k4 = (if priority_of k3 cur \<le> priority_of k3 t then k3\<lparr>xYieldPending := True\<rparr> else k3)"
    have same: "tcb k3 = tcb k" "pxCurrentTCB k3 = Some cur" "xYieldPending k3 = xYieldPending k"
      using w(4) cur by (simp_all add: lists_changed_def)
    have d3: "delays_ok T k3"
      by (rule delays_ok_readied [OF less.prems(2) core w(4,5,6)]) (simp add: w(7))
    have k4: "kernel_core T Q {} k4" "delays_ok T k4" "pxCurrentTCB k4 = Some cur" "item_container k4 = item_container k3"
      "item_value k4 = item_value k" "tcb k4 = tcb k" "lists_changed (k\<lparr>xYieldPending := xYieldPending k4\<rparr>) k4"
      "xYieldPending k4 \<longleftrightarrow> xYieldPending k \<or> priority_of k cur \<le> priority_of k t"
      using w(3,4,6) d3 same by (auto simp: k4_def delays_ok_def lists_changed_def)
    have pend: "pending T k4 u \<longleftrightarrow> pending T k u \<and> u \<noteq> t" for u
      by (auto simp: pending_def k4(4) w(7))
    have "{u. pending T k4 u} = {u. pending T k u} - {t}" using pend by auto
    moreover have "finite {u. pending T k u}" by (simp add: pending_def)
    ultimately have "card {u. pending T k4 u} < card {u. pending T k u}"
      using pt by (simp only:) (rule card_Diff1_less, simp_all)
    from less.hyps [OF this k4(1-3)] obtain y k' where k': "ready_pending k4 = Some k'" "kernel_core T Q {} k'" "delays_ok T k'"
      "lists_changed (k4\<lparr>xYieldPending := y\<rparr>) k'" "item_value k' = item_value k4"
      "y \<longleftrightarrow> xYieldPending k4 \<or> (\<exists>t. pending T k4 t \<and> priority_of k4 cur \<le> priority_of k4 t)"
      "\<forall>t. item_container k' (generic t) = (if pending T k4 t then Some (priority_of k4 t) else item_container k4 (generic t))"
      "\<forall>t. item_container k' (event t) = (if pending T k4 t then None else item_container k4 (event t))"
      by blast
    have "ready_pending k = ready_pending k4"
      using False t(2) w(1,2) same(2) by (subst ready_pending.simps) (simp add: k4_def flip: k3_def)
    moreover have "y \<longleftrightarrow> xYieldPending k \<or> (\<exists>t. pending T k t \<and> priority_of k cur \<le> priority_of k t)"
      using pt by (auto simp: k'(6) k4(6,8) pend)
    moreover have "lists_changed (k\<lparr>xYieldPending := y\<rparr>) k'" using k'(4) k4(7) by (simp add: lists_changed_def)
    moreover have "item_container k' (generic u) = (if pending T k u then Some (priority_of k u) else item_container k (generic u))"
      "item_container k' (event u) = (if pending T k u then None else item_container k (event u))" for u
      using pt by (simp_all add: k'(7,8) pend k4(4,6) w(7))
    ultimately show ?thesis using k'(1-3,5) k4(5) by (intro exI [of _ y] exI [of _ k']) simp
  qed
qed

lemma inv_fields [simp]:
  "kernel_inv T Q (k\<lparr>uxPendedTicks := m\<rparr>) = kernel_inv T Q k" "kernel_inv T Q (k\<lparr>xYieldPending := y\<rparr>) = kernel_inv T Q k"
  "kernel_inv T Q (k\<lparr>pendsv := y\<rparr>) = kernel_inv T Q k"
  by (simp_all add: kernel_inv_def delays_ok_def pending_ok_def)

text \<open>The tasks, the current one among them, keep their priorities and ready tasks stay ready.\<close>

definition undisturbed :: "nat \<Rightarrow> kernel \<Rightarrow> kernel \<Rightarrow> bool" where
  "undisturbed T k k' \<longleftrightarrow> tcb k' = tcb k \<and> pxCurrentTCB k' = pxCurrentTCB k \<and> xSchedulerRunning k' = xSchedulerRunning k \<and>
     uxCurrentNumberOfTasks k' = uxCurrentNumberOfTasks k \<and> (\<forall>t < T. is_ready k t \<longrightarrow> is_ready k' t) \<and>
     (xYieldPending k \<longrightarrow> xYieldPending k')"

lemma undisturbed_trans: "undisturbed T k k' \<Longrightarrow> undisturbed T k' k'' \<Longrightarrow> undisturbed T k k''"
  by (auto simp: undisturbed_def)

lemma catch_up_spec:
  assumes "kernel_inv T Q k" "uxSchedulerSuspended k = 0"
  shows "\<exists>k'. catch_up k = Some k' \<and> kernel_inv T Q k' \<and> undisturbed T k k' \<and> uxSchedulerSuspended k' = 0 \<and>
    uxPendedTicks k' = 0 \<and> pendsv k' = pendsv k \<and>
    counters k' = (increment_counters ^^ unat (uxPendedTicks k)) (counters k)"
  using assms
proof (induction "unat (uxPendedTicks k)" arbitrary: k)
  case 0
  then have "uxPendedTicks k = 0" by (simp add: unat_eq_zero)
  then show ?case using 0 by (subst catch_up.simps) (simp add: undisturbed_def)
next
  case (Suc n)
  then have nz: "uxPendedTicks k \<noteq> 0" by (auto simp: unat_eq_zero)
  obtain sw k1 where k1: "xTaskIncrementTick k = Some (sw, k1)" "kernel_inv T Q k1" "ticked T k k1"
    using tick_spec [OF Suc.prems] by blast
  define k2 where "k2 = (if sw then k1\<lparr>xYieldPending := True\<rparr> else k1)"
  define k3 where "k3 = k2\<lparr>uxPendedTicks := uxPendedTicks k2 - 1\<rparr>"
  have k3: "kernel_inv T Q k3" "uxSchedulerSuspended k3 = 0" "uxPendedTicks k3 = uxPendedTicks k - 1"
    "pendsv k3 = pendsv k" "counters k3 = increment_counters (counters k)" "undisturbed T k k3"
    using k1(2,3) Suc.prems(2) by (auto simp: k3_def k2_def ticked_def undisturbed_def)
  have n: "unat (uxPendedTicks k - 1) = n" using Suc.hyps(2) nz by (simp add: unat_minus_one)
  have "n = unat (uxPendedTicks k3)" using n k3(3) by simp
  from Suc.hyps(1) [OF this k3(1,2)] obtain k' where k': "catch_up k3 = Some k'" "kernel_inv T Q k'" "undisturbed T k3 k'"
    "uxSchedulerSuspended k' = 0" "uxPendedTicks k' = 0" "pendsv k' = pendsv k3"
    "counters k' = (increment_counters ^^ unat (uxPendedTicks k3)) (counters k3)" by blast
  have "catch_up k = catch_up k3"
    using nz k1(1) by (subst catch_up.simps) (simp add: k2_def k3_def Let_def)
  moreover have "counters k' = (increment_counters ^^ unat (uxPendedTicks k)) (counters k)"
    using k'(7) k3(3,5) n unfolding Suc.hyps(2) [symmetric] by (simp add: funpow_swap1)
  ultimately show ?case using k' k3 undisturbed_trans by auto
qed

text \<open>
  Resuming the scheduler: while it stays suspended nothing happens; in the end the tasks made pending are ready, the missed
  ticks have been counted, and if one of the tasks made ready should run a switch is requested.
\<close>

lemma resume_spec:
  assumes "kernel_inv T Q k" "uxSchedulerSuspended k \<noteq> 0"
  shows "\<exists>y k'. xTaskResumeAll k = Some (y, k') \<and> kernel_inv T Q k' \<and> undisturbed T k k' \<and>
    uxSchedulerSuspended k' = uxSchedulerSuspended k - 1 \<and>
    (uxSchedulerSuspended k = 1 \<longrightarrow> uxPendedTicks k' = 0 \<and> (\<forall>t. pending T k t \<longrightarrow> is_ready k' t) \<and>
       counters k' = (increment_counters ^^ unat (uxPendedTicks k)) (counters k) \<and> (y \<longrightarrow> pendsv k') \<and>
       (\<forall>t cur. pending T k t \<longrightarrow> pxCurrentTCB k = Some cur \<longrightarrow> priority_of k cur \<le> priority_of k t \<longrightarrow> y)) \<and>
    (uxSchedulerSuspended k \<noteq> 1 \<longrightarrow> \<not> y \<and> k' = k\<lparr>uxSchedulerSuspended := uxSchedulerSuspended k - 1\<rparr>)"
proof -
  define k1 where "k1 = k\<lparr>uxSchedulerSuspended := uxSchedulerSuspended k - 1\<rparr>"
  have core: "kernel_core T Q {} k1" and del: "delays_ok T k1" and num: "0 < uxCurrentNumberOfTasks k1"
    using assms(1) by (simp_all add: kernel_inv_def k1_def delays_ok_def pending_ok_def)
  have same: "item_container k1 = item_container k" "tcb k1 = tcb k" "pxCurrentTCB k1 = pxCurrentTCB k"
    "uxPendedTicks k1 = uxPendedTicks k" "counters k1 = counters k" "xYieldPending k1 = xYieldPending k"
    by (simp_all add: k1_def)
  show ?thesis
  proof (cases "uxSchedulerSuspended k = 1")
    case False
    have "uxSchedulerSuspended k1 \<noteq> 0" using False by (simp add: k1_def)
    moreover from this have "xTaskResumeAll k = Some (False, k1)"
      using assms(2) by (simp add: xTaskResumeAll_def Let_def k1_def)
    moreover have "kernel_inv T Q k1"
      using core del num calculation(1) by (simp add: kernel_inv_def pending_ok_def)
    ultimately show ?thesis using False
      by (intro exI [of _ False] exI [of _ k1]) (simp add: k1_def undisturbed_def)
  next
    case True
    then have z: "uxSchedulerSuspended k1 = 0" by (simp add: k1_def)
    obtain cur where cur: "pxCurrentTCB k1 = Some cur" using current_task [OF core] by blast
    obtain y k2 where k2: "ready_pending k1 = Some k2" "kernel_core T Q {} k2" "delays_ok T k2"
      "lists_changed (k1\<lparr>xYieldPending := y\<rparr>) k2"
      "y \<longleftrightarrow> xYieldPending k1 \<or> (\<exists>t. pending T k1 t \<and> priority_of k1 cur \<le> priority_of k1 t)"
      "\<forall>t. item_container k2 (generic t) = (if pending T k1 t then Some (priority_of k1 t) else item_container k1 (generic t))"
      "\<forall>t. item_container k2 (event t) = (if pending T k1 t then None else item_container k1 (event t))"
      using ready_pending_spec [OF core del cur] by blast
    have f2: "uxSchedulerSuspended k2 = 0" "xYieldPending k2 = y" "uxPendedTicks k2 = uxPendedTicks k" "counters k2 = counters k"
      "tcb k2 = tcb k" "pxCurrentTCB k2 = Some cur" "uxCurrentNumberOfTasks k2 = uxCurrentNumberOfTasks k"
      using k2(4) z cur by (simp_all add: lists_changed_def same) (simp add: k1_def)
    have "item_container k2 (event t) \<noteq> Some xPendingReadyList" if "t < T" for t
      using k2(7) that by (auto simp: pending_def split: if_splits)
    then have inv2: "kernel_inv T Q k2"
      using k2(2,3) num f2(7) by (simp add: kernel_inv_def pending_ok_def k1_def)
    have u2: "undisturbed T k k2"
      using k2(5,6) f2 k2(4) cur by (auto simp: undisturbed_def same lists_changed_def k1_def)
    obtain k3 where k3: "catch_up k2 = Some k3" "kernel_inv T Q k3" "undisturbed T k2 k3" "uxSchedulerSuspended k3 = 0"
      "uxPendedTicks k3 = 0" "counters k3 = (increment_counters ^^ unat (uxPendedTicks k)) (counters k)"
      using catch_up_spec [OF inv2 f2(1)] f2(3,4) by auto
    define k' where "k' = (if xYieldPending k3 then portYIELD k3 else k3)"
    have run: "xTaskResumeAll k = Some (xYieldPending k3, k')"
      using assms(2) z num k2(1) k3(1) by (simp add: xTaskResumeAll_def Let_def k'_def flip: k1_def)
    have k': "kernel_inv T Q k'" "undisturbed T k3 k'" "uxSchedulerSuspended k' = 0" "uxPendedTicks k' = 0"
      "counters k' = counters k3" "xYieldPending k3 \<longrightarrow> pendsv k'"
      using k3(2,4,5) by (auto simp: k'_def portYIELD_def undisturbed_def)
    have u': "undisturbed T k2 k'" using k3(3) k'(2) undisturbed_trans by blast
    have pend: "pending T k t \<Longrightarrow> is_ready k' t" for t
    proof -
      assume p: "pending T k t"
      then have "is_ready k2 t" using k2(6) by (simp add: pending_def same f2(5))
      then show ?thesis using u' p by (simp add: undisturbed_def pending_def)
    qed
    have yp: "pending T k t \<Longrightarrow> priority_of k cur \<le> priority_of k t \<Longrightarrow> xYieldPending k3" for t
      using k2(5) f2(2) k3(3) by (auto simp: pending_def same undisturbed_def)
    show ?thesis
      using run k' k3(6) True cur u2 u' undisturbed_trans pend yp same(3)
      by (intro exI [of _ "xYieldPending k3"] exI [of _ k']) auto
  qed
qed

end
