(* ===== verification/Rtos_Block.thy ===== *)
theory Rtos_Block
  imports Rtos_Sched
begin

text \<open>
  Blocking, waking, priorities and suspension of tasks over the invariant of the scheduler, and the relation of all its
  steps: whatever sequence of calls, ticks and task switches a system runs through, the invariant holds.
\<close>

section \<open>Item values\<close>

lemma seg_set_value: "seg (set_value p v h) a xs b = seg h a xs b"
  by (induction xs arbitrary: a) (auto simp: store_simps)

lemma container_set_value: "container_of (set_value p v h) q = container_of h q"
  by (simp add: store_simps)

lemma holds_set_value: "holds L n (set_value (Item i) v h) f = holds L n h f"
  by (simp add: holds_def is_list_def seg_set_value container_set_value lists_set(4)) (simp add: store_simps)

lemma set_item_value_simps [simp]:
  "item_container (set_item_value p v k) = item_container k"
  "item_value (set_item_value p v k) = (item_value k)(p := v)"
  "tcb (set_item_value p v k) = tcb k" "pxCurrentTCB (set_item_value p v k) = pxCurrentTCB k"
  "uxTopReadyPriority (set_item_value p v k) = uxTopReadyPriority k" "counters (set_item_value p v k) = counters k"
  "pxDelayedTaskList (set_item_value p v k) = pxDelayedTaskList k"
  "pxOverflowDelayedTaskList (set_item_value p v k) = pxOverflowDelayedTaskList k"
  "xNextTaskUnblockTime (set_item_value p v k) = xNextTaskUnblockTime k"
  "uxSchedulerSuspended (set_item_value p v k) = uxSchedulerSuspended k"
  "uxCurrentNumberOfTasks (set_item_value p v k) = uxCurrentNumberOfTasks k"
  by (auto simp: set_item_value_def item_container_def item_value_def store_simps fun_eq_iff)

lemma lists_changed_value [simp]: "lists_changed k (set_item_value p v k)"
  by (simp add: lists_changed_def set_item_value_def)

text \<open>The value of an item may change while the item is on no delayed list.\<close>

lemma core_set_value:
  assumes "kernel_core T Q X k" "i < 2 * T"
    and "item_container k (Item i) \<noteq> Some xDelayedTaskList1" "item_container k (Item i) \<noteq> Some xDelayedTaskList2"
  shows "kernel_core T Q X (set_item_value (Item i) v k)"
proof -
  obtain f where f: "kernel_lists T Q f k" using assms(1) kernel_core_lists by blast
  have "Item i \<notin> set (f l)" if "l = xDelayedTaskList1 \<or> l = xDelayedTaskList2" for l
    using container_iff [OF f, of l "Item i" i] that assms by auto
  then have "map ((item_value k)(Item i := v)) (f l) = map (item_value k) (f l)"
    if "l = xDelayedTaskList1 \<or> l = xDelayedTaskList2" for l
    using that by auto
  then have "kernel_lists T Q f (set_item_value (Item i) v k)"
    using f by (simp add: kernel_lists_def del: map_eq_conv) (simp add: set_item_value_def holds_set_value)
  then show ?thesis
    using assms(1) by (auto simp: kernel_core_def tasks_ok_def ready_ok_def)
qed

lemma core_set_event_value:
  assumes "kernel_core T Q X k" "t < T"
  shows "kernel_core T Q X (set_item_value (event t) v k)"
  using assms event_container [OF assms(1,2)] core_queues [OF assms(1)] event_Item [OF assms(2)]
    core_set_value [OF assms(1), of "2 * t + 1" v] by fastforce

lemma delays_ok_event_value [simp]: "delays_ok T (set_item_value (event t) v k) = delays_ok T k"
  by (simp add: delays_ok_def)

lemma pending_ok_value [simp]: "pending_ok T (set_item_value p v k) = pending_ok T k"
  by (simp add: pending_ok_def)

lemma inv_set_event_value:
  "kernel_inv T Q k \<Longrightarrow> t < T \<Longrightarrow> kernel_inv T Q (set_item_value (event t) v k)"
  using core_set_event_value by (simp add: kernel_inv_def)

section \<open>Blocking\<close>

text \<open>Until when a task is delayed: on which list the wake time is put.\<close>

lemma add_delayed_spec:
  assumes "kernel_core T Q {t} k" "t < T" "pxCurrentTCB k = Some t" "item_container k (generic t) = None"
    and "delays_ok T k" "v \<noteq> now k"
  shows "\<exists>k'. prvAddCurrentTaskToDelayedList v k = Some k' \<and> kernel_core T Q {} k' \<and> delays_ok T k' \<and> lists_changed k k' \<and>
    item_container k' = (item_container k)(generic t :=
      Some (if v < now k then pxOverflowDelayedTaskList k else pxDelayedTaskList k)) \<and>
    item_value k' = (item_value k)(generic t := v)"
proof -
  let ?l = "if v < now k then pxOverflowDelayedTaskList k else pxDelayedTaskList k"
  define k1 where "k1 = set_item_value (generic t) v k"
  have l: "?l = xDelayedTaskList1 \<or> ?l = xDelayedTaskList2" using assms(5) by (auto simp: delays_ok_def)
  have c1: "kernel_core T Q {t} k1"
    unfolding k1_def using core_set_value [OF assms(1), of "2 * t" v] generic_Item [OF assms(2)] assms(4) by simp
  have n1: "item_container k1 (generic t) = None" using assms(4) by (simp add: k1_def)
  obtain k2 where k2: "list_insert ?l (generic t) k1 = Some k2" "kernel_core T Q {t} k2" "only_moved k1 k2 (generic t) (Some ?l)"
    using core_insert_delayed [OF c1 assms(2) _ n1 l] by auto
  note o2 = only_moved_simps [OF k2(3)]
  define k' where "k' = (if \<not> v < now k \<and> v < xNextTaskUnblockTime k2 then k2\<lparr>xNextTaskUnblockTime := v\<rparr> else k2)"
  have run: "prvAddCurrentTaskToDelayedList v k = Some k'"
    using assms(3) k2(1) by (simp add: prvAddCurrentTaskToDelayedList_def Let_def k'_def flip: k1_def) (auto simp: k1_def)
  have "item_container k2 (generic t) = Some ?l" by (simp add: o2(2))
  then have "kernel_core T Q {} k2" using core_settled [of T Q t "{}" k2 ?l] k2(2) l by auto
  then have core: "kernel_core T Q {} k'" by (simp add: k'_def)
  have it: "item_container k' = (item_container k)(generic t := Some ?l)" "item_value k' = (item_value k)(generic t := v)"
    by (simp_all add: k'_def o2 k1_def)
  have ch: "lists_changed k k'" by (simp add: lists_changed_def k'_def o2 k1_def) (simp add: set_item_value_def)
  have nx: "xNextTaskUnblockTime k' = (if \<not> v < now k \<and> v < xNextTaskUnblockTime k then v else xNextTaskUnblockTime k)"
    by (simp add: k'_def o2 k1_def)
  have "delays_ok T k'"
    using assms(5,6) unfolding delays_ok_def nx it
    by (auto simp: not_less lists_changed_def order_less_le split: if_splits
        simp: ch [unfolded lists_changed_def] intro: order.trans)
  then show ?thesis using run core ch it by blast
qed

lemma reset_items [simp]:
  "item_container (portRESET_READY_PRIORITY p k) = item_container k"
  "item_value (portRESET_READY_PRIORITY p k) = item_value k"
  by (simp_all add: portRESET_READY_PRIORITY_def item_container_def item_value_def fun_eq_iff)

lemma relocated_reset:
  "only_moved k k' p c \<Longrightarrow> relocated k (if b then portRESET_READY_PRIORITY q k' else k') p c"
  by (auto dest: only_moved_relocated) (auto simp: relocated_def portRESET_READY_PRIORITY_def item_container_def
      item_value_def fun_eq_iff dest: only_moved_relocated intro!: kernel.equality simp: only_moved_simps)

text \<open>A ready task leaves its list; it is then exempted until it is put somewhere.\<close>

lemma leave_ready_list_spec:
  assumes "kernel_core T Q {t} k" "t < T" "is_ready k t"
  shows "\<exists>k'. leave_ready_list t k = Some k' \<and> kernel_core T Q {t} k' \<and> relocated k k' (generic t) None"
proof -
  obtain n k1 where k1: "list_remove (generic t) k = Some (n, k1)" "only_moved k k1 (generic t) None"
    "kernel_core T Q {t} (if n = 0 then portRESET_READY_PRIORITY (priority_of k t) k1 else k1)"
    using core_leave_ready [OF assms(1,2) _ assms(3) priority_less [OF assms(1,2)]] by blast
  moreover have "priority_of k1 t = priority_of k t" by (simp add: only_moved_simps [OF k1(2)])
  ultimately show ?thesis
    using relocated_reset [OF k1(2)] by (simp add: leave_ready_list_def cong: if_cong split del: if_split)
qed

text \<open>Where a task that waits forever, or for a number of ticks, goes.\<close>

definition blocked :: "kernel \<Rightarrow> nat \<Rightarrow> bool \<Rightarrow> tick \<Rightarrow> kernel \<Rightarrow> bool" where
  "blocked k t forever ticks k' \<longleftrightarrow> lists_changed k k' \<and>
     (\<forall>u. u \<noteq> t \<longrightarrow> item_container k' (generic u) = item_container k (generic u) \<and>
        item_container k' (event u) = item_container k (event u) \<and> item_value k' (generic u) = item_value k (generic u)) \<and>
     (if forever then item_container k' (generic t) = Some xSuspendedTaskList
      else item_container k' (generic t) \<in> {Some xDelayedTaskList1, Some xDelayedTaskList2} \<and>
        item_value k' (generic t) = now k + ticks)"

lemma block_current_spec:
  assumes "kernel_core T Q {t} k" "t < T" "pxCurrentTCB k = Some t" "item_container k (generic t) = None"
    and "delays_ok T k" "ticks \<noteq> 0 \<or> forever"
  shows "\<exists>k'. block_current forever ticks k = Some k' \<and> kernel_core T Q {} k' \<and> delays_ok T k' \<and>
    blocked k t forever ticks k' \<and> item_container k' (event t) = item_container k (event t)"
proof (cases forever)
  case True
  let ?k = "list_insert_end xSuspendedTaskList (generic t) k"
  have s: "kernel_core T Q {t} ?k" "only_moved k ?k (generic t) (Some xSuspendedTaskList)"
    using core_suspend [OF assms(1,2) _ assms(4)] by simp_all
  note o = only_moved_simps [OF s(2)]
  have "kernel_core T Q {} ?k" by (rule core_settled [OF _, of T Q t "{}" _ xSuspendedTaskList]) (use s(1) o in auto)
  moreover have "delays_ok T ?k"
    by (rule delays_ok_relocated [OF assms(5) only_moved_relocated [OF s(2)]]) simp_all
  ultimately show ?thesis
    using True assms(3) relocated_lists_changed [OF only_moved_relocated [OF s(2)]]
    by (simp add: block_current_def blocked_def o)
next
  case False
  then have "now k + ticks \<noteq> now k" using assms(6) by simp
  from add_delayed_spec [OF assms(1-5) this] show ?thesis
    using False assms(3,5) by (auto simp: block_current_def blocked_def delays_ok_def)
qed

lemma pending_ok_blocked:
  "pending_ok T k \<Longrightarrow> lists_changed k k' \<Longrightarrow> (\<And>t. t < T \<Longrightarrow> item_container k' (event t) = Some xPendingReadyList \<Longrightarrow>
     item_container k (event t) = Some xPendingReadyList) \<Longrightarrow> pending_ok T k'"
  by (auto simp: pending_ok_def lists_changed_def)

lemma event_free:
  "kernel_core T Q {} k \<Longrightarrow> t < T \<Longrightarrow> is_ready k t \<Longrightarrow> item_container k (event t) = None"
  using priority_less [of T Q "{}" k t] by (auto simp: kernel_core_def tasks_ok_def)

text \<open>The common end of the three calls that wait on an event list.\<close>

lemma wait_on_list:
  assumes inv: "kernel_inv T Q k" and t: "t < T" "pxCurrentTCB k = Some t" "is_ready k t"
    and k1: "kernel_core T Q {t} k1" "item_container k1 = (item_container k)(event t := Some l)"
      "\<And>u. item_value k1 (generic u) = item_value k (generic u)" "lists_changed k k1" "xNextTaskUnblockTime k1 = xNextTaskUnblockTime k"
    and l: "l \<in> Q" and ticks: "ticks \<noteq> 0 \<or> forever"
  shows "\<exists>k'. Option.bind (leave_ready_list t k1) (block_current forever ticks) = Some k' \<and> kernel_inv T Q k' \<and>
    blocked k t forever ticks k' \<and> item_container k' (event t) = Some l"
proof -
  have "is_ready k1 t" using t(3) k1(2,4) by (simp add: lists_changed_def)
  then obtain k2 where k2: "leave_ready_list t k1 = Some k2" "kernel_core T Q {t} k2" "relocated k1 k2 (generic t) None"
    using leave_ready_list_spec [OF k1(1) t(1)] by blast
  note o2 = relocated_simps [OF k2(3)]
  have f1: "pxCurrentTCB k1 = Some t" "counters k1 = counters k" using k1(4) t(2) by (simp_all add: lists_changed_def)
  have "delays_ok T k1"
    using inv k1(4,5) unfolding kernel_inv_def delays_ok_def k1(2,3) lists_changed_def by simp
  then have d2: "delays_ok T k2" by (rule delays_ok_relocated [OF _ k2(3)]) simp_all
  have "pxCurrentTCB k2 = Some t" "item_container k2 (generic t) = None" by (simp_all add: o2 f1)
  from block_current_spec [OF k2(2) t(1) this d2 ticks] obtain k' where
    k': "block_current forever ticks k2 = Some k'" "kernel_core T Q {} k'" "delays_ok T k'"
      "blocked k2 t forever ticks k'" "item_container k' (event t) = Some l"
    using o2(2) k1(2) by auto
  have b: "blocked k t forever ticks k'"
    using k'(4) lists_changed_trans [OF k1(4) relocated_lists_changed [OF k2(3)]]
    by (auto simp: blocked_def o2 k1(2,3) f1 intro: lists_changed_trans)
  have lne: "l \<noteq> xPendingReadyList" using l core_queues [OF k1(1)] by auto
  have "pending_ok T k'"
  proof (rule pending_ok_blocked)
    show "pending_ok T k" using inv by (simp add: kernel_inv_def)
    show "lists_changed k k'" using b by (simp add: blocked_def)
    show "item_container k (event u) = Some xPendingReadyList"
      if "u < T" "item_container k' (event u) = Some xPendingReadyList" for u
      using that b k'(5) lne by (cases "u = t") (auto simp: blocked_def)
  qed
  then show ?thesis using k2(1) k'(1-3,5) b by (auto simp: kernel_inv_def)
qed

text \<open>
  Waiting on an event list: the calling task is put in the list and leaves the ready tasks, for good or until the tick its time
  is up.
\<close>

lemma vTaskPlaceOnEventList_spec:
  assumes "kernel_inv T Q k" "t < T" "pxCurrentTCB k = Some t" "is_ready k t" "l \<in> Q" "ticks \<noteq> 0"
  shows "\<exists>k'. vTaskPlaceOnEventList l ticks k = Some k' \<and> kernel_inv T Q k' \<and>
    blocked k t (ticks = portMAX_DELAY) ticks k' \<and> item_container k' (event t) = Some l"
proof -
  have core: "kernel_core T Q {} k" using assms(1) by (simp add: kernel_inv_def)
  have X: "kernel_core T Q {t} k" using core kernel_core_weaken by blast
  obtain k1 where k1: "list_insert l (event t) k = Some k1" "kernel_core T Q {t} k1" "only_moved k k1 (event t) (Some l)"
    using core_insert_event [OF X assms(2) _ event_free [OF core assms(2,4)] assms(5)] by blast
  note o1 = only_moved_simps [OF k1(3)]
  from wait_on_list [OF assms(1-4) k1(2) o1(2) _ relocated_lists_changed [OF only_moved_relocated [OF k1(3)]] o1(9) assms(5),
      of ticks "ticks = portMAX_DELAY"] o1(1) assms(6)
  show ?thesis using assms(3) k1(1) by (simp add: vTaskPlaceOnEventList_def)
qed

lemma vTaskPlaceOnEventListRestricted_spec:
  assumes "kernel_inv T Q k" "t < T" "pxCurrentTCB k = Some t" "is_ready k t" "l \<in> Q" "ticks \<noteq> 0 \<or> forever"
  shows "\<exists>k'. vTaskPlaceOnEventListRestricted l ticks forever k = Some k' \<and> kernel_inv T Q k' \<and>
    blocked k t forever ticks k' \<and> item_container k' (event t) = Some l"
proof -
  have core: "kernel_core T Q {} k" using assms(1) by (simp add: kernel_inv_def)
  have X: "kernel_core T Q {t} k" using core kernel_core_weaken by blast
  have k1: "kernel_core T Q {t} (list_insert_end l (event t) k)" "only_moved k (list_insert_end l (event t) k) (event t) (Some l)"
    using core_insert_event_end [OF X assms(2) _ event_free [OF core assms(2,4)]] assms(5) by auto
  note o1 = only_moved_simps [OF k1(2)]
  from wait_on_list [OF assms(1-4) k1(1) o1(2) _ relocated_lists_changed [OF only_moved_relocated [OF k1(2)]] o1(9) assms(5,6)] o1(1)
  show ?thesis using assms(3) by (simp add: vTaskPlaceOnEventListRestricted_def Let_def)
qed

lemma vTaskPlaceOnUnorderedEventList_spec:
  assumes "kernel_inv T Q k" "t < T" "pxCurrentTCB k = Some t" "is_ready k t" "l \<in> Q" "ticks \<noteq> 0"
    and "uxSchedulerSuspended k \<noteq> 0"
  shows "\<exists>k'. vTaskPlaceOnUnorderedEventList l v ticks k = Some k' \<and> kernel_inv T Q k' \<and>
    blocked k t (ticks = portMAX_DELAY) ticks k' \<and> item_container k' (event t) = Some l"
proof -
  let ?v = "set_item_value (event t) (v OR taskEVENT_LIST_ITEM_VALUE_IN_USE) k"
  have core: "kernel_core T Q {} k" using assms(1) by (simp add: kernel_inv_def)
  have X: "kernel_core T Q {t} ?v" using core kernel_core_weaken core_set_event_value assms(2) by blast
  have "item_container ?v (event t) = None" using event_free [OF core assms(2,4)] by simp
  then have k1: "kernel_core T Q {t} (list_insert_end l (event t) ?v)"
    "only_moved ?v (list_insert_end l (event t) ?v) (event t) (Some l)"
    using core_insert_event_end [OF X assms(2)] assms(5) by auto
  note o1 = only_moved_simps [OF k1(2)]
  have ch: "lists_changed k (list_insert_end l (event t) ?v)"
    using relocated_lists_changed [OF only_moved_relocated [OF k1(2)]] lists_changed_trans [OF lists_changed_value] by blast
  from wait_on_list [OF assms(1-4) k1(1) _ _ ch _ assms(5), of ticks "ticks = portMAX_DELAY"] o1 assms(6)
  show ?thesis using assms(3,7) by (simp add: vTaskPlaceOnUnorderedEventList_def Let_def)
qed

section \<open>Waking\<close>

lemma unblock_inv:
  assumes "kernel_inv T Q k" "t < T" "item_container k (event t) = Some l"
  shows "\<exists>n m k1 k2. list_remove (event t) k = Some (n, k1) \<and> list_remove (generic t) k1 = Some (m, k2) \<and>
    kernel_inv T Q (prvAddTaskToReadyList t k2) \<and> lists_changed k (prvAddTaskToReadyList t k2) \<and>
    item_value (prvAddTaskToReadyList t k2) = item_value k \<and>
    item_container (prvAddTaskToReadyList t k2) = (item_container k)(generic t := Some (priority_of k t), event t := None)"
proof -
  have core: "kernel_core T Q {} k" and del: "delays_ok T k" and pd: "pending_ok T k"
    using assms(1) by (simp_all add: kernel_inv_def)
  obtain n m k1 k2 where w: "list_remove (event t) k = Some (n, k1)" "list_remove (generic t) k1 = Some (m, k2)"
      "kernel_core T Q {} (prvAddTaskToReadyList t k2)" "lists_changed k (prvAddTaskToReadyList t k2)"
      "xNextTaskUnblockTime (prvAddTaskToReadyList t k2) = xNextTaskUnblockTime k"
      "item_value (prvAddTaskToReadyList t k2) = item_value k"
      "item_container (prvAddTaskToReadyList t k2) = (item_container k)(generic t := Some (priority_of k t), event t := None)"
    using unblock_one [OF core assms(2,3)] by blast
  have "delays_ok T (prvAddTaskToReadyList t k2)"
    by (rule delays_ok_readied [OF del core w(4,5,6)]) (simp add: w(7))
  moreover have "pending_ok T (prvAddTaskToReadyList t k2)"
    by (rule pending_ok_blocked [OF pd w(4)]) (auto simp: w(7) split: if_splits)
  ultimately show ?thesis using w by (auto simp: kernel_inv_def)
qed

text \<open>
  Waking the first task of an event list: it is ready at once, or made pending while the scheduler is suspended; the result
  tells whether it has a higher priority than the running task.
\<close>

lemma xTaskRemoveFromEventList_spec:
  assumes "kernel_inv T Q k" "l \<in> Q" "\<not> list_is_empty l k" "pxCurrentTCB k = Some cur"
  shows "\<exists>t k'. xTaskRemoveFromEventList l k = Some (priority_of k cur < priority_of k t, k') \<and> kernel_inv T Q k' \<and>
    t < T \<and> head_owner l k = Some t \<and> item_container k (event t) = Some l \<and>
    lists_changed (k\<lparr>xYieldPending := xYieldPending k \<or> priority_of k cur < priority_of k t\<rparr>) k' \<and>
    item_value k' = item_value k \<and>
    item_container k' = (if uxSchedulerSuspended k = 0
      then (item_container k)(generic t := Some (priority_of k t), event t := None)
      else (item_container k)(event t := Some xPendingReadyList))"
proof -
  have core: "kernel_core T Q {} k" and del: "delays_ok T k" and pd: "pending_ok T k"
    using assms(1) by (simp_all add: kernel_inv_def)
  obtain t where t: "t < T" "head_owner l k = Some t" "item_container k (event t) = Some l"
    using event_head(2) [OF core _ assms(3)] assms(2) by blast
  let ?C = "if uxSchedulerSuspended k = 0
      then (item_container k)(generic t := Some (priority_of k t), event t := None)
      else (item_container k)(event t := Some xPendingReadyList)"
  obtain n k1 k3 where k1: "list_remove (event t) k = Some (n, k1)"
    and k3: "(if uxSchedulerSuspended k1 = 0 then do {
            (_, k) \<leftarrow> list_remove (generic t) k1;
            Some (prvAddTaskToReadyList t k) }
          else Some (list_insert_end xPendingReadyList (event t) k1)) = Some k3"
      "kernel_inv T Q k3" "lists_changed k k3" "item_value k3 = item_value k" "item_container k3 = ?C"
  proof (cases "uxSchedulerSuspended k = 0")
    case True
    obtain n m k1 k2 where w: "list_remove (event t) k = Some (n, k1)" "list_remove (generic t) k1 = Some (m, k2)"
      "kernel_inv T Q (prvAddTaskToReadyList t k2)" "lists_changed k (prvAddTaskToReadyList t k2)"
      "item_value (prvAddTaskToReadyList t k2) = item_value k"
      "item_container (prvAddTaskToReadyList t k2) = (item_container k)(generic t := Some (priority_of k t), event t := None)"
      using unblock_inv [OF assms(1) t(1,3)] by blast
    have "uxSchedulerSuspended k1 = 0"
      using w(1) True by (auto simp: list_remove_def)
    with that [OF w(1), of "prvAddTaskToReadyList t k2"] w True show ?thesis by simp
  next
    case False
    have X: "kernel_core T Q {t} k" using core kernel_core_weaken by blast
    obtain n k1 where k1: "list_remove (event t) k = Some (n, k1)" "kernel_core T Q {t} k1" "only_moved k k1 (event t) None"
      using core_remove_event [OF X t(1,3)] by blast
    note o1 = only_moved_simps [OF k1(3)]
    define k2 where "k2 = list_insert_end xPendingReadyList (event t) k1"
    have k2: "kernel_core T Q {t} k2" "only_moved k1 k2 (event t) (Some xPendingReadyList)"
      using core_insert_event_end [OF k1(2) t(1)] by (simp_all add: o1 k2_def)
    note o2 = only_moved_simps [OF k2(2)]
    obtain g where g: "item_container k (generic t) = Some g" "configMAX_PRIORITIES \<le> g"
      using core t(1,3) unfolding kernel_core_def tasks_ok_def
      by (metis empty_iff not_le option.distinct(1) option.exhaust)
    have "item_container k2 (generic t) = Some g" using g(1) by (simp add: o1 o2)
    then have c2: "kernel_core T Q {} k2" using core_settled [of T Q t "{}" k2 g] k2(1) g(2) by simp
    have "delays_ok T k2"
      using delays_ok_relocated [OF delays_ok_relocated [OF del only_moved_relocated [OF k1(3)]]
        only_moved_relocated [OF k2(2)]] by simp
    moreover have "pending_ok T k2" using pd False by (simp add: pending_ok_def o1 o2)
    ultimately have "kernel_inv T Q k2" using c2 by (simp add: kernel_inv_def)
    moreover have "lists_changed k k2"
      using lists_changed_trans [OF relocated_lists_changed [OF only_moved_relocated [OF k1(3)]]
        relocated_lists_changed [OF only_moved_relocated [OF k2(2)]]] .
    ultimately show ?thesis
      using that [OF k1(1), of k2] False by (simp add: o1 o2 flip: k2_def)
  qed
  define k' where "k' = (if priority_of k cur < priority_of k t then k3\<lparr>xYieldPending := True\<rparr> else k3)"
  have "xTaskRemoveFromEventList l k = Some (priority_of k cur < priority_of k t, k')"
    using t(2) k1 k3(1,3) assms(4)
    by (simp add: xTaskRemoveFromEventList_def lists_changed_def k'_def split del: if_split) auto
  moreover have "kernel_inv T Q k'" using k3(2) by (simp add: k'_def)
  moreover have "lists_changed (k\<lparr>xYieldPending := xYieldPending k \<or> priority_of k cur < priority_of k t\<rparr>) k'"
    using k3(3) by (simp add: lists_changed_def k'_def)
  moreover have "item_value k' = item_value k" "item_container k' = ?C" using k3(4,5) by (simp_all add: k'_def)
  ultimately show ?thesis using t by blast
qed

text \<open>An event group wakes a given task of its list; the bits it leaves in the item are read by the woken task.\<close>

lemma xTaskRemoveFromUnorderedEventList_spec:
  assumes "kernel_inv T Q k" "t < T" "item_container k (event t) = Some l" "uxSchedulerSuspended k \<noteq> 0" "pxCurrentTCB k = Some cur"
  shows "\<exists>k'. xTaskRemoveFromUnorderedEventList (event t) v k = Some (priority_of k cur < priority_of k t, k') \<and> kernel_inv T Q k' \<and>
    lists_changed (k\<lparr>xYieldPending := xYieldPending k \<or> priority_of k cur < priority_of k t\<rparr>) k' \<and>
    item_value k' = (item_value k)(event t := v OR taskEVENT_LIST_ITEM_VALUE_IN_USE) \<and>
    item_container k' = (item_container k)(generic t := Some (priority_of k t), event t := None)"
proof -
  let ?k = "set_item_value (event t) (v OR taskEVENT_LIST_ITEM_VALUE_IN_USE) k"
  have inv: "kernel_inv T Q ?k" using assms(1,2) by (rule inv_set_event_value)
  obtain n m k1 k2 where w: "list_remove (event t) ?k = Some (n, k1)" "list_remove (generic t) k1 = Some (m, k2)"
      "kernel_inv T Q (prvAddTaskToReadyList t k2)" "lists_changed ?k (prvAddTaskToReadyList t k2)"
      "item_value (prvAddTaskToReadyList t k2) = item_value ?k"
      "item_container (prvAddTaskToReadyList t k2) = (item_container k)(generic t := Some (priority_of k t), event t := None)"
    using unblock_inv [OF inv assms(2)] assms(3) by auto
  define k3 where "k3 = prvAddTaskToReadyList t k2"
  note w = w [folded k3_def]
  have ch: "lists_changed k k3" using lists_changed_trans [OF lists_changed_value w(4)] .
  define k' where "k' = (if priority_of k cur < priority_of k t then k3\<lparr>xYieldPending := True\<rparr> else k3)"
  have "xTaskRemoveFromUnorderedEventList (event t) v k = Some (priority_of k cur < priority_of k t, k')"
    using assms(4,5) w(1,2) ch
    by (simp add: xTaskRemoveFromUnorderedEventList_def Let_def lists_changed_def k'_def flip: k3_def)
  moreover have "lists_changed (k\<lparr>xYieldPending := xYieldPending k \<or> priority_of k cur < priority_of k t\<rparr>) k'"
    using ch by (simp add: lists_changed_def k'_def)
  ultimately show ?thesis using w(3,5,6) by (auto simp: k'_def)
qed

section \<open>Delays\<close>

lemma resume_idle:
  assumes "kernel_inv T Q k" "uxSchedulerSuspended k = 1" "\<not> (\<exists>t. pending T k t)" "uxPendedTicks k = 0"
  shows "xTaskResumeAll k = Some (xYieldPending k,
    (if xYieldPending k then portYIELD else (\<lambda>k. k)) (k\<lparr>uxSchedulerSuspended := 0\<rparr>))"
proof -
  have core: "kernel_core T Q {} k" and num: "0 < uxCurrentNumberOfTasks k"
    using assms(1) by (simp_all add: kernel_inv_def pending_ok_def)
  have "list_is_empty xPendingReadyList k"
    using event_head(1) [OF core, of xPendingReadyList] assms(3) by (auto simp: pending_def)
  then have "list_is_empty xPendingReadyList (k\<lparr>uxSchedulerSuspended := 0\<rparr>)"
    by (simp add: list_is_empty_def list_length_def)
  then have "ready_pending (k\<lparr>uxSchedulerSuspended := 0\<rparr>) = Some (k\<lparr>uxSchedulerSuspended := 0\<rparr>)"
    by (subst ready_pending.simps) simp
  moreover have "catch_up (k\<lparr>uxSchedulerSuspended := 0\<rparr>) = Some (k\<lparr>uxSchedulerSuspended := 0\<rparr>)"
    using assms(4) by (subst catch_up.simps) simp
  ultimately show ?thesis
    using assms(2) num by (simp add: xTaskResumeAll_def Let_def)
qed

text \<open>A task that is on a delayed list until the tick count is \<open>v\<close>.\<close>

definition delayed_until :: "nat \<Rightarrow> kernel \<Rightarrow> nat \<Rightarrow> tick \<Rightarrow> bool" where
  "delayed_until T k t v \<longleftrightarrow> t < T \<and> item_value k (generic t) = v \<and>
     (item_container k (generic t) = Some xDelayedTaskList1 \<or> item_container k (generic t) = Some xDelayedTaskList2)"

text \<open>The items of a task that stay on their lists, and the time it waits for.\<close>

definition spares :: "nat \<Rightarrow> kernel \<Rightarrow> kernel \<Rightarrow> bool" where
  "spares t k k' \<longleftrightarrow> item_container k' (generic t) = item_container k (generic t) \<and>
     item_container k' (event t) = item_container k (event t) \<and> item_value k' (generic t) = item_value k (generic t)"

text \<open>What the delay of one task leaves alone.\<close>

definition delayed_one :: "nat \<Rightarrow> kernel \<Rightarrow> nat \<Rightarrow> kernel \<Rightarrow> bool" where
  "delayed_one T k t k' \<longleftrightarrow> tcb k' = tcb k \<and> pxCurrentTCB k' = pxCurrentTCB k \<and> xSchedulerRunning k' = xSchedulerRunning k \<and>
     uxSchedulerSuspended k' = 0 \<and> uxPendedTicks k' = 0 \<and> (\<forall>u < T. u \<noteq> t \<longrightarrow> is_ready k u \<longrightarrow> is_ready k' u)"

text \<open>The delay itself, with the scheduler suspended around it.\<close>

lemma delay_current:
  assumes "kernel_inv T Q k" "uxSchedulerSuspended k = 0" "t < T" "pxCurrentTCB k = Some t" "is_ready k t" "v \<noteq> now k"
  shows "\<exists>k1 y k'. leave_ready_list t (vTaskSuspendAll k) = Some k1 \<and>
    Option.bind (prvAddCurrentTaskToDelayedList v k1) xTaskResumeAll = Some (y, k') \<and> kernel_inv T Q k' \<and> (y \<longrightarrow> pendsv k') \<and>
    delayed_one T k t k' \<and> (uxPendedTicks k = 0 \<longrightarrow> delayed_until T k' t v \<and> counters k' = counters k \<and>
      item_container k' (event t) = None \<and> (\<forall>u. u \<noteq> t \<longrightarrow> spares u k k'))"
proof -
  let ?s = "vTaskSuspendAll k"
  have inv: "kernel_inv T Q ?s" using vTaskSuspendAll_spec [OF assms(1)] assms(2) by simp
  have s: "uxSchedulerSuspended ?s = 1" "pxCurrentTCB ?s = Some t" "tcb ?s = tcb k" "counters ?s = counters k"
    "item_container ?s = item_container k" "uxPendedTicks ?s = uxPendedTicks k"
    using assms(2,4) by (simp_all add: vTaskSuspendAll_def)
  have X: "kernel_core T Q {t} ?s" and del: "delays_ok T ?s" and pd: "pending_ok T ?s"
    using inv kernel_core_weaken [of T Q "{}" ?s "{t}"] by (simp_all add: kernel_inv_def)
  have "is_ready ?s t" using assms(5) s by simp
  then obtain k1 where k1: "leave_ready_list t ?s = Some k1" "kernel_core T Q {t} k1" "relocated ?s k1 (generic t) None"
    using leave_ready_list_spec [OF X assms(3)] by blast
  note o1 = relocated_simps [OF k1(3)]
  have d1: "delays_ok T k1" by (rule delays_ok_relocated [OF del k1(3)]) simp_all
  have f1: "pxCurrentTCB k1 = Some t" "item_container k1 (generic t) = None" "v \<noteq> now k1" using assms(6) by (simp_all add: o1 s)
  obtain k2 where k2: "prvAddCurrentTaskToDelayedList v k1 = Some k2" "kernel_core T Q {} k2" "delays_ok T k2" "lists_changed k1 k2"
    "item_container k2 = (item_container k1)(generic t :=
      Some (if v < now k1 then pxOverflowDelayedTaskList k1 else pxDelayedTaskList k1))"
    "item_value k2 = (item_value k1)(generic t := v)"
    using add_delayed_spec [OF k1(2) assms(3) f1(1,2) d1 f1(3)] by blast
  have ch: "lists_changed ?s k2" using lists_changed_trans [OF relocated_lists_changed [OF k1(3)] k2(4)] .
  then have f2: "uxSchedulerSuspended k2 = 1" "tcb k2 = tcb k" "pxCurrentTCB k2 = Some t" "uxPendedTicks k2 = uxPendedTicks k"
    "counters k2 = counters k" by (simp_all add: lists_changed_def s)
  have "pending_ok T k2"
    by (rule pending_ok_blocked [OF pd ch]) (auto simp: k2(5) o1 split: if_splits)
  then have inv2: "kernel_inv T Q k2" using k2(2,3) by (simp add: kernel_inv_def)
  obtain y k' where k': "xTaskResumeAll k2 = Some (y, k')" "kernel_inv T Q k'" "undisturbed T k2 k'" "y \<longrightarrow> pendsv k'"
    "uxSchedulerSuspended k' = 0" "uxPendedTicks k' = 0"
    using resume_spec [OF inv2] f2(1) by auto
  have "is_ready k2 u" if "u \<noteq> t" "is_ready k u" for u
    using that k2(5) f2(2) by (simp add: o1 s)
  then have one: "delayed_one T k t k'"
    using k'(3,5,6) f2 ch assms(4) by (auto simp: delayed_one_def undisturbed_def lists_changed_def vTaskSuspendAll_def)
  have ev: "item_container k (event t) = None" using event_free [OF _ assms(3,5), of Q] assms(1) by (simp add: kernel_inv_def)
  have "delayed_until T k' t v \<and> counters k' = counters k \<and> item_container k' (event t) = None \<and> (\<forall>u. u \<noteq> t \<longrightarrow> spares u k k')"
    if p: "uxPendedTicks k = 0"
  proof -
    have "\<not> pending T k u" for u
      using assms(1,2) by (simp add: kernel_inv_def pending_ok_def pending_def)
    then have "\<not> (\<exists>u. pending T k2 u)" by (simp add: pending_def k2(5) o1 s)
    from resume_idle [OF inv2 f2(1) this] p k'(1) f2(4)
    have e: "k' = (if xYieldPending k2 then portYIELD else (\<lambda>k. k)) (k2\<lparr>uxSchedulerSuspended := 0\<rparr>)" by simp
    have "item_container k' = item_container k2" "item_value k' = item_value k2" "counters k' = counters k2"
      by (simp_all add: e portYIELD_def)
    moreover have "pxDelayedTaskList k1 = xDelayedTaskList1 \<and> pxOverflowDelayedTaskList k1 = xDelayedTaskList2 \<or>
        pxDelayedTaskList k1 = xDelayedTaskList2 \<and> pxOverflowDelayedTaskList k1 = xDelayedTaskList1"
      using d1 by (simp add: delays_ok_def)
    moreover have "item_container k2 (event u) = item_container k (event u)" "item_value k2 (generic t) = v"
      "u \<noteq> t \<Longrightarrow> item_container k2 (generic u) = item_container k (generic u)"
      "u \<noteq> t \<Longrightarrow> item_value k2 (generic u) = item_value k (generic u)" for u
      using k2(5,6) by (simp_all add: o1 s vTaskSuspendAll_def item_value_def)
    ultimately show ?thesis using assms(3) k2(5) f2(5) ev by (auto simp: delayed_until_def spares_def)
  qed
  then show ?thesis
    using k1(1) k2(1) k' one by auto
qed

lemma vTaskDelay_spec:
  assumes "kernel_inv T Q k" "uxSchedulerSuspended k = 0" "t < T" "pxCurrentTCB k = Some t" "is_ready k t" "ticks \<noteq> 0"
  shows "\<exists>k'. vTaskDelay ticks k = Some k' \<and> kernel_inv T Q k' \<and> pendsv k' \<and> delayed_one T k t k' \<and>
    (uxPendedTicks k = 0 \<longrightarrow> delayed_until T k' t (now k + ticks) \<and> counters k' = counters k \<and>
      item_container k' (event t) = None \<and> (\<forall>u. u \<noteq> t \<longrightarrow> spares u k k'))"
proof -
  have "now k + ticks \<noteq> now k" using assms(6) by simp
  from delay_current [OF assms(1-5) this] obtain k1 y k' where
    k': "leave_ready_list t (vTaskSuspendAll k) = Some k1"
      "Option.bind (prvAddCurrentTaskToDelayedList (now k + ticks) k1) xTaskResumeAll = Some (y, k')" "kernel_inv T Q k'"
      "y \<longrightarrow> pendsv k'" "delayed_one T k t k'"
      "uxPendedTicks k = 0 \<longrightarrow> delayed_until T k' t (now k + ticks) \<and> counters k' = counters k \<and>
        item_container k' (event t) = None \<and> (\<forall>u. u \<noteq> t \<longrightarrow> spares u k k')" by blast
  have c: "counters (vTaskSuspendAll k) = counters k" "pxCurrentTCB (vTaskSuspendAll k) = Some t"
    using assms(4) by (simp_all add: vTaskSuspendAll_def)
  have "0 < ticks" using assms(6) word_gt_0 by blast
  then have "vTaskDelay ticks k = Some (if \<not> y then portYIELD k' else k')"
    using assms(2) k'(1,2) c by (simp add: vTaskDelay_def)
  then show ?thesis
    using k'(3-6) by (cases y) (auto simp: portYIELD_def delayed_until_def delayed_one_def spares_def)
qed

text \<open>A delayed task is due at its wake time and not before, on whichever list it waits.\<close>

lemma due_at_wake_time:
  assumes "kernel_inv T Q k" "delayed_until T k t v"
  shows "due T (next_delayed k) (now k + 1) k t \<longleftrightarrow> v = now k + 1"
proof -
  have t: "t < T" "item_value k (generic t) = v" using assms(2) by (simp_all add: delayed_until_def)
  have del: "delays_ok T k" using assms(1) by (simp add: kernel_inv_def)
  have "item_container k (generic t) = Some (pxDelayedTaskList k) \<or> item_container k (generic t) = Some (pxOverflowDelayedTaskList k)"
    using del assms(2) by (auto simp: delays_ok_def delayed_until_def)
  then consider (cur) "item_container k (generic t) = Some (pxDelayedTaskList k)" "now k < v" |
      (over) "item_container k (generic t) = Some (pxOverflowDelayedTaskList k)" "v < now k"
    using del t by (auto simp: delays_ok_def)
  then show ?thesis
  proof cases
    case cur
    have nz: "now k + 1 \<noteq> 0"
    proof
      assume "now k + 1 = 0"
      then have "now k = portMAX_DELAY" by (simp add: eq_neg_iff_add_eq_0 [symmetric])
      then show False using cur(2) le_MAX_VALUE [of v] by (simp add: not_le [symmetric])
    qed
    then have "next_delayed k = pxDelayedTaskList k" by (simp add: next_delayed_def)
    then have "due T (next_delayed k) (now k + 1) k t \<longleftrightarrow> v \<le> now k + 1" using cur(1) t by (simp add: due_def)
    also have "\<dots> \<longleftrightarrow> v = now k + 1"
      using cur(2) nz unatSuc [of "now k"] by (auto simp: word_le_nat_alt word_less_nat_alt word_unat_eq_iff add.commute)
    finally show ?thesis .
  next
    case over
    have ne: "pxDelayedTaskList k \<noteq> pxOverflowDelayedTaskList k" using del by (auto simp: delays_ok_def)
    show ?thesis
    proof (cases "now k + 1 = 0")
      case True
      then show ?thesis using over(1) t by (simp add: next_delayed_def due_def)
    next
      case False
      then have "now k < now k + 1" using unatSuc [of "now k"] by (simp add: word_less_nat_alt add.commute)
      then have "v \<noteq> now k + 1" using over(2) by (meson less_asym)
      moreover have "\<not> due T (next_delayed k) (now k + 1) k t"
        using False over(1) ne by (simp add: next_delayed_def due_def)
      ultimately show ?thesis by blast
    qed
  qed
qed

lemma tick_delayed:
  assumes "kernel_inv T Q k" "delayed_until T k t v" "ticked T k k'"
  shows "if v = now k + 1 then is_ready k' t else delayed_until T k' t v"
  using assms(2,3) due_at_wake_time [OF assms(1,2)] by (auto simp: ticked_def delayed_until_def)

text \<open>The test of \<open>vTaskDelayUntil\<close>: less than the increment has passed since the previous wake time.\<close>

lemma should_delay:
  "(if n < p then p + i < p \<and> p + i > n else p + i < p \<or> p + i > n) \<longleftrightarrow> n - p < (i :: tick)"
proof -
  have s: "unat (n - p) = (if p \<le> n then unat n - unat p else unat n + 2 ^ 32 - unat p)"
    by (simp add: unat_sub_if' word_le_nat_alt)
  have a: "unat (p + i) = (if unat p + unat i < 2 ^ 32 then unat p + unat i else unat p + unat i - 2 ^ 32)"
    using unsigned_less [of p, where 'a = nat] unsigned_less [of i, where 'a = nat]
    by (simp add: unat_word_ariths mod_if)
  show ?thesis
    using unsigned_less [of p, where 'a = nat] unsigned_less [of i, where 'a = nat] unsigned_less [of n, where 'a = nat] s a
    by (auto simp: word_less_nat_alt word_le_nat_alt split: if_splits)
qed

lemma vTaskDelayUntil_spec:
  assumes "kernel_inv T Q k" "uxSchedulerSuspended k = 0" "t < T" "pxCurrentTCB k = Some t" "is_ready k t" "0 < inc"
  shows "\<exists>k'. vTaskDelayUntil prev inc k = Some (prev + inc, k') \<and> kernel_inv T Q k' \<and> pendsv k' \<and> delayed_one T k t k' \<and>
    (uxPendedTicks k = 0 \<longrightarrow> now k - prev < inc \<longrightarrow> delayed_until T k' t (prev + inc)) \<and>
    (uxPendedTicks k = 0 \<longrightarrow> counters k' = counters k \<and> (\<forall>u. u \<noteq> t \<longrightarrow> spares u k k')) \<and>
    (\<not> now k - prev < inc \<longrightarrow> is_ready k' t)"
proof (cases "now k - prev < inc")
  case True
  have "prev + inc \<noteq> now k"
  proof
    assume "prev + inc = now k"
    then have "now k - prev = inc" by (metis add_diff_cancel_left')
    then show False using True by simp
  qed
  from delay_current [OF assms(1-5) this] obtain k1 y k' where
    k': "leave_ready_list t (vTaskSuspendAll k) = Some k1"
      "Option.bind (prvAddCurrentTaskToDelayedList (prev + inc) k1) xTaskResumeAll = Some (y, k')" "kernel_inv T Q k'"
      "y \<longrightarrow> pendsv k'" "delayed_one T k t k'"
      "uxPendedTicks k = 0 \<longrightarrow> delayed_until T k' t (prev + inc) \<and> counters k' = counters k \<and> (\<forall>u. u \<noteq> t \<longrightarrow> spares u k k')" by blast
  have c: "counters (vTaskSuspendAll k) = counters k" "pxCurrentTCB (vTaskSuspendAll k) = Some t"
    using assms(4) by (simp_all add: vTaskSuspendAll_def)
  have "vTaskDelayUntil prev inc k = Some (prev + inc, if \<not> y then portYIELD k' else k')"
    using assms(2,6) k'(1,2) c True by (auto simp: vTaskDelayUntil_def should_delay Let_def split: bind_splits)
  then show ?thesis
    using k'(3-6) True by (cases y) (auto simp: portYIELD_def delayed_until_def delayed_one_def spares_def)
next
  case False
  let ?s = "vTaskSuspendAll k"
  have inv: "kernel_inv T Q ?s" using vTaskSuspendAll_spec [OF assms(1)] assms(2) by simp
  have s: "uxSchedulerSuspended ?s = 1" "counters ?s = counters k" "is_ready ?s t"
    using assms(2,5) by (simp_all add: vTaskSuspendAll_def)
  obtain y k' where k': "xTaskResumeAll ?s = Some (y, k')" "kernel_inv T Q k'" "undisturbed T ?s k'" "y \<longrightarrow> pendsv k'"
    "uxSchedulerSuspended k' = 0" "uxPendedTicks k' = 0"
    using resume_spec [OF inv] s(1) by auto
  have one: "delayed_one T k t k'"
    using k'(3,5,6) by (auto simp: delayed_one_def undisturbed_def vTaskSuspendAll_def)
  have "vTaskDelayUntil prev inc k = Some (prev + inc, if \<not> y then portYIELD k' else k')"
    using assms(2,6) k'(1) s(2) False by (simp add: vTaskDelayUntil_def should_delay Let_def)
  moreover have "is_ready k' t" using k'(3) s(3) assms(3) by (simp add: undisturbed_def)
  moreover have "counters k' = counters k \<and> (\<forall>u. spares u k k')" if "uxPendedTicks k = 0"
  proof -
    have "\<not> pending T k u" for u
      using assms(1,2) by (simp add: kernel_inv_def pending_ok_def pending_def)
    then have "\<not> (\<exists>u. pending T ?s u)" by (simp add: pending_def vTaskSuspendAll_def)
    from resume_idle [OF inv s(1) this] that k'(1) show ?thesis
      by (auto simp: vTaskSuspendAll_def spares_def portYIELD_def)
  qed
  ultimately show ?thesis
    using k'(2,4) False one by (cases y) (auto simp: portYIELD_def delayed_one_def spares_def)
qed

section \<open>Priorities\<close>

lemma set_tcb_simps [simp]:
  "item_container (set_tcb t f k) = item_container k" "item_value (set_tcb t f k) = item_value k"
  "tcb (set_tcb t f k) = (tcb k)(t := f (tcb k t))" "pxCurrentTCB (set_tcb t f k) = pxCurrentTCB k"
  "uxTopReadyPriority (set_tcb t f k) = uxTopReadyPriority k" "counters (set_tcb t f k) = counters k"
  "pxDelayedTaskList (set_tcb t f k) = pxDelayedTaskList k"
  "pxOverflowDelayedTaskList (set_tcb t f k) = pxOverflowDelayedTaskList k"
  "xNextTaskUnblockTime (set_tcb t f k) = xNextTaskUnblockTime k"
  "uxSchedulerSuspended (set_tcb t f k) = uxSchedulerSuspended k"
  "uxCurrentNumberOfTasks (set_tcb t f k) = uxCurrentNumberOfTasks k" "heap (set_tcb t f k) = heap k"
  by (auto simp: set_tcb_def item_container_def item_value_def fun_eq_iff)

lemma core_set_tcb:
  assumes "kernel_core T Q X k" "t \<in> X" "uxPriority (f (tcb k t)) < configMAX_PRIORITIES"
    and "uxBasePriority (f (tcb k t)) < configMAX_PRIORITIES"
  shows "kernel_core T Q X (set_tcb t f k)"
  using assms unfolding kernel_core_def tasks_ok_def ready_ok_def kernel_lists_def by auto

lemma delays_ok_set_tcb [simp]: "delays_ok T (set_tcb t f k) = delays_ok T k"
  by (simp add: delays_ok_def)

lemma pending_ok_set_tcb [simp]: "pending_ok T (set_tcb t f k) = pending_ok T k"
  by (simp add: pending_ok_def)

lemma set_event_priority_simps [simp]:
  "item_container (set_event_priority t p k) = item_container k" "tcb (set_event_priority t p k) = tcb k"
  "item_value (set_event_priority t p k) (generic u) = item_value k (generic u)"
  "pxCurrentTCB (set_event_priority t p k) = pxCurrentTCB k"
  "delays_ok T (set_event_priority t p k) = delays_ok T k" "pending_ok T (set_event_priority t p k) = pending_ok T k"
  by (simp_all add: set_event_priority_def)

lemma core_set_event_priority: "kernel_core T Q X k \<Longrightarrow> t < T \<Longrightarrow> kernel_core T Q X (set_event_priority t p k)"
  by (simp add: set_event_priority_def core_set_event_value)

text \<open>Nothing but the priorities of one task has changed, and its place if it is ready.\<close>

definition reprioritised :: "kernel \<Rightarrow> kernel \<Rightarrow> nat \<Rightarrow> TCB \<Rightarrow> bool" where
  "reprioritised k k' t c \<longleftrightarrow> tcb k' = (tcb k)(t := c) \<and> pxCurrentTCB k' = pxCurrentTCB k \<and>
     item_container k' = (if is_ready k t then (item_container k)(generic t := Some (uxPriority c)) else item_container k)"

text \<open>A ready task is taken off its list, gets new priorities and is put on the list of the new one.\<close>

lemma requeue:
  assumes "kernel_core T Q {t} k" "t < T" "item_container k (generic t) = Some p" "p < configMAX_PRIORITIES"
    and "item_container k (event t) = None" "delays_ok T k" "pending_ok T k"
  shows "\<exists>n k1. list_remove (generic t) k = Some (n, k1) \<and> (n = 0 \<longleftrightarrow> list_length p k1 = 0) \<and> tcb k1 = tcb k \<and>
    (\<forall>k2. k2 = (if n = 0 then portRESET_READY_PRIORITY p k1 else k1) \<longrightarrow>
      kernel_core T Q {t} k2 \<and> relocated k k2 (generic t) None \<and> delays_ok T k2 \<and> pending_ok T k2)"
proof -
  obtain n k1 where k1: "list_remove (generic t) k = Some (n, k1)" "only_moved k k1 (generic t) None"
    "n = 0 \<longleftrightarrow> list_length p k1 = 0" "kernel_core T Q {t} (if n = 0 then portRESET_READY_PRIORITY p k1 else k1)"
    using core_leave_ready [OF assms(1,2) _ assms(3,4)] by auto
  have r: "relocated k (if n = 0 then portRESET_READY_PRIORITY p k1 else k1) (generic t) None"
    using relocated_reset [OF k1(2)] .
  show ?thesis
    using k1 r delays_ok_relocated [OF assms(6) r] pending_ok_relocated [OF assms(7) r] only_moved_simps(3) [OF k1(2)] by auto
qed

lemma add_ready_inv:
  assumes "kernel_core T Q {t} k" "t < T" "item_container k (generic t) = None" "item_container k (event t) = None"
    and "delays_ok T k" "pending_ok T k"
  shows "kernel_inv T Q (prvAddTaskToReadyList t k) \<and> relocated k (prvAddTaskToReadyList t k) (generic t) (Some (priority_of k t))"
proof -
  have r: "kernel_core T Q {} (prvAddTaskToReadyList t k)"
    "relocated k (prvAddTaskToReadyList t k) (generic t) (Some (priority_of k t))"
    using core_add_ready [of T Q t "{}" k] assms(1-4) by simp_all
  have "priority_of k t < configMAX_PRIORITIES" using priority_less [OF assms(1,2)] .
  then have "delays_ok T (prvAddTaskToReadyList t k)" by (intro delays_ok_relocated [OF assms(5) r(2)]) auto
  moreover have "pending_ok T (prvAddTaskToReadyList t k)" by (rule pending_ok_relocated [OF assms(6) r(2)]) simp
  ultimately show ?thesis using r by (simp add: kernel_inv_def)
qed

text \<open>
  Priority inheritance: the holder of a mutex runs at least at the priority of the task that waits for it; a ready holder
  moves to the ready list of that priority at once.
\<close>

lemma vTaskPriorityInherit_spec:
  assumes "kernel_inv T Q k" "t < T" "pxCurrentTCB k = Some cur" "cur < T"
  shows "\<exists>k'. vTaskPriorityInherit (Some t) k = Some k' \<and> kernel_inv T Q k' \<and>
    reprioritised k k' t ((tcb k t)\<lparr>uxPriority := max (priority_of k t) (priority_of k cur)\<rparr>)"
proof (cases "priority_of k t < priority_of k cur")
  case False
  then have "vTaskPriorityInherit (Some t) k = Some k" using assms(3) by (simp add: vTaskPriorityInherit_def)
  moreover have "(tcb k t)\<lparr>uxPriority := max (priority_of k t) (priority_of k cur)\<rparr> = tcb k t"
    using False by (simp add: max_def)
  ultimately show ?thesis using assms(1) by (auto simp: reprioritised_def fun_eq_iff)
next
  case True
  let ?p = "priority_of k t" and ?q = "priority_of k cur"
  have core: "kernel_core T Q {} k" and del: "delays_ok T k" and pd: "pending_ok T k"
    using assms(1) by (simp_all add: kernel_inv_def)
  have p: "?p < configMAX_PRIORITIES" "?q < configMAX_PRIORITIES" using priority_less [OF core] assms(2,4) by auto
  have ct: "cur \<noteq> t" using True by auto
  define k1 where "k1 = set_event_priority t ?q k"
  have X: "kernel_core T Q {t} k1"
    unfolding k1_def by (rule kernel_core_weaken [OF core_set_event_priority [OF core assms(2)]]) simp
  have base: "uxBasePriority (tcb k t) < configMAX_PRIORITIES" using core assms(2) by (simp add: kernel_core_def tasks_ok_def)
  show ?thesis
  proof (cases "is_ready k t")
    case rt: True
    have ev: "item_container k1 (event t) = None" using event_free [OF core assms(2) rt] by (simp add: k1_def)
    have g: "item_container k1 (generic t) = Some ?p" using rt by (simp add: k1_def)
    obtain n k2 where k2: "list_remove (generic t) k1 = Some (n, k2)" "n = 0 \<longleftrightarrow> list_length ?p k2 = 0" "tcb k2 = tcb k1"
      and all: "\<And>k3. k3 = (if n = 0 then portRESET_READY_PRIORITY ?p k2 else k2) \<Longrightarrow>
        kernel_core T Q {t} k3 \<and> relocated k1 k3 (generic t) None \<and> delays_ok T k3 \<and> pending_ok T k3"
      using requeue [OF X assms(2) g p(1) ev] del pd by (auto simp: k1_def)
    define k3 where "k3 = (if n = 0 then portRESET_READY_PRIORITY ?p k2 else k2)"
    note k3 = all [OF k3_def]
    note o3 = relocated_simps [of k1 k3 "generic t" None]
    define k4 where "k4 = set_tcb t (\<lambda>c. c\<lparr>uxPriority := priority_of k3 cur\<rparr>) k3"
    have t3: "tcb k3 = tcb k" using o3(3) k3 by (simp add: k1_def)
    have c4: "kernel_core T Q {t} k4"
      unfolding k4_def using k3 p base by (intro core_set_tcb) (simp_all add: t3)
    have f4: "item_container k4 (generic t) = None" "item_container k4 (event t) = None" "delays_ok T k4" "pending_ok T k4"
      "priority_of k4 t = ?q" "tcb k4 = (tcb k)(t := (tcb k t)\<lparr>uxPriority := ?q\<rparr>)"
      "item_container k4 = (item_container k)(generic t := None)" "pxCurrentTCB k4 = Some cur"
      using k3 ev o3(2,4) assms(3) by (auto simp: k4_def t3 k1_def)
    have fin: "kernel_inv T Q (prvAddTaskToReadyList t k4)" "relocated k4 (prvAddTaskToReadyList t k4) (generic t) (Some ?q)"
      using add_ready_inv [OF c4 assms(2) f4(1-4)] f4(5) by simp_all
    have "vTaskPriorityInherit (Some t) k = Some (prvAddTaskToReadyList t k4)"
      using assms(3) True g k2
      by (simp add: vTaskPriorityInherit_def Let_def taskRESET_READY_PRIORITY_def k4_def k3_def cong: if_cong flip: k1_def)
        (auto simp: k1_def)
    moreover have "reprioritised k (prvAddTaskToReadyList t k4) t ((tcb k t)\<lparr>uxPriority := max ?p ?q\<rparr>)"
      using True rt relocated_simps [OF fin(2)] f4(6-8) assms(3) by (auto simp: reprioritised_def max_def)
    ultimately show ?thesis using fin(1) by blast
  next
    case rt: False
    define k4 where "k4 = set_tcb t (\<lambda>c. c\<lparr>uxPriority := priority_of k1 cur\<rparr>) k1"
    obtain l where l: "item_container k (generic t) = Some l"
      using core assms(2) by (auto simp: kernel_core_def tasks_ok_def)
    then have "configMAX_PRIORITIES \<le> l" using rt ready_on_list [OF core assms(2)] by (meson not_le)
    moreover have "kernel_core T Q {t} k4"
      unfolding k4_def using X p base by (intro core_set_tcb) (simp_all add: k1_def)
    ultimately have "kernel_core T Q {} k4" using l core_settled [of T Q t "{}" k4 l] by (simp add: k4_def k1_def)
    then have "kernel_inv T Q k4" using del pd by (simp add: kernel_inv_def k4_def k1_def)
    moreover have "vTaskPriorityInherit (Some t) k = Some k4"
      using assms(3) True rt by (simp add: vTaskPriorityInherit_def Let_def k4_def k1_def)
    moreover have "reprioritised k k4 t ((tcb k t)\<lparr>uxPriority := max ?p ?q\<rparr>)"
      using True rt by (auto simp: reprioritised_def max_def k4_def k1_def)
    ultimately show ?thesis by blast
  qed
qed

text \<open>
  Giving up a mutex: the count of held mutexes goes down, and with the last of them the inherited priority is lost; the
  task goes back to the ready list of its base priority.
\<close>

lemma xTaskPriorityDisinherit_spec:
  assumes "kernel_inv T Q k" "t < T" "pxCurrentTCB k = Some t" "is_ready k t" "uxMutexesHeld (tcb k t) \<noteq> 0"
  shows "\<exists>y k'. xTaskPriorityDisinherit (Some t) k = Some (y, k') \<and> kernel_inv T Q k' \<and>
    (y \<longleftrightarrow> uxMutexesHeld (tcb k t) = 1 \<and> priority_of k t \<noteq> uxBasePriority (tcb k t)) \<and>
    reprioritised k k' t ((tcb k t)\<lparr>uxMutexesHeld := uxMutexesHeld (tcb k t) - 1,
      uxPriority := if uxMutexesHeld (tcb k t) = 1 then uxBasePriority (tcb k t) else priority_of k t\<rparr>)"
proof -
  let ?p = "priority_of k t" and ?b = "uxBasePriority (tcb k t)"
  have core: "kernel_core T Q {} k" and del: "delays_ok T k" and pd: "pending_ok T k"
    using assms(1) by (simp_all add: kernel_inv_def)
  have p: "?p < configMAX_PRIORITIES" "?b < configMAX_PRIORITIES"
    using core assms(2) by (simp_all add: kernel_core_def tasks_ok_def)
  define k1 where "k1 = set_tcb t (\<lambda>c. c\<lparr>uxMutexesHeld := uxMutexesHeld c - 1\<rparr>) k"
  have X: "kernel_core T Q {t} k1"
    unfolding k1_def by (rule core_set_tcb [OF kernel_core_weaken [OF core]]) (use p in auto)
  have ev: "item_container k1 (event t) = None" using event_free [OF core assms(2,4)] by (simp add: k1_def)
  have g: "item_container k1 (generic t) = Some ?p" using assms(4) by (simp add: k1_def)
  have d1: "delays_ok T k1" "pending_ok T k1" using del pd by (simp_all add: k1_def)
  show ?thesis
  proof (cases "?p \<noteq> ?b \<and> uxMutexesHeld (tcb k t) = 1")
    case True
    obtain n k2 where k2: "list_remove (generic t) k1 = Some (n, k2)" "n = 0 \<longleftrightarrow> list_length ?p k2 = 0" "tcb k2 = tcb k1"
      and all: "\<And>k3. k3 = (if n = 0 then portRESET_READY_PRIORITY ?p k2 else k2) \<Longrightarrow>
        kernel_core T Q {t} k3 \<and> relocated k1 k3 (generic t) None \<and> delays_ok T k3 \<and> pending_ok T k3"
      using requeue [OF X assms(2) g p(1) ev d1] by auto
    define k3 where "k3 = (if n = 0 then portRESET_READY_PRIORITY ?p k2 else k2)"
    note k3 = all [OF k3_def]
    note o3 = relocated_simps [of k1 k3 "generic t" None]
    define k4 where "k4 = set_tcb t (\<lambda>c. c\<lparr>uxPriority := uxBasePriority c\<rparr>) k3"
    define k5 where "k5 = set_item_value (event t) (priority_value (priority_of k4 t)) k4"
    have t3: "tcb k3 = (tcb k)(t := (tcb k t)\<lparr>uxMutexesHeld := uxMutexesHeld (tcb k t) - 1\<rparr>)"
      using o3(3) k3 by (simp add: k1_def)
    have c4: "kernel_core T Q {t} k4" unfolding k4_def using k3 p by (intro core_set_tcb) (simp_all add: t3)
    have c5: "kernel_core T Q {t} k5" unfolding k5_def using c4 assms(2) by (rule core_set_event_value)
    have f5: "item_container k5 (generic t) = None" "item_container k5 (event t) = None" "delays_ok T k5" "pending_ok T k5"
      "priority_of k5 t = ?b" "tcb k5 = (tcb k3)(t := (tcb k3 t)\<lparr>uxPriority := ?b\<rparr>)"
      "item_container k5 = (item_container k)(generic t := None)" "pxCurrentTCB k5 = Some t"
      using k3 ev o3(2,4) assms(3) by (auto simp: k5_def k4_def t3 k1_def)
    have fin: "kernel_inv T Q (prvAddTaskToReadyList t k5)" "relocated k5 (prvAddTaskToReadyList t k5) (generic t) (Some ?b)"
      using add_ready_inv [OF c5 assms(2) f5(1-4)] f5(5) by simp_all
    have t1: "priority_of k1 t = ?p" "uxBasePriority (tcb k1 t) = ?b" "uxMutexesHeld (tcb k1 t) = uxMutexesHeld (tcb k t) - 1"
      by (simp_all add: k1_def)
    have "xTaskPriorityDisinherit (Some t) k = Some (True, prvAddTaskToReadyList t k5)"
      using assms(3,5) True k2 t1
      by (simp add: xTaskPriorityDisinherit_def Let_def taskRESET_READY_PRIORITY_def k5_def k4_def k3_def cong: if_cong flip: k1_def)
    moreover have "reprioritised k (prvAddTaskToReadyList t k5) t ((tcb k t)\<lparr>uxMutexesHeld := uxMutexesHeld (tcb k t) - 1,
        uxPriority := ?b\<rparr>)"
      using assms(4) relocated_simps [OF fin(2)] f5(6-8) t3 assms(3) by (auto simp: reprioritised_def)
    ultimately show ?thesis using fin(1) True by auto
  next
    case False
    have "kernel_core T Q {} k1"
      using X core unfolding kernel_core_def tasks_ok_def ready_ok_def by (auto simp: k1_def)
    then have inv: "kernel_inv T Q k1" using d1 by (simp add: kernel_inv_def)
    have "uxMutexesHeld (tcb k t) - 1 = 0 \<longleftrightarrow> uxMutexesHeld (tcb k t) = 1" by simp
    then have "xTaskPriorityDisinherit (Some t) k = Some (False, k1)"
      using assms(3,5) False by (auto simp: xTaskPriorityDisinherit_def Let_def k1_def)
    moreover have "reprioritised k k1 t ((tcb k t)\<lparr>uxMutexesHeld := uxMutexesHeld (tcb k t) - 1,
        uxPriority := if uxMutexesHeld (tcb k t) = 1 then ?b else ?p\<rparr>)"
      using False assms(4) by (auto simp: reprioritised_def k1_def fun_eq_iff)
    ultimately show ?thesis using inv False by auto
  qed
qed

text \<open>Setting a priority: the base priority changes, and the priority itself unless it is inherited.\<close>

lemma vTaskPrioritySet_spec:
  assumes "kernel_inv T Q k" "t < T" "prvGetTCBFromHandle h k = Some t" "p < configMAX_PRIORITIES"
  shows "\<exists>k'. vTaskPrioritySet h p k = Some k' \<and> kernel_inv T Q k' \<and>
    reprioritised k k' t ((tcb k t)\<lparr>uxBasePriority := p,
      uxPriority := if uxBasePriority (tcb k t) = priority_of k t then p else priority_of k t\<rparr>)"
proof -
  let ?q = "priority_of k t" and ?b = "uxBasePriority (tcb k t)"
  let ?F = "\<lambda>c. (if uxBasePriority c = uxPriority c then c\<lparr>uxPriority := p\<rparr> else c)\<lparr>uxBasePriority := p\<rparr>"
  have core: "kernel_core T Q {} k" and del: "delays_ok T k" and pd: "pending_ok T k"
    using assms(1) by (simp_all add: kernel_inv_def)
  obtain cur where cur: "pxCurrentTCB k = Some cur" using current_task [OF core] by blast
  have q: "?q < configMAX_PRIORITIES" using priority_less [OF core assms(2)] .
  have F: "?F (tcb k t) = (tcb k t)\<lparr>uxBasePriority := p, uxPriority := if ?b = ?q then p else ?q\<rparr>" by simp
  define y where "y = (if p > ?b then t \<noteq> cur \<and> p \<ge> priority_of k cur else t = cur)"
  show ?thesis
  proof (cases "?b = p")
    case True
    then have "vTaskPrioritySet h p k = Some k" using assms(3,4) cur by (simp add: vTaskPrioritySet_def Let_def)
    then show ?thesis using assms(1) True by (auto simp: reprioritised_def fun_eq_iff)
  next
    case ne: False
    define k1 where "k1 = set_event_priority t p (set_tcb t ?F k)"
    have X: "kernel_core T Q {t} k1"
      unfolding k1_def
      by (rule core_set_event_priority [OF core_set_tcb [OF kernel_core_weaken [OF core]]]) (use assms(2,4) q in auto)
    have d1: "delays_ok T k1" "pending_ok T k1" "item_container k1 = item_container k" "tcb k1 = (tcb k)(t := ?F (tcb k t))"
      "pxCurrentTCB k1 = Some cur"
      using del pd cur by (simp_all add: k1_def)
    show ?thesis
    proof (cases "is_ready k t")
      case True
      have ev: "item_container k1 (event t) = None" using event_free [OF core assms(2) True] by (simp add: d1)
      have g: "item_container k1 (generic t) = Some ?q" using True by (simp add: d1)
      obtain n k2 where k2: "list_remove (generic t) k1 = Some (n, k2)"
        and all: "\<And>k3. k3 = (if n = 0 then portRESET_READY_PRIORITY ?q k2 else k2) \<Longrightarrow>
          kernel_core T Q {t} k3 \<and> relocated k1 k3 (generic t) None \<and> delays_ok T k3 \<and> pending_ok T k3"
        using requeue [OF X assms(2) g q ev d1(1,2)] by auto
      define k3 where "k3 = (if n = 0 then portRESET_READY_PRIORITY ?q k2 else k2)"
      note k3 = all [OF k3_def]
      note o3 = relocated_simps [of k1 k3 "generic t" None]
      have f3: "item_container k3 (generic t) = None" "item_container k3 (event t) = None" "delays_ok T k3" "pending_ok T k3"
        "tcb k3 = tcb k1" "pxCurrentTCB k3 = Some cur" "item_container k3 = (item_container k)(generic t := None)"
        using k3 ev o3(2-4) d1 by auto
      define k4 where "k4 = prvAddTaskToReadyList t k3"
      have fin: "kernel_inv T Q k4" "relocated k3 k4 (generic t) (Some (priority_of k3 t))"
        using add_ready_inv [of T Q t k3] k3 assms(2) f3(1-4) by (simp_all add: k4_def)
      define k' where "k' = (if y then portYIELD k4 else k4)"
      have "vTaskPrioritySet h p k = Some k'"
        using assms(3,4) cur ne True k2
        by (simp add: vTaskPrioritySet_def Let_def y_def [symmetric] k'_def k4_def k3_def cong: if_cong flip: k1_def)
      moreover have "kernel_inv T Q k'" using fin(1) by (simp add: k'_def portYIELD_def)
      moreover have "reprioritised k k' t (?F (tcb k t))"
        using True relocated_simps [OF fin(2)] f3(5-7) d1(4) cur
        by (auto simp: reprioritised_def k'_def portYIELD_def)
      ultimately show ?thesis unfolding F by blast
    next
      case False
      obtain l where l: "item_container k (generic t) = Some l"
        using core assms(2) by (auto simp: kernel_core_def tasks_ok_def)
      then have "configMAX_PRIORITIES \<le> l" using False ready_on_list [OF core assms(2)] by (meson not_le)
      then have "kernel_core T Q {} k1" using X l core_settled [of T Q t "{}" k1 l] by (simp add: d1)
      then have inv: "kernel_inv T Q k1" using d1 by (simp add: kernel_inv_def)
      define k' where "k' = (if y then portYIELD k1 else k1)"
      have "item_container k1 (generic t) \<noteq> Some ?q" using False by (simp add: d1)
      then have "vTaskPrioritySet h p k = Some k'"
        using assms(3,4) cur ne False by (simp add: vTaskPrioritySet_def Let_def y_def [symmetric] k'_def cong: if_cong flip: k1_def)
      moreover have "kernel_inv T Q k'" using inv by (simp add: k'_def portYIELD_def)
      moreover have "reprioritised k k' t (?F (tcb k t))"
        using False d1 cur by (auto simp: reprioritised_def k'_def portYIELD_def)
      ultimately show ?thesis unfolding F by blast
    qed
  qed
qed

section \<open>Suspending and resuming tasks\<close>

lemma taskRESET_items [simp]:
  "item_container (taskRESET_READY_PRIORITY p k) = item_container k" "item_value (taskRESET_READY_PRIORITY p k) = item_value k"
  by (simp_all add: taskRESET_READY_PRIORITY_def)

text \<open>A task is taken off the list of its state and the list of what it waits for, whichever they are.\<close>

lemma unlink_task_spec:
  assumes "kernel_inv T Q k" "t < T"
  shows "\<exists>k'. unlink_task t k = Some k' \<and> kernel_core T Q {t} k' \<and> delays_ok T k' \<and> pending_ok T k' \<and> lists_changed k k' \<and>
    item_value k' = item_value k \<and> item_container k' = (item_container k)(generic t := None, event t := None)"
proof -
  let ?p = "priority_of k t"
  have core: "kernel_core T Q {} k" and del: "delays_ok T k" and pd: "pending_ok T k"
    using assms(1) by (simp_all add: kernel_inv_def)
  have X: "kernel_core T Q {t} k" by (rule kernel_core_weaken [OF core]) simp
  obtain l where l: "item_container k (generic t) = Some l"
    using core assms(2) by (auto simp: kernel_core_def tasks_ok_def)
  obtain n k1 where k1: "list_remove (generic t) k = Some (n, k1)" "only_moved k k1 (generic t) None"
    and c1: "kernel_core T Q {t} (if n = 0 then taskRESET_READY_PRIORITY ?p k1 else k1)"
  proof (cases "configMAX_PRIORITIES \<le> l")
    case True
    obtain n k1 where k1: "list_remove (generic t) k = Some (n, k1)" "kernel_core T Q {t} k1" "only_moved k k1 (generic t) None"
      using core_remove_generic [OF X assms(2) _ l True] by auto
    obtain f where f: "kernel_lists T Q f k1" using k1(2) kernel_core_lists by blast
    have p: "?p < configMAX_PRIORITIES" using priority_less [OF core assms(2)] .
    have "taskRESET_READY_PRIORITY ?p k1 = k1 \<or> \<not> bit (uxTopReadyPriority k1) ?p"
    proof (cases "list_length ?p k1 = 0")
      case True
      then have "f ?p = []" using list_empty_iff [OF f, of ?p] p by (simp add: list_is_empty_def)
      then have "\<not> (\<exists>u < T. item_container k1 (generic u) = Some ?p)"
        using list_of_generics [OF f, of "{t}" ?p] k1(2) p by (auto simp: kernel_core_def)
      then show ?thesis using k1(2) by (simp add: kernel_core_def ready_ok_def)
    next
      case False
      then show ?thesis by (simp add: taskRESET_READY_PRIORITY_def)
    qed
    moreover have "w AND NOT (push_bit ?p 1) = w" if "\<not> bit w ?p" for w :: "32 word"
      by (rule bit_eqI) (use that in \<open>auto simp: bit_reset simp del: push_bit_of_1\<close>)
    ultimately have "taskRESET_READY_PRIORITY ?p k1 = k1"
      by (auto simp: taskRESET_READY_PRIORITY_def portRESET_READY_PRIORITY_def)
    then show ?thesis using that k1 by simp
  next
    case False
    then have lp: "l = ?p" using ready_on_list [OF core assms(2) l] l by simp
    obtain n k1 where "list_remove (generic t) k = Some (n, k1)" "only_moved k k1 (generic t) None"
      "n = 0 \<longleftrightarrow> list_length l k1 = 0" "kernel_core T Q {t} (if n = 0 then portRESET_READY_PRIORITY l k1 else k1)"
      using core_leave_ready [OF X assms(2) _ l] False by auto
    then show ?thesis using that by (simp add: taskRESET_READY_PRIORITY_def lp cong: if_cong)
  qed
  note o1 = only_moved_simps [OF k1(2)]
  define k2 where "k2 = (if n = 0 then taskRESET_READY_PRIORITY (priority_of k1 t) k1 else k1)"
  have c2: "kernel_core T Q {t} k2" using c1 by (simp add: k2_def o1(3) cong: if_cong)
  have r2: "relocated k k2 (generic t) None"
    using relocated_reset [OF k1(2)] only_moved_relocated [OF k1(2)] by (auto simp: k2_def taskRESET_READY_PRIORITY_def split: if_splits)
  note o2 = relocated_simps [OF r2]
  have d2: "delays_ok T k2" "pending_ok T k2"
    using delays_ok_relocated [OF del r2] pending_ok_relocated [OF pd r2] by simp_all
  have u: "unlink_task t k = (if item_container k2 (event t) \<noteq> None then map_option snd (list_remove (event t) k2) else Some k2)"
    unfolding unlink_task_def k1(1) k2_def Let_def by simp
  show ?thesis
  proof (cases "item_container k2 (event t)")
    case None
    then have "item_container k2 = (item_container k)(generic t := None, event t := None)"
      by (simp add: o2(2) fun_eq_iff)
    then show ?thesis using u None c2 d2 relocated_lists_changed [OF r2] o2(1) by auto
  next
    case (Some m)
    obtain j k3 where k3: "list_remove (event t) k2 = Some (j, k3)" "kernel_core T Q {t} k3" "only_moved k2 k3 (event t) None"
      using core_remove_event [OF c2 assms(2) Some] by blast
    note r3 = only_moved_relocated [OF k3(3)] and o3 = only_moved_simps [OF k3(3)]
    have "delays_ok T k3" "pending_ok T k3"
      using delays_ok_relocated [OF d2(1) r3] pending_ok_relocated [OF d2(2) r3] by simp_all
    moreover have "lists_changed k k3"
      using lists_changed_trans [OF relocated_lists_changed [OF r2] relocated_lists_changed [OF r3]] .
    ultimately show ?thesis using u Some k3(1,2) by (simp add: o2 o3)
  qed
qed

text \<open>
  Suspending a task, running or not: it is on the list of suspended tasks, it waits for nothing any more, and if it is the
  running one a switch is requested.
\<close>

lemma vTaskSuspend_spec:
  assumes "kernel_inv T Q k" "t < T" "prvGetTCBFromHandle h k = Some t" "xSchedulerRunning k"
    and "pxCurrentTCB k = Some t \<Longrightarrow> uxSchedulerSuspended k = 0"
  shows "\<exists>k'. vTaskSuspend h k = Some k' \<and> kernel_inv T Q k' \<and> prvTaskIsTaskSuspended t k' \<and>
    (pxCurrentTCB k = Some t \<longrightarrow> pendsv k') \<and> tcb k' = tcb k \<and> pxCurrentTCB k' = pxCurrentTCB k \<and>
    item_container k' = (item_container k)(generic t := Some xSuspendedTaskList, event t := None)"
proof -
  obtain k1 where k1: "unlink_task t k = Some k1" "kernel_core T Q {t} k1" "delays_ok T k1" "pending_ok T k1" "lists_changed k k1"
    "item_container k1 = (item_container k)(generic t := None, event t := None)"
    using unlink_task_spec [OF assms(1,2)] by blast
  define k2 where "k2 = list_insert_end xSuspendedTaskList (generic t) k1"
  have s: "kernel_core T Q {t} k2" "only_moved k1 k2 (generic t) (Some xSuspendedTaskList)"
    using core_suspend [OF k1(2) assms(2)] k1(6) by (simp_all add: k2_def)
  note o2 = only_moved_simps [OF s(2)] and r2 = only_moved_relocated [OF s(2)]
  have "kernel_core T Q {} k2" by (rule core_settled [OF _, of T Q t "{}" _ xSuspendedTaskList]) (use s(1) o2 in auto)
  moreover have "delays_ok T k2" "pending_ok T k2"
    using delays_ok_relocated [OF k1(3) r2] pending_ok_relocated [OF k1(4) r2] by simp_all
  ultimately have inv: "kernel_inv T Q k2" by (simp add: kernel_inv_def)
  have f2: "pxCurrentTCB k2 = pxCurrentTCB k" "tcb k2 = tcb k" "xSchedulerRunning k2" "uxSchedulerSuspended k2 = uxSchedulerSuspended k"
    "item_container k2 = (item_container k)(generic t := Some xSuspendedTaskList, event t := None)"
    using k1(5,6) assms(4) by (auto simp: o2 lists_changed_def fun_eq_iff)
  show ?thesis
  proof (cases "pxCurrentTCB k = Some t")
    case True
    have "vTaskSuspend h k = Some (portYIELD k2)"
      using assms(3,5) True k1(1) f2 by (simp add: vTaskSuspend_def Let_def flip: k2_def)
    then show ?thesis using inv f2 by (simp add: portYIELD_def prvTaskIsTaskSuspended_def)
  next
    case False
    have "pxDelayedTaskList k2 = xDelayedTaskList1 \<or> pxDelayedTaskList k2 = xDelayedTaskList2"
      using inv by (auto simp: kernel_inv_def delays_ok_def)
    then obtain v where v: "prvResetNextTaskUnblockTime k2 = Some (k2\<lparr>xNextTaskUnblockTime := v\<rparr>)"
      "\<forall>u < T. item_container k2 (generic u) = Some (pxDelayedTaskList k2) \<longrightarrow> v \<le> item_value k2 (generic u)"
      using prvResetNextTaskUnblockTime_spec [of T Q "{}" k2] inv by (auto simp: kernel_inv_def)
    have "vTaskSuspend h k = Some (k2\<lparr>xNextTaskUnblockTime := v\<rparr>)"
      using assms(3) False k1(1) f2 v(1) by (simp add: vTaskSuspend_def Let_def flip: k2_def)
    moreover have "kernel_inv T Q (k2\<lparr>xNextTaskUnblockTime := v\<rparr>)"
      using inv v(2) by (simp add: kernel_inv_def delays_ok_def pending_ok_def)
    ultimately show ?thesis using False f2 by (simp add: prvTaskIsTaskSuspended_def)
  qed
qed

lemma vTaskResume_spec:
  assumes "kernel_inv T Q k" "t < T" "pxCurrentTCB k = Some cur"
  shows "\<exists>k'. vTaskResume t k = Some k' \<and> kernel_inv T Q k' \<and> tcb k' = tcb k \<and> (\<forall>u. is_ready k u \<longrightarrow> is_ready k' u) \<and>
    (if t \<noteq> cur \<and> prvTaskIsTaskSuspended t k
     then is_ready k' t \<and> (priority_of k cur \<le> priority_of k t \<longrightarrow> pendsv k') else k' = k)"
proof (cases "t \<noteq> cur \<and> prvTaskIsTaskSuspended t k")
  case False
  then show ?thesis using assms by (auto simp: vTaskResume_def)
next
  case True
  then have c: "item_container k (generic t) = Some xSuspendedTaskList" "item_container k (event t) = None"
    by (simp_all add: prvTaskIsTaskSuspended_def)
  have core: "kernel_core T Q {} k" and del: "delays_ok T k" and pd: "pending_ok T k"
    using assms(1) by (simp_all add: kernel_inv_def)
  have X: "kernel_core T Q {t} k" by (rule kernel_core_weaken [OF core]) simp
  obtain n k1 where k1: "list_remove (generic t) k = Some (n, k1)" "kernel_core T Q {t} k1" "only_moved k k1 (generic t) None"
    using core_remove_generic [OF X assms(2) _ c(1)] by auto
  note o1 = only_moved_simps [OF k1(3)] and r1 = only_moved_relocated [OF k1(3)]
  define k2 where "k2 = prvAddTaskToReadyList t k1"
  have k2: "kernel_inv T Q k2" "relocated k1 k2 (generic t) (Some (priority_of k1 t))"
    using add_ready_inv [OF k1(2) assms(2)] c(2) delays_ok_relocated [OF del r1] pending_ok_relocated [OF pd r1]
    by (simp_all add: o1 k2_def)
  note o2 = relocated_simps [OF k2(2)]
  define k' where "k' = (if priority_of k cur \<le> priority_of k t then portYIELD k2 else k2)"
  have "vTaskResume t k = Some k'"
    using True assms(3) k1(1) o1(3,4) o2(3,4) by (simp add: vTaskResume_def Let_def k'_def flip: k2_def)
  moreover have "is_ready k' t" "tcb k' = tcb k" "\<forall>u. is_ready k u \<longrightarrow> is_ready k' u"
    by (auto simp: k'_def portYIELD_def o1 o2)
  ultimately show ?thesis using True k2(1) by (auto simp: k'_def portYIELD_def)
qed

end
