(* ===== verification/Rtos_Queue.thy ===== *)
theory Rtos_Queue
  imports Rtos_Block
begin

text \<open>
  The queues of \<open>src/FreeRTOS/queue.c\<close>, which are also the semaphores and the mutexes, over the scheduler of
  \<open>Rtos_Tasks\<close>. The storage is the bytes from \<open>pcHead\<close> on and the pointers into it are offsets; an access
  outside it is \<open>None\<close>, as is a failed \<open>configASSERT\<close>. A critical section is one step. The blocking calls are loops of
  critical sections between which interrupts and, unless the scheduler is suspended, other tasks run: their program is
  \<open>send_step\<close> and \<open>receive_step\<close> over the points where they can be interrupted.
\<close>

section \<open>State\<close>

text \<open>
  The members that share their memory in the code are separate here: \<open>pcTail\<close> and \<open>pxMutexHolder\<close>, and
  \<open>pcReadFrom\<close> and \<open>uxRecursiveCallCount\<close>. Which of them is meant is told by \<open>pcHead = NULL\<close>, here
  \<open>is_mutex\<close>. The two event lists are lists of the kernel.
\<close>

record queue =
  storage :: "8 word list"
  is_mutex :: bool
  pcTail :: int
  pxMutexHolder :: "nat option"
  pcWriteTo :: int
  pcReadFrom :: int
  uxRecursiveCallCount :: "32 word"
  xTasksWaitingToSend :: nat
  xTasksWaitingToReceive :: nat
  uxMessagesWaiting :: "32 word"
  uxLength :: "32 word"
  uxItemSize :: "32 word"
  xRxLock :: "32 word"
  xTxLock :: "32 word"
  ucQueueType :: "8 word"

abbreviation (input) queueUNLOCKED :: "32 word" where "queueUNLOCKED \<equiv> - 1"
abbreviation (input) queueLOCKED_UNMODIFIED :: "32 word" where "queueLOCKED_UNMODIFIED \<equiv> 0"

datatype position = SEND_TO_BACK | SEND_TO_FRONT | OVERWRITE

section \<open>Copying items\<close>

text \<open>The two calls of \<open>memcpy\<close>; \<open>None\<close> is a copy that leaves the item or the storage.\<close>

definition store_item :: "int \<Rightarrow> 8 word list \<Rightarrow> queue \<Rightarrow> queue option" where
  "store_item p item q =
     (let s = unat (uxItemSize q); a = nat p in
      if 0 \<le> p \<and> a + s \<le> length (storage q) \<and> s \<le> length item
      then Some (q\<lparr>storage := take a (storage q) @ take s item @ drop (a + s) (storage q)\<rparr>) else None)"

definition load_item :: "int \<Rightarrow> queue \<Rightarrow> 8 word list option" where
  "load_item p q =
     (let s = unat (uxItemSize q); a = nat p in
      if 0 \<le> p \<and> a + s \<le> length (storage q) then Some (take s (drop a (storage q))) else None)"

text \<open>The result of \<open>prvCopyDataToQueue\<close> is whether giving a mutex lowered the priority of its holder.\<close>

definition prvCopyDataToQueue ::
  "8 word list \<Rightarrow> position \<Rightarrow> queue \<Rightarrow> kernel \<Rightarrow> (bool \<times> queue \<times> kernel) option" where
  "prvCopyDataToQueue pvItemToQueue xPosition q k = do {
     (xReturn, q, k) \<leftarrow>
       (if uxItemSize q = 0 then
          if is_mutex q then do {
            (x, k) \<leftarrow> xTaskPriorityDisinherit (pxMutexHolder q) k;
            Some (x, q\<lparr>pxMutexHolder := None\<rparr>, k) }
          else Some (False, q, k)
        else if xPosition = SEND_TO_BACK then do {
          q \<leftarrow> store_item (pcWriteTo q) pvItemToQueue q;
          let q = q\<lparr>pcWriteTo := pcWriteTo q + uint (uxItemSize q)\<rparr>;
          Some (False, if pcWriteTo q \<ge> pcTail q then q\<lparr>pcWriteTo := 0\<rparr> else q, k) }
        else do {
          q \<leftarrow> store_item (pcReadFrom q) pvItemToQueue q;
          let q = q\<lparr>pcReadFrom := pcReadFrom q - uint (uxItemSize q)\<rparr>;
          let q = (if pcReadFrom q < 0 then q\<lparr>pcReadFrom := pcTail q - uint (uxItemSize q)\<rparr> else q);
          Some (False,
            if xPosition = OVERWRITE \<and> uxMessagesWaiting q > 0
            then q\<lparr>uxMessagesWaiting := uxMessagesWaiting q - 1\<rparr> else q, k) });
     Some (xReturn, q\<lparr>uxMessagesWaiting := uxMessagesWaiting q + 1\<rparr>, k) }"

definition prvCopyDataFromQueue :: "queue \<Rightarrow> (8 word list \<times> queue) option" where
  "prvCopyDataFromQueue q =
     (if uxItemSize q \<noteq> 0 then do {
        let q = q\<lparr>pcReadFrom := pcReadFrom q + uint (uxItemSize q)\<rparr>;
        let q = (if pcReadFrom q \<ge> pcTail q then q\<lparr>pcReadFrom := 0\<rparr> else q);
        d \<leftarrow> load_item (pcReadFrom q) q;
        Some (d, q) }
      else Some ([], q))"

definition prvIsQueueEmpty :: "queue \<Rightarrow> bool" where
  "prvIsQueueEmpty q \<longleftrightarrow> uxMessagesWaiting q = 0"

definition prvIsQueueFull :: "queue \<Rightarrow> bool" where
  "prvIsQueueFull q \<longleftrightarrow> uxMessagesWaiting q = uxLength q"

definition uxQueueMessagesWaiting :: "queue \<Rightarrow> 32 word" where
  "uxQueueMessagesWaiting q = uxMessagesWaiting q"

definition uxQueueSpacesAvailable :: "queue \<Rightarrow> 32 word" where
  "uxQueueSpacesAvailable q = uxLength q - uxMessagesWaiting q"

section \<open>Locking\<close>

text \<open>
  A queue is locked while its call moves the task to an event list; an interrupt that finds it locked counts instead of waking
  a task, and unlocking makes up for it.
\<close>

definition prvLockQueue :: "queue \<Rightarrow> queue" where
  "prvLockQueue q =
     (let q = (if xRxLock q = queueUNLOCKED then q\<lparr>xRxLock := queueLOCKED_UNMODIFIED\<rparr> else q)
      in if xTxLock q = queueUNLOCKED then q\<lparr>xTxLock := queueLOCKED_UNMODIFIED\<rparr> else q)"

text \<open>The loops of \<open>prvUnlockQueue\<close>, on the lock count of one direction and the list of the tasks it may wake.\<close>

partial_function (option) wake_missed :: "nat \<Rightarrow> 32 word \<Rightarrow> kernel \<Rightarrow> kernel option" where
  "wake_missed l n k =
     (if queueLOCKED_UNMODIFIED <s n then
        if list_is_empty l k then Some k
        else do {
          (w, k) \<leftarrow> xTaskRemoveFromEventList l k;
          wake_missed l (n - 1) (if w then vTaskMissedYield k else k) }
      else Some k)"

declare wake_missed.simps [code]

definition unlock_tx :: "queue \<Rightarrow> kernel \<Rightarrow> (queue \<times> kernel) option" where
  "unlock_tx q k = do {
     k \<leftarrow> wake_missed (xTasksWaitingToReceive q) (xTxLock q) k;
     Some (q\<lparr>xTxLock := queueUNLOCKED\<rparr>, k) }"

definition unlock_rx :: "queue \<Rightarrow> kernel \<Rightarrow> (queue \<times> kernel) option" where
  "unlock_rx q k = do {
     k \<leftarrow> wake_missed (xTasksWaitingToSend q) (xRxLock q) k;
     Some (q\<lparr>xRxLock := queueUNLOCKED\<rparr>, k) }"

definition prvUnlockQueue :: "queue \<Rightarrow> kernel \<Rightarrow> (queue \<times> kernel) option" where
  "prvUnlockQueue q k = do { (q, k) \<leftarrow> unlock_tx q k; unlock_rx q k }"

section \<open>The critical section of a send and of a receive\<close>

text \<open>
  Where a call is: about to test the queue, then on its way to wait for it with the time-out it entered with, and so on; the
  result of a finished call is the data received, nothing for a send, and \<open>None\<close> for \<open>errQUEUE_FULL\<close> and
  \<open>errQUEUE_EMPTY\<close>.
\<close>

datatype after_unlock = Yield | Again | Give_up

datatype pc =
  Trying "timeout option" tick
| Must_wait timeout tick
| Scheduler_suspended timeout tick
| Queue_locked timeout tick
| Not_timed_out timeout tick
| Place timeout tick
| Unlock_tx after_unlock timeout tick
| Unlock_rx after_unlock timeout tick
| Resume after_unlock timeout tick
| Returned "8 word list option"

definition queueYIELD_IF_USING_PREEMPTION :: "kernel \<Rightarrow> kernel" where
  "queueYIELD_IF_USING_PREEMPTION k = portYIELD k"

definition wake_and_yield :: "nat \<Rightarrow> kernel \<Rightarrow> kernel option" where
  "wake_and_yield l k = do {
     (w, k) \<leftarrow> xTaskRemoveFromEventList l k;
     Some (if w then queueYIELD_IF_USING_PREEMPTION k else k) }"

definition wait_or_fail :: "timeout option \<Rightarrow> tick \<Rightarrow> kernel \<Rightarrow> pc" where
  "wait_or_fail entry ticksToWait k =
     (if ticksToWait = 0 then Returned None
      else case entry of
          None \<Rightarrow> Must_wait (vTaskSetTimeOutState (counters k)) ticksToWait
        | Some timeOut \<Rightarrow> Must_wait timeOut ticksToWait)"

definition send_try ::
  "8 word list \<Rightarrow> position \<Rightarrow> timeout option \<Rightarrow> tick \<Rightarrow> queue \<Rightarrow> kernel \<Rightarrow> (pc \<times> queue \<times> kernel) option" where
  "send_try pvItemToQueue xCopyPosition entry ticksToWait q k =
     (if uxMessagesWaiting q < uxLength q \<or> xCopyPosition = OVERWRITE then do {
        (xYieldRequired, q, k) \<leftarrow> prvCopyDataToQueue pvItemToQueue xCopyPosition q k;
        k \<leftarrow> (if \<not> list_is_empty (xTasksWaitingToReceive q) k then wake_and_yield (xTasksWaitingToReceive q) k
             else Some (if xYieldRequired then queueYIELD_IF_USING_PREEMPTION k else k));
        Some (Returned (Some []), q, k) }
      else Some (wait_or_fail entry ticksToWait k, q, k))"

definition receive_try ::
  "bool \<Rightarrow> timeout option \<Rightarrow> tick \<Rightarrow> queue \<Rightarrow> kernel \<Rightarrow> (pc \<times> queue \<times> kernel) option" where
  "receive_try xJustPeeking entry ticksToWait q k =
     (if uxMessagesWaiting q > 0 then do {
        let pcOriginalReadPosition = pcReadFrom q;
        (d, q) \<leftarrow> prvCopyDataFromQueue q;
        if \<not> xJustPeeking then do {
          let q = q\<lparr>uxMessagesWaiting := uxMessagesWaiting q - 1\<rparr>;
          let (q, k) = (if is_mutex q then let (h, k) = pvTaskIncrementMutexHeldCount k in (q\<lparr>pxMutexHolder := h\<rparr>, k)
                        else (q, k));
          k \<leftarrow> (if \<not> list_is_empty (xTasksWaitingToSend q) k then wake_and_yield (xTasksWaitingToSend q) k else Some k);
          Some (Returned (Some d), q, k) }
        else do {
          let q = q\<lparr>pcReadFrom := pcOriginalReadPosition\<rparr>;
          k \<leftarrow> (if \<not> list_is_empty (xTasksWaitingToReceive q) k then wake_and_yield (xTasksWaitingToReceive q) k
               else Some k);
          Some (Returned (Some d), q, k) } }
      else Some (wait_or_fail entry ticksToWait k, q, k))"

section \<open>Waiting\<close>

text \<open>The rest of the loop, which a send and a receive share but for the test and the list to wait on.\<close>

fun wait_step ::
  "(queue \<Rightarrow> bool) \<Rightarrow> (tick \<Rightarrow> queue \<Rightarrow> kernel \<Rightarrow> kernel option) \<Rightarrow> pc \<Rightarrow> queue \<Rightarrow> kernel \<Rightarrow> (pc \<times> queue \<times> kernel) option"
where
  "wait_step must_block place (Must_wait timeOut ticksToWait) q k =
     Some (Scheduler_suspended timeOut ticksToWait, q, vTaskSuspendAll k)"
| "wait_step must_block place (Scheduler_suspended timeOut ticksToWait) q k =
     Some (Queue_locked timeOut ticksToWait, prvLockQueue q, k)"
| "wait_step must_block place (Queue_locked timeOut ticksToWait) q k =
     (let (timed_out, timeOut, ticksToWait) = xTaskCheckForTimeOut (counters k) timeOut ticksToWait
      in if \<not> timed_out then Some (Not_timed_out timeOut ticksToWait, q, k)
         else Some (Unlock_tx Give_up timeOut ticksToWait, q, k))"
| "wait_step must_block place (Not_timed_out timeOut ticksToWait) q k =
     Some (if must_block q then Place timeOut ticksToWait else Unlock_tx Again timeOut ticksToWait, q, k)"
| "wait_step must_block place (Place timeOut ticksToWait) q k = do {
     k \<leftarrow> place ticksToWait q k;
     Some (Unlock_tx Yield timeOut ticksToWait, q, k) }"
| "wait_step must_block place (Unlock_tx next timeOut ticksToWait) q k = do {
     (q, k) \<leftarrow> unlock_tx q k;
     Some (Unlock_rx next timeOut ticksToWait, q, k) }"
| "wait_step must_block place (Unlock_rx next timeOut ticksToWait) q k = do {
     (q, k) \<leftarrow> unlock_rx q k;
     Some (Resume next timeOut ticksToWait, q, k) }"
| "wait_step must_block place (Resume next timeOut ticksToWait) q k = do {
     (xAlreadyYielded, k) \<leftarrow> xTaskResumeAll k;
     Some (if next = Give_up then Returned None else Trying (Some timeOut) ticksToWait, q,
       if next = Yield \<and> \<not> xAlreadyYielded then portYIELD k else k) }"
| "wait_step must_block place _ q k = None"

definition wait_to_send :: "tick \<Rightarrow> queue \<Rightarrow> kernel \<Rightarrow> kernel option" where
  "wait_to_send ticksToWait q k = vTaskPlaceOnEventList (xTasksWaitingToSend q) ticksToWait k"

definition wait_to_receive :: "tick \<Rightarrow> queue \<Rightarrow> kernel \<Rightarrow> kernel option" where
  "wait_to_receive ticksToWait q k = do {
     k \<leftarrow> (if is_mutex q then vTaskPriorityInherit (pxMutexHolder q) k else Some k);
     vTaskPlaceOnEventList (xTasksWaitingToReceive q) ticksToWait k }"

definition send_step :: "8 word list \<Rightarrow> position \<Rightarrow> pc \<Rightarrow> queue \<Rightarrow> kernel \<Rightarrow> (pc \<times> queue \<times> kernel) option" where
  "send_step pvItemToQueue xCopyPosition c q k =
     (case c of Trying entry ticksToWait \<Rightarrow> send_try pvItemToQueue xCopyPosition entry ticksToWait q k
      | _ \<Rightarrow> wait_step prvIsQueueFull wait_to_send c q k)"

definition receive_step :: "bool \<Rightarrow> pc \<Rightarrow> queue \<Rightarrow> kernel \<Rightarrow> (pc \<times> queue \<times> kernel) option" where
  "receive_step xJustPeeking c q k =
     (case c of Trying entry ticksToWait \<Rightarrow> receive_try xJustPeeking entry ticksToWait q k
      | _ \<Rightarrow> wait_step prvIsQueueEmpty wait_to_receive c q k)"

section \<open>Calls from tasks\<close>

datatype scheduler_state = taskSCHEDULER_NOT_STARTED | taskSCHEDULER_RUNNING | taskSCHEDULER_SUSPENDED

definition xTaskGetSchedulerState :: "kernel \<Rightarrow> scheduler_state" where
  "xTaskGetSchedulerState k =
     (if \<not> xSchedulerRunning k then taskSCHEDULER_NOT_STARTED
      else if uxSchedulerSuspended k = 0 then taskSCHEDULER_RUNNING else taskSCHEDULER_SUSPENDED)"

text \<open>The entry of the two blocking calls, up to their loop; \<open>None\<close> for the item is \<open>NULL\<close>.\<close>

definition xQueueGenericSend :: "8 word list option \<Rightarrow> position \<Rightarrow> tick \<Rightarrow> queue \<Rightarrow> kernel \<Rightarrow> pc option" where
  "xQueueGenericSend pvItemToQueue xCopyPosition ticksToWait q k =
     (if pvItemToQueue = None \<and> uxItemSize q \<noteq> 0 then None
      else if xCopyPosition = OVERWRITE \<and> uxLength q \<noteq> 1 then None
      else if xTaskGetSchedulerState k = taskSCHEDULER_SUSPENDED \<and> ticksToWait \<noteq> 0 then None
      else Some (Trying None ticksToWait))"

definition xQueueGenericReceive :: "bool \<Rightarrow> tick \<Rightarrow> queue \<Rightarrow> kernel \<Rightarrow> pc option" where
  "xQueueGenericReceive pvBuffer_null ticksToWait q k =
     (if pvBuffer_null \<and> uxItemSize q \<noteq> 0 then None
      else if xTaskGetSchedulerState k = taskSCHEDULER_SUSPENDED \<and> ticksToWait \<noteq> 0 then None
      else Some (Trying None ticksToWait))"

text \<open>
  Recursive mutexes. Taking one that the task does not hold is a receive, whose success is counted; the count is only
  used by the holder, so counting is part of the step that takes the mutex.
\<close>

definition xQueueGiveMutexRecursive :: "queue \<Rightarrow> kernel \<Rightarrow> (bool \<times> queue \<times> kernel) option" where
  "xQueueGiveMutexRecursive q k =
     (if pxMutexHolder q = pxCurrentTCB k then do {
        let q = q\<lparr>uxRecursiveCallCount := uxRecursiveCallCount q - 1\<rparr>;
        (q, k) \<leftarrow> (if uxRecursiveCallCount q = 0 then do {
                    c \<leftarrow> xQueueGenericSend None SEND_TO_BACK 0 q k;
                    (c, q, k) \<leftarrow> send_step [] SEND_TO_BACK c q k;
                    Some (q, k) }
                  else Some (q, k));
        Some (True, q, k) }
      else Some (False, q, k))"

definition xQueueTakeMutexRecursive :: "tick \<Rightarrow> queue \<Rightarrow> kernel \<Rightarrow> (pc \<times> queue \<times> kernel) option" where
  "xQueueTakeMutexRecursive ticksToWait q k =
     (if pxMutexHolder q = pxCurrentTCB k
      then Some (Returned (Some []), q\<lparr>uxRecursiveCallCount := uxRecursiveCallCount q + 1\<rparr>, k)
      else do {
        c \<leftarrow> xQueueGenericReceive True ticksToWait q k;
        Some (c, q, k) })"

definition take_recursive_step :: "pc \<Rightarrow> queue \<Rightarrow> kernel \<Rightarrow> (pc \<times> queue \<times> kernel) option" where
  "take_recursive_step c q k = do {
     (c, q, k) \<leftarrow> receive_step False c q k;
     Some (c, case c of Returned (Some _) \<Rightarrow> q\<lparr>uxRecursiveCallCount := uxRecursiveCallCount q + 1\<rparr> | _ \<Rightarrow> q, k) }"

section \<open>Creating and resetting\<close>

definition xQueueGenericReset :: "bool \<Rightarrow> queue \<Rightarrow> kernel \<Rightarrow> (queue \<times> kernel) option" where
  "xQueueGenericReset xNewQueue q k = do {
     let q = (if is_mutex q then q\<lparr>pxMutexHolder := None, uxRecursiveCallCount := 0\<rparr>
              else q\<lparr>pcTail := uint (uxLength q * uxItemSize q), pcReadFrom := uint ((uxLength q - 1) * uxItemSize q)\<rparr>)
             \<lparr>uxMessagesWaiting := 0, pcWriteTo := 0, xRxLock := queueUNLOCKED, xTxLock := queueUNLOCKED\<rparr>;
     k \<leftarrow> (if \<not> xNewQueue then
            if \<not> list_is_empty (xTasksWaitingToSend q) k then wake_and_yield (xTasksWaitingToSend q) k else Some k
          else Some (k\<lparr>heap := vListInitialise (xTasksWaitingToReceive q) (vListInitialise (xTasksWaitingToSend q) (heap k))\<rparr>));
     Some (q, k) }"

text \<open>
  The memory comes from \<open>malloc\<close>, through \<open>pvPortMalloc\<close> of \<open>heap_3.c\<close>: the function of its size gives the
  bytes of the block, or \<open>None\<close> for \<open>NULL\<close>. The storage is what is left of the block behind the \<open>Queue_t\<close>.
  The kernel lists of a new queue are those numbered by the caller.
\<close>

abbreviation (input) sizeof_Queue_t :: "32 word" where "sizeof_Queue_t \<equiv> 84"

definition xQueueGenericCreate ::
  "(32 word \<Rightarrow> 8 word list option) \<Rightarrow> nat \<Rightarrow> nat \<Rightarrow> 32 word \<Rightarrow> 32 word \<Rightarrow> 8 word \<Rightarrow> kernel \<Rightarrow> (queue \<times> kernel) option" where
  "xQueueGenericCreate malloc toSend toReceive queueLength itemSize queueType k =
     (if queueLength = 0 then None
      else do {
        let xQueueSizeInBytes = (if itemSize = 0 then 0 else queueLength * itemSize + 1);
        block \<leftarrow> malloc (sizeof_Queue_t + xQueueSizeInBytes);
        xQueueGenericReset True
          \<lparr>storage = drop (unat sizeof_Queue_t) block, is_mutex = False, pcTail = 0, pxMutexHolder = None, pcWriteTo = 0,
           pcReadFrom = 0, uxRecursiveCallCount = 0, xTasksWaitingToSend = toSend, xTasksWaitingToReceive = toReceive,
           uxMessagesWaiting = 0, uxLength = queueLength, uxItemSize = itemSize, xRxLock = 0, xTxLock = 0,
           ucQueueType = queueType\<rparr> k })"

definition xQueueCreateMutex ::
  "(32 word \<Rightarrow> 8 word list option) \<Rightarrow> nat \<Rightarrow> nat \<Rightarrow> 8 word \<Rightarrow> kernel \<Rightarrow> (queue option \<times> kernel) option" where
  "xQueueCreateMutex malloc toSend toReceive queueType k =
     (case malloc sizeof_Queue_t of
        None \<Rightarrow> Some (None, k)
      | Some block \<Rightarrow> do {
          let q = \<lparr>storage = drop (unat sizeof_Queue_t) block, is_mutex = True, pcTail = 0, pxMutexHolder = None, pcWriteTo = 0,
            pcReadFrom = 0, uxRecursiveCallCount = 0, xTasksWaitingToSend = toSend, xTasksWaitingToReceive = toReceive,
            uxMessagesWaiting = 0, uxLength = 1, uxItemSize = 0, xRxLock = queueUNLOCKED, xTxLock = queueUNLOCKED,
            ucQueueType = queueType\<rparr>;
          let k = k\<lparr>heap := vListInitialise toReceive (vListInitialise toSend (heap k))\<rparr>;
          c \<leftarrow> xQueueGenericSend None SEND_TO_BACK 0 q k;
          (c, q, k) \<leftarrow> send_step [] SEND_TO_BACK c q k;
          Some (Some q, k) })"

definition xQueueCreateCountingSemaphore ::
  "(32 word \<Rightarrow> 8 word list option) \<Rightarrow> nat \<Rightarrow> nat \<Rightarrow> 32 word \<Rightarrow> 32 word \<Rightarrow> kernel \<Rightarrow> (queue \<times> kernel) option" where
  "xQueueCreateCountingSemaphore malloc toSend toReceive uxMaxCount uxInitialCount k =
     (if uxMaxCount = 0 \<or> \<not> uxInitialCount \<le> uxMaxCount then None
      else do {
        (q, k) \<leftarrow> xQueueGenericCreate malloc toSend toReceive uxMaxCount 0 2 k;
        Some (q\<lparr>uxMessagesWaiting := uxInitialCount\<rparr>, k) })"

section \<open>Calls from interrupts\<close>

text \<open>The first result is whether the call succeeded, the second whether it sets \<open>*pxHigherPriorityTaskWoken\<close>.\<close>

definition wake_from_isr :: "nat \<Rightarrow> kernel \<Rightarrow> (bool \<times> kernel) option" where
  "wake_from_isr l k = (if \<not> list_is_empty l k then xTaskRemoveFromEventList l k else Some (False, k))"

definition xQueueGenericSendFromISR ::
  "8 word list option \<Rightarrow> position \<Rightarrow> queue \<Rightarrow> kernel \<Rightarrow> (bool \<times> bool \<times> queue \<times> kernel) option" where
  "xQueueGenericSendFromISR pvItemToQueue xCopyPosition q k =
     (if pvItemToQueue = None \<and> uxItemSize q \<noteq> 0 then None
      else if xCopyPosition = OVERWRITE \<and> uxLength q \<noteq> 1 then None
      else if uxMessagesWaiting q < uxLength q \<or> xCopyPosition = OVERWRITE then do {
        (_, q, k) \<leftarrow> prvCopyDataToQueue (case pvItemToQueue of Some d \<Rightarrow> d | None \<Rightarrow> []) xCopyPosition q k;
        if xTxLock q = queueUNLOCKED then do {
          (woken, k) \<leftarrow> wake_from_isr (xTasksWaitingToReceive q) k;
          Some (True, woken, q, k) }
        else Some (True, False, q\<lparr>xTxLock := xTxLock q + 1\<rparr>, k) }
      else Some (False, False, q, k))"

definition xQueueGiveFromISR :: "queue \<Rightarrow> kernel \<Rightarrow> (bool \<times> bool \<times> queue \<times> kernel) option" where
  "xQueueGiveFromISR q k =
     (if uxItemSize q \<noteq> 0 then None
      else if is_mutex q \<and> pxMutexHolder q \<noteq> None then None
      else if uxMessagesWaiting q < uxLength q then do {
        let q = q\<lparr>uxMessagesWaiting := uxMessagesWaiting q + 1\<rparr>;
        if xTxLock q = queueUNLOCKED then do {
          (woken, k) \<leftarrow> wake_from_isr (xTasksWaitingToReceive q) k;
          Some (True, woken, q, k) }
        else Some (True, False, q\<lparr>xTxLock := xTxLock q + 1\<rparr>, k) }
      else Some (False, False, q, k))"

text \<open>The buffer is only written when there is a message.\<close>

definition xQueueReceiveFromISR ::
  "bool \<Rightarrow> queue \<Rightarrow> kernel \<Rightarrow> (8 word list option \<times> bool \<times> queue \<times> kernel) option" where
  "xQueueReceiveFromISR pvBuffer_null q k =
     (if pvBuffer_null \<and> uxItemSize q \<noteq> 0 then None
      else if uxMessagesWaiting q > 0 then do {
        (d, q) \<leftarrow> prvCopyDataFromQueue q;
        let q = q\<lparr>uxMessagesWaiting := uxMessagesWaiting q - 1\<rparr>;
        if xRxLock q = queueUNLOCKED then do {
          (woken, k) \<leftarrow> wake_from_isr (xTasksWaitingToSend q) k;
          Some (Some d, woken, q, k) }
        else Some (Some d, False, q\<lparr>xRxLock := xRxLock q + 1\<rparr>, k) }
      else Some (None, False, q, k))"

definition xQueuePeekFromISR :: "bool \<Rightarrow> queue \<Rightarrow> (8 word list option \<times> queue) option" where
  "xQueuePeekFromISR pvBuffer_null q =
     (if pvBuffer_null \<and> uxItemSize q \<noteq> 0 \<or> uxItemSize q = 0 then None
      else if uxMessagesWaiting q > 0 then do {
        let pcOriginalReadPosition = pcReadFrom q;
        (d, q) \<leftarrow> prvCopyDataFromQueue q;
        Some (Some d, q\<lparr>pcReadFrom := pcOriginalReadPosition\<rparr>) }
      else Some (None, q))"

text \<open>
  The timer task waits for commands with the scheduler suspended; it blocks when the scheduler is resumed.
\<close>

definition vQueueWaitForMessageRestricted :: "tick \<Rightarrow> bool \<Rightarrow> queue \<Rightarrow> kernel \<Rightarrow> (queue \<times> kernel) option" where
  "vQueueWaitForMessageRestricted ticksToWait xWaitIndefinitely q k = do {
     let q = prvLockQueue q;
     k \<leftarrow> (if uxMessagesWaiting q = 0
          then vTaskPlaceOnEventListRestricted (xTasksWaitingToReceive q) ticksToWait xWaitIndefinitely k else Some k);
     prvUnlockQueue q k }"

section \<open>The registry\<close>

text \<open>The names of queues for a debugger: eight entries, each a name, \<open>None\<close> when it is free, and the handle of a queue.\<close>

type_synonym registry = "(string option \<times> nat) list"

fun vQueueAddToRegistry :: "nat \<Rightarrow> string \<Rightarrow> registry \<Rightarrow> registry" where
  "vQueueAddToRegistry xQueue pcQueueName [] = []"
| "vQueueAddToRegistry xQueue pcQueueName ((n, h) # r) =
     (if n = None then (Some pcQueueName, xQueue) # r else (n, h) # vQueueAddToRegistry xQueue pcQueueName r)"

fun vQueueUnregisterQueue :: "nat \<Rightarrow> registry \<Rightarrow> registry" where
  "vQueueUnregisterQueue xQueue [] = []"
| "vQueueUnregisterQueue xQueue ((n, h) # r) =
     (if h = xQueue then (None, h) # r else (n, h) # vQueueUnregisterQueue xQueue r)"

end
