(* ===== verification/Rtos_Fifo.thy ===== *)
theory Rtos_Fifo
  imports Rtos_Queue
begin

text \<open>
  The storage of a queue is a ring of slots; what is in it is the list of the messages in the order in which they will be
  received. Copying an item in or out implements the operation of a bounded list, at the end or, for urgent messages, at the
  front. The laws are a locale; what holds of every bounded list is proved there once.
\<close>

section \<open>The ring of slots\<close>

abbreviation capacity :: "queue \<Rightarrow> nat" where "capacity q \<equiv> unat (uxLength q)"
abbreviation messages :: "queue \<Rightarrow> nat" where "messages q \<equiv> unat (uxMessagesWaiting q)"
abbreviation item_size :: "queue \<Rightarrow> nat" where "item_size q \<equiv> unat (uxItemSize q)"

definition slot :: "queue \<Rightarrow> nat \<Rightarrow> 8 word list" where
  "slot q j = take (item_size q) (drop (j * item_size q) (storage q))"

definition read_index :: "queue \<Rightarrow> nat" where
  "read_index q = nat (pcReadFrom q) div item_size q"

definition queue_items :: "queue \<Rightarrow> 8 word list list" where
  "queue_items q =
     (if uxItemSize q = 0 then replicate (messages q) []
      else map (\<lambda>i. slot q ((read_index q + 1 + i) mod capacity q)) [0..<messages q])"

definition queue_ok :: "queue \<Rightarrow> bool" where
  "queue_ok q \<longleftrightarrow> 0 < capacity q \<and> messages q \<le> capacity q \<and> (is_mutex q \<longrightarrow> uxLength q = 1 \<and> uxItemSize q = 0) \<and>
     (uxItemSize q \<noteq> 0 \<longrightarrow> capacity q * item_size q \<le> length (storage q) \<and> pcTail q = int (capacity q * item_size q) \<and>
       (\<exists>r < capacity q. pcReadFrom q = int (r * item_size q) \<and>
          pcWriteTo q = int ((r + 1 + messages q) mod capacity q * item_size q)))"

lemma length_queue_items [simp]: "length (queue_items q) = messages q"
  by (simp add: queue_items_def)

lemma slot_room: "j < n \<Longrightarrow> n * s \<le> l \<Longrightarrow> j * s + s \<le> (l :: nat)"
proof -
  assume "j < n" "n * s \<le> l"
  then have "Suc j * s \<le> n * s" by (intro mult_le_mono1) simp
  then show ?thesis using \<open>n * s \<le> l\<close> by simp
qed

text \<open>Writing one slot leaves the others.\<close>

lemma take_before: "b + s \<le> a \<Longrightarrow> a \<le> length st \<Longrightarrow> take s (drop b (take a st @ ys)) = take s (drop b st)"
  by (simp add: drop_take)

lemma take_behind:
  assumes "a + length xs \<le> b" "a \<le> length st"
  shows "take s (drop b (take a st @ xs @ drop (a + length xs) st)) = take s (drop b st)"
proof -
  obtain c where "b = a + length xs + c" using assms(1) le_Suc_ex by blast
  then show ?thesis using assms(2) by (simp add: add.commute add.left_commute)
qed

lemma slots_apart: "i \<noteq> j \<Longrightarrow> i * s + s \<le> j * s \<or> j * s + s \<le> i * (s :: nat)"
proof -
  assume "i \<noteq> j"
  then consider "Suc i \<le> j" | "Suc j \<le> i" by linarith
  then show ?thesis by cases (use mult_le_mono1 [of "Suc i" j s] mult_le_mono1 [of "Suc j" i s] in auto)
qed

lemma store_item_slot:
  assumes "j < n" "n * item_size q \<le> length (storage q)" "item_size q \<le> length item"
  shows "\<exists>st. store_item (int (j * item_size q)) item q = Some (q\<lparr>storage := st\<rparr>) \<and> length st = length (storage q) \<and>
    (\<forall>i < n. slot (q\<lparr>storage := st\<rparr>) i = (if i = j then take (item_size q) item else slot q i))"
proof -
  let ?s = "item_size q" and ?a = "j * item_size q" and ?x = "take (item_size q) item"
  let ?st = "take ?a (storage q) @ ?x @ drop (?a + ?s) (storage q)"
  have r: "?a + ?s \<le> length (storage q)" by (rule slot_room [OF assms(1,2)])
  have lx: "length ?x = ?s" using assms(3) by simp
  have "slot (q\<lparr>storage := ?st\<rparr>) i = (if i = j then ?x else slot q i)" if "i < n" for i
  proof (cases "i = j")
    case True
    have "drop ?a ?st = ?x @ drop (?a + ?s) (storage q)" using r by simp
    then show ?thesis using True lx by (simp add: slot_def)
  next
    case False
    then show ?thesis
      using slots_apart [OF False, of ?s] r take_before [of "i * ?s" ?s ?a "storage q"] take_behind [of ?a ?x "i * ?s" "storage q" ?s] lx
      by (auto simp: slot_def)
  qed
  moreover have "length ?st = length (storage q)" using r lx by simp
  moreover have "store_item (int ?a) item q = Some (q\<lparr>storage := ?st\<rparr>)"
    using r assms(3) by (simp add: store_item_def Let_def nat_mult_distrib flip: of_nat_mult)
  ultimately show ?thesis by blast
qed

lemma load_item_slot:
  assumes "j < n" "n * item_size q \<le> length (storage q)"
  shows "load_item (int (j * item_size q)) q = Some (slot q j)"
  using slot_room [OF assms] by (simp add: load_item_def slot_def Let_def flip: of_nat_mult)

lemma read_index_eq: "0 < item_size q \<Longrightarrow> pcReadFrom q = int (r * item_size q) \<Longrightarrow> read_index q = r"
  by (simp add: read_index_def flip: of_nat_mult)

text \<open>Moving a pointer to the next or the previous slot wraps around at the ends of the ring.\<close>

lemma pointer_next:
  assumes "i < n" "0 < s"
  shows "(if int (i * s) + int s \<ge> int (n * s) then 0 else int (i * s) + int s) = int ((i + 1) mod n * s)"
proof (cases "i + 1 = n")
  case True
  then have "i * s + s = n * s" using mult_Suc [of i s] by simp
  then have "int (i * s) + int s = int (n * s)" by (simp only: flip: of_nat_add)
  then show ?thesis using True by simp
next
  case False
  then have "Suc (i + 1) * s \<le> n * s" using assms(1) by (intro mult_le_mono1) simp
  then have "i * s + s < n * s" using assms(2) by simp
  then have "int (i * s) + int s < int (n * s)" by (simp only: flip: of_nat_add)
  then show ?thesis using False assms(1) by (simp add: algebra_simps)
qed

lemma pointer_previous:
  assumes "i < n" "0 < s"
  shows "(if int (i * s) - int s < 0 then int (n * s) - int s else int (i * s) - int s) = int ((i + n - 1) mod n * s)"
proof (cases i)
  case 0
  then have "i + n - 1 = n - 1" "(n - 1) mod n = n - 1" using assms(1) by simp_all
  moreover have "n * s = (n - 1) * s + s" using assms(1) by (cases n) simp_all
  ultimately show ?thesis using 0 assms(2) by simp
next
  case (Suc m)
  then have "(i + n - 1) mod n = m" using assms(1) by simp
  then show ?thesis using Suc by (simp add: mult_less_0_iff algebra_simps)
qed

section \<open>Copying implements the list\<close>

text \<open>Copying an item moves the pointers, the count and the bytes, and nothing else of the queue.\<close>

definition moves_items :: "queue \<Rightarrow> queue \<Rightarrow> bool" where
  "moves_items q q' \<longleftrightarrow> q' = q\<lparr>storage := storage q', pcWriteTo := pcWriteTo q', pcReadFrom := pcReadFrom q',
     uxMessagesWaiting := uxMessagesWaiting q'\<rparr>"

lemma moves_items_simps:
  assumes "moves_items q q'"
  shows "is_mutex q' = is_mutex q" "pcTail q' = pcTail q" "pxMutexHolder q' = pxMutexHolder q"
    "xTasksWaitingToSend q' = xTasksWaitingToSend q" "xTasksWaitingToReceive q' = xTasksWaitingToReceive q"
    "uxLength q' = uxLength q" "uxItemSize q' = uxItemSize q" "xRxLock q' = xRxLock q" "xTxLock q' = xTxLock q"
    "uxRecursiveCallCount q' = uxRecursiveCallCount q"
proof -
  note q' = assms [unfolded moves_items_def]
  show "is_mutex q' = is_mutex q" "pcTail q' = pcTail q" "pxMutexHolder q' = pxMutexHolder q"
    "xTasksWaitingToSend q' = xTasksWaitingToSend q" "xTasksWaitingToReceive q' = xTasksWaitingToReceive q"
    "uxLength q' = uxLength q" "uxItemSize q' = uxItemSize q" "xRxLock q' = xRxLock q" "xTxLock q' = xTxLock q"
    "uxRecursiveCallCount q' = uxRecursiveCallCount q"
    by (subst q', simp)+
qed

lemma unat_plus_1: "w < (v :: 32 word) \<Longrightarrow> unat (w + 1) = unat w + 1"
  using unat_word_ariths(1) [of w 1] unsigned_less [where ?'a = nat, of v] by (simp add: word_less_nat_alt)

lemma unat_minus_1: "w > (0 :: 32 word) \<Longrightarrow> unat (w - 1) = unat w - 1"
  by (simp add: unat_minus_one word_gt_0)

lemma item_size_pos [simp]: "0 < item_size q \<longleftrightarrow> uxItemSize q \<noteq> 0"
  by (simp add: unat_gt_0)

lemma copy_back:
  assumes "queue_ok q" "uxItemSize q \<noteq> 0" "uxMessagesWaiting q < uxLength q" "item_size q \<le> length item"
  shows "\<exists>q'. prvCopyDataToQueue item SEND_TO_BACK q k = Some (False, q', k) \<and> queue_ok q' \<and> moves_items q q' \<and>
    queue_items q' = queue_items q @ [take (item_size q) item]"
proof -
  let ?n = "capacity q" and ?m = "messages q" and ?s = "item_size q"
  obtain r where r: "r < ?n" "pcReadFrom q = int (r * ?s)" "pcWriteTo q = int ((r + 1 + ?m) mod ?n * ?s)"
    and st: "?n * ?s \<le> length (storage q)" "pcTail q = int (?n * ?s)"
    using assms(1,2) by (auto simp: queue_ok_def)
  let ?w = "(r + 1 + ?m) mod ?n"
  have w: "?w < ?n" using r(1) by simp
  have m: "?m < ?n" using assms(3) by (simp add: word_less_nat_alt)
  obtain b where b: "store_item (int (?w * ?s)) item q = Some (q\<lparr>storage := b\<rparr>)" "length b = length (storage q)"
    "\<And>i. i < ?n \<Longrightarrow> slot (q\<lparr>storage := b\<rparr>) i = (if i = ?w then take ?s item else slot q i)"
    using store_item_slot [OF w st(1) assms(4)] by blast
  define q' where "q' = q\<lparr>storage := b, pcWriteTo := int ((?w + 1) mod ?n * ?s), uxMessagesWaiting := uxMessagesWaiting q + 1\<rparr>"
  have op: "prvCopyDataToQueue item SEND_TO_BACK q k = Some (False, q', k)"
  proof (cases "int (?w * ?s) + int ?s \<ge> int (?n * ?s)")
    case True
    then have "(?w + 1) mod ?n * ?s = 0" using pointer_next [OF w, of ?s] assms(2) by (simp del: of_nat_mult)
    then show ?thesis using True assms(2) b(1) by (simp add: prvCopyDataToQueue_def r(3) st(2) q'_def del: of_nat_mult)
  next
    case False
    then have "int (?w * ?s) + int ?s = int ((?w + 1) mod ?n * ?s)"
      using pointer_next [OF w, of ?s] assms(2) by (simp del: of_nat_mult)
    then show ?thesis using False assms(2) b(1) by (simp add: prvCopyDataToQueue_def r(3) st(2) q'_def del: of_nat_mult)
  qed
  have m': "messages q' = ?m + 1" using unat_plus_1 [OF assms(3)] by (simp add: q'_def)
  have sl: "slot q' i = (if i = ?w then take ?s item else slot q i)" if "i < ?n" for i
    using b(3) [OF that] by (simp add: slot_def q'_def)
  have "(?w + 1) mod ?n = (r + 1 + (?m + 1)) mod ?n" by (simp add: mod_simps add.assoc)
  then have ok: "queue_ok q'"
    using assms(1,2) r(1,2) st b(2) m m' by (auto simp: queue_ok_def q'_def)
  have ri: "read_index q' = r" "read_index q = r"
    using assms(2) r(2) read_index_eq [of q r] read_index_eq [of q' r] by (simp_all add: q'_def)
  have "slot q' ((r + 1 + i) mod ?n) = slot q ((r + 1 + i) mod ?n)" if "i < ?m" for i
  proof -
    have "(r + 1 + i) mod ?n \<noteq> (r + 1 + ?m) mod ?n"
    proof
      assume "(r + 1 + i) mod ?n = (r + 1 + ?m) mod ?n"
      then have "?n dvd (r + 1 + ?m) - (r + 1 + i)" using that by (metis mod_eq_dvd_iff_nat nat_add_left_cancel_le less_imp_le)
      then have "?n dvd ?m - i" by simp
      then show False using that m by (auto dest: dvd_imp_le)
    qed
    then show ?thesis using sl r(1) by simp
  qed
  then have "queue_items q' = queue_items q @ [take ?s item]"
    using assms(2) sl [OF w] ri m' by (simp add: queue_items_def q'_def)
  then show ?thesis using op ok by (auto simp: moves_items_def q'_def)
qed

lemma previous_then: "r < n \<Longrightarrow> ((r + n - 1) mod n + 1 + i) mod n = (r + i) mod (n :: nat)"
proof -
  assume "r < n"
  then have "((r + n - 1) mod n + 1 + i) mod n = (r + n - 1 + 1 + i) mod n" by (simp only: add.assoc mod_add_left_eq)
  also have "r + n - 1 + 1 + i = r + i + n" using \<open>r < n\<close> by simp
  finally show ?thesis by simp
qed

text \<open>An urgent item goes to the slot that was read last; overwriting the only slot replaces the message in it.\<close>

lemma copy_front:
  assumes "queue_ok q" "uxItemSize q \<noteq> 0" "uxMessagesWaiting q < uxLength q" "item_size q \<le> length item"
    and "p = SEND_TO_FRONT \<or> p = OVERWRITE \<and> uxMessagesWaiting q = 0"
  shows "\<exists>q'. prvCopyDataToQueue item p q k = Some (False, q', k) \<and> queue_ok q' \<and> moves_items q q' \<and>
    queue_items q' = take (item_size q) item # queue_items q"
proof -
  let ?n = "capacity q" and ?m = "messages q" and ?s = "item_size q"
  obtain r where r: "r < ?n" "pcReadFrom q = int (r * ?s)" "pcWriteTo q = int ((r + 1 + ?m) mod ?n * ?s)"
    and st: "?n * ?s \<le> length (storage q)" "pcTail q = int (?n * ?s)"
    using assms(1,2) by (auto simp: queue_ok_def)
  let ?r = "(r + ?n - 1) mod ?n"
  have m: "?m < ?n" using assms(3) by (simp add: word_less_nat_alt)
  obtain b where b: "store_item (int (r * ?s)) item q = Some (q\<lparr>storage := b\<rparr>)" "length b = length (storage q)"
    "\<And>i. i < ?n \<Longrightarrow> slot (q\<lparr>storage := b\<rparr>) i = (if i = r then take ?s item else slot q i)"
    using store_item_slot [OF r(1) st(1) assms(4)] by blast
  define q' where "q' = q\<lparr>storage := b, pcReadFrom := int (?r * ?s), uxMessagesWaiting := uxMessagesWaiting q + 1\<rparr>"
  have p: "p \<noteq> SEND_TO_BACK" "\<not> (p = OVERWRITE \<and> uxMessagesWaiting q > 0)" using assms(5) by auto
  have op: "prvCopyDataToQueue item p q k = Some (False, q', k)"
  proof (cases "int (r * ?s) - int ?s < 0")
    case True
    then have "int (?n * ?s) - int ?s = int (?r * ?s)" using pointer_previous [OF r(1), of ?s] assms(2) by (simp del: of_nat_mult)
    then show ?thesis using True assms(2) b(1) p
      by (auto simp add: prvCopyDataToQueue_def r(2) st(2) q'_def simp del: of_nat_mult)
  next
    case False
    then have "int (r * ?s) - int ?s = int (?r * ?s)" using pointer_previous [OF r(1), of ?s] assms(2) by (simp del: of_nat_mult)
    then show ?thesis using False assms(2) b(1) p
      by (auto simp add: prvCopyDataToQueue_def r(2) st(2) q'_def simp del: of_nat_mult)
  qed
  have m': "messages q' = ?m + 1" using unat_plus_1 [OF assms(3)] by (simp add: q'_def)
  have sl: "slot q' i = (if i = r then take ?s item else slot q i)" if "i < ?n" for i
    using b(3) [OF that] by (simp add: slot_def q'_def)
  have next': "(?r + 1 + i) mod ?n = (r + i) mod ?n" for i by (rule previous_then [OF r(1)])
  have rn: "?r < ?n" using r(1) by simp
  have ok: "queue_ok q'"
    using assms(1,2) r(1,3) st b(2) m m' rn next' [of "?m + 1"]
    by (auto simp: queue_ok_def q'_def add.assoc intro!: exI [of _ ?r])
  have ri: "read_index q' = ?r" "read_index q = r"
    using assms(2) r(2) read_index_eq [of q r] read_index_eq [of q' ?r] by (simp_all add: q'_def)
  have "slot q' ((r + 1 + i) mod ?n) = slot q ((r + 1 + i) mod ?n)" if "i < ?m" for i
  proof -
    have "(r + 1 + i) mod ?n \<noteq> r"
    proof
      assume "(r + 1 + i) mod ?n = r"
      then have "(r + (1 + i)) mod ?n = r mod ?n" using r(1) by (simp add: add.assoc)
      then have "?n dvd 1 + i" by (metis add_diff_cancel_left' le_add1 mod_eq_dvd_iff_nat)
      then show False using that m by (auto dest: dvd_imp_le)
    qed
    then show ?thesis using sl r(1) by simp
  qed
  then have "map (\<lambda>i. slot q' ((?r + 1 + i) mod ?n)) [0..<?m + 1] = take ?s item # map (\<lambda>i. slot q ((r + 1 + i) mod ?n)) [0..<?m]"
    using sl [OF r(1)] r(1) next' [of 0] next' by (simp add: upt_conv_Cons flip: map_Suc_upt del: upt_Suc)
  then have "queue_items q' = take ?s item # queue_items q"
    using assms(2) ri m' by (simp add: queue_items_def q'_def del: upt_Suc)
  then show ?thesis using op ok by (auto simp: moves_items_def q'_def)
qed

lemma copy_overwrite:
  assumes "queue_ok q" "uxItemSize q \<noteq> 0" "uxLength q = 1" "uxMessagesWaiting q \<noteq> 0" "item_size q \<le> length item"
  shows "\<exists>q'. prvCopyDataToQueue item OVERWRITE q k = Some (False, q', k) \<and> queue_ok q' \<and> moves_items q q' \<and>
    queue_items q' = [take (item_size q) item]"
proof -
  let ?s = "item_size q"
  have n: "capacity q = 1" using assms(3) by simp
  have "messages q \<le> 1" using assms(1) n by (simp add: queue_ok_def)
  then have "messages q = 1" using assms(4) unat_gt_0 [of "uxMessagesWaiting q"] by linarith
  then have m: "uxMessagesWaiting q = 1" by (simp add: word_unat_eq_iff)
  have r: "pcReadFrom q = 0" "pcWriteTo q = 0" and st: "?s \<le> length (storage q)" "pcTail q = int ?s"
    using assms(1,2) n by (auto simp: queue_ok_def)
  obtain b where b: "store_item 0 item q = Some (q\<lparr>storage := b\<rparr>)" "length b = length (storage q)"
    "slot (q\<lparr>storage := b\<rparr>) 0 = take ?s item"
    using store_item_slot [of 0 1 q item] st(1) assms(5) by auto
  define q' where "q' = q\<lparr>storage := b, pcReadFrom := 0, uxMessagesWaiting := 1\<rparr>"
  have "0 < int ?s" using assms(2) item_size_pos [of q] by linarith
  then have "prvCopyDataToQueue item OVERWRITE q k = Some (False, q', k)"
    using assms(2) b(1) r st(2) m by (simp add: prvCopyDataToQueue_def Let_def q'_def)
  moreover have "queue_ok q'" using assms(1) b(2) m n r by (auto simp: queue_ok_def q'_def)
  moreover have "queue_items q' = [take ?s item]"
    using assms(2) b(3) n by (simp add: queue_items_def slot_def q'_def)
  moreover have "moves_items q q'" by (simp add: moves_items_def q'_def)
  ultimately show ?thesis by blast
qed

text \<open>Copying an item out moves the read pointer; the message is gone when the caller counts it down.\<close>

lemma copy_out:
  assumes "queue_ok q" "0 < uxMessagesWaiting q"
  shows "\<exists>q'. prvCopyDataFromQueue q = Some (hd (queue_items q), q') \<and> q' = q\<lparr>pcReadFrom := pcReadFrom q'\<rparr> \<and>
    queue_ok (q'\<lparr>uxMessagesWaiting := uxMessagesWaiting q - 1\<rparr>) \<and>
    queue_items (q'\<lparr>uxMessagesWaiting := uxMessagesWaiting q - 1\<rparr>) = tl (queue_items q)"
proof (cases "uxItemSize q = 0")
  case True
  let ?q = "q\<lparr>uxMessagesWaiting := uxMessagesWaiting q - 1\<rparr>"
  have m: "messages q = Suc (messages ?q)" using unat_minus_1 [OF assms(2)] assms(2) by (simp add: word_less_nat_alt)
  then have "queue_ok ?q" using assms(1) True by (simp add: queue_ok_def)
  moreover have "queue_items q = [] # queue_items ?q" using True m by (simp add: queue_items_def)
  ultimately show ?thesis using True by (simp add: prvCopyDataFromQueue_def)
next
  case False
  let ?n = "capacity q" and ?m = "messages q" and ?s = "item_size q"
  obtain r where r: "r < ?n" "pcReadFrom q = int (r * ?s)" "pcWriteTo q = int ((r + 1 + ?m) mod ?n * ?s)"
    and st: "?n * ?s \<le> length (storage q)" "pcTail q = int (?n * ?s)"
    using assms(1) False by (auto simp: queue_ok_def)
  let ?r = "(r + 1) mod ?n"
  define q' where "q' = q\<lparr>pcReadFrom := int (?r * ?s)\<rparr>"
  let ?q = "q'\<lparr>uxMessagesWaiting := uxMessagesWaiting q - 1\<rparr>"
  have m: "?m = Suc (messages ?q)" using unat_minus_1 [OF assms(2)] assms(2) by (simp add: word_less_nat_alt)
  have rn: "?r < ?n" using r(1) by simp
  have ld: "load_item (int (?r * ?s)) q' = Some (slot q ?r)"
    using load_item_slot [OF rn, of q'] st(1) by (simp add: q'_def slot_def)
  have op: "prvCopyDataFromQueue q = Some (slot q ?r, q')"
  proof (cases "int (r * ?s) + int ?s \<ge> int (?n * ?s)")
    case True
    then have "int (?r * ?s) = 0" using pointer_next [OF r(1), of ?s] False by (simp del: of_nat_mult)
    then have q0: "q' = q\<lparr>pcReadFrom := 0\<rparr>" and "load_item 0 q' = Some (slot q ?r)" using ld by (simp_all only: q'_def)
    then show ?thesis using True False by (simp add: prvCopyDataFromQueue_def r(2) st(2) del: of_nat_mult)
  next
    case l: False
    then have "int (r * ?s) + int ?s = int (?r * ?s)" using pointer_next [OF r(1), of ?s] False by (simp del: of_nat_mult)
    then show ?thesis using l False ld by (simp add: prvCopyDataFromQueue_def r(2) st(2) q'_def del: of_nat_mult)
  qed
  have nx: "(?r + 1 + i) mod ?n = (r + 1 + Suc i) mod ?n" for i
  proof -
    have "(?r + 1 + i) mod ?n = (r + 1 + (1 + i)) mod ?n" by (simp only: add.assoc mod_add_left_eq)
    then show ?thesis by simp
  qed
  have ok: "queue_ok ?q"
    using assms(1) False r(3) st rn m nx [of "messages ?q"]
    by (auto simp: queue_ok_def q'_def intro!: exI [of _ ?r])
  have ri: "read_index ?q = ?r" "read_index q = r"
    using False r(2) read_index_eq [of q r] read_index_eq [of ?q ?r] by (simp_all add: q'_def)
  have "queue_items q = slot q ?r # map (\<lambda>i. slot q ((r + 1 + Suc i) mod ?n)) [0..<messages ?q]"
    using False m ri by (simp add: queue_items_def upt_conv_Cons flip: map_Suc_upt del: upt_Suc)
  also have "map (\<lambda>i. slot q ((r + 1 + Suc i) mod ?n)) [0..<messages ?q] = queue_items ?q"
    using False ri by (simp add: queue_items_def slot_def nx [simplified] q'_def)
  finally have "queue_items q = slot q ?r # queue_items ?q" .
  then show ?thesis using op ok by (simp add: q'_def)
qed

end
