(* ===== verification/Rtos_Frame.thy ===== *)
theory Rtos_Frame
  imports Rtos_Block
begin

text \<open>
  What a call of the kernel leaves alone besides the tasks it moves: the running task, the counters, the nesting of
  suspensions. A switch that is pending stays pending.
\<close>

definition kept :: "kernel \<Rightarrow> kernel \<Rightarrow> bool" where
  "kept k k' \<longleftrightarrow> pxCurrentTCB k' = pxCurrentTCB k \<and> counters k' = counters k \<and>
     uxSchedulerSuspended k' = uxSchedulerSuspended k \<and> uxPendedTicks k' = uxPendedTicks k \<and>
     xSchedulerRunning k' = xSchedulerRunning k \<and> uxCurrentNumberOfTasks k' = uxCurrentNumberOfTasks k \<and>
     (pendsv k \<longrightarrow> pendsv k')"

named_theorems kept_intros \<open>calls that keep the rest of the kernel\<close>

lemma kept_refl [simp, kept_intros]: "kept k k"
  by (simp add: kept_def)

lemma kept_trans: "kept k k' \<Longrightarrow> kept k' k'' \<Longrightarrow> kept k k''"
  by (simp add: kept_def)

lemma kept_current: "kept k k' \<Longrightarrow> pxCurrentTCB k' = pxCurrentTCB k"
  by (simp add: kept_def)

lemma kept_lists_changed: "lists_changed k k' \<Longrightarrow> kept k k'"
  by (simp add: kept_def lists_changed_def)

lemma kept_yield_pending: "kept (k\<lparr>xYieldPending := y\<rparr>) k' = kept k k'"
  by (simp add: kept_def)

text \<open>The assignments the calls are made of.\<close>

lemma kept_list_remove [kept_intros]: "list_remove p k = Some (n, k') \<Longrightarrow> kept k k'"
  by (auto simp: list_remove_def kept_def)

lemma kept_step [simp]:
  "kept k (prvAddTaskToReadyList t k')  = kept k k'" "kept k (portRESET_READY_PRIORITY p k') = kept k k'"
  "kept k (taskRESET_READY_PRIORITY p k') = kept k k'" "kept k (set_tcb t f k') = kept k k'"
  "kept k (set_item_value q v k') = kept k k'" "kept k (set_event_priority t p k') = kept k k'"
  "kept k (list_insert_end l q k') = kept k k'" "kept k (k'\<lparr>xNextTaskUnblockTime := u\<rparr>) = kept k k'"
  "kept k (k'\<lparr>heap := h\<rparr>) = kept k k'"
  by (simp_all add: kept_def prvAddTaskToReadyList_def list_insert_end_def portRECORD_READY_PRIORITY_def
      portRESET_READY_PRIORITY_def taskRESET_READY_PRIORITY_def set_tcb_def set_item_value_def set_event_priority_def)

lemma kept_yield: "kept k k' \<Longrightarrow> kept k (portYIELD k')"
  by (simp add: kept_def portYIELD_def)

text \<open>A removal followed by what the code does with its count.\<close>

lemma kept_after_remove:
  assumes "list_remove p k' = Some (n, k'')" "kept k k'"
  shows "kept k k''" "kept k (if c then portRESET_READY_PRIORITY q k'' else k'')"
    "kept k (if c then taskRESET_READY_PRIORITY q k'' else k'')"
  using kept_trans [OF assms(2) kept_list_remove [OF assms(1)]] by simp_all

lemma kept_PrioritySet: "vTaskPrioritySet h p k = Some k' \<Longrightarrow> kept k k'"
  by (auto simp: vTaskPrioritySet_def Let_def split: if_splits bind_splits dest!: kept_after_remove(1) intro!: kept_yield)

lemma kept_Inherit: "vTaskPriorityInherit h k = Some k' \<Longrightarrow> kept k k'"
  by (auto simp: vTaskPriorityInherit_def Let_def split: if_splits bind_splits option.splits dest!: kept_after_remove(1))

lemma kept_Disinherit: "xTaskPriorityDisinherit h k = Some (y, k') \<Longrightarrow> kept k k'"
  by (auto simp: xTaskPriorityDisinherit_def Let_def split: if_splits bind_splits option.splits dest!: kept_after_remove(1))

lemma kept_Resume: "vTaskResume t k = Some k' \<Longrightarrow> kept k k'"
  by (auto simp: vTaskResume_def Let_def split: if_splits bind_splits dest!: kept_after_remove(1) intro!: kept_yield)

lemma kept_unlink: "unlink_task t k = Some k' \<Longrightarrow> kept k k'"
  by (auto simp: unlink_task_def Let_def split: if_splits bind_splits dest!: kept_after_remove(1))

lemma kept_unblock_time: "prvResetNextTaskUnblockTime k = Some k' \<Longrightarrow> kept k0 k \<Longrightarrow> kept k0 k'"
  by (auto simp: prvResetNextTaskUnblockTime_def split: if_splits bind_splits)

lemma kept_Suspend:
  assumes "vTaskSuspend h k = Some k'" "xSchedulerRunning k"
  shows "kept k k'"
proof -
  obtain t k1 where k1: "prvGetTCBFromHandle h k = Some t" "unlink_task t k = Some k1" "kept k k1"
    using assms(1) by (auto simp: vTaskSuspend_def split: bind_splits dest: kept_unlink)
  have "xSchedulerRunning k1" using k1(3) assms(2) by (simp add: kept_def)
  moreover have "xSchedulerRunning (list_insert_end l p k1) = xSchedulerRunning k1" for l p
    by (simp add: list_insert_end_def)
  ultimately show ?thesis
    using assms(1) k1 kept_unblock_time
    by (auto simp: vTaskSuspend_def Let_def split: if_splits intro!: kept_yield)
qed

text \<open>Waking a task: the running task and everything but the lists and \<open>xYieldPending\<close> stay.\<close>

lemma kept_RemoveFromEventList:
  assumes "kernel_inv T Q k" "l \<in> Q" "\<not> list_is_empty l k"
  shows "\<exists>w k'. xTaskRemoveFromEventList l k = Some (w, k') \<and> kernel_inv T Q k' \<and> kept k k' \<and> tcb k' = tcb k \<and>
    item_value k' = item_value k \<and> (\<forall>t < T. is_ready k t \<longrightarrow> is_ready k' t)"
proof -
  obtain cur where cur: "pxCurrentTCB k = Some cur" using assms(1) by (auto simp: kernel_inv_def kernel_core_def tasks_ok_def)
  have core: "kernel_core T Q {} k" using assms(1) by (simp add: kernel_inv_def)
  obtain t k' where k': "xTaskRemoveFromEventList l k = Some (priority_of k cur < priority_of k t, k')" "kernel_inv T Q k'"
    "t < T" "item_container k (event t) = Some l"
    "lists_changed (k\<lparr>xYieldPending := xYieldPending k \<or> priority_of k cur < priority_of k t\<rparr>) k'"
    "item_value k' = item_value k"
    "item_container k' = (if uxSchedulerSuspended k = 0
      then (item_container k)(generic t := Some (priority_of k t), event t := None)
      else (item_container k)(event t := Some xPendingReadyList))"
    using xTaskRemoveFromEventList_spec [OF assms cur] by blast
  have "is_ready k' u" if "u < T" "is_ready k u" for u
    using that k'(5,7) by (auto simp: lists_changed_def)
  moreover have "kept k k'" using kept_lists_changed [OF k'(5)] by (simp add: kept_yield_pending)
  ultimately show ?thesis using k' by (auto simp: lists_changed_def)
qed

end
