(* ===== verification/Rtos_Sleep.thy ===== *)
theory Rtos_Sleep
  imports Rtos_Frame
begin

text \<open>
  A task that sleeps on a delayed list: what the calls of the other tasks and of the interrupts leave of it, and how the ticks, those
  counted late among them, bring it nearer to its wake time.
\<close>

section \<open>Calls that leave a task alone\<close>

lemma spares_refl [simp]: "spares t k k"
  by (simp add: spares_def)

lemma spares_trans: "spares t k k' \<Longrightarrow> spares t k' k'' \<Longrightarrow> spares t k k''"
  by (simp add: spares_def)

lemma items_distinct [simp]:
  "generic u = generic t \<longleftrightarrow> u = t" "event u = event t \<longleftrightarrow> u = t" "generic u \<noteq> event t" "event u \<noteq> generic t"
  by (auto simp: generic_def event_def; presburger)+

lemma spares_fields [simp]:
  "spares t k (k'\<lparr>tcb := a\<rparr>) = spares t k k'" "spares t k (k'\<lparr>uxTopReadyPriority := b\<rparr>) = spares t k k'"
  "spares t k (k'\<lparr>xNextTaskUnblockTime := c\<rparr>) = spares t k k'" "spares t k (k'\<lparr>xYieldPending := y\<rparr>) = spares t k k'"
  "spares t k (k'\<lparr>uxSchedulerSuspended := n\<rparr>) = spares t k k'" "spares t k (k'\<lparr>pendsv := y\<rparr>) = spares t k k'"
  "spares t k (k'\<lparr>uxPendedTicks := n\<rparr>) = spares t k k'" "spares t k (k'\<lparr>pxCurrentTCB := u\<rparr>) = spares t k k'"
  by (simp_all add: spares_def item_container_def item_value_def)

lemma spares_steps [simp]:
  "spares t k (portYIELD k') = spares t k k'" "spares t k (set_tcb u f k') = spares t k k'"
  "spares t k (portRESET_READY_PRIORITY p k') = spares t k k'" "spares t k (taskRESET_READY_PRIORITY p k') = spares t k k'"
  "spares t k (portRECORD_READY_PRIORITY p k') = spares t k k'" "spares t k (vTaskSuspendAll k') = spares t k k'"
  "spares t k (set_event_priority u p k') = spares t k k'" "spares t k (set_item_value (event u) v k') = spares t k k'"
  by (simp_all add: portYIELD_def set_tcb_def portRESET_READY_PRIORITY_def taskRESET_READY_PRIORITY_def
      portRECORD_READY_PRIORITY_def vTaskSuspendAll_def set_event_priority_def)
    (simp_all add: spares_def item_container_def item_value_def set_item_value_def store_simps)

lemma spares_list_insert_end [simp]:
  "p \<noteq> generic t \<Longrightarrow> p \<noteq> event t \<Longrightarrow> spares t k (list_insert_end l p k') = spares t k k'"
  by (auto simp: spares_def list_insert_end_def item_container_def item_value_def vListInsertEnd_def Let_def store_simps)

lemma insert_end_fields [simp]:
  "xSchedulerRunning (list_insert_end l p k) = xSchedulerRunning k" "pxCurrentTCB (list_insert_end l p k) = pxCurrentTCB k"
  by (simp_all add: list_insert_end_def)

lemma spares_add_ready [simp]: "u \<noteq> t \<Longrightarrow> spares t k (prvAddTaskToReadyList u k') = spares t k k'"
  by (simp add: prvAddTaskToReadyList_def)

lemma spares_list_remove:
  "list_remove p k' = Some (n, k'') \<Longrightarrow> p \<noteq> generic t \<Longrightarrow> p \<noteq> event t \<Longrightarrow> spares t k k'' = spares t k k'"
  by (auto simp: spares_def list_remove_def item_container_def item_value_def uxListRemove_def Let_def store_simps
      split: bind_splits if_splits)

lemma spares_unblock_time: "prvResetNextTaskUnblockTime k' = Some k'' \<Longrightarrow> spares t k k'' = spares t k k'"
  by (auto simp: prvResetNextTaskUnblockTime_def split: if_splits bind_splits)

lemma spares_PrioritySet: "vTaskPrioritySet (Some u) p k = Some k' \<Longrightarrow> u \<noteq> t \<or> \<not> is_ready k t \<Longrightarrow> spares t k k'"
  by (cases "u = t")
    (auto simp: vTaskPrioritySet_def prvGetTCBFromHandle_def Let_def spares_list_remove split: if_splits bind_splits)

lemma spares_Inherit:
  "vTaskPriorityInherit h k = Some k' \<Longrightarrow> h \<noteq> Some t \<or> \<not> is_ready k t \<Longrightarrow> spares t k k'"
  by (cases "h = Some t")
    (auto simp: vTaskPriorityInherit_def Let_def spares_list_remove split: if_splits bind_splits option.splits)

lemma spares_Disinherit: "xTaskPriorityDisinherit h k = Some (y, k') \<Longrightarrow> h \<noteq> Some t \<Longrightarrow> spares t k k'"
  by (auto simp: xTaskPriorityDisinherit_def Let_def spares_list_remove split: if_splits bind_splits option.splits)

lemma spares_unlink: "unlink_task u k = Some k' \<Longrightarrow> u \<noteq> t \<Longrightarrow> spares t k k'"
  by (auto simp: unlink_task_def Let_def spares_list_remove split: if_splits bind_splits)

lemma spares_Suspend:
  "vTaskSuspend (Some u) k = Some k' \<Longrightarrow> u \<noteq> t \<Longrightarrow> xSchedulerRunning k \<Longrightarrow> spares t k k'"
  using spares_unlink kept_unlink
  by (auto simp: vTaskSuspend_def prvGetTCBFromHandle_def Let_def spares_unblock_time kept_def
      split: if_splits bind_splits)

lemma spares_Resume: "vTaskResume u k = Some k' \<Longrightarrow> u \<noteq> t \<or> \<not> prvTaskIsTaskSuspended t k \<Longrightarrow> spares t k k'"
  by (cases "u = t") (auto simp: vTaskResume_def Let_def spares_list_remove split: if_splits bind_splits)

section \<open>A sleeping task\<close>

definition asleep :: "nat \<Rightarrow> kernel \<Rightarrow> nat \<Rightarrow> tick \<Rightarrow> bool" where
  "asleep T k t v \<longleftrightarrow> delayed_until T k t v \<and> item_container k (event t) = None"

lemma asleep_spares: "asleep T k t v \<Longrightarrow> spares t k k' \<Longrightarrow> asleep T k' t v"
  by (simp add: asleep_def delayed_until_def spares_def)

lemma asleep_not_ready:
  assumes "kernel_core T Q X k" "asleep T k t v"
  shows "\<not> is_ready k t" "\<not> prvTaskIsTaskSuspended t k"
  using priority_less [OF assms(1), of t] assms(2) by (auto simp: asleep_def delayed_until_def prvTaskIsTaskSuspended_def)

lemma asleep_late:
  assumes "kernel_inv T Q k" "asleep T k t v"
  shows "v \<noteq> now k" "unat (v - now k - 1) = unat (v - now k) - 1"
proof -
  show n: "v \<noteq> now k" using assms by (auto simp: kernel_inv_def delays_ok_def delayed_until_def asleep_def)
  show "unat (v - now k - 1) = unat (v - now k) - 1" using n by (intro unat_minus_one) simp
qed

text \<open>Waking the first task of an event list: a sleeping task is on none.\<close>

lemma spares_RemoveFromEventList:
  assumes "kernel_inv T Q k" "l \<in> Q" "\<not> list_is_empty l k" "asleep T k t v" "xTaskRemoveFromEventList l k = Some (w, k')"
  shows "spares t k k'"
proof -
  obtain cur where cur: "pxCurrentTCB k = Some cur" using assms(1) by (auto simp: kernel_inv_def kernel_core_def tasks_ok_def)
  obtain u where "item_container k (event u) = Some l" "item_value k' = item_value k"
    "item_container k' = (if uxSchedulerSuspended k = 0
      then (item_container k)(generic u := Some (priority_of k u), event u := None)
      else (item_container k)(event u := Some xPendingReadyList))"
    using xTaskRemoveFromEventList_spec [OF assms(1-3) cur] assms(5) by auto
  then show ?thesis using assms(4) by (auto simp: spares_def asleep_def)
qed

text \<open>
  The task sleeps on while \<open>m\<close> ticks come, which may have been counted or be kept for later, or it is ready and enough ticks have
  come.
\<close>

definition sleeps_on :: "nat \<Rightarrow> nat \<Rightarrow> nat \<Rightarrow> tick \<Rightarrow> kernel \<Rightarrow> kernel \<Rightarrow> bool" where
  "sleeps_on m T t v k k' \<longleftrightarrow>
     asleep T k' t v \<and> unat (v - now k') + unat (uxPendedTicks k) + m = unat (v - now k) + unat (uxPendedTicks k') \<and>
       unat (v - now k') \<le> unat (v - now k) \<or>
     is_ready k' t \<and> unat (v - now k) \<le> unat (uxPendedTicks k) + m"

definition same_clock :: "kernel \<Rightarrow> kernel \<Rightarrow> bool" where
  "same_clock k k' \<longleftrightarrow> counters k' = counters k \<and> uxSchedulerSuspended k' = uxSchedulerSuspended k \<and>
     uxPendedTicks k' = uxPendedTicks k"

lemma kept_clock: "kept k k' \<Longrightarrow> same_clock k k'"
  by (simp add: kept_def same_clock_def)

lemma sleeps_on_same: "asleep T k t v \<Longrightarrow> spares t k k' \<Longrightarrow> same_clock k k' \<Longrightarrow> sleeps_on 0 T t v k k'"
  using asleep_spares by (simp add: sleeps_on_def same_clock_def)

lemma sleeps_on_yield [simp]: "sleeps_on m T t v k (portYIELD k') = sleeps_on m T t v k k'"
  by (simp add: sleeps_on_def asleep_def delayed_until_def portYIELD_def)

lemma tick_sleeps:
  assumes "kernel_inv T Q k" "asleep T k t v" "ticked T k k'"
  shows "if v = now k + 1 then is_ready k' t else asleep T k' t v \<and> unat (v - now k') = unat (v - now k) - 1"
proof -
  have d: "delayed_until T k t v" using assms(2) by (simp add: asleep_def)
  have n: "now k' = now k + 1" using assms(3) by (simp add: ticked_def)
  have "v - now k' = v - now k - 1" by (simp add: n)
  then have "unat (v - now k') = unat (v - now k) - 1" using asleep_late(2) [OF assms(1,2)] by (simp only:)
  moreover have "v \<noteq> now k + 1 \<Longrightarrow> item_container k' (event t) = None"
    using assms(2,3) due_at_wake_time [OF assms(1) d] by (simp add: ticked_def asleep_def)
  ultimately show ?thesis
    using tick_delayed [OF assms(1) d assms(3)] by (auto simp: asleep_def)
qed

lemma catch_up_sleeps:
  assumes "kernel_inv T Q k" "uxSchedulerSuspended k = 0" "asleep T k t v" "catch_up k = Some k'"
  shows "sleeps_on 0 T t v k k'"
  using assms
proof (induction "unat (uxPendedTicks k)" arbitrary: k)
  case 0
  then have "uxPendedTicks k = 0" by (simp add: unat_eq_zero)
  then have "k' = k" using 0 by (subst (asm) catch_up.simps) simp
  then show ?case using 0 by (simp add: sleeps_on_def)
next
  case (Suc n)
  then have nz: "uxPendedTicks k \<noteq> 0" by (auto simp: unat_eq_zero)
  obtain sw k1 where k1: "xTaskIncrementTick k = Some (sw, k1)" "kernel_inv T Q k1" "ticked T k k1"
    using tick_spec [OF Suc.prems(1,2)] by blast
  define k2 where "k2 = (if sw then k1\<lparr>xYieldPending := True\<rparr> else k1)\<lparr>uxPendedTicks := uxPendedTicks k - 1\<rparr>"
  have k2: "kernel_inv T Q k2" "uxSchedulerSuspended k2 = 0" "uxPendedTicks k2 = uxPendedTicks k - 1" "counters k2 = counters k1"
    "is_ready k2 t = is_ready k1 t" "asleep T k2 t v = asleep T k1 t v"
    using k1(2,3) Suc.prems(2) by (auto simp: k2_def ticked_def asleep_def delayed_until_def)
  have p: "uxPendedTicks k1 = uxPendedTicks k" using k1(3) by (simp add: ticked_def)
  have op: "catch_up k2 = Some k'"
    using Suc.prems(4) nz k1(1) p by (subst (asm) catch_up.simps) (auto simp: k2_def Let_def split: if_splits)
  have n: "unat (uxPendedTicks k - 1) = n" using Suc.hyps(2) nz by (simp add: unat_minus_one)
  have tT: "t < T" using Suc.prems(3) by (simp add: asleep_def delayed_until_def)
  note w = tick_sleeps [OF Suc.prems(1,3) k1(3)]
  show ?case
  proof (cases "v = now k + 1")
    case True
    then have "is_ready k2 t" using w k2(5) by simp
    then have "is_ready k' t" using catch_up_spec [OF k2(1,2)] op tT by (auto simp: undisturbed_def)
    moreover have "unat (v - now k) = 1" using True by simp
    ultimately show ?thesis using Suc.hyps(2) by (simp add: sleeps_on_def)
  next
    case False
    then have a: "asleep T k2 t v" "unat (v - now k2) = unat (v - now k) - 1" using w k2(4,6) by simp_all
    have "unat (v - now k) \<noteq> 0" using asleep_late(1) [OF Suc.prems(1,3)] by (simp add: unat_eq_zero)
    moreover have "n = unat (uxPendedTicks k2)" using n k2(3) by simp
    ultimately show ?thesis using Suc.hyps(1) [OF _ k2(1,2) a(1) op] a(2) Suc.hyps(2) by (auto simp: sleeps_on_def)
  qed
qed

lemma resume_sleeps:
  assumes "kernel_inv T Q k" "asleep T k t v" "xTaskResumeAll k = Some (y, k')"
  shows "sleeps_on 0 T t v k k'"
proof (cases "uxSchedulerSuspended k = 1")
  case False
  then have "k' = k\<lparr>uxSchedulerSuspended := uxSchedulerSuspended k - 1\<rparr>"
    using assms(3) by (auto simp: xTaskResumeAll_def Let_def split: if_splits)
  then show ?thesis using assms(2) by (simp add: sleeps_on_def asleep_def delayed_until_def)
next
  case True
  define k1 where "k1 = k\<lparr>uxSchedulerSuspended := 0\<rparr>"
  have core: "kernel_core T Q {} k1" and del: "delays_ok T k1" and num: "0 < uxCurrentNumberOfTasks k1"
    using assms(1) by (simp_all add: kernel_inv_def k1_def delays_ok_def pending_ok_def)
  obtain cur where cur: "pxCurrentTCB k1 = Some cur" using current_task [OF core] by blast
  have a1: "asleep T k1 t v" "counters k1 = counters k" "uxPendedTicks k1 = uxPendedTicks k" "uxSchedulerSuspended k1 = 0"
    using assms(2) by (simp_all add: k1_def asleep_def delayed_until_def)
  obtain z k2 where k2: "ready_pending k1 = Some k2" "kernel_core T Q {} k2" "delays_ok T k2"
    "lists_changed (k1\<lparr>xYieldPending := z\<rparr>) k2" "item_value k2 = item_value k1"
    "\<forall>t. item_container k2 (generic t) = (if pending T k1 t then Some (priority_of k1 t) else item_container k1 (generic t))"
    "\<forall>t. item_container k2 (event t) = (if pending T k1 t then None else item_container k1 (event t))"
    using ready_pending_spec [OF core del cur] by blast
  have "item_container k2 (event u) \<noteq> Some xPendingReadyList" if "u < T" for u
    using k2(7) that by (auto simp: pending_def split: if_splits)
  moreover have s2: "counters k2 = counters k" "uxSchedulerSuspended k2 = 0" "uxPendedTicks k2 = uxPendedTicks k"
    "uxCurrentNumberOfTasks k2 = uxCurrentNumberOfTasks k1"
    using k2(4) a1 by (simp_all add: lists_changed_def)
  ultimately have i2: "kernel_inv T Q k2" using k2(2,3) num by (simp add: kernel_inv_def pending_ok_def)
  have "\<not> pending T k1 t" using a1(1) by (simp add: asleep_def pending_def)
  then have "spares t k1 k2" using k2(5-7) by (simp add: spares_def)
  then have a2: "asleep T k2 t v" by (rule asleep_spares [OF a1(1)])
  obtain k3 where k3: "catch_up k2 = Some k3" using catch_up_spec [OF i2 s2(2)] by blast
  have "k' = portYIELD k3 \<or> k' = k3"
    using assms(3) True k2(1) k3 num by (auto simp: xTaskResumeAll_def Let_def k1_def split: if_splits)
  moreover have "sleeps_on 0 T t v k k3" using catch_up_sleeps [OF i2 s2(2) a2 k3] s2 by (simp add: sleeps_on_def)
  ultimately show ?thesis by auto
qed

text \<open>While the scheduler is not suspended there are no ticks to catch up with.\<close>

definition no_backlog :: "kernel \<Rightarrow> bool" where
  "no_backlog k \<longleftrightarrow> (uxSchedulerSuspended k = 0 \<longrightarrow> uxPendedTicks k = 0)"

text \<open>What a step of the running task \<open>u\<close> does to the clock and to the tasks that sleep.\<close>

definition task_effect :: "nat \<Rightarrow> nat \<Rightarrow> kernel \<Rightarrow> kernel \<Rightarrow> bool" where
  "task_effect T u k k' \<longleftrightarrow> same_clock k k' \<and> (\<forall>t v. t \<noteq> u \<longrightarrow> asleep T k t v \<longrightarrow> spares t k k') \<or>
     k' = vTaskSuspendAll k \<and> uxSchedulerSuspended k + 1 \<noteq> 0 \<or>
     (\<exists>y k1. xTaskResumeAll k = Some (y, k1) \<and> (k' = k1 \<or> k' = portYIELD k1))"

lemma effect_backlog:
  assumes "kernel_inv T Q k" "no_backlog k" "task_effect T u k k'"
  shows "no_backlog k'"
proof -
  have "no_backlog k1" if "xTaskResumeAll k = Some (y, k1)" for y k1
  proof -
    have "uxSchedulerSuspended k \<noteq> 0" using that by (auto simp: xTaskResumeAll_def)
    then show ?thesis
      using resume_spec [OF assms(1)] that by (cases "uxSchedulerSuspended k = 1") (auto simp: no_backlog_def)
  qed
  then show ?thesis
    using assms(2,3) by (auto simp: task_effect_def no_backlog_def same_clock_def vTaskSuspendAll_def portYIELD_def)
qed

lemma effect_sleeps:
  assumes "kernel_inv T Q k" "asleep T k t v" "t \<noteq> u" "task_effect T u k k'"
  shows "sleeps_on 0 T t v k k'"
proof -
  have "sleeps_on 0 T t v k (vTaskSuspendAll k)"
    using assms(2) by (simp add: sleeps_on_def asleep_def delayed_until_def vTaskSuspendAll_def)
  then show ?thesis
    using assms resume_sleeps [OF assms(1,2)] sleeps_on_same [OF assms(2)] by (auto simp: task_effect_def)
qed

lemma effect_refl [simp]: "task_effect T u k k"
  by (simp add: task_effect_def same_clock_def)

end
