(* ===== verification/Rtos_Calls.thy ===== *)
theory Rtos_Calls
  imports Rtos_Fifo Rtos_Sleep
begin

text \<open>
  The calls of a queue over the invariants of the queue and of the scheduler. Each lemma says that the step returns, what it
  does to the messages, and that the tasks that were ready still are.
\<close>

section \<open>Waking\<close>

definition serves :: "nat \<Rightarrow> nat set \<Rightarrow> kernel \<Rightarrow> kernel \<Rightarrow> bool" where
  "serves T Q k k' \<longleftrightarrow> kernel_inv T Q k' \<and> kept k k' \<and> (\<forall>u < T. is_ready k u \<longrightarrow> is_ready k' u) \<and>
     (\<forall>u v. asleep T k u v \<longrightarrow> spares u k k')"

lemma serves_refl [simp]: "serves T Q k k = kernel_inv T Q k"
  by (auto simp: serves_def)

lemma serves_trans: "serves T Q k k' \<Longrightarrow> serves T Q k' k'' \<Longrightarrow> serves T Q k k''"
  unfolding serves_def by (blast intro: kept_trans spares_trans asleep_spares)

lemma serves_yield [simp]: "serves T Q k k' \<Longrightarrow> serves T Q k (portYIELD k')"
  by (auto simp: serves_def kept_def portYIELD_def)

lemma serves_missed [simp]: "serves T Q k k' \<Longrightarrow> serves T Q k (vTaskMissedYield k')"
  by (auto simp: serves_def kept_def vTaskMissedYield_def)

lemma serves_inv: "serves T Q k k' \<Longrightarrow> kernel_inv T Q k'"
  by (simp add: serves_def)

lemma wake_spec:
  assumes "kernel_inv T Q k" "l \<in> Q" "\<not> list_is_empty l k"
  shows "\<exists>w k'. xTaskRemoveFromEventList l k = Some (w, k') \<and> serves T Q k k' \<and> tcb k' = tcb k"
  using kept_RemoveFromEventList [OF assms] spares_RemoveFromEventList [OF assms] by (fastforce simp: serves_def asleep_def)

lemma wake_and_yield_spec:
  assumes "kernel_inv T Q k" "l \<in> Q" "\<not> list_is_empty l k"
  shows "\<exists>k'. wake_and_yield l k = Some k' \<and> serves T Q k k' \<and> tcb k' = tcb k"
proof -
  obtain w k' where "xTaskRemoveFromEventList l k = Some (w, k')" "serves T Q k k'" "tcb k' = tcb k"
    using wake_spec [OF assms] by blast
  moreover have "tcb (portYIELD k') = tcb k'" by (simp add: portYIELD_def)
  ultimately show ?thesis by (auto simp: wake_and_yield_def queueYIELD_IF_USING_PREEMPTION_def)
qed

lemma wake_from_isr_spec:
  assumes "kernel_inv T Q k" "l \<in> Q"
  shows "\<exists>w k'. wake_from_isr l k = Some (w, k') \<and> serves T Q k k' \<and> tcb k' = tcb k"
  using wake_spec [OF assms] assms(1) by (auto simp: wake_from_isr_def)

lemma lock_count_down: "queueLOCKED_UNMODIFIED <s n \<Longrightarrow> unat (n - 1) < unat n"
  by (metis diff_less less_numeral_extra(1) unat_gt_0 unat_minus_one signed.less_irrefl)

lemma wake_missed_spec:
  assumes "kernel_inv T Q k" "l \<in> Q"
  shows "\<exists>k'. wake_missed l n k = Some k' \<and> serves T Q k k' \<and> tcb k' = tcb k"
  using assms
proof (induction "unat n" arbitrary: n k rule: less_induct)
  case less
  show ?case
  proof (cases "queueLOCKED_UNMODIFIED <s n \<and> \<not> list_is_empty l k")
    case False
    then show ?thesis using less.prems by (subst wake_missed.simps) auto
  next
    case True
    obtain w k1 where k1: "xTaskRemoveFromEventList l k = Some (w, k1)" "serves T Q k k1" "tcb k1 = tcb k"
      using wake_spec [OF less.prems] True by blast
    define k2 where "k2 = (if w then vTaskMissedYield k1 else k1)"
    have k2: "serves T Q k k2" "tcb k2 = tcb k" using k1(2,3) serves_missed [OF k1(2)] by (auto simp: k2_def vTaskMissedYield_def)
    obtain k' where "wake_missed l (n - 1) k2 = Some k'" "serves T Q k2 k'" "tcb k' = tcb k2"
      using less.hyps [of "n - 1" k2] lock_count_down True serves_inv [OF k2(1)] less.prems(2) by blast
    then show ?thesis
      using True k1(1) k2 serves_trans by (subst wake_missed.simps) (auto simp flip: k2_def)
  qed
qed

definition queue_lists :: "nat set \<Rightarrow> queue \<Rightarrow> bool" where
  "queue_lists Q q \<longleftrightarrow> xTasksWaitingToSend q \<in> Q \<and> xTasksWaitingToReceive q \<in> Q"

lemma unlock_tx_spec:
  assumes "kernel_inv T Q k" "queue_lists Q q"
  shows "\<exists>k'. unlock_tx q k = Some (q\<lparr>xTxLock := queueUNLOCKED\<rparr>, k') \<and> serves T Q k k' \<and> tcb k' = tcb k"
  using wake_missed_spec [OF assms(1), of "xTasksWaitingToReceive q" "xTxLock q"] assms(2)
  by (auto simp: unlock_tx_def queue_lists_def)

lemma unlock_rx_spec:
  assumes "kernel_inv T Q k" "queue_lists Q q"
  shows "\<exists>k'. unlock_rx q k = Some (q\<lparr>xRxLock := queueUNLOCKED\<rparr>, k') \<and> serves T Q k k' \<and> tcb k' = tcb k"
  using wake_missed_spec [OF assms(1), of "xTasksWaitingToSend q" "xRxLock q"] assms(2)
  by (auto simp: unlock_rx_def queue_lists_def)

section \<open>Sending and receiving\<close>

text \<open>Where an item is put among the messages.\<close>

fun put_at :: "position \<Rightarrow> 'a \<Rightarrow> 'a list \<Rightarrow> 'a list" where
  "put_at SEND_TO_BACK x xs = xs @ [x]"
| "put_at SEND_TO_FRONT x xs = x # xs"
| "put_at OVERWRITE x xs = [x]"

text \<open>The callers' side of a send: the item has the size of the items, and only a queue of one item is overwritten.\<close>

definition send_ok :: "8 word list \<Rightarrow> position \<Rightarrow> queue \<Rightarrow> bool" where
  "send_ok item p q \<longleftrightarrow> item_size q \<le> length item \<and> (p = OVERWRITE \<longrightarrow> uxLength q = 1 \<and> uxItemSize q \<noteq> 0)"

lemma copy_in:
  assumes "queue_ok q" "\<not> is_mutex q" "send_ok item p q" "uxMessagesWaiting q < uxLength q \<or> p = OVERWRITE"
  shows "\<exists>q'. prvCopyDataToQueue item p q k = Some (False, q', k) \<and> queue_ok q' \<and> moves_items q q' \<and>
    queue_items q' = put_at p (take (item_size q) item) (queue_items q)"
proof (cases "uxItemSize q = 0")
  case True
  then have p: "p \<noteq> OVERWRITE" "uxMessagesWaiting q < uxLength q" using assms(3,4) by (auto simp: send_ok_def)
  define q' where "q' = q\<lparr>uxMessagesWaiting := uxMessagesWaiting q + 1\<rparr>"
  have m: "messages q' = messages q + 1" using unat_plus_1 [OF p(2)] by (simp add: q'_def)
  have "queue_ok q'" using assms(1) True p(2) m by (simp add: queue_ok_def q'_def word_less_nat_alt)
  moreover have "queue_items q' = put_at p [] (queue_items q)"
    using True p(1) m by (cases p) (simp_all add: queue_items_def q'_def replicate_append_same)
  moreover have "prvCopyDataToQueue item p q k = Some (False, q', k)"
    using True assms(2) by (simp add: prvCopyDataToQueue_def q'_def)
  ultimately show ?thesis using True by (auto simp: moves_items_def q'_def)
next
  case False
  have s: "item_size q \<le> length item" using assms(3) by (simp add: send_ok_def)
  consider "p = SEND_TO_BACK" | "p = SEND_TO_FRONT \<or> p = OVERWRITE \<and> uxMessagesWaiting q = 0"
    | "p = OVERWRITE" "uxMessagesWaiting q \<noteq> 0" by (cases p) auto
  then show ?thesis
  proof cases
    case 1
    then show ?thesis using copy_back [OF assms(1) False _ s] assms(4) by simp
  next
    case 2
    have "queue_items q = []" if "uxMessagesWaiting q = 0"
      using that by (simp add: queue_items_def)
    moreover have "uxMessagesWaiting q < uxLength q"
      using 2 assms(3,4) by (auto simp: send_ok_def)
    ultimately show ?thesis using copy_front [OF assms(1) False _ s 2] 2 by auto
  next
    case 3
    then show ?thesis using copy_overwrite [OF assms(1) False _ _ s] assms(3) by (simp add: send_ok_def)
  qed
qed

text \<open>
  A send on a queue or a semaphore: with room, the item is among the messages and a task that waits for it is woken; without, the
  call fails or waits, and nothing has changed.
\<close>

lemma send_try_spec:
  assumes "kernel_inv T Q k" "queue_lists Q q" "queue_ok q" "\<not> is_mutex q" "send_ok item p q"
  shows "\<exists>c q' k'. send_try item p entry ticks q k = Some (c, q', k') \<and> queue_ok q' \<and> moves_items q q' \<and>
    serves T Q k k' \<and> tcb k' = tcb k \<and>
    (if uxMessagesWaiting q < uxLength q \<or> p = OVERWRITE
     then c = Returned (Some []) \<and> queue_items q' = put_at p (take (item_size q) item) (queue_items q)
     else c = wait_or_fail entry ticks k \<and> q' = q \<and> k' = k)"
proof (cases "uxMessagesWaiting q < uxLength q \<or> p = OVERWRITE")
  case False
  then show ?thesis using assms by (auto simp: send_try_def moves_items_def)
next
  case True
  obtain q' where q': "prvCopyDataToQueue item p q k = Some (False, q', k)" "queue_ok q'" "moves_items q q'"
    "queue_items q' = put_at p (take (item_size q) item) (queue_items q)"
    using copy_in [OF assms(3-5) True] by blast
  have l: "xTasksWaitingToReceive q' \<in> Q" using assms(2) moves_items_simps [OF q'(3)] by (simp add: queue_lists_def)
  show ?thesis
  proof (cases "list_is_empty (xTasksWaitingToReceive q') k")
    case e: True
    have "send_try item p entry ticks q k = Some (Returned (Some []), q', k)"
      using True q'(1) e by (simp add: send_try_def)
    then show ?thesis using True q' assms(1) by auto
  next
    case e: False
    obtain k' where k': "wake_and_yield (xTasksWaitingToReceive q') k = Some k'" "serves T Q k k'" "tcb k' = tcb k"
      using wake_and_yield_spec [OF assms(1) l e] by blast
    have "send_try item p entry ticks q k = Some (Returned (Some []), q', k')"
      using True q'(1) e k'(1) by (simp add: send_try_def)
    then show ?thesis using True q' k' by auto
  qed
qed

lemma receive_try_spec:
  assumes "kernel_inv T Q k" "queue_lists Q q" "queue_ok q" "\<not> is_mutex q"
  shows "\<exists>c q' k'. receive_try peek entry ticks q k = Some (c, q', k') \<and> queue_ok q' \<and> moves_items q q' \<and>
    serves T Q k k' \<and> tcb k' = tcb k \<and>
    (if uxMessagesWaiting q > 0
     then c = Returned (Some (hd (queue_items q))) \<and> queue_items q' = (if peek then queue_items q else tl (queue_items q))
     else c = wait_or_fail entry ticks k \<and> q' = q \<and> k' = k)"
proof (cases "uxMessagesWaiting q > 0")
  case False
  then show ?thesis using assms by (auto simp: receive_try_def moves_items_def)
next
  case True
  obtain q1 where q1: "prvCopyDataFromQueue q = Some (hd (queue_items q), q1)" "q1 = q\<lparr>pcReadFrom := pcReadFrom q1\<rparr>"
    "queue_ok (q1\<lparr>uxMessagesWaiting := uxMessagesWaiting q - 1\<rparr>)"
    "queue_items (q1\<lparr>uxMessagesWaiting := uxMessagesWaiting q - 1\<rparr>) = tl (queue_items q)"
    using copy_out [OF assms(3) True] by blast
  obtain r where r: "q1 = q\<lparr>pcReadFrom := r\<rparr>" using q1(2) by blast
  define q2 where "q2 = (if peek then q else q1\<lparr>uxMessagesWaiting := uxMessagesWaiting q - 1\<rparr>)"
  define l where "l = (if peek then xTasksWaitingToReceive q else xTasksWaitingToSend q)"
  have q2: "queue_ok q2" "moves_items q q2" "queue_items q2 = (if peek then queue_items q else tl (queue_items q))"
    using q1(3,4) assms(3) by (auto simp: q2_def moves_items_def r)
  have op: "receive_try peek entry ticks q k = do {
      k \<leftarrow> (if \<not> list_is_empty l k then wake_and_yield l k else Some k);
      Some (Returned (Some (hd (queue_items q))), q2, k) }"
    using True q1(1) assms(4) by (cases peek) (simp_all add: receive_try_def q2_def l_def r)
  have l: "l \<in> Q" using assms(2) by (simp add: l_def queue_lists_def)
  show ?thesis
  proof (cases "list_is_empty l k")
    case e: True
    then show ?thesis using True op q2 assms(1) by auto
  next
    case e: False
    obtain k' where "wake_and_yield l k = Some k'" "serves T Q k k'" "tcb k' = tcb k"
      using wake_and_yield_spec [OF assms(1) l e] by blast
    then show ?thesis using True op q2 e by auto
  qed
qed

section \<open>Mutexes\<close>

lemma reprioritised_ready: "reprioritised k k' t c \<Longrightarrow> is_ready k u \<Longrightarrow> is_ready k' u"
  by (auto simp: reprioritised_def)

lemma inv_held:
  assumes "kernel_inv T Q k"
  shows "kernel_inv T Q (set_tcb t (\<lambda>c. c\<lparr>uxMutexesHeld := n c\<rparr>) k)"
proof -
  let ?k = "set_tcb t (\<lambda>c. c\<lparr>uxMutexesHeld := n c\<rparr>) k"
  have p: "priority_of ?k u = priority_of k u" "uxBasePriority (tcb ?k u) = uxBasePriority (tcb k u)" for u
    by (simp_all add: set_tcb_def)
  have "kernel_lists T Q f ?k = kernel_lists T Q f k" for f by (simp add: kernel_lists_def)
  then have "kernel_core T Q {} ?k"
    using assms unfolding kernel_inv_def kernel_core_def tasks_ok_def ready_ok_def p by auto
  then show ?thesis using assms by (simp add: kernel_inv_def)
qed

text \<open>Giving back a mutex: it is free again, and the task that held it has its own priority unless it holds others.\<close>

lemma give_mutex_spec:
  assumes "kernel_inv T Q k" "queue_lists Q q" "is_mutex q" "uxItemSize q = 0" "uxLength q = 1"
    and "uxMessagesWaiting q = 0" "pxMutexHolder q = Some t"
    and "t < T" "pxCurrentTCB k = Some t" "is_ready k t" "uxMutexesHeld (tcb k t) \<noteq> 0"
  shows "\<exists>k'. send_try item p entry ticks q k =
      Some (Returned (Some []), q\<lparr>pxMutexHolder := None, uxMessagesWaiting := 1\<rparr>, k') \<and> serves T Q k k' \<and>
    tcb k' = (tcb k)(t := (tcb k t)\<lparr>uxMutexesHeld := uxMutexesHeld (tcb k t) - 1,
      uxPriority := if uxMutexesHeld (tcb k t) = 1 then uxBasePriority (tcb k t) else priority_of k t\<rparr>)"
proof -
  let ?q = "q\<lparr>pxMutexHolder := None, uxMessagesWaiting := 1\<rparr>" and ?l = "xTasksWaitingToReceive q"
  let ?c = "(tcb k t)\<lparr>uxMutexesHeld := uxMutexesHeld (tcb k t) - 1,
      uxPriority := if uxMutexesHeld (tcb k t) = 1 then uxBasePriority (tcb k t) else priority_of k t\<rparr>"
  obtain y k1 where k1: "xTaskPriorityDisinherit (Some t) k = Some (y, k1)" "kernel_inv T Q k1" "reprioritised k k1 t ?c"
    using xTaskPriorityDisinherit_spec [OF assms(1,8-11)] by blast
  have core: "kernel_core T Q {} k" using assms(1) by (simp add: kernel_inv_def)
  have "spares u k k1" if "asleep T k u v" for u v
    using spares_Disinherit [OF k1(1)] asleep_not_ready(1) [OF core that] assms(10) by (cases "u = t") auto
  then have s1: "serves T Q k k1" using k1 reprioritised_ready kept_Disinherit by (auto simp: serves_def)
  have t1: "tcb k1 = (tcb k)(t := ?c)" using k1(3) by (simp add: reprioritised_def)
  have cp: "prvCopyDataToQueue item p q k = Some (y, ?q, k1)"
    using assms(3,4,6,7) k1(1) by (simp add: prvCopyDataToQueue_def)
  show ?thesis
  proof (cases "list_is_empty ?l k1")
    case True
    then have "send_try item p entry ticks q k = Some (Returned (Some []), ?q, if y then portYIELD k1 else k1)"
      using assms(5,6) cp by (simp add: send_try_def queueYIELD_IF_USING_PREEMPTION_def)
    then show ?thesis using s1 t1 by (auto simp: portYIELD_def dest: serves_yield)
  next
    case False
    have "?l \<in> Q" using assms(2) by (simp add: queue_lists_def)
    from wake_and_yield_spec [OF k1(2) this False] obtain k' where
      k': "wake_and_yield ?l k1 = Some k'" "serves T Q k1 k'" "tcb k' = tcb k1" by blast
    then show ?thesis using assms(5,6) cp False s1 t1 by (auto simp: send_try_def intro: serves_trans)
  qed
qed

text \<open>Taking a free mutex makes the running task its holder.\<close>

lemma take_mutex_spec:
  assumes "kernel_inv T Q k" "queue_lists Q q" "is_mutex q" "uxItemSize q = 0" "uxMessagesWaiting q = 1"
    and "pxCurrentTCB k = Some t"
  shows "\<exists>k'. receive_try False entry ticks q k =
      Some (Returned (Some []), q\<lparr>uxMessagesWaiting := 0, pxMutexHolder := Some t\<rparr>, k') \<and> serves T Q k k' \<and>
    tcb k' = (tcb k)(t := (tcb k t)\<lparr>uxMutexesHeld := uxMutexesHeld (tcb k t) + 1\<rparr>)"
proof -
  let ?q = "q\<lparr>uxMessagesWaiting := 0, pxMutexHolder := Some t\<rparr>" and ?l = "xTasksWaitingToSend q"
  define k1 where "k1 = set_tcb t (\<lambda>c. c\<lparr>uxMutexesHeld := uxMutexesHeld c + 1\<rparr>) k"
  have inv: "kernel_inv T Q k1" unfolding k1_def by (rule inv_held [OF assms(1)])
  have t1: "tcb k1 = (tcb k)(t := (tcb k t)\<lparr>uxMutexesHeld := uxMutexesHeld (tcb k t) + 1\<rparr>)"
    by (simp add: k1_def set_tcb_def)
  have s1: "serves T Q k k1" using inv by (auto simp: serves_def k1_def)
  have op: "receive_try False entry ticks q k = do {
      k \<leftarrow> (if \<not> list_is_empty ?l k1 then wake_and_yield ?l k1 else Some k1); Some (Returned (Some []), ?q, k) }"
    using assms(3-6) by (simp add: receive_try_def prvCopyDataFromQueue_def pvTaskIncrementMutexHeldCount_def k1_def)
  show ?thesis
  proof (cases "list_is_empty ?l k1")
    case True
    then show ?thesis using op s1 t1 by auto
  next
    case False
    have "?l \<in> Q" using assms(2) by (simp add: queue_lists_def)
    from wake_and_yield_spec [OF inv this False] show ?thesis using op s1 t1 False serves_trans by auto
  qed
qed

lemma peek_mutex_spec:
  assumes "kernel_inv T Q k" "queue_lists Q q" "uxItemSize q = 0" "0 < uxMessagesWaiting q"
  shows "\<exists>k'. receive_try True entry ticks q k = Some (Returned (Some []), q, k') \<and> serves T Q k k' \<and> tcb k' = tcb k"
proof -
  let ?l = "xTasksWaitingToReceive q"
  have op: "receive_try True entry ticks q k = do {
      k \<leftarrow> (if \<not> list_is_empty ?l k then wake_and_yield ?l k else Some k); Some (Returned (Some []), q, k) }"
    using assms(3,4) by (simp add: receive_try_def prvCopyDataFromQueue_def)
  have "?l \<in> Q" using assms(2) by (simp add: queue_lists_def)
  from wake_and_yield_spec [OF assms(1) this] show ?thesis using op assms(1) by (cases "list_is_empty ?l k") auto
qed

section \<open>Going to wait\<close>

text \<open>A task that went to wait is not ready any more; everything else is as before.\<close>

definition parked :: "nat \<Rightarrow> nat set \<Rightarrow> nat \<Rightarrow> nat \<Rightarrow> kernel \<Rightarrow> kernel \<Rightarrow> bool" where
  "parked T Q t l k k' \<longleftrightarrow> kernel_inv T Q k' \<and> kept k k' \<and> item_container k' (event t) = Some l \<and>
     (\<forall>u < T. u \<noteq> t \<longrightarrow> is_ready k u \<longrightarrow> is_ready k' u) \<and> (\<forall>u v. u \<noteq> t \<longrightarrow> asleep T k u v \<longrightarrow> spares u k k')"

lemma blocked_spares: "blocked k t f n k' \<Longrightarrow> u \<noteq> t \<Longrightarrow> spares u k k'"
  by (simp add: blocked_def spares_def)

lemma wait_to_send_spec:
  assumes "kernel_inv T Q k" "queue_lists Q q" "t < T" "pxCurrentTCB k = Some t" "is_ready k t" "ticks \<noteq> 0"
  shows "\<exists>k'. wait_to_send ticks q k = Some k' \<and> parked T Q t (xTasksWaitingToSend q) k k' \<and> tcb k' = tcb k"
proof -
  have "xTasksWaitingToSend q \<in> Q" using assms(2) by (simp add: queue_lists_def)
  from vTaskPlaceOnEventList_spec [OF assms(1,3-5) this assms(6)] obtain k' where
    k': "vTaskPlaceOnEventList (xTasksWaitingToSend q) ticks k = Some k'" "kernel_inv T Q k'"
    "blocked k t (ticks = portMAX_DELAY) ticks k'" "item_container k' (event t) = Some (xTasksWaitingToSend q)" by blast
  then have "parked T Q t (xTasksWaitingToSend q) k k'"
    using blocked_spares [OF k'(3)] by (auto simp: parked_def blocked_def lists_changed_def kept_def)
  then show ?thesis using k' by (auto simp: wait_to_send_def blocked_def lists_changed_def)
qed

lemma wait_to_receive_spec:
  assumes "kernel_inv T Q k" "queue_lists Q q" "t < T" "pxCurrentTCB k = Some t" "is_ready k t" "ticks \<noteq> 0"
    and "\<And>h. is_mutex q \<Longrightarrow> pxMutexHolder q = Some h \<Longrightarrow> h < T"
  shows "\<exists>k'. wait_to_receive ticks q k = Some k' \<and> parked T Q t (xTasksWaitingToReceive q) k k' \<and>
    tcb k' = (case (if is_mutex q then pxMutexHolder q else None) of None \<Rightarrow> tcb k
      | Some h \<Rightarrow> (tcb k)(h := (tcb k h)\<lparr>uxPriority := max (priority_of k h) (priority_of k t)\<rparr>))"
proof -
  have l: "xTasksWaitingToReceive q \<in> Q" using assms(2) by (simp add: queue_lists_def)
  let ?tcb = "case (if is_mutex q then pxMutexHolder q else None) of None \<Rightarrow> tcb k
      | Some h \<Rightarrow> (tcb k)(h := (tcb k h)\<lparr>uxPriority := max (priority_of k h) (priority_of k t)\<rparr>)"
  obtain k1 where k1: "(if is_mutex q then vTaskPriorityInherit (pxMutexHolder q) k else Some k) = Some k1"
    "kernel_inv T Q k1" "kept k k1" "tcb k1 = ?tcb" "\<And>u. is_ready k u \<Longrightarrow> is_ready k1 u"
    "\<And>u v. asleep T k u v \<Longrightarrow> spares u k k1"
  proof (cases "if is_mutex q then pxMutexHolder q else None")
    case None
    then have "(if is_mutex q then vTaskPriorityInherit (pxMutexHolder q) k else Some k) = Some k"
      by (auto simp: vTaskPriorityInherit_def split: if_splits)
    then show ?thesis using that None assms(1) by simp
  next
    case (Some h)
    then have m: "is_mutex q" "pxMutexHolder q = Some h" by (auto split: if_splits)
    obtain k1 where k1: "vTaskPriorityInherit (Some h) k = Some k1" "kernel_inv T Q k1"
      "reprioritised k k1 h ((tcb k h)\<lparr>uxPriority := max (priority_of k h) (priority_of k t)\<rparr>)"
      using vTaskPriorityInherit_spec [OF assms(1) assms(7) [OF m] assms(4,3)] by blast
    have "tcb k1 = ?tcb" using k1(3) m by (simp add: reprioritised_def)
    moreover have "spares u k k1" if "asleep T k u v" for u v
      using spares_Inherit [OF k1(1)] asleep_not_ready(1) [OF _ that] assms(1) by (auto simp: kernel_inv_def)
    ultimately show ?thesis
      using that [of k1] k1(1,2) m kept_Inherit [OF k1(1)] reprioritised_ready [OF k1(3)] by simp
  qed
  have cur: "pxCurrentTCB k1 = Some t" using k1(3) assms(4) by (simp add: kept_def)
  from vTaskPlaceOnEventList_spec [OF k1(2) assms(3) cur k1(5) [OF assms(5)] l assms(6)]
  obtain k' where k': "vTaskPlaceOnEventList (xTasksWaitingToReceive q) ticks k1 = Some k'" "kernel_inv T Q k'"
    "blocked k1 t (ticks = portMAX_DELAY) ticks k'" "item_container k' (event t) = Some (xTasksWaitingToReceive q)" by blast
  have "wait_to_receive ticks q k = Some k'"
    using k1(1) k'(1) by (simp add: wait_to_receive_def)
  moreover have "parked T Q t (xTasksWaitingToReceive q) k k'"
  proof -
    have "kept k k'" using k1(3) k'(3) by (auto simp: blocked_def intro: kept_trans kept_lists_changed)
    moreover have "is_ready k' u" if "u \<noteq> t" "is_ready k u" for u
      using k1(5) [OF that(2)] that(1) k'(3) by (auto simp: blocked_def lists_changed_def)
    moreover have "spares u k k'" if "u \<noteq> t" "asleep T k u v" for u v
      using spares_trans [OF k1(6) [OF that(2)] blocked_spares [OF k'(3) that(1)]] .
    ultimately show ?thesis using k'(2,4) by (auto simp: parked_def)
  qed
  moreover have "tcb k' = ?tcb" using k1(4) k'(3) by (simp add: blocked_def lists_changed_def)
  ultimately show ?thesis by blast
qed

section \<open>Interrupts\<close>

text \<open>The members that no call but the creation of a queue changes, with the holder, which only mutexes have.\<close>

definition same_shape :: "queue \<Rightarrow> queue \<Rightarrow> bool" where
  "same_shape q q' \<longleftrightarrow> is_mutex q' = is_mutex q \<and> xTasksWaitingToSend q' = xTasksWaitingToSend q \<and>
     xTasksWaitingToReceive q' = xTasksWaitingToReceive q \<and> uxLength q' = uxLength q \<and> uxItemSize q' = uxItemSize q \<and>
     pxMutexHolder q' = pxMutexHolder q"

lemma same_shape_refl [simp]: "same_shape q q"
  by (simp add: same_shape_def)

lemma same_shape_moves: "moves_items q q' \<Longrightarrow> same_shape q q'"
  by (simp add: same_shape_def moves_items_simps)

lemma lock_simps [simp]:
  "queue_ok (q\<lparr>xTxLock := n\<rparr>) = queue_ok q" "queue_ok (q\<lparr>xRxLock := n\<rparr>) = queue_ok q"
  "queue_items (q\<lparr>xTxLock := n\<rparr>) = queue_items q" "queue_items (q\<lparr>xRxLock := n\<rparr>) = queue_items q"
  "same_shape q (q'\<lparr>xTxLock := n\<rparr>) = same_shape q q'" "same_shape q (q'\<lparr>xRxLock := n\<rparr>) = same_shape q q'"
  by (simp_all add: queue_ok_def queue_items_def slot_def read_index_def same_shape_def)

lemma prvLockQueue_simps [simp]:
  "queue_ok (prvLockQueue q) = queue_ok q" "queue_items (prvLockQueue q) = queue_items q" "same_shape q (prvLockQueue q)"
  by (simp_all add: prvLockQueue_def Let_def)

text \<open>A call from an interrupt does its copy at once; whom it wakes depends on the lock.\<close>

lemma SendFromISR_spec:
  assumes "kernel_inv T Q k" "queue_lists Q q" "queue_ok q" "\<not> is_mutex q" "send_ok item p q"
  shows "\<exists>ok w q' k'. xQueueGenericSendFromISR (Some item) p q k = Some (ok, w, q', k') \<and> queue_ok q' \<and> same_shape q q' \<and>
    serves T Q k k' \<and> tcb k' = tcb k \<and>
    (if uxMessagesWaiting q < uxLength q \<or> p = OVERWRITE
     then ok \<and> queue_items q' = put_at p (take (item_size q) item) (queue_items q)
     else \<not> ok \<and> \<not> w \<and> q' = q \<and> k' = k)"
proof (cases "uxMessagesWaiting q < uxLength q \<or> p = OVERWRITE")
  case False
  then show ?thesis using assms by (auto simp: xQueueGenericSendFromISR_def)
next
  case True
  obtain q1 where q1: "prvCopyDataToQueue item p q k = Some (False, q1, k)" "queue_ok q1" "moves_items q q1"
    "queue_items q1 = put_at p (take (item_size q) item) (queue_items q)"
    using copy_in [OF assms(3-5) True] by blast
  have l: "xTasksWaitingToReceive q1 \<in> Q" using assms(2) moves_items_simps [OF q1(3)] by (simp add: queue_lists_def)
  obtain w k1 where "wake_from_isr (xTasksWaitingToReceive q1) k = Some (w, k1)" "serves T Q k k1" "tcb k1 = tcb k"
    using wake_from_isr_spec [OF assms(1) l] by blast
  then show ?thesis
    using True q1 assms(1,5) same_shape_moves [OF q1(3)]
    by (cases "xTxLock q1 = queueUNLOCKED") (auto simp: xQueueGenericSendFromISR_def send_ok_def)
qed

lemma GiveFromISR_spec:
  assumes "kernel_inv T Q k" "queue_lists Q q" "queue_ok q" "\<not> is_mutex q" "uxItemSize q = 0"
  shows "\<exists>ok w q' k'. xQueueGiveFromISR q k = Some (ok, w, q', k') \<and> queue_ok q' \<and> same_shape q q' \<and>
    serves T Q k k' \<and> tcb k' = tcb k \<and>
    (if uxMessagesWaiting q < uxLength q then ok \<and> queue_items q' = queue_items q @ [[]]
     else \<not> ok \<and> \<not> w \<and> q' = q \<and> k' = k)"
proof (cases "uxMessagesWaiting q < uxLength q")
  case False
  then show ?thesis using assms by (auto simp: xQueueGiveFromISR_def)
next
  case True
  define q1 where "q1 = q\<lparr>uxMessagesWaiting := uxMessagesWaiting q + 1\<rparr>"
  have "prvCopyDataToQueue [] SEND_TO_BACK q k = Some (False, q1, k)"
    using assms(4,5) by (simp add: prvCopyDataToQueue_def q1_def)
  with copy_in [OF assms(3,4), of "[]" SEND_TO_BACK k] True assms(5)
  have q1: "queue_ok q1" "queue_items q1 = queue_items q @ [[]]" "same_shape q q1"
    by (auto simp: send_ok_def same_shape_moves)
  have l: "xTasksWaitingToReceive q1 \<in> Q" using assms(2) by (simp add: queue_lists_def q1_def)
  obtain w k1 where "wake_from_isr (xTasksWaitingToReceive q1) k = Some (w, k1)" "serves T Q k k1" "tcb k1 = tcb k"
    using wake_from_isr_spec [OF assms(1) l] by blast
  then show ?thesis
    using True q1 assms by (cases "xTxLock q1 = queueUNLOCKED") (auto simp: xQueueGiveFromISR_def Let_def simp flip: q1_def)
qed

lemma ReceiveFromISR_spec:
  assumes "kernel_inv T Q k" "queue_lists Q q" "queue_ok q" "\<not> is_mutex q"
  shows "\<exists>d w q' k'. xQueueReceiveFromISR False q k = Some (d, w, q', k') \<and> queue_ok q' \<and> same_shape q q' \<and>
    serves T Q k k' \<and> tcb k' = tcb k \<and>
    (if uxMessagesWaiting q > 0 then d = Some (hd (queue_items q)) \<and> queue_items q' = tl (queue_items q)
     else d = None \<and> \<not> w \<and> q' = q \<and> k' = k)"
proof (cases "uxMessagesWaiting q > 0")
  case False
  then show ?thesis using assms by (auto simp: xQueueReceiveFromISR_def)
next
  case True
  obtain q1 where q1: "prvCopyDataFromQueue q = Some (hd (queue_items q), q1)" "q1 = q\<lparr>pcReadFrom := pcReadFrom q1\<rparr>"
    "queue_ok (q1\<lparr>uxMessagesWaiting := uxMessagesWaiting q - 1\<rparr>)"
    "queue_items (q1\<lparr>uxMessagesWaiting := uxMessagesWaiting q - 1\<rparr>) = tl (queue_items q)"
    using copy_out [OF assms(3) True] by blast
  obtain r where r: "q1 = q\<lparr>pcReadFrom := r\<rparr>" using q1(2) by blast
  define q2 where "q2 = q1\<lparr>uxMessagesWaiting := uxMessagesWaiting q - 1\<rparr>"
  have q2: "queue_ok q2" "queue_items q2 = tl (queue_items q)" "same_shape q q2"
    using q1(3,4) by (simp_all add: q2_def same_shape_def r)
  have l: "xTasksWaitingToSend q2 \<in> Q" using assms(2) by (simp add: queue_lists_def q2_def r)
  have op: "xQueueReceiveFromISR False q k =
      (if xRxLock q2 = queueUNLOCKED then do {
         (w, k) \<leftarrow> wake_from_isr (xTasksWaitingToSend q2) k; Some (Some (hd (queue_items q)), w, q2, k) }
       else Some (Some (hd (queue_items q)), False, q2\<lparr>xRxLock := xRxLock q2 + 1\<rparr>, k))"
    using True q1(1) by (simp add: xQueueReceiveFromISR_def q2_def r)
  obtain w k1 where "wake_from_isr (xTasksWaitingToSend q2) k = Some (w, k1)" "serves T Q k k1" "tcb k1 = tcb k"
    using wake_from_isr_spec [OF assms(1) l] by blast
  then show ?thesis using True op q2 assms(1) by (cases "xRxLock q2 = queueUNLOCKED") auto
qed

end
