(* ===== verification/Rtos_System.thy ===== *)
theory Rtos_System
  imports Rtos_Calls
begin

text \<open>
  The whole kernel at run time: tasks that call it, the interrupts between the steps of their calls, the tick and the switch of
  tasks. The processor runs the current task unless a switch is pending; an interrupt can come before every step. What a task
  does is any sequence of calls that keep the rules of the API: an interrupt does not use mutexes, a mutex is not overwritten, and
  the idle task does not wait. Any task may give any mutex: that only its holder can is left to the assertion in the code.
\<close>

section \<open>The interrupts of the port\<close>

definition xPortSysTickHandler :: "kernel \<Rightarrow> kernel option" where
  "xPortSysTickHandler k = do {
     (switch, k) \<leftarrow> xTaskIncrementTick k;
     Some (if switch then portYIELD k else k) }"

text \<open>The hardware clears the pending bit when it enters the handler; saving and restoring the registers is not modelled.\<close>

definition xPortPendSVHandler :: "kernel \<Rightarrow> kernel option" where
  "xPortPendSVHandler k = vTaskSwitchContext (k\<lparr>pendsv := False\<rparr>)"

definition portEND_SWITCHING_ISR :: "bool \<Rightarrow> kernel \<Rightarrow> kernel" where
  "portEND_SWITCHING_ISR xSwitchRequired k = (if xSwitchRequired then portYIELD k else k)"

section \<open>Tasks and their calls\<close>

text \<open>What a task is doing: its own code, or a call of a queue.\<close>

datatype call =
  Application
| Send nat "8 word list" position pc
| Receive nat bool pc
| Take_recursive nat pc

record system =
  kern :: kernel
  queues :: "nat \<Rightarrow> queue"
  calls :: "nat \<Rightarrow> call"

fun call_step :: "call \<Rightarrow> (nat \<Rightarrow> queue) \<Rightarrow> kernel \<Rightarrow> (call \<times> (nat \<Rightarrow> queue) \<times> kernel) option" where
  "call_step (Send i item p c) qs k = do {
     (c, q, k) \<leftarrow> send_step item p c (qs i) k;
     Some (Send i item p c, qs(i := q), k) }"
| "call_step (Receive i peek c) qs k = do {
     (c, q, k) \<leftarrow> receive_step peek c (qs i) k;
     Some (Receive i peek c, qs(i := q), k) }"
| "call_step (Take_recursive i c) qs k = do {
     (c, q, k) \<leftarrow> take_recursive_step c (qs i) k;
     Some (Take_recursive i c, qs(i := q), k) }"
| "call_step Application qs k = None"

fun pc_of :: "call \<Rightarrow> pc option" where
  "pc_of Application = None"
| "pc_of (Send i item p c) = Some c"
| "pc_of (Receive i peek c) = Some c"
| "pc_of (Take_recursive i c) = Some c"

fun returned :: "pc option \<Rightarrow> bool" where
  "returned (Some (Returned r)) = True"
| "returned _ = False"

definition runs :: "nat \<Rightarrow> system \<Rightarrow> bool" where
  "runs t s \<longleftrightarrow> pxCurrentTCB (kern s) = Some t \<and> \<not> pendsv (kern s)"

definition set_call :: "nat \<Rightarrow> call \<Rightarrow> system \<Rightarrow> system" where
  "set_call t c s = s\<lparr>calls := (calls s)(t := c)\<rparr>"

definition set_queue :: "nat \<Rightarrow> queue \<Rightarrow> system \<Rightarrow> system" where
  "set_queue i q s = s\<lparr>queues := (queues s)(i := q)\<rparr>"

definition set_kern :: "kernel \<Rightarrow> system \<Rightarrow> system" where
  "set_kern k s = s\<lparr>kern := k\<rparr>"

text \<open>The rules for giving to a queue: an item of its size, and no mutex is overwritten.\<close>

definition may_send :: "8 word list \<Rightarrow> position \<Rightarrow> queue \<Rightarrow> bool" where
  "may_send item p q \<longleftrightarrow> (if is_mutex q then p \<noteq> OVERWRITE else send_ok item p q)"

text \<open>
  What a step does, as those who called see it: an interrupt gets the result of its call, and a task is told where its call is,
  with the result in it when it has returned.
\<close>

datatype event =
  Tick
| Switch
| Sent_from_isr nat "8 word list" position bool
| Given_from_isr nat bool
| Received_from_isr nat "8 word list option"
| Task nat call
| Suspends nat
| Kernel_call

text \<open>The steps of a system of \<open>T\<close> tasks and \<open>N\<close> queues.\<close>

inductive sys_event :: "nat \<Rightarrow> nat \<Rightarrow> nat \<Rightarrow> system \<Rightarrow> event \<Rightarrow> system \<Rightarrow> bool" for T N idle where
  systick: "xPortSysTickHandler (kern s) = Some k \<Longrightarrow> sys_event T N idle s Tick (set_kern k s)"
| switch: "pendsv (kern s) \<Longrightarrow> xPortPendSVHandler (kern s) = Some k \<Longrightarrow> sys_event T N idle s Switch (set_kern k s)"
| isr_send: "i < N \<Longrightarrow> \<not> is_mutex (queues s i) \<Longrightarrow> send_ok item p (queues s i) \<Longrightarrow>
    xQueueGenericSendFromISR (Some item) p (queues s i) (kern s) = Some (ok, hpw, q, k) \<Longrightarrow> y \<longrightarrow> hpw \<Longrightarrow>
    sys_event T N idle s (Sent_from_isr i item p ok) (set_queue i q (set_kern (portEND_SWITCHING_ISR y k) s))"
| isr_give: "i < N \<Longrightarrow> \<not> is_mutex (queues s i) \<Longrightarrow>
    xQueueGiveFromISR (queues s i) (kern s) = Some (ok, hpw, q, k) \<Longrightarrow> y \<longrightarrow> hpw \<Longrightarrow>
    sys_event T N idle s (Given_from_isr i ok) (set_queue i q (set_kern (portEND_SWITCHING_ISR y k) s))"
| isr_receive: "i < N \<Longrightarrow> \<not> is_mutex (queues s i) \<Longrightarrow>
    xQueueReceiveFromISR False (queues s i) (kern s) = Some (d, hpw, q, k) \<Longrightarrow> y \<longrightarrow> hpw \<Longrightarrow>
    sys_event T N idle s (Received_from_isr i d) (set_queue i q (set_kern (portEND_SWITCHING_ISR y k) s))"
| call_send: "runs t s \<Longrightarrow> calls s t = Application \<Longrightarrow> i < N \<Longrightarrow> may_send item p (queues s i) \<Longrightarrow> (ticks \<noteq> 0 \<longrightarrow> t \<noteq> idle) \<Longrightarrow>
    xQueueGenericSend (Some item) p ticks (queues s i) (kern s) = Some c \<Longrightarrow>
    sys_event T N idle s (Task t (Send i item p c)) (set_call t (Send i item p c) s)"
| call_receive: "runs t s \<Longrightarrow> calls s t = Application \<Longrightarrow> i < N \<Longrightarrow> (ticks \<noteq> 0 \<longrightarrow> t \<noteq> idle) \<Longrightarrow>
    xQueueGenericReceive False ticks (queues s i) (kern s) = Some c \<Longrightarrow>
    sys_event T N idle s (Task t (Receive i peek c)) (set_call t (Receive i peek c) s)"
| call_take: "runs t s \<Longrightarrow> calls s t = Application \<Longrightarrow> i < N \<Longrightarrow> is_mutex (queues s i) \<Longrightarrow> (ticks \<noteq> 0 \<longrightarrow> t \<noteq> idle) \<Longrightarrow>
    xQueueTakeMutexRecursive ticks (queues s i) (kern s) = Some (c, q, k) \<Longrightarrow>
    sys_event T N idle s (Task t (Take_recursive i c)) (set_call t (Take_recursive i c) (set_queue i q (set_kern k s)))"
| give_recursive: "runs t s \<Longrightarrow> calls s t = Application \<Longrightarrow> i < N \<Longrightarrow> is_mutex (queues s i) \<Longrightarrow>
    xQueueGiveMutexRecursive (queues s i) (kern s) = Some (ok, q, k) \<Longrightarrow>
    sys_event T N idle s Kernel_call (set_queue i q (set_kern k s))"
| continue: "runs t s \<Longrightarrow> call_step (calls s t) (queues s) (kern s) = Some (c, qs, k) \<Longrightarrow>
    sys_event T N idle s (Task t c) (set_call t c (s\<lparr>kern := k, queues := qs\<rparr>))"
| finish: "runs t s \<Longrightarrow> returned (pc_of (calls s t)) \<Longrightarrow> sys_event T N idle s (Task t Application) (set_call t Application s)"
| suspend_all: "runs t s \<Longrightarrow> calls s t = Application \<Longrightarrow> uxSchedulerSuspended (kern s) + 1 \<noteq> 0 \<Longrightarrow>
    sys_event T N idle s Kernel_call (set_kern (vTaskSuspendAll (kern s)) s)"
| resume_all: "runs t s \<Longrightarrow> calls s t = Application \<Longrightarrow> xTaskResumeAll (kern s) = Some (y, k) \<Longrightarrow>
    sys_event T N idle s Kernel_call (set_kern k s)"
| delay: "runs t s \<Longrightarrow> calls s t = Application \<Longrightarrow> (ticks \<noteq> 0 \<longrightarrow> t \<noteq> idle) \<Longrightarrow> vTaskDelay ticks (kern s) = Some k \<Longrightarrow>
    sys_event T N idle s Kernel_call (set_kern k s)"
| delay_until: "runs t s \<Longrightarrow> calls s t = Application \<Longrightarrow> t \<noteq> idle \<Longrightarrow>
    vTaskDelayUntil prev inc (kern s) = Some (wake, k) \<Longrightarrow> sys_event T N idle s Kernel_call (set_kern k s)"
| set_priority: "runs t s \<Longrightarrow> calls s t = Application \<Longrightarrow> u < T \<Longrightarrow>
    vTaskPrioritySet (Some u) p (kern s) = Some k \<Longrightarrow> sys_event T N idle s Kernel_call (set_kern k s)"
| suspend: "runs t s \<Longrightarrow> calls s t = Application \<Longrightarrow> u < T \<Longrightarrow> u \<noteq> idle \<Longrightarrow>
    vTaskSuspend (Some u) (kern s) = Some k \<Longrightarrow> sys_event T N idle s (Suspends u) (set_kern k s)"
| resume: "runs t s \<Longrightarrow> calls s t = Application \<Longrightarrow> u < T \<Longrightarrow>
    vTaskResume u (kern s) = Some k \<Longrightarrow> sys_event T N idle s Kernel_call (set_kern k s)"

definition sys_step :: "nat \<Rightarrow> nat \<Rightarrow> nat \<Rightarrow> system \<Rightarrow> system \<Rightarrow> bool" where
  "sys_step T N idle s s' \<longleftrightarrow> (\<exists>e. sys_event T N idle s e s')"

lemma sys_stepI: "sys_event T N idle s e s' \<Longrightarrow> sys_step T N idle s s'"
  by (auto simp: sys_step_def)

text \<open>A run with its events, the last one last.\<close>

inductive trace :: "('s \<Rightarrow> 'e \<Rightarrow> 's \<Rightarrow> bool) \<Rightarrow> 's \<Rightarrow> 'e list \<Rightarrow> 's \<Rightarrow> bool" for step where
  trace_nil: "trace step s [] s"
| trace_snoc: "trace step s es s' \<Longrightarrow> step s' e s'' \<Longrightarrow> trace step s (es @ [e]) s''"

lemma trace_one: "step s e s' \<Longrightarrow> trace step s [e] s'"
  using trace_snoc [OF trace_nil, of step s e s'] by simp

lemma trace_two: "step s e s' \<Longrightarrow> step s' e' s'' \<Longrightarrow> trace step s [e, e'] s''"
  using trace_snoc [OF trace_one, of step s e s' e' s''] by simp

abbreviation sys_trace :: "nat \<Rightarrow> nat \<Rightarrow> nat \<Rightarrow> system \<Rightarrow> event list \<Rightarrow> system \<Rightarrow> bool" where
  "sys_trace T N idle \<equiv> trace (sys_event T N idle)"

section \<open>The invariant\<close>

text \<open>
  A call is at rest where the task can be switched out; from suspending the scheduler to resuming it the task stays
  the running one. It has left the ready tasks when it is on its way to yield.
\<close>

fun resting :: "pc option \<Rightarrow> bool" where
  "resting None = True"
| "resting (Some (Trying e n)) = True"
| "resting (Some (Must_wait e n)) = True"
| "resting (Some (Returned r)) = True"
| "resting (Some _) = False"

fun may_wait :: "pc option \<Rightarrow> bool" where
  "may_wait None = False"
| "may_wait (Some (Trying e n)) = (n \<noteq> 0)"
| "may_wait (Some (Returned r)) = False"
| "may_wait (Some _) = True"

fun has_left :: "pc option \<Rightarrow> bool" where
  "has_left (Some (Unlock_tx a e n)) = (a = Yield)"
| "has_left (Some (Unlock_rx a e n)) = (a = Yield)"
| "has_left (Some (Resume a e n)) = (a = Yield)"
| "has_left _ = False"

fun ticks_left :: "pc option \<Rightarrow> bool" where
  "ticks_left (Some (Must_wait e n)) = (n \<noteq> 0)"
| "ticks_left (Some (Scheduler_suspended e n)) = (n \<noteq> 0)"
| "ticks_left (Some (Queue_locked e n)) = (n \<noteq> 0)"
| "ticks_left (Some (Not_timed_out e n)) = (n \<noteq> 0)"
| "ticks_left (Some (Place e n)) = (n \<noteq> 0)"
| "ticks_left _ = True"

definition event_lists :: "nat \<Rightarrow> nat set" where
  "event_lists N = {15..<15 + 2 * N}"

text \<open>A queue with its lists; a mutex is taken exactly when it has a holder.\<close>

definition queue_good :: "nat \<Rightarrow> nat \<Rightarrow> queue \<Rightarrow> bool" where
  "queue_good T i q \<longleftrightarrow> queue_ok q \<and> xTasksWaitingToSend q = 15 + 2 * i \<and> xTasksWaitingToReceive q = 16 + 2 * i \<and>
     (if is_mutex q then (uxMessagesWaiting q = 0 \<longleftrightarrow> pxMutexHolder q \<noteq> None) \<and> (\<forall>h. pxMutexHolder q = Some h \<longrightarrow> h < T)
      else pxMutexHolder q = None)"

text \<open>Each task counts the mutexes it holds, and one that holds none has its base priority.\<close>

definition mutexes_held :: "nat \<Rightarrow> (nat \<Rightarrow> queue) \<Rightarrow> nat \<Rightarrow> nat set" where
  "mutexes_held N qs t = {i. i < N \<and> pxMutexHolder (qs i) = Some t}"

definition accounts :: "nat \<Rightarrow> nat \<Rightarrow> (nat \<Rightarrow> queue) \<Rightarrow> (nat \<Rightarrow> TCB) \<Rightarrow> bool" where
  "accounts T N qs tc \<longleftrightarrow> (\<forall>t < T. unat (uxMutexesHeld (tc t)) = card (mutexes_held N qs t) \<and>
     (uxMutexesHeld (tc t) = 0 \<longrightarrow> uxPriority (tc t) = uxBasePriority (tc t)))"

fun call_ok :: "nat \<Rightarrow> (nat \<Rightarrow> queue) \<Rightarrow> nat \<Rightarrow> call \<Rightarrow> bool" where
  "call_ok N qs t Application = True"
| "call_ok N qs t (Send i item p c) = (i < N \<and> may_send item p (qs i))"
| "call_ok N qs t (Receive i peek c) = (i < N)"
| "call_ok N qs t (Take_recursive i c) = (i < N \<and> is_mutex (qs i))"

definition calls_ok :: "nat \<Rightarrow> nat \<Rightarrow> nat \<Rightarrow> system \<Rightarrow> bool" where
  "calls_ok T N idle s \<longleftrightarrow>
     (\<forall>t < T. call_ok N (queues s) t (calls s t) \<and> ticks_left (pc_of (calls s t)) \<and>
        (pxCurrentTCB (kern s) \<noteq> Some t \<longrightarrow> resting (pc_of (calls s t)))) \<and>
     \<not> may_wait (pc_of (calls s idle))"

text \<open>
  The running task is ready, or a switch is pending that will replace it; while the scheduler is suspended it is the one that
  suspended it, and it only stops being ready on its way to resume the scheduler.
\<close>

definition running_ok :: "kernel \<Rightarrow> nat \<Rightarrow> pc option \<Rightarrow> bool" where
  "running_ok k t c \<longleftrightarrow>
     (if resting c then (is_ready k t \<or> pendsv k \<and> uxSchedulerSuspended k = 0) \<and> (may_wait c \<longrightarrow> uxSchedulerSuspended k = 0)
      else uxSchedulerSuspended k = 1 \<and> (has_left c \<or> is_ready k t))"

definition sys_inv :: "nat \<Rightarrow> nat \<Rightarrow> nat \<Rightarrow> system \<Rightarrow> bool" where
  "sys_inv T N idle s \<longleftrightarrow> kernel_inv T (event_lists N) (kern s) \<and> xSchedulerRunning (kern s) \<and> N < 2 ^ 32 \<and>
     idle < T \<and> is_ready (kern s) idle \<and> (\<forall>i < N. queue_good T i (queues s i)) \<and> accounts T N (queues s) (tcb (kern s)) \<and>
     calls_ok T N idle s \<and> (\<forall>t. pxCurrentTCB (kern s) = Some t \<longrightarrow> running_ok (kern s) t (pc_of (calls s t)))"

end
