(* ===== verification/Rtos_System_Inv.thy ===== *)
theory Rtos_System_Inv
  imports Rtos_System
begin

text \<open>
  The invariant of the running system: every step of \<open>sys_step\<close> keeps it, and it makes the next step of a call
  possible, so that no \<open>configASSERT\<close> can fail and no access leaves the storage of a queue; but for the assertion that
  the mutex that a task gives back is its own.
\<close>

section \<open>One task moves\<close>

definition steady :: "nat \<Rightarrow> kernel \<Rightarrow> kernel \<Rightarrow> bool" where
  "steady T k k' \<longleftrightarrow> pxCurrentTCB k' = pxCurrentTCB k \<and> uxSchedulerSuspended k' = uxSchedulerSuspended k \<and>
     xSchedulerRunning k' = xSchedulerRunning k \<and> (pendsv k \<longrightarrow> pendsv k') \<and> (\<forall>u < T. is_ready k u \<longrightarrow> is_ready k' u)"

lemma serves_steady: "serves T Q k k' \<Longrightarrow> steady T k k'"
  by (simp add: serves_def kept_def steady_def)

lemma steady_refl [simp]: "steady T k k"
  by (simp add: steady_def)

lemma running_ok_steady: "steady T k k' \<Longrightarrow> t < T \<Longrightarrow> running_ok k t c \<Longrightarrow> running_ok k' t c"
  by (auto simp: steady_def running_ok_def split: if_splits)

text \<open>The members of a queue that the calls of other tasks rely on.\<close>

definition queue_kept :: "nat \<Rightarrow> queue \<Rightarrow> queue \<Rightarrow> bool" where
  "queue_kept t q q' \<longleftrightarrow> is_mutex q' = is_mutex q \<and> uxLength q' = uxLength q \<and> uxItemSize q' = uxItemSize q \<and>
     (\<forall>u. u \<noteq> t \<longrightarrow> pxMutexHolder q = Some u \<longrightarrow> pxMutexHolder q' = Some u)"

lemma queue_kept_refl [simp]: "queue_kept t q q"
  by (simp add: queue_kept_def)

lemma call_ok_kept:
  assumes "call_ok N qs u c" "\<And>i. i < N \<Longrightarrow> queue_kept t (qs i) (qs' i)"
  shows "call_ok N qs' u c"
proof (cases c)
  case (Send i item p c)
  then have "queue_kept t (qs i) (qs' i)" using assms(1,2) by simp
  then show ?thesis
    using assms(1) Send by (auto simp: queue_kept_def may_send_def send_ok_def split: if_splits)
qed (use assms in \<open>auto simp: queue_kept_def\<close>)

lemma sys_inv_step:
  assumes inv: "sys_inv T N idle s" and cur: "pxCurrentTCB (kern s) = Some t"
    and k: "kernel_inv T (event_lists N) (kern s')" "xSchedulerRunning (kern s')" "pxCurrentTCB (kern s') = Some t"
      "is_ready (kern s') idle"
    and q: "\<And>i. i < N \<Longrightarrow> queue_good T i (queues s' i) \<and> queue_kept t (queues s i) (queues s' i)"
    and acc: "accounts T N (queues s') (tcb (kern s'))"
    and c: "calls s' = (calls s)(t := c)" "call_ok N (queues s') t c" "ticks_left (pc_of c)" "running_ok (kern s') t (pc_of c)"
      "t = idle \<Longrightarrow> \<not> may_wait (pc_of c)"
  shows "sys_inv T N idle s'"
proof -
  have "call_ok N (queues s') u (calls s' u)" if "u < T" for u
    using inv that c(1,2) q call_ok_kept [of N "queues s" u "calls s u" t "queues s'"]
    by (cases "u = t") (auto simp: sys_inv_def calls_ok_def)
  then show ?thesis
    using inv cur k q acc c unfolding sys_inv_def calls_ok_def by (auto split: if_splits)
qed

text \<open>A step that leaves the calls alone and takes no task off the ready lists.\<close>

lemma sys_inv_steady:
  assumes inv: "sys_inv T N idle s"
    and k: "kernel_inv T (event_lists N) (kern s')" "steady T (kern s) (kern s')"
    and q: "\<And>i. i < N \<Longrightarrow> queue_good T i (queues s' i) \<and> queue_kept T (queues s i) (queues s' i)"
    and acc: "accounts T N (queues s') (tcb (kern s'))" and c: "calls s' = calls s"
  shows "sys_inv T N idle s'"
proof -
  have cr: "kernel_core T (event_lists N) {} (kern s)" using inv by (simp add: sys_inv_def kernel_inv_def)
  obtain t where t: "t < T" "pxCurrentTCB (kern s) = Some t" using current_task [OF cr] by blast
  have co: "call_ok N (queues s) t (calls s t)" "ticks_left (pc_of (calls s t))" "\<not> may_wait (pc_of (calls s idle))"
    and ro: "running_ok (kern s) t (pc_of (calls s t))" and idle: "idle < T" "is_ready (kern s) idle"
    using inv t by (auto simp: sys_inv_def calls_ok_def)
  have "call_ok N (queues s') t (calls s t)"
    by (rule call_ok_kept [OF co(1), of T]) (use q t in auto)
  moreover have "queue_kept t (queues s i) (queues s' i)" if "i < N" for i
  proof -
    have "pxMutexHolder (queues s i) = Some u \<Longrightarrow> u < T" for u
      using inv that by (auto simp: sys_inv_def queue_good_def split: if_splits)
    then show ?thesis using q [OF that] by (auto simp: queue_kept_def)
  qed
  ultimately show ?thesis
    using inv k q acc c co ro t idle running_ok_steady [OF k(2) t(1) ro]
    by (intro sys_inv_step [OF inv t(2), where c = "calls s t"]) (auto simp: steady_def sys_inv_def)
qed

section \<open>The tick and the switch\<close>

lemma systick_spec:
  assumes "kernel_inv T Q k"
  shows "\<exists>k'. xPortSysTickHandler k = Some k' \<and> kernel_inv T Q k' \<and> steady T k k' \<and> tcb k' = tcb k"
proof (cases "uxSchedulerSuspended k = 0")
  case True
  obtain sw k' where k': "xTaskIncrementTick k = Some (sw, k')" "kernel_inv T Q k'" "ticked T k k'"
    using tick_spec [OF assms True] by blast
  have core: "kernel_core T Q {} k" and del: "delays_ok T k" using assms by (simp_all add: kernel_inv_def)
  have "is_ready k' u" if "u < T" "is_ready k u" for u
    using that k'(3) by (auto simp: ticked_def)
  then have "steady T k k'" "tcb k' = tcb k" using k'(3) by (auto simp: steady_def ticked_def)
  moreover have "steady T k (portYIELD k')" if "steady T k k'" using that by (simp add: steady_def portYIELD_def)
  moreover have "tcb (portYIELD k') = tcb k'" "kernel_inv T Q (portYIELD k')" using k'(2) by (simp_all add: portYIELD_def)
  ultimately show ?thesis using k'(1,2) by (auto simp: xPortSysTickHandler_def)
next
  case False
  let ?k = "k\<lparr>uxPendedTicks := uxPendedTicks k + 1\<rparr>"
  have "steady T k ?k" "steady T k (portYIELD ?k)" by (simp_all add: steady_def portYIELD_def)
  moreover have "tcb (portYIELD ?k) = tcb k" "kernel_inv T Q (portYIELD ?k)" using assms by (simp_all add: portYIELD_def)
  ultimately show ?thesis using False assms by (auto simp: xPortSysTickHandler_def xTaskIncrementTick_def)
qed

lemma inv_systick:
  assumes "sys_inv T N idle s"
  shows "\<exists>k. xPortSysTickHandler (kern s) = Some k \<and> sys_inv T N idle (set_kern k s)"
proof -
  obtain k where k: "xPortSysTickHandler (kern s) = Some k" "kernel_inv T (event_lists N) k" "steady T (kern s) k"
    "tcb k = tcb (kern s)"
    using systick_spec [of T "event_lists N" "kern s"] assms by (auto simp: sys_inv_def)
  have "sys_inv T N idle (set_kern k s)"
    by (rule sys_inv_steady [OF assms]) (use assms k in \<open>auto simp: set_kern_def sys_inv_def\<close>)
  then show ?thesis using k(1) by blast
qed

lemma inv_switch:
  assumes "sys_inv T N idle s" "pendsv (kern s)"
  shows "\<exists>k. xPortPendSVHandler (kern s) = Some k \<and> sys_inv T N idle (set_kern k s)"
proof -
  let ?k = "kern s\<lparr>pendsv := False\<rparr>"
  have ki: "kernel_inv T (event_lists N) ?k" using assms(1) by (simp add: sys_inv_def)
  have idle: "idle < T" "is_ready ?k idle" using assms(1) by (auto simp: sys_inv_def)
  have cr: "kernel_core T (event_lists N) {} (kern s)" using assms(1) by (simp add: sys_inv_def kernel_inv_def)
  obtain t where t: "t < T" "pxCurrentTCB (kern s) = Some t" using current_task [OF cr] by blast
  have ro: "running_ok (kern s) t (pc_of (calls s t))" using assms(1) t by (simp add: sys_inv_def)
  show ?thesis
  proof (cases "uxSchedulerSuspended (kern s) = 0")
    case True
    obtain u h where u: "vTaskSwitchContext ?k = Some (?k\<lparr>xYieldPending := False, heap := h, pxCurrentTCB := Some u\<rparr>)"
      "kernel_inv T (event_lists N) (?k\<lparr>xYieldPending := False, heap := h, pxCurrentTCB := Some u\<rparr>)" "items h = items (heap ?k)"
      "u < T" "is_ready ?k u"
      using switch_spec [OF ki _ idle] True by auto
    let ?k' = "?k\<lparr>xYieldPending := False, heap := h, pxCurrentTCB := Some u\<rparr>"
    have it: "item_container ?k' = item_container (kern s)" using u(3) by (auto simp: item_container_def)
    have rest: "resting (pc_of (calls s v))" if "v < T" for v
      using assms(1) that t ro True by (cases "v = t") (auto simp: sys_inv_def calls_ok_def running_ok_def split: if_splits)
    have "running_ok ?k' u (pc_of (calls s u))"
      using rest [OF u(4)] u(5) True it by (simp add: running_ok_def)
    then have "sys_inv T N idle (set_kern ?k' s)"
      using assms(1) u(2,4) it rest by (auto simp: sys_inv_def set_kern_def calls_ok_def)
    then show ?thesis using u(1) by (auto simp: xPortPendSVHandler_def)
  next
    case False
    let ?k' = "?k\<lparr>xYieldPending := True\<rparr>"
    have op: "xPortPendSVHandler (kern s) = Some ?k'"
      using False by (simp add: xPortPendSVHandler_def vTaskSwitchContext_def)
    have "running_ok ?k' t (pc_of (calls s t))"
      using ro False by (auto simp: running_ok_def split: if_splits)
    then have "sys_inv T N idle (set_kern ?k' s)"
      using assms(1) t(2) by (auto simp: sys_inv_def set_kern_def calls_ok_def)
    then show ?thesis using op by blast
  qed
qed

section \<open>Interrupts\<close>

lemma sys_inv_simps:
  assumes "sys_inv T N idle s"
  shows "kernel_inv T (event_lists N) (kern s)" "xSchedulerRunning (kern s)" "idle < T" "is_ready (kern s) idle"
    "accounts T N (queues s) (tcb (kern s))" "calls_ok T N idle s"
  using assms by (simp_all add: sys_inv_def)

lemma sys_inv_queue:
  assumes "sys_inv T N idle s" "i < N"
  shows "queue_good T i (queues s i)" "queue_ok (queues s i)" "queue_lists (event_lists N) (queues s i)"
  using assms by (auto simp: sys_inv_def queue_good_def queue_lists_def event_lists_def)

lemma sys_inv_current:
  assumes "sys_inv T N idle s"
  obtains t where "t < T" "pxCurrentTCB (kern s) = Some t" "running_ok (kern s) t (pc_of (calls s t))"
  using assms current_task [of T "event_lists N" "{}" "kern s"] by (auto simp: sys_inv_def kernel_inv_def)

lemma held_same: "(\<And>i. i < N \<Longrightarrow> pxMutexHolder (qs' i) = pxMutexHolder (qs i)) \<Longrightarrow> mutexes_held N qs' t = mutexes_held N qs t"
  by (auto simp: mutexes_held_def)

lemma accounts_same:
  "accounts T N qs tc \<Longrightarrow> (\<And>i. i < N \<Longrightarrow> pxMutexHolder (qs' i) = pxMutexHolder (qs i)) \<Longrightarrow> accounts T N qs' tc"
  using held_same [of N qs' qs] by (simp add: accounts_def)

lemma steady_end_switching: "steady T k k' \<Longrightarrow> steady T k (portEND_SWITCHING_ISR y k')"
  by (simp add: steady_def portEND_SWITCHING_ISR_def portYIELD_def)

lemma end_switching_simps [simp]:
  "kernel_inv T Q (portEND_SWITCHING_ISR y k) = kernel_inv T Q k" "tcb (portEND_SWITCHING_ISR y k) = tcb k"
  by (simp_all add: portEND_SWITCHING_ISR_def portYIELD_def)

lemma inv_isr:
  assumes "sys_inv T N idle s" "i < N" "\<not> is_mutex (queues s i)"
    and q: "queue_ok q" "same_shape (queues s i) q" and k: "serves T (event_lists N) (kern s) k" "tcb k = tcb (kern s)"
  shows "sys_inv T N idle (set_queue i q (set_kern (portEND_SWITCHING_ISR y k) s))"
proof -
  have g: "queue_good T i (queues s i)" using assms(1,2) by (rule sys_inv_queue)
  have "queue_good T i q" using g q assms(3) by (auto simp: queue_good_def same_shape_def)
  moreover have "accounts T N ((queues s)(i := q)) (tcb (kern s))"
    by (rule accounts_same [OF sys_inv_simps(5) [OF assms(1)]]) (use q(2) in \<open>simp add: same_shape_def\<close>)
  ultimately show ?thesis
    using k sys_inv_queue(1) [OF assms(1)] q(2)
    by (intro sys_inv_steady [OF assms(1)])
      (auto simp: set_queue_def set_kern_def steady_end_switching serves_steady serves_inv queue_kept_def same_shape_def)
qed

section \<open>The steps of a call on its way to wait\<close>

text \<open>What the step of one task leaves of the others.\<close>

definition advance :: "nat \<Rightarrow> nat set \<Rightarrow> nat \<Rightarrow> kernel \<Rightarrow> kernel \<Rightarrow> bool" where
  "advance T Q t k k' \<longleftrightarrow> kernel_inv T Q k' \<and> pxCurrentTCB k' = pxCurrentTCB k \<and> xSchedulerRunning k' = xSchedulerRunning k \<and>
     (\<forall>u < T. u \<noteq> t \<longrightarrow> is_ready k u \<longrightarrow> is_ready k' u) \<and> task_effect T t k k'"

lemma serves_effect: "serves T Q k k' \<Longrightarrow> task_effect T t k k'"
  using kept_clock by (auto simp: serves_def task_effect_def)

lemma serves_advance: "serves T Q k k' \<Longrightarrow> advance T Q t k k'"
  using serves_effect by (simp add: serves_def advance_def kept_def)

lemma parked_advance: "parked T Q t l k k' \<Longrightarrow> advance T Q t k k'"
  using kept_clock by (auto simp: parked_def advance_def kept_def task_effect_def)

definition locks_only :: "queue \<Rightarrow> queue \<Rightarrow> bool" where
  "locks_only q q' \<longleftrightarrow> same_shape q q' \<and> queue_ok q' = queue_ok q \<and> queue_items q' = queue_items q \<and>
     uxMessagesWaiting q' = uxMessagesWaiting q"

lemma locks_only_simps [simp]:
  "locks_only q q" "locks_only q (prvLockQueue q)" "locks_only q (q\<lparr>xTxLock := n\<rparr>)" "locks_only q (q\<lparr>xRxLock := n\<rparr>)"
  by (simp_all add: locks_only_def) (simp add: prvLockQueue_def Let_def)

lemma check_ticks: "xTaskCheckForTimeOut c e n = (timed_out, e', n') \<Longrightarrow> n \<noteq> 0 \<Longrightarrow> \<not> timed_out \<Longrightarrow> n' \<noteq> 0"
  by (auto simp: xTaskCheckForTimeOut_def Let_def split: if_splits)

definition waiting :: "pc \<Rightarrow> bool" where
  "waiting c \<longleftrightarrow> \<not> returned (Some c) \<and> (\<forall>e n. c \<noteq> Trying e n)"

lemma wait_step_spec:
  assumes inv: "kernel_inv T Q k" "queue_lists Q q" and t: "t < T" "pxCurrentTCB k = Some t" "\<not> pendsv k"
    and c: "waiting c" "ticks_left (Some c)" "running_ok k t (Some c)"
    and place: "\<And>n. n \<noteq> 0 \<Longrightarrow> is_ready k t \<Longrightarrow> \<exists>k'. place n q k = Some k' \<and> parked T Q t l k k' \<and> P (tcb k')" and P: "P (tcb k)"
  shows "\<exists>c' q' k'. wait_step blk place c q k = Some (c', q', k') \<and> locks_only q q' \<and> advance T Q t k k' \<and>
    running_ok k' t (Some c') \<and> ticks_left (Some c') \<and> P (tcb k') \<and> (\<forall>d. c' \<noteq> Returned (Some d))"
proof (cases c)
  case (Must_wait e n)
  have s: "uxSchedulerSuspended k = 0" "is_ready k t" using c(3) t(3) Must_wait by (auto simp: running_ok_def)
  have "kernel_inv T Q (vTaskSuspendAll k)" using vTaskSuspendAll_spec [OF inv(1)] s(1) by simp
  moreover have "task_effect T t k (vTaskSuspendAll k)" using s(1) by (simp add: task_effect_def)
  ultimately have "advance T Q t k (vTaskSuspendAll k)" "running_ok (vTaskSuspendAll k) t (Some (Scheduler_suspended e n))"
    using s by (simp_all add: advance_def running_ok_def vTaskSuspendAll_def)
  then show ?thesis using Must_wait c(2) P by (simp add: vTaskSuspendAll_def)
next
  case (Scheduler_suspended e n)
  then show ?thesis using inv(1) c(2,3) P by (auto simp: advance_def running_ok_def)
next
  case (Queue_locked e n)
  obtain to e' n' where "xTaskCheckForTimeOut (counters k) e n = (to, e', n')" by (metis prod_cases3)
  then show ?thesis
    using Queue_locked inv(1) c(2,3) P check_ticks [of "counters k" e n to e' n'] by (auto simp: advance_def running_ok_def)
next
  case (Not_timed_out e n)
  then show ?thesis using inv(1) c(2,3) P by (auto simp: advance_def running_ok_def)
next
  case (Place e n)
  have "uxSchedulerSuspended k = 1" "is_ready k t" "n \<noteq> 0" using c(2,3) Place by (auto simp: running_ok_def)
  then obtain k' where k': "place n q k = Some k'" "parked T Q t l k k'" "P (tcb k')" using place by blast
  then have "running_ok k' t (Some (Unlock_tx Yield e n))"
    using \<open>uxSchedulerSuspended k = 1\<close> by (simp add: running_ok_def parked_def kept_def)
  then show ?thesis using Place k' parked_advance by auto
next
  case (Unlock_tx a e n)
  obtain k' where k': "unlock_tx q k = Some (q\<lparr>xTxLock := queueUNLOCKED\<rparr>, k')" "serves T Q k k'" "tcb k' = tcb k"
    using unlock_tx_spec [OF inv] by blast
  have "running_ok k' t (Some (Unlock_rx a e n))"
    using running_ok_steady [OF serves_steady [OF k'(2)] t(1) c(3)] Unlock_tx by (simp add: running_ok_def)
  then show ?thesis using Unlock_tx k' P serves_advance by auto
next
  case (Unlock_rx a e n)
  obtain k' where k': "unlock_rx q k = Some (q\<lparr>xRxLock := queueUNLOCKED\<rparr>, k')" "serves T Q k k'" "tcb k' = tcb k"
    using unlock_rx_spec [OF inv] by blast
  have "running_ok k' t (Some (Resume a e n))"
    using running_ok_steady [OF serves_steady [OF k'(2)] t(1) c(3)] Unlock_rx by (simp add: running_ok_def)
  then show ?thesis using Unlock_rx k' P serves_advance by auto
next
  case (Resume a e n)
  have s: "uxSchedulerSuspended k = 1" "a = Yield \<or> is_ready k t" using c(3) Resume by (auto simp: running_ok_def)
  obtain y k1 where k1: "xTaskResumeAll k = Some (y, k1)" "kernel_inv T Q k1" "undisturbed T k k1" "uxSchedulerSuspended k1 = 0"
    "y \<longrightarrow> pendsv k1"
    using resume_spec [OF inv(1)] s(1) by auto
  define k' where "k' = (if a = Yield \<and> \<not> y then portYIELD k1 else k1)"
  have "task_effect T t k k'" using k1(1) by (auto simp: task_effect_def k'_def)
  then have "advance T Q t k k'" "tcb k' = tcb k"
    using k1(2,3) by (auto simp: advance_def undisturbed_def k'_def portYIELD_def)
  moreover have "is_ready k' t \<or> pendsv k'" "uxSchedulerSuspended k' = 0"
    using s(2) k1(3-5) t(1) by (auto simp: undisturbed_def k'_def portYIELD_def)
  ultimately show ?thesis using Resume k1(1) P by (auto simp: running_ok_def simp flip: k'_def)
qed (use c(1) in \<open>auto simp: waiting_def\<close>)

section \<open>The steps of a call\<close>

definition step_good :: "nat \<Rightarrow> nat \<Rightarrow> nat \<Rightarrow> nat \<Rightarrow> system \<Rightarrow> nat \<Rightarrow> pc \<Rightarrow> queue \<Rightarrow> kernel \<Rightarrow> bool" where
  "step_good T N idle t s i c q' k' \<longleftrightarrow> advance T (event_lists N) t (kern s) k' \<and> is_ready k' idle \<and> queue_good T i q' \<and>
     queue_kept t (queues s i) q' \<and> accounts T N ((queues s)(i := q')) (tcb k') \<and> running_ok k' t (Some c) \<and>
     ticks_left (Some c) \<and> (t = idle \<longrightarrow> \<not> may_wait (Some c))"

lemma step_good_inv:
  assumes "sys_inv T N idle s" "pxCurrentTCB (kern s) = Some t" "i < N" "step_good T N idle t s i c q' k'"
    and "call_ok N ((queues s)(i := q')) t C" "pc_of C = Some c"
  shows "sys_inv T N idle (set_call t C (s\<lparr>kern := k', queues := (queues s)(i := q')\<rparr>))"
proof (rule sys_inv_step [OF assms(1,2)])
  show "queue_good T j (queues (set_call t C (s\<lparr>kern := k', queues := (queues s)(i := q')\<rparr>)) j) \<and>
      queue_kept t (queues s j) (queues (set_call t C (s\<lparr>kern := k', queues := (queues s)(i := q')\<rparr>)) j)" if "j < N" for j
    using assms(4) sys_inv_queue(1) [OF assms(1) that] by (simp add: step_good_def set_call_def)
qed (use assms sys_inv_simps(2) [OF assms(1)] in \<open>auto simp: step_good_def set_call_def advance_def\<close>)

lemma step_good_effect: "step_good T N idle t s i c q' k' \<Longrightarrow> task_effect T t (kern s) k'"
  by (simp add: step_good_def advance_def)

lemma accounts_priority:
  assumes "accounts T N qs tc" "i < N" "pxMutexHolder (qs i) = Some h" "h < T"
  shows "accounts T N qs (tc(h := (tc h)\<lparr>uxPriority := p\<rparr>))"
proof -
  have "i \<in> mutexes_held N qs h" using assms(2,3) by (simp add: mutexes_held_def)
  moreover have "finite (mutexes_held N qs h)" by (simp add: mutexes_held_def)
  ultimately have "card (mutexes_held N qs h) \<noteq> 0" by auto
  then have "uxMutexesHeld (tc h) \<noteq> 0" using assms(1,4) by (auto simp: accounts_def)
  then show ?thesis using assms(1) by (simp add: accounts_def)
qed

lemma queue_good_locks: "locks_only q q' \<Longrightarrow> queue_good T i q \<Longrightarrow> queue_good T i q'"
  by (auto simp: locks_only_def same_shape_def queue_good_def)

lemma queue_good_shape: "same_shape q q' \<Longrightarrow> queue_ok q' \<Longrightarrow> \<not> is_mutex q \<Longrightarrow> queue_good T i q \<Longrightarrow> queue_good T i q'"
  by (auto simp: same_shape_def queue_good_def)

lemma queue_kept_shape: "same_shape q q' \<Longrightarrow> queue_kept t q q'"
  by (simp add: same_shape_def queue_kept_def)

text \<open>The steps on the way to wait.\<close>

lemma waiting_step:
  assumes inv: "sys_inv T N idle s" and t: "runs t s" "t < T" and i: "i < N" "queues s i = q"
    and c: "waiting c" "pc_of (calls s t) = Some c"
    and place: "\<And>n. n \<noteq> 0 \<Longrightarrow> is_ready (kern s) t \<Longrightarrow> \<exists>k'. place n q (kern s) = Some k' \<and>
      parked T (event_lists N) t l (kern s) k' \<and> accounts T N (queues s) (tcb k')"
  shows "\<exists>c' q' k'. wait_step blk place c q (kern s) = Some (c', q', k') \<and> locks_only q q' \<and>
    step_good T N idle t s i c' q' k' \<and> (\<forall>d. c' \<noteq> Returned (Some d))"
proof -
  have cur: "pxCurrentTCB (kern s) = Some t" "\<not> pendsv (kern s)" using t(1) by (simp_all add: runs_def)
  have ro: "running_ok (kern s) t (Some c)" "ticks_left (Some c)"
    using inv t(2) cur(1) c(2) by (auto simp: sys_inv_def calls_ok_def)
  have "may_wait (Some c)" using c(1) by (cases c) (auto simp: waiting_def)
  then have ti: "t \<noteq> idle" using inv c(2) by (auto simp: sys_inv_def calls_ok_def)
  obtain c' q' k' where s': "wait_step blk place c q (kern s) = Some (c', q', k')" "locks_only q q'"
    "advance T (event_lists N) t (kern s) k'" "running_ok k' t (Some c')" "ticks_left (Some c')"
    "accounts T N (queues s) (tcb k')" "\<forall>d. c' \<noteq> Returned (Some d)"
    using wait_step_spec [OF sys_inv_simps(1) [OF inv] sys_inv_queue(3) [OF inv i(1), unfolded i(2)] t(2) cur c(1) ro(2,1), of place l
        "accounts T N (queues s)" blk] place sys_inv_simps(5) [OF inv] by blast
  have "accounts T N ((queues s)(i := q')) (tcb k')"
    by (rule accounts_same [OF s'(6)]) (use s'(2) i(2) in \<open>simp add: locks_only_def same_shape_def\<close>)
  moreover have "queue_good T i q'" using queue_good_locks [OF s'(2)] sys_inv_queue(1) [OF inv i(1)] i(2) by simp
  moreover have "queue_kept t q q'" using s'(2) by (simp add: locks_only_def queue_kept_shape)
  moreover have "is_ready k' idle" using s'(3) ti sys_inv_simps(3,4) [OF inv] by (simp add: advance_def)
  ultimately have "step_good T N idle t s i c' q' k'" using s' ti i(2) by (simp add: step_good_def)
  then show ?thesis using s'(1,2,7) by blast
qed

text \<open>The critical section at the top of the loop.\<close>

lemma try_good:
  assumes inv: "sys_inv T N idle s" and t: "runs t s" "t < T" and c: "pc_of (calls s t) = Some (Trying e n)"
    and k: "serves T (event_lists N) (kern s) k'" and q: "queue_good T i q'" "queue_kept t (queues s i) q'"
    and acc: "accounts T N ((queues s)(i := q')) (tcb k')" and c': "(\<exists>r. c' = Returned r) \<or> c' = wait_or_fail e n k0"
  shows "step_good T N idle t s i c' q' k'"
proof -
  have cur: "pxCurrentTCB (kern s) = Some t" "\<not> pendsv (kern s)" using t(1) by (simp_all add: runs_def)
  have ro: "running_ok (kern s) t (Some (Trying e n))" "t = idle \<longrightarrow> n = 0"
    using inv t(2) cur(1) c by (auto simp: sys_inv_def calls_ok_def)
  have r: "is_ready (kern s) t" "n \<noteq> 0 \<longrightarrow> uxSchedulerSuspended (kern s) = 0" using ro(1) cur(2) by (auto simp: running_ok_def)
  have c'': "resting (Some c')" "ticks_left (Some c')" "may_wait (Some c') \<longrightarrow> n \<noteq> 0"
    using c' by (auto simp: wait_or_fail_def split: option.splits)
  have "is_ready k' t" "uxSchedulerSuspended k' = uxSchedulerSuspended (kern s)"
    using k r(1) t(2) by (auto simp: serves_def kept_def)
  then have "running_ok k' t (Some c')" using c'' r(2) by (simp add: running_ok_def)
  moreover have "is_ready k' idle" using k sys_inv_simps(3,4) [OF inv] by (simp add: serves_def)
  ultimately show ?thesis using k q acc c'' ro(2) serves_advance by (auto simp: step_good_def)
qed

text \<open>Taking and giving a mutex in the accounts.\<close>

lemma held_take:
  assumes "i < N" "pxMutexHolder (qs i) = None" "pxMutexHolder q = Some t"
  shows "mutexes_held N (qs(i := q)) t = insert i (mutexes_held N qs t)" "i \<notin> mutexes_held N qs t"
    "u \<noteq> t \<Longrightarrow> mutexes_held N (qs(i := q)) u = mutexes_held N qs u"
  using assms by (auto simp: mutexes_held_def)

lemma held_finite [simp]: "finite (mutexes_held N qs t)"
  by (simp add: mutexes_held_def)

lemma accounts_take:
  assumes "accounts T N qs tc" "i < N" "N < 2 ^ 32" "pxMutexHolder (qs i) = None" "pxMutexHolder q = Some t" "t < T"
  shows "accounts T N (qs(i := q)) (tc(t := (tc t)\<lparr>uxMutexesHeld := uxMutexesHeld (tc t) + 1\<rparr>))"
proof -
  note h = held_take [of i N qs q t, OF assms(2,4,5)]
  have "card (insert i (mutexes_held N qs t)) \<le> card {..<N}"
    using assms(2) by (intro card_mono) (auto simp: mutexes_held_def)
  then have "card (mutexes_held N qs t) + 1 < 2 ^ 32" using h(2) assms(3) by simp
  then have "unat (uxMutexesHeld (tc t)) + 1 < 2 ^ 32" using assms(1,6) by (simp add: accounts_def)
  then have u: "unat (uxMutexesHeld (tc t) + 1) = unat (uxMutexesHeld (tc t)) + 1"
    by (simp add: unat_word_ariths)
  then have "uxMutexesHeld (tc t) + 1 \<noteq> 0" by (metis add_is_0 one_neq_zero unat_0)
  then show ?thesis using assms(1,6) h u by (simp add: accounts_def)
qed

lemma accounts_give:
  assumes "accounts T N qs tc" "i < N" "pxMutexHolder (qs i) = Some t" "pxMutexHolder q = None" "t < T"
  shows "uxMutexesHeld (tc t) \<noteq> 0"
    "accounts T N (qs(i := q)) (tc(t := (tc t)\<lparr>uxMutexesHeld := uxMutexesHeld (tc t) - 1,
      uxPriority := if uxMutexesHeld (tc t) = 1 then uxBasePriority (tc t) else uxPriority (tc t)\<rparr>))"
proof -
  have h: "mutexes_held N qs t = insert i (mutexes_held N (qs(i := q)) t)" "i \<notin> mutexes_held N (qs(i := q)) t"
    "\<And>u. u \<noteq> t \<Longrightarrow> mutexes_held N (qs(i := q)) u = mutexes_held N qs u"
    using assms(2-4) by (auto simp: mutexes_held_def)
  then have c: "unat (uxMutexesHeld (tc t)) = Suc (card (mutexes_held N (qs(i := q)) t))"
    using assms(1,5) by (simp add: accounts_def)
  then show nz: "uxMutexesHeld (tc t) \<noteq> 0" by auto
  have u: "unat (uxMutexesHeld (tc t) - 1) = unat (uxMutexesHeld (tc t)) - 1" using nz by (rule unat_minus_one)
  have "uxMutexesHeld (tc t) = 1" if "uxMutexesHeld (tc t) - 1 = 0" using that by simp
  then show "accounts T N (qs(i := q)) (tc(t := (tc t)\<lparr>uxMutexesHeld := uxMutexesHeld (tc t) - 1,
      uxPriority := if uxMutexesHeld (tc t) = 1 then uxBasePriority (tc t) else uxPriority (tc t)\<rparr>))"
    using assms(1,5) h u c by (auto simp: accounts_def)
qed

lemma mutex_good:
  assumes "queue_good T i q" "is_mutex q"
  shows "uxLength q = 1" "uxItemSize q = 0" "uxMessagesWaiting q = 0 \<longleftrightarrow> pxMutexHolder q \<noteq> None"
    "pxMutexHolder q = Some h \<Longrightarrow> h < T" "uxMessagesWaiting q \<noteq> 0 \<Longrightarrow> uxMessagesWaiting q = 1"
proof -
  show l: "uxLength q = 1" "uxItemSize q = 0" "uxMessagesWaiting q = 0 \<longleftrightarrow> pxMutexHolder q \<noteq> None"
    "pxMutexHolder q = Some h \<Longrightarrow> h < T"
    using assms by (auto simp: queue_good_def queue_ok_def)
  assume "uxMessagesWaiting q \<noteq> 0"
  moreover have "messages q \<le> 1" using assms l(1) by (simp add: queue_good_def queue_ok_def)
  ultimately have "messages q = 1" using unat_gt_0 [of "uxMessagesWaiting q"] by linarith
  then show "uxMessagesWaiting q = 1" by (simp add: word_unat_eq_iff)
qed

lemma mutex_changed_good:
  assumes "queue_good T i q" "is_mutex q" "t < T"
  shows "queue_good T i (q\<lparr>uxMessagesWaiting := 0, pxMutexHolder := Some t\<rparr>)"
    "queue_good T i (q\<lparr>pxMutexHolder := None, uxMessagesWaiting := 1\<rparr>)"
  using assms by (simp_all add: queue_good_def queue_ok_def)

text \<open>A task is about to give a mutex that another task holds. The assertion in \<open>xTaskPriorityDisinherit\<close> stops it.\<close>

definition gives_foreign :: "nat \<Rightarrow> (nat \<Rightarrow> queue) \<Rightarrow> call \<Rightarrow> bool" where
  "gives_foreign t qs c \<longleftrightarrow> (\<exists>i item p e n h. c = Send i item p (Trying e n) \<and> is_mutex (qs i) \<and>
     pxMutexHolder (qs i) = Some h \<and> h \<noteq> t)"

lemma give_foreign_fails:
  assumes "is_mutex q" "uxItemSize q = 0" "uxMessagesWaiting q = 0" "uxLength q = 1"
    and "pxMutexHolder q = Some h" "pxCurrentTCB k = Some t" "h \<noteq> t"
  shows "send_try item p e n q k = None"
  using assms by (simp add: send_try_def prvCopyDataToQueue_def xTaskPriorityDisinherit_def)

lemma send_good:
  assumes inv: "sys_inv T N idle s" and t: "runs t s" "t < T" and call: "calls s t = Send i item p c" "\<not> returned (Some c)"
    and own: "\<not> gives_foreign t (queues s) (calls s t)"
  shows "\<exists>c' q' k'. send_step item p c (queues s i) (kern s) = Some (c', q', k') \<and> step_good T N idle t s i c' q' k' \<and>
    call_ok N ((queues s)(i := q')) t (Send i item p c')"
proof -
  let ?q = "queues s i" and ?Q = "event_lists N"
  have cur: "pxCurrentTCB (kern s) = Some t" "\<not> pendsv (kern s)" using t(1) by (simp_all add: runs_def)
  have co: "call_ok N (queues s) t (Send i item p c)" using inv t(2) call(1) by (auto simp: sys_inv_def calls_ok_def)
  then have i: "i < N" by simp
  note k = sys_inv_simps [OF inv] and g = sys_inv_queue [OF inv i]
  show ?thesis
  proof (cases "\<exists>e n. c = Trying e n")
    case False
    then have w: "waiting c" using call(2) by (simp add: waiting_def)
    have ss: "send_step item p c ?q (kern s) = wait_step prvIsQueueFull wait_to_send c ?q (kern s)"
      using False call(2) by (cases c) (auto simp: send_step_def)
    have pc: "pc_of (calls s t) = Some c" using call(1) by simp
    have pl: "\<exists>k'. wait_to_send n ?q (kern s) = Some k' \<and> parked T ?Q t (xTasksWaitingToSend ?q) (kern s) k' \<and>
        accounts T N (queues s) (tcb k')" if "n \<noteq> 0" "is_ready (kern s) t" for n
      using wait_to_send_spec [OF k(1) g(3) t(2) cur(1) that(2,1)] k(5) by auto
    obtain c' q' k' where st: "wait_step prvIsQueueFull wait_to_send c ?q (kern s) = Some (c', q', k')" "locks_only ?q q'"
      "step_good T N idle t s i c' q' k'"
      using waiting_step [OF inv t i refl [of ?q] w pc, of wait_to_send "xTasksWaitingToSend ?q" prvIsQueueFull] pl by blast
    have "call_ok N ((queues s)(i := q')) t (Send i item p c')"
      using co st(2) by (auto simp: locks_only_def same_shape_def send_ok_def may_send_def split: if_splits)
    then show ?thesis using ss st(1,3) by auto
  next
    case True
    then obtain e n where c: "c = Trying e n" by blast
    have pc: "pc_of (calls s t) = Some (Trying e n)" using call(1) c by simp
    have ss: "send_step item p c ?q (kern s) = send_try item p e n ?q (kern s)" by (simp add: send_step_def c)
    show ?thesis
    proof (cases "is_mutex ?q")
      case False
      then have so: "send_ok item p ?q" using co by (simp add: may_send_def)
      obtain c' q' k' where st: "send_try item p e n ?q (kern s) = Some (c', q', k')" "queue_ok q'" "moves_items ?q q'"
        "serves T ?Q (kern s) k'" "tcb k' = tcb (kern s)"
        "c' = Returned (Some []) \<or> c' = wait_or_fail e n (kern s)"
        using send_try_spec [OF k(1) g(3,2) False so, of e n] by (auto split: if_splits)
      note sh = same_shape_moves [OF st(3)]
      have "accounts T N ((queues s)(i := q')) (tcb k')"
        unfolding st(5) by (rule accounts_same [OF k(5)]) (use sh in \<open>simp add: same_shape_def\<close>)
      then have "step_good T N idle t s i c' q' k'"
        using try_good [OF inv t pc st(4) queue_good_shape [OF sh st(2) False g(1)] queue_kept_shape [OF sh]] st(6) by blast
      moreover have "call_ok N ((queues s)(i := q')) t (Send i item p c')"
        using i so False sh by (simp add: same_shape_def send_ok_def may_send_def)
      ultimately show ?thesis using ss st(1) by auto
    next
      case True
      note m = mutex_good [OF g(1) True]
      have p: "may_send item p ?q" "p \<noteq> OVERWRITE" using co True by (simp_all add: may_send_def)
      show ?thesis
      proof (cases "pxMutexHolder ?q")
        case None
        then have "uxMessagesWaiting ?q = uxLength ?q" using m(1,3,5) by simp
        then have st: "send_try item p e n ?q (kern s) = Some (wait_or_fail e n (kern s), ?q, kern s)"
          using p(2) by (simp add: send_try_def)
        have "step_good T N idle t s i (wait_or_fail e n (kern s)) ?q (kern s)"
          by (rule try_good [OF inv t pc _ g(1) queue_kept_refl, where ?k0.0 = "kern s"]) (use k(1,5) in simp_all)
        then show ?thesis using ss st i p(1) by auto
      next
        case (Some h')
        then have h: "pxMutexHolder ?q = Some t" using own call(1) c True by (auto simp: gives_foreign_def)
        have m0: "uxMessagesWaiting ?q = 0" using m(3) h by simp
        let ?q' = "?q\<lparr>pxMutexHolder := None, uxMessagesWaiting := 1\<rparr>"
        have r: "is_ready (kern s) t"
          using inv cur pc by (auto simp: sys_inv_def running_ok_def)
        note ag = accounts_give [OF k(5) i h, of ?q', OF _ t(2)]
        obtain k' where st: "send_try item p e n ?q (kern s) = Some (Returned (Some []), ?q', k')" "serves T ?Q (kern s) k'"
          "tcb k' = (tcb (kern s))(t := (tcb (kern s) t)\<lparr>uxMutexesHeld := uxMutexesHeld (tcb (kern s) t) - 1,
            uxPriority := if uxMutexesHeld (tcb (kern s) t) = 1 then uxBasePriority (tcb (kern s) t) else priority_of (kern s) t\<rparr>)"
          using give_mutex_spec [OF k(1) g(3) True m(2,1) m0 h t(2) cur(1) r] ag(1) by fastforce
        have "accounts T N ((queues s)(i := ?q')) (tcb k')" unfolding st(3) using ag(2) by simp
        moreover have "queue_kept t ?q ?q'" using h by (simp add: queue_kept_def)
        ultimately have "step_good T N idle t s i (Returned (Some [])) ?q' k'"
          using try_good [OF inv t pc st(2) mutex_changed_good(2) [OF g(1) True t(2)]] by blast
        then show ?thesis using ss st(1) i p True by (auto simp: may_send_def)
      qed
    qed
  qed
qed

lemma receive_mutex_empty:
  "uxMessagesWaiting q = 0 \<Longrightarrow> receive_try peek e n q k = Some (wait_or_fail e n k, q, k)"
  by (simp add: receive_try_def)

lemma receive_good:
  assumes inv: "sys_inv T N idle s" and t: "runs t s" "t < T" and pc: "pc_of (calls s t) = Some c" "\<not> returned (Some c)"
    and i: "i < N"
  shows "\<exists>c' q' k'. receive_step peek c (queues s i) (kern s) = Some (c', q', k') \<and> step_good T N idle t s i c' q' k'"
proof -
  let ?q = "queues s i" and ?Q = "event_lists N"
  have cur: "pxCurrentTCB (kern s) = Some t" "\<not> pendsv (kern s)" using t(1) by (simp_all add: runs_def)
  note k = sys_inv_simps [OF inv] and g = sys_inv_queue [OF inv i]
  show ?thesis
  proof (cases "\<exists>e n. c = Trying e n")
    case False
    then have w: "waiting c" using pc(2) by (simp add: waiting_def)
    have ss: "receive_step peek c ?q (kern s) = wait_step prvIsQueueEmpty wait_to_receive c ?q (kern s)"
      using False pc(2) by (cases c) (auto simp: receive_step_def)
    have pl: "\<exists>k'. wait_to_receive n ?q (kern s) = Some k' \<and> parked T ?Q t (xTasksWaitingToReceive ?q) (kern s) k' \<and>
        accounts T N (queues s) (tcb k')" if "n \<noteq> 0" "is_ready (kern s) t" for n
    proof -
      have h: "h < T" if "is_mutex ?q" "pxMutexHolder ?q = Some h" for h using mutex_good(4) [OF g(1)] that by blast
      from wait_to_receive_spec [OF k(1) g(3) t(2) cur(1) that(2,1) h]
      show ?thesis using k(5) accounts_priority [OF k(5) i] h by (auto split: if_splits option.splits)
    qed
    from waiting_step [OF inv t i refl [of ?q] w pc(1), of wait_to_receive "xTasksWaitingToReceive ?q" prvIsQueueEmpty] pl
    show ?thesis using ss by fastforce
  next
    case True
    then obtain e n where c: "c = Trying e n" by blast
    note pc' = pc(1) [unfolded c]
    have ss: "receive_step peek c ?q (kern s) = receive_try peek e n ?q (kern s)" by (simp add: receive_step_def c)
    have same: "step_good T N idle t s i c' ?q k'" if "serves T ?Q (kern s) k'" "tcb k' = tcb (kern s)"
      "(\<exists>r. c' = Returned r) \<or> c' = wait_or_fail e n (kern s)" for c' k'
      using try_good [OF inv t pc' that(1) g(1) queue_kept_refl _ that(3)] k(5) that(2) by simp
    show ?thesis
    proof (cases "is_mutex ?q")
      case False
      obtain c' q' k' where st: "receive_try peek e n ?q (kern s) = Some (c', q', k')" "queue_ok q'" "moves_items ?q q'"
        "serves T ?Q (kern s) k'" "tcb k' = tcb (kern s)"
        "(\<exists>r. c' = Returned r) \<or> c' = wait_or_fail e n (kern s)"
        using receive_try_spec [OF k(1) g(3,2) False, of peek e n] by (auto split: if_splits)
      note sh = same_shape_moves [OF st(3)]
      have "accounts T N ((queues s)(i := q')) (tcb k')"
        unfolding st(5) by (rule accounts_same [OF k(5)]) (use sh in \<open>simp add: same_shape_def\<close>)
      then have "step_good T N idle t s i c' q' k'"
        using try_good [OF inv t pc' st(4) queue_good_shape [OF sh st(2) False g(1)] queue_kept_shape [OF sh]] st(6) by blast
      then show ?thesis using ss st(1) by auto
    next
      case True
      note m = mutex_good [OF g(1) True]
      show ?thesis
      proof (cases "uxMessagesWaiting ?q = 0")
        case True
        then show ?thesis using ss receive_mutex_empty [OF True] same [of "kern s"] k(1) by auto
      next
        case ne: False
        show ?thesis
        proof (cases peek)
          case p: True
          have "0 < uxMessagesWaiting ?q" using ne by (simp add: word_gt_0)
          from peek_mutex_spec [OF k(1) g(3) m(2) this] show ?thesis using ss p same by fastforce
        next
          case p: False
          let ?q' = "?q\<lparr>uxMessagesWaiting := 0, pxMutexHolder := Some t\<rparr>"
          have h: "pxMutexHolder ?q = None" using m(3) ne by auto
          obtain k' where st: "receive_try peek e n ?q (kern s) = Some (Returned (Some []), ?q', k')" "serves T ?Q (kern s) k'"
            "tcb k' = (tcb (kern s))(t := (tcb (kern s) t)\<lparr>uxMutexesHeld := uxMutexesHeld (tcb (kern s) t) + 1\<rparr>)"
            using take_mutex_spec [OF k(1) g(3) True m(2) m(5) [OF ne] cur(1)] p by auto
          have "accounts T N ((queues s)(i := ?q')) (tcb k')"
            unfolding st(3) using accounts_take [OF k(5) i _ h _ t(2), of ?q'] inv by (simp add: sys_inv_def)
          moreover have "queue_kept t ?q ?q'" using h by (simp add: queue_kept_def)
          ultimately have "step_good T N idle t s i (Returned (Some [])) ?q' k'"
            using try_good [OF inv t pc' st(2) mutex_changed_good(1) [OF g(1) True t(2)]] by blast
          then show ?thesis using ss st(1) by auto
        qed
      qed
    qed
  qed
qed

text \<open>
  The next step of a call in progress exists unless it gives away what another task holds, whatever the other tasks and the interrupts did since the last one, and keeps the
  invariant.
\<close>

lemma step_good_count: "step_good T N idle t s i c q k \<Longrightarrow> step_good T N idle t s i c (q\<lparr>uxRecursiveCallCount := n\<rparr>) k"
  using accounts_same [of T N "(queues s)(i := q)" "tcb k" "(queues s)(i := q\<lparr>uxRecursiveCallCount := n\<rparr>)"]
  by (auto simp: step_good_def queue_good_def queue_ok_def queue_kept_def)

lemma inv_call_step:
  assumes inv: "sys_inv T N idle s" and t: "runs t s" and c: "pc_of (calls s t) = Some pc" "\<not> returned (Some pc)"
    and own: "\<not> gives_foreign t (queues s) (calls s t)"
  shows "\<exists>c qs k. call_step (calls s t) (queues s) (kern s) = Some (c, qs, k) \<and> task_effect T t (kern s) k \<and>
    sys_inv T N idle (set_call t c (s\<lparr>kern := k, queues := qs\<rparr>))"
proof -
  have cur: "pxCurrentTCB (kern s) = Some t" using t by (simp add: runs_def)
  then have tT: "t < T" using sys_inv_current [OF inv] by (metis option.inject)
  have co: "call_ok N (queues s) t (calls s t)" using inv tT by (simp add: sys_inv_def calls_ok_def)
  show ?thesis
  proof (cases "calls s t")
    case Application
    then show ?thesis using c by simp
  next
    case (Send i item p c0)
    then obtain c' q' k' where st: "send_step item p c0 (queues s i) (kern s) = Some (c', q', k')"
      "step_good T N idle t s i c' q' k'" "call_ok N ((queues s)(i := q')) t (Send i item p c')"
      using send_good [OF inv t tT Send _ own] Send c by auto
    have "i < N" using co Send by simp
    from step_good_inv [OF inv cur this st(2,3)] st(1) step_good_effect [OF st(2)] Send show ?thesis by simp
  next
    case (Receive i peek c0)
    have i: "i < N" using co Receive by simp
    obtain c' q' k' where st: "receive_step peek c0 (queues s i) (kern s) = Some (c', q', k')"
      "step_good T N idle t s i c' q' k'"
      using receive_good [OF inv t tT c i, of peek] Receive c by auto
    from step_good_inv [OF inv cur i st(2), of "Receive i peek c'"] st(1) step_good_effect [OF st(2)] Receive i show ?thesis by simp
  next
    case (Take_recursive i c0)
    have i: "i < N" "is_mutex (queues s i)" using co Take_recursive by simp_all
    obtain c' q' k' where st: "receive_step False c0 (queues s i) (kern s) = Some (c', q', k')"
      "step_good T N idle t s i c' q' k'"
      using receive_good [OF inv t tT c i(1), of False] Take_recursive c by auto
    define q2 where "q2 = (case c' of Returned (Some _) \<Rightarrow> q'\<lparr>uxRecursiveCallCount := uxRecursiveCallCount q' + 1\<rparr> | _ \<Rightarrow> q')"
    have g2: "step_good T N idle t s i c' q2 k'"
      using st(2) step_good_count by (auto simp: q2_def split: pc.splits option.splits)
    then have "is_mutex q2" using i(2) by (simp add: step_good_def queue_kept_def)
    moreover have "call_step (calls s t) (queues s) (kern s) = Some (Take_recursive i c', (queues s)(i := q2), k')"
      using st(1) Take_recursive by (simp add: take_recursive_step_def q2_def)
    ultimately show ?thesis
      using step_good_inv [OF inv cur i(1) g2, of "Take_recursive i c'"] step_good_effect [OF g2] i by simp
  qed
qed

section \<open>The other steps\<close>

lemma inv_start:
  assumes inv: "sys_inv T N idle s" and t: "runs t s" "calls s t = Application"
    and q: "i < N" "queue_good T i q" "queue_kept t (queues s i) q" "pxMutexHolder q = pxMutexHolder (queues s i)"
    and c: "call_ok N ((queues s)(i := q)) t c" "pc_of c = Some (Trying None n) \<or> (\<exists>r. pc_of c = Some (Returned r))"
      "may_wait (pc_of c) \<longrightarrow> t \<noteq> idle \<and> uxSchedulerSuspended (kern s) = 0"
  shows "sys_inv T N idle (set_call t c (set_queue i q s))"
proof -
  have cur: "pxCurrentTCB (kern s) = Some t" using t(1) by (simp add: runs_def)
  have r: "is_ready (kern s) t" using inv cur t by (auto simp: sys_inv_def running_ok_def runs_def)
  have p: "resting (pc_of c)" "ticks_left (pc_of c)" using c(2) by auto
  have "accounts T N ((queues s)(i := q)) (tcb (kern s))"
    by (rule accounts_same [OF sys_inv_simps(5) [OF inv]]) (use q(4) in simp)
  then show ?thesis
    using sys_inv_simps [OF inv] sys_inv_queue(1) [OF inv] cur q c(1,3) p r
    by (intro sys_inv_step [OF inv cur, where c = c]) (auto simp: set_call_def set_queue_def running_ok_def)
qed

lemma set_queue_same: "set_queue i (queues s i) s = s"
  by (simp add: set_queue_def)

lemma entry_state:
  assumes "sys_inv T N idle s" "\<not> (xTaskGetSchedulerState (kern s) = taskSCHEDULER_SUSPENDED \<and> n \<noteq> 0)"
  shows "n \<noteq> 0 \<longrightarrow> uxSchedulerSuspended (kern s) = 0"
  using assms sys_inv_simps(2) [OF assms(1)] by (auto simp: xTaskGetSchedulerState_def split: if_splits)

lemma inv_call_send:
  assumes "sys_inv T N idle s" "runs t s" "calls s t = Application" "i < N" "may_send item p (queues s i)" "n \<noteq> 0 \<longrightarrow> t \<noteq> idle"
    and "xQueueGenericSend (Some item) p n (queues s i) (kern s) = Some c"
  shows "sys_inv T N idle (set_call t (Send i item p c) s)"
proof -
  have c: "c = Trying None n" and s: "\<not> (xTaskGetSchedulerState (kern s) = taskSCHEDULER_SUSPENDED \<and> n \<noteq> 0)"
    using assms(7) by (auto simp: xQueueGenericSend_def split: if_splits)
  have co: "call_ok N ((queues s)(i := queues s i)) t (Send i item p c)" using assms(4,5) c by (simp add: may_send_def)
  have "sys_inv T N idle (set_call t (Send i item p c) (set_queue i (queues s i) s))"
    by (rule inv_start [OF assms(1-4) sys_inv_queue(1) [OF assms(1,4)] queue_kept_refl refl co])
      (use entry_state [OF assms(1) s] c assms(6) in simp_all)
  then show ?thesis by (simp add: set_queue_same)
qed

lemma inv_call_receive:
  assumes "sys_inv T N idle s" "runs t s" "calls s t = Application" "i < N" "n \<noteq> 0 \<longrightarrow> t \<noteq> idle"
    and "xQueueGenericReceive b n (queues s i) (kern s) = Some c"
  shows "sys_inv T N idle (set_call t (Receive i peek c) s)" "c = Trying None n"
    "n \<noteq> 0 \<longrightarrow> uxSchedulerSuspended (kern s) = 0"
proof -
  have s: "\<not> (xTaskGetSchedulerState (kern s) = taskSCHEDULER_SUSPENDED \<and> n \<noteq> 0)"
    using assms(6) by (auto simp: xQueueGenericReceive_def split: if_splits)
  show c: "c = Trying None n" using assms(6) by (auto simp: xQueueGenericReceive_def split: if_splits)
  show e: "n \<noteq> 0 \<longrightarrow> uxSchedulerSuspended (kern s) = 0" by (rule entry_state [OF assms(1) s])
  show "sys_inv T N idle (set_call t (Receive i peek c) s)"
    using inv_start [OF assms(1-4) sys_inv_queue(1) [OF assms(1,4)] queue_kept_refl refl, of "Receive i peek c" n] e c assms(4,5)
    by (simp add: set_queue_same)
qed

lemma inv_call_take:
  assumes "sys_inv T N idle s" "runs t s" "calls s t = Application" "i < N" "is_mutex (queues s i)" "n \<noteq> 0 \<longrightarrow> t \<noteq> idle"
    and "xQueueTakeMutexRecursive n (queues s i) (kern s) = Some (c, q, k)"
  shows "sys_inv T N idle (set_call t (Take_recursive i c) (set_queue i q (set_kern k s)))"
proof -
  have g: "queue_good T i (queues s i)" using assms(1,4) by (rule sys_inv_queue)
  show ?thesis
  proof (cases "pxMutexHolder (queues s i) = pxCurrentTCB (kern s)")
    case True
    let ?q = "(queues s i)\<lparr>uxRecursiveCallCount := uxRecursiveCallCount (queues s i) + 1\<rparr>"
    have "c = Returned (Some [])" "q = ?q" "k = kern s" using assms(7) True by (simp_all add: xQueueTakeMutexRecursive_def)
    moreover have "queue_good T i ?q" using g by (simp add: queue_good_def queue_ok_def)
    ultimately show ?thesis
      using inv_start [OF assms(1-4), of ?q "Take_recursive i c"] assms(4,5) by (simp add: queue_kept_def set_kern_def)
  next
    case False
    then obtain c0 where c0: "xQueueGenericReceive True n (queues s i) (kern s) = Some c0" "c = c0" "q = queues s i" "k = kern s"
      using assms(7) by (auto simp: xQueueTakeMutexRecursive_def split: bind_splits)
    note r = inv_call_receive(2,3) [OF assms(1-4,6) c0(1)]
    show ?thesis
      using inv_start [OF assms(1-4) g queue_kept_refl refl, of "Take_recursive i c" n] c0 r assms(4-6)
      by (simp add: set_kern_def)
  qed
qed

text \<open>The calls of the scheduler.\<close>

lemma inv_kernel:
  assumes inv: "sys_inv T N idle s" and t: "pxCurrentTCB (kern s) = Some t" "calls s t = Application"
    and k: "kernel_inv T (event_lists N) k" "pxCurrentTCB k = Some t" "xSchedulerRunning k" "is_ready k idle"
      "accounts T N (queues s) (tcb k)" "is_ready k t \<or> pendsv k \<and> uxSchedulerSuspended k = 0"
  shows "sys_inv T N idle (set_kern k s)"
  using sys_inv_queue(1) [OF inv] k t
  by (intro sys_inv_step [OF inv t(1), where c = Application]) (auto simp: set_kern_def running_ok_def)

lemma application_ready:
  assumes "sys_inv T N idle s" "runs t s" "calls s t = Application"
  shows "t < T" "pxCurrentTCB (kern s) = Some t" "is_ready (kern s) t"
proof -
  show c: "pxCurrentTCB (kern s) = Some t" using assms(2) by (simp add: runs_def)
  then show "t < T" using sys_inv_current [OF assms(1)] by (metis option.inject)
  show "is_ready (kern s) t" using assms c by (auto simp: sys_inv_def running_ok_def runs_def)
qed

lemma inv_give_recursive:
  assumes inv: "sys_inv T N idle s" and t: "runs t s" "calls s t = Application" and i: "i < N" "is_mutex (queues s i)"
    and op: "xQueueGiveMutexRecursive (queues s i) (kern s) = Some (ok, q, k)"
  shows "sys_inv T N idle (set_queue i q (set_kern k s))"
proof (cases "pxMutexHolder (queues s i) = pxCurrentTCB (kern s)")
  case False
  then have "q = queues s i" "k = kern s" using op by (simp_all add: xQueueGiveMutexRecursive_def)
  then show ?thesis using inv by (simp add: set_queue_def set_kern_def)
next
  case True
  note a = application_ready [OF inv t] and ks = sys_inv_simps [OF inv] and g = sys_inv_queue [OF inv i(1)]
  have h: "pxMutexHolder (queues s i) = Some t" using True a(2) by simp
  define q1 where "q1 = (queues s i)\<lparr>uxRecursiveCallCount := uxRecursiveCallCount (queues s i) - 1\<rparr>"
  have g1: "queue_good T i q1" "is_mutex q1" "pxMutexHolder q1 = Some t" "queue_lists (event_lists N) q1"
    using g(1,3) i(2) h by (simp_all add: q1_def queue_good_def queue_ok_def queue_lists_def)
  have ro: "running_ok (kern s) t (pc_of Application)" using inv a(2) t(2) by (auto simp: sys_inv_def)
  show ?thesis
  proof (cases "uxRecursiveCallCount q1 = 0")
    case False
    then have "q = q1" "k = kern s" using op True by (simp_all add: xQueueGiveMutexRecursive_def Let_def flip: q1_def)
    moreover have "accounts T N ((queues s)(i := q1)) (tcb (kern s))"
      by (rule accounts_same [OF ks(5)]) (simp add: q1_def)
    moreover have "queue_kept T (queues s i) q1" by (simp add: q1_def queue_kept_def)
    ultimately show ?thesis
      using g1(1) sys_inv_queue(1) [OF inv] ks
      by (intro sys_inv_steady [OF inv]) (auto simp: set_queue_def set_kern_def)
  next
    case z: True
    note m = mutex_good [OF g1(1,2)]
    have m0: "uxMessagesWaiting q1 = 0" using m(3) g1(3) by simp
    let ?q = "q1\<lparr>pxMutexHolder := None, uxMessagesWaiting := 1\<rparr>"
    note ag = accounts_give [OF ks(5) i(1) h, of ?q, OF _ a(1)]
    obtain k1 where st: "send_try [] SEND_TO_BACK None 0 q1 (kern s) = Some (Returned (Some []), ?q, k1)"
      "serves T (event_lists N) (kern s) k1"
      "tcb k1 = (tcb (kern s))(t := (tcb (kern s) t)\<lparr>uxMutexesHeld := uxMutexesHeld (tcb (kern s) t) - 1,
        uxPriority := if uxMutexesHeld (tcb (kern s) t) = 1 then uxBasePriority (tcb (kern s) t) else priority_of (kern s) t\<rparr>)"
      using give_mutex_spec [OF ks(1) g1(4,2) m(2,1) m0 g1(3) a(1-3)] ag(1) by fastforce
    have "q = ?q" "k = k1"
      using op True z st(1) m(2)
      by (auto simp: xQueueGiveMutexRecursive_def Let_def xQueueGenericSend_def send_step_def simp flip: q1_def)
    moreover have "accounts T N ((queues s)(i := ?q)) (tcb k1)" unfolding st(3) using ag(2) by simp
    moreover have "queue_kept t (queues s i) ?q" using h by (simp add: queue_kept_def q1_def)
    moreover have "queue_good T i ?q" by (rule mutex_changed_good(2) [OF g1(1,2) a(1)])
    moreover have "pxCurrentTCB k1 = Some t" "xSchedulerRunning k1" "is_ready k1 idle"
      using st(2) a(2) ks(2-4) by (auto simp: serves_def kept_def)
    ultimately show ?thesis
      using sys_inv_queue(1) [OF inv] ks st(2) t(2) serves_inv running_ok_steady [OF serves_steady [OF st(2)] a(1) ro]
      by (intro sys_inv_step [OF inv a(2), where c = Application]) (auto simp: set_queue_def set_kern_def)
  qed
qed

lemma inv_suspend_all:
  assumes "sys_inv T N idle s" "runs t s" "calls s t = Application" "uxSchedulerSuspended (kern s) + 1 \<noteq> 0"
  shows "sys_inv T N idle (set_kern (vTaskSuspendAll (kern s)) s)"
  using application_ready [OF assms(1-3)] sys_inv_simps [OF assms(1)] vTaskSuspendAll_spec [OF _ assms(4)] assms(3)
  by (intro inv_kernel [OF assms(1)]) (auto simp: vTaskSuspendAll_def)

lemma inv_resume_all:
  assumes inv: "sys_inv T N idle s" and t: "runs t s" "calls s t = Application" and op: "xTaskResumeAll (kern s) = Some (y, k)"
  shows "sys_inv T N idle (set_kern k s)"
proof -
  have "uxSchedulerSuspended (kern s) \<noteq> 0" using op by (auto simp: xTaskResumeAll_def)
  then have "kernel_inv T (event_lists N) k" "undisturbed T (kern s) k"
    using resume_spec [OF sys_inv_simps(1) [OF inv]] op by auto
  then show ?thesis
    using application_ready [OF inv t] sys_inv_simps [OF inv] t(2)
    by (intro inv_kernel [OF inv]) (auto simp: undisturbed_def)
qed

lemma inv_delayed:
  assumes inv: "sys_inv T N idle s" and t: "runs t s" "calls s t = Application" "t \<noteq> idle"
    and k: "kernel_inv T (event_lists N) k" "delayed_one T (kern s) t k" "pendsv k"
  shows "sys_inv T N idle (set_kern k s)"
  using application_ready [OF inv t(1,2)] sys_inv_simps [OF inv] k t(2,3)
  by (intro inv_kernel [OF inv]) (auto simp: delayed_one_def)

lemma inv_delay:
  assumes inv: "sys_inv T N idle s" and t: "runs t s" "calls s t = Application" "n \<noteq> 0 \<longrightarrow> t \<noteq> idle"
    and op: "vTaskDelay n (kern s) = Some k"
  shows "sys_inv T N idle (set_kern k s)"
proof (cases "n = 0")
  case True
  then have "k = portYIELD (kern s)" using op by (simp add: vTaskDelay_def)
  then show ?thesis
    using application_ready [OF inv t(1,2)] sys_inv_simps [OF inv] t(2)
    by (intro inv_kernel [OF inv]) (auto simp: portYIELD_def)
next
  case False
  then have "0 < n" by (simp add: word_gt_0)
  then have s: "uxSchedulerSuspended (kern s) = 0" using op by (auto simp: vTaskDelay_def split: if_splits)
  note a = application_ready [OF inv t(1,2)]
  from vTaskDelay_spec [OF sys_inv_simps(1) [OF inv] s a False] op
  show ?thesis using inv_delayed [OF inv t(1,2)] t(3) False by auto
qed

lemma inv_delay_until:
  assumes inv: "sys_inv T N idle s" and t: "runs t s" "calls s t = Application" "t \<noteq> idle"
    and op: "vTaskDelayUntil prev inc (kern s) = Some (w, k)"
  shows "sys_inv T N idle (set_kern k s)"
proof -
  have s: "uxSchedulerSuspended (kern s) = 0" "0 < inc" using op by (auto simp: vTaskDelayUntil_def split: if_splits)
  note a = application_ready [OF inv t(1,2)]
  from vTaskDelayUntil_spec [OF sys_inv_simps(1) [OF inv] s(1) a s(2), of prev] op
  show ?thesis using inv_delayed [OF inv t] by auto
qed

lemma inv_set_priority:
  assumes inv: "sys_inv T N idle s" and t: "runs t s" "calls s t = Application" and u: "u < T"
    and op: "vTaskPrioritySet (Some u) p (kern s) = Some k"
  shows "sys_inv T N idle (set_kern k s)"
proof -
  have p: "p < configMAX_PRIORITIES" using op by (auto simp: vTaskPrioritySet_def split: if_splits)
  have h: "prvGetTCBFromHandle (Some u) (kern s) = Some u" by (simp add: prvGetTCBFromHandle_def)
  note a = application_ready [OF inv t] and ks = sys_inv_simps [OF inv]
  from vTaskPrioritySet_spec [OF ks(1) u h p] op
  have k: "kernel_inv T (event_lists N) k" "reprioritised (kern s) k u ((tcb (kern s) u)\<lparr>uxBasePriority := p,
      uxPriority := if uxBasePriority (tcb (kern s) u) = priority_of (kern s) u then p else priority_of (kern s) u\<rparr>)" by auto
  have "accounts T N (queues s) (tcb k)" using ks(5) k(2) by (auto simp: accounts_def reprioritised_def)
  then show ?thesis
    using a ks k t(2) kept_PrioritySet [OF op] reprioritised_ready [OF k(2)]
    by (intro inv_kernel [OF inv]) (auto simp: kept_def)
qed

lemma inv_suspend:
  assumes inv: "sys_inv T N idle s" and t: "runs t s" "calls s t = Application" and u: "u < T" "u \<noteq> idle"
    and op: "vTaskSuspend (Some u) (kern s) = Some k"
  shows "sys_inv T N idle (set_kern k s)"
proof -
  note a = application_ready [OF inv t] and ks = sys_inv_simps [OF inv]
  have h: "prvGetTCBFromHandle (Some u) (kern s) = Some u" by (simp add: prvGetTCBFromHandle_def)
  obtain k1 where k1: "unlink_task u (kern s) = Some k1" using op by (auto simp: vTaskSuspend_def h split: bind_splits)
  have s: "uxSchedulerSuspended (kern s) = 0" if "pxCurrentTCB (kern s) = Some u"
  proof (rule ccontr)
    assume n: "uxSchedulerSuspended (kern s) \<noteq> 0"
    have "pxCurrentTCB k1 = Some u" "xSchedulerRunning k1" "uxSchedulerSuspended k1 \<noteq> 0"
      using kept_unlink [OF k1] that ks(2) n by (simp_all add: kept_def)
    then show False using op k1 by (simp add: vTaskSuspend_def h list_insert_end_def)
  qed
  have k: "kernel_inv T (event_lists N) k" "pxCurrentTCB (kern s) = Some u \<longrightarrow> pendsv k" "tcb k = tcb (kern s)"
    "item_container k = (item_container (kern s))(generic u := Some xSuspendedTaskList, event u := None)"
    using vTaskSuspend_spec [OF ks(1) u(1) h ks(2) s] op by auto
  note kp = kept_Suspend [OF op ks(2)]
  have "is_ready k t \<or> pendsv k \<and> uxSchedulerSuspended k = 0"
    using a k s kp by (cases "u = t") (auto simp: kept_def)
  then show ?thesis
    using a ks k kp u t(2) by (intro inv_kernel [OF inv]) (auto simp: kept_def)
qed

lemma inv_resume:
  assumes inv: "sys_inv T N idle s" and t: "runs t s" "calls s t = Application" and u: "u < T"
    and op: "vTaskResume u (kern s) = Some k"
  shows "sys_inv T N idle (set_kern k s)"
proof -
  note a = application_ready [OF inv t] and ks = sys_inv_simps [OF inv]
  have "kernel_inv T (event_lists N) k" "tcb k = tcb (kern s)" "\<forall>v. is_ready (kern s) v \<longrightarrow> is_ready k v"
    using vTaskResume_spec [OF ks(1) u a(2)] op by auto
  then show ?thesis
    using a ks t(2) kept_Resume [OF op] by (intro inv_kernel [OF inv]) (auto simp: kept_def)
qed

section \<open>Every step keeps the invariant\<close>

lemma continue_in_progress:
  "call_step C qs k = Some r \<Longrightarrow> \<exists>c. pc_of C = Some c \<and> \<not> returned (Some c)"
proof (cases C)
  case (Send i item p c)
  then show "call_step C qs k = Some r \<Longrightarrow> ?thesis" by (cases c) (auto simp: send_step_def)
next
  case (Receive i peek c)
  then show "call_step C qs k = Some r \<Longrightarrow> ?thesis" by (cases c) (auto simp: receive_step_def)
next
  case (Take_recursive i c)
  then show "call_step C qs k = Some r \<Longrightarrow> ?thesis" by (cases c) (auto simp: take_recursive_step_def receive_step_def)
qed simp

lemma continue_own:
  assumes inv: "sys_inv T N idle s" and t: "runs t s" and op: "call_step (calls s t) (queues s) (kern s) = Some r"
  shows "\<not> gives_foreign t (queues s) (calls s t)"
proof
  assume "gives_foreign t (queues s) (calls s t)"
  then obtain i item p e n h where f: "calls s t = Send i item p (Trying e n)" "is_mutex (queues s i)"
    "pxMutexHolder (queues s i) = Some h" "h \<noteq> t"
    by (auto simp: gives_foreign_def)
  have cur: "pxCurrentTCB (kern s) = Some t" using t by (simp add: runs_def)
  then have "t < T" using sys_inv_current [OF inv] by (metis option.inject)
  then have "i < N" using inv f(1) by (auto simp: sys_inv_def calls_ok_def)
  note m = mutex_good [OF sys_inv_queue(1) [OF inv this] f(2)]
  have "send_try item p e n (queues s i) (kern s) = None"
    by (rule give_foreign_fails [OF f(2) m(2) _ m(1) f(3) cur f(4)]) (use m(3) f(3) in simp)
  then show False using op f(1) by (simp add: send_step_def)
qed

lemma inv_finish:
  assumes inv: "sys_inv T N idle s" and t: "runs t s" "returned (pc_of (calls s t))"
  shows "sys_inv T N idle (set_call t Application s)"
proof -
  have cur: "pxCurrentTCB (kern s) = Some t" using t(1) by (simp add: runs_def)
  have "resting (pc_of (calls s t))" using t(2) by (cases "pc_of (calls s t)" rule: returned.cases) auto
  then have "is_ready (kern s) t" using inv cur t(1) by (auto simp: sys_inv_def running_ok_def runs_def)
  then show ?thesis
    using sys_inv_simps [OF inv] sys_inv_queue(1) [OF inv] cur
    by (intro sys_inv_step [OF inv cur, where c = Application]) (auto simp: set_call_def running_ok_def)
qed

lemma inv_isr_send:
  assumes "sys_inv T N idle s" "i < N" "\<not> is_mutex (queues s i)" "send_ok item p (queues s i)"
    and "xQueueGenericSendFromISR (Some item) p (queues s i) (kern s) = Some (ok, w, q, k)"
  shows "sys_inv T N idle (set_queue i q (set_kern (portEND_SWITCHING_ISR y k) s))"
  using SendFromISR_spec [OF sys_inv_simps(1) sys_inv_queue(3,2) assms(3,4), OF assms(1,1,2,1,2)] assms(5)
  by (intro inv_isr [OF assms(1-3)]) auto

lemma inv_isr_give:
  assumes "sys_inv T N idle s" "i < N" "\<not> is_mutex (queues s i)"
    and "xQueueGiveFromISR (queues s i) (kern s) = Some (ok, w, q, k)"
  shows "sys_inv T N idle (set_queue i q (set_kern (portEND_SWITCHING_ISR y k) s))"
proof -
  have "uxItemSize (queues s i) = 0" using assms(4) by (auto simp: xQueueGiveFromISR_def split: if_splits)
  from GiveFromISR_spec [OF sys_inv_simps(1) sys_inv_queue(3,2) assms(3) this, OF assms(1,1,2,1,2)] assms(4)
  show ?thesis by (intro inv_isr [OF assms(1-3)]) auto
qed

lemma inv_isr_receive:
  assumes "sys_inv T N idle s" "i < N" "\<not> is_mutex (queues s i)"
    and "xQueueReceiveFromISR False (queues s i) (kern s) = Some (d, w, q, k)"
  shows "sys_inv T N idle (set_queue i q (set_kern (portEND_SWITCHING_ISR y k) s))"
  using ReceiveFromISR_spec [OF sys_inv_simps(1) sys_inv_queue(3,2) assms(3), OF assms(1,1,2,1,2)] assms(4)
  by (intro inv_isr [OF assms(1-3)]) auto

lemma sys_event_inv:
  assumes "sys_event T N idle s e s'" "sys_inv T N idle s"
  shows "sys_inv T N idle s'"
  using assms(1)
proof cases
  case (systick k)
  then show ?thesis using inv_systick [OF assms(2)] by auto
next
  case (switch k)
  then show ?thesis using inv_switch [OF assms(2)] by auto
next
  case (continue t c qs k)
  obtain pc where pc: "pc_of (calls s t) = Some pc" "\<not> returned (Some pc)" using continue_in_progress [OF continue(4)] by blast
  from inv_call_step [OF assms(2) continue(3) pc continue_own [OF assms(2) continue(3,4)]] continue(2,4)
  show ?thesis by auto
qed (simp_all add: inv_isr_send [OF assms(2)] inv_isr_give [OF assms(2)] inv_isr_receive [OF assms(2)]
    inv_call_send [OF assms(2)] inv_call_receive(1) [OF assms(2)] inv_call_take [OF assms(2)] inv_give_recursive [OF assms(2)]
    inv_finish [OF assms(2)] inv_suspend_all [OF assms(2)] inv_resume_all [OF assms(2)] inv_delay [OF assms(2)]
    inv_delay_until [OF assms(2)] inv_set_priority [OF assms(2)] inv_suspend [OF assms(2)] inv_resume [OF assms(2)])

lemma sys_step_inv: "sys_step T N idle s s' \<Longrightarrow> sys_inv T N idle s \<Longrightarrow> sys_inv T N idle s'"
  by (auto simp: sys_step_def intro: sys_event_inv)

abbreviation sys_steps :: "nat \<Rightarrow> nat \<Rightarrow> nat \<Rightarrow> system \<Rightarrow> system \<Rightarrow> bool" where
  "sys_steps T N idle \<equiv> (sys_step T N idle)\<^sup>*\<^sup>*"

lemma sys_trace_steps: "sys_trace T N idle s es s' \<Longrightarrow> sys_steps T N idle s s'"
  by (induction rule: trace.induct) (auto intro: rtranclp.rtrancl_into_rtrancl sys_stepI)

lemma sys_steps_inv: "sys_steps T N idle s s' \<Longrightarrow> sys_inv T N idle s \<Longrightarrow> sys_inv T N idle s'"
  by (induction rule: rtranclp_induct) (auto intro: sys_step_inv)

section \<open>No call fails\<close>

text \<open>The calls that an interrupt may make return, whenever it comes.\<close>

definition isr_calls_return :: "queue \<Rightarrow> kernel \<Rightarrow> bool" where
  "isr_calls_return q k \<longleftrightarrow>
     (\<forall>item p. send_ok item p q \<longrightarrow> xQueueGenericSendFromISR (Some item) p q k \<noteq> None) \<and>
     (uxItemSize q = 0 \<longrightarrow> xQueueGiveFromISR q k \<noteq> None) \<and> xQueueReceiveFromISR False q k \<noteq> None"

text \<open>The calls of a queue begin; the assertion is that a task does not wait while it suspends the scheduler.\<close>

definition queue_calls_begin :: "queue \<Rightarrow> kernel \<Rightarrow> bool" where
  "queue_calls_begin q k \<longleftrightarrow>
     (\<forall>ticks. ticks = 0 \<or> uxSchedulerSuspended k = 0 \<longrightarrow>
        (\<forall>item p. may_send item p q \<longrightarrow> xQueueGenericSend (Some item) p ticks q k \<noteq> None) \<and>
        xQueueGenericReceive False ticks q k \<noteq> None \<and> (is_mutex q \<longrightarrow> xQueueTakeMutexRecursive ticks q k \<noteq> None)) \<and>
     (is_mutex q \<longrightarrow> xQueueGiveMutexRecursive q k \<noteq> None)"

text \<open>The calls of the scheduler that the running task \<open>t\<close> can make return.\<close>

definition task_calls_return :: "nat \<Rightarrow> nat \<Rightarrow> kernel \<Rightarrow> bool" where
  "task_calls_return T t k \<longleftrightarrow>
     (\<forall>ticks. ticks = 0 \<or> uxSchedulerSuspended k = 0 \<longrightarrow> vTaskDelay ticks k \<noteq> None) \<and>
     (\<forall>prev inc. 0 < inc \<and> uxSchedulerSuspended k = 0 \<longrightarrow> vTaskDelayUntil prev inc k \<noteq> None) \<and>
     (uxSchedulerSuspended k \<noteq> 0 \<longrightarrow> xTaskResumeAll k \<noteq> None) \<and>
     (\<forall>u < T. (\<forall>p < configMAX_PRIORITIES. vTaskPrioritySet (Some u) p k \<noteq> None) \<and> vTaskResume u k \<noteq> None \<and>
        (u \<noteq> t \<or> uxSchedulerSuspended k = 0 \<longrightarrow> vTaskSuspend (Some u) k \<noteq> None))"

lemma isr_returns:
  assumes inv: "sys_inv T N idle s" and i: "i < N" "\<not> is_mutex (queues s i)"
  shows "isr_calls_return (queues s i) (kern s)"
proof -
  note k = sys_inv_simps(1) [OF inv] and q = sys_inv_queue(3,2) [OF inv i(1)]
  show ?thesis
    using SendFromISR_spec [OF k q i(2)] GiveFromISR_spec [OF k q i(2)] ReceiveFromISR_spec [OF k q i(2)]
    unfolding isr_calls_return_def by (metis option.distinct(1))
qed

lemma give_recursive_returns:
  assumes inv: "sys_inv T N idle s" and t: "runs t s" "calls s t = Application" and i: "i < N" "is_mutex (queues s i)"
  shows "\<exists>ok q k. xQueueGiveMutexRecursive (queues s i) (kern s) = Some (ok, q, k) \<and> serves T (event_lists N) (kern s) k"
proof (cases "pxMutexHolder (queues s i) = pxCurrentTCB (kern s)")
  case True
  note a = application_ready [OF inv t] and ks = sys_inv_simps [OF inv] and g = sys_inv_queue [OF inv i(1)]
  have h: "pxMutexHolder (queues s i) = Some t" using True a(2) by simp
  let ?q = "(queues s i)\<lparr>uxRecursiveCallCount := uxRecursiveCallCount (queues s i) - 1\<rparr>"
  have q: "queue_good T i ?q" "is_mutex ?q" "pxMutexHolder ?q = Some t" "queue_lists (event_lists N) ?q"
    using g(1,3) i(2) h by (simp_all add: queue_good_def queue_ok_def queue_lists_def)
  note m = mutex_good [OF q(1,2)]
  have "uxMessagesWaiting ?q = 0" using m(3) q(3) by simp
  from give_mutex_spec [OF ks(1) q(4,2) m(2,1) this q(3) a accounts_give(1) [OF ks(5) i(1) h _ a(1), of "?q\<lparr>pxMutexHolder := None\<rparr>"],
      of "[]" SEND_TO_BACK None 0]
  show ?thesis
    using True m(2) ks(1) by (auto simp: xQueueGiveMutexRecursive_def Let_def xQueueGenericSend_def send_step_def)
qed (use sys_inv_simps(1) [OF inv] in \<open>auto simp: xQueueGiveMutexRecursive_def\<close>)

lemma queue_calls_return:
  assumes inv: "sys_inv T N idle s" and t: "runs t s" "calls s t = Application" and i: "i < N"
  shows "queue_calls_begin (queues s i) (kern s)"
proof -
  have "xTaskGetSchedulerState (kern s) = taskSCHEDULER_SUSPENDED \<Longrightarrow> uxSchedulerSuspended (kern s) \<noteq> 0"
    by (auto simp: xTaskGetSchedulerState_def split: if_splits)
  then show ?thesis
    using give_recursive_returns [OF inv t i]
    by (fastforce simp: queue_calls_begin_def xQueueGenericSend_def xQueueGenericReceive_def xQueueTakeMutexRecursive_def
        may_send_def send_ok_def mutex_good(2) [OF sys_inv_queue(1) [OF inv i]])
qed

lemma task_calls_answered:
  assumes inv: "sys_inv T N idle s" and t: "runs t s" "calls s t = Application"
  shows "task_calls_return T t (kern s)"
proof -
  note a = application_ready [OF inv t] and k = sys_inv_simps [OF inv]
  have "vTaskDelay ticks (kern s) \<noteq> None" if "ticks = 0 \<or> uxSchedulerSuspended (kern s) = 0" for ticks
    using that vTaskDelay_spec [OF k(1) _ a, of ticks] by (cases "ticks = 0") (auto simp: vTaskDelay_def)
  moreover have "vTaskSuspend (Some u) (kern s) \<noteq> None" if "u < T" "u \<noteq> t \<or> uxSchedulerSuspended (kern s) = 0" for u
    using vTaskSuspend_spec [OF k(1) that(1) _ k(2), of "Some u"] that(2) a(2) by (auto simp: prvGetTCBFromHandle_def)
  moreover have "vTaskPrioritySet (Some u) p (kern s) \<noteq> None" if "u < T" "p < configMAX_PRIORITIES" for u p
    using vTaskPrioritySet_spec [OF k(1) that(1) _ that(2), of "Some u"] by (auto simp: prvGetTCBFromHandle_def)
  ultimately show ?thesis
    using vTaskDelayUntil_spec [OF k(1) _ a] resume_spec [OF k(1)] vTaskResume_spec [OF k(1) _ a(2)]
    unfolding task_calls_return_def by (metis option.distinct(1))
qed

lemma call_step_returns:
  assumes inv: "sys_inv T N idle s" and t: "runs t s" and c: "calls s t \<noteq> Application" "\<not> returned (pc_of (calls s t))"
  shows "call_step (calls s t) (queues s) (kern s) = None \<longleftrightarrow> gives_foreign t (queues s) (calls s t)"
proof -
  obtain pc where "pc_of (calls s t) = Some pc" using c(1) by (cases "calls s t") auto
  then show ?thesis using inv_call_step [OF inv t] continue_own [OF inv t] c(2) by fastforce
qed

end
