(* ===== verification/Rtos_Create.thy ===== *)
theory Rtos_Create
  imports Rtos_System_Inv
begin

text \<open>
  How the state of the kernel comes about: creating tasks (\<open>xTaskGenericCreate\<close>), starting the scheduler and creating
  queues. The invariants hold in the states these calls leave, so that they hold of the system as it runs.
\<close>

section \<open>Creating tasks\<close>

definition prvInitialiseTaskLists :: "kernel \<Rightarrow> kernel" where
  "prvInitialiseTaskLists k =
     k\<lparr>heap := fold vListInitialise ([0..<configMAX_PRIORITIES] @ [xDelayedTaskList1, xDelayedTaskList2, xPendingReadyList,
         xTasksWaitingTermination, xSuspendedTaskList]) (heap k),
       pxDelayedTaskList := xDelayedTaskList1, pxOverflowDelayedTaskList := xDelayedTaskList2\<rparr>"

text \<open>The name of the task and what belongs to its notifications are left out.\<close>

definition prvInitialiseTCBVariables :: "nat \<Rightarrow> nat \<Rightarrow> kernel \<Rightarrow> kernel" where
  "prvInitialiseTCBVariables t priority k =
     (let priority = (if priority \<ge> configMAX_PRIORITIES then configMAX_PRIORITIES - 1 else priority);
          k = set_tcb t (\<lambda>_. \<lparr>uxPriority = priority, uxBasePriority = priority, uxMutexesHeld = 0\<rparr>) k;
          k = k\<lparr>heap := vListInitialiseItem (generic t) (heap k)\<rparr>;
          k = k\<lparr>heap := vListInitialiseItem (event t) (heap k)\<rparr>
      in set_item_value (event t) (priority_value priority) k)"

text \<open>
  The address of the new TCB is an argument, \<open>None\<close> when there is no memory for it and its stack; the stack itself is
  not modelled. The result is \<open>pdPASS\<close> or not.
\<close>

definition xTaskGenericCreate :: "nat option \<Rightarrow> nat \<Rightarrow> kernel \<Rightarrow> (bool \<times> kernel) option" where
  "xTaskGenericCreate allocated priority k =
     (if \<not> priority < configMAX_PRIORITIES then None
      else case allocated of
        None \<Rightarrow> Some (False, k)
      | Some t \<Rightarrow> do {
          let k = prvInitialiseTCBVariables t priority k;
          let k = k\<lparr>uxCurrentNumberOfTasks := uxCurrentNumberOfTasks k + 1\<rparr>;
          let k = (case pxCurrentTCB k of
              None \<Rightarrow> let k = k\<lparr>pxCurrentTCB := Some t\<rparr>
                in if uxCurrentNumberOfTasks k = 1 then prvInitialiseTaskLists k else k
            | Some cur \<Rightarrow>
                if \<not> xSchedulerRunning k \<and> priority_of k cur \<le> priority then k\<lparr>pxCurrentTCB := Some t\<rparr> else k);
          let k = prvAddTaskToReadyList t k;
          cur \<leftarrow> pxCurrentTCB k;
          Some (True, if xSchedulerRunning k \<and> priority_of k cur < priority then portYIELD k else k) })"

text \<open>The part of \<open>vTaskStartScheduler\<close> after the idle task and the timer task have been created.\<close>

definition start_scheduler :: "kernel \<Rightarrow> kernel" where
  "start_scheduler k = k\<lparr>xNextTaskUnblockTime := portMAX_DELAY, xSchedulerRunning := True,
     counters := (counters k)\<lparr>xTickCount := 0\<rparr>\<rparr>"

definition vTaskStartScheduler :: "nat option \<Rightarrow> (kernel \<Rightarrow> (bool \<times> kernel) option) \<Rightarrow> kernel \<Rightarrow> kernel option" where
  "vTaskStartScheduler idle xTimerCreateTimerTask k = do {
     (xReturn, k) \<leftarrow> xTaskGenericCreate idle 0 k;
     (xReturn, k) \<leftarrow> (if xReturn then xTimerCreateTimerTask k else Some (False, k));
     if xReturn then Some (start_scheduler k) else None }"

text \<open>The static variables before the first call, with whatever the memory of lists and items holds.\<close>

definition boot :: "store \<Rightarrow> kernel" where
  "boot h = \<lparr>heap = h, tcb = (\<lambda>_. \<lparr>uxPriority = 0, uxBasePriority = 0, uxMutexesHeld = 0\<rparr>), pxCurrentTCB = None,
     pxDelayedTaskList = 0, pxOverflowDelayedTaskList = 0, uxTopReadyPriority = 0,
     counters = \<lparr>xTickCount = 0, xNumOfOverflows = 0\<rparr>, xNextTaskUnblockTime = 0, uxSchedulerSuspended = 0,
     uxPendedTicks = 0, xYieldPending = False, xSchedulerRunning = False, uxCurrentNumberOfTasks = 0, pendsv = False\<rparr>"

fun create_tasks :: "nat \<Rightarrow> nat list \<Rightarrow> kernel \<Rightarrow> kernel option" where
  "create_tasks t [] k = Some k"
| "create_tasks t (p # ps) k = do { (_, k) \<leftarrow> xTaskGenericCreate (Some t) p k; create_tasks (Suc t) ps k }"

section \<open>The first states\<close>

lemma initialise_frame:
  "items (vListInitialise l h) (Item i) = items h (Item i)"
  "m \<noteq> l \<Longrightarrow> is_list (vListInitialise l h) m [] = is_list h m []"
  by (simp_all add: vListInitialise_def Let_def store_simps is_list_def)

lemma initialise_all:
  "l \<in> set ls \<Longrightarrow> is_list (fold vListInitialise ls h) l []"
  "items (fold vListInitialise ls h) (Item i) = items h (Item i)"
proof (induction ls arbitrary: h rule: rev_induct)
  case (snoc a ls)
  { case 1
    then show ?case using snoc vListInitialise_is_list [of a] initialise_frame(2) [of l a] by (cases "l = a") auto
  next
    case 2
    then show ?case using snoc initialise_frame(1) by simp }
qed simp_all

lemma new_item_simps:
  "item_container (prvInitialiseTCBVariables t p k) = (item_container k)(generic t := None, event t := None)"
  "q \<noteq> event t \<Longrightarrow> item_value (prvInitialiseTCBVariables t p k) q = item_value k q"
  "p < configMAX_PRIORITIES \<Longrightarrow> tcb (prvInitialiseTCBVariables t p k) =
    (tcb k)(t := \<lparr>uxPriority = p, uxBasePriority = p, uxMutexesHeld = 0\<rparr>)"
  by (auto simp: prvInitialiseTCBVariables_def Let_def item_container_def item_value_def set_item_value_def set_tcb_def
      vListInitialiseItem_def store_simps fun_eq_iff)

lemma new_item_heap:
  "r \<noteq> generic t \<Longrightarrow> r \<noteq> event t \<Longrightarrow> items (heap (prvInitialiseTCBVariables t p k)) r = items (heap k) r"
  "lists (heap (prvInitialiseTCBVariables t p k)) = lists (heap k)"
  "pxNext (items (heap (prvInitialiseTCBVariables t p k)) r) = pxNext (items (heap k) r)"
  by (auto simp: prvInitialiseTCBVariables_def Let_def set_item_value_def set_tcb_def vListInitialiseItem_def store_simps)

lemma new_item_fields [simp]:
  "pxCurrentTCB (prvInitialiseTCBVariables t p k) = pxCurrentTCB k"
  "xSchedulerRunning (prvInitialiseTCBVariables t p k) = xSchedulerRunning k"
  "uxTopReadyPriority (prvInitialiseTCBVariables t p k) = uxTopReadyPriority k"
  "uxCurrentNumberOfTasks (prvInitialiseTCBVariables t p k) = uxCurrentNumberOfTasks k"
  "pxDelayedTaskList (prvInitialiseTCBVariables t p k) = pxDelayedTaskList k"
  "pxOverflowDelayedTaskList (prvInitialiseTCBVariables t p k) = pxOverflowDelayedTaskList k"
  "counters (prvInitialiseTCBVariables t p k) = counters k"
  "xNextTaskUnblockTime (prvInitialiseTCBVariables t p k) = xNextTaskUnblockTime k"
  "uxSchedulerSuspended (prvInitialiseTCBVariables t p k) = uxSchedulerSuspended k"
  "uxPendedTicks (prvInitialiseTCBVariables t p k) = uxPendedTicks k"
  "pendsv (prvInitialiseTCBVariables t p k) = pendsv k"
  by (simp_all add: prvInitialiseTCBVariables_def Let_def set_item_value_def set_tcb_def)

text \<open>A new task's items are on no list and no list is on them.\<close>

lemma new_task_core:
  assumes core: "kernel_core T Q {} k" and p: "p < configMAX_PRIORITIES" and T: "2 * Suc T < 2 ^ 32"
  shows "kernel_core (Suc T) Q {T} (prvInitialiseTCBVariables T p k)"
proof -
  let ?k = "prvInitialiseTCBVariables T p k" and ?L = "{..<15} \<union> Q"
  obtain f where f: "kernel_lists T Q f k" using core kernel_core_lists by blast
  then have h: "holds ?L (2 * T) (heap k) f" and so: "\<forall>l \<in> {10, 11}. sorted (map (item_value k) (f l))" and Q: "Q \<subseteq> {15..}"
    by (simp_all add: kernel_lists_def)
  have fr: "q \<noteq> generic T \<and> q \<noteq> event T" if m: "q \<in> set (End l # f l)" "l \<in> ?L" for q l
  proof -
    consider "q = End l" | i where "i < 2 * T" "q = Item i" using m(1) holds_item [OF h m(2)] by auto
    then show ?thesis by cases (auto simp: generic_def event_def)
  qed
  have "is_list (heap ?k) l (f l)" if "l \<in> ?L" for l
    using is_list_same [of l "f l" "heap ?k" "heap k"] fr [OF _ that] holds_is_list [OF h that] new_item_heap by metis
  moreover have "set (f l) \<subseteq> Item ` {..<2 * Suc T}" if "l \<in> ?L" for l
    using holds_item [OF h that] by fastforce
  moreover have "l \<in> ?L \<and> Item i \<in> set (f l)" if "i < 2 * Suc T" "container_of (heap ?k) (Item i) = Some l" for i l
  proof -
    have c: "item_container ?k (Item i) = Some l" using that(2) by (simp add: item_container_def)
    then have "Item i \<noteq> generic T" "Item i \<noteq> event T" "item_container k (Item i) = Some l"
      by (auto simp: new_item_simps(1) split: if_splits)
    moreover have "i < 2 * T"
    proof (rule ccontr)
      assume "\<not> i < 2 * T"
      then have "i = 2 * T \<or> i = 2 * T + 1" using that(1) by auto
      then show False using calculation by (auto simp: generic_def event_def)
    qed
    ultimately show ?thesis using h by (auto simp: holds_def item_container_def)
  qed
  ultimately have "holds ?L (2 * Suc T) (heap ?k) f" using T by (simp add: holds_def)
  moreover have "sorted (map (item_value ?k) (f l))" if "l \<in> {10, 11}" for l
  proof -
    have l: "l \<in> ?L" using that by auto
    have m: "map (item_value ?k) (f l) = map (item_value k) (f l)"
      using fr [OF _ l] new_item_simps(2) by (simp add: map_eq_conv)
    show ?thesis unfolding m using so that by blast
  qed
  ultimately have "kernel_lists (Suc T) Q f ?k" using Q by (simp add: kernel_lists_def)
  moreover have "tasks_ok (Suc T) Q {T} ?k"
    using core p unfolding kernel_core_def tasks_ok_def less_Suc_eq by (auto simp: new_item_simps)
  moreover have "ready_ok (Suc T) {T} ?k"
    using core p unfolding kernel_core_def ready_ok_def less_Suc_eq by (auto simp: new_item_simps)
  ultimately show ?thesis by (auto simp: kernel_core_def)
qed

text \<open>Creating the first task, which sets up the lists, and creating the next ones.\<close>

definition not_started :: "nat \<Rightarrow> nat set \<Rightarrow> (nat \<Rightarrow> nat) \<Rightarrow> kernel \<Rightarrow> bool" where
  "not_started T Q prio k \<longleftrightarrow> kernel_inv T Q k \<and> \<not> xSchedulerRunning k \<and> uxSchedulerSuspended k = 0 \<and> \<not> pendsv k \<and>
     uxPendedTicks k = 0 \<and> uxCurrentNumberOfTasks k = word_of_nat T \<and>
     (\<forall>t < T. is_ready k t \<and> tcb k t = \<lparr>uxPriority = prio t, uxBasePriority = prio t, uxMutexesHeld = 0\<rparr>) \<and>
     (\<exists>cur < T. pxCurrentTCB k = Some cur \<and> (\<forall>t < T. prio t \<le> prio cur))"

lemma not_started_cong: "(\<And>t. t < T \<Longrightarrow> prio t = prio' t) \<Longrightarrow> not_started T Q prio k = not_started T Q prio' k"
  by (auto simp: not_started_def)

lemma initialised_items: "item_container (prvInitialiseTaskLists k) (Item i) = item_container k (Item i)"
proof -
  have "heap (prvInitialiseTaskLists k) = fold vListInitialise ([0..<configMAX_PRIORITIES] @ [xDelayedTaskList1,
      xDelayedTaskList2, xPendingReadyList, xTasksWaitingTermination, xSuspendedTaskList]) (heap k)"
    by (simp add: prvInitialiseTaskLists_def)
  then show ?thesis by (simp only: item_container_def initialise_all(2))
qed

lemma first_lists:
  "kernel_core (Suc 0) {} {0} (prvInitialiseTaskLists (prvInitialiseTCBVariables 0 p (boot h)\<lparr>uxCurrentNumberOfTasks := n, pxCurrentTCB := Some 0\<rparr>))"
  if p: "p < configMAX_PRIORITIES"
proof -
  let ?b = "prvInitialiseTCBVariables 0 p (boot h)"
  let ?k = "prvInitialiseTaskLists (?b\<lparr>uxCurrentNumberOfTasks := n, pxCurrentTCB := Some 0\<rparr>)"
  let ?ls = "[0..<configMAX_PRIORITIES] @ [xDelayedTaskList1, xDelayedTaskList2, xPendingReadyList,
         xTasksWaitingTermination, xSuspendedTaskList]"
  have hk: "heap ?k = fold vListInitialise ?ls (heap ?b)" by (simp add: prvInitialiseTaskLists_def)
  have c: "item_container ?k (Item i) = item_container ?b (Item i)" for i
    unfolding initialised_items by (simp add: item_container_def)
  have none: "item_container ?k (generic 0) = None" "item_container ?k (event 0) = None"
    using c [of 0] c [of 1] new_item_simps(1) [of 0 p "boot h"] by (simp_all add: generic_def event_def)
  have nc: "container_of (heap ?k) (Item i) = None" if "i < 2" for i
  proof -
    have "i = 0 \<or> i = 1" using that by auto
    then show ?thesis using none by (auto simp: generic_def event_def item_container_def)
  qed
  have ls: "set ?ls = {..<15}" by auto
  have "is_list (heap ?k) l []" if "l < 15" for l
    unfolding hk using that ls by (intro initialise_all(1)) auto
  then have "holds ({..<15} \<union> {}) (2 * Suc 0) (heap ?k) (\<lambda>_. [])"
    using nc by (auto simp: holds_def)
  then have "kernel_lists (Suc 0) {} (\<lambda>_. []) ?k" by (simp add: kernel_lists_def)
  moreover have t: "tcb ?k 0 = \<lparr>uxPriority = p, uxBasePriority = p, uxMutexesHeld = 0\<rparr>" "pxCurrentTCB ?k = Some 0"
    "uxTopReadyPriority ?k = 0"
    using p by (simp_all add: prvInitialiseTaskLists_def new_item_simps boot_def)
  then have "tasks_ok (Suc 0) {} {0} ?k" using none p by (simp add: tasks_ok_def)
  moreover have "ready_ok (Suc 0) {0} ?k" using none t by (simp add: ready_ok_def)
  ultimately show ?thesis by (auto simp: kernel_core_def)
qed

lemma create_first:
  assumes "p < configMAX_PRIORITIES"
  shows "\<exists>k. xTaskGenericCreate (Some 0) p (boot h) = Some (True, k) \<and> not_started 1 {} (\<lambda>_. p) k"
proof -
  let ?b = "prvInitialiseTCBVariables 0 p (boot h)"
  define k1 where "k1 = prvInitialiseTaskLists (?b\<lparr>uxCurrentNumberOfTasks := 1, pxCurrentTCB := Some 0\<rparr>)"
  have c1: "kernel_core (Suc 0) {} {0} k1" unfolding k1_def by (rule first_lists [OF assms])
  have f1: "tcb k1 0 = \<lparr>uxPriority = p, uxBasePriority = p, uxMutexesHeld = 0\<rparr>" "\<not> xSchedulerRunning k1"
    "uxSchedulerSuspended k1 = 0" "\<not> pendsv k1" "uxPendedTicks k1 = 0" "uxCurrentNumberOfTasks k1 = 1"
    "pxCurrentTCB k1 = Some 0" "pxDelayedTaskList k1 = 10" "pxOverflowDelayedTaskList k1 = 11"
    using assms by (simp_all add: k1_def prvInitialiseTaskLists_def new_item_simps boot_def)
  have none: "item_container k1 (generic 0) = None" "item_container k1 (event 0) = None"
    using new_item_simps(1) [of 0 p "boot h"]
    by (simp_all add: k1_def generic_def event_def initialised_items) (simp_all add: item_container_def generic_def event_def fun_eq_iff)
  define k where "k = prvAddTaskToReadyList 0 k1"
  have d1: "delays_ok (Suc 0) k1" "pending_ok (Suc 0) k1" using none f1 by (simp_all add: delays_ok_def pending_ok_def)
  have k: "kernel_inv (Suc 0) {} k" "relocated k1 k (generic 0) (Some p)"
    using add_ready_inv [OF c1 _ none d1] f1(1) by (simp_all add: k_def)
  note o = relocated_simps [OF k(2)]
  have "xTaskGenericCreate (Some 0) p (boot h) = Some (True, k)"
  proof -
    have b: "pxCurrentTCB ?b = None" "uxCurrentNumberOfTasks ?b = 0" by (simp_all add: boot_def)
    have "(?b\<lparr>uxCurrentNumberOfTasks := 1\<rparr>)\<lparr>pxCurrentTCB := Some 0\<rparr> = ?b\<lparr>uxCurrentNumberOfTasks := 1, pxCurrentTCB := Some 0\<rparr>" by simp
    then show ?thesis using assms b f1(2,7) o by (simp add: xTaskGenericCreate_def Let_def flip: k1_def k_def)
  qed
  moreover have "not_started 1 {} (\<lambda>_. p) k" using k(1) o f1 by (auto simp: not_started_def)
  ultimately show ?thesis by blast
qed

lemma core_current: "kernel_core T Q X k \<Longrightarrow> t < T \<Longrightarrow> kernel_core T Q X (k\<lparr>pxCurrentTCB := Some t\<rparr>)"
proof -
  assume a: "kernel_core T Q X k" "t < T"
  have i: "item_container (k\<lparr>pxCurrentTCB := Some t\<rparr>) = item_container k" "item_value (k\<lparr>pxCurrentTCB := Some t\<rparr>) = item_value k"
    by (simp_all add: item_container_def item_value_def fun_eq_iff)
  show ?thesis using a unfolding kernel_core_def kernel_lists_def tasks_ok_def ready_ok_def i by auto
qed

lemma create_next:
  assumes "not_started T Q prio k" "p < configMAX_PRIORITIES" "2 * Suc T < 2 ^ 32"
  shows "\<exists>k'. xTaskGenericCreate (Some T) p k = Some (True, k') \<and> not_started (Suc T) Q (prio(T := p)) k'"
proof -
  let ?b = "prvInitialiseTCBVariables T p k"
  have s: "kernel_inv T Q k" "\<not> xSchedulerRunning k" "uxSchedulerSuspended k = 0" "\<not> pendsv k" "uxPendedTicks k = 0"
    "uxCurrentNumberOfTasks k = word_of_nat T"
    and r: "\<And>t. t < T \<Longrightarrow> is_ready k t \<and> tcb k t = \<lparr>uxPriority = prio t, uxBasePriority = prio t, uxMutexesHeld = 0\<rparr>"
    using assms(1) by (simp_all add: not_started_def)
  have core: "kernel_core T Q {} k" and del: "delays_ok T k" and pd: "pending_ok T k" using s(1) by (simp_all add: kernel_inv_def)
  obtain cur where cur: "pxCurrentTCB k = Some cur" "cur < T" "\<forall>t < T. prio t \<le> prio cur"
    using assms(1) by (auto simp: not_started_def)
  define c where "c = (if priority_of k cur \<le> p then T else cur)"
  define k1 where "k1 = ?b\<lparr>uxCurrentNumberOfTasks := uxCurrentNumberOfTasks k + 1, pxCurrentTCB := Some c\<rparr>"
  have "item_container k1 = item_container ?b" by (simp add: k1_def item_container_def fun_eq_iff)
  then have it: "item_container k1 = (item_container k)(generic T := None, event T := None)" "tcb k1 = tcb ?b"
    by (simp_all add: k1_def new_item_simps(1))
  have c0: "kernel_core (Suc T) Q {T} (?b\<lparr>uxCurrentNumberOfTasks := uxCurrentNumberOfTasks k + 1\<rparr>)"
    by (subst core_cong [where k = ?b]) (simp_all add: new_task_core [OF core assms(2,3)])
  have c1: "kernel_core (Suc T) Q {T} k1"
    using core_current [OF c0, of c] cur(2) by (simp add: k1_def c_def)
  have t1: "tcb k1 = (tcb k)(T := \<lparr>uxPriority = p, uxBasePriority = p, uxMutexesHeld = 0\<rparr>)"
    using it(2) new_item_simps(3) [OF assms(2)] by simp
  have n1: "(word_of_nat (Suc T) :: 32 word) \<noteq> 0"
    using assms(3) by (simp add: word_of_nat_eq_0_iff del: of_nat_Suc) (use nat_dvd_not_less in force)
  have d1: "delays_ok (Suc T) k1" "pending_ok (Suc T) k1"
  proof -
    have g: "item_container k (generic t) \<noteq> Some (pxDelayedTaskList k)" "item_container k (generic t) \<noteq> Some (pxOverflowDelayedTaskList k)"
      if "t < T" for t
      using r [OF that] priority_less [OF core that] del by (auto simp: delays_ok_def)
    show "delays_ok (Suc T) k1"
      using del g it(1) by (auto simp: delays_ok_def k1_def less_Suc_eq)
    show "pending_ok (Suc T) k1"
      using pd s(3,6) it(1) n1 by (auto simp: pending_ok_def k1_def less_Suc_eq word_gt_0 add.commute)
  qed
  define k' where "k' = prvAddTaskToReadyList T k1"
  have k': "kernel_inv (Suc T) Q k'" "relocated k1 k' (generic T) (Some p)"
    using add_ready_inv [OF c1 _ _ _ d1] t1 it(1) by (simp_all add: k'_def)
  note o = relocated_simps [OF k'(2)]
  have pb: "priority_of ?b cur = priority_of k cur" using new_item_simps(3) [OF assms(2)] cur(2) by simp
  have "xTaskGenericCreate (Some T) p k = Some (True, k')"
  proof (cases "priority_of k cur \<le> p")
    case True
    have "k1 = ?b\<lparr>uxCurrentNumberOfTasks := uxCurrentNumberOfTasks k + 1, pxCurrentTCB := Some T\<rparr>"
      using True by (simp add: k1_def c_def)
    then show ?thesis using True cur(1) s(2) pb assms(2) o by (simp add: xTaskGenericCreate_def Let_def k'_def)
  next
    case False
    have "k1 = ?b\<lparr>uxCurrentNumberOfTasks := uxCurrentNumberOfTasks k + 1\<rparr>"
      using False cur(1) by (simp add: k1_def c_def)
    then show ?thesis using False cur(1) s(2) pb assms(2) o by (simp add: xTaskGenericCreate_def Let_def k'_def)
  qed
  moreover have "\<exists>cur < Suc T. pxCurrentTCB k' = Some cur \<and> (\<forall>t < Suc T. (prio(T := p)) t \<le> (prio(T := p)) cur)"
  proof -
    have "pxCurrentTCB k' = Some c" "priority_of k cur = prio cur" using o r [OF cur(2)] by (simp_all add: k1_def)
    then show ?thesis using cur(2,3) by (auto simp: c_def less_Suc_eq)
  qed
  moreover have "kernel_inv (Suc T) Q k' \<and> \<not> xSchedulerRunning k' \<and> uxSchedulerSuspended k' = 0 \<and> \<not> pendsv k' \<and>
      uxPendedTicks k' = 0 \<and> uxCurrentNumberOfTasks k' = word_of_nat (Suc T)"
    using k'(1) s o by (simp add: k1_def add.commute)
  moreover have "is_ready k' t \<and> tcb k' t = \<lparr>uxPriority = (prio(T := p)) t, uxBasePriority = (prio(T := p)) t, uxMutexesHeld = 0\<rparr>"
    if "t < Suc T" for t
    using that r [of t] t1 it(1) o by (cases "t = T") (simp_all add: less_Suc_eq)
  ultimately have "not_started (Suc T) Q (prio(T := p)) k'" by (simp add: not_started_def)
  then show ?thesis using \<open>xTaskGenericCreate (Some T) p k = Some (True, k')\<close> by blast
qed

text \<open>All the tasks of a program, created before the scheduler is started.\<close>

lemma create_tasks_next:
  assumes "not_started T Q prio k" "\<forall>p \<in> set ps. p < configMAX_PRIORITIES" "2 * (T + length ps) < 2 ^ 32"
  shows "\<exists>k'. create_tasks T ps k = Some k' \<and> not_started (T + length ps) Q (\<lambda>t. if t < T then prio t else ps ! (t - T)) k'"
  using assms
proof (induction ps arbitrary: T prio k)
  case Nil
  then show ?case using not_started_cong [of T prio "\<lambda>t. if t < T then prio t else [] ! (t - T)"] by simp
next
  case (Cons p ps)
  obtain k1 where k1: "xTaskGenericCreate (Some T) p k = Some (True, k1)" "not_started (Suc T) Q (prio(T := p)) k1"
    using create_next [OF Cons.prems(1)] Cons.prems by auto
  obtain k' where "create_tasks (Suc T) ps k1 = Some k'"
    "not_started (Suc T + length ps) Q (\<lambda>t. if t < Suc T then (prio(T := p)) t else ps ! (t - Suc T)) k'"
    using Cons.IH [OF k1(2)] Cons.prems(2,3) by auto
  moreover have "(\<lambda>t. if t < Suc T then (prio(T := p)) t else ps ! (t - Suc T)) = (\<lambda>t. if t < T then prio t else (p # ps) ! (t - T))"
    by (auto simp: fun_eq_iff less_Suc_eq nth_Cons')
  ultimately show ?case using k1(1) by simp
qed

lemma create_tasks_inv:
  assumes "ps \<noteq> []" "\<forall>p \<in> set ps. p < configMAX_PRIORITIES" "2 * length ps < 2 ^ 32"
  shows "\<exists>k. create_tasks 0 ps (boot h) = Some k \<and> not_started (length ps) {} (nth ps) k"
proof -
  obtain p qs where ps: "ps = p # qs" using assms(1) by (cases ps) auto
  obtain k1 where k1: "xTaskGenericCreate (Some 0) p (boot h) = Some (True, k1)" "not_started 1 {} (\<lambda>_. p) k1"
    using create_first [of p h] assms(2) ps by auto
  obtain k where k: "create_tasks 1 qs k1 = Some k" "not_started (1 + length qs) {} (\<lambda>t. if t < 1 then p else qs ! (t - 1)) k"
    using create_tasks_next [OF k1(2), of qs] assms(2,3) ps by auto
  have "(\<lambda>t. if t < 1 then p else qs ! (t - 1)) = nth ps" by (auto simp: fun_eq_iff ps nth_Cons split: nat.splits)
  then show ?thesis using k k1(1) ps by simp
qed

section \<open>Creating queues\<close>

lemma new_list_inv:
  assumes "kernel_inv T Q k" "l \<notin> Q" "15 \<le> l"
  shows "kernel_inv T (insert l Q) (k\<lparr>heap := vListInitialise l (heap k)\<rparr>)"
proof -
  let ?k = "k\<lparr>heap := vListInitialise l (heap k)\<rparr>" and ?L = "{..<15} \<union> Q"
  have core: "kernel_core T Q {} k" using assms(1) by (simp add: kernel_inv_def)
  obtain f where f: "kernel_lists T Q f k" using core kernel_core_lists by blast
  then have h: "holds ?L (2 * T) (heap k) f" and so: "\<forall>m \<in> {10, 11}. sorted (map (item_value k) (f m))" and Q: "Q \<subseteq> {15..}"
    by (simp_all add: kernel_lists_def)
  have c: "item_container ?k = item_container k" "item_value ?k (Item i) = item_value k (Item i)" for i
    by (simp_all add: item_container_def item_value_def fun_eq_iff vListInitialise_def Let_def store_simps)
  have v: "item_value ?k (generic t) = item_value k (generic t)" for t unfolding generic_def by (rule c(2))
  have oth: "is_list (heap ?k) m (f m)" if m: "m \<in> ?L" for m
  proof (rule is_list_same [OF _ _ holds_is_list [OF h m]])
    have "m \<noteq> l" using m assms(2,3) by auto
    then show "\<forall>q \<in> set (End m # f m). items (heap ?k) q = items (heap k) q" "lists (heap ?k) m = lists (heap k) m"
      using holds_item [OF h m] by (auto simp: vListInitialise_def Let_def store_simps)
  qed
  have "holds ({..<15} \<union> insert l Q) (2 * T) (heap ?k) (f(l := []))"
    unfolding holds_def
  proof (intro conjI ballI allI impI)
    show "2 * T < 2 ^ 32" using h by (simp add: holds_def)
    show "is_list (heap ?k) m ((f(l := [])) m)" if "m \<in> {..<15} \<union> insert l Q" for m
      using that oth vListInitialise_is_list by (cases "m = l") auto
    show "set ((f(l := [])) m) \<subseteq> Item ` {..<2 * T}" if "m \<in> {..<15} \<union> insert l Q" for m
      using that h by (cases "m = l") (auto simp: holds_def)
    fix i m assume i: "i < 2 * T" "container_of (heap ?k) (Item i) = Some m"
    then have "container_of (heap k) (Item i) = Some m" using fun_cong [OF c(1), of "Item i"] by (simp add: item_container_def)
    then have "m \<in> ?L \<and> Item i \<in> set (f m)" using h i(1) by (simp add: holds_def)
    then show "m \<in> {..<15} \<union> insert l Q" "Item i \<in> set ((f(l := [])) m)" using assms(2,3) by auto
  qed
  moreover have "sorted (map (item_value ?k) ((f(l := [])) m))" if "m \<in> {10, 11}" for m
  proof -
    have "m \<in> ?L" "m \<noteq> l" using that assms(3) by auto
    then have "map (item_value ?k) (f m) = map (item_value k) (f m)" using holds_item [OF h] c(2) by (fastforce simp: map_eq_conv)
    then show ?thesis using so that \<open>m \<noteq> l\<close> by (metis fun_upd_apply)
  qed
  ultimately have "kernel_lists T (insert l Q) (f(l := [])) ?k" using Q assms(3) by (simp add: kernel_lists_def)
  moreover have "tasks_ok T (insert l Q) {} ?k" using core unfolding kernel_core_def tasks_ok_def c(1) by auto
  moreover have "ready_ok T {} ?k" using core unfolding kernel_core_def ready_ok_def c(1) by simp
  ultimately have "kernel_core T (insert l Q) {} ?k" by (auto simp: kernel_core_def)
  moreover have "delays_ok T ?k" "pending_ok T ?k"
    using assms(1) unfolding kernel_inv_def delays_ok_def pending_ok_def c(1) v by simp_all
  ultimately show ?thesis by (simp add: kernel_inv_def)
qed

lemma event_lists_Suc: "event_lists (Suc i) = insert (16 + 2 * i) (insert (15 + 2 * i) (event_lists i))"
  by (auto simp: event_lists_def)

lemma new_lists_inv:
  assumes "kernel_inv T (event_lists i) k"
  shows "kernel_inv T (event_lists (Suc i))
    (k\<lparr>heap := vListInitialise (16 + 2 * i) (vListInitialise (15 + 2 * i) (heap k))\<rparr>)"
  using new_list_inv [OF new_list_inv [OF assms, of "15 + 2 * i"], of "16 + 2 * i"]
  by (simp add: event_lists_Suc) (simp add: event_lists_def)

text \<open>What the memory allocator promises: a block has the size that was asked for.\<close>

definition malloc_ok :: "(32 word \<Rightarrow> 8 word list option) \<Rightarrow> bool" where
  "malloc_ok malloc \<longleftrightarrow> (\<forall>n b. malloc n = Some b \<longrightarrow> length b = unat n)"

text \<open>The tasks a new list leaves where they were.\<close>

definition listed :: "kernel \<Rightarrow> kernel \<Rightarrow> bool" where
  "listed k k' \<longleftrightarrow> k' = k\<lparr>heap := heap k'\<rparr> \<and> item_container k' = item_container k"

lemma listed_lists: "listed k (k\<lparr>heap := vListInitialise m (vListInitialise l (heap k))\<rparr>)"
  by (simp add: listed_def item_container_def fun_eq_iff vListInitialise_def Let_def store_simps)

lemma word_sizes:
  fixes n s :: "32 word"
  assumes "unat n * unat s + 85 < 2 ^ 32"
  shows "unat (n * s) = unat n * unat s" "unat (84 + (n * s + 1)) = 85 + unat n * unat s"
    "n \<noteq> 0 \<Longrightarrow> unat ((n - 1) * s) = (unat n - 1) * unat s"
proof -
  show m: "unat (n * s) = unat n * unat s" using assms unat_mult_lem [of n s] by simp
  then have p: "unat (n * s + 1) = unat n * unat s + 1" using assms unat_add_lem [of "n * s" 1] by simp
  then show "unat (84 + (n * s + 1)) = 85 + unat n * unat s" using assms unat_add_lem [of 84 "n * s + 1"] by simp
  have "(unat n - 1) * unat s < 2 ^ 32"
    using assms mult_le_mono1 [of "unat n - 1" "unat n" "unat s"] by linarith
  then show "n \<noteq> 0 \<Longrightarrow> unat ((n - 1) * s) = (unat n - 1) * unat s"
    using unat_mult_lem [of "n - 1" s] unat_minus_one [of n] by simp
qed

text \<open>A new queue is empty, and its storage has room for its items, when their size fits in a word.\<close>

lemma create_queue_spec:
  assumes "malloc_ok malloc" "unat n * unat s + 85 < 2 ^ 32"
    and "xQueueGenericCreate malloc l m n s ty k = Some (q, k')"
  shows "queue_ok q" "queue_items q = []" "\<not> is_mutex q" "pxMutexHolder q = None" "xTasksWaitingToSend q = l"
    "xTasksWaitingToReceive q = m" "uxLength q = n" "uxItemSize q = s"
    "k' = k\<lparr>heap := vListInitialise m (vListInitialise l (heap k))\<rparr>"
proof -
  note w = word_sizes [OF assms(2)]
  have n0: "n \<noteq> 0" using assms(3) by (auto simp: xQueueGenericCreate_def split: if_splits)
  obtain b where b: "malloc (84 + (if s = 0 then 0 else n * s + 1)) = Some b"
    using assms(3) n0 by (auto simp: xQueueGenericCreate_def split: bind_splits)
  then have lb: "length b = unat (84 + (if s = 0 then 0 else n * s + 1))" using assms(1) by (simp add: malloc_ok_def)
  have q: "q = \<lparr>storage = drop 84 b, is_mutex = False, pcTail = uint (n * s), pxMutexHolder = None, pcWriteTo = 0,
      pcReadFrom = uint ((n - 1) * s), uxRecursiveCallCount = 0, xTasksWaitingToSend = l, xTasksWaitingToReceive = m,
      uxMessagesWaiting = 0, uxLength = n, uxItemSize = s, xRxLock = queueUNLOCKED, xTxLock = queueUNLOCKED, ucQueueType = ty\<rparr>"
    and k': "k' = k\<lparr>heap := vListInitialise m (vListInitialise l (heap k))\<rparr>"
    using assms(3) n0 b by (simp_all add: xQueueGenericCreate_def xQueueGenericReset_def Let_def)
  show "k' = k\<lparr>heap := vListInitialise m (vListInitialise l (heap k))\<rparr>" by (rule k')
  show "queue_items q = []" "\<not> is_mutex q" "pxMutexHolder q = None" "xTasksWaitingToSend q = l"
    "xTasksWaitingToReceive q = m" "uxLength q = n" "uxItemSize q = s"
    by (simp_all add: q queue_items_def)
  have nn: "0 < unat n" using n0 by (simp add: unat_gt_0)
  have "uint (n * s) = int (unat n * unat s)" "uint ((n - 1) * s) = int ((unat n - 1) * unat s)"
    using w(1) w(3) [OF n0] by (simp_all only: uint_nat)
  then show "queue_ok q"
    using nn lb w(2) by (auto simp: queue_ok_def q intro!: exI [of _ "unat n - 1"])
qed

section \<open>A program that starts\<close>

text \<open>
  The queues, mutexes and counting semaphores of a program, made in this order before the scheduler runs. The lists of the
  queue number \<open>i\<close> are \<open>15 + 2 * i\<close> and \<open>16 + 2 * i\<close>. \<open>None\<close> is a failed \<open>configASSERT\<close> or no memory.
  What fits is not empty and has a size in bytes that is a word.
\<close>

datatype object = Queue "32 word" "32 word" | Mutex | Semaphore "32 word" "32 word"

fun object_fits :: "object \<Rightarrow> bool" where
  "object_fits (Queue n s) = (n \<noteq> 0 \<and> unat n * unat s + 85 < 2 ^ 32)"
| "object_fits Mutex = True"
| "object_fits (Semaphore n c) = (n \<noteq> 0 \<and> c \<le> n)"

fun create_object :: "(32 word \<Rightarrow> 8 word list option) \<Rightarrow> nat \<Rightarrow> object \<Rightarrow> kernel \<Rightarrow> (queue \<times> kernel) option" where
  "create_object malloc i (Queue n s) k = xQueueGenericCreate malloc (15 + 2 * i) (16 + 2 * i) n s 0 k"
| "create_object malloc i Mutex k = do {
     (q, k) \<leftarrow> xQueueCreateMutex malloc (15 + 2 * i) (16 + 2 * i) 1 k;
     q \<leftarrow> q;
     Some (q, k) }"
| "create_object malloc i (Semaphore n c) k = xQueueCreateCountingSemaphore malloc (15 + 2 * i) (16 + 2 * i) n c k"

fun create_objects :: "(32 word \<Rightarrow> 8 word list option) \<Rightarrow> nat \<Rightarrow> object list \<Rightarrow> kernel \<Rightarrow> (queue list \<times> kernel) option" where
  "create_objects malloc i [] k = Some ([], k)"
| "create_objects malloc i (ob # obs) k = do {
     (q, k) \<leftarrow> create_object malloc i ob k;
     (qs, k) \<leftarrow> create_objects malloc (Suc i) obs k;
     Some (q # qs, k) }"

text \<open>
  The tasks have the numbers from 0 on; behind them are the idle task and the task of the timers, for which
  \<open>vTaskStartScheduler\<close> calls \<open>xTimerCreateTimerTask\<close>.
\<close>

abbreviation (input) configTIMER_TASK_PRIORITY :: nat where "configTIMER_TASK_PRIORITY \<equiv> 2"

definition start_system ::
  "(32 word \<Rightarrow> 8 word list option) \<Rightarrow> nat list \<Rightarrow> object list \<Rightarrow> store \<Rightarrow> system option" where
  "start_system malloc ps obs h = do {
     k \<leftarrow> create_tasks 0 ps (boot h);
     (qs, k) \<leftarrow> create_objects malloc 0 obs k;
     k \<leftarrow> vTaskStartScheduler (Some (length ps)) (xTaskGenericCreate (Some (Suc (length ps))) configTIMER_TASK_PRIORITY) k;
     Some \<lparr>kern = k, queues = (\<lambda>i. qs ! i), calls = (\<lambda>_. Application)\<rparr> }"

lemma not_started_lists:
  assumes "not_started T (event_lists i) prio k"
  shows "not_started T (event_lists (Suc i)) prio
    (k\<lparr>heap := vListInitialise (16 + 2 * i) (vListInitialise (15 + 2 * i) (heap k))\<rparr>)"
proof -
  let ?k = "k\<lparr>heap := vListInitialise (16 + 2 * i) (vListInitialise (15 + 2 * i) (heap k))\<rparr>"
  have "item_container ?k = item_container k" using listed_lists by (simp add: listed_def)
  then show ?thesis using assms new_lists_inv by (simp add: not_started_def)
qed

lemma create_mutex_spec:
  assumes "xQueueCreateMutex malloc l m ty k = Some (Some q, k')" "\<not> xSchedulerRunning k"
  shows "queue_ok q" "is_mutex q" "uxMessagesWaiting q = 1" "pxMutexHolder q = None" "xTasksWaitingToSend q = l"
    "xTasksWaitingToReceive q = m" "k' = k\<lparr>heap := vListInitialise m (vListInitialise l (heap k))\<rparr>"
proof -
  let ?k = "k\<lparr>heap := vListInitialise m (vListInitialise l (heap k))\<rparr>"
  obtain b where b: "malloc 84 = Some b" using assms(1) by (auto simp: xQueueCreateMutex_def split: option.splits)
  have e: "list_is_empty m ?k" by (simp add: list_is_empty_def list_length_def vListInitialise_def Let_def store_simps)
  have q: "q = \<lparr>storage = drop 84 b, is_mutex = True, pcTail = 0, pxMutexHolder = None, pcWriteTo = 0,
            pcReadFrom = 0, uxRecursiveCallCount = 0, xTasksWaitingToSend = l, xTasksWaitingToReceive = m,
            uxMessagesWaiting = 1, uxLength = 1, uxItemSize = 0, xRxLock = queueUNLOCKED, xTxLock = queueUNLOCKED,
            ucQueueType = ty\<rparr>" and k': "k' = ?k"
    using assms b e by (simp_all add: xQueueCreateMutex_def xQueueGenericSend_def xTaskGetSchedulerState_def send_step_def
        send_try_def prvCopyDataToQueue_def xTaskPriorityDisinherit_def)
  show "queue_ok q" by (simp add: q queue_ok_def)
  show "k' = ?k" by (rule k')
  show "is_mutex q" "uxMessagesWaiting q = 1" "pxMutexHolder q = None" "xTasksWaitingToSend q = l" "xTasksWaitingToReceive q = m"
    by (simp_all add: q)
qed

text \<open>What has been made: an empty queue, a free mutex, a semaphore with its initial count.\<close>

fun as_created :: "object \<Rightarrow> queue \<Rightarrow> bool" where
  "as_created (Queue n s) q = (\<not> is_mutex q \<and> uxLength q = n \<and> uxItemSize q = s \<and> queue_items q = [])"
| "as_created Mutex q = (is_mutex q \<and> uxMessagesWaiting q = 1)"
| "as_created (Semaphore n c) q = (\<not> is_mutex q \<and> uxLength q = n \<and> queue_items q = replicate (unat c) [])"

lemma create_object_spec:
  assumes "malloc_ok malloc" "object_fits ob" "not_started T (event_lists i) prio k"
    and "create_object malloc i ob k = Some (q, k')"
  shows "queue_good T i q \<and> pxMutexHolder q = None \<and> as_created ob q \<and> not_started T (event_lists (Suc i)) prio k'"
proof (cases ob)
  case (Queue n s)
  have "unat n * unat s + 85 < 2 ^ 32" using assms(2) Queue by simp
  then show ?thesis
    using create_queue_spec [OF assms(1), of n s "15 + 2 * i" "16 + 2 * i" 0 k q k'] assms(3,4) Queue not_started_lists
    by (simp add: queue_good_def)
next
  case Mutex
  have "\<not> xSchedulerRunning k" using assms(3) by (simp add: not_started_def)
  then show ?thesis
    using create_mutex_spec [of malloc "15 + 2 * i" "16 + 2 * i" 1 k q k'] assms(3,4) Mutex not_started_lists
    by (auto simp: queue_good_def split: bind_splits)
next
  case (Semaphore n c)
  obtain q1 where q1: "xQueueGenericCreate malloc (15 + 2 * i) (16 + 2 * i) n 0 2 k = Some (q1, k')"
    "q = q1\<lparr>uxMessagesWaiting := c\<rparr>" "c \<le> n"
    using assms(4) Semaphore by (auto simp: xQueueCreateCountingSemaphore_def split: if_splits bind_splits)
  note c = create_queue_spec [OF assms(1) _ q1(1)]
  have "queue_ok q" using c(1,3,7,8) q1(2,3) by (simp add: queue_ok_def word_le_nat_alt)
  moreover have "queue_items q = replicate (unat c) []" using c(8) q1(2) by (simp add: queue_items_def)
  ultimately show ?thesis using c(3-7,9) q1(2) assms(3) not_started_lists Semaphore by (simp add: queue_good_def)
qed

lemma create_objects_spec:
  assumes "malloc_ok malloc" "\<forall>ob \<in> set obs. object_fits ob" "not_started T (event_lists i) prio k"
    and "create_objects malloc i obs k = Some (qs, k')"
  shows "length qs = length obs \<and> not_started T (event_lists (i + length obs)) prio k' \<and>
    (\<forall>j < length obs. queue_good T (i + j) (qs ! j) \<and> pxMutexHolder (qs ! j) = None \<and> as_created (obs ! j) (qs ! j))"
  using assms(2-)
proof (induction obs arbitrary: i k qs)
  case (Cons ob obs)
  obtain q k1 qs' where c: "create_object malloc i ob k = Some (q, k1)"
    "create_objects malloc (Suc i) obs k1 = Some (qs', k')" "qs = q # qs'"
    using Cons.prems(3) by (auto split: bind_splits)
  have s: "queue_good T i q \<and> pxMutexHolder q = None \<and> as_created ob q \<and> not_started T (event_lists (Suc i)) prio k1"
    using create_object_spec [OF assms(1) _ Cons.prems(2) c(1)] Cons.prems(1) by simp
  then show ?case using Cons.IH [OF _ _ c(2)] Cons.prems(1) c(3) by (auto simp: less_Suc_eq_0_disj)
qed simp

text \<open>Starting the scheduler with all tasks ready.\<close>

lemma start_scheduler_inv:
  assumes "not_started T Q prio k"
  shows "kernel_inv T Q (start_scheduler k)" "xSchedulerRunning (start_scheduler k)"
    "uxSchedulerSuspended (start_scheduler k) = 0" "t < T \<Longrightarrow> is_ready (start_scheduler k) t"
    "t < T \<Longrightarrow> tcb (start_scheduler k) t = \<lparr>uxPriority = prio t, uxBasePriority = prio t, uxMutexesHeld = 0\<rparr>"
    "pxCurrentTCB (start_scheduler k) = pxCurrentTCB k" "\<not> pendsv (start_scheduler k)" "uxPendedTicks (start_scheduler k) = 0"
proof -
  let ?k = "start_scheduler k"
  have f: "item_container ?k = item_container k" "item_value ?k = item_value k" "tcb ?k = tcb k" "heap ?k = heap k"
    "pxCurrentTCB ?k = pxCurrentTCB k" "uxTopReadyPriority ?k = uxTopReadyPriority k"
    "pxDelayedTaskList ?k = pxDelayedTaskList k" "pxOverflowDelayedTaskList ?k = pxOverflowDelayedTaskList k"
    "uxCurrentNumberOfTasks ?k = uxCurrentNumberOfTasks k" "uxSchedulerSuspended ?k = uxSchedulerSuspended k"
    by (simp_all add: start_scheduler_def item_container_def item_value_def fun_eq_iff)
  have inv: "kernel_inv T Q k" and r: "\<And>t. t < T \<Longrightarrow> is_ready k t"
    using assms by (simp_all add: not_started_def)
  have core: "kernel_core T Q {} k" using inv by (simp add: kernel_inv_def)
  have "item_container k (generic t) \<noteq> Some 10" "item_container k (generic t) \<noteq> Some 11" if "t < T" for t
    using r [OF that] priority_less [OF core that] by auto
  then have "delays_ok T ?k" using inv by (auto simp: kernel_inv_def delays_ok_def f)
  moreover have "kernel_core T Q {} ?k" by (subst core_cong [where k = k]) (simp_all add: f core)
  moreover have "pending_ok T ?k" using inv by (simp add: kernel_inv_def pending_ok_def f)
  ultimately show "kernel_inv T Q ?k" by (simp add: kernel_inv_def)
  show "pxCurrentTCB ?k = pxCurrentTCB k" by (rule f)
  show "t < T \<Longrightarrow> is_ready ?k t" using r [of t] by (simp add: f)
  show "t < T \<Longrightarrow> tcb ?k t = \<lparr>uxPriority = prio t, uxBasePriority = prio t, uxMutexesHeld = 0\<rparr>"
    using assms by (simp add: not_started_def f)
  show "uxSchedulerSuspended ?k = 0" using assms by (simp add: not_started_def f)
  show "\<not> pendsv ?k" "uxPendedTicks ?k = 0" using assms by (simp_all add: not_started_def start_scheduler_def)
qed (simp add: start_scheduler_def)

lemma started_inv:
  assumes ns: "not_started T (event_lists N) prio k" and N: "N < 2 ^ 32" "idle < T"
    and qs: "\<forall>i < N. queue_good T i (qs i) \<and> pxMutexHolder (qs i) = None"
  shows "sys_inv T N idle \<lparr>kern = start_scheduler k, queues = qs, calls = (\<lambda>_. Application)\<rparr>"
    "\<exists>t < T. runs t \<lparr>kern = start_scheduler k, queues = qs, calls = (\<lambda>_. Application)\<rparr> \<and> (\<forall>u < T. prio u \<le> prio t)"
proof -
  let ?k = "start_scheduler k"
  note st = start_scheduler_inv [OF ns]
  have core: "kernel_core T (event_lists N) {} ?k" using st(1) by (simp add: kernel_inv_def)
  obtain cur where cur: "pxCurrentTCB ?k = Some cur" "cur < T" using current_task [OF core] by blast
  have "mutexes_held N qs t = {}" for t using qs by (auto simp: mutexes_held_def)
  then have "accounts T N qs (tcb ?k)" using st(5) by (simp add: accounts_def)
  moreover have "running_ok ?k cur None" using st(3,4) cur(2) by (simp add: running_ok_def)
  ultimately show "sys_inv T N idle \<lparr>kern = start_scheduler k, queues = qs, calls = (\<lambda>_. Application)\<rparr>"
    using st(1,2) st(4) [OF N(2)] N qs cur(1) by (simp add: sys_inv_def calls_ok_def)
  obtain c where "pxCurrentTCB ?k = Some c" "c < T" "\<forall>u < T. prio u \<le> prio c" using ns st(6) by (auto simp: not_started_def)
  then show "\<exists>t < T. runs t \<lparr>kern = start_scheduler k, queues = qs, calls = (\<lambda>_. Application)\<rparr> \<and> (\<forall>u < T. prio u \<le> prio t)"
    using st(7) by (auto simp: runs_def)
qed

lemma queue_good_mono: "queue_good T i q \<Longrightarrow> T \<le> T' \<Longrightarrow> queue_good T' i q"
  by (force simp: queue_good_def)

text \<open>
  A program that gets its memory starts in a state with the invariant: \<open>create_tasks\<close> always succeeds, starting the
  scheduler too, and creating the queues does when there is memory.
\<close>

definition program_ok :: "nat list \<Rightarrow> object list \<Rightarrow> bool" where
  "program_ok ps obs \<longleftrightarrow> ps \<noteq> [] \<and> (\<forall>p \<in> set ps. p < configMAX_PRIORITIES) \<and> 2 * (length ps + 2) < 2 ^ 32 \<and>
     (\<forall>ob \<in> set obs. object_fits ob) \<and> length obs < 2 ^ 32"

lemma start_system_inv:
  assumes "malloc_ok malloc" "program_ok ps obs" "start_system malloc ps obs h = Some s"
  shows "sys_inv (length ps + 2) (length obs) (length ps) s" "\<exists>t < length ps + 2. runs t s \<and> (\<forall>u < length ps + 2. priority_of (kern s) u \<le> priority_of (kern s) t)"
    "calls s = (\<lambda>_. Application)" "uxSchedulerSuspended (kern s) = 0" "t < length ps + 2 \<Longrightarrow> is_ready (kern s) t"
    "t < length ps + 2 \<Longrightarrow> uxMutexesHeld (tcb (kern s) t) = 0" "uxPendedTicks (kern s) = 0"
    "t < length ps \<Longrightarrow> priority_of (kern s) t = ps ! t" "priority_of (kern s) (length ps) = 0" "priority_of (kern s) (Suc (length ps)) = 2"
    "i < length obs \<Longrightarrow> as_created (obs ! i) (queues s i) \<and> pxMutexHolder (queues s i) = None"
proof -
  let ?T = "length ps" and ?N = "length obs"
  have p: "ps \<noteq> []" "\<forall>p \<in> set ps. p < 10" "2 * (?T + 2) < 2 ^ 32" "\<forall>ob \<in> set obs. object_fits ob" "?N < 2 ^ 32"
    using assms(2) by (simp_all add: program_ok_def)
  obtain k0 where k0: "create_tasks 0 ps (boot h) = Some k0" "not_started ?T {} (nth ps) k0"
    using create_tasks_inv [OF p(1,2), of h] p(3) by auto
  obtain qs k1 k4 where c: "create_objects malloc 0 obs k0 = Some (qs, k1)"
    "vTaskStartScheduler (Some ?T) (xTaskGenericCreate (Some (Suc ?T)) 2) k1 = Some k4"
    "s = \<lparr>kern = k4, queues = (\<lambda>i. qs ! i), calls = (\<lambda>_. Application)\<rparr>"
    using assms(3) k0(1) by (auto simp: start_system_def split: bind_splits)
  have "not_started ?T (event_lists 0) (nth ps) k0" using k0(2) by (simp add: event_lists_def)
  from create_objects_spec [OF assms(1) p(4) this c(1)]
  have q: "not_started ?T (event_lists ?N) (nth ps) k1" "\<forall>i < ?N. queue_good ?T i (qs ! i) \<and> pxMutexHolder (qs ! i) = None"
    "\<forall>i < ?N. as_created (obs ! i) (qs ! i)" by simp_all
  obtain k2 where k2: "xTaskGenericCreate (Some ?T) 0 k1 = Some (True, k2)" "not_started (Suc ?T) (event_lists ?N) ((nth ps)(?T := 0)) k2"
    using create_next [OF q(1), of 0] p(3) by auto
  obtain k3 where k3: "xTaskGenericCreate (Some (Suc ?T)) 2 k2 = Some (True, k3)"
    "not_started (Suc (Suc ?T)) (event_lists ?N) ((nth ps)(?T := 0, Suc ?T := 2)) k3"
    using create_next [OF k2(2), of 2] p(3) by auto
  have k4: "k4 = start_scheduler k3" using c(2) k2(1) k3(1) by (simp add: vTaskStartScheduler_def)
  have "\<forall>i < ?N. queue_good (Suc (Suc ?T)) i (qs ! i) \<and> pxMutexHolder (qs ! i) = None"
    using q(2) queue_good_mono [of ?T] by simp
  note st = start_scheduler_inv [OF k3(2)] and si = started_inv [OF k3(2) p(5) _ this, of ?T]
  show "sys_inv (length ps + 2) (length obs) (length ps) s" unfolding c(3) k4 using si(1) by simp
  show "\<exists>t < length ps + 2. runs t s \<and> (\<forall>u < length ps + 2. priority_of (kern s) u \<le> priority_of (kern s) t)"
  proof -
    obtain t where t: "t < ?T + 2" "runs t s" "\<forall>u < ?T + 2. ((nth ps)(?T := 0, Suc ?T := 2)) u \<le> ((nth ps)(?T := 0, Suc ?T := 2)) t"
      using si(2) unfolding c(3) k4 by auto
    have "priority_of (kern s) u = ((nth ps)(?T := 0, Suc ?T := 2)) u" if "u < ?T + 2" for u
      unfolding c(3) k4 using st(5) [of u] that by simp
    then show ?thesis using t by (metis (no_types, lifting))
  qed
  show "uxSchedulerSuspended (kern s) = 0" "t < length ps + 2 \<Longrightarrow> is_ready (kern s) t"
    "t < length ps + 2 \<Longrightarrow> uxMutexesHeld (tcb (kern s) t) = 0" "uxPendedTicks (kern s) = 0"
    "t < length ps \<Longrightarrow> priority_of (kern s) t = ps ! t" "priority_of (kern s) (length ps) = 0" "priority_of (kern s) (Suc (length ps)) = 2"
    unfolding c(3) k4 using st(3-5,8) by simp_all
  show "calls s = (\<lambda>_. Application)" "i < ?N \<Longrightarrow> as_created (obs ! i) (queues s i) \<and> pxMutexHolder (queues s i) = None"
    unfolding c(3) using q(2,3) by simp_all
qed

text \<open>With memory every program starts.\<close>

lemma create_object_succeeds:
  assumes "\<forall>n. malloc n \<noteq> None" "object_fits ob" "\<not> xSchedulerRunning k"
  shows "\<exists>q k'. create_object malloc i ob k = Some (q, k')"
proof (cases ob)
  case (Queue n s)
  then show ?thesis
    using assms(1,2) by (auto simp: xQueueGenericCreate_def xQueueGenericReset_def Let_def dest: spec [of _ "84 + (n * s + 1)"]
        spec [of _ 84])
next
  case Mutex
  obtain b where "malloc 84 = Some b" using assms(1) by auto
  moreover have "list_is_empty m (k\<lparr>heap := vListInitialise m (vListInitialise l (heap k))\<rparr>)" for l m
    by (simp add: list_is_empty_def list_length_def vListInitialise_def Let_def store_simps)
  ultimately show ?thesis
    using Mutex assms(3) by (simp add: xQueueCreateMutex_def xQueueGenericSend_def xTaskGetSchedulerState_def send_step_def
        send_try_def prvCopyDataToQueue_def xTaskPriorityDisinherit_def)
next
  case (Semaphore n c)
  obtain b where "malloc 84 = Some b" using assms(1) by auto
  then show ?thesis
    using Semaphore assms(2) by (simp add: xQueueCreateCountingSemaphore_def xQueueGenericCreate_def xQueueGenericReset_def Let_def)
qed

lemma create_objects_succeed:
  assumes "malloc_ok malloc" "\<forall>n. malloc n \<noteq> None" "\<forall>ob \<in> set obs. object_fits ob" "not_started T (event_lists i) prio k"
  shows "\<exists>qs k'. create_objects malloc i obs k = Some (qs, k')"
  using assms(3,4)
proof (induction obs arbitrary: i k)
  case (Cons ob obs)
  have "\<not> xSchedulerRunning k" using Cons.prems(2) by (simp add: not_started_def)
  then obtain q k1 where c: "create_object malloc i ob k = Some (q, k1)"
    using create_object_succeeds [OF assms(2)] Cons.prems(1) by fastforce
  then show ?case using create_object_spec [OF assms(1) _ Cons.prems(2) c] Cons.IH Cons.prems(1) by fastforce
qed simp

lemma start_system_succeeds:
  assumes "malloc_ok malloc" "\<forall>n. malloc n \<noteq> None" "program_ok ps obs"
  shows "\<exists>s. start_system malloc ps obs h = Some s"
proof -
  let ?T = "length ps" and ?N = "length obs"
  have p: "ps \<noteq> []" "\<forall>p \<in> set ps. p < 10" "2 * (?T + 2) < 2 ^ 32" "\<forall>ob \<in> set obs. object_fits ob"
    using assms(3) by (simp_all add: program_ok_def)
  obtain k0 where k0: "create_tasks 0 ps (boot h) = Some k0" "not_started ?T (event_lists 0) (nth ps) k0"
    using create_tasks_inv [OF p(1,2), of h] p(3) by (auto simp: event_lists_def)
  obtain qs k1 where c: "create_objects malloc 0 obs k0 = Some (qs, k1)"
    using create_objects_succeed [OF assms(1,2) p(4) k0(2)] by blast
  from create_objects_spec [OF assms(1) p(4) k0(2) c] have q: "not_started ?T (event_lists ?N) (nth ps) k1" by simp
  obtain k2 where k2: "xTaskGenericCreate (Some ?T) 0 k1 = Some (True, k2)" "not_started (Suc ?T) (event_lists ?N) ((nth ps)(?T := 0)) k2"
    using create_next [OF q, of 0] p(3) by auto
  obtain k3 where "xTaskGenericCreate (Some (Suc ?T)) 2 k2 = Some (True, k3)" using create_next [OF k2(2), of 2] p(3) by auto
  then show ?thesis using k0(1) c k2(1) by (simp add: start_system_def vTaskStartScheduler_def)
qed

section \<open>Runs of a program\<close>

text \<open>The states a program can reach: its tasks are numbered first, then come the idle task and the task of the timers.\<close>

abbreviation all_tasks :: "nat list \<Rightarrow> nat" where "all_tasks ps \<equiv> length ps + 2"

abbreviation idle_task :: "nat list \<Rightarrow> nat" where "idle_task ps \<equiv> length ps"

inductive reachable :: "(32 word \<Rightarrow> 8 word list option) \<Rightarrow> nat list \<Rightarrow> object list \<Rightarrow> system \<Rightarrow> bool" for malloc ps obs where
  started: "start_system malloc ps obs h = Some s \<Longrightarrow> reachable malloc ps obs s"
| stepped: "reachable malloc ps obs s \<Longrightarrow> sys_step (all_tasks ps) (length obs) (idle_task ps) s s' \<Longrightarrow> reachable malloc ps obs s'"

lemma reachable_inv:
  assumes "reachable malloc ps obs s" "malloc_ok malloc" "program_ok ps obs"
  shows "sys_inv (all_tasks ps) (length obs) (idle_task ps) s"
  using assms(1)
proof induction
  case (started h s)
  then show ?case using start_system_inv(1) [OF assms(2,3)] by simp
next
  case (stepped s s')
  then show ?case using sys_step_inv by blast
qed

lemma reachable_steps:
  "sys_steps (all_tasks ps) (length obs) (idle_task ps) s s' \<Longrightarrow> reachable malloc ps obs s \<Longrightarrow> reachable malloc ps obs s'"
  by (induction rule: rtranclp_induct) (auto intro: stepped)

end
