(* ===== verification/Rtos_Events.thy ===== *)
theory Rtos_Events
  imports Rtos_Create
begin

text \<open>
  Event groups, \<open>src/FreeRTOS/event_groups.c\<close>: tasks wait until some or all of a set of bits have been set. A task that
  waits leaves what it waits for in the value of its event item, and finds there the bits that woke it. A call is
  one step while it has suspended the scheduler; what follows when the task runs again is a step of its own, so that other tasks can
  come between. The calls from interrupts need the timer task to run functions and are configured out.
\<close>

section \<open>The group\<close>

abbreviation (input) eventCLEAR_EVENTS_ON_EXIT_BIT :: tick where "eventCLEAR_EVENTS_ON_EXIT_BIT \<equiv> 0x01000000"
abbreviation (input) eventUNBLOCKED_DUE_TO_BIT_SET :: tick where "eventUNBLOCKED_DUE_TO_BIT_SET \<equiv> 0x02000000"
abbreviation (input) eventWAIT_FOR_ALL_BITS :: tick where "eventWAIT_FOR_ALL_BITS \<equiv> 0x04000000"
abbreviation (input) eventEVENT_BITS_CONTROL_BYTES :: tick where "eventEVENT_BITS_CONTROL_BYTES \<equiv> 0xff000000"

record event_group =
  uxEventBits :: "32 word"
  xTasksWaitingForBits :: nat

text \<open>The list of the group is numbered by its argument; the group takes 28 bytes.\<close>

definition xEventGroupCreate ::
  "(32 word \<Rightarrow> 8 word list option) \<Rightarrow> nat \<Rightarrow> kernel \<Rightarrow> event_group option \<times> kernel" where
  "xEventGroupCreate malloc l k =
     (case malloc 28 of
        None \<Rightarrow> (None, k)
      | Some _ \<Rightarrow> (Some \<lparr>uxEventBits = 0, xTasksWaitingForBits = l\<rparr>, k\<lparr>heap := vListInitialise l (heap k)\<rparr>))"

definition prvTestWaitCondition :: "32 word \<Rightarrow> 32 word \<Rightarrow> bool \<Rightarrow> bool" where
  "prvTestWaitCondition uxCurrentEventBits uxBitsToWaitFor xWaitForAllBits \<longleftrightarrow>
     (if \<not> xWaitForAllBits then uxCurrentEventBits AND uxBitsToWaitFor \<noteq> 0
      else uxCurrentEventBits AND uxBitsToWaitFor = uxBitsToWaitFor)"

definition xEventGroupClearBits :: "32 word \<Rightarrow> event_group \<Rightarrow> (32 word \<times> event_group) option" where
  "xEventGroupClearBits uxBitsToClear g =
     (if uxBitsToClear AND eventEVENT_BITS_CONTROL_BYTES \<noteq> 0 then None
      else Some (uxEventBits g, g\<lparr>uxEventBits := uxEventBits g AND NOT uxBitsToClear\<rparr>))"

definition xEventGroupGetBitsFromISR :: "event_group \<Rightarrow> 32 word" where
  "xEventGroupGetBitsFromISR g = uxEventBits g"

section \<open>Setting bits\<close>

text \<open>The loop over the waiting tasks, from the item \<open>p\<close> on, with the bits to clear.\<close>

partial_function (option) set_bits_loop :: "nat \<Rightarrow> 32 word \<Rightarrow> ptr \<Rightarrow> 32 word \<Rightarrow> kernel \<Rightarrow> (32 word \<times> kernel) option" where
  "set_bits_loop l uxBits p uxBitsToClear k =
     (if p = End l then Some (uxBitsToClear, k)
      else do {
        let pxNext = next_of (heap k) p;
        let uxBitsWaitedFor = item_value k p;
        let uxControlBits = uxBitsWaitedFor AND eventEVENT_BITS_CONTROL_BYTES;
        let uxBitsWaitedFor = uxBitsWaitedFor AND NOT eventEVENT_BITS_CONTROL_BYTES;
        let xMatchFound =
          (if uxControlBits AND eventWAIT_FOR_ALL_BITS = 0 then uxBitsWaitedFor AND uxBits \<noteq> 0
           else uxBitsWaitedFor AND uxBits = uxBitsWaitedFor);
        if xMatchFound then do {
          let uxBitsToClear =
            (if uxControlBits AND eventCLEAR_EVENTS_ON_EXIT_BIT \<noteq> 0 then uxBitsToClear OR uxBitsWaitedFor else uxBitsToClear);
          (_, k) \<leftarrow> xTaskRemoveFromUnorderedEventList p (uxBits OR eventUNBLOCKED_DUE_TO_BIT_SET) k;
          set_bits_loop l uxBits pxNext uxBitsToClear k }
        else set_bits_loop l uxBits pxNext uxBitsToClear k })"

declare set_bits_loop.simps [code]

text \<open>What is returned are the bits of the group when the task runs on after the scheduler has been resumed.\<close>

definition xEventGroupSetBits :: "32 word \<Rightarrow> event_group \<Rightarrow> kernel \<Rightarrow> (event_group \<times> kernel) option" where
  "xEventGroupSetBits uxBitsToSet g k =
     (if uxBitsToSet AND eventEVENT_BITS_CONTROL_BYTES \<noteq> 0 then None
      else do {
        let l = xTasksWaitingForBits g;
        let k = vTaskSuspendAll k;
        let pxListItem = next_of (heap k) (End l);
        let g = g\<lparr>uxEventBits := uxEventBits g OR uxBitsToSet\<rparr>;
        (uxBitsToClear, k) \<leftarrow> set_bits_loop l (uxEventBits g) pxListItem 0 k;
        let g = g\<lparr>uxEventBits := uxEventBits g AND NOT uxBitsToClear\<rparr>;
        (_, k) \<leftarrow> xTaskResumeAll k;
        Some (g, k) })"

partial_function (option) delete_loop :: "nat \<Rightarrow> kernel \<Rightarrow> kernel option" where
  "delete_loop l k =
     (if list_length l k > 0 then
        if next_of (heap k) (End l) = End l then None
        else do {
          (_, k) \<leftarrow> xTaskRemoveFromUnorderedEventList (next_of (heap k) (End l)) eventUNBLOCKED_DUE_TO_BIT_SET k;
          delete_loop l k }
      else Some k)"

declare delete_loop.simps [code]

text \<open>The memory of the group is freed.\<close>

definition vEventGroupDelete :: "event_group \<Rightarrow> kernel \<Rightarrow> kernel option" where
  "vEventGroupDelete g k = do {
     let k = vTaskSuspendAll k;
     k \<leftarrow> delete_loop (xTasksWaitingForBits g) k;
     (_, k) \<leftarrow> xTaskResumeAll k;
     Some k }"

section \<open>Waiting\<close>

text \<open>Where a call that waits is: blocked, back after its time is up, or returned with bits.\<close>

datatype event_pc = Blocked | Timed_out | Returned_bits "32 word"

definition block_or_return :: "tick \<Rightarrow> 32 word \<Rightarrow> event_group \<Rightarrow> kernel \<Rightarrow> (event_pc \<times> event_group \<times> kernel) option" where
  "block_or_return ticksToWait uxReturn g k = do {
     (xAlreadyYielded, k) \<leftarrow> xTaskResumeAll k;
     Some (if ticksToWait \<noteq> 0 then (Blocked, g, if \<not> xAlreadyYielded then portYIELD k else k)
           else (Returned_bits uxReturn, g, k)) }"

definition xEventGroupWaitBits ::
  "32 word \<Rightarrow> bool \<Rightarrow> bool \<Rightarrow> tick \<Rightarrow> event_group \<Rightarrow> kernel \<Rightarrow> (event_pc \<times> event_group \<times> kernel) option" where
  "xEventGroupWaitBits uxBitsToWaitFor xClearOnExit xWaitForAllBits ticksToWait g k =
     (if uxBitsToWaitFor AND eventEVENT_BITS_CONTROL_BYTES \<noteq> 0 \<or> uxBitsToWaitFor = 0 then None
      else if xTaskGetSchedulerState k = taskSCHEDULER_SUSPENDED \<and> ticksToWait \<noteq> 0 then None
      else do {
        let k = vTaskSuspendAll k;
        let uxCurrentEventBits = uxEventBits g;
        if prvTestWaitCondition uxCurrentEventBits uxBitsToWaitFor xWaitForAllBits then
          block_or_return 0 uxCurrentEventBits
            (if xClearOnExit then g\<lparr>uxEventBits := uxEventBits g AND NOT uxBitsToWaitFor\<rparr> else g) k
        else if ticksToWait = 0 then block_or_return ticksToWait uxCurrentEventBits g k
        else do {
          let uxControlBits = (if xClearOnExit then eventCLEAR_EVENTS_ON_EXIT_BIT else 0);
          let uxControlBits = (if xWaitForAllBits then uxControlBits OR eventWAIT_FOR_ALL_BITS else uxControlBits);
          k \<leftarrow> vTaskPlaceOnUnorderedEventList (xTasksWaitingForBits g) (uxBitsToWaitFor OR uxControlBits) ticksToWait k;
          block_or_return ticksToWait 0 g k } })"

text \<open>
  What the call does when the task runs again: it reads what it was woken with, or, after a time-out, the bits as they are.
\<close>

fun wait_bits_step ::
  "32 word \<Rightarrow> bool \<Rightarrow> bool \<Rightarrow> event_pc \<Rightarrow> event_group \<Rightarrow> kernel \<Rightarrow> (event_pc \<times> event_group \<times> kernel) option" where
  "wait_bits_step uxBitsToWaitFor xClearOnExit xWaitForAllBits Blocked g k = do {
     (uxReturn, k) \<leftarrow> uxTaskResetEventItemValue k;
     Some (if uxReturn AND eventUNBLOCKED_DUE_TO_BIT_SET = 0 then Timed_out
           else Returned_bits (uxReturn AND NOT eventEVENT_BITS_CONTROL_BYTES), g, k) }"
| "wait_bits_step uxBitsToWaitFor xClearOnExit xWaitForAllBits Timed_out g k =
     Some (Returned_bits (uxEventBits g AND NOT eventEVENT_BITS_CONTROL_BYTES),
       if prvTestWaitCondition (uxEventBits g) uxBitsToWaitFor xWaitForAllBits \<and> xClearOnExit
       then g\<lparr>uxEventBits := uxEventBits g AND NOT uxBitsToWaitFor\<rparr> else g, k)"
| "wait_bits_step uxBitsToWaitFor xClearOnExit xWaitForAllBits (Returned_bits r) g k = None"

text \<open>The rendezvous sets bits and waits for all of others, in one call; the bits are always cleared.\<close>

definition xEventGroupSync ::
  "32 word \<Rightarrow> 32 word \<Rightarrow> tick \<Rightarrow> event_group \<Rightarrow> kernel \<Rightarrow> (event_pc \<times> event_group \<times> kernel) option" where
  "xEventGroupSync uxBitsToSet uxBitsToWaitFor ticksToWait g k =
     (if uxBitsToWaitFor AND eventEVENT_BITS_CONTROL_BYTES \<noteq> 0 \<or> uxBitsToWaitFor = 0 then None
      else if xTaskGetSchedulerState k = taskSCHEDULER_SUSPENDED \<and> ticksToWait \<noteq> 0 then None
      else do {
        let k = vTaskSuspendAll k;
        let uxOriginalBitValue = uxEventBits g;
        (g, k) \<leftarrow> xEventGroupSetBits uxBitsToSet g k;
        if (uxOriginalBitValue OR uxBitsToSet) AND uxBitsToWaitFor = uxBitsToWaitFor then
          block_or_return 0 (uxOriginalBitValue OR uxBitsToSet) (g\<lparr>uxEventBits := uxEventBits g AND NOT uxBitsToWaitFor\<rparr>) k
        else if ticksToWait \<noteq> 0 then do {
          k \<leftarrow> vTaskPlaceOnUnorderedEventList (xTasksWaitingForBits g)
                 (uxBitsToWaitFor OR eventCLEAR_EVENTS_ON_EXIT_BIT OR eventWAIT_FOR_ALL_BITS) ticksToWait k;
          block_or_return ticksToWait 0 g k }
        else block_or_return ticksToWait (uxEventBits g) g k })"

text \<open>The rest of the rendezvous is that of a wait for all bits that clears them.\<close>

definition sync_step :: "32 word \<Rightarrow> event_pc \<Rightarrow> event_group \<Rightarrow> kernel \<Rightarrow> (event_pc \<times> event_group \<times> kernel) option" where
  "sync_step uxBitsToWaitFor = wait_bits_step uxBitsToWaitFor True True"

section \<open>Bits\<close>

text \<open>Whether an item's value is met by the bits \<open>b\<close>, and what is then to be cleared.\<close>

definition bits_met :: "tick \<Rightarrow> 32 word \<Rightarrow> bool" where
  "bits_met v b \<longleftrightarrow> prvTestWaitCondition b (v AND NOT eventEVENT_BITS_CONTROL_BYTES) (v AND eventWAIT_FOR_ALL_BITS \<noteq> 0)"

definition to_clear :: "tick \<Rightarrow> 32 word" where
  "to_clear v = (if v AND eventCLEAR_EVENTS_ON_EXIT_BIT \<noteq> 0 then v AND NOT eventEVENT_BITS_CONTROL_BYTES else 0)"

fun or_all :: "32 word list \<Rightarrow> 32 word" where
  "or_all [] = 0"
| "or_all (w # ws) = w OR or_all ws"

lemma bit_or_all: "bit (or_all ws) i \<longleftrightarrow> (\<exists>w \<in> set ws. bit w i)"
  by (induction ws) (auto simp: bit_or_iff)

lemma or_all_cong: "set ws = set ws' \<Longrightarrow> or_all ws = or_all ws'"
  by (rule bit_eqI) (simp add: bit_or_all)

lemma set_bits_loop_end: "set_bits_loop l b (End l) clr k = Some (clr, k)"
  by (subst set_bits_loop.simps) simp

lemma set_bits_loop_item:
  assumes "p \<noteq> End l"
  shows "set_bits_loop l b p clr k =
    (if bits_met (item_value k p) b then do {
       (_, k') \<leftarrow> xTaskRemoveFromUnorderedEventList p (b OR eventUNBLOCKED_DUE_TO_BIT_SET) k;
       set_bits_loop l b (next_of (heap k) p) (clr OR to_clear (item_value k p)) k' }
     else set_bits_loop l b (next_of (heap k) p) clr k)"
proof -
  have c: "(v AND eventEVENT_BITS_CONTROL_BYTES) AND eventWAIT_FOR_ALL_BITS = v AND eventWAIT_FOR_ALL_BITS"
    "(v AND eventEVENT_BITS_CONTROL_BYTES) AND eventCLEAR_EVENTS_ON_EXIT_BIT = v AND eventCLEAR_EVENTS_ON_EXIT_BIT" for v :: tick
    by (simp_all add: and.assoc)
  show ?thesis
    using assms unfolding bits_met_def to_clear_def prvTestWaitCondition_def
    by (subst set_bits_loop.simps)
      (simp only: Let_def c if_False not_not and.commute [of b] or.right_neutral if_distrib [of "(OR) clr"] cong: if_cong)
qed

section \<open>Values and lists\<close>

lemma list_value_simps [simp]:
  "item_value (list_insert_end l p k) = item_value k"
  "item_value (portRESET_READY_PRIORITY q k) = item_value k"
  by (simp_all add: fun_eq_iff item_value_def list_insert_end_def vListInsertEnd_def Let_def store_simps portRESET_READY_PRIORITY_def)

lemma list_remove_value: "list_remove p k = Some (n, k') \<Longrightarrow> item_value k' = item_value k"
  by (auto simp: fun_eq_iff item_value_def list_remove_def uxListRemove_def Let_def store_simps split: bind_splits)

lemma list_insert_value: "list_insert l p k = Some k' \<Longrightarrow> item_value k' = item_value k"
  by (auto simp: fun_eq_iff item_value_def list_insert_def vListInsert_def Let_def store_simps simp del: if_split split: bind_splits)

lemma leave_ready_value: "leave_ready_list t k = Some k' \<Longrightarrow> item_value k' = item_value k"
  by (auto simp: leave_ready_list_def split: bind_splits dest: list_remove_value)

lemma block_current_value: "block_current forever n k = Some k' \<Longrightarrow> item_value k' (event u) = item_value k (event u)"
  by (auto simp: block_current_def prvAddCurrentTaskToDelayedList_def Let_def split: bind_splits if_splits dest!: list_insert_value)

lemma place_unordered_value:
  assumes "vTaskPlaceOnUnorderedEventList l v n k = Some k'" "pxCurrentTCB k = Some t"
  shows "item_value k' (event u) = (if u = t then v OR taskEVENT_LIST_ITEM_VALUE_IN_USE else item_value k (event u))"
  using assms by (auto simp: vTaskPlaceOnUnorderedEventList_def Let_def split: bind_splits if_splits
      dest!: leave_ready_value block_current_value [where u = u])

text \<open>Removing a task from the list of a group takes it out of the ring and leaves the others in order.\<close>

lemma remove_unordered_lists:
  assumes f: "kernel_lists T Q f k" and core: "kernel_core T Q {} k" and t: "t < T" "item_container k (event t) = Some l" "l \<in> Q"
    and r: "xTaskRemoveFromUnorderedEventList (event t) v k = Some (y, k')"
  shows "\<exists>f'. kernel_lists T Q f' k' \<and> f' l = remove1 (event t) (f l)"
proof -
  let ?v = "v OR taskEVENT_LIST_ITEM_VALUE_IN_USE"
  define k0 where "k0 = set_item_value (event t) ?v k"
  have sv: "map (item_value k0) (f m) = map (item_value k) (f m)" if m: "m \<in> {10, 11}" for m
  proof -
    have "set (f m) = generic ` {t. t < T \<and> item_container k (generic t) = Some m}"
      using list_of_generics [OF f, of "{}" m] core m by (auto simp: kernel_core_def)
    then show ?thesis by (auto simp: k0_def)
  qed
  have "holds ({..<15} \<union> Q) (2 * T) (heap k0) f"
    using f by (simp add: k0_def set_item_value_def event_def holds_set_value kernel_lists_def)
  then have f0: "kernel_lists T Q f k0" using f sv [of 10] sv [of 11] by (simp add: kernel_lists_def del: map_eq_conv)
  obtain n k1 m k2 where w: "list_remove (event t) k0 = Some (n, k1)" "list_remove (generic t) k1 = Some (m, k2)"
    and k': "k' = prvAddTaskToReadyList t k2 \<or> k' = (prvAddTaskToReadyList t k2)\<lparr>xYieldPending := True\<rparr>"
    using r by (auto simp: xTaskRemoveFromUnorderedEventList_def Let_def k0_def split: bind_splits if_splits)
  note e = event_Item [OF t(1)] and g = generic_Item [OF t(1)]
  have f1: "kernel_lists T Q (f(l := remove1 (event t) (f l))) k1" "only_moved k0 k1 (event t) None"
    using list_remove_step [OF f0 conjunct1 [OF e] conjunct2 [OF e], of l] t(2) w(1) by (auto simp: k0_def)
  obtain c where c: "item_container k (generic t) = Some c" "c < 15"
    using core t unfolding kernel_core_def tasks_ok_def by blast
  let ?f1 = "f(l := remove1 (event t) (f l))"
  have f2: "kernel_lists T Q (?f1(c := remove1 (generic t) (?f1 c))) k2" "only_moved k1 k2 (generic t) None"
    using list_remove_step [OF f1(1) conjunct1 [OF g] conjunct2 [OF g], of c] c(1) w(2) only_moved_simps(2) [OF f1(2)]
    by (auto simp: k0_def)
  define k3 where "k3 = portRECORD_READY_PRIORITY (priority_of k2 t) k2"
  have f3: "kernel_lists T Q (?f1(c := remove1 (generic t) (?f1 c))) k3" using f2(1) by (simp add: kernel_lists_def k3_def)
  have tc: "tcb k2 = tcb k" by (simp add: only_moved_simps(3) [OF f1(2)] only_moved_simps(3) [OF f2(2)] k0_def)
  have p: "priority_of k2 t < configMAX_PRIORITIES" using priority_less [OF core t(1)] by (simp add: tc)
  obtain ys where ys: "kernel_lists T Q (?f1(c := remove1 (generic t) (?f1 c), priority_of k2 t := ys)) (prvAddTaskToReadyList t k2)"
    using list_insert_end_step [OF f3 conjunct1 [OF g] conjunct2 [OF g], of "priority_of k2 t"] p
      only_moved_simps(2) [OF f2(2)] by (auto simp: k3_def prvAddTaskToReadyList_def)
  have "l \<noteq> c" "l \<noteq> priority_of k2 t" using t(3) c(2) p core_queues [OF core] by auto
  moreover have "kernel_lists T Q f' (k\<lparr>xYieldPending := b\<rparr>) = kernel_lists T Q f' k" for f' k b
    by (simp add: kernel_lists_def item_value_def cong: map_cong)
  ultimately show ?thesis using ys k' by (metis fun_upd_apply)
qed

section \<open>Setting bits wakes whom it should\<close>

text \<open>From \<open>k\<close> to \<open>k'\<close> the tasks \<open>W\<close> have been made ready with \<open>v\<close> in their event item; the rest is as it was.\<close>

definition woken_with :: "kernel \<Rightarrow> nat set \<Rightarrow> tick \<Rightarrow> kernel \<Rightarrow> bool" where
  "woken_with k W v k' \<longleftrightarrow> tcb k' = tcb k \<and> pxCurrentTCB k' = pxCurrentTCB k \<and> counters k' = counters k \<and>
     uxSchedulerSuspended k' = uxSchedulerSuspended k \<and> uxPendedTicks k' = uxPendedTicks k \<and>
     xSchedulerRunning k' = xSchedulerRunning k \<and>
     (\<forall>t. item_container k' (generic t) = (if t \<in> W then Some (priority_of k t) else item_container k (generic t))) \<and>
     (\<forall>t. item_container k' (event t) = (if t \<in> W then None else item_container k (event t))) \<and>
     (\<forall>t. item_value k' (generic t) = item_value k (generic t)) \<and>
     (\<forall>t. item_value k' (event t) = (if t \<in> W then v OR taskEVENT_LIST_ITEM_VALUE_IN_USE else item_value k (event t)))"

lemma set_bits_loop_spec:
  fixes b :: "32 word"
  assumes "kernel_inv T Q k" "l \<in> Q" "kernel_lists T Q f k" "f l = map event (stay @ rest)"
    and "uxSchedulerSuspended k \<noteq> 0" "pxCurrentTCB k = Some cur"
  defines "W \<equiv> filter (\<lambda>t. bits_met (item_value k (event t)) b) rest"
  shows "\<exists>k'. set_bits_loop l b (hd (map event rest @ [End l])) clr k =
      Some (clr OR or_all (map (\<lambda>t. to_clear (item_value k (event t))) W), k') \<and> kernel_inv T Q k' \<and>
    woken_with k (set W) (b OR eventUNBLOCKED_DUE_TO_BIT_SET) k' \<and> pendsv k' = pendsv k \<and>
    (xYieldPending k' \<longleftrightarrow> xYieldPending k \<or> (\<exists>t \<in> set W. priority_of k cur < priority_of k t))"
  using assms(1-6) unfolding W_def
proof (induction rest arbitrary: stay clr k f)
  case Nil
  then show ?case by (intro exI [of _ k]) (simp add: set_bits_loop_end woken_with_def)
next
  case (Cons t rest)
  note inv = Cons.prems(1) and l = Cons.prems(2) and f = Cons.prems(3) and fl = Cons.prems(4)
  have core: "kernel_core T Q {} k" using inv by (simp add: kernel_inv_def)
  have l': "l < 15 \<or> l \<in> Q" using l by simp
  have il: "is_list (heap k) l (f l)"
    using f l holds_is_list [of "{..<15} \<union> Q" "2 * T" "heap k" f l] by (simp add: kernel_lists_def)
  have nx: "next_of (heap k) (event t) = hd (map event rest @ [End l])"
  proof -
    have "seg (heap k) (End l) (map event stay @ event t # map event rest) (End l)" using il fl by (simp add: is_list_def)
    then show ?thesis using seg_first [of "heap k" "event t" "map event rest" "End l"] by (simp add: seg_append)
  qed
  have dist: "t \<notin> set stay" "t \<notin> set rest" "distinct rest"
    using il fl by (auto simp: is_list_def distinct_map)
  have "event t \<in> set (f l)" using fl by simp
  then have "event t \<in> event ` {t. t < T \<and> item_container k (event t) = Some l}"
    using list_of_events [OF f, of "{}" l] core l by (simp add: kernel_core_def)
  then have t: "t < T" "item_container k (event t) = Some l" by auto
  show ?case
  proof (cases "bits_met (item_value k (event t)) b")
    case False
    obtain k' where k': "set_bits_loop l b (hd (map event rest @ [End l])) clr k =
        Some (clr OR or_all (map (\<lambda>t. to_clear (item_value k (event t))) (filter (\<lambda>t. bits_met (item_value k (event t)) b) rest)), k')"
      "kernel_inv T Q k'"
      "woken_with k (set (filter (\<lambda>t. bits_met (item_value k (event t)) b) rest)) (b OR eventUNBLOCKED_DUE_TO_BIT_SET) k'"
      "pendsv k' = pendsv k"
      "xYieldPending k' \<longleftrightarrow> xYieldPending k \<or>
        (\<exists>t \<in> set (filter (\<lambda>t. bits_met (item_value k (event t)) b) rest). priority_of k cur < priority_of k t)"
      using Cons.IH [OF inv l f, of "stay @ [t]" clr] fl Cons.prems(5,6) by auto
    have "set_bits_loop l b (event t) clr k = set_bits_loop l b (hd (map event rest @ [End l])) clr k"
      using set_bits_loop_item [of "event t" l b clr k] False nx by (simp add: event_def)
    then show ?thesis using k' False by (intro exI [of _ k']) simp
  next
    case True
    let ?v = "b OR eventUNBLOCKED_DUE_TO_BIT_SET"
    obtain k1 where k1: "xTaskRemoveFromUnorderedEventList (event t) ?v k = Some (priority_of k cur < priority_of k t, k1)"
      "kernel_inv T Q k1"
      "lists_changed (k\<lparr>xYieldPending := xYieldPending k \<or> priority_of k cur < priority_of k t\<rparr>) k1"
      "item_value k1 = (item_value k)(event t := ?v OR taskEVENT_LIST_ITEM_VALUE_IN_USE)"
      "item_container k1 = (item_container k)(generic t := Some (priority_of k t), event t := None)"
      using xTaskRemoveFromUnorderedEventList_spec [OF inv t Cons.prems(5,6)] by blast
    have same: "tcb k1 = tcb k" "pxCurrentTCB k1 = Some cur" "uxSchedulerSuspended k1 = uxSchedulerSuspended k"
      "xYieldPending k1 \<longleftrightarrow> xYieldPending k \<or> priority_of k cur < priority_of k t" "pendsv k1 = pendsv k"
      using k1(3) Cons.prems(6) by (simp_all add: lists_changed_def)
    obtain f1 where f1: "kernel_lists T Q f1 k1" "f1 l = remove1 (event t) (f l)"
      using remove_unordered_lists [OF f core t l k1(1)] by blast
    have "event t \<notin> event ` set stay" using dist(1) by auto
    then have fl1: "f1 l = map event (stay @ rest)" using f1(2) fl by (simp add: remove1_append)
    have val: "item_value k1 (event u) = item_value k (event u)" if "u \<in> set rest" for u
      using that dist(2) by (auto simp: k1(4))
    let ?R = "filter (\<lambda>t. bits_met (item_value k (event t)) b) rest"
    have R: "filter (\<lambda>t. bits_met (item_value k1 (event t)) b) rest = ?R" by (rule filter_cong) (simp_all add: val)
    have M: "map (\<lambda>t. to_clear (item_value k1 (event t))) ?R = map (\<lambda>t. to_clear (item_value k (event t))) ?R"
      by (rule map_cong) (simp_all add: val)
    let ?c = "clr OR to_clear (item_value k (event t))"
    obtain k' where k': "set_bits_loop l b (hd (map event rest @ [End l])) ?c k1 =
        Some (?c OR or_all (map (\<lambda>t. to_clear (item_value k (event t))) ?R), k')" "kernel_inv T Q k'"
      "woken_with k1 (set ?R) ?v k'" "pendsv k' = pendsv k1"
      "xYieldPending k' \<longleftrightarrow> xYieldPending k1 \<or> (\<exists>u \<in> set ?R. priority_of k1 cur < priority_of k1 u)"
      using Cons.IH [OF k1(2) l f1(1) fl1, of ?c] same(2,3) Cons.prems(5) unfolding R M by auto
    have "set_bits_loop l b (event t) clr k = set_bits_loop l b (hd (map event rest @ [End l])) ?c k1"
      using set_bits_loop_item [of "event t" l b clr k] True nx k1(1) by (simp add: event_def)
    moreover have "woken_with k (insert t (set ?R)) ?v k'"
      using k'(3) k1(3) by (auto simp: woken_with_def k1(4,5) lists_changed_def)
    ultimately show ?thesis
      using k' True same by (intro exI [of _ k']) (auto simp: or.assoc)
  qed
qed

text \<open>The tasks that wait for bits of the group, those that the bits \<open>b\<close> wake, and what these clear.\<close>

definition waiters :: "nat \<Rightarrow> nat \<Rightarrow> kernel \<Rightarrow> nat list" where
  "waiters T l k = filter (\<lambda>t. item_container k (event t) = Some l) [0..<T]"

definition woken_by :: "nat \<Rightarrow> nat \<Rightarrow> 32 word \<Rightarrow> kernel \<Rightarrow> nat list" where
  "woken_by T l b k = filter (\<lambda>t. bits_met (item_value k (event t)) b) (waiters T l k)"

definition cleared_by :: "nat \<Rightarrow> nat \<Rightarrow> 32 word \<Rightarrow> kernel \<Rightarrow> 32 word" where
  "cleared_by T l b k = or_all (map (\<lambda>t. to_clear (item_value k (event t))) (woken_by T l b k))"

lemma list_of_waiters:
  assumes "kernel_core T Q {} k" "kernel_lists T Q f k" "l \<in> Q"
  shows "\<exists>ts. f l = map event ts \<and> set ts = set (waiters T l k)"
proof -
  have s: "set (f l) = event ` set (waiters T l k)"
    using list_of_events [OF assms(2), of "{}" l] assms(1,3) by (auto simp: kernel_core_def waiters_def)
  have "\<exists>ts. xs = map event ts" if "set xs \<subseteq> event ` A" for xs A
    using that
  proof (induction xs)
    case (Cons x xs)
    then obtain t ts where "x = event t" "xs = map event ts" by auto
    then show ?case by (intro exI [of _ "t # ts"]) simp
  qed simp
  then obtain ts where "f l = map event ts" using s by (metis order_refl)
  moreover have "set ts = set (waiters T l k)" using s inj_image_eq_iff [of event] unfolding calculation by (simp add: inj_on_def)
  ultimately show ?thesis by blast
qed

lemma resume_nested:
  assumes "uxSchedulerSuspended k \<noteq> 0" "uxSchedulerSuspended k \<noteq> 1"
  shows "xTaskResumeAll k = Some (False, k\<lparr>uxSchedulerSuspended := uxSchedulerSuspended k - 1\<rparr>)"
proof -
  have "uxSchedulerSuspended k - 1 \<noteq> 0" using assms(2) by simp
  then show ?thesis using assms(1) by (simp add: xTaskResumeAll_def Let_def)
qed

text \<open>Nothing is pending when the scheduler was running before, so that resuming it only asks for the switch.\<close>

lemma resume_after_bits:
  assumes "kernel_inv T Q k1" "uxSchedulerSuspended k1 = n + 1" "n + 1 \<noteq> 0"
    and "n = 0 \<Longrightarrow> uxPendedTicks k1 = 0 \<and> \<not> (\<exists>t. pending T k1 t)"
  shows "\<exists>y k'. xTaskResumeAll k1 = Some (y, k') \<and> kernel_inv T Q k' \<and> k' = k1\<lparr>uxSchedulerSuspended := n, pendsv := pendsv k'\<rparr> \<and>
    y = (n = 0 \<and> xYieldPending k1) \<and> pendsv k' = (pendsv k1 \<or> y)"
proof (cases "n = 0")
  case True
  let ?k = "(if xYieldPending k1 then portYIELD else (\<lambda>k. k)) (k1\<lparr>uxSchedulerSuspended := 0\<rparr>)"
  have r: "xTaskResumeAll k1 = Some (xYieldPending k1, ?k)" using resume_idle [OF assms(1)] assms(2,4) True by simp
  have nz: "uxSchedulerSuspended k1 \<noteq> 0" using assms(2) True by simp
  obtain y k' where k': "xTaskResumeAll k1 = Some (y, k')" "kernel_inv T Q k'" using resume_spec [OF assms(1) nz] by blast
  then have "k' = ?k" using r by (metis option.inject prod.inject)
  with k'(2) have "kernel_inv T Q ?k" by (simp only:)
  then show ?thesis using r True by (intro exI [of _ "xYieldPending k1"] exI [of _ ?k]) (simp add: portYIELD_def)
next
  case False
  have s: "uxSchedulerSuspended k1 \<noteq> 0" "uxSchedulerSuspended k1 \<noteq> 1" using assms(2,3) False by auto
  obtain y k' where k': "xTaskResumeAll k1 = Some (y, k')" "kernel_inv T Q k'" using resume_spec [OF assms(1) s(1)] by blast
  then have "kernel_inv T Q (k1\<lparr>uxSchedulerSuspended := n\<rparr>)" using resume_nested [OF s] assms(2) by simp
  then show ?thesis
    using resume_nested [OF s] assms(2) False
    by (intro exI [of _ False] exI [of _ "k1\<lparr>uxSchedulerSuspended := n\<rparr>"]) simp
qed

lemma set_bits_spec:
  assumes inv: "kernel_inv T Q k" and l: "xTasksWaitingForBits g \<in> Q" and b: "b AND eventEVENT_BITS_CONTROL_BYTES = 0"
    and cur: "pxCurrentTCB k = Some cur" and n: "uxSchedulerSuspended k + 1 \<noteq> 0" "uxSchedulerSuspended k = 0 \<Longrightarrow> uxPendedTicks k = 0"
  defines "l \<equiv> xTasksWaitingForBits g" and "v \<equiv> uxEventBits g OR b"
  shows "\<exists>k'. xEventGroupSetBits b g k = Some (g\<lparr>uxEventBits := v AND NOT (cleared_by T l v k)\<rparr>, k') \<and> kernel_inv T Q k' \<and>
    woken_with k (set (woken_by T l v k)) (v OR eventUNBLOCKED_DUE_TO_BIT_SET) k' \<and> (pendsv k \<longrightarrow> pendsv k') \<and>
    (uxSchedulerSuspended k = 0 \<longrightarrow> (\<exists>t \<in> set (woken_by T l v k). priority_of k cur < priority_of k t) \<longrightarrow> pendsv k') \<and>
    (xYieldPending k' \<longleftrightarrow> xYieldPending k \<or> (\<exists>t \<in> set (woken_by T l v k). priority_of k cur < priority_of k t))"
proof -
  define k0 where "k0 = vTaskSuspendAll k"
  have inv0: "kernel_inv T Q k0" using vTaskSuspendAll_spec [OF inv n(1)] by (simp add: k0_def)
  have same: "item_value k0 = item_value k" "item_container k0 = item_container k" "tcb k0 = tcb k" "pxCurrentTCB k0 = Some cur"
    "uxSchedulerSuspended k0 = uxSchedulerSuspended k + 1" "uxPendedTicks k0 = uxPendedTicks k" "pendsv k0 = pendsv k"
    "xYieldPending k0 = xYieldPending k" "counters k0 = counters k" "xSchedulerRunning k0 = xSchedulerRunning k"
    using cur by (simp_all add: k0_def vTaskSuspendAll_def item_value_def item_container_def fun_eq_iff)
  have core: "kernel_core T Q {} k0" using inv0 by (simp add: kernel_inv_def)
  obtain f where f: "kernel_lists T Q f k0" using core kernel_core_lists by blast
  have lQ: "l \<in> Q" using l by (simp add: l_def)
  obtain ts where ts: "f l = map event ts" "set ts = set (waiters T l k0)" using list_of_waiters [OF core f lQ] by blast
  have "is_list (heap k0) l (map event ts)"
    using f lQ holds_is_list [of "{..<15} \<union> Q" "2 * T" "heap k0" f l] ts(1) by (simp add: kernel_lists_def)
  then have head: "next_of (heap k0) (End l) = hd (map event ts @ [End l])"
    using seg_first [of "heap k0" "End l" "map event ts" "End l"] by (simp add: is_list_def)
  let ?W = "filter (\<lambda>t. bits_met (item_value k (event t)) v) ts"
  have W: "set ?W = set (woken_by T l v k)" using ts(2) by (auto simp: woken_by_def waiters_def same)
  have nz: "uxSchedulerSuspended k0 \<noteq> 0" using n(1) same(5) by simp
  obtain k1 where k1: "set_bits_loop l v (hd (map event ts @ [End l])) 0 k0 =
      Some (or_all (map (\<lambda>t. to_clear (item_value k (event t))) ?W), k1)" "kernel_inv T Q k1"
    "woken_with k0 (set (woken_by T l v k)) (v OR eventUNBLOCKED_DUE_TO_BIT_SET) k1" "pendsv k1 = pendsv k"
    "xYieldPending k1 \<longleftrightarrow> xYieldPending k \<or> (\<exists>t \<in> set (woken_by T l v k). priority_of k cur < priority_of k t)"
    using set_bits_loop_spec [OF inv0 lQ f _ nz same(4), of "[]" ts v 0] ts(1)
    unfolding W [symmetric] same by auto
  have clr: "or_all (map (\<lambda>t. to_clear (item_value k (event t))) ?W) = cleared_by T l v k"
    unfolding cleared_by_def by (rule or_all_cong) (simp only: set_map W)
  have s1: "uxSchedulerSuspended k1 = uxSchedulerSuspended k + 1" "uxPendedTicks k1 = uxPendedTicks k"
    using k1(3) same(5,6) by (simp_all add: woken_with_def)
  have p1: "\<not> (\<exists>t. pending T k1 t)" if "uxSchedulerSuspended k = 0"
    using inv k1(3) that by (auto simp: kernel_inv_def pending_ok_def pending_def woken_with_def same split: if_splits)
  have "uxSchedulerSuspended k = 0 \<Longrightarrow> uxPendedTicks k1 = 0 \<and> \<not> (\<exists>t. pending T k1 t)" using n(2) p1 s1(2) by simp
  from resume_after_bits [OF k1(2) s1(1) n(1) this]
  obtain y k' where k': "xTaskResumeAll k1 = Some (y, k')" "kernel_inv T Q k'"
    "k' = k1\<lparr>uxSchedulerSuspended := uxSchedulerSuspended k, pendsv := pendsv k'\<rparr>"
    "y = (uxSchedulerSuspended k = 0 \<and> xYieldPending k1)" "pendsv k' = (pendsv k1 \<or> y)"
    by blast
  have "heap k' = heap k1" by (subst k'(3)) simp
  note h = items_cong [OF this]
  have fs: "tcb k' = tcb k1" "pxCurrentTCB k' = pxCurrentTCB k1" "counters k' = counters k1" "uxPendedTicks k' = uxPendedTicks k1"
    "xSchedulerRunning k' = xSchedulerRunning k1" "uxSchedulerSuspended k' = uxSchedulerSuspended k"
    "xYieldPending k' = xYieldPending k1"
    by (subst k'(3), simp)+
  have "woken_with k (set (woken_by T l v k)) (v OR eventUNBLOCKED_DUE_TO_BIT_SET) k'"
    using k1(3) cur unfolding woken_with_def fs same conjunct1 [OF h] conjunct2 [OF h] by simp
  moreover have "xEventGroupSetBits b g k = Some (g\<lparr>uxEventBits := v AND NOT (cleared_by T l v k)\<rparr>, k')"
    using b k1(1) k'(1) head unfolding clr by (simp add: xEventGroupSetBits_def Let_def v_def l_def flip: k0_def)
  ultimately show ?thesis using k'(2,4,5) k1(4,5) fs(7) by (intro exI [of _ k']) auto
qed


section \<open>Values of waiting tasks\<close>

definition legal :: "32 word \<Rightarrow> bool" where
  "legal b \<longleftrightarrow> b AND eventEVENT_BITS_CONTROL_BYTES = 0"

text \<open>What a task that waits for \<open>w\<close> has in its event item.\<close>

definition wait_value :: "32 word \<Rightarrow> bool \<Rightarrow> bool \<Rightarrow> tick" where
  "wait_value w clear all = (w OR (if clear then eventCLEAR_EVENTS_ON_EXIT_BIT else 0) OR
     (if all then eventWAIT_FOR_ALL_BITS else 0)) OR taskEVENT_LIST_ITEM_VALUE_IN_USE"

lemma and_not_mask:
  fixes w c :: "32 word"
  assumes "w AND c = 0"
  shows "w AND NOT c = w"
proof -
  have "(w AND c) OR (w AND NOT c) = w AND (c OR NOT c)" by (simp only: bit.conj_disj_distrib)
  then show ?thesis using assms by simp
qed

lemma and_part:
  fixes w c x :: "32 word"
  assumes "w AND c = 0" "c AND x = x"
  shows "w AND x = 0"
proof -
  have "w AND x = (w AND c) AND x" using assms(2) by (simp only: and.assoc)
  then show ?thesis using assms(1) by simp
qed

lemma legal_not: "legal w \<Longrightarrow> w AND NOT eventEVENT_BITS_CONTROL_BYTES = w"
  unfolding legal_def by (rule and_not_mask)

lemma legal_bit:
  assumes "legal w"
  shows "w AND eventWAIT_FOR_ALL_BITS = 0" "w AND eventCLEAR_EVENTS_ON_EXIT_BIT = 0" "w AND eventUNBLOCKED_DUE_TO_BIT_SET = 0"
  using and_part [OF assms [unfolded legal_def]] by simp_all

lemma wait_value_parts:
  assumes "legal w"
  shows "wait_value w clear all AND NOT eventEVENT_BITS_CONTROL_BYTES = w"
    "wait_value w clear all AND eventWAIT_FOR_ALL_BITS \<noteq> 0 \<longleftrightarrow> all"
    "wait_value w clear all AND eventCLEAR_EVENTS_ON_EXIT_BIT \<noteq> 0 \<longleftrightarrow> clear"
    "wait_value w clear all AND eventUNBLOCKED_DUE_TO_BIT_SET = 0"
  using legal_not [OF assms] legal_bit [OF assms] by (simp_all add: wait_value_def bit.conj_disj_distrib2)

lemma wait_value_met [simp]:
  assumes "legal w"
  shows "bits_met (wait_value w clear all) b \<longleftrightarrow> prvTestWaitCondition b w all"
    "to_clear (wait_value w clear all) = (if clear then w else 0)"
  unfolding bits_met_def to_clear_def wait_value_parts [OF assms] by simp_all

text \<open>What a task finds in its item when the bits \<open>v\<close> have woken it.\<close>

lemma woken_value:
  assumes "legal v"
  shows "((v OR eventUNBLOCKED_DUE_TO_BIT_SET) OR taskEVENT_LIST_ITEM_VALUE_IN_USE) AND eventUNBLOCKED_DUE_TO_BIT_SET \<noteq> 0"
    "((v OR eventUNBLOCKED_DUE_TO_BIT_SET) OR taskEVENT_LIST_ITEM_VALUE_IN_USE) AND NOT eventEVENT_BITS_CONTROL_BYTES = v"
  using legal_not [OF assms] legal_bit [OF assms] by (simp_all add: bit.conj_disj_distrib2)

lemma legal_or: "legal a \<Longrightarrow> legal b \<Longrightarrow> legal (a OR b)"
  by (simp add: legal_def bit.conj_disj_distrib2)

lemma legal_and: "legal a \<Longrightarrow> legal (a AND b)"
  unfolding legal_def by (simp add: and.commute [of a] and.assoc)

text \<open>What is cleared covers what each woken task waited for with clearing.\<close>

lemma cleared_by_and:
  assumes "t \<in> set (woken_by T l v k)" "to_clear (item_value k (event t)) = w"
  shows "(v AND NOT (cleared_by T l v k)) AND w = 0"
proof (rule bit_eqI)
  fix i
  have "bit (cleared_by T l v k) i" if "bit w i" using that assms by (auto simp: cleared_by_def bit_or_all)
  then show "bit ((v AND NOT (cleared_by T l v k)) AND w) i = bit 0 i" by (auto simp: bit_and_iff bit_not_iff)
qed

section \<open>Blocking\<close>

text \<open>A task that blocks with the scheduler suspended, and the switch that it asks for.\<close>

lemma place_and_block:
  assumes inv: "kernel_inv T Q k" and t: "t < T" "pxCurrentTCB k = Some t" "is_ready k t" and l: "l \<in> Q" and n: "n \<noteq> 0"
    and s: "uxSchedulerSuspended k = 1" "uxPendedTicks k = 0" "\<not> (\<exists>u. pending T k u)"
  shows "\<exists>k'. Option.bind (vTaskPlaceOnUnorderedEventList l v n k) (block_or_return n 0 g) = Some (Blocked, g, k') \<and>
    kernel_inv T Q k' \<and> pendsv k' \<and> uxSchedulerSuspended k' = 0 \<and> uxPendedTicks k' = 0 \<and> tcb k' = tcb k \<and> pxCurrentTCB k' = Some t \<and>
    counters k' = counters k \<and>
    item_container k' (event t) = Some l \<and> item_value k' (event t) = v OR taskEVENT_LIST_ITEM_VALUE_IN_USE \<and>
    (\<forall>u. u \<noteq> t \<longrightarrow> item_container k' (generic u) = item_container k (generic u) \<and>
       item_container k' (event u) = item_container k (event u) \<and> item_value k' (event u) = item_value k (event u)) \<and>
    (if n = portMAX_DELAY then item_container k' (generic t) = Some xSuspendedTaskList
     else item_container k' (generic t) \<in> {Some xDelayedTaskList1, Some xDelayedTaskList2} \<and>
       item_value k' (generic t) = now k + n)"
proof -
  have nz: "uxSchedulerSuspended k \<noteq> 0" using s(1) by simp
  obtain k1 where k1: "vTaskPlaceOnUnorderedEventList l v n k = Some k1" "kernel_inv T Q k1"
    "blocked k t (n = portMAX_DELAY) n k1" "item_container k1 (event t) = Some l"
    using vTaskPlaceOnUnorderedEventList_spec [OF inv t l n nz] by blast
  note val = place_unordered_value [OF k1(1) t(2)]
  have same: "tcb k1 = tcb k" "pxCurrentTCB k1 = Some t" "uxSchedulerSuspended k1 = 0 + 1" "uxPendedTicks k1 = 0" "counters k1 = counters k"
    using k1(3) s t(2) by (simp_all add: blocked_def lists_changed_def)
  have "l \<noteq> xPendingReadyList" using l core_queues [of T Q "{}" k] inv by (auto simp: kernel_inv_def)
  then have np: "\<not> (\<exists>u. pending T k1 u)"
    using s(3) k1(3,4) unfolding pending_def blocked_def by (metis option.inject)
  have z: "(0 :: 32 word) + 1 \<noteq> 0" by simp
  obtain y k2 where k2: "xTaskResumeAll k1 = Some (y, k2)" "kernel_inv T Q k2"
    "k2 = k1\<lparr>uxSchedulerSuspended := 0, pendsv := pendsv k2\<rparr>" "pendsv k2 = (pendsv k1 \<or> y)"
    using resume_after_bits [OF k1(2) same(3) z] same(4) np by blast
  define k' where "k' = (if \<not> y then portYIELD k2 else k2)"
  have k': "Option.bind (vTaskPlaceOnUnorderedEventList l v n k) (block_or_return n 0 g) = Some (Blocked, g, k')"
    using k1(1) k2(1) n by (simp add: block_or_return_def k'_def)
  have "heap k' = heap k1" unfolding k'_def by (subst (1 2) k2(3)) (simp add: portYIELD_def)
  note h = items_cong [OF this]
  have fs: "tcb k' = tcb k1" "pxCurrentTCB k' = pxCurrentTCB k1" "counters k' = counters k1" "uxPendedTicks k' = uxPendedTicks k1"
    "uxSchedulerSuspended k' = 0"
    unfolding k'_def by (subst (1 2) k2(3), simp add: portYIELD_def)+
  have "pendsv k'" "kernel_inv T Q k'" using k2(2,4) by (auto simp: k'_def portYIELD_def)
  then show ?thesis
    using k' k1(3,4) same val unfolding blocked_def
    by (intro exI [of _ k']) (auto simp: fs h split: if_splits)
qed

text \<open>A wait for bits that are not set, and a rendezvous that is not complete yet.\<close>

lemma wait_bits_blocks:
  assumes inv: "kernel_inv T Q k" and t: "t < T" "pxCurrentTCB k = Some t" "is_ready k t" and l: "xTasksWaitingForBits g \<in> Q"
    and w: "legal w" "w \<noteq> 0" "\<not> prvTestWaitCondition (uxEventBits g) w all" and n: "n \<noteq> 0"
    and s: "uxSchedulerSuspended k = 0" "uxPendedTicks k = 0"
  shows "\<exists>k'. xEventGroupWaitBits w clear all n g k = Some (Blocked, g, k') \<and> kernel_inv T Q k' \<and> pendsv k' \<and>
    uxSchedulerSuspended k' = 0 \<and> uxPendedTicks k' = 0 \<and> tcb k' = tcb k \<and> pxCurrentTCB k' = Some t \<and>
    item_container k' (event t) = Some (xTasksWaitingForBits g) \<and> item_value k' (event t) = wait_value w clear all \<and>
    (\<forall>u. u \<noteq> t \<longrightarrow> item_container k' (generic u) = item_container k (generic u) \<and>
       item_container k' (event u) = item_container k (event u) \<and> item_value k' (event u) = item_value k (event u)) \<and>
    \<not> is_ready k' t"
proof -
  define k0 where "k0 = vTaskSuspendAll k"
  have inv0: "kernel_inv T Q k0" using vTaskSuspendAll_spec [OF inv] s(1) by (simp add: k0_def)
  have same: "item_value k0 = item_value k" "item_container k0 = item_container k" "tcb k0 = tcb k" "pxCurrentTCB k0 = Some t"
    "uxSchedulerSuspended k0 = 1" "uxPendedTicks k0 = 0" "counters k0 = counters k"
    using t(2) s by (simp_all add: k0_def vTaskSuspendAll_def item_value_def item_container_def fun_eq_iff)
  have np: "\<not> (\<exists>u. pending T k0 u)"
    using inv s(1) by (auto simp: kernel_inv_def pending_ok_def pending_def same)
  let ?v = "w OR (if all then (if clear then eventCLEAR_EVENTS_ON_EXIT_BIT else 0) OR eventWAIT_FOR_ALL_BITS
    else (if clear then eventCLEAR_EVENTS_ON_EXIT_BIT else 0))"
  have v: "?v OR taskEVENT_LIST_ITEM_VALUE_IN_USE = wait_value w clear all" by (simp add: wait_value_def or.assoc)
  have r0: "is_ready k0 t" using t(3) by (simp add: same)
  obtain k' where k': "Option.bind (vTaskPlaceOnUnorderedEventList (xTasksWaitingForBits g) ?v n k0) (block_or_return n 0 g) = Some (Blocked, g, k')"
    "kernel_inv T Q k'" "pendsv k'" "uxSchedulerSuspended k' = 0" "uxPendedTicks k' = 0" "tcb k' = tcb k0" "pxCurrentTCB k' = Some t"
    "item_container k' (event t) = Some (xTasksWaitingForBits g)" "item_value k' (event t) = ?v OR taskEVENT_LIST_ITEM_VALUE_IN_USE"
    "\<forall>u. u \<noteq> t \<longrightarrow> item_container k' (generic u) = item_container k0 (generic u) \<and>
       item_container k' (event u) = item_container k0 (event u) \<and> item_value k' (event u) = item_value k0 (event u)"
    using place_and_block [OF inv0 t(1) same(4) r0 l n same(5,6) np, of ?v g] by blast
  have "xTaskGetSchedulerState k \<noteq> taskSCHEDULER_SUSPENDED" using s(1) by (simp add: xTaskGetSchedulerState_def)
  then have "xEventGroupWaitBits w clear all n g k = Some (Blocked, g, k')"
    using w n s(1) k'(1) by (simp add: xEventGroupWaitBits_def legal_def Let_def flip: k0_def split del: if_split)
  moreover have "\<not> is_ready k' t"
    using event_free [of T Q k' t] k'(2,8) t(1) by (auto simp: kernel_inv_def)
  ultimately show ?thesis using k' by (intro exI [of _ k']) (simp add: same v del: if_split)
qed

text \<open>Setting the bits of a rendezvous, with the scheduler suspended before.\<close>

lemma sync_set:
  assumes inv: "kernel_inv T Q k" and t: "pxCurrentTCB k = Some t" and l: "xTasksWaitingForBits g = l" "l \<in> Q"
    and b: "legal b" and s: "uxSchedulerSuspended k = 0" "uxPendedTicks k = 0"
  defines "v \<equiv> uxEventBits g OR b"
  shows "\<exists>k1. xEventGroupSetBits b g (vTaskSuspendAll k) = Some (g\<lparr>uxEventBits := v AND NOT (cleared_by T l v k)\<rparr>, k1) \<and>
    kernel_inv T Q k1 \<and> uxSchedulerSuspended k1 = 1 \<and> uxPendedTicks k1 = 0 \<and> pxCurrentTCB k1 = Some t \<and> tcb k1 = tcb k \<and>
    \<not> (\<exists>u. pending T k1 u) \<and>
    woken_with k (set (woken_by T l v k)) (v OR eventUNBLOCKED_DUE_TO_BIT_SET) (k1\<lparr>uxSchedulerSuspended := 0\<rparr>) \<and>
    (xYieldPending k1 \<longleftrightarrow> xYieldPending k \<or> (\<exists>u \<in> set (woken_by T l v k). priority_of k t < priority_of k u))"
proof -
  define k0 where "k0 = vTaskSuspendAll k"
  have inv0: "kernel_inv T Q k0" using vTaskSuspendAll_spec [OF inv] s(1) by (simp add: k0_def)
  have same: "item_value k0 = item_value k" "item_container k0 = item_container k" "tcb k0 = tcb k" "pxCurrentTCB k0 = Some t"
    "uxSchedulerSuspended k0 = 1" "uxPendedTicks k0 = 0" "counters k0 = counters k" "xYieldPending k0 = xYieldPending k"
    "xSchedulerRunning k0 = xSchedulerRunning k"
    using t s by (simp_all add: k0_def vTaskSuspendAll_def item_value_def item_container_def fun_eq_iff)
  have W: "woken_by T l v k0 = woken_by T l v k" "cleared_by T l v k0 = cleared_by T l v k"
    by (simp_all add: woken_by_def waiters_def cleared_by_def same)
  have n: "uxSchedulerSuspended k0 + 1 \<noteq> 0" "uxSchedulerSuspended k0 = 0 \<Longrightarrow> uxPendedTicks k0 = 0" by (simp_all add: same)
  obtain k1 where k1: "xEventGroupSetBits b g k0 = Some (g\<lparr>uxEventBits := v AND NOT (cleared_by T l v k)\<rparr>, k1)" "kernel_inv T Q k1"
    "woken_with k0 (set (woken_by T l v k)) (v OR eventUNBLOCKED_DUE_TO_BIT_SET) k1"
    "xYieldPending k1 \<longleftrightarrow> xYieldPending k0 \<or> (\<exists>t' \<in> set (woken_by T l v k). priority_of k0 t < priority_of k0 t')"
    using set_bits_spec [OF inv0 _ _ same(4) n, of g b] l b unfolding v_def [symmetric] W [symmetric] by (auto simp: legal_def)
  have "\<not> (\<exists>u. pending T k1 u)"
    using inv s(1) k1(3) by (auto simp: kernel_inv_def pending_ok_def pending_def woken_with_def same split: if_splits)
  moreover have "woken_with k (set (woken_by T l v k)) (v OR eventUNBLOCKED_DUE_TO_BIT_SET) (k1\<lparr>uxSchedulerSuspended := 0\<rparr>)"
    using k1(3) s t by (simp add: woken_with_def same)
  ultimately show ?thesis
    using k1 by (intro exI [of _ k1]) (simp add: woken_with_def same flip: k0_def)
qed

lemma sync_blocks:
  assumes inv: "kernel_inv T Q k" and t: "t < T" "pxCurrentTCB k = Some t" "is_ready k t"
    and l: "xTasksWaitingForBits g = l" "l \<in> Q" and b: "legal b" "legal w" "w \<noteq> 0" "n \<noteq> 0"
    and s: "uxSchedulerSuspended k = 0" "uxPendedTicks k = 0"
  defines "v \<equiv> uxEventBits g OR b"
  assumes nm: "v AND w \<noteq> w"
  shows "\<exists>k'. xEventGroupSync b w n g k = Some (Blocked, g\<lparr>uxEventBits := v AND NOT (cleared_by T l v k)\<rparr>, k') \<and> kernel_inv T Q k' \<and>
    pendsv k' \<and> uxSchedulerSuspended k' = 0 \<and> uxPendedTicks k' = 0 \<and> tcb k' = tcb k \<and>
    item_container k' (event t) = Some l \<and> item_value k' (event t) = wait_value w True True \<and>
    (\<forall>u. u \<noteq> t \<longrightarrow> u \<notin> set (woken_by T l v k) \<longrightarrow> item_container k' (generic u) = item_container k (generic u) \<and>
       item_container k' (event u) = item_container k (event u) \<and> item_value k' (event u) = item_value k (event u))"
proof -
  obtain k1 where k1: "xEventGroupSetBits b g (vTaskSuspendAll k) = Some (g\<lparr>uxEventBits := v AND NOT (cleared_by T l v k)\<rparr>, k1)"
    "kernel_inv T Q k1" "uxSchedulerSuspended k1 = 1" "uxPendedTicks k1 = 0" "pxCurrentTCB k1 = Some t" "tcb k1 = tcb k"
    "\<not> (\<exists>u. pending T k1 u)"
    "woken_with k (set (woken_by T l v k)) (v OR eventUNBLOCKED_DUE_TO_BIT_SET) (k1\<lparr>uxSchedulerSuspended := 0\<rparr>)"
    using sync_set [OF inv t(2) l b(1) s] unfolding v_def by blast
  let ?g = "g\<lparr>uxEventBits := v AND NOT (cleared_by T l v k)\<rparr>"
  have "item_container k (event t) = None" using event_free [of T Q k t] inv t by (simp add: kernel_inv_def)
  then have W: "t \<notin> set (woken_by T l v k)" by (auto simp: woken_by_def waiters_def)
  have it: "item_container (k1\<lparr>uxSchedulerSuspended := 0\<rparr>) = item_container k1" "item_value (k1\<lparr>uxSchedulerSuspended := 0\<rparr>) = item_value k1"
    using items_cong [of "k1\<lparr>uxSchedulerSuspended := 0\<rparr>" k1] by simp_all
  have r: "is_ready k1 t" using k1(6,8) t(3) W unfolding woken_with_def it by simp
  let ?v = "w OR eventCLEAR_EVENTS_ON_EXIT_BIT OR eventWAIT_FOR_ALL_BITS"
  have v: "?v OR taskEVENT_LIST_ITEM_VALUE_IN_USE = wait_value w True True" by (simp add: wait_value_def or.assoc)
  obtain k' where k': "Option.bind (vTaskPlaceOnUnorderedEventList l ?v n k1) (block_or_return n 0 ?g) = Some (Blocked, ?g, k')"
    "kernel_inv T Q k'" "pendsv k'" "uxSchedulerSuspended k' = 0" "uxPendedTicks k' = 0" "tcb k' = tcb k1"
    "item_container k' (event t) = Some l" "item_value k' (event t) = ?v OR taskEVENT_LIST_ITEM_VALUE_IN_USE"
    "\<forall>u. u \<noteq> t \<longrightarrow> item_container k' (generic u) = item_container k1 (generic u) \<and>
       item_container k' (event u) = item_container k1 (event u) \<and> item_value k' (event u) = item_value k1 (event u)"
    using place_and_block [OF k1(2) t(1) k1(5) r l(2) b(4) k1(3,4,7), of ?v ?g] by blast
  have "xTaskGetSchedulerState k \<noteq> taskSCHEDULER_SUSPENDED" using s(1) by (simp add: xTaskGetSchedulerState_def)
  then have "xEventGroupSync b w n g k = Some (Blocked, ?g, k')"
    using b nm l(1) k1(1) k'(1) by (simp add: xEventGroupSync_def legal_def Let_def flip: v_def)
  then show ?thesis
    using k' k1(6,8) unfolding woken_with_def it v by (intro exI [of _ k']) simp
qed

end
