(* ===== verification/Rtos_Messages.thy ===== *)
theory Rtos_Messages
  imports Rtos_Create "HOL-Library.Multiset"
begin

text \<open>
  What the steps of the system do to the messages of a queue and to the holder of a mutex. A queue is promised to be a bounded
  list: the promise is a locale, in which the order of the messages over a whole run is proved, and the steps of the
  system are shown to keep it.
\<close>

section \<open>Bounded lists\<close>

datatype 'a action = Put 'a position | Get 'a | Leave

fun fifo_step :: "nat \<Rightarrow> 'a action \<Rightarrow> 'a list \<Rightarrow> 'a list option" where
  "fifo_step n (Put x p) xs = (if length xs < n \<or> p = OVERWRITE then Some (put_at p x xs) else None)"
| "fifo_step n (Get x) xs = (case xs of [] \<Rightarrow> None | y # ys \<Rightarrow> if x = y then Some ys else None)"
| "fifo_step n Leave xs = Some xs"

fun fifo_run :: "nat \<Rightarrow> 'a action list \<Rightarrow> 'a list \<Rightarrow> 'a list option" where
  "fifo_run n [] xs = Some xs"
| "fifo_run n (a # as) xs = Option.bind (fifo_step n a xs) (fifo_run n as)"

fun puts :: "'a action list \<Rightarrow> 'a list" where
  "puts [] = []"
| "puts (Put x p # as) = x # puts as"
| "puts (a # as) = puts as"

fun gets :: "'a action list \<Rightarrow> 'a list" where
  "gets [] = []"
| "gets (Get x # as) = x # gets as"
| "gets (a # as) = gets as"

fun at_back :: "'a action \<Rightarrow> bool" where
  "at_back (Put x p) = (p = SEND_TO_BACK)"
| "at_back a = True"

lemma fifo_run_append: "fifo_run n (as @ bs) xs = Option.bind (fifo_run n as xs) (fifo_run n bs)"
  by (induction as arbitrary: xs) (auto split: bind_splits)

text \<open>Messages that are put at the back come out in order: none is lost, none comes twice, none is made up.\<close>

lemma fifo_run_order:
  assumes "fifo_run n as xs = Some ys" "\<forall>a \<in> set as. at_back a"
  shows "xs @ puts as = gets as @ ys"
  using assms
proof (induction as arbitrary: xs)
  case (Cons a as)
  obtain zs where zs: "fifo_step n a xs = Some zs" "fifo_run n as zs = Some ys" using Cons.prems(1) by (auto split: bind_splits)
  have "zs @ puts as = gets as @ ys" using Cons zs(2) by simp
  then show ?case using zs(1) Cons.prems(2) by (cases a) (auto split: list.splits if_splits)
qed simp

text \<open>Where urgent messages go to the front as well, still every message that comes out was in or put, and once.\<close>

lemma fifo_run_count:
  assumes "fifo_run n as xs = Some ys" "\<forall>a \<in> set as. \<forall>x. a \<noteq> Put x OVERWRITE"
  shows "mset xs + mset (puts as) = mset (gets as) + mset ys"
  using assms
proof (induction as arbitrary: xs)
  case (Cons a as)
  obtain zs where zs: "fifo_step n a xs = Some zs" "fifo_run n as zs = Some ys" using Cons.prems(1) by (auto split: bind_splits)
  have "mset zs + mset (puts as) = mset (gets as) + mset ys" using Cons zs(2) by simp
  then show ?case using zs(1) Cons.prems(2)
  proof (cases a)
    case (Put x p)
    then show ?thesis using zs(1) \<open>mset zs + mset (puts as) = mset (gets as) + mset ys\<close> Cons.prems(2)
      by (cases p) (auto split: if_splits)
  qed (auto split: list.splits if_splits)
qed simp

locale fifo_system =
  fixes step :: "'s \<Rightarrow> 'e \<Rightarrow> 's \<Rightarrow> bool" and inv :: "'s \<Rightarrow> bool" and contents :: "'s \<Rightarrow> 'a list"
    and bound :: nat and operation :: "'e \<Rightarrow> 'a action"
  assumes step_inv: "inv s \<Longrightarrow> step s e s' \<Longrightarrow> inv s'"
    and step_operation: "inv s \<Longrightarrow> step s e s' \<Longrightarrow> fifo_step bound (operation e) (contents s) = Some (contents s')"
    and inv_bound: "inv s \<Longrightarrow> length (contents s) \<le> bound"
begin

lemma run_inv: "trace step s es s' \<Longrightarrow> inv s \<Longrightarrow> inv s'"
  by (induction rule: trace.induct) (auto intro: step_inv)

lemma run_operations:
  "trace step s es s' \<Longrightarrow> inv s \<Longrightarrow> fifo_run bound (map operation es) (contents s) = Some (contents s')"
proof (induction rule: trace.induct)
  case (trace_snoc s es s' e s'')
  then show ?case using step_operation [OF run_inv] by (auto simp: fifo_run_append)
qed simp

lemma run_bound: "trace step s es s' \<Longrightarrow> inv s \<Longrightarrow> length (contents s') \<le> bound"
  using run_inv inv_bound by blast

end

section \<open>The step of a call\<close>

text \<open>What the finished calls report: a message of the queue \<open>i\<close> was sent or received.\<close>

fun reported :: "nat \<Rightarrow> nat \<Rightarrow> call \<Rightarrow> 8 word list action" where
  "reported n i (Send j item p (Returned (Some d))) = (if i = j then Put (take n item) p else Leave)"
| "reported n i (Receive j False (Returned (Some d))) = (if i = j then Get d else Leave)"
| "reported n i c = Leave"

lemma wait_step_locks:
  "wait_step blk place c q k = Some (c', q', k') \<Longrightarrow> locks_only q q' \<and> (\<forall>d. c' \<noteq> Returned (Some d))"
  by (cases c) (auto simp: unlock_tx_def unlock_rx_def split: bind_splits if_splits prod.splits)

lemma report_waiting:
  "\<forall>d. c \<noteq> Returned (Some d) \<Longrightarrow> reported n i (Send j item p c) = Leave"
  "\<forall>d. c \<noteq> Returned (Some d) \<Longrightarrow> reported n i (Receive j peek c) = Leave"
  by (cases c; cases peek; auto; metis option.exhaust)+

lemma wait_or_fail_not_done: "wait_or_fail e n k \<noteq> Returned (Some d)"
  by (simp add: wait_or_fail_def split: option.splits)

text \<open>A step of a send and of a receive keeps the shape of the queue and is a step of the bounded list.\<close>

lemma send_step_action:
  assumes "kernel_inv T Q k" "queue_lists Q q" "queue_ok q" "\<not> is_mutex q" "send_ok item p q"
    and "send_step item p c q k = Some (c', q', k')"
  shows "same_shape q q' \<and> fifo_step (capacity q) (reported (item_size q) i (Send i item p c')) (queue_items q) = Some (queue_items q')"
proof (cases "\<exists>e n. c = Trying e n")
  case True
  then obtain e n where c: "c = Trying e n" by blast
  have st: "send_try item p e n q k = Some (c', q', k')" using assms(6) by (simp add: send_step_def c)
  have full: "uxMessagesWaiting q < uxLength q \<or> p = OVERWRITE \<Longrightarrow> length (queue_items q) < capacity q \<or> p = OVERWRITE"
    by (simp add: word_less_nat_alt)
  show ?thesis
    using send_try_spec [OF assms(1-5), of e n] st same_shape_moves [of q q'] full wait_or_fail_not_done report_waiting(1)
    by (auto split: if_splits)
next
  case False
  then have w: "wait_step prvIsQueueFull wait_to_send c q k = Some (c', q', k')"
    using assms(6) by (cases c) (auto simp: send_step_def)
  show ?thesis using wait_step_locks [OF w] report_waiting(1) by (simp add: locks_only_def)
qed

lemma receive_step_action:
  assumes "kernel_inv T Q k" "queue_lists Q q" "queue_ok q" "\<not> is_mutex q"
    and "receive_step peek c q k = Some (c', q', k')"
  shows "same_shape q q' \<and> fifo_step (capacity q) (reported (item_size q) i (Receive i peek c')) (queue_items q) = Some (queue_items q')"
proof (cases "\<exists>e n. c = Trying e n")
  case True
  then obtain e n where c: "c = Trying e n" by blast
  have st: "receive_try peek e n q k = Some (c', q', k')" using assms(5) by (simp add: receive_step_def c)
  have ne: "0 < uxMessagesWaiting q \<Longrightarrow> queue_items q = hd (queue_items q) # tl (queue_items q)"
    by (metis length_queue_items list.collapse list.size(3) unat_eq_zero word_gt_0)
  show ?thesis
    using receive_try_spec [OF assms(1-4), of peek e n] st same_shape_moves [of q q'] ne wait_or_fail_not_done report_waiting(2)
    by (cases peek) (auto split: if_splits list.splits)
next
  case False
  then have w: "wait_step prvIsQueueEmpty wait_to_receive c q k = Some (c', q', k')"
    using assms(5) by (cases c) (auto simp: receive_step_def)
  show ?thesis using wait_step_locks [OF w] report_waiting(2) by (simp add: locks_only_def)
qed

lemma report_other: "i \<noteq> j \<Longrightarrow> reported n i (Send j item p c) = Leave" "i \<noteq> j \<Longrightarrow> reported n i (Receive j peek c) = Leave"
  by (cases c; cases peek; auto; metis option.exhaust reported.simps)+

lemma call_step_action:
  assumes inv: "sys_inv T N idle s" and t: "runs t s" and i: "i < N" "\<not> is_mutex (queues s i)"
    and op: "call_step (calls s t) (queues s) (kern s) = Some (C, qs, k)"
  shows "same_shape (queues s i) (qs i) \<and> fifo_step (capacity (queues s i)) (reported (item_size (queues s i)) i C)
    (queue_items (queues s i)) = Some (queue_items (qs i))"
proof -
  note ks = sys_inv_simps [OF inv] and g = sys_inv_queue [OF inv i(1)]
  have "t < T" using sys_inv_current [OF inv] t by (metis option.inject runs_def)
  then have co: "call_ok N (queues s) t (calls s t)" using ks(6) by (simp add: calls_ok_def)
  show ?thesis
  proof (cases "calls s t")
    case Application
    then show ?thesis using op by simp
  next
    case (Send j item p c)
    obtain c' q' where st: "send_step item p c (queues s j) (kern s) = Some (c', q', k)" "C = Send j item p c'" "qs = (queues s)(j := q')"
      using op Send by (auto split: bind_splits)
    show ?thesis
    proof (cases "i = j")
      case True
      then have "send_ok item p (queues s i)" using co Send i(2) by (simp add: may_send_def)
      then show ?thesis using send_step_action [OF ks(1) g(3,2) i(2)] st True by simp
    next
      case False
      then show ?thesis using st by (simp add: report_other)
    qed
  next
    case (Receive j peek c)
    obtain c' q' where st: "receive_step peek c (queues s j) (kern s) = Some (c', q', k)" "C = Receive j peek c'" "qs = (queues s)(j := q')"
      using op Receive by (auto split: bind_splits)
    show ?thesis
    proof (cases "i = j")
      case True
      then show ?thesis using receive_step_action [OF ks(1) g(3,2) i(2)] st by simp
    next
      case False
      then show ?thesis using st by (simp add: report_other)
    qed
  next
    case (Take_recursive j c)
    have "i \<noteq> j" using co Take_recursive i(2) by auto
    then show ?thesis using op Take_recursive by (auto split: bind_splits)
  qed
qed

section \<open>The step of the system\<close>

text \<open>A call of the task \<open>t\<close> finishes in the step.\<close>

definition finishes :: "nat \<Rightarrow> system \<Rightarrow> system \<Rightarrow> bool" where
  "finishes t s s' \<longleftrightarrow> \<not> returned (pc_of (calls s t)) \<and> returned (pc_of (calls s' t))"

lemma set_simps [simp]:
  "queues (set_kern k s) = queues s" "queues (set_call t c s) = queues s" "queues (set_queue i q s) = (queues s)(i := q)"
  "calls (set_kern k s) = calls s" "calls (set_queue i q s) = calls s" "calls (set_call t c s) = (calls s)(t := c)"
  "kern (set_kern k s) = k" "kern (set_call t c s) = kern s" "kern (set_queue i q s) = kern s"
  by (simp_all add: set_kern_def set_call_def set_queue_def)

lemma entry_trying:
  "xQueueGenericSend item p n q k = Some c \<Longrightarrow> c = Trying None n" "xQueueGenericReceive b n q k = Some c \<Longrightarrow> c = Trying None n"
  by (auto simp: xQueueGenericSend_def xQueueGenericReceive_def split: if_splits)

text \<open>
  What an event is for the queue \<open>i\<close>: the operation that the result of the call tells its caller.
\<close>

fun operation :: "nat \<Rightarrow> nat \<Rightarrow> event \<Rightarrow> 8 word list action" where
  "operation n i (Task t c) = reported n i c"
| "operation n i (Sent_from_isr j item p ok) = (if i = j \<and> ok then Put (take n item) p else Leave)"
| "operation n i (Given_from_isr j ok) = (if i = j \<and> ok then Put [] SEND_TO_BACK else Leave)"
| "operation n i (Received_from_isr j d) = (case d of Some x \<Rightarrow> if i = j then Get x else Leave | None \<Rightarrow> Leave)"
| "operation n i _ = Leave"

definition step_of_list :: "nat \<Rightarrow> system \<Rightarrow> event \<Rightarrow> system \<Rightarrow> bool" where
  "step_of_list i s e s' \<longleftrightarrow> same_shape (queues s i) (queues s' i) \<and>
     fifo_step (capacity (queues s i)) (operation (item_size (queues s i)) i e) (queue_items (queues s i)) = Some (queue_items (queues s' i)) \<and>
     (\<forall>t. finishes t s s' \<longrightarrow> operation (item_size (queues s i)) i e = reported (item_size (queues s i)) i (calls s' t))"

lemma step_of_list_idle:
  "queues s' i = queues s i \<Longrightarrow> operation (item_size (queues s i)) i e = Leave \<Longrightarrow>
     (\<And>t. finishes t s s' \<Longrightarrow> reported (item_size (queues s i)) i (calls s' t) = Leave) \<Longrightarrow> step_of_list i s e s'"
  by (auto simp: step_of_list_def)

lemma nonempty_items: "0 < uxMessagesWaiting q \<Longrightarrow> queue_items q = hd (queue_items q) # tl (queue_items q)"
  by (metis length_queue_items list.collapse list.size(3) unat_eq_zero word_gt_0)

lemma isr_send_action:
  assumes "sys_inv T N idle s" "i < N" "\<not> is_mutex (queues s i)" "send_ok item p (queues s i)"
    and "xQueueGenericSendFromISR (Some item) p (queues s i) (kern s) = Some (ok, w, q, k)"
  shows "step_of_list i s (Sent_from_isr i item p ok) (set_queue i q (set_kern k' s))"
proof -
  let ?q = "queues s i"
  have full: "uxMessagesWaiting ?q < uxLength ?q \<or> p = OVERWRITE \<Longrightarrow> length (queue_items ?q) < capacity ?q \<or> p = OVERWRITE"
    by (simp add: word_less_nat_alt)
  have "same_shape ?q q \<and> fifo_step (capacity ?q) (if ok then Put (take (item_size ?q) item) p else Leave) (queue_items ?q) = Some (queue_items q)"
    using SendFromISR_spec [OF sys_inv_simps(1) sys_inv_queue(3,2) assms(3,4), OF assms(1,1,2,1,2)] assms(5) full
    by (auto split: if_splits)
  then show ?thesis by (auto simp: step_of_list_def finishes_def)
qed

lemma isr_give_action:
  assumes "sys_inv T N idle s" "i < N" "\<not> is_mutex (queues s i)"
    and "xQueueGiveFromISR (queues s i) (kern s) = Some (ok, w, q, k)"
  shows "step_of_list i s (Given_from_isr i ok) (set_queue i q (set_kern k' s))"
proof -
  let ?q = "queues s i"
  have z: "uxItemSize ?q = 0" using assms(4) by (auto simp: xQueueGiveFromISR_def split: if_splits)
  have "same_shape ?q q \<and> fifo_step (capacity ?q) (if ok then Put [] SEND_TO_BACK else Leave) (queue_items ?q) = Some (queue_items q)"
    using GiveFromISR_spec [OF sys_inv_simps(1) sys_inv_queue(3,2) assms(3) z, OF assms(1,1,2,1,2)] assms(4)
    by (auto simp: word_less_nat_alt split: if_splits)
  then show ?thesis by (auto simp: step_of_list_def finishes_def)
qed

lemma isr_receive_action:
  assumes "sys_inv T N idle s" "i < N" "\<not> is_mutex (queues s i)"
    and "xQueueReceiveFromISR False (queues s i) (kern s) = Some (d, w, q, k)"
  shows "step_of_list i s (Received_from_isr i d) (set_queue i q (set_kern k' s))"
proof -
  let ?q = "queues s i"
  have "same_shape ?q q \<and> fifo_step (capacity ?q) (case d of Some x \<Rightarrow> Get x | None \<Rightarrow> Leave) (queue_items ?q) = Some (queue_items q)"
    using ReceiveFromISR_spec [OF sys_inv_simps(1) sys_inv_queue(3,2) assms(3), OF assms(1,1,2,1,2)] assms(4)
      nonempty_items [of ?q]
    by (auto split: if_splits list.splits)
  then show ?thesis by (cases d) (auto simp: step_of_list_def finishes_def)
qed

lemma other_queue: "i \<noteq> j \<Longrightarrow> operation (item_size (queues s i)) i e = Leave \<Longrightarrow> step_of_list i s e (set_queue j q (set_kern k s))"
  by (rule step_of_list_idle) (auto simp: finishes_def)

lemma sys_event_action:
  assumes inv: "sys_inv T N idle s" and i: "i < N" "\<not> is_mutex (queues s i)" and st: "sys_event T N idle s e s'"
  shows "step_of_list i s e s'"
  using st
proof cases
  case (isr_send j item p ok hpw q k y)
  then show ?thesis using isr_send_action [OF inv] other_queue by (cases "i = j") auto
next
  case (isr_give j ok hpw q k y)
  then show ?thesis using isr_give_action [OF inv] other_queue by (cases "i = j") auto
next
  case (isr_receive j d hpw q k y)
  then show ?thesis using isr_receive_action [OF inv] other_queue by (cases "i = j") (auto split: option.splits)
next
  case (continue t C qs k)
  note a = call_step_action [OF inv continue(3) i continue(4)]
  show ?thesis
    unfolding step_of_list_def
  proof (intro conjI allI impI)
    show "same_shape (queues s i) (queues s' i)" using a continue(2) by simp
    show "fifo_step (capacity (queues s i)) (operation (item_size (queues s i)) i e) (queue_items (queues s i)) =
        Some (queue_items (queues s' i))"
      using a continue(1,2) by simp
    show "operation (item_size (queues s i)) i e = reported (item_size (queues s i)) i (calls s' u)" if "finishes u s s'" for u
      using that continue(1,2) by (cases "u = t") (auto simp: finishes_def)
  qed
qed (use i in \<open>auto intro!: step_of_list_idle simp: finishes_def split: if_splits dest!: entry_trying\<close>)

lemma queue_bound: "sys_inv T N idle s \<Longrightarrow> i < N \<Longrightarrow> length (queue_items (queues s i)) \<le> capacity (queues s i)"
  using sys_inv_queue(2) by (auto simp: queue_ok_def)

interpretation messages: fifo_system "sys_event T N idle"
    "\<lambda>s. sys_inv T N idle s \<and> i < N \<and> \<not> is_mutex (queues s i) \<and> capacity (queues s i) = n \<and> item_size (queues s i) = z"
    "\<lambda>s. queue_items (queues s i)" n "operation z i" for T N idle i n z
proof unfold_locales
  fix s e s' assume a: "sys_inv T N idle s \<and> i < N \<and> \<not> is_mutex (queues s i) \<and> capacity (queues s i) = n \<and> item_size (queues s i) = z"
    and st: "sys_event T N idle s e s'"
  then have "step_of_list i s e s'" using sys_event_action by blast
  then show "sys_inv T N idle s' \<and> i < N \<and> \<not> is_mutex (queues s' i) \<and> capacity (queues s' i) = n \<and> item_size (queues s' i) = z"
    "fifo_step n (operation z i e) (queue_items (queues s i)) = Some (queue_items (queues s' i))"
    using a sys_event_inv [OF st] by (auto simp: step_of_list_def same_shape_def)
next
  fix s assume "sys_inv T N idle s \<and> i < N \<and> \<not> is_mutex (queues s i) \<and> capacity (queues s i) = n \<and> item_size (queues s i) = z"
  then show "length (queue_items (queues s i)) \<le> n" using queue_bound [of T N idle s i] by blast
qed

section \<open>Mutexes\<close>

text \<open>The holder of a mutex changes in two ways only: the running task takes a free mutex, or gives back its own.\<close>

definition holder_step :: "nat \<Rightarrow> system \<Rightarrow> system \<Rightarrow> bool" where
  "holder_step i s s' \<longleftrightarrow> is_mutex (queues s' i) \<and>
     (let h = pxMutexHolder (queues s i); h' = pxMutexHolder (queues s' i) in
       h' = h \<or> (\<exists>t. runs t s \<and> (h = None \<and> h' = Some t \<or> h = Some t \<and> h' = None)))"

lemma wait_step_holder:
  "wait_step blk place c q k = Some (c', q', k') \<Longrightarrow> is_mutex q' = is_mutex q \<and> pxMutexHolder q' = pxMutexHolder q"
  using wait_step_locks by (fastforce simp: locks_only_def same_shape_def)

lemma send_step_holder:
  assumes "send_step item p c q k = Some (c', q', k')" "is_mutex q" "uxItemSize q = 0"
  shows "is_mutex q' \<and> (pxMutexHolder q' = pxMutexHolder q \<or> pxMutexHolder q' = None \<and> (\<exists>e n. c = Trying e n))"
proof (cases "\<exists>e n. c = Trying e n")
  case True
  then show ?thesis
    using assms by (auto simp: send_step_def send_try_def prvCopyDataToQueue_def split: bind_splits if_splits)
next
  case False
  then have "wait_step prvIsQueueFull wait_to_send c q k = Some (c', q', k')"
    using assms(1) by (cases c) (auto simp: send_step_def)
  then show ?thesis using wait_step_holder assms(2) by blast
qed

lemma receive_step_holder:
  assumes "receive_step peek c q k = Some (c', q', k')" "is_mutex q" "uxItemSize q = 0"
  shows "is_mutex q' \<and> (pxMutexHolder q' = pxMutexHolder q \<or> 0 < uxMessagesWaiting q \<and> pxMutexHolder q' = pxCurrentTCB k)"
proof (cases "\<exists>e n. c = Trying e n")
  case True
  then show ?thesis
    using assms by (auto simp: receive_step_def receive_try_def prvCopyDataFromQueue_def pvTaskIncrementMutexHeldCount_def Let_def
        split: bind_splits if_splits option.splits)
next
  case False
  then have "wait_step prvIsQueueEmpty wait_to_receive c q k = Some (c', q', k')"
    using assms(1) by (cases c) (auto simp: receive_step_def)
  then show ?thesis using wait_step_holder assms(2) by blast
qed

lemma call_step_holder:
  assumes inv: "sys_inv T N idle s" and t: "runs t s" and i: "i < N" "is_mutex (queues s i)"
    and op: "call_step (calls s t) (queues s) (kern s) = Some (C, qs, k)"
  shows "is_mutex (qs i) \<and> (pxMutexHolder (qs i) = pxMutexHolder (queues s i) \<or>
    pxMutexHolder (queues s i) = None \<and> pxMutexHolder (qs i) = Some t \<or>
    pxMutexHolder (queues s i) = Some t \<and> pxMutexHolder (qs i) = None)"
proof -
  note m = mutex_good [OF sys_inv_queue(1) [OF inv i(1)] i(2)]
  have cur: "pxCurrentTCB (kern s) = Some t" using t by (simp add: runs_def)
  have rc: "is_mutex q' \<and> (pxMutexHolder q' = pxMutexHolder (queues s i) \<or> pxMutexHolder (queues s i) = None \<and> pxMutexHolder q' = Some t)"
    if "receive_step peek c (queues s i) (kern s) = Some (c', q', k')" for peek c c' q' k'
  proof -
    have "0 < uxMessagesWaiting (queues s i) \<Longrightarrow> pxMutexHolder (queues s i) = None" using m(3) by (auto simp: word_gt_0)
    then show ?thesis using receive_step_holder [OF that i(2) m(2)] cur by auto
  qed
  show ?thesis
  proof (cases "calls s t")
    case Application
    then show ?thesis using op by simp
  next
    case (Send j item p c)
    obtain c' q' where st: "send_step item p c (queues s j) (kern s) = Some (c', q', k)" "qs = (queues s)(j := q')"
      using op Send by (auto split: bind_splits)
    show ?thesis
    proof (cases "i = j")
      case True
      have "h = t" if "c = Trying e n" "pxMutexHolder (queues s i) = Some h" for e n h
        using continue_own [OF inv t op] Send that i(2) True by (auto simp: gives_foreign_def)
      then show ?thesis using send_step_holder [of item p c "queues s i" "kern s" c' q' k] st True i(2) m(2) by (cases "pxMutexHolder (queues s i)") auto
    next
      case False
      then show ?thesis using st i(2) by simp
    qed
  next
    case (Receive j peek c)
    then obtain c' q' where st: "receive_step peek c (queues s j) (kern s) = Some (c', q', k)" "qs = (queues s)(j := q')"
      using op by (auto split: bind_splits)
    show ?thesis
    proof (cases "i = j")
      case True
      then show ?thesis using rc [of peek c c' q' k] st by auto
    next
      case False
      then show ?thesis using st(2) i(2) by simp
    qed
  next
    case (Take_recursive j c)
    then obtain c' q' n where st: "receive_step False c (queues s j) (kern s) = Some (c', q', k)"
      "qs = (queues s)(j := q') \<or> qs = (queues s)(j := q'\<lparr>uxRecursiveCallCount := n\<rparr>)"
      using op by (fastforce simp: take_recursive_step_def split: bind_splits pc.splits option.splits)
    show ?thesis
    proof (cases "i = j")
      case True
      then show ?thesis using rc [of False c c' q' k] st by auto
    next
      case False
      then show ?thesis using st(2) i(2) by auto
    qed
  qed
qed

lemma sys_event_holder:
  assumes inv: "sys_inv T N idle s" and i: "i < N" "is_mutex (queues s i)" and st: "sys_event T N idle s e s'"
  shows "holder_step i s s'"
  using st
proof cases
  case (continue t C qs k)
  show ?thesis using call_step_holder [OF inv continue(3) i continue(4)] continue(2,3) by (auto simp: holder_step_def)
next
  case (call_take t j ticks c q k)
  then have "is_mutex q = is_mutex (queues s j) \<and> pxMutexHolder q = pxMutexHolder (queues s j)"
    by (auto simp: xQueueTakeMutexRecursive_def split: if_splits bind_splits)
  then show ?thesis using call_take(2) i(2) by (auto simp: holder_step_def)
next
  case (give_recursive t j ok q k)
  have cur: "pxCurrentTCB (kern s) = Some t" using give_recursive(3) by (simp add: runs_def)
  have m: "uxItemSize (queues s j) = 0" using mutex_good(2) [OF sys_inv_queue(1) [OF inv]] give_recursive by blast
  have "is_mutex q \<and> (pxMutexHolder q = pxMutexHolder (queues s j) \<or> pxMutexHolder (queues s j) = Some t \<and> pxMutexHolder q = None)"
  proof (cases "pxMutexHolder (queues s j) = pxCurrentTCB (kern s)")
    case True
    let ?q = "(queues s j)\<lparr>uxRecursiveCallCount := uxRecursiveCallCount (queues s j) - 1\<rparr>"
    have "q = ?q \<or> (\<exists>c c'. send_step [] SEND_TO_BACK c ?q (kern s) = Some (c', q, k))"
      using True give_recursive(7) by (auto simp: xQueueGiveMutexRecursive_def Let_def split: if_splits bind_splits)
    then show ?thesis
    proof (elim disjE exE)
      fix c c' assume "send_step [] SEND_TO_BACK c ?q (kern s) = Some (c', q, k)"
      from send_step_holder [OF this] show ?thesis using give_recursive(6) m cur True by auto
    qed (use give_recursive(6) in simp)
  next
    case False
    then show ?thesis using give_recursive(6,7) by (simp add: xQueueGiveMutexRecursive_def)
  qed
  then show ?thesis using give_recursive(2,3) i(2) by (auto simp: holder_step_def)
qed (use i in \<open>auto simp: holder_step_def\<close>)

end
