(* ===== verification/Rtos_Delay.thy ===== *)
theory Rtos_Delay
  imports Rtos_Messages
begin

text \<open>
  How long a delay lasts in the running system: every step of the other tasks and of the interrupts leaves a sleeping task asleep, until
  the ticks it waits for have come and been counted.
\<close>

lemma no_backlog_yield [simp]: "no_backlog (portYIELD k) = no_backlog k"
  by (simp add: no_backlog_def portYIELD_def)

lemma effect_same:
  "same_clock k k' \<Longrightarrow> (\<And>t v. t \<noteq> u \<Longrightarrow> asleep T k t v \<Longrightarrow> spares t k k') \<Longrightarrow> task_effect T u k k'"
  by (auto simp: task_effect_def)

lemma serves_end_switching: "serves T Q k k' \<Longrightarrow> serves T Q k (portEND_SWITCHING_ISR y k')"
  by (simp add: portEND_SWITCHING_ISR_def)

lemma delay_effect:
  assumes inv: "sys_inv T N idle s" and nb: "no_backlog (kern s)" and t: "runs t s" "calls s t = Application"
    and op: "vTaskDelay n (kern s) = Some k"
  shows "task_effect T t (kern s) k"
proof (cases "n = 0")
  case True
  then have "k = portYIELD (kern s)" using op by (simp add: vTaskDelay_def)
  then show ?thesis by (intro effect_same) (simp_all add: same_clock_def portYIELD_def)
next
  case False
  then have "0 < n" by (simp add: word_gt_0)
  then have s: "uxSchedulerSuspended (kern s) = 0" using op by (auto simp: vTaskDelay_def split: if_splits)
  then have p: "uxPendedTicks (kern s) = 0" using nb by (simp add: no_backlog_def)
  from vTaskDelay_spec [OF sys_inv_simps(1) [OF inv] s application_ready [OF inv t] False] op p s
  show ?thesis by (intro effect_same) (auto simp: same_clock_def delayed_one_def)
qed

lemma delay_until_effect:
  assumes inv: "sys_inv T N idle s" and nb: "no_backlog (kern s)" and t: "runs t s" "calls s t = Application"
    and op: "vTaskDelayUntil prev inc (kern s) = Some (w, k)"
  shows "task_effect T t (kern s) k"
proof -
  have s: "uxSchedulerSuspended (kern s) = 0" "0 < inc" using op by (auto simp: vTaskDelayUntil_def split: if_splits)
  then have p: "uxPendedTicks (kern s) = 0" using nb by (simp add: no_backlog_def)
  from vTaskDelayUntil_spec [OF sys_inv_simps(1) [OF inv] s(1) application_ready [OF inv t] s(2), of prev] op p s(1)
  show ?thesis by (intro effect_same) (auto simp: same_clock_def delayed_one_def)
qed

text \<open>Every step but the tick and the switch is one of a task, or of an interrupt, which is no task.\<close>

lemma event_effect:
  assumes inv: "sys_inv T N idle s" and nb: "no_backlog (kern s)" and ev: "sys_event T N idle s e s'" and e: "e \<noteq> Tick" "e \<noteq> Switch"
  shows "\<exists>u. task_effect T u (kern s) (kern s') \<and> (runs u s \<or> e = Suspends u \<or> u = T)"
proof -
  note k = sys_inv_simps [OF inv]
  have core: "kernel_core T (event_lists N) {} (kern s)" using k(1) by (simp add: kernel_inv_def)
  have isr: "task_effect T T (kern s) (portEND_SWITCHING_ISR y k')" if "serves T (event_lists N) (kern s) k'" for y k'
    using serves_effect [OF serves_end_switching [OF that]] .
  show ?thesis
    using ev
  proof cases
    case (isr_send i item p ok w q k' y)
    then show ?thesis
      using SendFromISR_spec [OF k(1) sys_inv_queue(3,2) [OF inv isr_send(3)] isr_send(4,5)] isr by auto
  next
    case (isr_give i ok w q k' y)
    then have "uxItemSize (queues s i) = 0" by (auto simp: xQueueGiveFromISR_def split: if_splits)
    from GiveFromISR_spec [OF k(1) sys_inv_queue(3,2) [OF inv isr_give(3)] isr_give(4) this] isr_give isr
    show ?thesis by auto
  next
    case (isr_receive i d w q k' y)
    then show ?thesis
      using ReceiveFromISR_spec [OF k(1) sys_inv_queue(3,2) [OF inv isr_receive(3)] isr_receive(4)] isr by auto
  next
    case (call_take t i ticks c q k')
    then have "k' = kern s" by (auto simp: xQueueTakeMutexRecursive_def split: if_splits bind_splits)
    then show ?thesis using call_take by auto
  next
    case (give_recursive t i ok q k')
    then show ?thesis using give_recursive_returns [OF inv, of t i] serves_effect by fastforce
  next
    case (continue t c qs k')
    obtain pc where pc: "pc_of (calls s t) = Some pc" "\<not> returned (Some pc)" using continue_in_progress [OF continue(4)] by blast
    from inv_call_step [OF inv continue(3) pc continue_own [OF inv continue(3,4)]] continue
    show ?thesis by auto
  next
    case (suspend_all t)
    then show ?thesis by (auto simp: task_effect_def)
  next
    case (resume_all t y k')
    then show ?thesis by (auto simp: task_effect_def)
  next
    case (delay t n k')
    then show ?thesis using delay_effect [OF inv nb] by auto
  next
    case (delay_until t prev inc w k')
    then show ?thesis using delay_until_effect [OF inv nb delay_until(3,4,6)] by auto
  next
    case (set_priority t u p k')
    have "spares v (kern s) k'" if "asleep T (kern s) v x" for v x
      using spares_PrioritySet [OF set_priority(6)] asleep_not_ready(1) [OF core that] by blast
    then have "task_effect T t (kern s) k'" by (intro effect_same kept_clock kept_PrioritySet [OF set_priority(6)])
    then show ?thesis using set_priority by auto
  next
    case (suspend t u k')
    have "task_effect T u (kern s) k'"
      using spares_Suspend [OF suspend(7) _ k(2)] by (intro effect_same kept_clock kept_Suspend [OF suspend(7) k(2)]) simp
    then show ?thesis using suspend by auto
  next
    case (resume t u k')
    have "spares v (kern s) k'" if "asleep T (kern s) v x" for v x
      using spares_Resume [OF resume(6)] asleep_not_ready(2) [OF core that] by blast
    then have "task_effect T t (kern s) k'" by (intro effect_same kept_clock kept_Resume [OF resume(6)])
    then show ?thesis using resume by auto
  qed (use e in auto)
qed

lemma switch_effect:
  assumes inv: "sys_inv T N idle s" and op: "pendsv (kern s)" "xPortPendSVHandler (kern s) = Some k"
  shows "same_clock (kern s) k \<and> spares t (kern s) k"
proof (cases "uxSchedulerSuspended (kern s) = 0")
  case True
  let ?k = "(kern s)\<lparr>pendsv := False\<rparr>"
  have ki: "kernel_inv T (event_lists N) ?k" and idle: "idle < T" "is_ready ?k idle" using inv by (auto simp: sys_inv_def)
  obtain u h where "vTaskSwitchContext ?k = Some (?k\<lparr>xYieldPending := False, heap := h, pxCurrentTCB := Some u\<rparr>)"
    "items h = items (heap ?k)"
    using switch_spec [OF ki _ idle] True by auto
  then show ?thesis
    using op(2) by (auto simp: xPortPendSVHandler_def same_clock_def spares_def item_container_def item_value_def)
next
  case False
  then have "k = (kern s)\<lparr>pendsv := False, xYieldPending := True\<rparr>"
    using op(2) by (simp add: xPortPendSVHandler_def vTaskSwitchContext_def)
  then show ?thesis by (simp add: same_clock_def)
qed

lemma systick_effect:
  assumes "kernel_inv T Q k" "no_backlog k" "xPortSysTickHandler k = Some k'"
  shows "no_backlog k'" "asleep T k t v \<Longrightarrow> unat (uxPendedTicks k) + 1 < 2 ^ 32 \<Longrightarrow> sleeps_on 1 T t v k k'"
proof -
  have "no_backlog k' \<and> (asleep T k t v \<longrightarrow> unat (uxPendedTicks k) + 1 < 2 ^ 32 \<longrightarrow> sleeps_on 1 T t v k k')"
  proof (cases "uxSchedulerSuspended k = 0")
    case True
    then have p: "uxPendedTicks k = 0" using assms(2) by (simp add: no_backlog_def)
    obtain sw k1 where k1: "xTaskIncrementTick k = Some (sw, k1)" "ticked T k k1" using tick_spec [OF assms(1) True] by blast
    have k': "k' = portYIELD k1 \<or> k' = k1" using assms(3) k1(1) by (auto simp: xPortSysTickHandler_def)
    have p1: "uxPendedTicks k1 = 0" using k1(2) p by (simp add: ticked_def)
    have "sleeps_on 1 T t v k k1" if a: "asleep T k t v"
    proof -
      have "unat (v - now k) \<noteq> 0" using asleep_late(1) [OF assms(1) a] by (simp add: unat_eq_zero)
      moreover have "v = now k + 1 \<Longrightarrow> unat (v - now k) = 1" by simp
      ultimately show ?thesis using tick_sleeps [OF assms(1) a k1(2)] p p1 by (auto simp: sleeps_on_def split: if_splits)
    qed
    moreover have "no_backlog k1" using p1 by (simp add: no_backlog_def)
    ultimately show ?thesis using k' by auto
  next
    case False
    let ?k = "k\<lparr>uxPendedTicks := uxPendedTicks k + 1\<rparr>"
    have k': "k' = portYIELD ?k \<or> k' = ?k" using assms(3) False by (auto simp: xPortSysTickHandler_def xTaskIncrementTick_def)
    have "sleeps_on 1 T t v k ?k" if "asleep T k t v" "unat (uxPendedTicks k) + 1 < 2 ^ 32"
      using that by (simp add: sleeps_on_def asleep_def delayed_until_def unat_word_ariths)
    moreover have "no_backlog ?k" using False by (simp add: no_backlog_def)
    ultimately show ?thesis using k' by auto
  qed
  then show "no_backlog k'" "asleep T k t v \<Longrightarrow> unat (uxPendedTicks k) + 1 < 2 ^ 32 \<Longrightarrow> sleeps_on 1 T t v k k'" by blast+
qed

lemma event_backlog:
  assumes inv: "sys_inv T N idle s" and nb: "no_backlog (kern s)" and ev: "sys_event T N idle s e s'"
  shows "no_backlog (kern s')"
proof (cases "e = Tick \<or> e = Switch")
  case False
  then show ?thesis using event_effect [OF inv nb ev] effect_backlog [OF sys_inv_simps(1) [OF inv] nb] by blast
next
  case True
  show ?thesis
    using ev
  proof cases
    case (systick k)
    then show ?thesis using systick_effect(1) [OF sys_inv_simps(1) [OF inv] nb systick(3)] by simp
  next
    case (switch k)
    then show ?thesis using switch_effect [OF inv switch(3,4)] nb by (simp add: same_clock_def no_backlog_def)
  qed (use True in auto)
qed

lemma trace_backlog:
  "sys_trace T N idle s es s' \<Longrightarrow> sys_inv T N idle s \<Longrightarrow> no_backlog (kern s) \<Longrightarrow> no_backlog (kern s')"
proof (induction rule: trace.induct)
  case (trace_snoc s es s' e s'')
  then show ?case using event_backlog sys_steps_inv [OF sys_trace_steps] by blast
qed

lemma event_calls: "sys_event T N idle s e s' \<Longrightarrow> \<not> runs t s \<Longrightarrow> calls s' t = calls s t"
  by (erule sys_event.cases) auto

text \<open>One step of the system, for a task that sleeps in its delay.\<close>

lemma event_sleeps:
  assumes inv: "sys_inv T N idle s" and nb: "no_backlog (kern s)" and ev: "sys_event T N idle s e s'"
    and t: "asleep T (kern s) t v" "calls s t = Application" "e \<noteq> Suspends t"
    and p: "e = Tick \<Longrightarrow> unat (uxPendedTicks (kern s)) + 1 < 2 ^ 32"
  shows "sleeps_on (if e = Tick then 1 else 0) T t v (kern s) (kern s') \<and> calls s' t = Application"
proof -
  have tT: "t < T" using t(1) by (simp add: asleep_def delayed_until_def)
  have core: "kernel_core T (event_lists N) {} (kern s)" using sys_inv_simps(1) [OF inv] by (simp add: kernel_inv_def)
  have r: "\<not> runs t s" using application_ready(3) [OF inv _ t(2)] asleep_not_ready(1) [OF core t(1)] by blast
  have "sleeps_on (if e = Tick then 1 else 0) T t v (kern s) (kern s')"
  proof (cases "e = Tick \<or> e = Switch")
    case False
    then obtain u where "task_effect T u (kern s) (kern s')" "runs u s \<or> e = Suspends u \<or> u = T"
      using event_effect [OF inv nb ev] by blast
    moreover from this have "t \<noteq> u" using r t(3) tT by auto
    ultimately show ?thesis using effect_sleeps [OF sys_inv_simps(1) [OF inv] t(1)] False by auto
  next
    case True
    show ?thesis
      using ev
    proof cases
      case (systick k)
      then show ?thesis using systick_effect(2) [OF sys_inv_simps(1) [OF inv] nb systick(3) t(1)] p by simp
    next
      case (switch k)
      then show ?thesis using switch_effect [OF inv switch(3,4)] sleeps_on_same [OF t(1)] by simp
    qed (use True in auto)
  qed
  then show ?thesis using event_calls [OF ev r] t(2) by simp
qed

text \<open>
  A whole run with at most as many ticks as the task waits for: it still sleeps, or it became ready in the run, and then
  as many ticks had come.
\<close>

abbreviation ticks_of :: "event list \<Rightarrow> nat" where "ticks_of es \<equiv> count_list es Tick"

lemma trace_sleeps:
  assumes "sys_trace T N idle s es s'" "sys_inv T N idle s" "no_backlog (kern s)" "asleep T (kern s) t v" "calls s t = Application"
    and "uxPendedTicks (kern s) = 0" "Suspends t \<notin> set es" "ticks_of es \<le> unat (v - now (kern s))"
  shows "asleep T (kern s') t v \<and> calls s' t = Application \<and> unat (v - now (kern s')) \<le> unat (v - now (kern s)) \<and>
      unat (v - now (kern s')) + ticks_of es = unat (v - now (kern s)) + unat (uxPendedTicks (kern s')) \<or>
    (\<exists>es1 es2 s1. es = es1 @ es2 \<and> sys_trace T N idle s es1 s1 \<and> sys_trace T N idle s1 es2 s' \<and>
       ticks_of es1 = unat (v - now (kern s)) \<and> is_ready (kern s1) t)"
  using assms
proof (induction rule: trace.induct)
  case (trace_snoc s es s' e s'')
  have tc: "ticks_of (es @ [e]) = ticks_of es + (if e = Tick then 1 else 0)" by simp
  have inv: "sys_inv T N idle s'" using sys_steps_inv [OF sys_trace_steps [OF trace_snoc.hyps(1)]] trace_snoc.prems(1) .
  have nb: "no_backlog (kern s')" using trace_backlog [OF trace_snoc.hyps(1)] trace_snoc.prems(1,2) .
  from trace_snoc.IH trace_snoc.prems tc consider
    (sleeping) "asleep T (kern s') t v" "calls s' t = Application" "unat (v - now (kern s')) \<le> unat (v - now (kern s))"
      "unat (v - now (kern s')) + ticks_of es = unat (v - now (kern s)) + unat (uxPendedTicks (kern s'))"
  | (woken) es1 es2 s1 where "es = es1 @ es2" "sys_trace T N idle s es1 s1" "sys_trace T N idle s1 es2 s'"
      "ticks_of es1 = unat (v - now (kern s))" "is_ready (kern s1) t"
    by (auto split: if_splits)
  then show ?case
  proof cases
    case sleeping
    have l: "unat (v - now (kern s)) < 2 ^ 32" using unsigned_less [of "v - now (kern s)", where 'a = nat] by simp
    have "unat (uxPendedTicks (kern s')) + 1 < 2 ^ 32" if "e = Tick"
      using that sleeping(3,4) trace_snoc.prems(7) l unfolding tc by simp
    moreover have "e \<noteq> Suspends t" using trace_snoc.prems(6) by auto
    ultimately have so: "sleeps_on (if e = Tick then 1 else 0) T t v (kern s') (kern s'')" "calls s'' t = Application"
      using event_sleeps [OF inv nb trace_snoc.hyps(2) sleeping(1,2)] by blast+
    show ?thesis
    proof (cases "is_ready (kern s'') t")
      case False
      then show ?thesis using so sleeping(3,4) unfolding tc by (auto simp: sleeps_on_def)
    next
      case True
      have tr: "sys_trace T N idle s (es @ [e]) s''" by (rule trace.trace_snoc [OF trace_snoc.hyps])
      have "kernel_core T (event_lists N) {} (kern s'')"
        using sys_inv_simps(1) [OF sys_event_inv [OF trace_snoc.hyps(2) inv]] by (simp add: kernel_inv_def)
      then have "\<not> asleep T (kern s'') t v" using asleep_not_ready(1) True by blast
      then have "ticks_of (es @ [e]) = unat (v - now (kern s))"
        using so(1) sleeping(4) trace_snoc.prems(7) unfolding tc by (auto simp: sleeps_on_def)
      then show ?thesis using tr True trace.trace_nil by (intro disjI2 exI [of _ "es @ [e]"] exI [of _ "[]"] exI [of _ s'']) auto
    qed
  next
    case woken
    have "sys_trace T N idle s1 (es2 @ [e]) s''" by (rule trace.trace_snoc [OF woken(3) trace_snoc.hyps(2)])
    then show ?thesis using woken by (intro disjI2 exI [of _ es1] exI [of _ "es2 @ [e]"] exI [of _ s1]) simp
  qed
qed simp

lemma reachable_backlog:
  assumes "reachable malloc ps obs s" "malloc_ok malloc" "program_ok ps obs"
  shows "no_backlog (kern s)"
  using assms(1)
proof induction
  case (started h s)
  then show ?case using start_system_inv(7) [OF assms(2,3)] by (simp add: no_backlog_def)
next
  case (stepped s s')
  obtain e where "sys_event (all_tasks ps) (length obs) (idle_task ps) s e s'" using stepped.hyps(2) by (auto simp: sys_step_def)
  from event_backlog [OF reachable_inv [OF stepped.hyps(1) assms(2,3)] stepped.IH this] show ?case .
qed

text \<open>The tick interrupt can come as often as one likes.\<close>

lemma ticks_trace: "sys_inv T N idle s \<Longrightarrow> \<exists>s'. sys_trace T N idle s (replicate n Tick) s' \<and> uxSchedulerSuspended (kern s') = uxSchedulerSuspended (kern s)"
proof (induction n)
  case 0
  then show ?case using trace_nil by fastforce
next
  case (Suc n)
  then obtain s' where s': "sys_trace T N idle s (replicate n Tick) s'" "uxSchedulerSuspended (kern s') = uxSchedulerSuspended (kern s)" by blast
  have "sys_inv T N idle s'" using sys_steps_inv [OF sys_trace_steps [OF s'(1)] Suc.prems] .
  then obtain k where k: "xPortSysTickHandler (kern s') = Some k" "steady T (kern s') k"
    using systick_spec sys_inv_simps(1) by blast
  from trace_snoc [OF s'(1) systick [OF k(1), of T N idle]]
  have "sys_trace T N idle s (replicate (Suc n) Tick) (set_kern k s')" by (simp add: replicate_append_same)
  then show ?case using k(2) s'(2) by (intro exI [of _ "set_kern k s'"]) (simp add: steady_def)
qed

end
