(* ===== verification/Rtos_Props.thy ===== *)
theory Rtos_Props
  imports Rtos_Delay
begin

text \<open>
  The properties of the running kernel, of every state that a program reaches from its start. The witnesses are about a program
  of one task with a queue of two bytes and a mutex.
\<close>

section \<open>A program\<close>

definition example_memory :: "32 word \<Rightarrow> 8 word list option" where
  "example_memory n = Some (replicate (unat n) 0)"

abbreviation example_objects :: "object list" where "example_objects \<equiv> [Queue 2 1, Mutex]"

lemma example_ok: "malloc_ok example_memory" "\<forall>n. example_memory n \<noteq> None" "program_ok [3] example_objects"
  by (auto simp: malloc_ok_def example_memory_def program_ok_def)

lemma example_start:
  "\<exists>s. reachable example_memory [3] example_objects s \<and> sys_inv 3 2 1 s \<and> runs 0 s \<and> calls s = (\<lambda>_. Application) \<and>
    uxSchedulerSuspended (kern s) = 0 \<and> uxPendedTicks (kern s) = 0 \<and> (\<forall>t < 3. is_ready (kern s) t) \<and>
    priority_of (kern s) 0 = 3 \<and> priority_of (kern s) 1 = 0 \<and> priority_of (kern s) 2 = 2 \<and> (\<forall>t < 3. uxMutexesHeld (tcb (kern s) t) = 0) \<and>
    \<not> is_mutex (queues s 0) \<and> uxLength (queues s 0) = 2 \<and> uxItemSize (queues s 0) = 1 \<and> queue_items (queues s 0) = [] \<and>
    is_mutex (queues s 1) \<and> uxMessagesWaiting (queues s 1) = 1 \<and> pxMutexHolder (queues s 1) = None"
proof -
  obtain h :: store where True by blast
  obtain s where s: "start_system example_memory [3] example_objects h = Some s"
    using start_system_succeeds [OF example_ok] by blast
  note f = start_system_inv [OF example_ok(1,3) s]
  obtain t where t: "t < 3" "runs t s" "\<forall>u < 3. priority_of (kern s) u \<le> priority_of (kern s) t" using f(2) by (auto simp: numeral_3_eq_3)
  have p: "priority_of (kern s) 0 = 3" "priority_of (kern s) 1 = 0" "priority_of (kern s) 2 = 2"
    using f(8) [of 0] f(9,10) by (simp_all add: numeral_2_eq_2)
  have "3 \<le> priority_of (kern s) t" using spec [OF t(3), of 0] p(1) by simp
  then have "t \<noteq> 1" "t \<noteq> 2" using p by auto
  then have "runs 0 s" using t(1,2) by (cases t) (auto simp: numeral_3_eq_3 numeral_2_eq_2 less_Suc_eq)
  then show ?thesis
    using p f(1,3-7) f(11) [of 0] f(11) [of 1] started [OF s]
    by (intro exI [of _ s]) (simp add: numeral_3_eq_3 numeral_2_eq_2)
qed

text \<open>The task of the program takes the mutex, in two steps.\<close>

lemma example_take:
  "\<exists>s s'. reachable example_memory [3] example_objects s \<and> sys_step 3 2 1 s s' \<and> runs 0 s \<and> is_mutex (queues s 1) \<and>
    pxMutexHolder (queues s 1) = None \<and> pxMutexHolder (queues s' 1) = Some 0"
proof -
  obtain s where s: "reachable example_memory [3] example_objects s" "sys_inv 3 2 1 s" "runs 0 s" "calls s = (\<lambda>_. Application)"
    "is_mutex (queues s 1)" "uxMessagesWaiting (queues s 1) = 1" "pxMutexHolder (queues s 1) = None"
    using example_start by blast
  define s1 where "s1 = set_call 0 (Receive 1 False (Trying None 0)) s"
  have s1: "sys_step 3 2 1 s s1" unfolding s1_def
    by (rule sys_stepI, rule call_receive [OF s(3), of 1 2 0 1]) (simp_all add: s(4) xQueueGenericReceive_def)
  have i1: "sys_inv 3 2 1 s1" using sys_step_inv [OF s1 s(2)] .
  have r1: "runs 0 s1" "queues s1 = queues s" "calls s1 0 = Receive 1 False (Trying None 0)"
    using s(3) by (simp_all add: s1_def runs_def)
  have cur: "pxCurrentTCB (kern s1) = Some 0" using r1(1) by (simp add: runs_def)
  have q: "uxItemSize (queues s 1) = 0" using mutex_good(2) [OF sys_inv_queue(1) [OF s(2)] s(5)] by simp
  obtain k where k: "receive_try False None 0 (queues s 1) (kern s1) =
      Some (Returned (Some []), (queues s 1)\<lparr>uxMessagesWaiting := 0, pxMutexHolder := Some 0\<rparr>, k)"
    using take_mutex_spec [OF sys_inv_simps(1) [OF i1] sys_inv_queue(3) [OF s(2), of 1] s(5) q s(6) cur] by auto
  have "call_step (calls s1 0) (queues s1) (kern s1) = Some (Receive 1 False (Returned (Some [])),
      (queues s)(1 := (queues s 1)\<lparr>uxMessagesWaiting := 0, pxMutexHolder := Some 0\<rparr>), k)"
    using k r1 by (simp add: receive_step_def)
  from sys_stepI [OF continue [OF r1(1) this, of 3 2 1]] show ?thesis
    using reachable.stepped [OF s(1)] s1 r1 s(5,7)
    by (intro exI [of _ s1] exI) (auto simp: numeral_3_eq_3 numeral_2_eq_2)
qed

section \<open>Starting\<close>

text \<open>
  C5. A program with a task whose sizes fit starts when there is memory for it: all its tasks, the idle task and the task of
  the timers are ready, the one that runs has the highest priority, every queue is empty, every mutex free and every semaphore
  has its initial count, and the invariant of the system holds.
\<close>

theorem program_starts:
  assumes "malloc_ok malloc" "\<forall>n. malloc n \<noteq> None" "program_ok ps obs"
  shows "\<exists>s t. start_system malloc ps obs h = Some s \<and> sys_inv (length ps + 2) (length obs) (length ps) s \<and>
    runs t s \<and> (\<forall>u < length ps + 2. is_ready (kern s) u \<and> priority_of (kern s) u \<le> priority_of (kern s) t) \<and>
    (\<forall>u < length ps. priority_of (kern s) u = ps ! u) \<and>
    (\<forall>i < length obs. as_created (obs ! i) (queues s i) \<and> pxMutexHolder (queues s i) = None)"
proof -
  obtain s where s: "start_system malloc ps obs h = Some s" using start_system_succeeds [OF assms] by blast
  note f = start_system_inv [OF assms(1,3) s]
  show ?thesis using s f(1,2,5,8,11) by blast
qed

theorem program_starts_witness:
  "\<exists>h s t. start_system example_memory [3] [Queue 2 1, Mutex] h = Some s \<and> runs t s \<and> pxMutexHolder (queues s 1) = None"
  using program_starts [OF example_ok] by fastforce

section \<open>Safety\<close>

text \<open>
  C3. Whatever the tasks call and whenever interrupts come, the invariant of the system holds: each task is on
  exactly the list that its state and its priority name, each list is linked as it should be, the ready bits tell which
  ready lists are not empty, delayed tasks are ordered by their wake time, every queue is a ring with room for its
  messages, a mutex is taken exactly when it has a holder, each task counts the mutexes it holds and has its base priority when it holds
  none, and the task that runs is ready or about to be replaced.
\<close>

theorem system_invariant:
  assumes "malloc_ok malloc" "program_ok ps obs" "reachable malloc ps obs s"
  shows "sys_inv (length ps + 2) (length obs) (length ps) s"
  using reachable_inv [OF assms(3,1,2)] by simp

theorem system_invariant_witness:
  "\<exists>s. reachable example_memory [3] [Queue 2 1, Mutex] s \<and> pxMutexHolder (queues s 1) = Some 0 \<and> sys_inv 3 2 1 s"
proof -
  obtain s s' where s: "reachable example_memory [3] example_objects s" "sys_step 3 2 1 s s'" "pxMutexHolder (queues s' 1) = Some 0"
    using example_take by blast
  then have "reachable example_memory [3] example_objects s'"
    using reachable.stepped [OF s(1), of s'] by (simp add: numeral_3_eq_3 numeral_2_eq_2)
  then show ?thesis using system_invariant [OF example_ok(1,3), of s'] s(3) by (auto simp: numeral_3_eq_3 numeral_2_eq_2)
qed

text \<open>
  C1. Mutual exclusion. Any task may try to take and to give any mutex at any time, with the plain and the recursive calls, and may wait for it. In
  every step of a run the holder of a mutex stays, or the running task becomes the holder of a mutex that nobody held, or the
  running task was the holder and gives it back; a mutex can be taken exactly when it has no holder. That nobody gives away what
  another task holds is the work of the assertion in \<open>xTaskPriorityDisinherit\<close>, which the step of such a task does not pass.
\<close>

theorem mutual_exclusion:
  assumes "malloc_ok malloc" "program_ok ps obs" "reachable malloc ps obs s"
    and "sys_step (length ps + 2) (length obs) (length ps) s s'" "i < length obs" "is_mutex (queues s i)"
  shows "is_mutex (queues s' i) \<and> (uxMessagesWaiting (queues s' i) = 0 \<longleftrightarrow> pxMutexHolder (queues s' i) \<noteq> None) \<and>
    (pxMutexHolder (queues s' i) = pxMutexHolder (queues s i) \<or>
     (\<exists>t. runs t s \<and> pxMutexHolder (queues s i) = None \<and> pxMutexHolder (queues s' i) = Some t) \<or>
     (\<exists>t. runs t s \<and> pxMutexHolder (queues s i) = Some t \<and> pxMutexHolder (queues s' i) = None))"
proof -
  note inv = reachable_inv [OF assms(3,1,2)]
  have h: "holder_step i s s'" using sys_event_holder [OF inv assms(5,6)] assms(4) by (auto simp: sys_step_def)
  have "queue_good (length ps + 2) i (queues s' i)" by (rule sys_inv_queue(1) [OF sys_step_inv [OF assms(4) inv] assms(5)])
  then show ?thesis using h by (auto simp: queue_good_def holder_step_def Let_def)
qed

theorem mutual_exclusion_witness:
  "\<exists>s s'. sys_step 3 2 1 s s' \<and> pxMutexHolder (queues s 1) = None \<and> pxMutexHolder (queues s' 1) = Some 0 \<and> runs 0 s \<and>
    uxMessagesWaiting (queues s' 1) = 0"
proof -
  obtain s s' where s: "reachable example_memory [3] example_objects s" "sys_step 3 2 1 s s'" "runs 0 s" "is_mutex (queues s 1)"
    "pxMutexHolder (queues s 1) = None" "pxMutexHolder (queues s' 1) = Some 0"
    using example_take by blast
  have st: "sys_step (length [3::nat] + 2) (length example_objects) (length [3::nat]) s s'"
    using s(2) by (simp add: numeral_3_eq_3 numeral_2_eq_2)
  show ?thesis using mutual_exclusion [OF example_ok(1,3) s(1) st _ s(4)] s by auto
qed

text \<open>
  C4. No assertion fails, no pointer is followed to nowhere and no loop hangs, but for one assertion. At every moment of a
  run the tick interrupt returns, and so do the calls of an interrupt on a queue or a semaphore and the switch of tasks. Else a
  task runs. In its own code, it may begin the calls of a queue, a semaphore or a mutex, give a mutex with the
  recursive call, and make the calls of the scheduler, and each returns, where it obeys what the code asserts of its arguments: no waiting while
  it suspends the scheduler, a priority in range, an increment that is not zero. In a call, the next step fails exactly when
  it gives a mutex that another task holds.
\<close>

theorem system_progress:
  assumes "malloc_ok malloc" "program_ok ps obs" "reachable malloc ps obs s"
  shows "(\<exists>k. xPortSysTickHandler (kern s) = Some k) \<and>
    (pendsv (kern s) \<longrightarrow> (\<exists>k. xPortPendSVHandler (kern s) = Some k)) \<and>
    (\<forall>i < length obs. \<not> is_mutex (queues s i) \<longrightarrow> isr_calls_return (queues s i) (kern s)) \<and>
    (\<not> pendsv (kern s) \<longrightarrow> (\<exists>t < length ps + 2. runs t s \<and>
       (if calls s t = Application
        then task_calls_return (length ps + 2) t (kern s) \<and> (\<forall>i < length obs. queue_calls_begin (queues s i) (kern s))
        else returned (pc_of (calls s t)) \<or>
          (call_step (calls s t) (queues s) (kern s) = None \<longleftrightarrow> gives_foreign t (queues s) (calls s t)))))"
proof -
  note inv = reachable_inv [OF assms(3,1,2)]
  obtain t where t: "t < length ps + 2" "pxCurrentTCB (kern s) = Some t" using sys_inv_current [OF inv] by blast
  have "\<exists>k. xPortSysTickHandler (kern s) = Some k" using inv_systick [OF inv] by blast
  moreover have "\<exists>k. xPortPendSVHandler (kern s) = Some k" if "pendsv (kern s)" using inv_switch [OF inv that] by blast
  moreover have "runs t s" if "\<not> pendsv (kern s)" using that t(2) by (simp add: runs_def)
  ultimately show ?thesis
    using t(1) isr_returns [OF inv] task_calls_answered [OF inv, of t] queue_calls_return [OF inv, of t]
      call_step_returns [OF inv, of t] by (intro conjI) auto
qed

text \<open>The task of the program can delay itself and give its mutex, which nobody holds.\<close>

theorem system_progress_witness:
  "\<exists>s. reachable example_memory [3] [Queue 2 1, Mutex] s \<and> runs 0 s \<and> xPortSysTickHandler (kern s) \<noteq> None \<and>
    vTaskDelay 5 (kern s) \<noteq> None \<and> xQueueGenericSend (Some []) SEND_TO_BACK 0 (queues s 1) (kern s) \<noteq> None"
proof -
  obtain s where s: "reachable example_memory [3] example_objects s" "runs 0 s" "calls s = (\<lambda>_. Application)" "is_mutex (queues s 1)"
    "uxSchedulerSuspended (kern s) = 0"
    using example_start by blast
  have e: "length [3::nat] + 2 = 3" "length example_objects = 2" "calls s t = Application" for t using s(3) by simp_all
  have n: "\<not> pendsv (kern s)" "t = 0" if "runs t s" for t using s(2) that by (simp_all add: runs_def)
  note p = system_progress [OF example_ok(1,3) s(1), unfolded e simp_thms(6) if_True]
  have "xPortSysTickHandler (kern s) \<noteq> None" using conjunct1 [OF p] by simp
  moreover obtain t where t: "runs t s" "task_calls_return 3 t (kern s)" "\<forall>i < 2. queue_calls_begin (queues s i) (kern s)"
    using mp [OF conjunct2 [OF conjunct2 [OF conjunct2 [OF p]]] n(1) [OF s(2)]] by (elim exE conjE)
  moreover have "task_calls_return 3 0 (kern s)" "queue_calls_begin (queues s 1) (kern s)" using t(2,3) n(2) [OF t(1)] by simp_all
  ultimately show ?thesis
    using s by (intro exI [of _ s]) (auto simp: task_calls_return_def queue_calls_begin_def may_send_def)
qed

section \<open>Messages\<close>

text \<open>
  C2. A queue is a bounded list. Over any run each queue and each semaphore goes exactly through the operations that the calls
  of the tasks and of the interrupts report, in the order of the run: a send that reports success puts the bytes of its item at
  the back, at the front or in the place of another, a receive that returns bytes takes them from the front, and
  nothing else changes the queue. So it is never longer than its length; where the reported sends are at the back only, what was reported received,
  followed by what is left, is what was there, followed by what was reported sent, in this order; and where nothing
  was overwritten, every message came out or is still there, once.
\<close>

theorem messages_in_order:
  assumes "malloc_ok malloc" "program_ok ps obs" "reachable malloc ps obs s"
    and "sys_trace (length ps + 2) (length obs) (length ps) s es s'" "i < length obs" "\<not> is_mutex (queues s i)"
    and "as = map (operation (item_size (queues s i)) i) es"
  shows "fifo_run (capacity (queues s i)) as (queue_items (queues s i)) = Some (queue_items (queues s' i)) \<and>
    length (queue_items (queues s' i)) \<le> capacity (queues s i) \<and>
    ((\<forall>a \<in> set as. at_back a) \<longrightarrow> queue_items (queues s i) @ puts as = gets as @ queue_items (queues s' i)) \<and>
    ((\<forall>a \<in> set as. \<forall>x. a \<noteq> Put x OVERWRITE) \<longrightarrow>
       mset (queue_items (queues s i)) + mset (puts as) = mset (gets as) + mset (queue_items (queues s' i)))"
proof -
  note inv = reachable_inv [OF assms(3,1,2)]
  let ?n = "capacity (queues s i)" and ?z = "item_size (queues s i)"
  have run: "fifo_run ?n as (queue_items (queues s i)) = Some (queue_items (queues s' i))"
    using messages.run_operations [OF assms(4), of i ?n ?z] inv assms(5-7) by simp
  have "length (queue_items (queues s' i)) \<le> ?n" using messages.run_bound [OF assms(4), of i ?n ?z] inv assms(5,6) by simp
  then show ?thesis using run fifo_run_order [OF run] fifo_run_count [OF run] by simp
qed

text \<open>The task of the program puts a message on its queue.\<close>

lemma example_send:
  "\<exists>s s1 s2. reachable example_memory [3] example_objects s \<and> reachable example_memory [3] example_objects s1 \<and>
    sys_step 3 2 1 s s1 \<and> sys_step 3 2 1 s1 s2 \<and> runs 0 s1 \<and> \<not> is_mutex (queues s 0) \<and> queues s1 = queues s \<and>
    queue_items (queues s 0) = [] \<and> queue_items (queues s2 0) = [[42]] \<and>
    sys_trace 3 2 1 s [Task 0 (Send 0 [42] SEND_TO_BACK (Trying None 0)), Task 0 (Send 0 [42] SEND_TO_BACK (Returned (Some [])))] s2 \<and>
    calls s1 0 = Send 0 [42] SEND_TO_BACK (Trying None 0) \<and> calls s2 0 = Send 0 [42] SEND_TO_BACK (Returned (Some [])) \<and>
    uxLength (queues s 0) = 2 \<and> uxItemSize (queues s 0) = 1"
proof -
  obtain s where s: "reachable example_memory [3] example_objects s" "sys_inv 3 2 1 s" "runs 0 s" "calls s = (\<lambda>_. Application)"
    "\<not> is_mutex (queues s 0)" "uxLength (queues s 0) = 2" "uxItemSize (queues s 0) = 1" "queue_items (queues s 0) = []"
    using example_start by blast
  define s1 where "s1 = set_call 0 (Send 0 [42] SEND_TO_BACK (Trying None 0)) s"
  have ok: "send_ok [42] SEND_TO_BACK (queues s 0)" using s(7) by (simp add: send_ok_def)
  have ev1: "sys_event 3 2 1 s (Task 0 (Send 0 [42] SEND_TO_BACK (Trying None 0))) s1" unfolding s1_def
    by (rule call_send [OF s(3), of 0 2 "[42]" SEND_TO_BACK 0]) (simp_all add: s(4,5) ok may_send_def xQueueGenericSend_def)
  note st1 = sys_stepI [OF ev1]
  have i1: "sys_inv 3 2 1 s1" using sys_step_inv [OF st1 s(2)] .
  have r1: "runs 0 s1" "queues s1 = queues s" "calls s1 0 = Send 0 [42] SEND_TO_BACK (Trying None 0)"
    using s(3) by (simp_all add: s1_def runs_def)
  have "uxMessagesWaiting (queues s 0) < uxLength (queues s 0)"
    using arg_cong [OF s(8), of length] s(6) by (simp add: word_less_nat_alt)
  then obtain q k where q: "send_try [42] SEND_TO_BACK None 0 (queues s 0) (kern s1) = Some (Returned (Some []), q, k)"
    "queue_items q = [[42]]"
    using send_try_spec [OF sys_inv_simps(1) [OF i1] sys_inv_queue(3,2) s(5) ok, OF s(2) _ s(2), of None 0] s(7,8) by auto
  have "call_step (calls s1 0) (queues s1) (kern s1) = Some (Send 0 [42] SEND_TO_BACK (Returned (Some [])), (queues s)(0 := q), k)"
    using q(1) r1 by (simp add: send_step_def)
  from continue [OF r1(1) this, of 3 2 1] have ev2: "sys_event 3 2 1 s1 (Task 0 (Send 0 [42] SEND_TO_BACK (Returned (Some []))))
    (set_call 0 (Send 0 [42] SEND_TO_BACK (Returned (Some []))) (s1\<lparr>kern := k, queues := (queues s)(0 := q)\<rparr>))" .
  show ?thesis
    using reachable.stepped [OF s(1)] st1 sys_stepI [OF ev2] trace_two [of "sys_event 3 2 1", OF ev1 ev2] r1 s q(2)
    by (intro exI [of _ s] exI [of _ s1] exI) (auto simp: numeral_3_eq_3 numeral_2_eq_2)
qed

theorem messages_in_order_witness:
  "\<exists>s (s' :: system) es. reachable example_memory [3] [Queue 2 1, Mutex] s \<and> sys_trace 3 2 1 s es s' \<and>
    puts (map (operation 1 0) es) = [[42]] \<and> fifo_run 2 (map (operation 1 0) es) [] = Some [[42]] \<and> queue_items (queues s' 0) = [[42]]"
proof -
  obtain s s2 es where s: "reachable example_memory [3] example_objects s" "sys_trace 3 2 1 s es s2"
    "es = [Task 0 (Send 0 [42] SEND_TO_BACK (Trying None 0)), Task 0 (Send 0 [42] SEND_TO_BACK (Returned (Some [])))]"
    "\<not> is_mutex (queues s 0)" "queue_items (queues s 0) = []" "queue_items (queues s2 0) = [[42]]" "uxLength (queues s 0) = 2"
    "uxItemSize (queues s 0) = 1"
    using example_send by blast
  have tr: "sys_trace (length [3::nat] + 2) (length example_objects) (length [3::nat]) s es s2"
    using s(2) by (simp add: numeral_3_eq_3 numeral_2_eq_2)
  have "fifo_run 2 (map (operation 1 0) es) [] = Some [[42]]"
    using messages_in_order [OF example_ok(1,3) s(1) tr _ s(4) refl] s(5-8) by simp
  moreover have "puts (map (operation 1 0) es) = [[42]]" by (simp add: s(3))
  ultimately show ?thesis using s(1,2,6) by blast
qed



section \<open>Scheduling\<close>

text \<open>The task of the program waits for five ticks.\<close>

lemma example_delay:
  "\<exists>s k. reachable example_memory [3] example_objects s \<and> runs 0 s \<and> calls s = (\<lambda>_. Application) \<and>
    uxSchedulerSuspended (kern s) = 0 \<and> uxPendedTicks (kern s) = 0 \<and> vTaskDelay 5 (kern s) = Some k \<and>
    reachable example_memory [3] example_objects (set_kern k s) \<and> pendsv k \<and> uxSchedulerSuspended k = 0 \<and>
    delayed_until 3 k 0 (now (kern s) + 5) \<and> counters k = counters (kern s)"
proof -
  obtain s where s: "reachable example_memory [3] example_objects s" "sys_inv 3 2 1 s" "runs 0 s" "calls s = (\<lambda>_. Application)"
    "uxSchedulerSuspended (kern s) = 0" "uxPendedTicks (kern s) = 0"
    using example_start by blast
  note a = application_ready [OF s(2,3)]
  have cur: "0 < (3::nat)" "pxCurrentTCB (kern s) = Some 0" "is_ready (kern s) 0" using a s(4) by simp_all
  obtain k where k: "vTaskDelay 5 (kern s) = Some k" "pendsv k" "delayed_one 3 (kern s) 0 k"
    "delayed_until 3 k 0 (now (kern s) + 5)" "counters k = counters (kern s)"
    using vTaskDelay_spec [OF sys_inv_simps(1) [OF s(2)] s(5) cur, of 5] s(6) by auto
  have "sys_step 3 2 1 s (set_kern k s)" by (rule sys_stepI, rule delay [OF s(3)]) (use k(1) s(4) in simp_all)
  then have "reachable example_memory [3] example_objects (set_kern k s)"
    using reachable.stepped [OF s(1)] by (simp add: numeral_3_eq_3 numeral_2_eq_2)
  then show ?thesis using s k by (intro exI [of _ s] exI [of _ k]) (simp add: delayed_one_def)
qed

text \<open>
  C7. When the switch of tasks is due and the scheduler is not suspended, it returns, and the task that runs next is ready and none of the
  ready tasks has a higher priority; no task stops being ready or becomes it.
\<close>

theorem switch_runs_highest_priority:
  assumes "malloc_ok malloc" "program_ok ps obs" "reachable malloc ps obs s" "uxSchedulerSuspended (kern s) = 0"
  shows "\<exists>k t. xPortPendSVHandler (kern s) = Some k \<and> \<not> pendsv k \<and> pxCurrentTCB k = Some t \<and> is_ready k t \<and> t < length ps + 2 \<and>
    (\<forall>u < length ps + 2. is_ready k u \<longrightarrow> priority_of k u \<le> priority_of k t) \<and>
    (\<forall>u. is_ready k u = is_ready (kern s) u)"
proof -
  note inv = reachable_inv [OF assms(3,1,2)]
  let ?k = "(kern s)\<lparr>pendsv := False\<rparr>"
  have i: "kernel_inv (length ps + 2) (event_lists (length obs)) ?k" using sys_inv_simps(1) [OF inv] by simp
  have r: "is_ready ?k u = is_ready (kern s) u" for u by simp
  have u: "length ps < length ps + 2" "is_ready ?k (length ps)" using sys_inv_simps(4) [OF inv] by simp_all
  obtain t h where sw: "vTaskSwitchContext ?k = Some (?k\<lparr>xYieldPending := False, heap := h, pxCurrentTCB := Some t\<rparr>)"
    "items h = items (heap ?k)" "t < length ps + 2" "is_ready ?k t"
    "\<forall>v < length ps + 2. is_ready ?k v \<longrightarrow> priority_of ?k v \<le> priority_of ?k t"
    using switch_spec [OF i _ u] assms(4) by auto
  have r': "is_ready (?k\<lparr>xYieldPending := False, heap := h, pxCurrentTCB := Some t\<rparr>) v = is_ready (kern s) v" for v
    using sw(2) by (simp add: item_container_def)
  show ?thesis using sw r' by (simp add: xPortPendSVHandler_def)
qed

theorem switch_runs_highest_priority_witness:
  "\<exists>s k t. reachable example_memory [3] [Queue 2 1, Mutex] s \<and> pendsv (kern s) \<and> \<not> is_ready (kern s) 0 \<and>
    xPortPendSVHandler (kern s) = Some k \<and> pxCurrentTCB k = Some t \<and> t \<noteq> 0 \<and> is_ready k t"
proof -
  obtain s k where s: "reachable example_memory [3] example_objects (set_kern k s)" "pendsv k" "uxSchedulerSuspended k = 0"
    "delayed_until 3 k 0 (now (kern s) + 5)"
    using example_delay by blast
  have "kernel_core 3 (event_lists 2) {} k"
    using reachable_inv [OF s(1) example_ok(1,3)] by (simp add: sys_inv_def kernel_inv_def numeral_3_eq_3 numeral_2_eq_2)
  then have "priority_of k 0 < 10" by (rule priority_less) simp
  then have n: "\<not> is_ready k 0" using s(4) by (auto simp: delayed_until_def)
  obtain k' t where k': "xPortPendSVHandler k = Some k'" "pxCurrentTCB k' = Some t" "is_ready k' t" "is_ready k' t = is_ready k t"
    using switch_runs_highest_priority [OF example_ok(1,3) s(1)] s(3) by auto
  have "t \<noteq> 0" using n k'(3,4) by (cases "t = 0") simp_all
  then show ?thesis using s(1,2) n k'(1-3) by (intro exI [of _ "set_kern k s"] exI [of _ k'] exI [of _ t]) simp
qed

text \<open>
  C8. How long a delay lasts. A task of any reachable state that delays itself for some ticks gives way, and then, whatever the other tasks
  call, whatever interrupts come and however long the scheduler is suspended in between, as long as nobody suspends the
  task: it is not ready and does not run before as many tick interrupts have come; and when as many have come and the scheduler is
  not suspended, the task has become ready, at the last of these ticks or when the scheduler was resumed after it. The value of
  the tick count does not matter, nor where it overflows.
\<close>

theorem delay_lasts_its_ticks:
  assumes "malloc_ok malloc" "program_ok ps obs" "reachable malloc ps obs s"
    and "runs t s" "calls s t = Application" "uxSchedulerSuspended (kern s) = 0" "t \<noteq> length ps" "ticks \<noteq> 0"
  shows "\<exists>k. vTaskDelay ticks (kern s) = Some k \<and> pendsv k \<and>
    (\<forall>es s'. sys_trace (length ps + 2) (length obs) (length ps) (set_kern k s) es s' \<longrightarrow> Suspends t \<notin> set es \<longrightarrow>
       (ticks_of es < unat ticks \<longrightarrow> \<not> is_ready (kern s') t \<and> \<not> runs t s') \<and>
       (ticks_of es = unat ticks \<longrightarrow> uxSchedulerSuspended (kern s') = 0 \<longrightarrow>
          (\<exists>es1 es2 s1. es = es1 @ es2 \<and> sys_trace (length ps + 2) (length obs) (length ps) (set_kern k s) es1 s1 \<and>
             sys_trace (length ps + 2) (length obs) (length ps) s1 es2 s' \<and> ticks_of es1 = unat ticks \<and> is_ready (kern s1) t)))"
proof -
  let ?T = "length ps + 2" and ?N = "length obs" and ?i = "length ps"
  note inv = reachable_inv [OF assms(3,1,2)] and nb = reachable_backlog [OF assms(3,1,2)]
  note a = application_ready [OF inv assms(4,5)]
  have p: "uxPendedTicks (kern s) = 0" using nb assms(6) by (simp add: no_backlog_def)
  obtain k where k: "vTaskDelay ticks (kern s) = Some k" "pendsv k" "asleep ?T k t (now (kern s) + ticks)"
    "counters k = counters (kern s)" "uxPendedTicks k = 0" "delayed_one ?T (kern s) t k"
    using vTaskDelay_spec [OF sys_inv_simps(1) [OF inv] assms(6) a assms(8)] p by (auto simp: asleep_def delayed_one_def)
  let ?s = "set_kern k s" and ?v = "now (kern s) + ticks"
  have ev: "sys_event ?T ?N ?i s Kernel_call ?s" by (rule delay [OF assms(4,5) _ k(1)]) (use assms(7) in simp)
  have i1: "sys_inv ?T ?N ?i ?s" using sys_event_inv [OF ev inv] .
  have n1: "no_backlog (kern ?s)" and c1: "calls ?s t = Application" and a1: "asleep ?T (kern ?s) t ?v" and p1: "uxPendedTicks (kern ?s) = 0"
    and d: "?v - now (kern ?s) = ticks"
    using k(3-5) assms(5) by (simp_all add: no_backlog_def)
  have "(ticks_of es < unat ticks \<longrightarrow> \<not> is_ready (kern s') t \<and> \<not> runs t s') \<and>
       (ticks_of es = unat ticks \<longrightarrow> uxSchedulerSuspended (kern s') = 0 \<longrightarrow>
          (\<exists>es1 es2 s1. es = es1 @ es2 \<and> sys_trace ?T ?N ?i ?s es1 s1 \<and> sys_trace ?T ?N ?i s1 es2 s' \<and>
             ticks_of es1 = unat ticks \<and> is_ready (kern s1) t))"
    if tr: "sys_trace ?T ?N ?i ?s es s'" "Suspends t \<notin> set es" for es s'
  proof (cases "ticks_of es \<le> unat ticks")
    case True
    have i2: "sys_inv ?T ?N ?i s'" using sys_steps_inv [OF sys_trace_steps [OF tr(1)] i1] .
    have nb2: "no_backlog (kern s')" using trace_backlog [OF tr(1) i1 n1] .
    note ts = trace_sleeps [OF tr(1) i1 n1 a1 c1 p1 tr(2), unfolded d, OF True]
    have core: "kernel_core ?T (event_lists ?N) {} (kern s')" using sys_inv_simps(1) [OF i2] by (simp add: kernel_inv_def)
    have early: "\<not> is_ready (kern s') t \<and> \<not> runs t s'" if "ticks_of es < unat ticks"
      using ts that asleep_not_ready(1) [OF core] application_ready(3) [OF i2] by fastforce
    have late: "\<not> asleep ?T (kern s') t ?v"
      if "unat (?v - now (kern s')) + unat ticks = unat ticks + unat (uxPendedTicks (kern s'))" "uxSchedulerSuspended (kern s') = 0"
      using that nb2 asleep_late(1) [OF sys_inv_simps(1) [OF i2]] by (auto simp: no_backlog_def unat_eq_zero)
    show ?thesis using ts early late by auto
  qed simp
  then show ?thesis using k(1,2) by blast
qed

theorem delay_lasts_its_ticks_witness:
  "\<exists>s k s4 s5. runs 0 s \<and> vTaskDelay 5 (kern s) = Some k \<and> sys_trace 3 2 1 (set_kern k s) (replicate 4 Tick) s4 \<and>
    \<not> is_ready (kern s4) 0 \<and> sys_trace 3 2 1 (set_kern k s) (replicate 5 Tick) s5 \<and> is_ready (kern s5) 0"
proof -
  obtain s where s: "reachable example_memory [3] example_objects s" "runs 0 s" "calls s = (\<lambda>_. Application)"
    "uxSchedulerSuspended (kern s) = 0" "sys_inv 3 2 1 s"
    using example_start by blast
  have e: "length example_objects = 2" "length [3::nat] = 1" "(1 :: nat) + 2 = 3" by simp_all
  have c: "calls s 0 = Application" "(0 :: nat) \<noteq> length [3::nat]" "(5 :: tick) \<noteq> 0" using s(3) by simp_all
  note d = delay_lasts_its_ticks [OF example_ok(1,3) s(1,2) c(1) s(4) c(2,3), unfolded e]
  obtain k where k: "vTaskDelay 5 (kern s) = Some k"
    and run: "\<And>es s'. sys_trace 3 2 1 (set_kern k s) es s' \<Longrightarrow> Suspends 0 \<notin> set es \<Longrightarrow>
       (ticks_of es < unat (5 :: tick) \<longrightarrow> \<not> is_ready (kern s') 0 \<and> \<not> runs 0 s') \<and>
       (ticks_of es = unat (5 :: tick) \<longrightarrow> uxSchedulerSuspended (kern s') = 0 \<longrightarrow>
          (\<exists>es1 es2 s1. es = es1 @ es2 \<and> sys_trace 3 2 1 (set_kern k s) es1 s1 \<and>
             sys_trace 3 2 1 s1 es2 s' \<and> ticks_of es1 = unat (5 :: tick) \<and> is_ready (kern s1) 0))"
    using d by blast
  have "sys_event 3 2 1 s Kernel_call (set_kern k s)" by (rule delay [OF s(2) c(1) _ k]) simp
  then have i: "sys_inv 3 2 1 (set_kern k s)" using sys_event_inv s(5) by blast
  have z: "uxSchedulerSuspended k = 0"
    using vTaskDelay_spec [OF sys_inv_simps(1) [OF s(5)] s(4) application_ready [OF s(5,2) c(1)] c(3)] k by (auto simp: delayed_one_def)
  obtain s4 where s4: "sys_trace 3 2 1 (set_kern k s) (replicate 4 Tick) s4" using ticks_trace [OF i] by blast
  obtain s5 where s5: "sys_trace 3 2 1 (set_kern k s) (replicate 5 Tick) s5" "uxSchedulerSuspended (kern s5) = 0"
    using ticks_trace [OF i, of 5] z by auto
  have u: "unat (5 :: tick) = 5" "ticks_of (replicate n Tick) = n" for n by (simp, induction n) simp_all
  have n: "\<not> is_ready (kern s4) 0" using run [OF s4] by (simp add: u)
  obtain es1 es2 s1 where x: "replicate 5 Tick = es1 @ es2" "sys_trace 3 2 1 (set_kern k s) es1 s1" "ticks_of es1 = 5" "is_ready (kern s1) 0"
    using run [OF s5(1)] s5(2) by (auto simp: u)
  have "length es1 + length es2 = 5" using arg_cong [OF x(1), of length] by simp
  moreover have "5 \<le> length es1" using count_le_length [of es1 Tick] x(3) by simp
  ultimately have "length es2 = 0" by linarith
  then have "es1 = replicate 5 Tick" using x(1) by simp
  then show ?thesis using s(2) k s4 n x(2,4) by blast
qed

text \<open>
  C9. The tick interrupt counts the tick, makes ready the delayed tasks whose time has come and no other task, and asks for a switch when
  one of them has at least the priority of the running task.
\<close>

theorem tick_wakes_due_tasks:
  assumes "malloc_ok malloc" "program_ok ps obs" "reachable malloc ps obs s" "uxSchedulerSuspended (kern s) = 0"
  shows "\<exists>k. xPortSysTickHandler (kern s) = Some k \<and> now k = now (kern s) + 1 \<and>
    (\<forall>t < length ps + 2. is_ready k t \<longleftrightarrow> is_ready (kern s) t \<or>
       item_container (kern s) (generic t) = Some (next_delayed (kern s)) \<and> item_value (kern s) (generic t) \<le> now k) \<and>
    (\<forall>t < length ps + 2. is_ready k t \<and> \<not> is_ready (kern s) t \<longrightarrow>
       priority_of k (the (pxCurrentTCB k)) \<le> priority_of k t \<longrightarrow> pendsv k)"
proof -
  let ?T = "length ps + 2" and ?k = "kern s"
  note inv = reachable_inv [OF assms(3,1,2)]
  obtain sw k where k: "xTaskIncrementTick ?k = Some (sw, k)" "ticked ?T ?k k"
    "\<forall>t cur. due ?T (next_delayed ?k) (now ?k + 1) ?k t \<longrightarrow> pxCurrentTCB ?k = Some cur \<longrightarrow> priority_of ?k cur \<le> priority_of ?k t \<longrightarrow> sw"
    using tick_spec [OF sys_inv_simps(1) [OF inv] assms(4)] by blast
  have n: "now k = now ?k + 1" using k(2) by (simp add: ticked_def)
  have r: "is_ready k t \<longleftrightarrow> is_ready ?k t \<or> due ?T (next_delayed ?k) (now ?k + 1) ?k t" for t
    using k(2) by (auto simp: ticked_def)
  obtain cur where cur: "pxCurrentTCB ?k = Some cur" using sys_inv_current [OF inv] by blast
  have c: "pxCurrentTCB k = Some cur" "tcb k = tcb ?k" using k(2) cur by (simp_all add: ticked_def)
  let ?r = "if sw then portYIELD k else k"
  have "now ?r = now k" "pxCurrentTCB ?r = pxCurrentTCB k" "tcb ?r = tcb k" "item_container ?r = item_container k" "sw \<Longrightarrow> pendsv ?r"
    by (simp_all add: portYIELD_def)
  then show ?thesis
    using k(1,3) n r c cur by (intro exI [of _ ?r]) (auto simp: xPortSysTickHandler_def due_def)
qed

theorem tick_wakes_due_tasks_witness:
  "\<exists>s k. reachable example_memory [3] [Queue 2 1, Mutex] s \<and> xPortSysTickHandler (kern s) = Some k \<and> now k = now (kern s) + 1"
proof -
  obtain s where s: "reachable example_memory [3] example_objects s" "uxSchedulerSuspended (kern s) = 0"
    using example_start by blast
  then show ?thesis using tick_wakes_due_tasks [OF example_ok(1,3) s] by auto
qed

section \<open>Waiting and waking\<close>

text \<open>
  C10. Priority inheritance. A task that goes to wait for a mutex raises the holder to its own priority, if that is higher;
  a ready holder stays ready, at the new priority, and the waiting task is on the list of the mutex and not ready.
\<close>

theorem waiting_raises_holder:
  assumes "kernel_inv T Q k" "queue_lists Q q" "t < T" "pxCurrentTCB k = Some t" "is_ready k t" "ticks \<noteq> 0"
    and "is_mutex q" "pxMutexHolder q = Some h" "h < T"
  shows "\<exists>k'. wait_to_receive ticks q k = Some k' \<and> kernel_inv T Q k' \<and>
    tcb k' = (tcb k)(h := (tcb k h)\<lparr>uxPriority := max (priority_of k h) (priority_of k t)\<rparr>) \<and>
    (h \<noteq> t \<longrightarrow> is_ready k h \<longrightarrow> is_ready k' h) \<and> item_container k' (event t) = Some (xTasksWaitingToReceive q) \<and> \<not> is_ready k' t"
proof -
  have h: "x < T" if "pxMutexHolder q = Some x" for x using that assms(8,9) by simp
  obtain k' where k': "wait_to_receive ticks q k = Some k'" "parked T Q t (xTasksWaitingToReceive q) k k'"
    "tcb k' = (tcb k)(h := (tcb k h)\<lparr>uxPriority := max (priority_of k h) (priority_of k t)\<rparr>)"
    using wait_to_receive_spec [OF assms(1-6) h] assms(7,8) by auto
  have c: "kernel_core T Q {} k'" "item_container k' (event t) = Some (xTasksWaitingToReceive q)"
    using k'(2) by (simp_all add: parked_def kernel_inv_def)
  then have "\<not> is_ready k' t" using assms(3) priority_less [OF c(1) assms(3)] by (auto simp: kernel_core_def tasks_ok_def)
  then show ?thesis using k' c(2) assms(9) by (auto simp: parked_def)
qed

text \<open>The task of the timers, of priority 2, holds the mutex that the task of the program, of priority 3, waits for.\<close>

theorem waiting_raises_holder_witness:
  "\<exists>k q k'. wait_to_receive 10 q k = Some k' \<and> uxPriority (tcb k 2) = 2 \<and> uxPriority (tcb k' 2) = 3 \<and> is_ready k' 2 \<and> \<not> is_ready k' 0"
proof -
  obtain s where s: "sys_inv 3 2 1 s" "runs 0 s" "calls s = (\<lambda>_. Application)" "is_mutex (queues s 1)"
    "\<forall>t < 3. is_ready (kern s) t" "priority_of (kern s) 0 = 3" "priority_of (kern s) 2 = 2"
    using example_start by blast
  let ?q = "(queues s 1)\<lparr>uxMessagesWaiting := 0, pxMutexHolder := Some 2\<rparr>"
  have q: "queue_lists (event_lists 2) ?q" "is_mutex ?q" "pxMutexHolder ?q = Some 2"
    using sys_inv_queue(3) [OF s(1), of 1] s(4) by (simp_all add: queue_lists_def)
  note a = application_ready [OF s(1,2)]
  have cur: "0 < (3::nat)" "pxCurrentTCB (kern s) = Some 0" "is_ready (kern s) 0" using a s(3) by simp_all
  obtain k' where "wait_to_receive 10 ?q (kern s) = Some k'" "priority_of k' 2 = 3" "is_ready k' 2" "\<not> is_ready k' 0"
    using waiting_raises_holder [OF sys_inv_simps(1) [OF s(1)] q(1) cur _ q(2,3), of 10] s(5-7) by auto
  then show ?thesis using s(7) by blast
qed

text \<open>
  C11. Taking a mutex counts it for its new holder and changes nothing else of the task. Giving it back frees it and takes it off the count, and
  the task, which may have inherited any priority by then, gets its own priority back if this was the last mutex it held, and
  keeps the inherited one while it holds others. It stays ready, and the mutex that was taken is as it was.
\<close>

theorem mutex_take_give:
  assumes "kernel_inv T Q k" "queue_lists Q q" "is_mutex q" "uxItemSize q = 0" "uxLength q = 1" "uxMessagesWaiting q = 1"
    and "pxCurrentTCB k = Some t" "t < T" "uxMutexesHeld (tcb k t) + 1 \<noteq> 0"
    and "receive_try False e n q k = Some (c, q1, k1)"
    and "kernel_inv T Q k2" "pxCurrentTCB k2 = Some t" "is_ready k2 t" "tcb k2 t = (tcb k1 t)\<lparr>uxPriority := r\<rparr>"
    and "send_try item SEND_TO_BACK e' n' q1 k2 = Some (c', q2, k3)"
  shows "pxMutexHolder q1 = Some t \<and> tcb k1 t = (tcb k t)\<lparr>uxMutexesHeld := uxMutexesHeld (tcb k t) + 1\<rparr> \<and>
    q2 = q\<lparr>pxMutexHolder := None\<rparr> \<and> is_ready k3 t \<and>
    tcb k3 t = (tcb k t)\<lparr>uxPriority := if uxMutexesHeld (tcb k t) = 0 then uxBasePriority (tcb k t) else r\<rparr> \<and>
    c = Returned (Some []) \<and> c' = Returned (Some [])"
proof -
  have t: "c = Returned (Some [])" "q1 = q\<lparr>uxMessagesWaiting := 0, pxMutexHolder := Some t\<rparr>"
    "tcb k1 t = (tcb k t)\<lparr>uxMutexesHeld := uxMutexesHeld (tcb k t) + 1\<rparr>"
    using take_mutex_spec [OF assms(1-4,6,7), of e n] assms(10) by auto
  have q1: "queue_lists Q q1" "is_mutex q1" "uxItemSize q1 = 0" "uxLength q1 = 1" "uxMessagesWaiting q1 = 0" "pxMutexHolder q1 = Some t"
    using t(2) assms(2-5) by (simp_all add: queue_lists_def)
  have "uxMutexesHeld (tcb k2 t) \<noteq> 0" using assms(9,14) t(3) by simp
  from give_mutex_spec [OF assms(11) q1 assms(8,12,13) this, of item SEND_TO_BACK e' n'] assms(15)
  have g: "c' = Returned (Some [])" "q2 = q1\<lparr>pxMutexHolder := None, uxMessagesWaiting := 1\<rparr>" "serves T Q k2 k3"
    "tcb k3 t = (tcb k2 t)\<lparr>uxMutexesHeld := uxMutexesHeld (tcb k2 t) - 1,
      uxPriority := if uxMutexesHeld (tcb k2 t) = 1 then uxBasePriority (tcb k2 t) else priority_of k2 t\<rparr>" by auto
  have "q2 = q\<lparr>pxMutexHolder := None\<rparr>" using g(2) t(2) assms(6) by simp
  moreover have "is_ready k3 t" using g(3) assms(8,13) by (simp add: serves_def)
  moreover have "tcb k3 t = (tcb k t)\<lparr>uxPriority := if uxMutexesHeld (tcb k t) = 0 then uxBasePriority (tcb k t) else r\<rparr>"
    using g(4) t(3) assms(14) by simp
  ultimately show ?thesis using t g(1) by simp
qed

text \<open>The task of the program takes and gives its mutex while it holds another one.\<close>

theorem mutex_take_give_witness:
  "\<exists>k q q1 k1 k3. receive_try False None 0 q k = Some (Returned (Some []), q1, k1) \<and>
    send_try [] SEND_TO_BACK None 0 q1 k1 = Some (Returned (Some []), q\<lparr>pxMutexHolder := None\<rparr>, k3) \<and>
    pxMutexHolder q1 = Some 0 \<and> uxMutexesHeld (tcb k1 0) = 2 \<and> tcb k3 0 = tcb k 0"
proof -
  obtain s where s: "sys_inv 3 2 1 s" "runs 0 s" "calls s = (\<lambda>_. Application)" "is_mutex (queues s 1)"
    "uxMessagesWaiting (queues s 1) = 1"
    using example_start by blast
  let ?q = "queues s 1" and ?k = "set_tcb 0 (\<lambda>c. c\<lparr>uxMutexesHeld := 1\<rparr>) (kern s)" and ?Q = "event_lists 2"
  have q: "queue_lists ?Q ?q" "uxItemSize ?q = 0" "uxLength ?q = 1"
    using sys_inv_queue(3) [OF s(1), of 1] mutex_good [OF sys_inv_queue(1) [OF s(1)] s(4)] by simp_all
  note a = application_ready [OF s(1,2)]
  have inv: "kernel_inv 3 ?Q ?k" using inv_held [OF sys_inv_simps(1) [OF s(1)], of 0 "\<lambda>_. 1"] by simp
  have cur: "pxCurrentTCB ?k = Some 0" "0 < (3::nat)" "is_ready ?k 0" using a s(3) by simp_all
  have tc: "uxMutexesHeld (tcb ?k 0) + 1 \<noteq> 0" "uxMutexesHeld (tcb ?k 0) = 1" by simp_all
  obtain q1 k1 where t: "receive_try False None 0 ?q ?k = Some (Returned (Some []), q1, k1)"
    "q1 = ?q\<lparr>uxMessagesWaiting := 0, pxMutexHolder := Some 0\<rparr>" "serves 3 ?Q ?k k1"
    "tcb k1 0 = (tcb ?k 0)\<lparr>uxMutexesHeld := uxMutexesHeld (tcb ?k 0) + 1\<rparr>"
    using take_mutex_spec [OF inv q(1) s(4) q(2) s(5) cur(1), of None 0] by auto
  have r: "is_ready k1 0" using t(3) cur(2,3) unfolding serves_def by blast
  have k1: "kernel_inv 3 ?Q k1" "pxCurrentTCB k1 = Some 0" "tcb k1 0 = (tcb k1 0)\<lparr>uxPriority := priority_of ?k 0\<rparr>"
    using t(3,4) cur by (simp_all add: serves_def kept_def)
  have q1: "queue_lists ?Q q1" "is_mutex q1" "uxItemSize q1 = 0" "uxLength q1 = 1" "uxMessagesWaiting q1 = 0" "pxMutexHolder q1 = Some 0"
    using t(2) s(4) q by (simp_all add: queue_lists_def)
  have "uxMutexesHeld (tcb k1 0) \<noteq> 0" using t(4) by simp
  from give_mutex_spec [OF k1(1) q1 cur(2) k1(2) r this, of "[]" SEND_TO_BACK None 0]
  obtain q2 k3 where g: "send_try [] SEND_TO_BACK None 0 q1 k1 = Some (Returned (Some []), q2, k3)" by blast
  have m: "pxMutexHolder q1 = Some 0" "q2 = ?q\<lparr>pxMutexHolder := None\<rparr>"
    "tcb k3 0 = (tcb ?k 0)\<lparr>uxPriority := if uxMutexesHeld (tcb ?k 0) = 0 then uxBasePriority (tcb ?k 0) else priority_of ?k 0\<rparr>"
    using mutex_take_give [OF inv q(1) s(4) q(2,3) s(5) cur(1,2) tc(1) t(1) k1(1,2) r k1(3) g] by blast+
  have "tcb k3 0 = tcb ?k 0" using m(3) tc(2) by simp
  moreover have "uxMutexesHeld (tcb k1 0) = 2" using t(4) tc(2) by simp
  ultimately show ?thesis using t(1) g m(1,2) by blast
qed

text \<open>
  C15. A send wakes. When a task waits for a message of a queue that has room, a send makes one of the waiting tasks ready,
  and asks for a switch when that task has a higher priority than the running one.
\<close>

theorem send_wakes_waiter:
  assumes "kernel_inv T Q k" "queue_lists Q q" "queue_ok q" "\<not> is_mutex q" "send_ok item p q" "uxMessagesWaiting q < uxLength q"
    and "uxSchedulerSuspended k = 0" "pxCurrentTCB k = Some cur" "u < T" "item_container k (event u) = Some (xTasksWaitingToReceive q)"
  shows "\<exists>t q' k'. send_try item p entry ticks q k = Some (Returned (Some []), q', k') \<and> t < T \<and>
    item_container k (event t) = Some (xTasksWaitingToReceive q) \<and> \<not> is_ready k t \<and> is_ready k' t \<and>
    (priority_of k cur < priority_of k t \<longrightarrow> pendsv k') \<and> queue_items q' = put_at p (take (item_size q) item) (queue_items q)"
proof -
  let ?l = "xTasksWaitingToReceive q"
  have core: "kernel_core T Q {} k" using assms(1) by (simp add: kernel_inv_def)
  obtain q' where q': "prvCopyDataToQueue item p q k = Some (False, q', k)" "moves_items q q'"
    "queue_items q' = put_at p (take (item_size q) item) (queue_items q)"
    using copy_in [OF assms(3-5)] assms(6) by blast
  have l: "xTasksWaitingToReceive q' = ?l" "?l \<in> Q" using moves_items_simps [OF q'(2)] assms(2) by (simp_all add: queue_lists_def)
  have ne: "\<not> list_is_empty ?l k" using event_head [OF core, of ?l] l(2) assms(9,10) by blast
  obtain t k1 where k1: "xTaskRemoveFromEventList ?l k = Some (priority_of k cur < priority_of k t, k1)" "t < T"
    "item_container k (event t) = Some ?l"
    "lists_changed (k\<lparr>xYieldPending := xYieldPending k \<or> priority_of k cur < priority_of k t\<rparr>) k1"
    "item_container k1 = (if uxSchedulerSuspended k = 0 then (item_container k)(generic t := Some (priority_of k t), event t := None)
      else (item_container k)(event t := Some xPendingReadyList))"
    using xTaskRemoveFromEventList_spec [OF assms(1) l(2) ne assms(8)] by blast
  have r: "is_ready k1 t" using k1(4,5) assms(7) by (simp add: lists_changed_def)
  have "\<not> is_ready k t" using core k1(2,3) priority_less [OF core k1(2)] by (auto simp: kernel_core_def tasks_ok_def)
  moreover have "send_try item p entry ticks q k = Some (Returned (Some []), q', if priority_of k cur < priority_of k t then portYIELD k1 else k1)"
    using assms(6) q'(1) l(1) ne k1(1) by (simp add: send_try_def wake_and_yield_def queueYIELD_IF_USING_PREEMPTION_def)
  ultimately show ?thesis
    using k1(2,3) r q'(3)
    by (intro exI [of _ t] exI [of _ q'] exI [of _ "if priority_of k cur < priority_of k t then portYIELD k1 else k1"]) (auto simp: portYIELD_def)
qed

text \<open>The task of the program waits on its queue, and the task that runs then sends.\<close>

theorem send_wakes_waiter_witness:
  "\<exists>k k' q q'. \<not> is_ready k 0 \<and> send_try [42] SEND_TO_BACK None 0 q k = Some (Returned (Some []), q', k') \<and>
    is_ready k' 0 \<and> pendsv k' \<and> queue_items q' = [[42]]"
proof -
  obtain s where s: "sys_inv 3 2 1 s" "runs 0 s" "calls s = (\<lambda>_. Application)" "\<not> is_mutex (queues s 0)"
    "uxLength (queues s 0) = 2" "uxItemSize (queues s 0) = 1" "queue_items (queues s 0) = []" "uxSchedulerSuspended (kern s) = 0"
    "\<forall>t < 3. is_ready (kern s) t" "priority_of (kern s) 0 = 3" "priority_of (kern s) 1 = 0"
    "priority_of (kern s) 2 = 2"
    using example_start by blast
  let ?q = "queues s 0" and ?Q = "event_lists 2" and ?k = "kern s"
  note inv = sys_inv_simps [OF s(1)] and a = application_ready [OF s(1,2)]
  have q: "queue_lists ?Q ?q" "queue_ok ?q" "queue_good 3 0 ?q" using sys_inv_queue [OF s(1), of 0] by simp_all
  have ok: "send_ok [42] SEND_TO_BACK ?q" using s(6) by (simp add: send_ok_def)
  have room: "uxMessagesWaiting ?q < uxLength ?q" using arg_cong [OF s(7), of length] s(5) by (simp add: word_less_nat_alt)
  have cur: "0 < (3::nat)" "pxCurrentTCB ?k = Some 0" "is_ready ?k 0" using a s(3) by simp_all
  obtain k1 where k1: "wait_to_receive 10 ?q ?k = Some k1" "parked 3 ?Q 0 (xTasksWaitingToReceive ?q) ?k k1" "tcb k1 = tcb ?k"
    using wait_to_receive_spec [OF inv(1) q(1) cur, of 10] s(4) by auto
  have i1: "kernel_inv 3 ?Q k1" "uxSchedulerSuspended k1 = 0" "is_ready k1 2"
    "item_container k1 (event 0) = Some (xTasksWaitingToReceive ?q)"
    using k1(2) s(8,9) by (simp_all add: parked_def kept_def)
  have core: "kernel_core 3 ?Q {} k1" using i1(1) by (simp add: kernel_inv_def)
  have waiting: "\<not> is_ready k1 u" if "u < 3" "item_container k1 (event u) \<noteq> None" for u
    using core that priority_less [OF core that(1)] by (auto simp: kernel_core_def tasks_ok_def)
  have others: "is_ready k1 1" "is_ready k1 2" using k1(2) s(9) by (simp_all add: parked_def)
  have only: "u = 0" if u: "u < 3" "item_container k1 (event u) \<noteq> None" for u
  proof -
    have "u \<noteq> 1" "u \<noteq> 2" using waiting [OF u] others by (metis, metis)
    then show ?thesis using u(1) by simp
  qed
  obtain t h where sw: "kernel_inv 3 ?Q (k1\<lparr>xYieldPending := False, heap := h, pxCurrentTCB := Some t\<rparr>)" "items h = items (heap k1)"
    "t < 3" "is_ready k1 t"
    using switch_spec [OF i1(1,2) _ i1(3)] by auto
  define k2 where "k2 = k1\<lparr>xYieldPending := False, heap := h, pxCurrentTCB := Some t\<rparr>"
  have c2: "item_container k2 = item_container k1" "tcb k2 = tcb ?k" "pxCurrentTCB k2 = Some t" "uxSchedulerSuspended k2 = 0"
    using sw(2) k1(3) i1(2) by (simp_all add: k2_def item_container_def fun_eq_iff)
  have n0: "\<not> is_ready k2 0" using waiting [of 0] i1(4) c2(1,2) k1(3) by simp
  have e: "item_container k2 (event 0) = Some (xTasksWaitingToReceive ?q)" using i1(4) c2(1) by simp
  have "t \<noteq> 0" using waiting [of 0] i1(4) sw(4) by (metis option.distinct(1) zero_less_numeral)
  then have "t = 1 \<or> t = 2" using sw(3) by auto
  then have p: "priority_of k2 t < priority_of k2 0" using c2(2) s(10-12) by auto
  obtain u q' k' where u: "send_try [42] SEND_TO_BACK None 0 ?q k2 = Some (Returned (Some []), q', k')" "u < 3"
    "item_container k2 (event u) = Some (xTasksWaitingToReceive ?q)" "is_ready k' u" "priority_of k2 t < priority_of k2 u \<longrightarrow> pendsv k'"
    "queue_items q' = put_at SEND_TO_BACK (take (item_size ?q) [42]) (queue_items ?q)"
    using send_wakes_waiter [OF _ q(1,2) s(4) ok room c2(4,3) _ e, of 3 None 0] sw(1) by (auto simp: k2_def)
  have "u = 0" using only [OF u(2)] u(3) c2(1) by simp
  then show ?thesis using n0 u(1,4-6) p s(6,7) by auto
qed

section \<open>Errors\<close>

text \<open>
  C40. The size of a queue is computed with wrap-around. A queue whose length times item size, reduced modulo \<open>2 ^ 32\<close>, leaves less room
  than one item is created all the same, with that little storage, and the first send writes behind it although the queue is
  empty. That happens for every multiple of \<open>2 ^ 32\<close>.
\<close>

theorem queue_size_wraps:
  assumes "malloc (sizeof_Queue_t + (n * s + 1)) = Some b" "length b = 85 + unat (n * s)" "n \<noteq> 0" "unat (n * s) + 1 < unat s"
    and "unat s \<le> length item"
  shows "\<exists>q k'. xQueueGenericCreate malloc l m n s ty k = Some (q, k') \<and> uxMessagesWaiting q = 0 \<and> uxMessagesWaiting q < uxLength q \<and>
    length (storage q) = unat (n * s) + 1 \<and> send_try item SEND_TO_BACK None 0 q k' = None"
proof -
  have "s \<noteq> 0" using assms(4) by auto
  then show ?thesis
    using assms by (auto simp: xQueueGenericCreate_def xQueueGenericReset_def Let_def send_try_def prvCopyDataToQueue_def
        store_item_def word_gt_0)
qed

theorem queue_size_wraps_witness:
  "\<exists>k q k'. xQueueGenericCreate example_memory 15 16 0x80000000 2 0 k = Some (q, k') \<and> uxMessagesWaiting q < uxLength q \<and>
    length (storage q) = 1 \<and> send_try [1, 2] SEND_TO_BACK None 0 q k' = None"
  using queue_size_wraps [of example_memory "0x80000000" 2 "replicate 85 0" "[1, 2]" 15 16 0 "boot undefined"]
  by (auto simp: example_memory_def)

text \<open>
  Giving back with the recursive call a mutex that was taken with the plain one keeps it: the count wraps around below
  zero, the call reports success and the task is still the holder.
\<close>

theorem recursive_give_keeps_plain_mutex:
  assumes "is_mutex q" "uxItemSize q = 0" "uxMessagesWaiting q = 1" "pxMutexHolder q = None" "uxRecursiveCallCount q = 0"
    and "pxCurrentTCB k = Some t" "receive_try False None 0 q k = Some (c, q1, k1)" "pxCurrentTCB k1 = Some t"
  shows "xQueueGiveMutexRecursive q1 k1 = Some (True, q1\<lparr>uxRecursiveCallCount := - 1\<rparr>, k1) \<and> pxMutexHolder q1 = Some t"
proof -
  have "q1 = q\<lparr>uxMessagesWaiting := 0, pxMutexHolder := Some t\<rparr>"
    using assms by (auto simp: receive_try_def prvCopyDataFromQueue_def pvTaskIncrementMutexHeldCount_def Let_def
        split: if_splits bind_splits)
  then show ?thesis using assms(5,8) by (simp add: xQueueGiveMutexRecursive_def)
qed

theorem recursive_give_keeps_plain_mutex_witness:
  "\<exists>q k q1 k1. receive_try False None 0 q k = Some (Returned (Some []), q1, k1) \<and> pxMutexHolder q1 = Some 0 \<and>
    xQueueGiveMutexRecursive q1 k1 = Some (True, q1\<lparr>uxRecursiveCallCount := - 1\<rparr>, k1)"
proof -
  obtain s where s: "sys_inv 3 2 1 s" "runs 0 s" "is_mutex (queues s 1)" "uxMessagesWaiting (queues s 1) = 1"
    "pxMutexHolder (queues s 1) = None"
    using example_start by blast
  let ?q = "(queues s 1)\<lparr>uxRecursiveCallCount := 0\<rparr>" and ?k = "kern s"
  have q: "queue_lists (event_lists 2) ?q" "uxItemSize ?q = 0"
    using sys_inv_queue(3) [OF s(1), of 1] mutex_good [OF sys_inv_queue(1) [OF s(1)] s(3)] by (simp_all add: queue_lists_def)
  have cur: "pxCurrentTCB ?k = Some 0" using s(2) by (simp add: runs_def)
  have m: "is_mutex ?q" "uxMessagesWaiting ?q = 1" "pxMutexHolder ?q = None" "uxRecursiveCallCount ?q = 0" using s(3-5) by simp_all
  obtain q1 k1 where t: "receive_try False None 0 ?q ?k = Some (Returned (Some []), q1, k1)" "serves 3 (event_lists 2) ?k k1"
    using take_mutex_spec [OF sys_inv_simps(1) [OF s(1)] q(1) m(1) q(2) m(2) cur, of None 0] by blast
  have "pxCurrentTCB k1 = Some 0" using t(2) cur by (simp add: serves_def kept_def)
  from recursive_give_keeps_plain_mutex [OF m(1) q(2) m(2-4) cur t(1) this] t(1) show ?thesis by blast
qed

end
