(* ===== verification/Rtos_Events_Props.thy ===== *)
theory Rtos_Events_Props
  imports Rtos_Events Rtos_Props
begin

text \<open>
  The properties of event groups: setting bits wakes exactly the tasks whose condition is met, a task that waits gets the bits
  that woke it, and a rendezvous is complete for all tasks at once.
\<close>

section \<open>A group of a program\<close>

definition example_group :: event_group where
  "example_group = \<lparr>uxEventBits = 0, xTasksWaitingForBits = 100\<rparr>"

abbreviation example_lists :: "nat set" where "example_lists \<equiv> insert 100 (event_lists 2)"

text \<open>The task of the program has created a group; it is the running task, and of the highest priority.\<close>

definition with_group :: "kernel \<Rightarrow> bool" where
  "with_group k \<longleftrightarrow> kernel_inv 3 example_lists k \<and> pxCurrentTCB k = Some 0 \<and> (\<forall>t < 3. is_ready k t) \<and>
     priority_of k 0 = 3 \<and> priority_of k 1 = 0 \<and> priority_of k 2 = 2 \<and> uxSchedulerSuspended k = 0 \<and> uxPendedTicks k = 0"

lemma example_created:
  "\<exists>s k. reachable example_memory [3] example_objects s \<and>
    xEventGroupCreate example_memory 100 (kern s) = (Some example_group, k) \<and> with_group k"
proof -
  obtain s where s: "reachable example_memory [3] example_objects s" "sys_inv 3 2 1 s" "runs 0 s" "uxSchedulerSuspended (kern s) = 0"
    "uxPendedTicks (kern s) = 0" "\<forall>t < 3. is_ready (kern s) t"
    "priority_of (kern s) 0 = 3" "priority_of (kern s) 1 = 0" "priority_of (kern s) 2 = 2"
    using example_start by blast
  let ?k = "(kern s)\<lparr>heap := vListInitialise 100 (heap (kern s))\<rparr>"
  have "kernel_inv 3 (event_lists 2) (kern s)" using s(2) by (simp add: sys_inv_def)
  then have "kernel_inv 3 example_lists ?k" by (rule new_list_inv) (simp_all add: event_lists_def)
  moreover have "item_container ?k = item_container (kern s)"
    by (simp add: item_container_def fun_eq_iff vListInitialise_def Let_def store_simps)
  ultimately have "with_group ?k" using s by (simp add: with_group_def runs_def)
  moreover have "xEventGroupCreate example_memory 100 (kern s) = (Some example_group, ?k)"
    by (simp add: xEventGroupCreate_def example_memory_def example_group_def)
  ultimately show ?thesis using s(1) by blast
qed

text \<open>When it has blocked, another task is switched to.\<close>

lemma example_switch:
  assumes "kernel_inv 3 example_lists k" "uxSchedulerSuspended k = 0" "is_ready k 2" "item_container k (event 0) \<noteq> None"
    and "priority_of k 0 = 3" "priority_of k 1 = 0" "priority_of k 2 = 2"
  shows "\<exists>t k'. kernel_inv 3 example_lists k' \<and> pxCurrentTCB k' = Some t \<and> t < 3 \<and> t \<noteq> 0 \<and> is_ready k' t \<and>
    item_container k' = item_container k \<and> item_value k' = item_value k \<and> tcb k' = tcb k \<and> uxSchedulerSuspended k' = 0 \<and>
    uxPendedTicks k' = uxPendedTicks k \<and> priority_of k' t < priority_of k' 0"
proof -
  obtain t h where sw: "kernel_inv 3 example_lists (k\<lparr>xYieldPending := False, heap := h, pxCurrentTCB := Some t\<rparr>)"
    "items h = items (heap k)" "t < 3" "is_ready k t"
    using switch_spec [OF assms(1,2) _ assms(3)] by auto
  let ?k = "k\<lparr>xYieldPending := False, heap := h, pxCurrentTCB := Some t\<rparr>"
  have it: "item_container ?k = item_container k" "item_value ?k = item_value k"
    using sw(2) by (simp_all add: item_container_def item_value_def fun_eq_iff)
  have "kernel_core 3 example_lists {} k" using assms(1) by (simp add: kernel_inv_def)
  then have "t \<noteq> 0" using event_free [of 3 example_lists k t] sw(3,4) assms(4) by (cases "t = 0") auto
  then have "priority_of k t < priority_of k 0" using sw(3) assms(5-7) by (auto simp: numeral_3_eq_3 numeral_2_eq_2 less_Suc_eq)
  then show ?thesis using sw \<open>t \<noteq> 0\<close> assms(2) by (intro exI [of _ t] exI [of _ ?k]) (simp add: it)
qed

text \<open>A task waits in the group, and another one runs.\<close>

lemma example_waiting:
  assumes "legal w" "w \<noteq> 0"
  shows "\<exists>k t. kernel_inv 3 example_lists k \<and> pxCurrentTCB k = Some t \<and> uxSchedulerSuspended k = 0 \<and> uxPendedTicks k = 0 \<and>
    item_container k (event 0) = Some 100 \<and> item_value k (event 0) = wait_value w clear all \<and> priority_of k t < priority_of k 0"
proof -
  obtain k where k: "with_group k" using example_created by blast
  have g: "xTasksWaitingForBits example_group \<in> example_lists" "xTasksWaitingForBits example_group = 100"
    "\<not> prvTestWaitCondition (uxEventBits example_group) w all"
    using assms by (simp_all add: example_group_def prvTestWaitCondition_def)
  have a: "kernel_inv 3 example_lists k" "(0 :: nat) < 3" "pxCurrentTCB k = Some 0" "is_ready k 0" "uxSchedulerSuspended k = 0" "uxPendedTicks k = 0"
    using k by (simp_all add: with_group_def)
  obtain k1 where k1: "kernel_inv 3 example_lists k1" "uxSchedulerSuspended k1 = 0" "uxPendedTicks k1 = 0" "tcb k1 = tcb k"
    "item_container k1 (event 0) = Some 100" "item_value k1 (event 0) = wait_value w clear all" "is_ready k1 2"
    using wait_bits_blocks [OF a(1-4) g(1) assms g(3) _ a(5,6), of 50 clear] g(2) k by (auto simp: with_group_def)
  then show ?thesis
    using example_switch [OF k1(1,2,7)] k by (fastforce simp: with_group_def)
qed

text \<open>A task waits at the rendezvous of the bits 1 and 2, and another one runs.\<close>

lemma example_rendezvous:
  "\<exists>(g :: event_group) k t. kernel_inv 3 example_lists k \<and> pxCurrentTCB k = Some t \<and> uxSchedulerSuspended k = 0 \<and> uxPendedTicks k = 0 \<and>
    item_container k (event 0) = Some 100 \<and> item_value k (event 0) = wait_value 3 True True \<and> priority_of k t < priority_of k 0 \<and>
    (\<forall>u < 3. item_container k (event u) = Some 100 \<longrightarrow> u = 0) \<and> xTasksWaitingForBits g = 100 \<and> uxEventBits g = 1"
proof -
  obtain k where k: "with_group k" using example_created by blast
  have a: "kernel_inv 3 example_lists k" "(0 :: nat) < 3" "pxCurrentTCB k = Some 0" "is_ready k 0" "uxSchedulerSuspended k = 0" "uxPendedTicks k = 0"
    using k by (simp_all add: with_group_def)
  have g: "xTasksWaitingForBits example_group = 100" "(100 :: nat) \<in> example_lists" "legal 1" "legal 3" "(3 :: 32 word) \<noteq> 0" "(9 :: tick) \<noteq> 0"
    "(uxEventBits example_group OR 1) AND 3 \<noteq> 3"
    by (simp_all add: example_group_def legal_def)
  have free: "item_container k (event u) = None" if "u < 3" for u
    using event_free [of 3 example_lists k u] k that by (simp add: with_group_def kernel_inv_def)
  then have W: "woken_by 3 100 v k = []" for v by (simp add: woken_by_def waiters_def)
  then have c: "cleared_by 3 100 v k = 0" for v by (simp add: cleared_by_def)
  obtain k1 where k1: "xEventGroupSync 1 3 9 example_group k = Some (Blocked, example_group\<lparr>uxEventBits := 1\<rparr>, k1)"
    "kernel_inv 3 example_lists k1" "uxSchedulerSuspended k1 = 0" "uxPendedTicks k1 = 0" "tcb k1 = tcb k"
    "item_container k1 (event 0) = Some 100" "item_value k1 (event 0) = wait_value 3 True True"
    "\<forall>u. u \<noteq> 0 \<longrightarrow> item_container k1 (generic u) = item_container k (generic u) \<and> item_container k1 (event u) = item_container k (event u)"
    using sync_blocks [OF a(1-4) g(1-6) a(5,6) g(7)] W c by (auto simp: example_group_def)
  have "is_ready k1 2" using k1(5,8) k by (simp add: with_group_def)
  then obtain t k2 where k2: "kernel_inv 3 example_lists k2" "pxCurrentTCB k2 = Some t" "item_container k2 = item_container k1"
    "item_value k2 = item_value k1" "uxSchedulerSuspended k2 = 0" "uxPendedTicks k2 = 0" "priority_of k2 t < priority_of k2 0"
    using example_switch [OF k1(2,3)] k1(4-6) k by (auto simp: with_group_def)
  have "u = 0" if "u < 3" "item_container k2 (event u) = Some 100" for u
    using that free k1(8) unfolding k2(3) by (metis option.distinct(1))
  then show ?thesis
    using k2 k1(6,7) by (intro exI [of _ "example_group\<lparr>uxEventBits := 1\<rparr>"] exI [of _ k2] exI [of _ t]) (simp add: example_group_def)
qed

section \<open>Setting bits\<close>

text \<open>
  C18. Setting bits wakes exactly the waiting tasks whose condition the bits then meet: each of them is ready, finds the bits in its
  event item, and a switch is requested when one has a higher priority than the running task. The bits that they
  wanted cleared are cleared, the others stay, and every other task stays where it is.
\<close>

theorem set_bits_wakes:
  assumes "kernel_inv T Q k" "xTasksWaitingForBits g = l" "l \<in> Q" "legal b" "pxCurrentTCB k = Some cur"
    and "uxSchedulerSuspended k = 0" "uxPendedTicks k = 0"
  shows "\<exists>g' k'. xEventGroupSetBits b g k = Some (g', k') \<and> kernel_inv T Q k' \<and>
    (let v = uxEventBits g OR b; W = {t. t < T \<and> item_container k (event t) = Some l \<and> bits_met (item_value k (event t)) v}
     in (\<forall>i. bit (uxEventBits g') i \<longleftrightarrow> bit v i \<and> (\<forall>t \<in> W. \<not> bit (to_clear (item_value k (event t))) i)) \<and>
        (\<forall>t \<in> W. is_ready k' t \<and> item_container k' (event t) = None \<and>
           item_value k' (event t) = (v OR eventUNBLOCKED_DUE_TO_BIT_SET) OR taskEVENT_LIST_ITEM_VALUE_IN_USE) \<and>
        ((\<exists>t \<in> W. priority_of k cur < priority_of k t) \<longrightarrow> pendsv k') \<and>
        (\<forall>t. t \<notin> W \<longrightarrow> item_container k' (generic t) = item_container k (generic t) \<and>
           item_container k' (event t) = item_container k (event t) \<and> item_value k' (event t) = item_value k (event t)))"
proof -
  define v where "v = uxEventBits g OR b"
  have n: "uxSchedulerSuspended k + 1 \<noteq> 0" "uxSchedulerSuspended k = 0 \<Longrightarrow> uxPendedTicks k = 0" using assms(6,7) by simp_all
  obtain k' where k': "xEventGroupSetBits b g k = Some (g\<lparr>uxEventBits := v AND NOT (cleared_by T l v k)\<rparr>, k')" "kernel_inv T Q k'"
    "woken_with k (set (woken_by T l v k)) (v OR eventUNBLOCKED_DUE_TO_BIT_SET) k'"
    "(\<exists>t \<in> set (woken_by T l v k). priority_of k cur < priority_of k t) \<longrightarrow> pendsv k'"
    using set_bits_spec [OF assms(1) _ _ assms(5) n, of g b] assms(2-4,6) by (auto simp: legal_def v_def)
  have W: "set (woken_by T l v k) = {t. t < T \<and> item_container k (event t) = Some l \<and> bits_met (item_value k (event t)) v}"
    by (auto simp: woken_by_def waiters_def)
  have "bit (v AND NOT (cleared_by T l v k)) i \<longleftrightarrow>
      bit v i \<and> (\<forall>t \<in> set (woken_by T l v k). \<not> bit (to_clear (item_value k (event t))) i)" for i
    using bit_imp_le_length [of v i] by (auto simp: bit_and_iff bit_not_iff cleared_by_def bit_or_all)
  then show ?thesis
    using k' unfolding W v_def [symmetric] 
    by (intro exI [of _ "g\<lparr>uxEventBits := v AND NOT (cleared_by T l v k)\<rparr>"] exI [of _ k']) (simp add: Let_def woken_with_def)
qed

theorem set_bits_wakes_witness:
  "\<exists>g k g' k'. item_container k (event 0) = Some 100 \<and> xEventGroupSetBits 2 g k = Some (g', k') \<and> is_ready k' 0 \<and>
    item_container k' (event 0) = None \<and> pendsv k'"
proof -
  obtain k t where k: "kernel_inv 3 example_lists k" "pxCurrentTCB k = Some t" "uxSchedulerSuspended k = 0" "uxPendedTicks k = 0"
    "item_container k (event 0) = Some 100" "item_value k (event 0) = wait_value 3 False False" "priority_of k t < priority_of k 0"
    using example_waiting [of 3 False False] by (auto simp: legal_def)
  have l: "xTasksWaitingForBits example_group = 100" "(100 :: nat) \<in> example_lists" "legal 2"
    by (simp_all add: example_group_def legal_def)
  have "bits_met (item_value k (event 0)) (uxEventBits example_group OR 2)"
    unfolding k(6) by (subst wait_value_met) (simp_all add: legal_def prvTestWaitCondition_def example_group_def)
  then have W: "0 \<in> {t. t < 3 \<and> item_container k (event t) = Some 100 \<and> bits_met (item_value k (event t)) (uxEventBits example_group OR 2)}"
    using k(5) by simp
  show ?thesis
    using set_bits_wakes [OF k(1) l k(2-4)] W k(5,7) unfolding Let_def by blast
qed

section \<open>Waiting until bits are set\<close>

text \<open>
  C16. No wake-up is lost. A task that waits for bits that are not set blocks; when another task later sets bits that meet its
  condition while it still waits, it becomes ready, the bits are cleared if it asked for it, and when it runs again the call
  returns the bits as they were when they woke it.
\<close>

theorem wait_until_set:
  assumes "kernel_inv T Q k" "t < T" "pxCurrentTCB k = Some t" "is_ready k t" "xTasksWaitingForBits g = l" "l \<in> Q"
    and "legal w" "w \<noteq> 0" "\<not> prvTestWaitCondition (uxEventBits g) w all" "n \<noteq> 0" "uxSchedulerSuspended k = 0" "uxPendedTicks k = 0"
  shows "\<exists>k1. xEventGroupWaitBits w clear all n g k = Some (Blocked, g, k1) \<and> kernel_inv T Q k1 \<and> \<not> is_ready k1 t \<and> pendsv k1 \<and>
    item_container k1 (event t) = Some l \<and> (\<forall>b g2 k2 cur.
      kernel_inv T Q k2 \<longrightarrow> xTasksWaitingForBits g2 = l \<longrightarrow> pxCurrentTCB k2 = Some cur \<longrightarrow> legal b \<longrightarrow> legal (uxEventBits g2) \<longrightarrow>
      uxSchedulerSuspended k2 = 0 \<longrightarrow> uxPendedTicks k2 = 0 \<longrightarrow>
      item_container k2 (event t) = Some l \<longrightarrow> item_value k2 (event t) = item_value k1 (event t) \<longrightarrow>
      prvTestWaitCondition (uxEventBits g2 OR b) w all \<longrightarrow>
      (\<exists>g3 k3. xEventGroupSetBits b g2 k2 = Some (g3, k3) \<and> kernel_inv T Q k3 \<and> is_ready k3 t \<and>
         (clear \<longrightarrow> uxEventBits g3 AND w = 0) \<and> (priority_of k2 cur < priority_of k2 t \<longrightarrow> pendsv k3) \<and>
         (\<forall>g4 k4. pxCurrentTCB k4 = Some t \<longrightarrow> item_value k4 (event t) = item_value k3 (event t) \<longrightarrow>
            (\<exists>k5. wait_bits_step w clear all Blocked g4 k4 = Some (Returned_bits (uxEventBits g2 OR b), g4, k5) \<and>
               item_value k5 (event t) = priority_value (priority_of k4 t)))))"
proof -
  have "xTasksWaitingForBits g \<in> Q" using assms(5,6) by simp
  from wait_bits_blocks [OF assms(1-4) this assms(7-12), of clear]
  obtain k1 where k1: "xEventGroupWaitBits w clear all n g k = Some (Blocked, g, k1)" "kernel_inv T Q k1" "pendsv k1"
    "item_container k1 (event t) = Some l" "item_value k1 (event t) = wait_value w clear all" "\<not> is_ready k1 t"
    using assms(5) by auto
  have "\<exists>g3 k3. xEventGroupSetBits b g2 k2 = Some (g3, k3) \<and> kernel_inv T Q k3 \<and> is_ready k3 t \<and>
         (clear \<longrightarrow> uxEventBits g3 AND w = 0) \<and> (priority_of k2 cur < priority_of k2 t \<longrightarrow> pendsv k3) \<and>
         (\<forall>g4 k4. pxCurrentTCB k4 = Some t \<longrightarrow> item_value k4 (event t) = item_value k3 (event t) \<longrightarrow>
            (\<exists>k5. wait_bits_step w clear all Blocked g4 k4 = Some (Returned_bits (uxEventBits g2 OR b), g4, k5) \<and>
               item_value k5 (event t) = priority_value (priority_of k4 t)))"
    if a: "kernel_inv T Q k2" "xTasksWaitingForBits g2 = l" "pxCurrentTCB k2 = Some cur" "legal b" "legal (uxEventBits g2)"
      "uxSchedulerSuspended k2 = 0" "uxPendedTicks k2 = 0" "item_container k2 (event t) = Some l"
      "item_value k2 (event t) = item_value k1 (event t)" "prvTestWaitCondition (uxEventBits g2 OR b) w all" for b g2 k2 cur
  proof -
    let ?v = "uxEventBits g2 OR b"
    have n: "uxSchedulerSuspended k2 + 1 \<noteq> 0" "uxSchedulerSuspended k2 = 0 \<Longrightarrow> uxPendedTicks k2 = 0" using a(6,7) by simp_all
    obtain k3 where k3: "xEventGroupSetBits b g2 k2 = Some (g2\<lparr>uxEventBits := ?v AND NOT (cleared_by T l ?v k2)\<rparr>, k3)" "kernel_inv T Q k3"
      "woken_with k2 (set (woken_by T l ?v k2)) (?v OR eventUNBLOCKED_DUE_TO_BIT_SET) k3"
      "(\<exists>t \<in> set (woken_by T l ?v k2). priority_of k2 cur < priority_of k2 t) \<longrightarrow> pendsv k3"
      using set_bits_spec [OF a(1) _ _ a(3) n, of g2 b] a(2,4,6) assms(6) by (auto simp: legal_def)
    have val: "item_value k2 (event t) = wait_value w clear all" using a(9) k1(5) by simp
    have W: "t \<in> set (woken_by T l ?v k2)"
      using assms(2) a(8,10) val by (simp add: woken_by_def waiters_def assms(7))
    note wv = woken_value [OF legal_or [OF a(5,4)]]
    have "item_value k3 (event t) = (?v OR eventUNBLOCKED_DUE_TO_BIT_SET) OR taskEVENT_LIST_ITEM_VALUE_IN_USE" "is_ready k3 t"
      using k3(3) W by (simp_all add: woken_with_def)
    moreover have "clear \<longrightarrow> (?v AND NOT (cleared_by T l ?v k2)) AND w = 0"
      using cleared_by_and [OF W, of w] val assms(7) by simp
    ultimately show ?thesis
      using k3(1,2,4) W wv
      by (intro exI [of _ "g2\<lparr>uxEventBits := ?v AND NOT (cleared_by T l ?v k2)\<rparr>"] exI [of _ k3])
        (auto simp: uxTaskResetEventItemValue_def)
  qed
  then show ?thesis using k1 by blast
qed

theorem wait_until_set_witness:
  "\<exists>k k1 k2 g3 k3 k5. xEventGroupWaitBits 3 True True 50 example_group k = Some (Blocked, example_group, k1) \<and> \<not> is_ready k1 0 \<and>
    xEventGroupSetBits 7 example_group k2 = Some (g3, k3) \<and> uxEventBits g3 AND 3 = 0 \<and> is_ready k3 0 \<and> pendsv k3 \<and>
    wait_bits_step 3 True True Blocked g3 (k3\<lparr>pxCurrentTCB := Some 0\<rparr>) = Some (Returned_bits 7, g3, k5)"
proof -
  obtain k where k: "with_group k" using example_created by blast
  have g: "xTasksWaitingForBits example_group = 100" "(100 :: nat) \<in> example_lists" "legal 3" "legal 7" "legal (uxEventBits example_group)"
    "\<not> prvTestWaitCondition (uxEventBits example_group) 3 True" "prvTestWaitCondition (uxEventBits example_group OR 7) 3 True"
    "uxEventBits example_group OR 7 = 7"
    by (simp_all add: example_group_def legal_def prvTestWaitCondition_def)
  have a: "kernel_inv 3 example_lists k" "(0 :: nat) < 3" "pxCurrentTCB k = Some 0" "is_ready k 0" "uxSchedulerSuspended k = 0" "uxPendedTicks k = 0"
    using k by (simp_all add: with_group_def)
  have nz: "(3 :: 32 word) \<noteq> 0" "(50 :: tick) \<noteq> 0" by simp_all
  obtain k1 where k1: "xEventGroupWaitBits 3 True True 50 example_group k = Some (Blocked, example_group, k1)" "kernel_inv 3 example_lists k1"
    "\<not> is_ready k1 0" "item_container k1 (event 0) = Some 100" and set: "\<And>b g2 k2 cur.
      kernel_inv 3 example_lists k2 \<Longrightarrow> xTasksWaitingForBits g2 = 100 \<Longrightarrow> pxCurrentTCB k2 = Some cur \<Longrightarrow> legal b \<Longrightarrow> legal (uxEventBits g2) \<Longrightarrow>
      uxSchedulerSuspended k2 = 0 \<Longrightarrow> uxPendedTicks k2 = 0 \<Longrightarrow>
      item_container k2 (event 0) = Some 100 \<Longrightarrow> item_value k2 (event 0) = item_value k1 (event 0) \<Longrightarrow>
      prvTestWaitCondition (uxEventBits g2 OR b) 3 True \<Longrightarrow>
      (\<exists>g3 k3. xEventGroupSetBits b g2 k2 = Some (g3, k3) \<and> kernel_inv 3 example_lists k3 \<and> is_ready k3 0 \<and>
         (True \<longrightarrow> uxEventBits g3 AND 3 = 0) \<and> (priority_of k2 cur < priority_of k2 0 \<longrightarrow> pendsv k3) \<and>
         (\<forall>g4 k4. pxCurrentTCB k4 = Some 0 \<longrightarrow> item_value k4 (event 0) = item_value k3 (event 0) \<longrightarrow>
            (\<exists>k5. wait_bits_step 3 True True Blocked g4 k4 = Some (Returned_bits (uxEventBits g2 OR b), g4, k5) \<and>
               item_value k5 (event 0) = priority_value (priority_of k4 0))))"
    using wait_until_set [OF a(1-4) g(1-3) nz(1) g(6) nz(2) a(5,6), of True] by blast
  have v1: "item_value k1 (event 0) = wait_value 3 True True" "uxSchedulerSuspended k1 = 0" "uxPendedTicks k1 = 0" "tcb k1 = tcb k" "is_ready k1 2"
    using wait_bits_blocks [OF a(1-4) _ g(3) nz(1) g(6) nz(2) a(5,6), of True] g(1,2) k1(1) k by (auto simp: with_group_def)
  obtain t k2 where k2: "kernel_inv 3 example_lists k2" "pxCurrentTCB k2 = Some t" "item_container k2 = item_container k1"
    "item_value k2 = item_value k1" "uxSchedulerSuspended k2 = 0" "uxPendedTicks k2 = 0" "priority_of k2 t < priority_of k2 0"
    using example_switch [OF k1(2) v1(2,5)] k1(4) v1(3,4) k by (auto simp: with_group_def)
  obtain g3 k3 where k3: "xEventGroupSetBits 7 example_group k2 = Some (g3, k3)" "is_ready k3 0" "uxEventBits g3 AND 3 = 0" "pendsv k3"
    "\<forall>g4 k4. pxCurrentTCB k4 = Some 0 \<longrightarrow> item_value k4 (event 0) = item_value k3 (event 0) \<longrightarrow>
            (\<exists>k5. wait_bits_step 3 True True Blocked g4 k4 = Some (Returned_bits 7, g4, k5) \<and>
               item_value k5 (event 0) = priority_value (priority_of k4 0))"
    using set [OF k2(1) g(1) k2(2) g(4,5) k2(5,6) _ _ g(7), unfolded g(8) k2(3,4)] k2(7) k1(4) by blast
  have "item_value (k3\<lparr>pxCurrentTCB := Some 0\<rparr>) = item_value k3" "pxCurrentTCB (k3\<lparr>pxCurrentTCB := Some 0\<rparr>) = Some 0"
    by (simp_all add: item_value_def fun_eq_iff)
  then obtain k5 where "wait_bits_step 3 True True Blocked g3 (k3\<lparr>pxCurrentTCB := Some 0\<rparr>) = Some (Returned_bits 7, g3, k5)"
    using k3(5) by metis
  then show ?thesis using k1(1,3) k3(1-4) by blast
qed

section \<open>The rendezvous\<close>

text \<open>
  C17. A rendezvous is complete for all at once: when the last task arrives, its call returns at once with all the bits, every task that
  waits at the rendezvous becomes ready and, when it runs, returns the same bits, and the bits of the rendezvous are
  cleared for the next one.
\<close>

theorem rendezvous_completes:
  assumes "kernel_inv T Q k" "pxCurrentTCB k = Some t" "xTasksWaitingForBits g = l" "l \<in> Q"
    and "legal b" "legal w" "w \<noteq> 0" "legal (uxEventBits g)" "uxSchedulerSuspended k = 0" "uxPendedTicks k = 0"
    and "(uxEventBits g OR b) AND w = w"
    and "\<forall>u < T. item_container k (event u) = Some l \<longrightarrow> item_value k (event u) = wait_value w True True"
  shows "\<exists>g' k'. xEventGroupSync b w n g k = Some (Returned_bits (uxEventBits g OR b), g', k') \<and> kernel_inv T Q k' \<and>
    uxEventBits g' = (uxEventBits g OR b) AND NOT w \<and> uxSchedulerSuspended k' = 0 \<and>
    (\<forall>u < T. item_container k (event u) = Some l \<longrightarrow> is_ready k' u \<and> (priority_of k t < priority_of k u \<longrightarrow> pendsv k') \<and>
       (\<forall>g4 k4. pxCurrentTCB k4 = Some u \<longrightarrow> item_value k4 (event u) = item_value k' (event u) \<longrightarrow>
          (\<exists>k5. sync_step w Blocked g4 k4 = Some (Returned_bits (uxEventBits g OR b), g4, k5))))"
proof -
  define v where "v = uxEventBits g OR b"
  obtain k1 where k1: "xEventGroupSetBits b g (vTaskSuspendAll k) = Some (g\<lparr>uxEventBits := v AND NOT (cleared_by T l v k)\<rparr>, k1)"
    "kernel_inv T Q k1" "uxSchedulerSuspended k1 = 0 + 1" "uxPendedTicks k1 = 0" "tcb k1 = tcb k"
    "\<not> (\<exists>u. pending T k1 u)"
    "woken_with k (set (woken_by T l v k)) (v OR eventUNBLOCKED_DUE_TO_BIT_SET) (k1\<lparr>uxSchedulerSuspended := 0\<rparr>)"
    "xYieldPending k1 \<longleftrightarrow> xYieldPending k \<or> (\<exists>u \<in> set (woken_by T l v k). priority_of k t < priority_of k u)"
    using sync_set [OF assms(1-5,9,10)] unfolding v_def by auto
  have z: "(0 :: 32 word) + 1 \<noteq> 0" by simp
  obtain y k' where k': "xTaskResumeAll k1 = Some (y, k')" "kernel_inv T Q k'"
    "k' = k1\<lparr>uxSchedulerSuspended := 0, pendsv := pendsv k'\<rparr>" "y = xYieldPending k1" "pendsv k' = (pendsv k1 \<or> y)"
    using resume_after_bits [OF k1(2,3) z] k1(4,6) by blast
  have vw: "v AND w = w" using assms(11) by (simp add: v_def)
  have W: "set (woken_by T l v k) = {u. u < T \<and> item_container k (event u) = Some l}"
    using assms(6,12) vw by (auto simp: woken_by_def waiters_def prvTestWaitCondition_def)
  have sub: "bit w i" if "bit (cleared_by T l v k) i" for i
    using that W assms(6,12) by (fastforce simp: cleared_by_def bit_or_all)
  have c: "(v AND NOT (cleared_by T l v k)) AND NOT w = v AND NOT w"
    by (rule bit_eqI) (auto simp: bit_and_iff bit_not_iff dest: sub)
  have h: "item_container k' = item_container (k1\<lparr>uxSchedulerSuspended := 0\<rparr>)" "item_value k' = item_value (k1\<lparr>uxSchedulerSuspended := 0\<rparr>)"
    "tcb k' = tcb k1" "uxSchedulerSuspended k' = 0"
    by (subst k'(3), simp add: item_container_def item_value_def fun_eq_iff)+
  let ?g = "g\<lparr>uxEventBits := (v AND NOT (cleared_by T l v k)) AND NOT w\<rparr>"
  have "xTaskGetSchedulerState k \<noteq> taskSCHEDULER_SUSPENDED" using assms(9) by (simp add: xTaskGetSchedulerState_def)
  then have run: "xEventGroupSync b w n g k = Some (Returned_bits v, ?g, k')"
    using assms(5-7) vw k1(1) k'(1) by (simp add: xEventGroupSync_def legal_def Let_def block_or_return_def flip: v_def)
  note wv = woken_value [OF legal_or [OF assms(8,5)], folded v_def]
  have "is_ready k' u \<and> (priority_of k t < priority_of k u \<longrightarrow> pendsv k') \<and>
       (\<forall>g4 k4. pxCurrentTCB k4 = Some u \<longrightarrow> item_value k4 (event u) = item_value k' (event u) \<longrightarrow>
          (\<exists>k5. sync_step w Blocked g4 k4 = Some (Returned_bits v, g4, k5)))"
    if "u < T" "item_container k (event u) = Some l" for u
  proof -
    have u: "u \<in> set (woken_by T l v k)" using that W by simp
    have "is_ready k' u" "item_value k' (event u) = (v OR eventUNBLOCKED_DUE_TO_BIT_SET) OR taskEVENT_LIST_ITEM_VALUE_IN_USE"
      using k1(5,7) u unfolding woken_with_def h by simp_all
    moreover have "priority_of k t < priority_of k u \<longrightarrow> pendsv k'" using u k1(8) k'(4,5) by blast
    ultimately show ?thesis using wv by (auto simp: sync_step_def uxTaskResetEventItemValue_def)
  qed
  then show ?thesis using run k'(2) h(4) c unfolding v_def [symmetric] by (intro exI [of _ ?g] exI [of _ k']) simp
qed

theorem rendezvous_completes_witness:
  "\<exists>g k g' k'. item_container k (event 0) = Some 100 \<and> uxEventBits g = 1 \<and>
    xEventGroupSync 2 3 9 g k = Some (Returned_bits 3, g', k') \<and> uxEventBits g' = 0 \<and> is_ready k' 0 \<and> pendsv k'"
proof -
  obtain g :: event_group and k t where k: "kernel_inv 3 example_lists k" "pxCurrentTCB k = Some t" "uxSchedulerSuspended k = 0" "uxPendedTicks k = 0"
    "item_container k (event 0) = Some 100" "item_value k (event 0) = wait_value 3 True True" "priority_of k t < priority_of k 0"
    "\<forall>u < 3. item_container k (event u) = Some 100 \<longrightarrow> u = 0" "xTasksWaitingForBits g = 100" "uxEventBits g = 1"
    using example_rendezvous by blast
  have g: "(100 :: nat) \<in> example_lists" "legal 2" "legal 3" "(3 :: 32 word) \<noteq> 0" "legal (uxEventBits g)" "(uxEventBits g OR 2) AND 3 = 3"
    using k(10) by (simp_all add: legal_def)
  have w: "\<forall>u < 3. item_container k (event u) = Some 100 \<longrightarrow> item_value k (event u) = wait_value 3 True True" using k(6,8) by blast
  have "uxEventBits g OR 2 = 3" using k(10) by simp
  then show ?thesis
    using rendezvous_completes [OF k(1,2,9) g(1-5) k(3,4) g(6) w, of 9] k(5,7,10) by fastforce
qed

end
