(* ===== verification/Rtos_Timers.thy ===== *)
theory Rtos_Timers
  imports Rtos_Store
begin

text \<open>
  Software timers, \<open>src/FreeRTOS/timers.c\<close>: a task keeps the active timers in two lists by expiry time, one for the current turn of
  the tick count and one for the next, and receives its commands through a queue. The queue is the bounded list that the
  queues of the kernel are shown to be. What is proved is said in times that do not wrap.
\<close>

section \<open>State\<close>

record timer =
  pcTimerName :: string
  xTimerPeriodInTicks :: tick
  uxAutoReload :: "32 word"
  pvTimerID :: nat
  pxCallbackFunction :: nat

record message =
  xMessageID :: int
  xMessageValue :: tick
  pxTimer :: nat

text \<open>
  The item of timer \<open>t\<close> is \<open>Item t\<close>. A timer is \<open>allocated\<close> until it is deleted. \<open>xTickCount\<close> is what the kernel counts.
  \<open>called\<close> is not in the code: it records the calls of callbacks, which are what the program sees.
\<close>

record timer_service =
  timer_store :: store
  timer_of :: "nat \<Rightarrow> timer"
  allocated :: "nat \<Rightarrow> bool"
  pxCurrentTimerList :: nat
  pxOverflowTimerList :: nat
  xTimerQueue :: "message list option"
  xLastTime :: tick
  xTickCount :: tick
  called :: "nat list"

text \<open>A callback is a function pointer; what it does to the state is given by an argument of the model.\<close>

type_synonym callbacks = "nat \<Rightarrow> nat \<Rightarrow> timer_service \<Rightarrow> timer_service"

definition call_back :: "callbacks \<Rightarrow> nat \<Rightarrow> timer_service \<Rightarrow> timer_service" where
  "call_back cb t s = cb (pxCallbackFunction (timer_of s t)) t (s\<lparr>called := called s @ [t]\<rparr>)"

abbreviation (input) tmrCOMMAND_START_DONT_TRACE :: int where "tmrCOMMAND_START_DONT_TRACE \<equiv> 0"
abbreviation (input) tmrCOMMAND_START :: int where "tmrCOMMAND_START \<equiv> 1"
abbreviation (input) tmrCOMMAND_RESET :: int where "tmrCOMMAND_RESET \<equiv> 2"
abbreviation (input) tmrCOMMAND_STOP :: int where "tmrCOMMAND_STOP \<equiv> 3"
abbreviation (input) tmrCOMMAND_CHANGE_PERIOD :: int where "tmrCOMMAND_CHANGE_PERIOD \<equiv> 4"
abbreviation (input) tmrCOMMAND_DELETE :: int where "tmrCOMMAND_DELETE \<equiv> 5"
abbreviation (input) tmrCOMMAND_START_FROM_ISR :: int where "tmrCOMMAND_START_FROM_ISR \<equiv> 6"
abbreviation (input) tmrCOMMAND_RESET_FROM_ISR :: int where "tmrCOMMAND_RESET_FROM_ISR \<equiv> 7"
abbreviation (input) tmrCOMMAND_STOP_FROM_ISR :: int where "tmrCOMMAND_STOP_FROM_ISR \<equiv> 8"
abbreviation (input) tmrCOMMAND_CHANGE_PERIOD_FROM_ISR :: int where "tmrCOMMAND_CHANGE_PERIOD_FROM_ISR \<equiv> 9"

abbreviation (input) configTIMER_QUEUE_LENGTH :: nat where "configTIMER_QUEUE_LENGTH \<equiv> 10"

section \<open>Creating timers\<close>

text \<open>The two lists are number 0 and 1; \<open>room\<close> tells whether there is memory for the queue.\<close>

definition prvCheckForValidListAndQueue :: "bool \<Rightarrow> timer_service \<Rightarrow> timer_service option" where
  "prvCheckForValidListAndQueue room s =
     (if xTimerQueue s = None then
        let s = s\<lparr>timer_store := vListInitialise 0 (timer_store s)\<rparr>;
            s = s\<lparr>timer_store := vListInitialise 1 (timer_store s)\<rparr>;
            s = s\<lparr>pxCurrentTimerList := 0, pxOverflowTimerList := 1\<rparr>;
            s = s\<lparr>xTimerQueue := (if room then Some [] else None)\<rparr>
        in if xTimerQueue s \<noteq> None then Some s else None
      else Some s)"

text \<open>\<open>malloc\<close> gives a timer that is not allocated, or \<open>None\<close> for \<open>NULL\<close>; the period 0 fails an assertion.\<close>

definition xTimerCreate ::
  "nat option \<Rightarrow> bool \<Rightarrow> string \<Rightarrow> tick \<Rightarrow> 32 word \<Rightarrow> nat \<Rightarrow> nat \<Rightarrow> timer_service \<Rightarrow> (nat option \<times> timer_service) option" where
  "xTimerCreate malloc room nam period autoreload tid cb s =
     (if period = 0 then None
      else case malloc of None \<Rightarrow> Some (None, s)
        | Some t \<Rightarrow> do {
            let s = s\<lparr>allocated := (allocated s)(t := True)\<rparr>;
            s \<leftarrow> prvCheckForValidListAndQueue room s;
            let s = s\<lparr>timer_of := (timer_of s)(t := \<lparr>pcTimerName = nam, xTimerPeriodInTicks = period, uxAutoReload = autoreload,
              pvTimerID = tid, pxCallbackFunction = cb\<rparr>)\<rparr>;
            let s = s\<lparr>timer_store := vListInitialiseItem (Item t) (timer_store s)\<rparr>;
            Some (Some t, s) })"

section \<open>Commands\<close>

text \<open>
  Sending a command without waiting, which is what the timer task and interrupts do; a task that waits for room does so in the
  queue. The result is false when the queue is full or there is none.
\<close>

definition xTimerGenericCommand :: "nat \<Rightarrow> int \<Rightarrow> tick \<Rightarrow> timer_service \<Rightarrow> bool \<times> timer_service" where
  "xTimerGenericCommand t xCommandID xOptionalValue s =
     (case xTimerQueue s of None \<Rightarrow> (False, s)
      | Some ms \<Rightarrow>
          if length ms < configTIMER_QUEUE_LENGTH then
            (True, s\<lparr>xTimerQueue := Some (ms @ [\<lparr>xMessageID = xCommandID, xMessageValue = xOptionalValue, pxTimer = t\<rparr>])\<rparr>)
          else (False, s))"

definition xTimerIsTimerActive :: "nat \<Rightarrow> timer_service \<Rightarrow> bool" where
  "xTimerIsTimerActive t s \<longleftrightarrow> container_of (timer_store s) (Item t) \<noteq> None"

definition pcTimerGetTimerName :: "nat \<Rightarrow> timer_service \<Rightarrow> string" where
  "pcTimerGetTimerName t s = pcTimerName (timer_of s t)"

definition pvTimerGetTimerID :: "nat \<Rightarrow> timer_service \<Rightarrow> nat" where
  "pvTimerGetTimerID t s = pvTimerID (timer_of s t)"

definition vTimerSetTimerID :: "nat \<Rightarrow> nat \<Rightarrow> timer_service \<Rightarrow> timer_service" where
  "vTimerSetTimerID t tid s = s\<lparr>timer_of := (timer_of s)(t := (timer_of s t)\<lparr>pvTimerID := tid\<rparr>)\<rparr>"

section \<open>The lists\<close>

definition head_item :: "nat \<Rightarrow> store \<Rightarrow> ptr" where
  "head_item l h = next_of h (End l)"

definition list_empty :: "nat \<Rightarrow> store \<Rightarrow> bool" where
  "list_empty l h \<longleftrightarrow> uxNumberOfItems (lists h l) = 0"

text \<open>The owner of an item; the end marker has none.\<close>

fun owner :: "ptr \<Rightarrow> nat option" where
  "owner (Item t) = Some t"
| "owner (End l) = None"

definition prvInsertTimerInActiveList :: "nat \<Rightarrow> tick \<Rightarrow> tick \<Rightarrow> tick \<Rightarrow> timer_service \<Rightarrow> (bool \<times> timer_service) option" where
  "prvInsertTimerInActiveList t xNextExpiryTime xTimeNow xCommandTime s =
     (let s = s\<lparr>timer_store := set_value (Item t) xNextExpiryTime (timer_store s)\<rparr> in
      if xNextExpiryTime \<le> xTimeNow then
        if xTimeNow - xCommandTime \<ge> xTimerPeriodInTicks (timer_of s t) then Some (True, s)
        else do {
          h \<leftarrow> vListInsert (pxOverflowTimerList s) (Item t) (timer_store s);
          Some (False, s\<lparr>timer_store := h\<rparr>) }
      else
        if xTimeNow < xCommandTime \<and> xNextExpiryTime \<ge> xCommandTime then Some (True, s)
        else do {
          h \<leftarrow> vListInsert (pxCurrentTimerList s) (Item t) (timer_store s);
          Some (False, s\<lparr>timer_store := h\<rparr>) })"

definition prvGetNextExpireTime :: "timer_service \<Rightarrow> tick \<times> bool" where
  "prvGetNextExpireTime s =
     (let xListWasEmpty = list_empty (pxCurrentTimerList s) (timer_store s) in
      (if \<not> xListWasEmpty then value_of (timer_store s) (head_item (pxCurrentTimerList s) (timer_store s)) else 0, xListWasEmpty))"

text \<open>A restart whose command finds the queue full fails an assertion.\<close>

definition restart :: "nat \<Rightarrow> tick \<Rightarrow> timer_service \<Rightarrow> timer_service option" where
  "restart t v s = (let (ok, s) = xTimerGenericCommand t tmrCOMMAND_START_DONT_TRACE v s in if ok then Some s else None)"

definition prvProcessExpiredTimer :: "callbacks \<Rightarrow> tick \<Rightarrow> tick \<Rightarrow> timer_service \<Rightarrow> timer_service option" where
  "prvProcessExpiredTimer cb xNextExpireTime xTimeNow s = do {
     t \<leftarrow> owner (head_item (pxCurrentTimerList s) (timer_store s));
     (_, h) \<leftarrow> uxListRemove (Item t) (timer_store s);
     let s = s\<lparr>timer_store := h\<rparr>;
     s \<leftarrow> (if uxAutoReload (timer_of s t) = 1 then do {
             (expired, s) \<leftarrow>
               prvInsertTimerInActiveList t (xNextExpireTime + xTimerPeriodInTicks (timer_of s t)) xTimeNow xNextExpireTime s;
             if expired then restart t xNextExpireTime s else Some s }
           else Some s);
     Some (call_back cb t s) }"

text \<open>The loop that empties the current list when the tick count has wrapped.\<close>

partial_function (option) switch_loop :: "callbacks \<Rightarrow> timer_service \<Rightarrow> timer_service option" where
  "switch_loop cb s =
     (if list_empty (pxCurrentTimerList s) (timer_store s) then Some s
      else do {
        let xNextExpireTime = value_of (timer_store s) (head_item (pxCurrentTimerList s) (timer_store s));
        t \<leftarrow> owner (head_item (pxCurrentTimerList s) (timer_store s));
        (_, h) \<leftarrow> uxListRemove (Item t) (timer_store s);
        let s = call_back cb t (s\<lparr>timer_store := h\<rparr>);
        if uxAutoReload (timer_of s t) = 1 then do {
          let xReloadTime = xNextExpireTime + xTimerPeriodInTicks (timer_of s t);
          if xReloadTime > xNextExpireTime then do {
            h \<leftarrow> vListInsert (pxCurrentTimerList s) (Item t) (set_value (Item t) xReloadTime (timer_store s));
            switch_loop cb (s\<lparr>timer_store := h\<rparr>) }
          else do { s \<leftarrow> restart t xNextExpireTime s; switch_loop cb s } }
        else switch_loop cb s })"

declare switch_loop.simps [code]

definition prvSwitchTimerLists :: "callbacks \<Rightarrow> timer_service \<Rightarrow> timer_service option" where
  "prvSwitchTimerLists cb s = do {
     s \<leftarrow> switch_loop cb s;
     Some (s\<lparr>pxCurrentTimerList := pxOverflowTimerList s, pxOverflowTimerList := pxCurrentTimerList s\<rparr>) }"

text \<open>The time now and whether the lists were switched.\<close>

definition prvSampleTimeNow :: "callbacks \<Rightarrow> timer_service \<Rightarrow> (tick \<times> bool \<times> timer_service) option" where
  "prvSampleTimeNow cb s =
     (let xTimeNow = xTickCount s in do {
        (switched, s) \<leftarrow> (if xTimeNow < xLastTime s then map_option (Pair True) (prvSwitchTimerLists cb s) else Some (False, s));
        Some (xTimeNow, switched, s\<lparr>xLastTime := xTimeNow\<rparr>) })"

section \<open>The timer task\<close>

text \<open>How long the task waits for a command: a number of ticks, or for ever.\<close>

datatype block = NoBlock | Block tick bool

definition prvProcessTimerOrBlockTask :: "callbacks \<Rightarrow> tick \<Rightarrow> bool \<Rightarrow> timer_service \<Rightarrow> (block \<times> timer_service) option" where
  "prvProcessTimerOrBlockTask cb xNextExpireTime xListWasEmpty s = do {
     (xTimeNow, switched, s) \<leftarrow> prvSampleTimeNow cb s;
     if \<not> switched then
       if \<not> xListWasEmpty \<and> xNextExpireTime \<le> xTimeNow then
         map_option (Pair NoBlock) (prvProcessExpiredTimer cb xNextExpireTime xTimeNow s)
       else
         let xListWasEmpty = (if xListWasEmpty then list_empty (pxOverflowTimerList s) (timer_store s) else xListWasEmpty)
         in Some (Block (xNextExpireTime - xTimeNow) xListWasEmpty, s)
     else Some (NoBlock, s) }"

text \<open>One round of the loop over the received commands, without the reception.\<close>

definition process_command :: "callbacks \<Rightarrow> message \<Rightarrow> timer_service \<Rightarrow> timer_service option" where
  "process_command cb m s =
     (if xMessageID m \<ge> 0 then do {
        let t = pxTimer m;
        s \<leftarrow> (if \<not> allocated s t then None
              else if container_of (timer_store s) (Item t) \<noteq> None then
                map_option (\<lambda>(_, h). s\<lparr>timer_store := h\<rparr>) (uxListRemove (Item t) (timer_store s))
              else Some s);
        (xTimeNow, _, s) \<leftarrow> prvSampleTimeNow cb s;
        if xMessageID m \<in> {tmrCOMMAND_START, tmrCOMMAND_START_FROM_ISR, tmrCOMMAND_RESET, tmrCOMMAND_RESET_FROM_ISR, tmrCOMMAND_START_DONT_TRACE}
        then do {
          (expired, s) \<leftarrow>
            prvInsertTimerInActiveList t (xMessageValue m + xTimerPeriodInTicks (timer_of s t)) xTimeNow (xMessageValue m) s;
          if expired then
            let s = call_back cb t s in
            if uxAutoReload (timer_of s t) = 1 then restart t (xMessageValue m + xTimerPeriodInTicks (timer_of s t)) s else Some s
          else Some s }
        else if xMessageID m \<in> {tmrCOMMAND_STOP, tmrCOMMAND_STOP_FROM_ISR} then Some s
        else if xMessageID m \<in> {tmrCOMMAND_CHANGE_PERIOD, tmrCOMMAND_CHANGE_PERIOD_FROM_ISR} then do {
          let s = s\<lparr>timer_of := (timer_of s)(t := (timer_of s t)\<lparr>xTimerPeriodInTicks := xMessageValue m\<rparr>)\<rparr>;
          if xTimerPeriodInTicks (timer_of s t) > 0 then
            map_option snd (prvInsertTimerInActiveList t (xTimeNow + xTimerPeriodInTicks (timer_of s t)) xTimeNow xTimeNow s)
          else None }
        else if xMessageID m = tmrCOMMAND_DELETE then Some (s\<lparr>allocated := (allocated s)(t := False)\<rparr>)
        else Some s }
      else Some s)"

text \<open>
  The loop over the commands. Ticks pass and commands arrive while it runs: \<open>env\<close> says what has happened to the state before the
  command of each round is received.
\<close>

partial_function (option) prvProcessReceivedCommands ::
  "callbacks \<Rightarrow> (nat \<Rightarrow> timer_service \<Rightarrow> timer_service) \<Rightarrow> nat \<Rightarrow> timer_service \<Rightarrow> timer_service option" where
  "prvProcessReceivedCommands cb env i s =
     (let s = env i s in
      case xTimerQueue s of None \<Rightarrow> None
      | Some [] \<Rightarrow> Some s
      | Some (m # ms) \<Rightarrow> do {
          s \<leftarrow> process_command cb m (s\<lparr>xTimerQueue := Some ms\<rparr>);
          prvProcessReceivedCommands cb env (i + 1) s })"

declare prvProcessReceivedCommands.simps [code]

text \<open>One round of the timer task; before its second half it waits as the first one says.\<close>

definition prvTimerTask ::
  "callbacks \<Rightarrow> (nat \<Rightarrow> timer_service \<Rightarrow> timer_service) \<Rightarrow> timer_service \<Rightarrow> (block \<times> timer_service) option" where
  "prvTimerTask cb env s = do {
     let (xNextExpireTime, xListWasEmpty) = prvGetNextExpireTime s;
     (b, s) \<leftarrow> prvProcessTimerOrBlockTask cb xNextExpireTime xListWasEmpty s;
     s \<leftarrow> prvProcessReceivedCommands cb env 0 s;
     Some (b, s) }"

end
