(* ===== verification/Rtos_Timers_Props.thy ===== *)
theory Rtos_Timers_Props
  imports Rtos_Timers
begin

text \<open>
  Software timers expire when they should. Times are counted without wrap-around: a timer is due at a number of ticks from the start, and
  the lists and the comparisons of the code stand for it, as long as the task looks at the time at least once
  in every turn of the tick count.
\<close>

section \<open>Times that do not wrap\<close>

abbreviation (input) TURN :: nat where "TURN \<equiv> 4294967296"

text \<open>A time lies in its turn of the tick count.\<close>

definition turn :: "nat \<Rightarrow> nat" where
  "turn n = n div TURN * TURN"

lemma turn_mod: "turn n + n mod TURN = n"
  by (simp add: turn_def)

lemma unat_tick: "unat (word_of_nat n :: tick) = n mod TURN"
  by (simp add: unat_of_nat)

lemma turn_cases:
  assumes "m \<le> n" "n < m + TURN"
  obtains "turn n = turn m" "m mod TURN \<le> n mod TURN" | "turn n = turn m + TURN" "n mod TURN < m mod TURN"
proof -
  have m: "turn m + m mod TURN = m" "m mod TURN < TURN" and n: "turn n + n mod TURN = n" "n mod TURN < TURN"
    by (simp_all add: turn_mod)
  define a b where "a = m div TURN" and "b = n div TURN"
  have t: "turn m = a * TURN" "turn n = b * TURN" by (simp_all add: turn_def a_def b_def)
  have "a \<le> b" unfolding a_def b_def using assms(1) by (rule div_le_mono)
  have "b < a + 2"
  proof (rule ccontr)
    assume "\<not> b < a + 2"
    then have "(a + 2) * TURN \<le> b * TURN" by (intro mult_right_mono) simp_all
    then show False using m n t assms(2) by simp
  qed
  with \<open>a \<le> b\<close> consider "b = a" | "b = a + 1" by linarith
  then show thesis
  proof cases
    case 1
    then show thesis using that(1) t m n assms by simp
  next
    case 2
    then have e: "turn n = turn m + TURN" using t by simp
    then have "n mod TURN < m mod TURN" using m n assms(2) by linarith
    then show thesis using that(2) e by blast
  qed
qed

text \<open>The decision of the insertion, for a command of time \<open>c\<close> that is carried out at time \<open>n\<close>.\<close>

lemma expiry_decision:
  assumes "c \<le> n" "n < c + TURN" "0 < p" "p < TURN"
  shows "(c + p) mod TURN \<le> n mod TURN \<Longrightarrow> p \<le> n - c \<longleftrightarrow> c + p \<le> n"
    and "(c + p) mod TURN \<le> n mod TURN \<Longrightarrow> n < c + p \<Longrightarrow> turn (c + p) = turn n + TURN"
    and "n mod TURN < (c + p) mod TURN \<Longrightarrow> n mod TURN < c mod TURN \<and> c mod TURN \<le> (c + p) mod TURN \<longleftrightarrow> c + p \<le> n"
    and "n mod TURN < (c + p) mod TURN \<Longrightarrow> n < c + p \<Longrightarrow> turn (c + p) = turn n"
proof -
  have e: "turn c + c mod TURN = c" "turn n + n mod TURN = n" "turn (c + p) + (c + p) mod TURN = c + p" by (simp_all add: turn_mod)
  have x: "c \<le> c + p" "c + p < c + TURN" using assms(4) by simp_all
  show "(c + p) mod TURN \<le> n mod TURN \<Longrightarrow> p \<le> n - c \<longleftrightarrow> c + p \<le> n" using assms(1) by linarith
  show "turn (c + p) = turn n + TURN" if "(c + p) mod TURN \<le> n mod TURN" "n < c + p"
    using that by (cases rule: turn_cases [OF assms(1,2)]; cases rule: turn_cases [OF x]) (use e in linarith)+
  show "n mod TURN < c mod TURN \<and> c mod TURN \<le> (c + p) mod TURN \<longleftrightarrow> c + p \<le> n" if "n mod TURN < (c + p) mod TURN"
    using that by (cases rule: turn_cases [OF assms(1,2)]; cases rule: turn_cases [OF x]) (use e in linarith)+
  show "turn (c + p) = turn n" if "n mod TURN < (c + p) mod TURN" "n < c + p"
    using that by (cases rule: turn_cases [OF assms(1,2)]; cases rule: turn_cases [OF x]) (use e in linarith)+
qed

lemma elapsed: 
  assumes "c \<le> n" "n < c + TURN"
  shows "unat (word_of_nat n - word_of_nat c :: tick) = n - c"
proof -
  have "(word_of_nat n - word_of_nat c :: tick) = word_of_nat (n - c)" using assms(1) by (simp add: of_nat_diff)
  moreover have "(n - c) mod TURN = n - c" using assms by (intro mod_less) linarith
  ultimately show ?thesis by (simp only: unat_tick)
qed

lemma elapsed_ge:
  fixes p :: tick
  assumes "c \<le> n" "n < c + TURN"
  shows "p \<le> word_of_nat n - word_of_nat c \<longleftrightarrow> unat p \<le> n - c"
  by (simp add: word_le_nat_alt elapsed [OF assms])


section \<open>The invariant\<close>

text \<open>
  The two lists hold timers below \<open>n\<close>, \<open>f\<close>, in order of their values; the lists have last been looked at, at time \<open>l\<close>; what is on a list is
  allocated and has a period.
\<close>

definition timers_inv :: "nat \<Rightarrow> nat \<Rightarrow> (nat \<Rightarrow> ptr list) \<Rightarrow> timer_service \<Rightarrow> bool" where
  "timers_inv n l f s \<longleftrightarrow> holds {0, 1} n (timer_store s) f \<and>
     (pxCurrentTimerList s, pxOverflowTimerList s) \<in> {(0, 1), (1, 0)} \<and>
     (\<forall>m \<in> {0, 1}. sorted (map (value_of (timer_store s)) (f m))) \<and>
     (\<forall>t<n. allocated s t \<longrightarrow> xTimerPeriodInTicks (timer_of s t) > 0) \<and>
     (\<forall>t<n. \<not> allocated s t \<longrightarrow> container_of (timer_store s) (Item t) = None) \<and>
     xLastTime s = word_of_nat l \<and> (\<exists>ms. xTimerQueue s = Some ms \<and> length ms \<le> configTIMER_QUEUE_LENGTH)"

text \<open>The time an active timer expires.\<close>

definition due :: "nat \<Rightarrow> timer_service \<Rightarrow> nat \<Rightarrow> nat option" where
  "due l s t = (case container_of (timer_store s) (Item t) of None \<Rightarrow> None
     | Some m \<Rightarrow> Some (turn l + (if m = pxCurrentTimerList s then 0 else TURN) + unat (value_of (timer_store s) (Item t))))"

lemma holds_store_value:
  assumes "holds L n h f" "i < n" "container_of h (Item i) = None"
  shows "holds L n (set_value (Item i) v h) f"
proof -
  have "is_list (set_value (Item i) v h) m (f m)" if "m \<in> L" for m
  proof (rule is_list_same [OF _ _ holds_is_list [OF assms(1) that]])
    show "\<forall>q \<in> set (End m # f m). items (set_value (Item i) v h) q = items h q"
      using holds_container [OF assms(1,2) that] assms(3) by (auto simp: store_simps)
  qed (simp add: store_simps)
  then show ?thesis using assms(1) by (simp add: holds_def store_simps)
qed

lemma sorted_set_value:
  assumes "holds L n h f" "i < n" "container_of h (Item i) = None" "m \<in> L"
  shows "map (value_of (set_value (Item i) v h)) (f m) = map (value_of h) (f m)"
  using holds_container [OF assms(1,2,4)] assms(3) by (auto simp: store_simps)

text \<open>What the insertion of timer \<open>t\<close> leaves alone.\<close>

definition others_kept :: "nat \<Rightarrow> timer_service \<Rightarrow> timer_service \<Rightarrow> bool" where
  "others_kept t s s' \<longleftrightarrow> (\<exists>h. s' = s\<lparr>timer_store := h\<rparr> \<and>
     (\<forall>q. q \<noteq> Item t \<longrightarrow> value_of h q = value_of (timer_store s) q \<and> container_of h q = container_of (timer_store s) q))"

lemma others_kept_due: "others_kept t s s' \<Longrightarrow> u \<noteq> t \<Longrightarrow> due l s' u = due l s u"
  by (auto simp: others_kept_def due_def split: option.splits)

lemma insert_into:
  assumes inv: "timers_inv n l f s" and t: "t < n" "allocated s t" "container_of (timer_store s) (Item t) = None" and m: "m \<in> {0, 1}"
  shows "\<exists>h pre suf. vListInsert m (Item t) (set_value (Item t) v (timer_store s)) = Some h \<and> f m = pre @ suf \<and>
    timers_inv n l (f(m := pre @ Item t # suf)) (s\<lparr>timer_store := h\<rparr>) \<and> others_kept t s (s\<lparr>timer_store := h\<rparr>) \<and>
    container_of h (Item t) = Some m \<and> value_of h (Item t) = v"
proof -
  let ?h = "set_value (Item t) v (timer_store s)"
  have h: "holds {0, 1} n (timer_store s) f" and so: "\<forall>m \<in> {0, 1}. sorted (map (value_of (timer_store s)) (f m))"
    using inv by (simp_all add: timers_inv_def)
  have h1: "holds {0, 1} n ?h f" by (rule holds_store_value [OF h t(1,3)])
  have c: "container_of ?h (Item t) = None" using t(3) by (simp add: store_simps)
  have so1: "sorted (map (value_of ?h) (f k))" if "k \<in> {0, 1}" for k
    unfolding sorted_set_value [OF h t(1,3) that] using so that by blast
  obtain h' pre suf where r: "vListInsert m (Item t) ?h = Some h'" "holds {0, 1} n h' (f(m := pre @ Item t # suf))"
    "moved ?h h' m t (Some m)" "sorted (map (value_of h') (pre @ Item t # suf))" "f m = pre @ suf"
    using holds_insert [OF h1 m t(1) c so1 [OF m]] by blast
  have v: "value_of h' q = value_of ?h q" "container_of h' q = (if q = Item t then Some m else container_of ?h q)" for q
    using r(3) by (simp_all add: moved_def)
  have "sorted (map (value_of h') ((f(m := pre @ Item t # suf)) k))" if "k \<in> {0, 1}" for k
    using r(4) so1 [OF that] v(1) by (cases "k = m") (simp_all cong: map_cong)
  then have "timers_inv n l (f(m := pre @ Item t # suf)) (s\<lparr>timer_store := h'\<rparr>)"
    using inv r(2) v t(2) by (auto simp: timers_inv_def store_simps)
  moreover have "others_kept t s (s\<lparr>timer_store := h'\<rparr>)"
    using v by (auto simp: others_kept_def store_simps)
  moreover have "container_of h' (Item t) = Some m" "value_of h' (Item t) = v" using v by (simp_all add: store_simps)
  ultimately show ?thesis using r(1,5) by blast
qed

text \<open>
  A timer whose command is of time \<open>c\<close> and carried out at time \<open>l\<close> is to be called now if its period has passed, and else
  expires one period after \<open>c\<close>.
\<close>

lemma insert_spec:
  assumes inv: "timers_inv n l f s" and t: "t < n" "allocated s t" "container_of (timer_store s) (Item t) = None"
    and p: "p = unat (xTimerPeriodInTicks (timer_of s t))" and c: "c \<le> l" "l < c + TURN"
  defines "r \<equiv> prvInsertTimerInActiveList t (word_of_nat c + xTimerPeriodInTicks (timer_of s t)) (word_of_nat l) (word_of_nat c) s"
  shows "if c + p \<le> l then r = Some (True, s\<lparr>timer_store := set_value (Item t) (word_of_nat (c + p)) (timer_store s)\<rparr>)
    else \<exists>s' f'. r = Some (False, s') \<and> timers_inv n l f' s' \<and> others_kept t s s' \<and> due l s' t = Some (c + p)"
proof -
  let ?v = "word_of_nat (c + p) :: tick"
  have v: "word_of_nat c + xTimerPeriodInTicks (timer_of s t) = ?v" by (simp add: p)
  have "xTimerPeriodInTicks (timer_of s t) > 0" using inv t by (simp add: timers_inv_def)
  then have p0: "0 < p" "p < TURN"
    using unsigned_less [of "xTimerPeriodInTicks (timer_of s t)", where 'a = nat] by (simp_all add: p unat_gt_0 word_neq_0_conv)
  note dec = expiry_decision [OF c p0]
  let ?s = "s\<lparr>timer_store := set_value (Item t) ?v (timer_store s)\<rparr>"
  have w: "?v \<le> word_of_nat l \<longleftrightarrow> (c + p) mod TURN \<le> l mod TURN" "(word_of_nat l :: tick) < word_of_nat c \<longleftrightarrow> l mod TURN < c mod TURN"
    "?v \<ge> word_of_nat c \<longleftrightarrow> c mod TURN \<le> (c + p) mod TURN"
    by (simp_all only: word_le_nat_alt word_less_nat_alt unat_tick)
  have e: "xTimerPeriodInTicks (timer_of s t) \<le> word_of_nat l - word_of_nat c \<longleftrightarrow> p \<le> l - c"
    using elapsed_ge [OF c] p by simp
  have lists: "pxCurrentTimerList s \<in> {0, 1}" "pxOverflowTimerList s \<in> {0, 1}" "pxOverflowTimerList s \<noteq> pxCurrentTimerList s"
    using inv by (auto simp: timers_inv_def)
  have ins: "\<exists>s' f'. do { h \<leftarrow> vListInsert m (Item t) (timer_store ?s); Some (False, ?s\<lparr>timer_store := h\<rparr>) } = Some (False, s') \<and>
      timers_inv n l f' s' \<and> others_kept t s s' \<and> due l s' t = Some (c + p)"
    if m: "m \<in> {0, 1}" "turn (c + p) = turn l + (if m = pxCurrentTimerList s then 0 else TURN)" for m
  proof -
    obtain h f' where h: "vListInsert m (Item t) (set_value (Item t) ?v (timer_store s)) = Some h"
      "timers_inv n l f' (s\<lparr>timer_store := h\<rparr>)" "others_kept t s (s\<lparr>timer_store := h\<rparr>)" "container_of h (Item t) = Some m"
      "value_of h (Item t) = ?v"
      using insert_into [OF inv t m(1)] by blast
    then have "due l (s\<lparr>timer_store := h\<rparr>) t = Some (turn (c + p) + (c + p) mod TURN)"
      using m(2) by (simp add: due_def unat_tick del: of_nat_add)
    then show ?thesis using h by (intro exI [of _ "s\<lparr>timer_store := h\<rparr>"] exI [of _ f']) (simp add: turn_mod)
  qed
  have r: "r = (if ?v \<le> word_of_nat l then
      (if xTimerPeriodInTicks (timer_of s t) \<le> word_of_nat l - word_of_nat c then Some (True, ?s)
       else do { h \<leftarrow> vListInsert (pxOverflowTimerList s) (Item t) (timer_store ?s); Some (False, ?s\<lparr>timer_store := h\<rparr>) })
     else if (word_of_nat l :: tick) < word_of_nat c \<and> ?v \<ge> word_of_nat c then Some (True, ?s)
     else do { h \<leftarrow> vListInsert (pxCurrentTimerList s) (Item t) (timer_store ?s); Some (False, ?s\<lparr>timer_store := h\<rparr>) })"
    unfolding r_def v prvInsertTimerInActiveList_def Let_def by simp
  show ?thesis
  proof (cases "(c + p) mod TURN \<le> l mod TURN")
    case True
    then show ?thesis using r w(1) e dec(1,2) [OF True] ins [OF lists(2)] lists(3) by simp
  next
    case False
    then have F: "l mod TURN < (c + p) mod TURN" by simp
    show ?thesis using False r w dec(3,4) [OF F] ins [OF lists(1)] by simp
  qed
qed

text \<open>What a callback may do: everything but use the lists, which the code keeps to itself, and change timers other than by commands.\<close>

definition harmless :: "callbacks \<Rightarrow> bool" where
  "harmless cb \<longleftrightarrow> (\<forall>g t s. timer_store (cb g t s) = timer_store s \<and> allocated (cb g t s) = allocated s \<and>
     pxCurrentTimerList (cb g t s) = pxCurrentTimerList s \<and> pxOverflowTimerList (cb g t s) = pxOverflowTimerList s \<and>
     xLastTime (cb g t s) = xLastTime s \<and> called (cb g t s) = called s \<and>
     (\<forall>u. xTimerPeriodInTicks (timer_of (cb g t s) u) = xTimerPeriodInTicks (timer_of s u) \<and>
          uxAutoReload (timer_of (cb g t s) u) = uxAutoReload (timer_of s u)) \<and>
     (\<forall>ms. xTimerQueue s = Some ms \<and> length ms \<le> configTIMER_QUEUE_LENGTH \<longrightarrow>
        (\<exists>new. xTimerQueue (cb g t s) = Some (ms @ new) \<and> length (ms @ new) \<le> configTIMER_QUEUE_LENGTH)))"

lemma harmlessD:
  assumes "harmless cb"
  shows "timer_store (call_back cb t s) = timer_store s" "allocated (call_back cb t s) = allocated s"
    "pxCurrentTimerList (call_back cb t s) = pxCurrentTimerList s" "pxOverflowTimerList (call_back cb t s) = pxOverflowTimerList s"
    "xLastTime (call_back cb t s) = xLastTime s" "called (call_back cb t s) = called s @ [t]"
    "xTimerPeriodInTicks (timer_of (call_back cb t s) u) = xTimerPeriodInTicks (timer_of s u)"
    "uxAutoReload (timer_of (call_back cb t s) u) = uxAutoReload (timer_of s u)"
  using assms by (simp_all add: harmless_def call_back_def)

lemma harmless_queue:
  assumes "harmless cb" "xTimerQueue s = Some ms" "length ms \<le> configTIMER_QUEUE_LENGTH"
  shows "\<exists>new. xTimerQueue (call_back cb t s) = Some (ms @ new) \<and> length (ms @ new) \<le> configTIMER_QUEUE_LENGTH"
proof -
  let ?s = "s\<lparr>called := called s @ [t]\<rparr>"
  have "xTimerQueue ?s = Some ms" using assms(2) by simp
  then show ?thesis using assms(1,3) unfolding harmless_def call_back_def by blast
qed

lemma inv_call_back:
  assumes "harmless cb" "timers_inv n l f s"
  shows "timers_inv n l f (call_back cb t s)" "due l (call_back cb t s) = due l s"
proof -
  obtain ms where "xTimerQueue s = Some ms" "length ms \<le> configTIMER_QUEUE_LENGTH" using assms(2) unfolding timers_inv_def by blast
  then obtain new where "xTimerQueue (call_back cb t s) = Some (ms @ new)" "length (ms @ new) \<le> configTIMER_QUEUE_LENGTH"
    using harmless_queue [OF assms(1)] by blast
  then show "timers_inv n l f (call_back cb t s)" using assms by (simp add: timers_inv_def harmlessD)
  show "due l (call_back cb t s) = due l s"
    by (rule ext) (simp add: due_def harmlessD [OF assms(1)] split: option.split)
qed

lemma inv_set_value:
  assumes "timers_inv n l f s" "t < n" "container_of (timer_store s) (Item t) = None"
  shows "timers_inv n l f (s\<lparr>timer_store := set_value (Item t) v (timer_store s)\<rparr>)"
    "due l (s\<lparr>timer_store := set_value (Item t) v (timer_store s)\<rparr>) = due l s"
proof -
  have h: "holds {0, 1} n (timer_store s) f" using assms(1) by (simp add: timers_inv_def)
  have so: "sorted (map (value_of (set_value (Item t) v (timer_store s))) (f m)) = sorted (map (value_of (timer_store s)) (f m))"
    if "m \<in> {0, 1}" for m
    by (simp only: sorted_set_value [OF h assms(2,3) that])
  show "timers_inv n l f (s\<lparr>timer_store := set_value (Item t) v (timer_store s)\<rparr>)"
    using assms(1) holds_store_value [OF h assms(2,3)] so [of 0] so [of 1] by (simp add: timers_inv_def) (simp add: store_simps)
  show "due l (s\<lparr>timer_store := set_value (Item t) v (timer_store s)\<rparr>) = due l s"
    using assms(3) by (auto simp: due_def fun_eq_iff store_simps split: option.splits)
qed

lemma inv_same_turn:
  assumes "timers_inv n l f s" "turn k = turn l"
  shows "timers_inv n k f (s\<lparr>xLastTime := word_of_nat k\<rparr>)" "due k (s\<lparr>xLastTime := word_of_nat k\<rparr>) = due l s"
  using assms by (simp_all add: timers_inv_def due_def fun_eq_iff split: option.splits)

lemma due_active: "timers_inv n l f s \<Longrightarrow> t < n \<Longrightarrow> (\<exists>d. due l s t = Some d) \<longleftrightarrow> (\<exists>m \<in> {0, 1}. Item t \<in> set (f m))"
proof -
  assume a: "timers_inv n l f s" "t < n"
  then have h: "holds {0, 1} n (timer_store s) f" by (simp add: timers_inv_def)
  have "(\<exists>d. due l s t = Some d) \<longleftrightarrow> (\<exists>m. container_of (timer_store s) (Item t) = Some m)" by (auto simp: due_def split: option.splits)
  also have "\<dots> \<longleftrightarrow> (\<exists>m \<in> {0, 1}. Item t \<in> set (f m))" using h a(2) holds_container [OF h a(2)] unfolding holds_def by blast
  finally show ?thesis .
qed

lemma remove_spec:
  assumes inv: "timers_inv n l f s" and t: "t < n" "container_of (timer_store s) (Item t) = Some m"
  shows "\<exists>r h. uxListRemove (Item t) (timer_store s) = Some (r, h) \<and>
    timers_inv n l (f(m := remove1 (Item t) (f m))) (s\<lparr>timer_store := h\<rparr>) \<and> others_kept t s (s\<lparr>timer_store := h\<rparr>) \<and>
    container_of h (Item t) = None \<and> (\<forall>q. value_of h q = value_of (timer_store s) q)"
proof -
  have h: "holds {0, 1} n (timer_store s) f" and so: "\<forall>m \<in> {0, 1}. sorted (map (value_of (timer_store s)) (f m))"
    using inv by (simp_all add: timers_inv_def)
  have m: "m \<in> {0, 1}" using h t unfolding holds_def by blast
  obtain h' where r: "uxListRemove (Item t) (timer_store s) = Some (word_of_nat (length (remove1 (Item t) (f m))), h')"
    "holds {0, 1} n h' (f(m := remove1 (Item t) (f m)))" "moved (timer_store s) h' m t None"
    using holds_remove [OF h m t] by blast
  have v: "value_of h' q = value_of (timer_store s) q" "container_of h' q = (if q = Item t then None else container_of (timer_store s) q)" for q
    using r(3) by (simp_all add: moved_def)
  have vs: "map (value_of h') xs = map (value_of (timer_store s)) xs" for xs using v(1) by simp
  have "sorted (map (value_of (timer_store s)) (remove1 (Item t) (f m)))"
    using so m sorted_map_remove1 [of "value_of (timer_store s)" "f m"] by blast
  then have "timers_inv n l (f(m := remove1 (Item t) (f m))) (s\<lparr>timer_store := h'\<rparr>)"
    using inv r(2) m v(2) by (auto simp: timers_inv_def vs)
  then show ?thesis using r(1) v by (auto simp: others_kept_def)
qed

lemma head_spec:
  assumes "timers_inv n l f s" "m \<in> {0, 1}"
  shows "list_empty m (timer_store s) \<longleftrightarrow> f m = []"
    "f m = x # xs \<Longrightarrow> head_item m (timer_store s) = x \<and> (\<exists>t<n. x = Item t \<and> container_of (timer_store s) (Item t) = Some m \<and> allocated s t)"
proof -
  have h: "holds {0, 1} n (timer_store s) f" using assms(1) by (simp add: timers_inv_def)
  show "list_empty m (timer_store s) \<longleftrightarrow> f m = []" using holds_count [OF h assms(2)] by (simp add: list_empty_def)
  assume x: "f m = x # xs"
  have "seg (timer_store s) (End m) (f m) (End m)" using holds_is_list [OF h assms(2)] by (simp add: is_list_def)
  then have "head_item m (timer_store s) = x" using x by (simp add: head_item_def)
  moreover obtain t where t: "t < n" "x = Item t" using holds_item [OF h assms(2), of x] x by auto
  moreover have "container_of (timer_store s) (Item t) = Some m" using holds_container [OF h t(1) assms(2)] x t(2) by simp
  ultimately show "head_item m (timer_store s) = x \<and> (\<exists>t<n. x = Item t \<and> container_of (timer_store s) (Item t) = Some m \<and> allocated s t)"
    using assms(1) unfolding timers_inv_def by auto
qed

lemma unat_tick_less: "unat (v :: tick) < TURN"
  using unsigned_less [of v, where 'a = nat] by simp

lemma due_head:
  assumes inv: "timers_inv n l f s" and cur: "f (pxCurrentTimerList s) = Item t # xs" and u: "u < n" "due l s u = Some e"
  shows "\<exists>d. due l s t = Some d \<and> d = turn l + unat (value_of (timer_store s) (Item t)) \<and> d \<le> e"
proof -
  let ?c = "pxCurrentTimerList s"
  have c: "?c \<in> {0, 1}" using inv by (auto simp: timers_inv_def)
  have h: "holds {0, 1} n (timer_store s) f" and so: "sorted (map (value_of (timer_store s)) (f ?c))"
    using inv c by (auto simp: timers_inv_def)
  have "container_of (timer_store s) (Item t) = Some ?c" using head_spec(2) [OF inv c cur] by auto
  then have d: "due l s t = Some (turn l + unat (value_of (timer_store s) (Item t)))" by (simp add: due_def)
  obtain m where m: "container_of (timer_store s) (Item u) = Some m" using u(2) by (auto simp: due_def split: option.splits)
  have "turn l + unat (value_of (timer_store s) (Item t)) \<le> e"
  proof (cases "m = ?c")
    case True
    then have "Item u \<in> set (f ?c)" using holds_container [OF h u(1) c] m by simp
    then have "value_of (timer_store s) (Item t) \<le> value_of (timer_store s) (Item u)" using so cur by auto
    then show ?thesis using u(2) m True by (simp add: due_def word_le_nat_alt)
  next
    case False
    then have "e = turn l + TURN + unat (value_of (timer_store s) (Item u))" using u(2) m by (simp add: due_def)
    then show ?thesis using unat_tick_less [of "value_of (timer_store s) (Item t)"] by linarith
  qed
  then show ?thesis using d by blast
qed

lemma due_current:
  assumes "timers_inv n l f s" "f (pxCurrentTimerList s) = []" "t < n" "due l s t = Some d"
  shows "turn l + TURN \<le> d"
proof -
  let ?c = "pxCurrentTimerList s"
  have c: "?c \<in> {0, 1}" using assms(1) by (auto simp: timers_inv_def)
  have h: "holds {0, 1} n (timer_store s) f" using assms(1) by (simp add: timers_inv_def)
  have "container_of (timer_store s) (Item t) \<noteq> Some ?c" using holds_container [OF h assms(3) c] assms(2) by simp
  then show ?thesis using assms(4) by (auto simp: due_def split: option.splits)
qed

lemma same_turn_order:
  assumes "l \<le> now" "turn now = turn l"
  shows "\<not> (word_of_nat now :: tick) < word_of_nat l" "now < turn l + TURN" "now - turn l = now mod TURN"
proof -
  have e: "turn l + l mod TURN = l" "turn now + now mod TURN = now" by (simp_all add: turn_mod)
  then have "l mod TURN \<le> now mod TURN" using assms by linarith
  then show "\<not> (word_of_nat now :: tick) < word_of_nat l" by (simp only: word_less_nat_alt unat_tick not_less)
  show "now < turn l + TURN" "now - turn l = now mod TURN" using e assms mod_less_divisor [of TURN now] by linarith+
qed

text \<open>Nothing has expired: the task waits for the first expiry, or for the end of the turn when there is none in it.\<close>

lemma nothing_due:
  assumes inv: "timers_inv n l f s" and now: "l \<le> now" "turn now = turn l" "xTickCount s = word_of_nat now"
    and none: "\<forall>t<n. \<forall>d. due l s t = Some d \<longrightarrow> now < d" and get: "prvGetNextExpireTime s = (x, e)"
  shows "\<exists>w. prvProcessTimerOrBlockTask cb x e s = Some (Block w (\<forall>t<n. due l s t = None), s\<lparr>xLastTime := word_of_nat now\<rparr>) \<and>
    (if f (pxCurrentTimerList s) = [] then w = - word_of_nat now
     else \<exists>t<n. \<exists>d. due l s t = Some d \<and> now + unat w = d \<and> (\<forall>u<n. \<forall>e. due l s u = Some e \<longrightarrow> d \<le> e))"
proof -
  let ?c = "pxCurrentTimerList s" and ?o = "pxOverflowTimerList s"
  have c: "?c \<in> {0, 1}" "?o \<in> {0, 1}" "{0, 1} = {?c, ?o}" using inv by (auto simp: timers_inv_def)
  have sample: "prvSampleTimeNow cb s = Some (word_of_nat now, False, s\<lparr>xLastTime := word_of_nat now\<rparr>)"
    using same_turn_order(1) [OF now(1,2)] inv now(3) by (simp add: prvSampleTimeNow_def timers_inv_def Let_def)
  have idle: "(\<forall>t<n. due l s t = None) \<longleftrightarrow> f ?c = [] \<and> f ?o = []"
  proof -
    have h: "holds {0, 1} n (timer_store s) f" using inv by (simp add: timers_inv_def)
    have "(\<forall>t<n. due l s t = None) \<longleftrightarrow> (\<forall>t<n. \<forall>m \<in> {0, 1}. Item t \<notin> set (f m))"
      using due_active [OF inv] by (metis not_None_eq)
    also have "\<dots> \<longleftrightarrow> f ?c = [] \<and> f ?o = []"
    proof
      assume a: "\<forall>t<n. \<forall>m \<in> {0, 1}. Item t \<notin> set (f m)"
      have "f m = []" if "m \<in> {0, 1}" for m
        using a that holds_item [OF h that, of "hd (f m)"] hd_in_set [of "f m"] by metis
      then show "f ?c = [] \<and> f ?o = []" using c by blast
    qed (use c in auto)
    finally show ?thesis .
  qed
  show ?thesis
  proof (cases "f ?c")
    case Nil
    then have "x = 0" "e" using get head_spec(1) [OF inv c(1)] by (auto simp: prvGetNextExpireTime_def Let_def)
    then show ?thesis using sample Nil idle head_spec(1) [OF inv c(2)] by (simp add: prvProcessTimerOrBlockTask_def)
  next
    case (Cons y ys)
    then obtain t where t: "y = Item t" "t < n" "head_item ?c (timer_store s) = Item t" "container_of (timer_store s) (Item t) = Some ?c"
      using head_spec(2) [OF inv c(1) Cons] by auto
    have e: "x = value_of (timer_store s) (Item t)" "\<not> e"
      using get head_spec(1) [OF inv c(1)] Cons t(3) by (auto simp: prvGetNextExpireTime_def Let_def)
    have d: "due l s t = Some (turn l + unat x)" using t(4) e(1) by (simp add: due_def)
    have lt: "now < turn l + unat x" using none t(2) d by blast
    then have m: "now mod TURN < unat x" using same_turn_order(3) [OF now(1,2)] turn_mod [of now] now(2) by linarith
    then have nl: "\<not> x \<le> word_of_nat now" by (simp only: word_le_nat_alt unat_tick not_le)
    have "unat (x - word_of_nat now) = unat x - now mod TURN"
      using unat_sub [of "word_of_nat now" x] m by (simp only: word_le_nat_alt unat_tick less_imp_le)
    then have w: "now + unat (x - word_of_nat now) = turn l + unat x"
      using m turn_mod [of now] now(2) by linarith
    have "prvProcessTimerOrBlockTask cb x e s = Some (Block (x - word_of_nat now) False, s\<lparr>xLastTime := word_of_nat now\<rparr>)"
      using sample e(2) nl by (simp add: prvProcessTimerOrBlockTask_def)
    moreover have "turn l + unat x \<le> e'" if "u < n" "due l s u = Some e'" for u e'
      using due_head [OF inv Cons [unfolded t(1)] that] e(1) by auto
    ultimately show ?thesis using Cons idle d w t(2) by auto
  qed
qed

lemma tick_turn: "(word_of_nat (turn l + k) :: tick) = word_of_nat k"
proof -
  have "(word_of_nat (turn l) :: tick) = 0" unfolding turn_def word_of_nat_eq_0_iff by simp
  then show ?thesis by simp
qed

lemma inv_queue:
  assumes "timers_inv n l f s" "length ms \<le> configTIMER_QUEUE_LENGTH"
  shows "timers_inv n l f (s\<lparr>xTimerQueue := Some ms\<rparr>)" "due l (s\<lparr>xTimerQueue := Some ms\<rparr>) = due l s"
proof -
  show "timers_inv n l f (s\<lparr>xTimerQueue := Some ms\<rparr>)" using assms by (simp add: timers_inv_def)
  show "due l (s\<lparr>xTimerQueue := Some ms\<rparr>) = due l s" by (rule ext) (simp add: due_def split: option.split)
qed

lemma restart_spec:
  assumes "xTimerQueue s = Some ms" "length ms < configTIMER_QUEUE_LENGTH"
  shows "restart t v s = Some (s\<lparr>xTimerQueue := Some (ms @ [\<lparr>xMessageID = 0, xMessageValue = v, pxTimer = t\<rparr>])\<rparr>)"
  using assms by (simp add: restart_def xTimerGenericCommand_def)

lemma others_kept_simps:
  assumes "others_kept t s s'"
  shows "timer_of s' = timer_of s" "allocated s' = allocated s" "xTimerQueue s' = xTimerQueue s" "called s' = called s"
    "pxCurrentTimerList s' = pxCurrentTimerList s" "pxOverflowTimerList s' = pxOverflowTimerList s" "xLastTime s' = xLastTime s"
    "xTickCount s' = xTickCount s"
  using assms by (auto simp: others_kept_def)

lemma remove_timer:
  assumes "timers_inv n l f s" "t < n" "container_of (timer_store s) (Item t) = Some m"
  obtains r h where "uxListRemove (Item t) (timer_store s) = Some (r, h)"
    "timers_inv n l (f(m := remove1 (Item t) (f m))) (s\<lparr>timer_store := h\<rparr>)" "others_kept t s (s\<lparr>timer_store := h\<rparr>)"
    "container_of h (Item t) = None" "due l (s\<lparr>timer_store := h\<rparr>) = (due l s)(t := None)"
proof -
  obtain r h where rm: "uxListRemove (Item t) (timer_store s) = Some (r, h)"
    "timers_inv n l (f(m := remove1 (Item t) (f m))) (s\<lparr>timer_store := h\<rparr>)" "others_kept t s (s\<lparr>timer_store := h\<rparr>)"
    "container_of h (Item t) = None"
    using remove_spec [OF assms] by blast
  moreover have "due l (s\<lparr>timer_store := h\<rparr>) = (due l s)(t := None)"
    using rm(4) others_kept_due [OF rm(3)] by (auto simp: fun_eq_iff due_def)
  ultimately show thesis using that by blast
qed

text \<open>
  After an expiry at \<open>d\<close> a timer with reload is active for \<open>d\<close> plus its period, unless that has passed too, and then a command
  to start it again from \<open>d\<close> is sent.
\<close>

definition reloaded :: "nat \<Rightarrow> nat \<Rightarrow> nat \<Rightarrow> timer_service \<Rightarrow> timer_service \<Rightarrow> bool" where
  "reloaded now t d s s' \<longleftrightarrow> (let p = unat (xTimerPeriodInTicks (timer_of s t)) in
     if uxAutoReload (timer_of s t) \<noteq> 1 then due now s' t = None \<and> xTimerQueue s' = xTimerQueue s
     else if now < d + p then due now s' t = Some (d + p) \<and> xTimerQueue s' = xTimerQueue s
     else due now s' t = None \<and> xTimerQueue s' =
       map_option (\<lambda>ms. ms @ [\<lparr>xMessageID = tmrCOMMAND_START_DONT_TRACE, xMessageValue = word_of_nat d, pxTimer = t\<rparr>]) (xTimerQueue s))"

lemma first_due:
  assumes inv: "timers_inv n l f s" and cb: "harmless cb" and now: "l \<le> now" "turn now = turn l" "xTickCount s = word_of_nat now"
    and cur: "f (pxCurrentTimerList s) = Item t # xs" and d: "due l s t = Some d" "d \<le> now" and get: "prvGetNextExpireTime s = (x, e)"
    and room: "xTimerQueue s = Some ms" "length ms < configTIMER_QUEUE_LENGTH"
  shows "\<exists>s' f'. prvProcessTimerOrBlockTask cb x e s = Some (NoBlock, call_back cb t s') \<and> called s' = called s \<and>
    timers_inv n now f' s' \<and> (\<forall>u. u \<noteq> t \<longrightarrow> due now s' u = due l s u) \<and> reloaded now t d s s'"
proof -
  let ?c = "pxCurrentTimerList s" and ?s = "s\<lparr>xLastTime := word_of_nat now\<rparr>"
  let ?p = "unat (xTimerPeriodInTicks (timer_of s t))"
  have c: "?c \<in> {0, 1}" using inv by (auto simp: timers_inv_def)
  have sample: "prvSampleTimeNow cb s = Some (word_of_nat now, False, ?s)"
    using same_turn_order(1) [OF now(1,2)] inv now(3) by (simp add: prvSampleTimeNow_def timers_inv_def Let_def)
  have t: "t < n" "head_item ?c (timer_store s) = Item t" "container_of (timer_store s) (Item t) = Some ?c" "allocated s t"
    using head_spec(2) [OF inv c cur] by auto
  have xe: "x = value_of (timer_store s) (Item t)" "\<not> e"
    using get head_spec(1) [OF inv c] cur t(2) by (auto simp: prvGetNextExpireTime_def Let_def)
  have dx: "d = turn l + unat x" using d(1) t(3) xe(1) by (simp add: due_def)
  have "(word_of_nat d :: tick) = word_of_nat (unat x)" unfolding dx by (rule tick_turn)
  then have wd: "word_of_nat d = x" by simp
  have near: "now < d + TURN" using same_turn_order(2) [OF now(1,2)] dx by linarith
  have "unat x \<le> now mod TURN" using dx d(2) same_turn_order(3) [OF now(1,2)] by linarith
  then have le: "x \<le> word_of_nat now" by (simp only: word_le_nat_alt unat_tick)
  have inv1: "timers_inv n now f ?s" "due now ?s = due l s" using inv_same_turn [OF inv now(2)] by blast+
  have t1: "container_of (timer_store ?s) (Item t) = Some ?c" using t(3) by simp
  obtain r h where rm: "uxListRemove (Item t) (timer_store ?s) = Some (r, h)"
    "timers_inv n now (f(?c := remove1 (Item t) (f ?c))) (?s\<lparr>timer_store := h\<rparr>)" "others_kept t ?s (?s\<lparr>timer_store := h\<rparr>)"
    "container_of h (Item t) = None" "due now (?s\<lparr>timer_store := h\<rparr>) = (due now ?s)(t := None)"
    by (rule remove_timer [OF inv1(1) t(1) t1]) blast
  let ?s1 = "?s\<lparr>timer_store := h\<rparr>"
  have step: "prvProcessTimerOrBlockTask cb x e s = map_option (Pair NoBlock)
      (do { s \<leftarrow> (if uxAutoReload (timer_of ?s1 t) = 1 then do {
             (expired, s) \<leftarrow> prvInsertTimerInActiveList t (x + xTimerPeriodInTicks (timer_of ?s1 t)) (word_of_nat now) x ?s1;
             if expired then restart t x s else Some s }
           else Some ?s1);
         Some (call_back cb t s) })"
    using sample xe(2) le t(2) rm(1) by (simp add: prvProcessTimerOrBlockTask_def prvProcessExpiredTimer_def)
  show ?thesis
  proof (cases "uxAutoReload (timer_of s t) = 1")
    case False
    then have "prvProcessTimerOrBlockTask cb x e s = Some (NoBlock, call_back cb t ?s1)" using step by simp
    moreover have "reloaded now t d s ?s1" using False rm(5) by (simp add: reloaded_def)
    ultimately show ?thesis using rm(2,5) inv1(2) by (intro exI [of _ ?s1]) auto
  next
    case True
    let ?r = "prvInsertTimerInActiveList t (word_of_nat d + xTimerPeriodInTicks (timer_of ?s1 t)) (word_of_nat now) (word_of_nat d) ?s1"
    have c1: "container_of (timer_store ?s1) (Item t) = None" using rm(4) by simp
    have a1: "allocated ?s1 t" using t(4) by simp
    have p1: "?p = unat (xTimerPeriodInTicks (timer_of ?s1 t))" by simp
    note ins = insert_spec [OF rm(2) t(1) a1 c1 p1 d(2) near]
    show ?thesis
    proof (cases "d + ?p \<le> now")
      case True1: True
      let ?s2 = "?s1\<lparr>timer_store := set_value (Item t) (word_of_nat (d + ?p)) (timer_store ?s1)\<rparr>"
      let ?ms = "ms @ [\<lparr>xMessageID = 0, xMessageValue = x, pxTimer = t\<rparr>]"
      have r: "?r = Some (True, ?s2)" using ins True1 by (simp del: of_nat_add)
      have q: "xTimerQueue ?s2 = Some ms" using room(1) by simp
      have i2: "timers_inv n now (f(?c := remove1 (Item t) (f ?c))) ?s2" "due now ?s2 = due now ?s1"
        using inv_set_value [OF rm(2) t(1) c1] by blast+
      have i3: "timers_inv n now (f(?c := remove1 (Item t) (f ?c))) (?s2\<lparr>xTimerQueue := Some ?ms\<rparr>)"
        "due now (?s2\<lparr>xTimerQueue := Some ?ms\<rparr>) = due now ?s2"
        using inv_queue [OF i2(1), of ?ms] room(2) by simp_all
      have "prvProcessTimerOrBlockTask cb x e s = Some (NoBlock, call_back cb t (?s2\<lparr>xTimerQueue := Some ?ms\<rparr>))"
        using step True r restart_spec [OF q room(2), of t x] by (simp add: wd del: of_nat_add)
      moreover have "reloaded now t d s (?s2\<lparr>xTimerQueue := Some ?ms\<rparr>)"
        using True True1 i3(2) i2(2) rm(5) room(1) wd by (simp add: reloaded_def Let_def)
      moreover have "due now (?s2\<lparr>xTimerQueue := Some ?ms\<rparr>) u = due l s u" if "u \<noteq> t" for u
        using that i3(2) i2(2) rm(5) inv1(2) by simp
      ultimately show ?thesis using i3(1) by (intro exI [of _ "?s2\<lparr>xTimerQueue := Some ?ms\<rparr>"]) auto
    next
      case False1: False
      then obtain s' f' where s': "?r = Some (False, s')" "timers_inv n now f' s'" "others_kept t ?s1 s'" "due now s' t = Some (d + ?p)"
        using ins by auto
      have "prvProcessTimerOrBlockTask cb x e s = Some (NoBlock, call_back cb t s')"
        using step True s'(1) by (simp add: wd)
      moreover have "reloaded now t d s s'" using True False1 s'(4) others_kept_simps(3) [OF s'(3)] by (simp add: reloaded_def Let_def)
      moreover have "due now s' u = due l s u" if "u \<noteq> t" for u
        using that others_kept_due [OF s'(3) that] rm(5) inv1(2) by simp
      moreover have "called s' = called s" using others_kept_simps(4) [OF s'(3)] by simp
      ultimately show ?thesis using s'(2) by blast
    qed
  qed
qed

section \<open>The end of a turn\<close>

text \<open>Callbacks that send no command.\<close>

definition quiet :: "callbacks \<Rightarrow> bool" where
  "quiet cb \<longleftrightarrow> harmless cb \<and> (\<forall>g t s. xTimerQueue (cb g t s) = xTimerQueue s)"

lemma quiet_queue: "quiet cb \<Longrightarrow> xTimerQueue (call_back cb t s) = xTimerQueue s"
  by (simp add: quiet_def call_back_def)

text \<open>
  The calls that a timer with an expiry at \<open>d\<close> still gets before the time \<open>e\<close>, and when the last one is due.
\<close>

definition period_of :: "timer_service \<Rightarrow> nat \<Rightarrow> nat" where
  "period_of s t = unat (xTimerPeriodInTicks (timer_of s t))"

definition reloads :: "timer_service \<Rightarrow> nat \<Rightarrow> bool" where
  "reloads s t \<longleftrightarrow> uxAutoReload (timer_of s t) = 1"

definition calls_before :: "nat \<Rightarrow> timer_service \<Rightarrow> nat \<Rightarrow> nat \<Rightarrow> nat" where
  "calls_before e s t d = (if reloads s t then (e - 1 - d) div period_of s t + 1 else 1)"

definition last_before :: "nat \<Rightarrow> timer_service \<Rightarrow> nat \<Rightarrow> nat \<Rightarrow> nat" where
  "last_before e s t d = d + (e - 1 - d) div period_of s t * period_of s t"

lemma calls_step:
  assumes "0 < p" "d + p < (e::nat)"
  shows "(e - 1 - d) div p = (e - 1 - (d + p)) div p + 1"
proof -
  have "e - 1 - d = (e - 1 - (d + p)) + p" using assms(2) by simp
  then show ?thesis using assms(1) by (simp only: div_add_self2)
qed

text \<open>What the loop does to the current list \<open>xs\<close>: every timer on it is called as often as it was due, and then is on no list.\<close>

definition all_called :: "nat \<Rightarrow> nat \<Rightarrow> timer_service \<Rightarrow> timer_service \<Rightarrow> bool" where
  "all_called n l s s' \<longleftrightarrow> (\<exists>cs ms. called s' = called s @ cs \<and> xTimerQueue s' = map_option (\<lambda>q. q @ ms) (xTimerQueue s) \<and>
     (\<forall>t. count_list cs t = (case due l s t of None \<Rightarrow> 0
        | Some d \<Rightarrow> if t < n \<and> d < turn l + TURN then calls_before (turn l + TURN) s t d else 0)) \<and>
     (\<forall>m. m \<in> set ms \<longleftrightarrow> (\<exists>t<n. \<exists>d. due l s t = Some d \<and> d < turn l + TURN \<and> reloads s t \<and>
        m = \<lparr>xMessageID = tmrCOMMAND_START_DONT_TRACE, xMessageValue = word_of_nat (last_before (turn l + TURN) s t d), pxTimer = t\<rparr>))) \<and>
     (\<forall>t<n. due l s' t = (case due l s t of None \<Rightarrow> None | Some d \<Rightarrow> if d < turn l + TURN then None else Some d)) \<and>
     (\<forall>t. period_of s' t = period_of s t \<and> reloads s' t = reloads s t) \<and> allocated s' = allocated s \<and>
     pxCurrentTimerList s' = pxCurrentTimerList s \<and> pxOverflowTimerList s' = pxOverflowTimerList s"

text \<open>The timers of the current list are those that expire in this turn.\<close>

lemma due_in_turn:
  assumes inv: "timers_inv n l f s" and t: "t < n"
  shows "Item t \<in> set (f (pxCurrentTimerList s)) \<longleftrightarrow> (\<exists>d. due l s t = Some d \<and> d < turn l + TURN)"
proof -
  let ?c = "pxCurrentTimerList s"
  have c: "?c \<in> {0, 1}" using inv by (auto simp: timers_inv_def)
  have h: "holds {0, 1} n (timer_store s) f" using inv by (simp add: timers_inv_def)
  have "Item t \<in> set (f ?c) \<longleftrightarrow> container_of (timer_store s) (Item t) = Some ?c" using holds_container [OF h t c] by simp
  also have "\<dots> \<longleftrightarrow> (\<exists>d. due l s t = Some d \<and> d < turn l + TURN)"
    using unat_tick_less by (auto simp: due_def split: option.splits if_splits)
  finally show ?thesis .
qed

definition late :: "nat \<Rightarrow> (nat \<Rightarrow> ptr list) \<Rightarrow> timer_service \<Rightarrow> nat" where
  "late l f s = sum_list (map (\<lambda>q. TURN - unat (value_of (timer_store s) q)) (f (pxCurrentTimerList s)))"

definition to_restart :: "(nat \<Rightarrow> ptr list) \<Rightarrow> timer_service \<Rightarrow> nat" where
  "to_restart f s = length (filter (\<lambda>q. \<exists>t. q = Item t \<and> reloads s t) (f (pxCurrentTimerList s)))"

lemma all_called_none:
  assumes "timers_inv n l f s" "f (pxCurrentTimerList s) = []"
  shows "all_called n l s s"
proof -
  have "turn l + TURN \<le> d" if "t < n" "due l s t = Some d" for t d
    by (rule due_current [OF assms that])
  then have none: "\<not> (t < n \<and> d < turn l + TURN)" if "due l s t = Some d" for t d using that not_less by blast
  show ?thesis unfolding all_called_def
    by (intro conjI exI [of _ "[]"] allI impI refl)
      (use none in \<open>auto simp: option.map_ident split: option.splits\<close>)
qed

text \<open>One timer of the list, and then the others.\<close>

lemma all_called_step:
  assumes rest: "all_called n l s1 s'" and t: "t < n" and d: "due l s t = Some d" "d < turn l + TURN"
    and same: "\<And>u. u \<noteq> t \<Longrightarrow> due l s1 u = due l s u" "\<And>u. period_of s1 u = period_of s u" "\<And>u. reloads s1 u = reloads s u"
      "allocated s1 = allocated s" "pxCurrentTimerList s1 = pxCurrentTimerList s" "pxOverflowTimerList s1 = pxOverflowTimerList s"
      "called s1 = called s @ [t]" and p: "0 < period_of s t"
    and t1: "if \<not> reloads s t then due l s1 t = None \<and> xTimerQueue s1 = xTimerQueue s
      else if d + period_of s t < turn l + TURN then due l s1 t = Some (d + period_of s t) \<and> xTimerQueue s1 = xTimerQueue s
      else due l s1 t = None \<and> xTimerQueue s1 =
        map_option (\<lambda>ms. ms @ [\<lparr>xMessageID = tmrCOMMAND_START_DONT_TRACE, xMessageValue = word_of_nat d, pxTimer = t\<rparr>]) (xTimerQueue s)"
  shows "all_called n l s s'"
proof -
  let ?e = "turn l + TURN"
  let ?msg = "\<lambda>v. \<lparr>xMessageID = tmrCOMMAND_START_DONT_TRACE, xMessageValue = word_of_nat v, pxTimer = t\<rparr>"
  have cb: "calls_before ?e s1 = calls_before ?e s" "last_before ?e s1 = last_before ?e s"
    by (simp_all add: calls_before_def last_before_def fun_eq_iff same(2,3))
  obtain cs ms where r: "called s' = called s1 @ cs" "xTimerQueue s' = map_option (\<lambda>q. q @ ms) (xTimerQueue s1)"
    "\<And>u. count_list cs u = (case due l s1 u of None \<Rightarrow> 0 | Some d \<Rightarrow> if u < n \<and> d < ?e then calls_before ?e s u d else 0)"
    "\<And>m. m \<in> set ms \<longleftrightarrow> (\<exists>u<n. \<exists>d. due l s1 u = Some d \<and> d < ?e \<and> reloads s u \<and>
        m = \<lparr>xMessageID = tmrCOMMAND_START_DONT_TRACE, xMessageValue = word_of_nat (last_before ?e s u d), pxTimer = u\<rparr>)"
    "\<And>u. u < n \<Longrightarrow> due l s' u = (case due l s1 u of None \<Rightarrow> None | Some d \<Rightarrow> if d < ?e then None else Some d)"
    and keep: "\<And>u. period_of s' u = period_of s u \<and> reloads s' u = reloads s u" "allocated s' = allocated s"
      "pxCurrentTimerList s' = pxCurrentTimerList s" "pxOverflowTimerList s' = pxOverflowTimerList s"
    using rest unfolding all_called_def cb same(2-6) by blast
  define ms0 where "ms0 = (if reloads s t \<and> \<not> d + period_of s t < ?e then [?msg d] else [])"
  have q: "xTimerQueue s1 = map_option (\<lambda>q. q @ ms0) (xTimerQueue s)"
    using t1 by (auto simp: ms0_def option.map_ident split: if_splits)
  have "xTimerQueue s' = map_option (\<lambda>q. q @ (ms0 @ ms)) (xTimerQueue s)" unfolding r(2) q by (cases "xTimerQueue s") simp_all
  moreover have "called s' = called s @ (t # cs)" using r(1) same(7) by simp
  moreover have "count_list (t # cs) u = (case due l s u of None \<Rightarrow> 0 | Some d \<Rightarrow> if u < n \<and> d < ?e then calls_before ?e s u d else 0)" for u
  proof (cases "u = t")
    case True
    have small: "(?e - 1 - d) div period_of s t = 0" if "\<not> d + period_of s t < ?e" using that d(2) by (intro div_less) linarith
    show ?thesis unfolding True using t t1 d r(3) [of t] small calls_step [OF p, of d ?e]
      by (auto simp: calls_before_def split: if_splits)
  next
    case False
    then show ?thesis using r(3) [of u] same(1) [OF False] by simp
  qed
  moreover have "m \<in> set (ms0 @ ms) \<longleftrightarrow> (\<exists>u<n. \<exists>d. due l s u = Some d \<and> d < ?e \<and> reloads s u \<and>
        m = \<lparr>xMessageID = tmrCOMMAND_START_DONT_TRACE, xMessageValue = word_of_nat (last_before ?e s u d), pxTimer = u\<rparr>)" for m
  proof -
    have last: "last_before ?e s t d = (if d + period_of s t < ?e then last_before ?e s t (d + period_of s t) else d)"
    proof (cases "d + period_of s t < ?e")
      case True
      then show ?thesis using calls_step [OF p True] by (simp add: last_before_def)
    next
      case False
      then have "(?e - 1 - d) div period_of s t = 0" using d(2) by (intro div_less) linarith
      then show ?thesis using False by (simp add: last_before_def)
    qed
    let ?P = "\<lambda>x u d. due l x u = Some d \<and> d < ?e \<and> reloads s u \<and>
        m = \<lparr>xMessageID = tmrCOMMAND_START_DONT_TRACE, xMessageValue = word_of_nat (last_before ?e s u d), pxTimer = u\<rparr>"
    have "(\<exists>u<n. \<exists>d. ?P x u d) \<longleftrightarrow> (\<exists>d. ?P x t d) \<or> (\<exists>u<n. u \<noteq> t \<and> (\<exists>d. ?P x u d))" for x using t by blast
    moreover have "(\<exists>u<n. u \<noteq> t \<and> (\<exists>d. ?P s1 u d)) \<longleftrightarrow> (\<exists>u<n. u \<noteq> t \<and> (\<exists>d. ?P s u d))" using same(1) by auto
    moreover have "m \<in> set ms0 \<or> (\<exists>d. ?P s1 t d) \<longleftrightarrow> (\<exists>d. ?P s t d)"
      using t1 d last by (auto simp: ms0_def split: if_splits)
    ultimately show ?thesis using r(4) [of m] by (simp only: set_append Un_iff) blast
  qed
  moreover have "due l s' u = (case due l s u of None \<Rightarrow> None | Some d \<Rightarrow> if d < ?e then None else Some d)" if "u < n" for u
    using r(5) [OF that] same(1) [of u] t1 d by (cases "u = t") (auto split: if_splits)
  ultimately show ?thesis unfolding all_called_def using keep by blast
qed

lemma others_kept_value:
  "others_kept t s s' \<Longrightarrow> q \<noteq> Item t \<Longrightarrow> value_of (timer_store s') q = value_of (timer_store s) q"
  by (auto simp: others_kept_def)

lemma quiet_step:
  assumes cb: "quiet cb" and inv: "timers_inv n l f s" and t: "t < n" "container_of (timer_store s) (Item t) = Some m"
  obtains r h where "uxListRemove (Item t) (timer_store s) = Some (r, h)"
    "timers_inv n l (f(m := remove1 (Item t) (f m))) (call_back cb t (s\<lparr>timer_store := h\<rparr>))"
    "due l (call_back cb t (s\<lparr>timer_store := h\<rparr>)) = (due l s)(t := None)"
    "container_of (timer_store (call_back cb t (s\<lparr>timer_store := h\<rparr>))) (Item t) = None"
    "\<And>q. value_of (timer_store (call_back cb t (s\<lparr>timer_store := h\<rparr>))) q = value_of (timer_store s) q"
    "xTimerQueue (call_back cb t (s\<lparr>timer_store := h\<rparr>)) = xTimerQueue s"
    "called (call_back cb t (s\<lparr>timer_store := h\<rparr>)) = called s @ [t]"
    "allocated (call_back cb t (s\<lparr>timer_store := h\<rparr>)) = allocated s"
    "pxCurrentTimerList (call_back cb t (s\<lparr>timer_store := h\<rparr>)) = pxCurrentTimerList s"
    "pxOverflowTimerList (call_back cb t (s\<lparr>timer_store := h\<rparr>)) = pxOverflowTimerList s"
    "\<And>u. period_of (call_back cb t (s\<lparr>timer_store := h\<rparr>)) u = period_of s u"
    "\<And>u. reloads (call_back cb t (s\<lparr>timer_store := h\<rparr>)) u = reloads s u"
proof -
  have hl: "harmless cb" using cb by (simp add: quiet_def)
  obtain r h where rm: "uxListRemove (Item t) (timer_store s) = Some (r, h)"
    "timers_inv n l (f(m := remove1 (Item t) (f m))) (s\<lparr>timer_store := h\<rparr>)" "others_kept t s (s\<lparr>timer_store := h\<rparr>)"
    "container_of h (Item t) = None" "due l (s\<lparr>timer_store := h\<rparr>) = (due l s)(t := None)"
    by (rule remove_timer [OF inv t])
  have v: "value_of h q = value_of (timer_store s) q" for q using remove_spec [OF inv t] rm(1) by auto
  show thesis
    by (rule that [OF rm(1)])
      (use rm inv_call_back [OF hl rm(2)] quiet_queue [OF cb] v in \<open>simp_all add: harmlessD [OF hl] period_of_def reloads_def\<close>)
qed

lemma switch_loop_spec:
  assumes "quiet cb" and b: "b \<le> configTIMER_QUEUE_LENGTH"
  shows "timers_inv n l f s \<Longrightarrow> xTimerQueue s = Some ms \<Longrightarrow> length ms + to_restart f s \<le> b \<Longrightarrow>
    \<exists>s' f'. switch_loop cb s = Some s' \<and> timers_inv n l f' s' \<and> f' (pxCurrentTimerList s) = [] \<and> all_called n l s s' \<and>
      length (the (xTimerQueue s')) \<le> b"
proof (induction "late l f s" arbitrary: s f ms rule: less_induct)
  case less
  note inv = less.prems(1)
  let ?c = "pxCurrentTimerList s" and ?e = "turn l + TURN"
  have c: "?c \<in> {0, 1}" using inv by (auto simp: timers_inv_def)
  show ?case
  proof (cases "f ?c")
    case Nil
    then have "list_empty ?c (timer_store s)" using head_spec(1) [OF inv c] by simp
    then have "switch_loop cb s = Some s" by (subst switch_loop.simps) simp
    then show ?thesis using inv Nil all_called_none [OF inv Nil] less.prems(2,3) by auto
  next
    case (Cons y xs)
    then obtain t where t: "y = Item t" "t < n" "head_item ?c (timer_store s) = Item t" "container_of (timer_store s) (Item t) = Some ?c"
      "allocated s t"
      using head_spec(2) [OF inv c Cons] by auto
    note cur = Cons [unfolded t(1)]
    define x where "x = value_of (timer_store s) (Item t)"
    define p where "p = period_of s t"
    define d where "d = turn l + unat x"
    have d: "due l s t = Some d" "d < ?e" "(word_of_nat d :: tick) = x"
    proof -
      show "due l s t = Some d" using t(4) by (simp add: due_def d_def x_def)
      show "d < ?e" using unat_tick_less [of x] by (simp add: d_def)
      have "(word_of_nat d :: tick) = word_of_nat (unat x)" unfolding d_def by (rule tick_turn)
      then show "(word_of_nat d :: tick) = x" by simp
    qed
    have pw: "xTimerPeriodInTicks (timer_of s t) = word_of_nat p" "0 < p" "p < TURN"
    proof -
      have "xTimerPeriodInTicks (timer_of s t) > 0" using inv t(2,5) by (simp add: timers_inv_def)
      then show "0 < p" by (simp add: p_def period_of_def unat_gt_0 word_neq_0_conv)
      show "xTimerPeriodInTicks (timer_of s t) = word_of_nat p" "p < TURN" using unat_tick_less by (simp_all add: p_def period_of_def)
    qed
    obtain r h where q: "uxListRemove (Item t) (timer_store s) = Some (r, h)"
      "timers_inv n l (f(?c := remove1 (Item t) (f ?c))) (call_back cb t (s\<lparr>timer_store := h\<rparr>))"
      "due l (call_back cb t (s\<lparr>timer_store := h\<rparr>)) = (due l s)(t := None)"
      "container_of (timer_store (call_back cb t (s\<lparr>timer_store := h\<rparr>))) (Item t) = None"
      "\<And>q. value_of (timer_store (call_back cb t (s\<lparr>timer_store := h\<rparr>))) q = value_of (timer_store s) q"
      "xTimerQueue (call_back cb t (s\<lparr>timer_store := h\<rparr>)) = xTimerQueue s"
      "called (call_back cb t (s\<lparr>timer_store := h\<rparr>)) = called s @ [t]"
      "allocated (call_back cb t (s\<lparr>timer_store := h\<rparr>)) = allocated s"
      "pxCurrentTimerList (call_back cb t (s\<lparr>timer_store := h\<rparr>)) = ?c"
      "pxOverflowTimerList (call_back cb t (s\<lparr>timer_store := h\<rparr>)) = pxOverflowTimerList s"
      "\<And>u. period_of (call_back cb t (s\<lparr>timer_store := h\<rparr>)) u = period_of s u"
      "\<And>u. reloads (call_back cb t (s\<lparr>timer_store := h\<rparr>)) u = reloads s u"
      using quiet_step [OF assms(1) inv t(2,4)] by blast
    define s1 where "s1 = call_back cb t (s\<lparr>timer_store := h\<rparr>)"
    note q = q [folded s1_def]
    have rm: "remove1 (Item t) (f ?c) = xs" using cur by simp
    define f1 where "f1 = f(?c := xs)"
    have inv1: "timers_inv n l f1 s1" using q(2) by (simp add: rm f1_def)
    have late1: "late l f s = late l f1 s1 + (TURN - unat x)" by (simp add: late_def cur q(5,9) x_def f1_def)
    have rs1: "to_restart f s = (if reloads s t then 1 else 0) + to_restart f1 s1"
      by (simp add: to_restart_def cur q(9,12) f1_def)
    have "unat x < TURN" by (rule unat_tick_less)
    have ne: "\<not> list_empty ?c (timer_store s)" using head_spec(1) [OF inv c] cur by simp
    have step: "switch_loop cb s =
      (if reloads s t then
         if x + word_of_nat p > x then
           Option.bind (vListInsert ?c (Item t) (set_value (Item t) (x + word_of_nat p) (timer_store s1)))
             (\<lambda>h. switch_loop cb (s1\<lparr>timer_store := h\<rparr>))
         else Option.bind (restart t x s1) (switch_loop cb)
       else switch_loop cb s1)"
    proof -
      have "uxAutoReload (timer_of s1 t) = 1 \<longleftrightarrow> reloads s t" using q(12) [of t] by (simp add: reloads_def)
      moreover have "(word_of_nat (unat (xTimerPeriodInTicks (timer_of s1 t))) :: tick) = word_of_nat p"
        using q(11) [of t] by (simp add: p_def period_of_def del: of_nat_unat)
      then have "xTimerPeriodInTicks (timer_of s1 t) = word_of_nat p" by simp
      ultimately show ?thesis using ne t(3) q(1,9) by (subst switch_loop.simps) (simp add: s1_def [symmetric] x_def [symmetric] Let_def)
    qed
    have finish: ?thesis
      if s2: "switch_loop cb s = switch_loop cb s2" "timers_inv n l f2 s2" "late l f2 s2 < late l f s" "xTimerQueue s2 = Some ms2"
        "length ms2 + to_restart f2 s2 \<le> b"
        and same: "\<And>u. u \<noteq> t \<Longrightarrow> due l s2 u = due l s u" "\<And>u. period_of s2 u = period_of s u" "\<And>u. reloads s2 u = reloads s u"
          "allocated s2 = allocated s" "pxCurrentTimerList s2 = ?c" "pxOverflowTimerList s2 = pxOverflowTimerList s"
          "called s2 = called s @ [t]"
        and t2: "if \<not> reloads s t then due l s2 t = None \<and> xTimerQueue s2 = xTimerQueue s
          else if d + period_of s t < ?e then due l s2 t = Some (d + period_of s t) \<and> xTimerQueue s2 = xTimerQueue s
          else due l s2 t = None \<and> xTimerQueue s2 =
            map_option (\<lambda>ms. ms @ [\<lparr>xMessageID = tmrCOMMAND_START_DONT_TRACE, xMessageValue = word_of_nat d, pxTimer = t\<rparr>]) (xTimerQueue s)"
      for s2 f2 ms2
    proof -
      obtain s' f' where r: "switch_loop cb s2 = Some s'" "timers_inv n l f' s'" "f' ?c = []" "all_called n l s2 s'"
        "length (the (xTimerQueue s')) \<le> b"
        using less.hyps [OF s2(3,2,4,5)] same(5) by auto
      have "0 < period_of s t" using pw(2) p_def by simp
      from all_called_step [OF r(4) t(2) d(1,2) same this t2] show ?thesis using s2(1) r by auto
    qed
    show ?thesis
    proof (cases "reloads s t")
      case False
      show ?thesis
        by (rule finish [of s1 f1 ms])
          (use step False inv1 late1 \<open>unat x < TURN\<close> q less.prems(2,3) rs1 in \<open>simp_all\<close>)
    next
      case True
      have wx: "x + word_of_nat p > x \<longleftrightarrow> d + p < ?e"
      proof -
        have "x + word_of_nat p = word_of_nat (unat x + p)" by simp
        then have "unat (x + word_of_nat p) = (unat x + p) mod TURN" by (simp only: unat_tick)
        moreover have "(unat x + p) mod TURN = (if unat x + p < TURN then unat x + p else unat x + p - TURN)"
          using \<open>unat x < TURN\<close> pw(3) by (simp add: le_mod_geq)
        ultimately show ?thesis using pw(2,3) \<open>unat x < TURN\<close> by (simp only: word_less_nat_alt d_def) (simp split: if_splits)
      qed
      show ?thesis
      proof (cases "d + p < ?e")
        case early: True
        obtain h2 pre suf where i: "vListInsert ?c (Item t) (set_value (Item t) (x + word_of_nat p) (timer_store s1)) = Some h2"
          "f1 ?c = pre @ suf" "timers_inv n l (f1(?c := pre @ Item t # suf)) (s1\<lparr>timer_store := h2\<rparr>)"
          "others_kept t s1 (s1\<lparr>timer_store := h2\<rparr>)" "container_of h2 (Item t) = Some ?c" "value_of h2 (Item t) = x + word_of_nat p"
          using insert_into [OF inv1 t(2) _ q(4) c, of "x + word_of_nat p"] t(5) q(8) by auto
        have xs: "xs = pre @ suf" using i(2) by (simp add: f1_def)
        have nin: "Item t \<notin> set xs"
          using holds_distinct [of "{0, 1}" n "timer_store s" f ?c] inv c cur by (simp add: timers_inv_def)
        have v: "value_of h2 y = value_of (timer_store s1) y" if "y \<in> set xs" for y
          using others_kept_value [OF i(4), of y] that nin by auto
        have ux: "unat (x + word_of_nat p) = unat x + p"
        proof -
          have "unat x + p < TURN" using early by (simp add: d_def)
          moreover have "x + word_of_nat p = word_of_nat (unat x + p)" by simp
          ultimately show ?thesis by (simp only: unat_tick) simp
        qed
        have m: "map (\<lambda>y. TURN - unat (value_of h2 y)) pre = map (\<lambda>y. TURN - unat (value_of (timer_store s1) y)) pre"
          "map (\<lambda>y. TURN - unat (value_of h2 y)) suf = map (\<lambda>y. TURN - unat (value_of (timer_store s1) y)) suf"
          using v xs by simp_all
        have "late l (f1(?c := pre @ Item t # suf)) (s1\<lparr>timer_store := h2\<rparr>) = late l f1 s1 + (TURN - (unat x + p))"
          unfolding late_def by (simp add: q(9) m i(6) ux f1_def xs del: map_eq_conv)
        then have lt: "late l (f1(?c := pre @ Item t # suf)) (s1\<lparr>timer_store := h2\<rparr>) < late l f s"
          using late1 pw(2) \<open>unat x < TURN\<close> early by (simp add: d_def)
        have rs: "to_restart (f1(?c := pre @ Item t # suf)) (s1\<lparr>timer_store := h2\<rparr>) = to_restart f s"
          using rs1 True q(12) [of t] by (simp add: to_restart_def q(9) f1_def xs reloads_def)
        have "due l (s1\<lparr>timer_store := h2\<rparr>) t = Some (d + p)" by (simp add: due_def i(5,6) q(9) ux d_def)
        then show ?thesis using step True wx early i(1) lt rs less.prems(2,3) q others_kept_due [OF i(4)]
          by (intro finish [of "s1\<lparr>timer_store := h2\<rparr>" "f1(?c := pre @ Item t # suf)" ms])
            (simp_all add: i(3) p_def period_of_def reloads_def)
      next
        case False
        let ?ms = "ms @ [\<lparr>xMessageID = 0, xMessageValue = x, pxTimer = t\<rparr>]"
        have room: "length ms < configTIMER_QUEUE_LENGTH" using less.prems(3) rs1 True b by simp
        have rst: "restart t x s1 = Some (s1\<lparr>xTimerQueue := Some ?ms\<rparr>)"
          by (rule restart_spec) (use room q(6) less.prems(2) in simp_all)
        have i2: "timers_inv n l f1 (s1\<lparr>xTimerQueue := Some ?ms\<rparr>)" "due l (s1\<lparr>xTimerQueue := Some ?ms\<rparr>) = due l s1"
          using inv_queue [OF inv1, of ?ms] room by simp_all
        have "late l f1 (s1\<lparr>xTimerQueue := Some ?ms\<rparr>) < late l f s" using late1 \<open>unat x < TURN\<close> by (simp add: late_def)
        moreover have "length ?ms + to_restart f1 (s1\<lparr>xTimerQueue := Some ?ms\<rparr>) \<le> b"
          using less.prems(3) rs1 True by (simp add: to_restart_def reloads_def)
        ultimately show ?thesis using step True wx False rst less.prems(2) q i2 d(3)
          by (intro finish [of "s1\<lparr>xTimerQueue := Some ?ms\<rparr>" f1 ?ms])
            (simp_all add: p_def period_of_def reloads_def)
      qed
    qed
  qed
qed

section \<open>Looking at the clock\<close>

text \<open>
  When the tick count has wrapped, every timer that was due before is called as often as it was due, each one with reload is started
  again from its last expiry, and the timers of the new turn keep their expiry times. When it has not, nothing changes.
\<close>

definition command_start :: "nat \<Rightarrow> nat \<Rightarrow> message" where
  "command_start t c = \<lparr>xMessageID = tmrCOMMAND_START_DONT_TRACE, xMessageValue = word_of_nat c, pxTimer = t\<rparr>"

definition caught_up :: "nat \<Rightarrow> nat \<Rightarrow> nat \<Rightarrow> timer_service \<Rightarrow> nat list \<Rightarrow> message list \<Rightarrow> bool" where
  "caught_up n l now s cs ms \<longleftrightarrow>
     (\<forall>u. count_list cs u = (case due l s u of None \<Rightarrow> 0
        | Some d \<Rightarrow> if u < n \<and> d < turn now then calls_before (turn now) s u d else 0)) \<and>
     (\<forall>m. m \<in> set ms \<longleftrightarrow> (\<exists>u<n. \<exists>d. due l s u = Some d \<and> d < turn now \<and> reloads s u \<and>
        m = command_start u (last_before (turn now) s u d)))"

definition due_later :: "nat \<Rightarrow> nat option \<Rightarrow> nat option" where
  "due_later now d = (case d of None \<Rightarrow> None | Some e \<Rightarrow> if e < turn now then None else Some e)"

lemma sample_spec:
  assumes "timers_inv n l f s" "quiet cb" "l \<le> now" "now < l + TURN" "xTickCount s = word_of_nat now"
    "xTimerQueue s = Some ms" "length ms + (if turn now = turn l then 0 else to_restart f s) \<le> b" "b \<le> configTIMER_QUEUE_LENGTH"
  shows "\<exists>sw s' f' cs ms'. prvSampleTimeNow cb s = Some (word_of_nat now, sw, s') \<and> timers_inv n now f' s' \<and>
    called s' = called s @ cs \<and> xTimerQueue s' = Some (ms @ ms') \<and> length (ms @ ms') \<le> b \<and>
    caught_up n l now s cs ms' \<and>
    (\<forall>t<n. due now s' t = due_later now (due l s t)) \<and>
    (\<forall>t. period_of s' t = period_of s t \<and> reloads s' t = reloads s t) \<and> allocated s' = allocated s"
proof (cases "turn now = turn l")
  case True
  let ?s = "s\<lparr>xLastTime := word_of_nat now\<rparr>"
  have sample: "prvSampleTimeNow cb s = Some (word_of_nat now, False, ?s)"
    using same_turn_order(1) [OF assms(3) True] assms(1,5) by (simp add: prvSampleTimeNow_def timers_inv_def Let_def)
  have ge: "turn now \<le> d" if "due l s u = Some d" for u d using that True by (auto simp: due_def split: option.splits)
  then have none: "\<not> d < turn now" if "due l s u = Some d" for u d using that not_less by blast
  have "caught_up n l now s [] []" using none by (auto simp: caught_up_def split: option.splits)
  moreover have "due_later now (due l s u) = due l s u" for u
    using none by (simp add: due_later_def split: option.splits)
  ultimately show ?thesis
    using sample inv_same_turn [OF assms(1) True] assms(6,7) True
    by (intro exI [of _ False] exI [of _ ?s] exI [of _ f] exI [of _ "[]"]) (simp add: period_of_def reloads_def)
next
  case False
  have tn: "turn now = turn l + TURN" "now mod TURN < l mod TURN" using turn_cases [OF assms(3,4)] False by blast+
  have less: "(word_of_nat now :: tick) < word_of_nat l" using tn(2) by (simp only: word_less_nat_alt unat_tick)
  have room: "length ms + to_restart f s \<le> b" using assms(7) False by simp
  obtain s1 f1 where r: "switch_loop cb s = Some s1" "timers_inv n l f1 s1" "f1 (pxCurrentTimerList s) = []" "all_called n l s s1"
    "length (the (xTimerQueue s1)) \<le> b"
    using switch_loop_spec [OF assms(2,8,1,6) room] by blast
  let ?s2 = "s1\<lparr>pxCurrentTimerList := pxOverflowTimerList s1, pxOverflowTimerList := pxCurrentTimerList s1, xLastTime := word_of_nat now\<rparr>"
  have "prvSampleTimeNow cb s = Some (word_of_nat now, True, ?s2)"
    using less assms(1,5) r(1) by (simp add: prvSampleTimeNow_def prvSwitchTimerLists_def timers_inv_def Let_def)
  moreover have "timers_inv n now f1 ?s2" using r(2) by (auto simp: timers_inv_def)
  moreover have "due now ?s2 t = due l s1 t" if "t < n" for t
  proof -
    have cur: "pxCurrentTimerList s1 = pxCurrentTimerList s" using r(4) by (auto simp: all_called_def)
    have c: "pxCurrentTimerList s1 \<in> {0, 1}" "{0, 1} = {pxCurrentTimerList s1, pxOverflowTimerList s1}" using r(2) by (auto simp: timers_inv_def)
    have h: "holds {0, 1} n (timer_store s1) f1" using r(2) by (simp add: timers_inv_def)
    have "container_of (timer_store s1) (Item t) \<noteq> Some (pxCurrentTimerList s1)"
      using holds_container [OF h that c(1)] r(3) cur by simp
    moreover have "m \<in> {0, 1}" if "container_of (timer_store s1) (Item t) = Some m" for m
      using h \<open>t < n\<close> that unfolding holds_def by blast
    ultimately show ?thesis using c(2) tn(1) by (auto simp: due_def split: option.split)
  qed
  ultimately show ?thesis
    using r(4,5) assms(6) unfolding all_called_def tn(1) [symmetric] caught_up_def due_later_def command_start_def
    by (auto simp: period_of_def reloads_def)
qed

text \<open>A command first takes its timer off the lists.\<close>

lemma stopped_first:
  assumes "timers_inv n l f s" "t < n" "allocated s t"
  obtains s1 f1 where "(if \<not> allocated s t then None
        else if container_of (timer_store s) (Item t) \<noteq> None then
          map_option (\<lambda>(_, h). s\<lparr>timer_store := h\<rparr>) (uxListRemove (Item t) (timer_store s))
        else Some s) = Some s1" "timers_inv n l f1 s1" "due l s1 = (due l s)(t := None)"
    "others_kept t s s1" "to_restart f1 s1 \<le> to_restart f s"
proof (cases "container_of (timer_store s) (Item t)")
  case None
  then have "due l s = (due l s)(t := None)" by (simp add: due_def fun_eq_iff)
  moreover have "others_kept t s s" by (auto simp: others_kept_def intro: exI [of _ "timer_store s"])
  ultimately show thesis using that [of s f] None assms(1,3) by simp
next
  case (Some k)
  obtain r h where rm: "uxListRemove (Item t) (timer_store s) = Some (r, h)"
    "timers_inv n l (f(k := remove1 (Item t) (f k))) (s\<lparr>timer_store := h\<rparr>)" "others_kept t s (s\<lparr>timer_store := h\<rparr>)"
    "container_of h (Item t) = None" "due l (s\<lparr>timer_store := h\<rparr>) = (due l s)(t := None)"
    by (rule remove_timer [OF assms(1,2) Some]) blast
  have "length (filter P (remove1 x xs)) \<le> length (filter P xs)" for P and x :: ptr and xs by (induction xs) auto
  then have "to_restart (f(k := remove1 (Item t) (f k))) (s\<lparr>timer_store := h\<rparr>) \<le> to_restart f s"
    by (simp add: to_restart_def reloads_def)
  then show thesis using that [OF _ rm(2)] rm Some assms(3) by simp
qed

section \<open>Properties\<close>

text \<open>
  C27. Within a turn of the tick count: when a timer has expired, the task calls the one that expires first and reloads it exactly one period after
  its expiry, and nothing else changes; when none has, it waits for the first expiry, or for the end of the turn when
  there is none in it.
\<close>

theorem first_timer_is_called:
  assumes "timers_inv n l f s" "harmless cb" "l \<le> now" "turn now = turn l" "xTickCount s = word_of_nat now"
    "prvGetNextExpireTime s = (x, e)" "xTimerQueue s = Some ms" "length ms < configTIMER_QUEUE_LENGTH"
  shows "(\<exists>t<n. \<exists>d. due l s t = Some d \<and> d \<le> now \<and> (\<forall>u<n. \<forall>e. due l s u = Some e \<longrightarrow> d \<le> e) \<and>
      (\<exists>s' f'. prvProcessTimerOrBlockTask cb x e s = Some (NoBlock, call_back cb t s') \<and> called s' = called s \<and>
        timers_inv n now f' s' \<and> (\<forall>u. u \<noteq> t \<longrightarrow> due now s' u = due l s u) \<and> reloaded now t d s s')) \<or>
    (\<forall>t<n. \<forall>d. due l s t = Some d \<longrightarrow> now < d) \<and>
    (\<exists>w. prvProcessTimerOrBlockTask cb x e s = Some (Block w (\<forall>t<n. due l s t = None), s\<lparr>xLastTime := word_of_nat now\<rparr>) \<and>
      (if f (pxCurrentTimerList s) = [] then w = - word_of_nat now
       else \<exists>t<n. \<exists>d. due l s t = Some d \<and> now + unat w = d \<and> (\<forall>u<n. \<forall>e. due l s u = Some e \<longrightarrow> d \<le> e)))"
proof (cases "\<forall>t<n. \<forall>d. due l s t = Some d \<longrightarrow> now < d")
  case True
  then show ?thesis using nothing_due [OF assms(1,3-5) True assms(6)] by blast
next
  case False
  then obtain u e' where u: "u < n" "due l s u = Some e'" "e' \<le> now" by (auto simp: not_less)
  let ?c = "pxCurrentTimerList s"
  have c: "?c \<in> {0, 1}" using assms(1) by (auto simp: timers_inv_def)
  have "e' < turn l + TURN" using u(3) same_turn_order(2) [OF assms(3,4)] by linarith
  then have "Item u \<in> set (f ?c)" using due_in_turn [OF assms(1) u(1)] u(2) by blast
  then obtain y ys where y: "f ?c = y # ys" by (cases "f ?c") auto
  then obtain t where t: "y = Item t" "t < n" using head_spec(2) [OF assms(1) c y] by auto
  note cur = y [unfolded t(1)]
  obtain d where d: "due l s t = Some d" "d \<le> e'" using due_head [OF assms(1) cur u(1,2)] by blast
  have "d \<le> e" if "v < n" "due l s v = Some e" for v e using due_head [OF assms(1) cur that] d(1) by auto
  moreover have "d \<le> now" using d(2) u(3) by simp
  ultimately show ?thesis using first_due [OF assms(1-5) cur d(1) _ assms(6-8)] t(2) d(1) by blast
qed

text \<open>
  C28. A timer that a command of time \<open>c\<close> starts expires one period after \<open>c\<close>, if the command has waited for less than one turn of the
  tick count: before that time it is on the lists with this expiry; from then on it is called at once, and when it reloads, it is
  started again from there. The tick count may have wrapped since the task last looked at it. Then, before, the other timers that were
  due before the wrap are called as often as they were due and started again from their last expiry, and in any case
  the rest of the timers keep their expiry times. The callbacks send no commands and the queue has room for the restarts.
\<close>

theorem started_timer_expires:
  assumes "timers_inv n l f s" "quiet cb" "l \<le> now" "now < l + TURN" "xTickCount s = word_of_nat now"
    "t < n" "allocated s t" "c \<le> now" "now < c + TURN" "xTimerQueue s = Some ms"
    "length ms + (if turn now = turn l then 0 else to_restart f s) < configTIMER_QUEUE_LENGTH"
    "m = \<lparr>xMessageID = k, xMessageValue = word_of_nat c, pxTimer = t\<rparr>"
    "k \<in> {tmrCOMMAND_START_DONT_TRACE, tmrCOMMAND_START, tmrCOMMAND_RESET, tmrCOMMAND_START_FROM_ISR, tmrCOMMAND_RESET_FROM_ISR}"
    "d = c + period_of s t"
  shows "\<exists>s' f' cs ms'. process_command cb m s = Some s' \<and> timers_inv n now f' s' \<and>
    called s' = called s @ cs @ (if now < d then [] else [t]) \<and> due now s' t = (if now < d then Some d else None) \<and>
    xTimerQueue s' = Some (ms @ ms' @ (if \<not> now < d \<and> reloads s t then [command_start t d] else [])) \<and>
    (\<forall>u. count_list cs u = (case due l s u of None \<Rightarrow> 0
       | Some e \<Rightarrow> if u < n \<and> u \<noteq> t \<and> e < turn now then calls_before (turn now) s u e else 0)) \<and>
    (\<forall>x. x \<in> set ms' \<longleftrightarrow> (\<exists>u<n. \<exists>e. u \<noteq> t \<and> due l s u = Some e \<and> e < turn now \<and> reloads s u \<and>
       x = command_start u (last_before (turn now) s u e))) \<and>
    (\<forall>u<n. u \<noteq> t \<longrightarrow> due now s' u = (case due l s u of None \<Rightarrow> None | Some e \<Rightarrow> if e < turn now then None else Some e))"
proof -
  have hl: "harmless cb" using assms(2) by (simp add: quiet_def)
  obtain s1 f1 where s1: "(if \<not> allocated s t then None
        else if container_of (timer_store s) (Item t) \<noteq> None then
          map_option (\<lambda>(_, h). s\<lparr>timer_store := h\<rparr>) (uxListRemove (Item t) (timer_store s))
        else Some s) = Some s1" "timers_inv n l f1 s1" "due l s1 = (due l s)(t := None)"
    "others_kept t s s1" "to_restart f1 s1 \<le> to_restart f s"
    by (rule stopped_first [OF assms(1,6,7)]) blast
  note k1 = others_kept_simps [OF s1(4)]
  have p1: "period_of s1 u = period_of s u" "reloads s1 u = reloads s u" for u using k1(1) by (simp_all add: period_of_def reloads_def)
  have room: "length ms + (if turn now = turn l then 0 else to_restart f1 s1) \<le> 9" using assms(11) s1(5) by auto
  obtain sw s2 f2 cs ms' where s2: "prvSampleTimeNow cb s1 = Some (word_of_nat now, sw, s2)" "timers_inv n now f2 s2"
    "called s2 = called s1 @ cs" "xTimerQueue s2 = Some (ms @ ms')" "length (ms @ ms') \<le> 9" "caught_up n l now s1 cs ms'"
    "\<forall>t<n. due now s2 t = due_later now (due l s1 t)" "\<And>t. period_of s2 t = period_of s1 t" "\<And>t. reloads s2 t = reloads s1 t"
    "allocated s2 = allocated s1"
    using sample_spec [OF s1(2) assms(2-4) _ _ room] k1(3,8) assms(5,10) by auto
  have p2: "period_of s t = unat (xTimerPeriodInTicks (timer_of s2 t))" using s2(8) [of t] p1(1) [of t] by (simp add: period_of_def)
  have r2: "uxAutoReload (timer_of s2 u) = 1 \<longleftrightarrow> reloads s u" for u using s2(9) [of u] p1(2) [of u] by (simp add: reloads_def)
  have a2: "allocated s2 t" using s2(10) k1(2) assms(7) by simp
  have n2: "due now s2 t = None" using s2(7) s1(3) assms(6) by (simp add: due_later_def)
  then have c2: "container_of (timer_store s2) (Item t) = None" by (simp add: due_def split: option.splits)
  let ?r = "prvInsertTimerInActiveList t (word_of_nat c + xTimerPeriodInTicks (timer_of s2 t)) (word_of_nat now) (word_of_nat c) s2"
  note ins = insert_spec [OF s2(2) assms(6) a2 c2 p2 assms(8,9), folded assms(14)]
  have d: "word_of_nat c + xTimerPeriodInTicks (timer_of s2 t) = word_of_nat d" by (simp add: p2 assms(14))
  have step: "process_command cb m s = do { (expired, s) \<leftarrow> ?r;
      if expired then
        let s = call_back cb t s in
        if uxAutoReload (timer_of s t) = 1 then restart t (word_of_nat c + xTimerPeriodInTicks (timer_of s t)) s else Some s
      else Some s }"
    using assms(13) s1(1) s2(1) unfolding process_command_def assms(12) message.simps by (auto simp del: not_None_eq)
  have cb: "calls_before e s1 u x = calls_before e s u x" "last_before e s1 u x = last_before e s u x" for e u x
    by (simp_all add: calls_before_def last_before_def p1)
  have counts: "count_list cs u = (case due l s u of None \<Rightarrow> 0
       | Some e \<Rightarrow> if u < n \<and> u \<noteq> t \<and> e < turn now then calls_before (turn now) s u e else 0)" for u
    using s2(6) by (auto simp: caught_up_def s1(3) cb split: option.splits)
  have msgs: "x \<in> set ms' \<longleftrightarrow> (\<exists>u<n. \<exists>e. u \<noteq> t \<and> due l s u = Some e \<and> e < turn now \<and> reloads s u \<and>
       x = command_start u (last_before (turn now) s u e))" for x
    using s2(6) unfolding caught_up_def s1(3) cb p1 by (auto split: if_splits)
  have others: "due now s2 u = (case due l s u of None \<Rightarrow> None | Some e \<Rightarrow> if e < turn now then None else Some e)" if "u < n" "u \<noteq> t" for u
    using s2(7) s1(3) that by (simp add: due_later_def)
  have goal: ?thesis
    if r: "process_command cb m s = Some s'" "timers_inv n now f' s'" "called s' = called s2 @ (if now < d then [] else [t])"
      "due now s' t = (if now < d then Some d else None)" "\<And>u. u \<noteq> t \<Longrightarrow> due now s' u = due now s2 u"
      "xTimerQueue s' = Some ((ms @ ms') @ (if \<not> now < d \<and> reloads s t then [command_start t d] else []))" for s' f'
    using r(1,2,3,4,5,6) s2(3) k1(4) counts msgs others
    by (intro exI [of _ s'] exI [of _ f'] exI [of _ cs] exI [of _ ms']) auto
  show ?thesis
  proof (cases "now < d")
    case True
    then obtain s' f' where s': "?r = Some (False, s')" "timers_inv n now f' s'" "others_kept t s2 s'" "due now s' t = Some d"
      using ins by auto
    have "process_command cb m s = Some s'" using step s'(1) by simp
    then show ?thesis
      using goal [OF _ s'(2)] True s'(4) others_kept_due [OF s'(3)] others_kept_simps(3,4) [OF s'(3)] s2(4) by simp
  next
    case False
    let ?s3 = "s2\<lparr>timer_store := set_value (Item t) (word_of_nat d) (timer_store s2)\<rparr>"
    have r: "?r = Some (True, ?s3)" using ins False by (simp del: of_nat_add)
    have i3: "timers_inv n now f2 ?s3" "due now ?s3 = due now s2" using inv_set_value [OF s2(2) assms(6) c2] by blast+
    let ?s4 = "call_back cb t ?s3"
    have i4: "timers_inv n now f2 ?s4" "due now ?s4 = due now ?s3" using inv_call_back [OF hl i3(1)] by blast+
    have q4: "xTimerQueue ?s4 = Some (ms @ ms')" using quiet_queue [OF assms(2), of t ?s3] s2(4) by simp
    have c4: "called ?s4 = called s2 @ [t]" using harmlessD(6) [OF hl, of t ?s3] by simp
    have r4: "uxAutoReload (timer_of ?s4 t) = 1 \<longleftrightarrow> reloads s t" using harmlessD(8) [OF hl, of t ?s3 t] r2 by simp
    have p4: "word_of_nat c + xTimerPeriodInTicks (timer_of ?s4 t) = word_of_nat d"
      using harmlessD(7) [OF hl, of t ?s3 t] d by simp
    have due4: "due now ?s4 = due now s2" using i4(2) i3(2) by simp
    show ?thesis
    proof (cases "reloads s t")
      case False4: False
      have "process_command cb m s = Some ?s4" using step r r4 False4 by (simp add: Let_def)
      then show ?thesis using goal [OF _ i4(1)] False False4 due4 q4 c4 n2 by simp
    next
      case True4: True
      let ?ms = "(ms @ ms') @ [command_start t d]"
      have "process_command cb m s = Some (?s4\<lparr>xTimerQueue := Some ?ms\<rparr>)"
        using step r r4 True4 p4 restart_spec [OF q4, of t "word_of_nat d"] s2(5) by (simp add: Let_def command_start_def del: of_nat_add)
      moreover have "timers_inv n now f2 (?s4\<lparr>xTimerQueue := Some ?ms\<rparr>)" "due now (?s4\<lparr>xTimerQueue := Some ?ms\<rparr>) = due now ?s4"
        using inv_queue [OF i4(1), of ?ms] s2(5) by simp_all
      ultimately show ?thesis using goal False True4 due4 q4 c4 n2 by simp
    qed
  qed
qed

section \<open>Witnesses\<close>

text \<open>The first timer that is created makes the lists and the queue; then the invariant holds.\<close>

lemma lists_created:
  assumes "xTimerQueue s = None" "\<forall>t. container_of (timer_store s) (Item t) = None" "n < 2 ^ 32"
    and "\<forall>t<n. allocated s t \<longrightarrow> xTimerPeriodInTicks (timer_of s t) > 0" "xLastTime s = word_of_nat l"
  obtains s' where "prvCheckForValidListAndQueue True s = Some s'" "timers_inv n l (\<lambda>_. []) s'" "xTimerQueue s' = Some []"
    "timer_of s' = timer_of s" "allocated s' = allocated s" "called s' = called s"
proof -
  let ?h = "vListInitialise 1 (vListInitialise 0 (timer_store s))"
  have "is_list ?h 1 []" by (rule vListInitialise_is_list)
  moreover have "is_list ?h 0 []"
    by (rule is_list_same [OF _ _ vListInitialise_is_list [of 0 "timer_store s"]])
      (simp_all add: vListInitialise_def Let_def store_simps)
  moreover have "container_of ?h (Item t) = None" for t
    using assms(2) by (simp add: vListInitialise_def Let_def store_simps)
  ultimately have "holds {0, 1} n ?h (\<lambda>_. [])" using assms(3) by (simp add: holds_def)
  let ?s = "s\<lparr>timer_store := ?h, pxCurrentTimerList := 0, pxOverflowTimerList := 1, xTimerQueue := Some []\<rparr>"
  have "prvCheckForValidListAndQueue True s = Some ?s" using assms(1) by (simp add: prvCheckForValidListAndQueue_def Let_def)
  moreover have "timers_inv n l (\<lambda>_. []) ?s"
    using \<open>holds {0, 1} n ?h (\<lambda>_. [])\<close> \<open>\<And>t. container_of ?h (Item t) = None\<close> assms(4,5) by (simp add: timers_inv_def)
  ultimately show thesis using that [of ?s] by simp
qed

text \<open>One timer, which reloads with a period of five ticks.\<close>

definition one_timer :: "tick \<Rightarrow> timer_service" where
  "one_timer now = \<lparr>timer_store = \<lparr>items = (\<lambda>_. \<lparr>xItemValue = 0, pxNext = End 9, pxPrevious = End 9, pvContainer = None\<rparr>),
       lists = (\<lambda>_. \<lparr>uxNumberOfItems = 0, pxIndex = End 9\<rparr>)\<rparr>,
     timer_of = (\<lambda>_. \<lparr>pcTimerName = ''t'', xTimerPeriodInTicks = 5, uxAutoReload = 1, pvTimerID = 0, pxCallbackFunction = 0\<rparr>),
     allocated = (\<lambda>t. t = 0), pxCurrentTimerList = 0, pxOverflowTimerList = 1, xTimerQueue = None, xLastTime = now, xTickCount = now,
     called = []\<rparr>"

abbreviation (input) no_effect :: callbacks where "no_effect \<equiv> \<lambda>_ _ s. s"

lemma quiet_no_effect: "quiet no_effect"
  by (simp add: quiet_def harmless_def)

lemma one_timer_created:
  obtains s where "timers_inv 1 l (\<lambda>_. []) s" "xTimerQueue s = Some []" "allocated s 0" "called s = []" "period_of s 0 = 5" "reloads s 0"
    "\<forall>t. due l s t = None" "xTickCount s = word_of_nat l"
proof -
  obtain s where s: "prvCheckForValidListAndQueue True (one_timer (word_of_nat l)) = Some s" "timers_inv 1 l (\<lambda>_. []) s"
    "xTimerQueue s = Some []" "timer_of s = timer_of (one_timer (word_of_nat l))" "allocated s = allocated (one_timer (word_of_nat l))"
    "called s = called (one_timer (word_of_nat l))"
    by (rule lists_created [of "one_timer (word_of_nat l)" 1 l]) (simp_all add: one_timer_def)
  have e: "container_of (timer_store s) (Item t) = None" "xTickCount s = word_of_nat l" for t
    using s(1) by (auto simp: prvCheckForValidListAndQueue_def one_timer_def vListInitialise_def Let_def store_simps)
  show thesis
    by (rule that [of s]) (use s e in \<open>simp_all add: one_timer_def period_of_def reloads_def due_def\<close>)
qed

lemma inv_tick:
  assumes "timers_inv n l f s"
  shows "timers_inv n l f (s\<lparr>xTickCount := k\<rparr>)" "due l (s\<lparr>xTickCount := k\<rparr>) = due l s"
proof -
  show "timers_inv n l f (s\<lparr>xTickCount := k\<rparr>)" using assms by (simp add: timers_inv_def)
  show "due l (s\<lparr>xTickCount := k\<rparr>) = due l s" by (rule ext) (simp add: due_def split: option.split)
qed

text \<open>A start near the end of a turn, carried out in the next one, which the task has not seen begin.\<close>

theorem started_timer_expires_witness:
  "\<exists>s s' f'. xLastTime s = word_of_nat 4294967290 \<and> xTickCount s = word_of_nat 4294967298 \<and>
     process_command no_effect \<lparr>xMessageID = tmrCOMMAND_START, xMessageValue = word_of_nat 4294967295, pxTimer = 0\<rparr> s = Some s' \<and>
     timers_inv 1 4294967298 f' s' \<and> due 4294967298 s' 0 = Some 4294967300"
proof -
  obtain s0 where s0: "timers_inv 1 4294967290 (\<lambda>_. []) s0" "xTimerQueue s0 = Some []" "allocated s0 0" "period_of s0 0 = 5"
    by (rule one_timer_created [of 4294967290])
  let ?s = "s0\<lparr>xTickCount := word_of_nat 4294967298\<rparr>"
  have s: "timers_inv 1 4294967290 (\<lambda>_. []) ?s" "xTimerQueue ?s = Some []" "allocated ?s 0" "4294967300 = 4294967295 + period_of ?s 0"
    "xTickCount ?s = word_of_nat 4294967298"
    using s0 inv_tick [OF s0(1)] by (simp_all add: period_of_def)
  have l: "xLastTime ?s = word_of_nat 4294967290" using s(1) by (simp only: timers_inv_def)
  have r: "length ([] :: message list) + (if turn 4294967298 = turn 4294967290 then 0 else to_restart (\<lambda>_. []) ?s) < 10"
    by (simp add: to_restart_def)
  obtain s' f' where "process_command no_effect \<lparr>xMessageID = tmrCOMMAND_START, xMessageValue = word_of_nat 4294967295, pxTimer = 0\<rparr> ?s = Some s'"
    "timers_inv 1 4294967298 f' s'" "due 4294967298 s' 0 = (if 4294967298 < (4294967300 :: nat) then Some 4294967300 else None)"
    using started_timer_expires [OF s(1) quiet_no_effect _ _ s(5) _ s(3) _ _ s(2) r refl _ s(4), of tmrCOMMAND_START] by auto
  then show ?thesis using l s(5) by (intro exI [of _ ?s] exI [of _ s'] exI [of _ f']) simp
qed

text \<open>The timer is put in the list at tick 3, for a start at tick 1.\<close>

lemma one_timer_started:
  obtains s f where "timers_inv 1 3 f s" "due 3 s 0 = Some 6" "xTimerQueue s = Some []" "period_of s 0 = 5" "reloads s 0"
    "length (f (pxCurrentTimerList s)) \<le> 1"
proof -
  obtain s where s: "timers_inv 1 3 (\<lambda>_. []) s" "xTimerQueue s = Some []" "allocated s 0" "period_of s 0 = 5" "reloads s 0"
    "\<forall>t. due 3 s t = None"
    by (rule one_timer_created [of 3])
  have c: "container_of (timer_store s) (Item 0) = None" using s(6) by (auto simp: due_def split: option.splits)
  obtain s' f where i: "timers_inv 1 3 f s'" "others_kept 0 s s'" "due 3 s' 0 = Some 6"
    using insert_spec [OF s(1) _ s(3) c s(4) [unfolded period_of_def, symmetric], of 1] by auto
  note k = others_kept_simps [OF i(2)]
  have cl: "pxCurrentTimerList s' \<in> {0, 1}" using i(1) by (auto simp: timers_inv_def)
  have h: "holds {0, 1} 1 (timer_store s') f" using i(1) by (simp add: timers_inv_def)
  have "set (f (pxCurrentTimerList s')) \<subseteq> {Item 0}" using h cl by (auto simp: holds_def)
  then have "length (f (pxCurrentTimerList s')) \<le> 1"
    using holds_distinct [OF h cl] by (metis card_mono card.empty card.insert distinct_card empty_iff finite.emptyI finite.insertI One_nat_def)
  then show thesis using that [OF i(1,3)] s(2,4,5) k by (simp add: period_of_def reloads_def)
qed

theorem first_timer_is_called_witness:
  "\<exists>s f x e s' f'. timers_inv 1 3 f s \<and> due 3 s 0 = Some 6 \<and> prvGetNextExpireTime s = (x, e) \<and>
     prvProcessTimerOrBlockTask no_effect x e s = Some (NoBlock, s') \<and> called s' = called s @ [0] \<and> timers_inv 1 7 f' s' \<and>
     due 7 s' 0 = Some 11"
proof -
  obtain s0 f where s0: "timers_inv 1 3 f s0" "due 3 s0 0 = Some 6" "xTimerQueue s0 = Some []" "period_of s0 0 = 5" "reloads s0 0"
    by (rule one_timer_started)
  define s where "s = s0\<lparr>xTickCount := word_of_nat 7\<rparr>"
  have s: "timers_inv 1 3 f s" "due 3 s 0 = Some 6" "xTimerQueue s = Some []" "period_of s 0 = 5" "reloads s 0" "xTickCount s = word_of_nat 7"
    using s0 inv_tick [OF s0(1)] by (simp_all add: s_def period_of_def reloads_def)
  obtain x e where g: "prvGetNextExpireTime s = (x, e)" by fastforce
  have "harmless no_effect" using quiet_no_effect by (simp add: quiet_def)
  from first_timer_is_called [OF s(1) this _ _ s(6) g s(3)] s(2)
  obtain s' f' where r: "prvProcessTimerOrBlockTask no_effect x e s = Some (NoBlock, call_back no_effect 0 s')" "called s' = called s"
    "timers_inv 1 7 f' s'" "reloaded 7 0 6 s s'"
    by (auto simp: turn_def)
  have n: "timers_inv 1 7 f' (call_back no_effect 0 s')" "due 7 (call_back no_effect 0 s') = due 7 s'"
    using inv_call_back [OF \<open>harmless no_effect\<close> r(3)] by blast+
  have "due 7 s' 0 = Some 11" using r(4) s(4,5) by (simp add: reloaded_def period_of_def reloads_def)
  then have "due 7 (call_back no_effect 0 s') 0 = Some 11" using n(2) by simp
  moreover have "called (call_back no_effect 0 s') = called s @ [0]"
    using harmlessD(6) [OF \<open>harmless no_effect\<close>, of 0 s'] r(2) by simp
  ultimately show ?thesis using s(1,2) g r(1) n(1) by blast
qed

end
