(* ===== verification/Format_String.thy ===== *)
theory Format_String
  imports Prelude
begin

text \<open>
  The formatted output of \<open>src/FormatString.c\<close> and \<open>src/Printf.c\<close>: \<open>printf\<close>, \<open>sprintf\<close> and \<open>puts\<close> without the
  conversions of floating point numbers. A string is the list of its characters before the terminating zero; what is
  passed to the output function is a list of characters. \<open>None\<close> is behaviour that C leaves undefined: an overflow of \<open>int\<close>, a write
  outside the buffer of the digits, or an argument of another type than its conversion.
\<close>

section \<open>Arguments and integers\<close>

text \<open>An argument list; \<open>int\<close> and \<open>long\<close> have 32 bits, and the null pointer is no string.\<close>

datatype arg = Int_arg "32 word" | Long_long_arg "64 word" | String_arg "string option"

text \<open>What precedes a conversion.\<close>

record flags =
  positiveprefix :: "string option"
  padright :: bool
  padzero :: bool
  alternate :: bool

section \<open>Parsing\<close>

text \<open>\<open>None\<close> is the result \<open>false\<close>, at the end of the format; the code sets the flags below first.\<close>

definition no_flags :: flags where
  "no_flags = \<lparr>positiveprefix = None, padright = False, padzero = False, alternate = False\<rparr>"

fun ParseFlags :: "flags \<Rightarrow> string \<Rightarrow> (flags \<times> string) option" where
  "ParseFlags s [] = None"
| "ParseFlags s (c # format) =
     (if c = CHR ''#'' then ParseFlags (s\<lparr>alternate := True\<rparr>) format
      else if c = CHR ''-'' then ParseFlags (s\<lparr>padright := True, padzero := False\<rparr>) format
      else if c = CHR ''0'' then ParseFlags (if \<not> padright s then s\<lparr>padzero := True\<rparr> else s) format
      else if c = CHR ''+'' then ParseFlags (s\<lparr>positiveprefix := Some ''+''\<rparr>) format
      else if c = CHR '' '' then ParseFlags (if positiveprefix s = None then s\<lparr>positiveprefix := Some '' ''\<rparr> else s) format
      else Some (s, c # format))"

definition is_digit :: "char \<Rightarrow> bool" where
  "is_digit c \<longleftrightarrow> (48 :: nat) \<le> of_char c \<and> of_char c \<le> (57 :: nat)"

fun parse_digits :: "int \<Rightarrow> string \<Rightarrow> (int \<times> string) option" where
  "parse_digits v [] = Some (v, [])"
| "parse_digits v (c # format) =
     (if is_digit c then do {
        v \<leftarrow> checked (v * 10);
        v \<leftarrow> checked (v + (of_char c - 48));
        parse_digits v format }
      else Some (v, c # format))"

definition ParseInteger :: "string \<Rightarrow> arg list \<Rightarrow> (int \<times> string \<times> arg list) option" where
  "ParseInteger format args =
     (case format of
        c # r \<Rightarrow>
          if c = CHR ''*'' then (case args of Int_arg w # args \<Rightarrow> Some (sint w, r, args) | _ \<Rightarrow> None)
          else map_option (\<lambda>(v, f). (v, f, args)) (parse_digits 0 format)
      | [] \<Rightarrow> Some (0, [], args))"

text \<open>Width and precision; the first result is the returned value.\<close>

definition ParseSizes :: "flags \<Rightarrow> string \<Rightarrow> arg list \<Rightarrow> (bool \<times> int \<times> int \<times> flags \<times> string \<times> arg list) option" where
  "ParseSizes s format args = do {
     (width, format, args) \<leftarrow> ParseInteger format args;
     (width, s) \<leftarrow> (if width < 0 then do {
                       width \<leftarrow> checked (- width);
                       Some (width, s\<lparr>padright := True, padzero := False\<rparr>) }
                     else Some (width, s));
     (precision, format, args) \<leftarrow>
       (case format of
          c # r \<Rightarrow> if c = CHR ''.'' then ParseInteger r args else Some (- 1, format, args)
        | [] \<Rightarrow> Some (- 1, format, args));
     Some (format \<noteq> [], width, precision, s, format, args) }"

fun ParseLengthModifier :: "string \<Rightarrow> int \<times> string" where
  "ParseLengthModifier [] = (0, [])"
| "ParseLengthModifier (c # format) =
     (if c = CHR ''l'' then
        (case format of d # r \<Rightarrow> if d = CHR ''l'' then (2, r) else (1, format) | [] \<Rightarrow> (1, format))
      else if c = CHR ''h'' then
        (case format of d # r \<Rightarrow> if d = CHR ''h'' then (- 2, r) else (- 1, format) | [] \<Rightarrow> (- 1, format))
      else (0, c # format))"

section \<open>Output\<close>

text \<open>The result of an output function is its count, with the characters.\<close>

definition OutputString :: "string \<Rightarrow> bool \<Rightarrow> bool \<Rightarrow> int \<Rightarrow> int \<Rightarrow> int \<times> string" where
  "OutputString string right zero width precision =
     (let len = int (length string);
          len = (if precision \<ge> 0 \<and> len > precision then precision else len);
          padding = (if width > 0 \<and> \<not> right then replicate (nat (width - len)) (if zero then CHR ''0'' else CHR '' '') else []);
          contents = (if precision \<ge> 0 then take (nat precision) string else string);
          count = int (length (padding @ contents));
          out = padding @ contents @ replicate (nat (width - count)) (CHR '' '')
      in (int (length out), out))"

definition OutputDigitString :: "string option \<Rightarrow> int \<Rightarrow> string \<Rightarrow> bool \<Rightarrow> int \<Rightarrow> (int \<times> string) option" where
  "OutputDigitString prefix numextrazeroes digitstring right width = do {
     let prefix = (case prefix of None \<Rightarrow> [] | Some p \<Rightarrow> take 2 p);
     let numdigits = int (length digitstring);
     let numprefix = int (length prefix);
     let numextrazeroes = (if numextrazeroes < 0 then max 0 (width - numdigits - numprefix) else numextrazeroes);
     n \<leftarrow> checked (numdigits + numextrazeroes);
     numcharacters \<leftarrow> checked (n + numprefix);
     let numpadding = max 0 (width - numcharacters);
     let spaces = replicate (nat numpadding) (CHR '' '');
     Some (numcharacters + numpadding,
       (if right then [] else spaces) @ prefix @ replicate (nat numextrazeroes) (CHR ''0'') @ digitstring @
       (if right then spaces else [])) }"

definition digit_char :: "nat \<Rightarrow> nat \<Rightarrow> char" where
  "digit_char firstletter digit = (if digit \<ge> 10 then char_of (digit - 10 + firstletter) else char_of (digit + 48))"

text \<open>The digits are put into a buffer of 21 characters from its end; one more would be written before it.\<close>

function digit_loop :: "64 word \<Rightarrow> nat \<Rightarrow> 64 word \<Rightarrow> string \<Rightarrow> string option" where
  "digit_loop base firstletter value digitstring =
     (if value = 0 then Some digitstring
      else if length digitstring < 21
      then digit_loop base firstletter (value div base) (digit_char firstletter (unat (value mod base)) # digitstring)
      else None)"
  by auto
termination by (relation "measure (\<lambda>(base, firstletter, value, digitstring). 22 - length digitstring)") auto

declare digit_loop.simps [simp del]

definition OutputUnsignedInteger ::
  "64 word \<Rightarrow> 64 word \<Rightarrow> nat \<Rightarrow> string option \<Rightarrow> bool \<Rightarrow> bool \<Rightarrow> int \<Rightarrow> int \<Rightarrow> (int \<times> string) option" where
  "OutputUnsignedInteger value base firstletter prefix right zero width precision = do {
     digitstring \<leftarrow> (if value = 0 then Some (if precision \<noteq> 0 then ''0'' else '''') else digit_loop base firstletter value []);
     numextrazeroes \<leftarrow>
       (if zero \<and> precision < 0 then Some (- 1)
        else do {
          n \<leftarrow> checked (precision - int (length digitstring));
          n \<leftarrow> (if prefix = Some ''0'' then checked (n - 1) else Some n);
          Some (if n < 0 then 0 else n) });
     OutputDigitString prefix numextrazeroes digitstring right width }"

definition OutputSignedInteger ::
  "int \<Rightarrow> string option \<Rightarrow> bool \<Rightarrow> bool \<Rightarrow> int \<Rightarrow> int \<Rightarrow> (int \<times> string) option" where
  "OutputSignedInteger value sign right zero width precision = do {
     (absvalue, prefix) \<leftarrow>
       (if value \<ge> 0 then Some (value, sign)
        else if - value < 2 ^ 63 then Some (- value, Some ''-'') else None);
     OutputUnsignedInteger (word_of_int absvalue) 10 0 prefix right zero width precision }"

section \<open>Conversions\<close>

text \<open>The arguments of the integer conversions, by the length modifier.\<close>

definition signed_arg :: "int \<Rightarrow> arg list \<Rightarrow> (int \<times> arg list) option" where
  "signed_arg modifier args =
     (case args of
        Int_arg w # r \<Rightarrow>
          if modifier = 2 then None
          else Some (if modifier = - 1 then sint (ucast w :: 16 word)
                     else if modifier = - 2 then sint (ucast w :: 8 word) else sint w, r)
      | Long_long_arg w # r \<Rightarrow> if modifier = 2 then Some (sint w, r) else None
      | _ \<Rightarrow> None)"

definition unsigned_arg :: "int \<Rightarrow> arg list \<Rightarrow> (64 word \<times> arg list) option" where
  "unsigned_arg modifier args =
     (case args of
        Int_arg w # r \<Rightarrow>
          if modifier = 2 then None
          else Some (if modifier = - 1 then ucast (ucast w :: 16 word)
                     else if modifier = - 2 then ucast (ucast w :: 8 word) else ucast w, r)
      | Long_long_arg w # r \<Rightarrow> if modifier = 2 then Some (w, r) else None
      | _ \<Rightarrow> None)"

text \<open>
  What the conversion \<open>c\<close> adds to the count and outputs, with the arguments left. The counts of the integer conversions
  are dropped by the code. The conversions \<open>f\<close> and \<open>F\<close> are not modelled.
\<close>

definition print_conversion ::
  "char \<Rightarrow> int \<Rightarrow> flags \<Rightarrow> int \<Rightarrow> int \<Rightarrow> arg list \<Rightarrow> (int \<times> string \<times> arg list) option" where
  "print_conversion c modifier s width precision args =
     (if c = CHR ''s'' then
        (case args of
           String_arg st # r \<Rightarrow>
             (let (n, out) = OutputString (case st of Some x \<Rightarrow> x | None \<Rightarrow> ''(null)'') (padright s) (padzero s) width precision
              in Some (n, out, r))
         | _ \<Rightarrow> None)
      else if c = CHR ''c'' then
        (case args of
           Int_arg w # r \<Rightarrow>
             (let ch = char_of (unat (ucast w :: 8 word));
                  (n, out) = OutputString (if unat (ucast w :: 8 word) = 0 then [] else [ch]) (padright s) (padzero s) width (- 1)
              in Some (n, out, r))
         | _ \<Rightarrow> None)
      else if c = CHR ''d'' \<or> c = CHR ''i'' then do {
        (value, r) \<leftarrow> signed_arg modifier args;
        (_, out) \<leftarrow> OutputSignedInteger value (positiveprefix s) (padright s) (padzero s) width precision;
        Some (0, out, r) }
      else if c = CHR ''u'' then do {
        (value, r) \<leftarrow> unsigned_arg modifier args;
        (_, out) \<leftarrow> OutputUnsignedInteger value 10 0 None (padright s) (padzero s) width precision;
        Some (0, out, r) }
      else if c = CHR ''o'' then do {
        (value, r) \<leftarrow> unsigned_arg modifier args;
        (_, out) \<leftarrow> OutputUnsignedInteger value 8 0
          (if alternate s \<and> (value \<noteq> 0 \<or> precision = 0) then Some ''0'' else None) (padright s) (padzero s) width precision;
        Some (0, out, r) }
      else if c = CHR ''x'' then do {
        (value, r) \<leftarrow> unsigned_arg modifier args;
        (_, out) \<leftarrow> OutputUnsignedInteger value 16 97
          (if alternate s \<and> value \<noteq> 0 then Some ''0x'' else None) (padright s) (padzero s) width precision;
        Some (0, out, r) }
      else if c = CHR ''X'' then do {
        (value, r) \<leftarrow> unsigned_arg modifier args;
        (_, out) \<leftarrow> OutputUnsignedInteger value 16 65
          (if alternate s \<and> value \<noteq> 0 then Some ''0X'' else None) (padright s) (padzero s) width precision;
        Some (0, out, r) }
      else if c = CHR ''f'' \<or> c = CHR ''F'' then None
      else Some (0, [], args))"

text \<open>A conversion from behind its percent sign; without a rest it has reached the end of the format, which ends the loop.\<close>

definition convert :: "string \<Rightarrow> arg list \<Rightarrow> (int \<times> string \<times> (string \<times> arg list) option) option" where
  "convert format args =
     (case ParseFlags no_flags format of
        None \<Rightarrow> Some (0, [], None)
      | Some (s, format) \<Rightarrow> do {
          (more, width, precision, s, format, args) \<leftarrow> ParseSizes s format args;
          if \<not> more then Some (0, [], None)
          else case ParseLengthModifier format of
              (modifier, []) \<Rightarrow> Some (0, [], None)
            | (modifier, c # format) \<Rightarrow> do {
                (n, out, args) \<leftarrow> print_conversion c modifier s width precision args;
                Some (n, out, Some (format, args)) } })"

section \<open>The loop\<close>

lemma ParseFlags_length: "ParseFlags s format = Some (s', format') \<Longrightarrow> length format' \<le> length format"
  by (induction s format rule: ParseFlags.induct) (auto split: if_splits)

lemma parse_digits_length: "parse_digits v format = Some (v', format') \<Longrightarrow> length format' \<le> length format"
  by (induction v format rule: parse_digits.induct) (fastforce split: if_splits bind_splits)+

lemma ParseInteger_length: "ParseInteger format args = Some (v, format', args') \<Longrightarrow> length format' \<le> length format"
  by (auto simp: ParseInteger_def simp del: parse_digits.simps dest: parse_digits_length split: list.splits if_splits arg.splits)

lemma ParseSizes_length: "ParseSizes s format args = Some (b, w, p, s', format', args') \<Longrightarrow> length format' \<le> length format"
  by (fastforce simp: ParseSizes_def dest: ParseInteger_length split: list.splits if_splits bind_splits)

lemma ParseLengthModifier_length: "ParseLengthModifier format = (m, format') \<Longrightarrow> length format' \<le> length format"
  by (cases format) (auto split: list.splits if_splits)

lemma convert_length: "convert format args = Some (n, out, Some (format', args')) \<Longrightarrow> length format' < length format"
  by (fastforce simp: convert_def dest: ParseFlags_length ParseSizes_length ParseLengthModifier_length
      split: option.splits prod.splits bind_splits if_splits list.splits)

text \<open>The characters that have been output so far are \<open>out\<close>.\<close>

function FormatString :: "int \<Rightarrow> string \<Rightarrow> string \<Rightarrow> arg list \<Rightarrow> (int \<times> string) option" where
  "FormatString count out [] args = Some (count, out)"
| "FormatString count out (c # format) args =
     (if c = CHR ''%'' then
        (if format \<noteq> [] \<and> hd format = CHR ''%'' then do {
           count \<leftarrow> checked (count + 1);
           FormatString count (out @ ''%'') (tl format) args }
         else case convert format args of
             None \<Rightarrow> None
           | Some (n, out', None) \<Rightarrow> Some (count + n, out @ out')
           | Some (n, out', Some (format', args')) \<Rightarrow> do {
               count \<leftarrow> checked (count + n);
               FormatString count (out @ out') format' args' })
      else do {
        count \<leftarrow> checked (count + 1);
        FormatString count (out @ [c]) format args })"
  by pat_completeness auto
termination by (relation "measure (\<lambda>(count, out, format, args). length format)") (auto dest: convert_length)

text \<open>\<open>printf\<close> sends the characters to the serial port.\<close>

definition printf :: "string \<Rightarrow> arg list \<Rightarrow> (int \<times> string) option" where
  "printf format args = FormatString 0 [] format args"

text \<open>\<open>sprintf\<close> writes them to a buffer, and a zero behind them.\<close>

definition sprintf :: "string \<Rightarrow> string \<Rightarrow> arg list \<Rightarrow> (int \<times> string) option" where
  "sprintf buffer format args = do {
     (val, out) \<leftarrow> FormatString 0 [] format args;
     buffer \<leftarrow> copy_in buffer 0 (out @ [char_of (0 :: nat)]);
     Some (val, buffer) }"

definition puts :: "string \<Rightarrow> int \<times> string" where
  "puts s = (int (length s) + 1, s @ [char_of (10 :: nat)])"

definition putchar :: "32 word \<Rightarrow> int \<times> string" where
  "putchar c = (0, [char_of (unat (ucast c :: 8 word))])"

end
