(* ===== verification/Format_Props.thy ===== *)
theory Format_Props
  imports Format_String
begin

text \<open>
  The text of a number and how the output functions lay it out; what is printed in decimal is read back by the parser of widths.
\<close>

section \<open>The body of a number\<close>

fun digits :: "nat \<Rightarrow> nat \<Rightarrow> nat list" where
  "digits b n = (if n = 0 \<or> b < 2 then [] else digits b (n div b) @ [n mod b])"

declare digits.simps [simp del]

definition number_text :: "nat \<Rightarrow> nat \<Rightarrow> nat \<Rightarrow> string" where
  "number_text b firstletter n = (if n = 0 then ''0'' else map (digit_char firstletter) (digits b n))"

lemma digits_0 [simp]: "digits b 0 = []"
  by (simp add: digits.simps)

lemma digits_step: "n \<noteq> 0 \<Longrightarrow> 2 \<le> b \<Longrightarrow> digits b n = digits b (n div b) @ [n mod b]"
  by (simp add: digits.simps [of b n])

lemma digits_value: "2 \<le> b \<Longrightarrow> foldl (\<lambda>v d. v * b + d) 0 (digits b n) = n"
proof (induction b n rule: digits.induct)
  case (1 b n)
  then show ?case by (cases "n = 0") (auto simp: digits_step)
qed

lemma digits_less: "2 \<le> b \<Longrightarrow> d \<in> set (digits b n) \<Longrightarrow> d < b"
proof (induction b n rule: digits.induct)
  case (1 b n)
  then show ?case by (cases "n = 0") (auto simp: digits_step)
qed

lemma length_digits: "2 \<le> b \<Longrightarrow> length (digits b n) \<le> k \<longleftrightarrow> n < b ^ k"
proof (induction k arbitrary: n)
  case 0
  then show ?case by (cases "n = 0") (auto simp: digits_step)
next
  case (Suc k)
  show ?case
  proof (cases "n = 0")
    case False
    have "length (digits b n) \<le> Suc k \<longleftrightarrow> n div b < b ^ k" using Suc False by (simp add: digits_step)
    also have "\<dots> \<longleftrightarrow> n < b ^ Suc k" using Suc.prems by (simp add: div_less_iff_less_mult mult.commute)
    finally show ?thesis .
  qed (use Suc.prems in simp)
qed

lemma digit_loop_spec:
  assumes "2 \<le> unat base" "length ds \<le> 21"
  shows "digit_loop base l v ds = (if length (digits (unat base) (unat v)) + length ds \<le> 21
    then Some (map (digit_char l) (digits (unat base) (unat v)) @ ds) else None)"
  using assms
proof (induction base l v ds rule: digit_loop.induct)
  case (1 base l v ds)
  show ?case
  proof (cases "v = 0 \<or> \<not> length ds < 21")
    case True
    then show ?thesis using 1(2,3)
      by (subst digit_loop.simps) (auto simp: digits_step unat_eq_zero)
  next
    case False
    then have v: "unat v \<noteq> 0" by (simp add: unat_eq_zero)
    have "digit_loop base l v ds = digit_loop base l (v div base) (digit_char l (unat (v mod base)) # ds)"
      using False by (simp add: digit_loop.simps [of base l v ds])
    also have "\<dots> = (if length (digits (unat base) (unat (v div base))) + length (digit_char l (unat (v mod base)) # ds) \<le> 21
       then Some (map (digit_char l) (digits (unat base) (unat (v div base))) @ digit_char l (unat (v mod base)) # ds) else None)"
      using 1(1) [OF _ _ 1(2)] False by simp
    finally show ?thesis using v 1(2) by (simp add: digits_step unat_div unat_mod)
  qed
qed

section \<open>The layout of an integer\<close>

text \<open>The digits with what precedes them: the prefix, and the zeros that the precision or the width asks for.\<close>

definition prefix_text :: "string option \<Rightarrow> string" where
  "prefix_text prefix = (case prefix of None \<Rightarrow> [] | Some p \<Rightarrow> take 2 p)"

definition zeros :: "string option \<Rightarrow> string \<Rightarrow> bool \<Rightarrow> int \<Rightarrow> int \<Rightarrow> int" where
  "zeros prefix body zero width precision =
     (if zero \<and> precision < 0 then max 0 (width - int (length body) - int (length (prefix_text prefix)))
      else max 0 (precision - int (length body) - (if prefix = Some ''0'' then 1 else 0)))"

definition padded :: "string \<Rightarrow> bool \<Rightarrow> int \<Rightarrow> string" where
  "padded body right width =
     (let spaces = replicate (nat (width - int (length body))) (CHR '' '') in if right then body @ spaces else spaces @ body)"

definition sizes_ok :: "int \<Rightarrow> int \<Rightarrow> bool" where
  "sizes_ok width precision \<longleftrightarrow> 0 \<le> width \<and> width < 2 ^ 31 - 32 \<and> - (2 ^ 31) + 32 \<le> precision \<and> precision < 2 ^ 31 - 32"

lemma length_padded: "0 \<le> width \<Longrightarrow> int (length (padded body right width)) = max width (int (length body))"
  by (auto simp: padded_def Let_def)

lemma OutputDigitString_spec:
  assumes "sizes_ok width 0" "z < 2 ^ 31 - 32" "length ds \<le> 21"
  shows "OutputDigitString prefix z ds right width =
    (let zs = (if z < 0 then max 0 (width - int (length ds) - int (length (prefix_text prefix))) else z);
         body = prefix_text prefix @ replicate (nat zs) (CHR ''0'') @ ds
     in Some (max width (int (length body)), padded body right width))"
proof -
  have p: "length (prefix_text prefix) \<le> 2" by (auto simp: prefix_text_def split: option.splits)
  define zs where "zs = (if z < 0 then max 0 (width - int (length ds) - int (length (prefix_text prefix))) else z)"
  have zs: "0 \<le> zs" "zs < 2 ^ 31 - 32" using assms(1,2) by (auto simp: zs_def sizes_ok_def)
  have c1: "checked (int (length ds) + zs) = Some (int (length ds) + zs)"
    using zs assms(3) by (intro checked_ok) linarith+
  have c2: "checked (int (length ds) + zs + int (length (prefix_text prefix))) = Some (int (length ds) + zs + int (length (prefix_text prefix)))"
    using zs assms(3) p by (intro checked_ok) linarith+
  show ?thesis
    using c1 c2 zs(1)
    by (auto simp: OutputDigitString_def Let_def padded_def prefix_text_def [symmetric] zs_def [symmetric] max_def)
qed

lemma OutputUnsignedInteger_spec:
  assumes "sizes_ok width precision" "2 \<le> unat base" "unat v < unat base ^ 21"
  shows "OutputUnsignedInteger v base l prefix right zero width precision =
    (let body = (if v = 0 \<and> precision = 0 then [] else number_text (unat base) l (unat v));
         whole = prefix_text prefix @ replicate (nat (zeros prefix body zero width precision)) (CHR ''0'') @ body
     in Some (max width (int (length whole)), padded whole right width))"
proof -
  define body where "body = (if v = 0 \<and> precision = 0 then [] else number_text (unat base) l (unat v))"
  have l: "length (digits (unat base) (unat v)) \<le> 21" using length_digits [OF assms(2)] assms(3) by simp
  then have lt: "length body \<le> 21" by (simp add: body_def number_text_def)
  have d: "(if v = 0 then Some (if precision \<noteq> 0 then ''0'' else '''') else digit_loop base l v []) = Some body"
    using l assms(2) by (auto simp: body_def number_text_def digit_loop_spec unat_eq_zero)
  let ?z = "if zero \<and> precision < 0 then - 1 else zeros prefix body zero width precision"
  have z: "(if zero \<and> precision < 0 then Some (- 1)
        else do {
          n \<leftarrow> checked (precision - int (length body));
          n \<leftarrow> (if prefix = Some ''0'' then checked (n - 1) else Some n);
          Some (if n < 0 then 0 else n) }) = Some ?z"
  proof (cases "zero \<and> precision < 0")
    case False
    have "checked (precision - int (length body)) = Some (precision - int (length body))"
      "checked (precision - int (length body) - 1) = Some (precision - int (length body) - 1)"
      using assms(1) lt by (auto simp: sizes_ok_def intro!: checked_ok)
    then show ?thesis using False by (auto simp: zeros_def max_def)
  qed simp
  have "sizes_ok width 0" "?z < 2 ^ 31 - 32" using assms(1) by (auto simp: sizes_ok_def zeros_def)
  from OutputDigitString_spec [OF this lt, of prefix right]
  show ?thesis
    unfolding OutputUnsignedInteger_def d Option.bind.bind_lunit z body_def [symmetric]
    by (auto simp: Let_def zeros_def)
qed

lemma sint_less: "sint (w :: 64 word) < 2 ^ 63" "- (2 ^ 63) \<le> sint w"
  using sint_lt [of w] sint_ge [of w] by simp_all

definition decimal :: "int \<Rightarrow> string" where
  "decimal v = (if v < 0 then ''-'' else '''') @ number_text 10 0 (nat \<bar>v\<bar>)"

text \<open>
  C14. The layout of a signed number: its sign and its decimal digits, zeros between them up to the precision, or up to the width
  where zero padding is asked for and no precision, and spaces on one side up to the width.
\<close>

theorem integer_layout:
  assumes "sizes_ok width precision" "\<bar>v\<bar> < 2 ^ 63"
  shows "OutputSignedInteger v sign right zero width precision =
    (let prefix = (if v < 0 then Some ''-'' else sign);
         body = (if v = 0 \<and> precision = 0 then [] else number_text 10 0 (nat \<bar>v\<bar>));
         whole = prefix_text prefix @ replicate (nat (zeros prefix body zero width precision)) (CHR ''0'') @ body
     in Some (max width (int (length whole)), padded whole right width))"
proof -
  have u: "unat (word_of_int \<bar>v\<bar> :: 64 word) = nat \<bar>v\<bar>"
    using assms(2) by (simp add: unsigned_of_int take_bit_int_eq_self)
  have z: "(word_of_int \<bar>v\<bar> :: 64 word) = 0 \<longleftrightarrow> v = 0" using u by (simp add: unat_eq_zero [symmetric])
  have "\<bar>v\<bar> < 10 ^ 21" using assms(2) by (rule less_le_trans) simp
  then have "nat \<bar>v\<bar> < 10 ^ 21" by (simp add: nat_less_iff)
  then have s: "OutputUnsignedInteger (word_of_int \<bar>v\<bar>) 10 0 prefix right zero width precision =
    (let body = (if v = 0 \<and> precision = 0 then [] else number_text 10 0 (nat \<bar>v\<bar>));
         whole = prefix_text prefix @ replicate (nat (zeros prefix body zero width precision)) (CHR ''0'') @ body
     in Some (max width (int (length whole)), padded whole right width))" for prefix
    using OutputUnsignedInteger_spec [OF assms(1), of 10 "word_of_int \<bar>v\<bar>" 0 prefix right zero] u z by simp
  show ?thesis
  proof (cases "v < 0")
    case True
    then have "\<bar>v\<bar> = - v" by simp
    then show ?thesis using True assms(2) s [of "Some ''-''"] by (simp add: OutputSignedInteger_def Let_def)
  next
    case False
    then have "\<bar>v\<bar> = v" by simp
    then show ?thesis using False s [of sign] by (simp add: OutputSignedInteger_def)
  qed
qed

theorem integer_layout_witness:
  "OutputSignedInteger (- 42) None False True 8 (- 1) = Some (8, ''-0000042'')"
proof -
  have "sizes_ok 8 (- 1)" "\<bar>- 42 :: int\<bar> < 2 ^ 63" by (simp_all add: sizes_ok_def)
  moreover have "char_of (52 :: nat) = CHR ''4''" "char_of (50 :: nat) = CHR ''2''" by code_simp+
  then have "number_text 10 0 42 = ''42''" by (simp add: number_text_def digits_step digit_char_def)
  ultimately show ?thesis
    using integer_layout [of 8 "- 1" "- 42" None False True] by (simp add: Let_def prefix_text_def zeros_def padded_def)
      (simp add: eval_nat_numeral)
qed

section \<open>Reading back\<close>

lemma digit_char_10: "d < 10 \<Longrightarrow> is_digit (digit_char l d) \<and> of_char (digit_char l d) = (int d + 48)"
proof -
  assume "d < 10"
  then have "(of_char (digit_char l d) :: nat) = d + 48" "digit_char l d = char_of (d + 48)" by (simp_all add: digit_char_def)
  moreover have "of_char (digit_char l d) = int (of_char (digit_char l d))" by (rule of_nat_of_char [symmetric])
  ultimately show ?thesis using \<open>d < 10\<close> by (simp only: is_digit_def) simp
qed

lemma parse_digits_number:
  assumes "\<forall>d \<in> set ds. d < 10" "rest = [] \<or> \<not> is_digit (hd rest)" "foldl (\<lambda>v d. v * 10 + d) n ds < 2 ^ 31"
  shows "parse_digits (int n) (map (digit_char l) ds @ rest) = Some (int (foldl (\<lambda>v d. v * 10 + d) n ds), rest)"
  using assms
proof (induction ds arbitrary: n)
  case Nil
  then show ?case by (cases rest) auto
next
  case (Cons d ds)
  have grow: "m \<le> foldl (\<lambda>v d. v * 10 + d) m xs" for m :: nat and xs
  proof (induction xs arbitrary: m)
    case (Cons x xs)
    show ?case using Cons [of "m * 10 + x"] by simp
  qed simp
  have l: "n * 10 + d < 2 ^ 31" using grow [of "n * 10 + d" ds] Cons.prems(3) by simp
  then have "checked (int n * 10) = Some (int n * 10)" "checked (int n * 10 + int d) = Some (int (n * 10 + d))"
    by (auto simp: checked_def)
  moreover have "is_digit (digit_char l d)" "of_char (digit_char l d) = (int d + 48)"
    using digit_char_10 [of d l] Cons.prems(1) by simp_all
  ultimately show ?case using Cons.IH [of "n * 10 + d"] Cons.prems by simp
qed

lemma ParseInteger_number:
  assumes "n < 2 ^ 31" "rest = [] \<or> \<not> is_digit (hd rest)"
  shows "ParseInteger (number_text 10 0 n @ rest) args = Some (int n, rest, args)"
proof (cases "n = 0")
  case True
  have "parse_digits 0 (CHR ''0'' # rest) = Some (0, rest)"
  proof -
    have "digit_char 0 0 = CHR ''0''" by code_simp
    then show ?thesis using parse_digits_number [of "[0]" rest 0 0] assms(2) by (simp del: parse_digits.simps)
  qed
  then show ?thesis using True by (simp add: ParseInteger_def number_text_def del: parse_digits.simps)
next
  case False
  then obtain d ds where ds: "digits 10 n = d # ds" using digits_step [of n 10] by (cases "digits 10 n") auto
  have d: "\<forall>x \<in> set (digits 10 n). x < 10" using digits_less [of 10] by auto
  have "parse_digits (int 0) (map (digit_char 0) (digits 10 n) @ rest) = Some (int n, rest)"
    using parse_digits_number [OF d assms(2), of 0 0] digits_value [of 10 n] assms(1) by simp
  moreover have "digit_char 0 d \<noteq> CHR ''*''"
  proof
    assume a: "digit_char 0 d = CHR ''*''"
    have "is_digit (digit_char 0 d)" using d ds digit_char_10 by simp
    then show False unfolding a by (simp add: is_digit_def)
  qed
  ultimately show ?thesis using False ds by (simp add: ParseInteger_def number_text_def)
qed


lemma convert_plain: "c \<in> {CHR ''d'', CHR ''u''} \<Longrightarrow> convert [c] args = do {
    (n, out, args) \<leftarrow> print_conversion c 0 no_flags 0 (- 1) args; Some (n, out, Some ([], args)) }"
proof -
  have "\<not> is_digit (CHR ''d'')" "\<not> is_digit (CHR ''u'')" by (simp_all add: is_digit_def)
  then show "c \<in> {CHR ''d'', CHR ''u''} \<Longrightarrow> ?thesis"
    by (elim insertE) (simp_all add: convert_def ParseSizes_def ParseInteger_def)
qed

lemma printf_unsigned: "convert ''u'' args = Some (0, out, Some ([], [])) \<Longrightarrow> printf ''%u'' args = Some (0, out)"
  by (simp add: printf_def checked_def)

lemma sizes_plain: "sizes_ok 0 (- 1)"
  by (simp add: sizes_ok_def)

lemma FormatString_literal:
  assumes "CHR ''%'' \<notin> set s" "0 \<le> count" "count + int (length s) < 2 ^ 31"
  shows "FormatString count out (s @ rest) args = FormatString (count + int (length s)) (out @ s) rest args"
  using assms
proof (induction s arbitrary: count out)
  case (Cons c s)
  then have "checked (count + 1) = Some (count + 1)" "c \<noteq> CHR ''%''" by (auto simp: checked_def)
  then show ?case using Cons.IH [of "count + 1" "out @ [c]"] Cons.prems by (simp add: add.assoc)
qed simp

lemma print_decimal:
  "OutputSignedInteger (sint (w :: 32 word)) None False False 0 (- 1) = Some (int (length (decimal (sint w))), decimal (sint w))"
proof -
  have "\<bar>sint w\<bar> < 2 ^ 63" using sint_lt [of w] sint_ge [of w] by simp
  from integer_layout [OF sizes_plain this, of None False False] show ?thesis
    by (simp add: Let_def prefix_text_def zeros_def padded_def decimal_def)
qed

text \<open>
  Text without a percent sign is printed as it is and counted; a number is printed in decimal and not counted, so that the
  result of \<open>printf\<close> is not the number of characters.
\<close>

theorem printf_text_and_number:
  assumes "CHR ''%'' \<notin> set s" "int (length s) < 2 ^ 31"
  shows "printf s [] = Some (int (length s), s) \<and> printf (s @ ''%d'') [Int_arg w] = Some (int (length s), s @ decimal (sint w))"
proof -
  have "convert ''d'' [Int_arg w] = Some (0, decimal (sint w), Some ([], []))"
    by (simp add: convert_plain print_conversion_def signed_arg_def no_flags_def print_decimal)
  moreover have "checked (int (length s)) = Some (int (length s))" using assms(2) by (simp add: checked_def)
  ultimately show ?thesis
    using FormatString_literal [OF assms(1), of 0 "[]"] FormatString_literal [OF assms(1), of 0 "[]" "[]"] assms(2)
    by (simp add: printf_def)
qed

theorem printf_text_and_number_witness:
  "printf ''x = %d'' [Int_arg 7] = Some (4, ''x = 7'')"
proof -
  have "decimal 7 = ''7''" by (simp add: decimal_def number_text_def digits_step digit_char_def) code_simp
  moreover have "sint (7 :: 32 word) = 7" by simp
  ultimately show ?thesis using printf_text_and_number [of "''x = ''" 7] by simp
qed

text \<open>
  C13. What is printed is read back: the decimal text of a number below \<open>2 ^ 31\<close> is read as this number by the parser of
  field widths, whatever follows it but a digit.
\<close>

theorem printed_number_reads_back:
  assumes "uint w < 2 ^ 31" "rest = [] \<or> \<not> is_digit (hd rest)"
  shows "\<exists>out. printf ''%u'' [Int_arg w] = Some (0, out) \<and> ParseInteger (out @ rest) args = Some (uint w, rest, args)"
proof -
  have "unat w < 2 ^ 32" using unsigned_less [of w, where 'a = nat] by simp
  then have b: "unat (ucast w :: 64 word) = unat w" "unat w < 10 ^ 21"
    by (simp_all add: unsigned_ucast_eq take_bit_nat_eq_self)
  have "OutputUnsignedInteger (ucast w) 10 0 None False False 0 (- 1) =
      Some (int (length (number_text 10 0 (unat w))), number_text 10 0 (unat w))"
    using OutputUnsignedInteger_spec [OF sizes_plain, of 10 "ucast w" 0 None False False] b
    by (simp add: Let_def prefix_text_def zeros_def padded_def)
  then have "convert ''u'' [Int_arg w] = Some (0, number_text 10 0 (unat w), Some ([], []))"
    by (simp add: convert_plain print_conversion_def unsigned_arg_def no_flags_def)
  then have "printf ''%u'' [Int_arg w] = Some (0, number_text 10 0 (unat w))" by (rule printf_unsigned)
  moreover have "int (unat w) < int (2 ^ 31)" using assms(1) by simp
  then have "unat w < 2 ^ 31" by (simp only: of_nat_less_iff)
  ultimately show ?thesis using ParseInteger_number [OF _ assms(2), of "unat w" args] by simp
qed

theorem printed_number_reads_back_witness:
  "\<exists>out. printf ''%u'' [Int_arg 90] = Some (0, out) \<and> ParseInteger (out @ ''d'') [] = Some (90, ''d'', [])"
  using printed_number_reads_back [of 90 "''d''" "[]"] by (simp add: is_digit_def)

text \<open>
  C39. The buffer of the digits has 21 characters, which is too short for octal numbers from \<open>2 ^ 63\<close> on and long enough for
  every other number in the bases of the code.
\<close>

theorem octal_digits_overflow:
  "(OutputUnsignedInteger v 8 0 None right zero 0 (- 1) = None \<longleftrightarrow> 2 ^ 63 \<le> v) \<and>
   OutputUnsignedInteger v 10 0 None right zero 0 (- 1) \<noteq> None \<and>
   OutputUnsignedInteger v 16 l None right zero 0 (- 1) \<noteq> None"
proof (intro conjI)
  have v: "unat v < 2 ^ 64" using unsigned_less [of v, where 'a = nat] by simp
  show "OutputUnsignedInteger v 8 0 None right zero 0 (- 1) = None \<longleftrightarrow> 2 ^ 63 \<le> v"
  proof (cases "unat v < 8 ^ 21")
    case True
    then show ?thesis
      using OutputUnsignedInteger_spec [OF sizes_plain, of 8 v 0 None right zero] by (simp add: Let_def word_le_nat_alt)
  next
    case False
    then have n: "v \<noteq> 0" "\<not> length (digits 8 (unat v)) \<le> 21" using length_digits [of 8 "unat v" 21] by auto
    have "digit_loop 8 0 v [] = None" using digit_loop_spec [of 8 "[]" 0 v] n(2) by simp
    then show ?thesis using False n(1) by (simp add: OutputUnsignedInteger_def word_le_nat_alt)
  qed
  have d: "unat v < 10 ^ 21" "unat v < 16 ^ 21" using v by (auto intro: less_le_trans)
  show "OutputUnsignedInteger v 10 0 None right zero 0 (- 1) \<noteq> None"
    using OutputUnsignedInteger_spec [OF sizes_plain, of 10 v 0 None right zero] d(1) by (simp add: Let_def)
  show "OutputUnsignedInteger v 16 l None right zero 0 (- 1) \<noteq> None"
    using OutputUnsignedInteger_spec [OF sizes_plain, of 16 v l None right zero] d(2) by (simp add: Let_def)
qed

end
