(* ===== verification/Ws2812.thy ===== *)
theory Ws2812
  imports Prelude
begin

text \<open>
  The driver of the LED strip, \<open>src/ws2812.c\<close>: a ring of two halves, from which the hardware sends one pulse after
  another, each half being filled by the interrupt while the other one is sent. The pulses of a strip are its bits in order, and then
  the line is low. The registers that set up timer, pin and transfer are not modelled.
\<close>

section \<open>State\<close>

datatype ws2812_stage = Idle | Sending | Done | Reset

record ws2812 =
  leds :: "32 word list"
  led_count :: int
  leds_sent :: int
  stage :: ws2812_stage
  bit_buffer :: "nat list"
  dma_enabled :: bool
  oc_value :: nat

abbreviation (input) WS2812_BIT_BUFFER_SIZE :: nat where "WS2812_BIT_BUFFER_SIZE \<equiv> 144"

abbreviation (input) TIM4_FREQ :: nat where "TIM4_FREQ \<equiv> 50000000"
abbreviation (input) PERIOD_900NS :: nat where "PERIOD_900NS \<equiv> TIM4_FREQ div 1111111"
abbreviation (input) PERIOD_350NS :: nat where "PERIOD_350NS \<equiv> TIM4_FREQ div 2857142"

section \<open>Filling a half\<close>

text \<open>The two loops, on the index \<open>i\<close> and the LED that was written last; \<open>None\<close> is an access outside the array or an overflow.\<close>

function fill_loop :: "nat \<Rightarrow> nat \<Rightarrow> int \<Rightarrow> ws2812 \<Rightarrow> (nat \<times> int \<times> ws2812) option" where
  "fill_loop offset i led s =
     (if i < 72 then do {
        n \<leftarrow> checked ((led_count s - leds_sent s) * 24);
        if int i < n then do {
          grbu \<leftarrow> (if 0 \<le> leds_sent s then load (leds s) (nat (leds_sent s) + i div 24) else None);
          buffer \<leftarrow> store (bit_buffer s) (offset + i)
            (if (drop_bit (31 - i mod 24) grbu) AND 0x00000001 \<noteq> 0 then PERIOD_900NS else PERIOD_350NS);
          fill_loop offset (i + 1) (leds_sent s + int (i div 24)) (s\<lparr>bit_buffer := buffer\<rparr>) }
        else Some (i, led, s\<lparr>stage := Done\<rparr>) }
      else Some (i, led, s))"
  by auto
termination by (relation "measure (\<lambda>(offset, i, led, s). 72 - i)") auto

function clear_loop :: "nat \<Rightarrow> nat \<Rightarrow> nat \<Rightarrow> ws2812 \<Rightarrow> ws2812 option" where
  "clear_loop offset i n s =
     (if i < n then do {
        buffer \<leftarrow> store (bit_buffer s) (offset + i) 0;
        clear_loop offset (i + 1) n (s\<lparr>bit_buffer := buffer\<rparr>) }
      else Some s)"
  by auto
termination by (relation "measure (\<lambda>(offset, i, n, s). n - i)") auto

declare fill_loop.simps [simp del] clear_loop.simps [simp del]

definition ws2812_fill_bit_buffer :: "bool \<Rightarrow> ws2812 \<Rightarrow> ws2812 option" where
  "ws2812_fill_bit_buffer low_high s = do {
     let bitcount = WS2812_BIT_BUFFER_SIZE div 2;
     let led = leds_sent s;
     let s = s\<lparr>stage := Sending\<rparr>;
     let offset = (if low_high then bitcount else 0);
     (i, led, s) \<leftarrow> fill_loop offset 0 led s;
     s \<leftarrow> clear_loop offset i bitcount s;
     sent \<leftarrow> checked (led + 1);
     Some (s\<lparr>leds_sent := sent\<rparr>) }"

definition ws2812_fill_low_bit_buffer :: "ws2812 \<Rightarrow> ws2812 option" where
  "ws2812_fill_low_bit_buffer s = ws2812_fill_bit_buffer False s"

definition ws2812_fill_high_bit_buffer :: "ws2812 \<Rightarrow> ws2812 option" where
  "ws2812_fill_high_bit_buffer s = ws2812_fill_bit_buffer True s"

definition ws2812_init_bit_buffer :: "ws2812 \<Rightarrow> ws2812 option" where
  "ws2812_init_bit_buffer s = do { s \<leftarrow> ws2812_fill_low_bit_buffer s; ws2812_fill_high_bit_buffer s }"

definition ws2812_clear_bit_buffer :: "ws2812 \<Rightarrow> ws2812 option" where
  "ws2812_clear_bit_buffer s = clear_loop 0 0 WS2812_BIT_BUFFER_SIZE s"

section \<open>The calls and the interrupt\<close>

text \<open>Of the registers only the compare value, which is set to 0, and the transfer, which its reset stops, are kept.\<close>

definition ws2812_init :: "ws2812 \<Rightarrow> ws2812" where
  "ws2812_init s = s\<lparr>oc_value := 0, dma_enabled := False, stage := Idle\<rparr>"

definition ws2812_send :: "32 word list \<Rightarrow> int \<Rightarrow> ws2812 \<Rightarrow> ws2812 option" where
  "ws2812_send xs n s = do {
     s \<leftarrow> ws2812_init_bit_buffer (s\<lparr>leds := xs, led_count := n, leds_sent := 0\<rparr>);
     Some (s\<lparr>dma_enabled := True\<rparr>) }"

definition ws2812_is_sending :: "ws2812 \<Rightarrow> bool" where
  "ws2812_is_sending s \<longleftrightarrow> stage s \<noteq> Idle"

text \<open>One of the two blocks of the handler, with the function that fills its half.\<close>

definition half_sent :: "(ws2812 \<Rightarrow> ws2812 option) \<Rightarrow> ws2812 \<Rightarrow> ws2812 option" where
  "half_sent fill s =
     (if stage s \<noteq> Idle then
        if stage s = Done then do { s \<leftarrow> fill s; Some (s\<lparr>stage := Idle\<rparr>) } else fill s
      else do {
        s \<leftarrow> ws2812_clear_bit_buffer s;
        Some (s\<lparr>dma_enabled := False, oc_value := 0\<rparr>) })"

text \<open>The flags of the interrupt are arguments.\<close>

definition DMA1_Stream6_IRQHandler :: "bool \<Rightarrow> bool \<Rightarrow> ws2812 \<Rightarrow> ws2812 option" where
  "DMA1_Stream6_IRQHandler half_transfer transfer_complete s = do {
     s \<leftarrow> (if half_transfer then half_sent ws2812_fill_low_bit_buffer s else Some s);
     if transfer_complete then half_sent ws2812_fill_high_bit_buffer s else Some s }"

section \<open>The hardware\<close>

text \<open>
  While the transfer is enabled it sends the low half, raises the interrupt of the half transfer, sends the high half, raises the one of
  the complete transfer, and so on. The interrupt is served before the next half has been sent. At most \<open>n\<close> halves are
  followed; the result is what has been sent.
\<close>

fun transmit :: "nat \<Rightarrow> bool \<Rightarrow> ws2812 \<Rightarrow> (nat list \<times> ws2812) option" where
  "transmit n high s =
     (if \<not> dma_enabled s then Some ([], s)
      else case n of
        0 \<Rightarrow> None
      | Suc n \<Rightarrow> do {
          let pulses = (if high then drop 72 (bit_buffer s) else take 72 (bit_buffer s));
          s \<leftarrow> DMA1_Stream6_IRQHandler (\<not> high) high s;
          (rest, s) \<leftarrow> transmit n (\<not> high) s;
          Some (pulses @ rest, s) })"

declare transmit.simps [simp del]

section \<open>The bits of a strip\<close>

definition pulse :: "32 word \<Rightarrow> nat \<Rightarrow> nat" where
  "pulse led j = (if bit led (31 - j) then PERIOD_900NS else PERIOD_350NS)"

text \<open>The 24 pulses of an LED: green, red and blue, each from its topmost bit on.\<close>

definition led_pulses :: "32 word \<Rightarrow> nat list" where
  "led_pulses led = map (pulse led) [0..<24]"

text \<open>The half that begins with the LED \<open>m\<close>.\<close>

definition half_from :: "32 word list \<Rightarrow> nat \<Rightarrow> nat list" where
  "half_from xs m = (let ps = concat (map led_pulses (take 3 (drop m xs))) in ps @ replicate (72 - length ps) 0)"

lemma length_led_pulses [simp]: "length (led_pulses led) = 24"
  by (simp add: led_pulses_def)

lemma length_concat_pulses [simp]: "length (concat (map led_pulses xs)) = 24 * length xs"
  by (induction xs) auto

lemma length_half_from [simp]: "length (half_from xs m) = 72"
  by (simp add: half_from_def Let_def)

lemma concat_pulses_nth: "i < 24 * length xs \<Longrightarrow> concat (map led_pulses xs) ! i = pulse (xs ! (i div 24)) (i mod 24)"
proof (induction xs arbitrary: i)
  case (Cons x xs)
  show ?case
  proof (cases "i < 24")
    case False
    then obtain j where j: "i = 24 + j" using le_Suc_ex by (metis not_less)
    then have "i div 24 = Suc (j div 24)" "i mod 24 = j mod 24" by simp_all
    then show ?thesis using Cons j by (simp add: nth_append)
  qed (simp add: nth_append led_pulses_def)
qed simp

lemma half_from_nth:
  "i < 72 \<Longrightarrow> half_from xs m ! i = (if i < 24 * (length xs - m) then pulse (xs ! (m + i div 24)) (i mod 24) else 0)"
proof -
  assume i: "i < 72"
  let ?ys = "take 3 (drop m xs)"
  have l: "i < 24 * length ?ys \<longleftrightarrow> i < 24 * (length xs - m)"
  proof -
    have "length ?ys = (if length xs - m \<le> 3 then length xs - m else 3)" by (simp add: min_def)
    then show ?thesis using i by (simp only: split: if_split) linarith
  qed
  show ?thesis
  proof (cases "i < 24 * length ?ys")
    case True
    then have "i div 24 < length ?ys" by (intro less_mult_imp_div_less) (simp only: mult.commute)
    then have "i div 24 < 3" "i div 24 < length xs - m" by simp_all
    moreover have "m + i div 24 < length xs" using \<open>i div 24 < length xs - m\<close> by linarith
    ultimately have "?ys ! (i div 24) = xs ! (m + i div 24)" by (simp add: nth_drop)
    then show ?thesis using True l concat_pulses_nth [OF True] by (simp add: half_from_def Let_def nth_append)
  next
    case False
    have "length (concat (map led_pulses ?ys)) \<le> i" using False by (simp only: length_concat_pulses not_less)
    then have "half_from xs m ! i = 0"
      using i unfolding half_from_def Let_def nth_append by (simp only: if_not_P not_less nth_replicate diff_less_mono)
    then show ?thesis using False l by (simp only: if_False)
  qed
qed

lemma bit_test: "drop_bit k (w :: 32 word) AND 0x00000001 \<noteq> 0 \<longleftrightarrow> bit w k"
  by (simp add: and_one_eq bit_iff_odd_drop_bit flip: even_iff_mod_2_eq_zero)


section \<open>Filling is as specified\<close>

definition strip_ok :: "32 word list \<Rightarrow> nat \<Rightarrow> ws2812 \<Rightarrow> bool" where
  "strip_ok xs N s \<longleftrightarrow> leds s = xs \<and> led_count s = int N \<and> N \<le> length xs \<and> 24 * N < 2 ^ 31 \<and> length (bit_buffer s) = 144"

lemma fill_loop_spec:
  assumes "strip_ok xs N s" "leds_sent s = int m" "m \<le> N + 2" "offset + 72 \<le> 144" "i \<le> e" "e = max i (min 72 (24 * (N - m)))" "i \<le> 72"
  shows "\<exists>b. fill_loop offset i led s = Some (e, if i < e then int (m + (e - 1) div 24) else led,
      s\<lparr>bit_buffer := b, stage := if e < 72 then Done else stage s\<rparr>) \<and> length b = 144 \<and>
    (\<forall>j < 144. b ! j = (if offset + i \<le> j \<and> j < offset + e then pulse (xs ! (m + (j - offset) div 24)) ((j - offset) mod 24)
      else bit_buffer s ! j))"
  using assms
proof (induction "72 - i" arbitrary: i led s)
  case 0
  then have "i = 72" "e = 72" by auto
  then show ?case using 0 by (subst fill_loop.simps) (auto simp: strip_ok_def intro!: exI [of _ "bit_buffer s"])
next
  case prems: (Suc k)
  note IH = prems(1) and hyps = prems(3-)
  note so = hyps(1) [unfolded strip_ok_def]
  have c: "checked ((led_count s - leds_sent s) * 24) = Some ((int N - int m) * 24)"
    using so hyps(2,3) by (auto intro!: checked_ok)
  show ?case
  proof (cases "i < 72 \<and> int i < (int N - int m) * 24")
    case False
    then have e: "e = i" using hyps(6,7) by auto
    have "fill_loop offset i led s = Some (i, led, if i < 72 then s\<lparr>stage := Done\<rparr> else s)"
      using False c by (subst fill_loop.simps) auto
    then show ?thesis using e so by (intro exI [of _ "bit_buffer s"]) auto
  next
    case True
    then have lt: "i < 24 * (N - m)" "i < 72" "i < e" using hyps(6) by auto
    then have d: "m + i div 24 < N" by (auto simp: div_less_iff_less_mult mult.commute)
    define v where "v = pulse (xs ! (m + i div 24)) (i mod 24)"
    define s' where "s' = s\<lparr>bit_buffer := (bit_buffer s)[offset + i := v]\<rparr>"
    have l: "load (leds s) (nat (leds_sent s) + i div 24) = Some (xs ! (m + i div 24))"
      using d so hyps(2) by (simp add: load_def)
    have v: "v = (if drop_bit (31 - i mod 24) (xs ! (m + i div 24)) AND 0x00000001 \<noteq> 0 then PERIOD_900NS else PERIOD_350NS)"
      by (simp only: v_def pulse_def bit_test)
    have st: "store (bit_buffer s) (offset + i) v = Some ((bit_buffer s)[offset + i := v])"
      using so lt(2) hyps(4) by (simp add: store_def)
    have step: "fill_loop offset i led s = fill_loop offset (i + 1) (leds_sent s + int (i div 24)) s'"
      using True c l st hyps(2) unfolding v by (subst fill_loop.simps) (simp add: s'_def v)
    have so': "strip_ok xs N s'" "leds_sent s' = int m" using so hyps(2) by (simp_all add: s'_def strip_ok_def)
    have nx: "k = 72 - (i + 1)" "i + 1 \<le> e" "e = max (i + 1) (min 72 (24 * (N - m)))" "i + 1 \<le> 72"
      using prems(2) hyps(6) lt by auto
    obtain b where b: "fill_loop offset (i + 1) (leds_sent s + int (i div 24)) s' =
        Some (e, if i + 1 < e then int (m + (e - 1) div 24) else leds_sent s + int (i div 24),
          s'\<lparr>bit_buffer := b, stage := if e < 72 then Done else stage s'\<rparr>)" "length b = 144"
      "\<forall>j < 144. b ! j = (if offset + (i + 1) \<le> j \<and> j < offset + e then pulse (xs ! (m + (j - offset) div 24)) ((j - offset) mod 24)
        else bit_buffer s' ! j)"
      using IH [OF nx(1) so' hyps(3,4) nx(2-4)] by blast
    have "b ! j = (if offset + i \<le> j \<and> j < offset + e then pulse (xs ! (m + (j - offset) div 24)) ((j - offset) mod 24)
        else bit_buffer s ! j)" if "j < 144" for j
      using b(3) that so lt(3) by (cases "j = offset + i") (auto simp: s'_def v_def)
    moreover have "(if i + 1 < e then int (m + (e - 1) div 24) else leds_sent s + int (i div 24)) = int (m + (e - 1) div 24)"
      using lt(3) hyps(2) by (cases "i + 1 < e") (auto simp: le_less Suc_le_eq not_less dest!: le_antisym)
    ultimately show ?thesis
      using b step lt(3) by (intro exI [of _ b]) (simp add: s'_def)
  qed
qed

lemma clear_loop_spec:
  assumes "offset + n \<le> length (bit_buffer s)" "i \<le> n"
  shows "\<exists>b. clear_loop offset i n s = Some (s\<lparr>bit_buffer := b\<rparr>) \<and> length b = length (bit_buffer s) \<and>
    (\<forall>j < length b. b ! j = (if offset + i \<le> j \<and> j < offset + n then 0 else bit_buffer s ! j))"
  using assms
proof (induction "n - i" arbitrary: i s)
  case 0
  then show ?case by (subst clear_loop.simps) (auto intro!: exI [of _ "bit_buffer s"])
next
  case prems: (Suc k)
  note IH = prems(1) and hyps = prems(3-)
  show ?case
  proof (cases "i < n")
    case False
    then have "clear_loop offset i n s = Some s" by (subst clear_loop.simps) simp
    then show ?thesis using False by (intro exI [of _ "bit_buffer s"]) auto
  next
    case True
    define s' where "s' = s\<lparr>bit_buffer := (bit_buffer s)[offset + i := 0]\<rparr>"
    have st: "store (bit_buffer s) (offset + i) 0 = Some ((bit_buffer s)[offset + i := 0])"
      using True hyps(1) by (simp add: store_def)
    have step: "clear_loop offset i n s = clear_loop offset (i + 1) n s'"
      using True st by (subst clear_loop.simps) (simp add: s'_def)
    have nx: "k = n - (i + 1)" "offset + n \<le> length (bit_buffer s')" "i + 1 \<le> n"
      using prems(2) True hyps(1) by (auto simp: s'_def)
    obtain b where b: "clear_loop offset (i + 1) n s' = Some (s'\<lparr>bit_buffer := b\<rparr>)" "length b = length (bit_buffer s')"
      "\<forall>j < length b. b ! j = (if offset + (i + 1) \<le> j \<and> j < offset + n then 0 else bit_buffer s' ! j)"
      using IH [OF nx] by blast
    have "b ! j = (if offset + i \<le> j \<and> j < offset + n then 0 else bit_buffer s ! j)" if "j < length b" for j
      using b(2,3) that True by (cases "j = offset + i") (auto simp: s'_def)
    then show ?thesis using b step by (intro exI [of _ b]) (simp add: s'_def)
  qed
qed

definition with_half :: "bool \<Rightarrow> nat list \<Rightarrow> nat list \<Rightarrow> nat list" where
  "with_half high h b = (if high then take 72 b @ h else h @ drop 72 b)"

text \<open>The LED that comes next after a half from the LED \<open>m\<close> on.\<close>

definition next_led :: "nat \<Rightarrow> nat \<Rightarrow> nat" where
  "next_led N m = (if m < N then min (m + 3) N else m + 1)"

lemma fill_spec:
  assumes "strip_ok xs N s" "leds_sent s = int m" "m \<le> N + 2"
  shows "ws2812_fill_bit_buffer high s = Some (s\<lparr>bit_buffer := with_half high (half_from (take N xs) m) (bit_buffer s),
    stage := if m + 3 \<le> N then Sending else Done, leds_sent := int (next_led N m)\<rparr>)"
proof -
  let ?s = "s\<lparr>stage := Sending\<rparr>" and ?o = "if high then 72 else 0 :: nat" and ?e = "min 72 (24 * (N - m))"
  note so = assms(1) [unfolded strip_ok_def]
  have so1: "strip_ok xs N ?s" "leds_sent ?s = int m" using assms(1,2) by (simp_all add: strip_ok_def)
  have "?o + 72 \<le> 144" "0 \<le> ?e" "?e = max 0 (min 72 (24 * (N - m)))" by simp_all
  from fill_loop_spec [OF so1 assms(3) this, of "leds_sent s"] obtain b where
    b: "fill_loop ?o 0 (leds_sent s) ?s = Some (?e, if 0 < ?e then int (m + (?e - 1) div 24) else leds_sent s,
      ?s\<lparr>bit_buffer := b, stage := if ?e < 72 then Done else stage ?s\<rparr>)" "length b = 144"
    "\<forall>j < 144. b ! j = (if ?o + 0 \<le> j \<and> j < ?o + ?e then pulse (xs ! (m + (j - ?o) div 24)) ((j - ?o) mod 24)
      else bit_buffer ?s ! j)" by auto
  let ?s2 = "?s\<lparr>bit_buffer := b, stage := if ?e < 72 then Done else stage ?s\<rparr>"
  have "?o + 72 \<le> length (bit_buffer ?s2)" "?e \<le> 72" using b(2) by simp_all
  from clear_loop_spec [OF this] obtain c where
    c: "clear_loop ?o ?e 72 ?s2 = Some (?s2\<lparr>bit_buffer := c\<rparr>)" "length c = 144"
    "\<forall>j < 144. c ! j = (if ?o + ?e \<le> j \<and> j < ?o + 72 then 0 else b ! j)" using b(2) by auto
  have "c = with_half high (half_from (take N xs) m) (bit_buffer s)"
  proof (rule nth_equalityI)
    show "length c = length (with_half high (half_from (take N xs) m) (bit_buffer s))" using c(2) so by (simp add: with_half_def)
    fix j assume "j < length c"
    then have j: "j < 144" using c(2) by simp
    have h: "half_from (take N xs) m ! (j - ?o) =
        (if j - ?o < ?e then pulse (xs ! (m + (j - ?o) div 24)) ((j - ?o) mod 24) else 0)" if "j - ?o < 72"
    proof -
      have "m + (j - ?o) div 24 < N" if "j - ?o < 24 * (N - m)"
        using that by (auto simp: div_less_iff_less_mult mult.commute)
      then show ?thesis using half_from_nth [OF that, of "take N xs" m] that so by auto
    qed
    show "c ! j = with_half high (half_from (take N xs) m) (bit_buffer s) ! j"
      using c(3) b(3) j h so by (auto simp: with_half_def nth_append min_def)
  qed
  moreover have "(if 0 < ?e then int (m + (?e - 1) div 24) else leds_sent s) + 1 = int (next_led N m)"
  proof (cases "m < N")
    case True
    consider "N - m = 1" | "N - m = 2" | "3 \<le> N - m" using True by linarith
    then show ?thesis using True by cases (auto simp: next_led_def)
  qed (use assms(2) in \<open>simp add: next_led_def\<close>)
  moreover have "checked (int (next_led N m)) = Some (int (next_led N m))"
    using so assms(3) by (intro checked_ok) (auto simp: next_led_def)
  moreover have "(if ?e < 72 then Done else Sending) = (if m + 3 \<le> N then Sending else Done)" by auto
  ultimately show ?thesis using b(1) c(1) by (simp add: ws2812_fill_bit_buffer_def)
qed


section \<open>Sending a strip\<close>

text \<open>
  The half number \<open>k\<close> is about to be sent and the next one is in the other half; all of the strip is in the ring once the stage
  is not \<open>Sending\<close> any more.
\<close>

abbreviation half :: "32 word list \<Rightarrow> nat \<Rightarrow> nat \<Rightarrow> nat list" where
  "half xs N k \<equiv> half_from (take N xs) (3 * k)"

definition ring :: "nat \<Rightarrow> nat list \<Rightarrow> nat list \<Rightarrow> nat list" where
  "ring k h h' = (if even k then h @ h' else h' @ h)"

definition ready :: "32 word list \<Rightarrow> nat \<Rightarrow> nat \<Rightarrow> ws2812 \<Rightarrow> bool" where
  "ready xs N k s \<longleftrightarrow> strip_ok xs N s \<and> dma_enabled s \<and> bit_buffer s = ring k (half xs N k) (half xs N (k + 1)) \<and>
     (if 3 * (k + 2) \<le> N then stage s = Sending \<and> leds_sent s = int (3 * (k + 2))
      else stage s = Done \<and> (\<exists>m. leds_sent s = int m \<and> N \<le> m \<and> m \<le> N + 2))"

lemma half_empty: "N \<le> m \<Longrightarrow> half_from (take N xs) m = replicate 72 0"
  by (simp add: half_from_def)

lemma IRQ_half:
  "DMA1_Stream6_IRQHandler True False s = half_sent (ws2812_fill_bit_buffer False) s"
  "DMA1_Stream6_IRQHandler False True s = half_sent (ws2812_fill_bit_buffer True) s"
  unfolding DMA1_Stream6_IRQHandler_def
  by (simp_all add: ws2812_fill_low_bit_buffer_def [abs_def] ws2812_fill_high_bit_buffer_def [abs_def])

lemma ring_halves:
  "length h = 72 \<Longrightarrow> length h' = 72 \<Longrightarrow> (if odd k then drop 72 (ring k h h') else take 72 (ring k h h')) = h"
  "length h = 72 \<Longrightarrow> length h' = 72 \<Longrightarrow> with_half (odd k) h'' (ring k h h') = ring (k + 1) h' h''"
  by (auto simp: ring_def with_half_def)

lemma transmit_step:
  assumes "dma_enabled s" "half_sent (ws2812_fill_bit_buffer (odd k)) s = Some s'" "bit_buffer s = ring k h h'" "length h = 72"
    and "length h' = 72" "transmit n (odd (k + 1)) s' = Some (rest, s'')"
  shows "transmit (Suc n) (odd k) s = Some (h @ rest, s'')"
  using assms ring_halves(1) [OF assms(4,5), of k] by (cases "odd k"; subst transmit.simps) (simp_all add: IRQ_half)

text \<open>At rest the ring is empty and nothing is sent.\<close>

definition at_rest :: "ws2812 \<Rightarrow> bool" where
  "at_rest s \<longleftrightarrow> stage s = Idle \<and> \<not> dma_enabled s \<and> bit_buffer s = replicate 144 0 \<and> oc_value s = 0"

lemma transmit_last:
  assumes "dma_enabled s" "stage s = Idle" "bit_buffer s = ring k h h'" "length h = 72" "length h' = 72"
  shows "\<exists>s'. transmit (Suc n) (odd k) s = Some (h, s') \<and> at_rest s'"
proof -
  have l: "0 + 144 \<le> length (bit_buffer s)" using assms(3-5) by (simp add: ring_def)
  obtain b where b: "clear_loop 0 0 144 s = Some (s\<lparr>bit_buffer := b\<rparr>)" "length b = length (bit_buffer s)"
    "\<forall>j < length b. b ! j = (if 0 + 0 \<le> j \<and> j < 0 + 144 then 0 else bit_buffer s ! j)"
    using clear_loop_spec [OF l, of 0] by auto
  have "length b = 144" using b(2) assms(3-5) by (simp add: ring_def)
  then have r: "b = replicate 144 0" using b(3) by (intro nth_equalityI) auto
  let ?s = "s\<lparr>bit_buffer := b, dma_enabled := False, oc_value := 0\<rparr>"
  have "half_sent (ws2812_fill_bit_buffer (odd k)) s = Some ?s"
    using assms(2) b(1) by (simp add: half_sent_def ws2812_clear_bit_buffer_def)
  moreover have "transmit n (odd (k + 1)) ?s = Some ([], ?s)" by (subst transmit.simps) simp
  ultimately have "transmit (Suc n) (odd k) s = Some (h @ [], ?s)"
    using transmit_step [OF assms(1) _ assms(3-5)] by blast
  then show ?thesis using assms(2) r by (auto simp: at_rest_def)
qed

definition last_half :: "nat \<Rightarrow> nat \<Rightarrow> nat" where
  "last_half N k = max (k + 1) (N div 3)"

lemma transmit_ready:
  assumes "ready xs N k s" "last_half N k < k + n"
  shows "\<exists>s'. transmit n (odd k) s = Some (concat (map (half xs N) [k..<last_half N k + 1]), s') \<and> at_rest s'"
  using assms
proof (induction n arbitrary: k s)
  case 0
  then show ?case by (simp add: last_half_def)
next
  case (Suc n)
  have so: "strip_ok xs N s" "dma_enabled s" "bit_buffer s = ring k (half xs N k) (half xs N (k + 1))"
    using Suc.prems(1) by (simp_all add: ready_def)
  have len: "length (half xs N k) = 72" "length (half xs N (k + 1)) = 72" by simp_all
  note rh = ring_halves(2) [OF len]
  show ?case
  proof (cases "3 * (k + 2) \<le> N")
    case True
    then have st: "stage s = Sending" "leds_sent s = int (3 * (k + 2))" using Suc.prems(1) by (simp_all add: ready_def)
    define s' where "s' = s\<lparr>bit_buffer := ring (k + 1) (half xs N (k + 1)) (half xs N (k + 2)),
      stage := if 3 * (k + 2) + 3 \<le> N then Sending else Done, leds_sent := int (next_led N (3 * (k + 2)))\<rparr>"
    have f: "half_sent (ws2812_fill_bit_buffer (odd k)) s = Some s'"
      using fill_spec [OF so(1) st(2), of "odd k"] True st(1) so(3) rh by (simp add: half_sent_def s'_def)
    have "ready xs N (k + 1) s'"
      using so True by (auto simp: ready_def s'_def strip_ok_def next_led_def ring_def)
    moreover have l: "last_half N (k + 1) = last_half N k" "k + 2 \<le> last_half N k" using True by (auto simp: last_half_def)
    ultimately obtain s'' where s'': "transmit n (odd (k + 1)) s' = Some (concat (map (half xs N) [k + 1..<last_half N k + 1]), s'')" "at_rest s''"
      using Suc.IH [of "k + 1" s'] Suc.prems(2) by auto
    have "[k..<last_half N k + 1] = k # [k + 1..<last_half N k + 1]" using l(2) by (subst upt_rec) simp
    then show ?thesis using transmit_step [OF so(2) f so(3) len s''(1)] s''(2) by auto
  next
    case False
    then obtain m where st: "stage s = Done" "leds_sent s = int m" "N \<le> m" "m \<le> N + 2"
      using Suc.prems(1) by (auto simp: ready_def)
    have l: "last_half N k = k + 1" using False by (simp add: last_half_def)
    define s' where "s' = s\<lparr>bit_buffer := ring (k + 1) (half xs N (k + 1)) (replicate 72 0), stage := Idle, leds_sent := int (m + 1)\<rparr>"
    have f: "half_sent (ws2812_fill_bit_buffer (odd k)) s = Some s'"
      using fill_spec [OF so(1) st(2,4), of "odd k"] st so(3) rh half_empty [OF st(3)]
      by (simp add: half_sent_def s'_def next_led_def)
    obtain n' where n': "n = Suc n'" using Suc.prems(2) l by (cases n) auto
    obtain s'' where s'': "transmit n (odd (k + 1)) s' = Some (half xs N (k + 1), s'')" "at_rest s''"
      using transmit_last [of s' "k + 1" "half xs N (k + 1)" "replicate 72 0" n'] so(2) n' by (auto simp: s'_def)
    show ?thesis using transmit_step [OF so(2) f so(3) len s''(1)] s''(2) l by auto
  qed
qed


text \<open>The halves that are sent are the pulses of the strip and zeros behind them.\<close>

lemma concat_halves:
  "concat (map (half xs N) [0..<n]) =
     concat (map led_pulses (take (3 * n) (take N xs))) @ replicate (72 * n - 24 * length (take (3 * n) (take N xs))) 0"
proof (induction n)
  case (Suc n)
  let ?ys = "take N xs"
  have t: "take (3 * Suc n) ?ys = take (3 * n) ?ys @ take 3 (drop (3 * n) ?ys)" 
    using take_add [of "3 * n" 3 ?ys] by (simp only: mult_Suc_right add.commute)
  have l: "length (take (3 * n) ?ys) = min (3 * n) (length ?ys)" "length (take 3 (drop (3 * n) ?ys)) = min 3 (length ?ys - 3 * n)"
    by (simp_all only: length_take length_drop min.commute)
  show ?case
  proof (cases "3 * n \<le> length ?ys")
    case True
    then have "72 * n - 24 * length (take (3 * n) ?ys) = 0" using l(1) by simp
    moreover have "72 * Suc n - 24 * length (take (3 * Suc n) ?ys) = 72 - 24 * length (take 3 (drop (3 * n) ?ys))"
      unfolding t length_append using l(1) True by (simp only:) auto
    ultimately show ?thesis using Suc.IH unfolding t by (simp add: half_from_def Let_def)
  next
    case False
    then have "take 3 (drop (3 * n) ?ys) = []" by (intro take_eq_Nil [THEN iffD2] disjI2 drop_all) (simp only: not_le)
    moreover have "72 * Suc n - 24 * length (take (3 * n) ?ys) = (72 * n - 24 * length (take (3 * n) ?ys)) + 72"
      using l(1) by (auto simp: min_def)
    then have "replicate (72 * Suc n - 24 * length (take (3 * n) ?ys)) (0 :: nat) =
        replicate (72 * n - 24 * length (take (3 * n) ?ys)) 0 @ replicate 72 0" by (simp only: replicate_add)
    ultimately show ?thesis using Suc.IH unfolding t
      by (simp del: length_take replicate_0 replicate.simps(2) mult_Suc_right take_take add: half_from_def Let_def)
  qed
qed simp

lemma send_ready:
  assumes "24 * N < 2 ^ 31" "N \<le> length xs" "length (bit_buffer s) = 144"
  shows "\<exists>s'. ws2812_send xs (int N) s = Some s' \<and> ready xs N 0 s'"
proof -
  let ?s0 = "s\<lparr>leds := xs, led_count := int N, leds_sent := 0\<rparr>"
  have so0: "strip_ok xs N ?s0" "leds_sent ?s0 = int 0" using assms by (simp_all add: strip_ok_def)
  define s1 where "s1 = ?s0\<lparr>bit_buffer := with_half False (half_from (take N xs) 0) (bit_buffer ?s0),
    stage := if 0 + 3 \<le> N then Sending else Done, leds_sent := int (next_led N 0)\<rparr>"
  have f0: "ws2812_fill_bit_buffer False ?s0 = Some s1" using fill_spec [OF so0, of False] by (simp add: s1_def)
  have so1: "strip_ok xs N s1" "leds_sent s1 = int (next_led N 0)" "next_led N 0 \<le> N + 2"
    using assms by (auto simp: strip_ok_def s1_def with_half_def next_led_def)
  define s2 where "s2 = s1\<lparr>bit_buffer := with_half True (half_from (take N xs) (next_led N 0)) (bit_buffer s1),
    stage := if next_led N 0 + 3 \<le> N then Sending else Done, leds_sent := int (next_led N (next_led N 0))\<rparr>"
  have f1: "ws2812_fill_bit_buffer True s1 = Some s2" using fill_spec [OF so1, of True] by (simp add: s2_def)
  have h: "half_from (take N xs) (next_led N 0) = half xs N 1"
  proof (cases "3 \<le> N")
    case False
    then have "N \<le> next_led N 0" "N \<le> 3 * 1" by (auto simp: next_led_def)
    then show ?thesis using half_empty by metis
  qed (simp add: next_led_def)
  have b: "bit_buffer s2 = ring 0 (half xs N 0) (half xs N (0 + 1))"
    using assms(3) h by (simp add: s2_def s1_def with_half_def ring_def)
  have n: "if 6 \<le> N then next_led N (next_led N 0) = 6 else N \<le> next_led N (next_led N 0) \<and> next_led N (next_led N 0) \<le> N + 2"
    by (auto simp: next_led_def)
  have "ready xs N 0 (s2\<lparr>dma_enabled := True\<rparr>)"
  proof -
    have "strip_ok xs N (s2\<lparr>dma_enabled := True\<rparr>)" using so1(1) assms(3) by (simp add: strip_ok_def s2_def s1_def with_half_def)
    moreover have "stage s2 = (if 6 \<le> N then Sending else Done)" by (auto simp: s2_def next_led_def)
    ultimately show ?thesis using b n by (auto simp: ready_def s2_def)
  qed
  moreover have "ws2812_send xs (int N) s = Some (s2\<lparr>dma_enabled := True\<rparr>)"
    using f0 f1 by (simp add: ws2812_send_def ws2812_init_bit_buffer_def ws2812_fill_low_bit_buffer_def ws2812_fill_high_bit_buffer_def)
  ultimately show ?thesis by blast
qed

text \<open>
  C12. Sending a strip returns, and what then goes out on the line, until the transfer stops by itself, is the 24 pulses of each LED in
  order, followed by zeros that fill up the last halves; the driver is at rest again.
\<close>

theorem strip_is_sent:
  assumes "24 * N < 2 ^ 31" "N \<le> length xs" "length (bit_buffer s) = 144"
  shows "\<exists>s1 s2 n. ws2812_send xs (int N) s = Some s1 \<and> ws2812_is_sending s1 \<and>
    transmit (max 1 (N div 3) + 1) False s1 = Some (concat (map led_pulses (take N xs)) @ replicate n 0, s2) \<and> at_rest s2"
proof -
  obtain s1 where s1: "ws2812_send xs (int N) s = Some s1" "ready xs N 0 s1" using send_ready [OF assms] by blast
  have l: "last_half N 0 = max 1 (N div 3)" by (simp add: last_half_def)
  obtain s2 :: ws2812 where s2: "transmit (max 1 (N div 3) + 1) False s1 = Some (concat (map (half xs N) [0..<max 1 (N div 3) + 1]), s2)" "at_rest s2"
    using transmit_ready [OF s1(2), of "max 1 (N div 3) + 1"] unfolding l by auto
  have "N < 3 * (N div 3) + 3" by presburger
  moreover have "N div 3 \<le> max 1 (N div 3)" by simp
  ultimately have "N \<le> 3 * (max 1 (N div 3) + 1)" by (simp only: distrib_left)
  then have "take (3 * (max 1 (N div 3) + 1)) (take N xs) = take N xs" by (intro take_all) simp
  moreover have "ws2812_is_sending s1" using s1(2) by (auto simp: ready_def ws2812_is_sending_def split: if_splits)
  ultimately show ?thesis using s1(1) s2 concat_halves [where xs = xs and N = N and n = "max 1 (N div 3) + 1"] by metis
qed

theorem strip_is_sent_witness:
  "\<exists>s1 s2 n. ws2812_send [0x00FF0000, 0xFF] (int 2) (ws2812_init \<lparr>leds = [], led_count = 0, leds_sent = 0, stage = Reset,
      bit_buffer = replicate 144 0, dma_enabled = True, oc_value = 1\<rparr>) = Some s1 \<and> ws2812_is_sending s1 \<and>
    transmit (max 1 (2 div 3) + 1) False s1 = Some (concat (map led_pulses (take 2 [0x00FF0000, 0xFF])) @ replicate n 0, s2) \<and> at_rest s2"
  by (rule strip_is_sent) (simp_all add: ws2812_init_def)

end
