(* ===== verification/Lwip_Chksum.thy ===== *)
theory Lwip_Chksum
  imports Prelude
begin

text \<open>
  The Internet checksum of the TCP/IP stack, \<open>src/LwIP/src/core/ipv4/inet_chksum.c\<close>, with the second of its three algorithms, which is
  the configured one: data are summed halfword by halfword from the next even address on, and a sum that began at an odd address is
  swapped. The reference is the ones' complement sum of the halfwords of the whole data, which knows neither addresses nor
  buffers.
\<close>

section \<open>Words\<close>

text \<open>A halfword in memory on the little-endian target.\<close>

definition halfword :: "byte \<Rightarrow> byte \<Rightarrow> 32 word" where
  "halfword a b = ucast a + 256 * ucast b"

definition FOLD_U32T :: "32 word \<Rightarrow> 32 word" where
  "FOLD_U32T u = drop_bit 16 u + (u AND 0x0000ffff)"

definition SWAP_BYTES_IN_WORD :: "32 word \<Rightarrow> 32 word" where
  "SWAP_BYTES_IN_WORD w = push_bit 8 (w AND 0xff) OR drop_bit 8 (w AND 0xff00)"

definition lwip_htons :: "16 word \<Rightarrow> 16 word" where
  "lwip_htons n = push_bit 8 (n AND 0xff) OR drop_bit 8 (n AND 0xff00)"

section \<open>The checksum of a buffer\<close>

text \<open>The loop over the halfwords; what is left is at most one byte.\<close>

fun sum_loop :: "byte list \<Rightarrow> 32 word \<Rightarrow> 32 word \<times> byte list" where
  "sum_loop (a # b # bs) acc = sum_loop bs (acc + halfword a b)"
| "sum_loop bs acc = (acc, bs)"

text \<open>The data are the bytes that the length gives; the flag tells whether their address is odd.\<close>

definition lwip_standard_chksum :: "bool \<Rightarrow> byte list \<Rightarrow> 16 word" where
  "lwip_standard_chksum at_odd bs =
     (let (t1, bs) = (if at_odd \<and> bs \<noteq> [] then (hd bs, tl bs) else (0, bs));
          (acc, rest) = sum_loop bs 0;
          t0 = (if rest \<noteq> [] then hd rest else 0);
          acc = acc + halfword t0 t1;
          acc = FOLD_U32T acc;
          acc = FOLD_U32T acc;
          acc = (if at_odd then SWAP_BYTES_IN_WORD acc else acc)
      in ucast acc)"

definition inet_chksum :: "bool \<Rightarrow> byte list \<Rightarrow> 16 word" where
  "inet_chksum at_odd bs = NOT (lwip_standard_chksum at_odd bs)"

section \<open>Chains of buffers\<close>

text \<open>A buffer of a chain is its payload with the parity of its address.\<close>

type_synonym pbuf_view = "bool \<times> byte list"

fun chain_loop :: "pbuf_view list \<Rightarrow> 32 word \<Rightarrow> bool \<Rightarrow> 32 word \<times> bool" where
  "chain_loop [] acc swapped = (acc, swapped)"
| "chain_loop ((at_odd, bs) # qs) acc swapped =
     (let acc = acc + ucast (lwip_standard_chksum at_odd bs);
          acc = FOLD_U32T acc;
          (swapped, acc) = (if length bs mod 2 \<noteq> 0 then (\<not> swapped, SWAP_BYTES_IN_WORD acc) else (swapped, acc))
      in chain_loop qs acc swapped)"

definition chain_sum :: "pbuf_view list \<Rightarrow> 32 word" where
  "chain_sum p = (let (acc, swapped) = chain_loop p 0 False in if swapped then SWAP_BYTES_IN_WORD acc else acc)"

definition inet_chksum_pbuf :: "pbuf_view list \<Rightarrow> 16 word" where
  "inet_chksum_pbuf p = ucast (NOT (chain_sum p AND 0xffff))"

text \<open>The end of the two checksums with a pseudo header; the addresses are in network byte order.\<close>

definition add_pseudo_header :: "32 word \<Rightarrow> 32 word \<Rightarrow> 32 word \<Rightarrow> byte \<Rightarrow> 16 word \<Rightarrow> 16 word" where
  "add_pseudo_header acc src dest proto proto_len =
     (let acc = acc + (src AND 0xffff);
          acc = acc + (drop_bit 16 src AND 0xffff);
          acc = acc + (dest AND 0xffff);
          acc = acc + (drop_bit 16 dest AND 0xffff);
          acc = acc + ucast (lwip_htons (ucast proto));
          acc = acc + ucast (lwip_htons proto_len);
          acc = FOLD_U32T acc;
          acc = FOLD_U32T acc
      in ucast (NOT (acc AND 0xffff)))"

definition inet_chksum_pseudo :: "pbuf_view list \<Rightarrow> 32 word \<Rightarrow> 32 word \<Rightarrow> byte \<Rightarrow> 16 word \<Rightarrow> 16 word" where
  "inet_chksum_pseudo p src dest proto proto_len = add_pseudo_header (chain_sum p) src dest proto proto_len"

text \<open>The checksum of the first \<open>chksum_len\<close> bytes only; \<open>None\<close> is the failed assertion that less than 0x7fff bytes are left.\<close>

fun partial_loop :: "pbuf_view list \<Rightarrow> 16 word \<Rightarrow> 32 word \<Rightarrow> bool \<Rightarrow> (32 word \<times> bool) option" where
  "partial_loop [] chksum_len acc swapped = Some (acc, swapped)"
| "partial_loop ((at_odd, bs) # qs) chksum_len acc swapped =
     (if chksum_len > 0 then do {
        let chklen = (if length bs > unat chksum_len then unat chksum_len else length bs);
        let acc = acc + ucast (lwip_standard_chksum at_odd (take chklen bs));
        let chksum_len = chksum_len - word_of_nat chklen;
        if \<not> chksum_len < 0x7fff then None
        else do {
          let acc = FOLD_U32T acc;
          let (swapped, acc) = (if length bs mod 2 \<noteq> 0 then (\<not> swapped, SWAP_BYTES_IN_WORD acc) else (swapped, acc));
          partial_loop qs chksum_len acc swapped } }
      else Some (acc, swapped))"

definition inet_chksum_pseudo_partial ::
  "pbuf_view list \<Rightarrow> 32 word \<Rightarrow> 32 word \<Rightarrow> byte \<Rightarrow> 16 word \<Rightarrow> 16 word \<Rightarrow> 16 word option" where
  "inet_chksum_pseudo_partial p src dest proto proto_len chksum_len = do {
     (acc, swapped) \<leftarrow> partial_loop p chksum_len 0 False;
     let acc = (if swapped then SWAP_BYTES_IN_WORD acc else acc);
     Some (add_pseudo_header acc src dest proto proto_len) }"

section \<open>The ones' complement sum\<close>

text \<open>The sum of the halfwords of the data, and its residue in the range of a halfword that is 0 only for 0.\<close>

fun halfwords :: "byte list \<Rightarrow> nat" where
  "halfwords [] = 0"
| "halfwords [a] = unat a"
| "halfwords (a # b # bs) = unat a + 256 * unat b + halfwords bs"

definition ones_sum :: "nat \<Rightarrow> nat" where
  "ones_sum n = (if n = 0 then 0 else (n - 1) mod 65535 + 1)"

text \<open>Numbers are alike when they stand for the same sum.\<close>

definition alike :: "nat \<Rightarrow> nat \<Rightarrow> bool" where
  "alike m n \<longleftrightarrow> m mod 65535 = n mod 65535 \<and> (m = 0 \<longleftrightarrow> n = 0)"

lemma alike_refl [simp]: "alike m m"
  by (simp add: alike_def)

lemma alike_sym: "alike m n \<Longrightarrow> alike n m"
  by (auto simp: alike_def)

lemma alike_trans: "alike l m \<Longrightarrow> alike m n \<Longrightarrow> alike l n"
  by (auto simp: alike_def)

lemma alike_add: "alike a b \<Longrightarrow> alike c d \<Longrightarrow> alike (a + c) (b + d)"
  unfolding alike_def by (metis add_is_0 mod_add_cong)

lemma alike_swap: "alike a b \<Longrightarrow> alike (256 * a) (256 * b)"
  unfolding alike_def by (metis mod_mult_right_eq mult_is_0 zero_neq_numeral)

lemma alike_wrap: "alike (65536 * a + b) (a + b)"
proof -
  have "65536 * a + b = 65535 * a + (a + b)" by simp
  then have "(65536 * a + b) mod 65535 = (a + b) mod 65535" by (simp only: mod_mult_self4)
  then show ?thesis by (auto simp: alike_def)
qed

lemma alike_swap_twice: "alike (256 * (256 * a)) a"
  using alike_wrap [of a 0] by simp

lemma alike_unique:
  assumes "alike m n" "m \<le> 65535" "n \<le> 65535"
  shows "m = n"
proof -
  have "m mod 65535 = (if m = 65535 then 0 else m)" "n mod 65535 = (if n = 65535 then 0 else n)" using assms(2,3) by auto
  then show ?thesis using assms(1) unfolding alike_def by (metis zero_neq_numeral)
qed

lemma ones_sum_le [simp]: "ones_sum n \<le> 65535"
proof (cases "n = 0")
  case False
  have "(n - 1) mod 65535 < 65535" by (rule mod_less_divisor) simp
  moreover have "ones_sum n = (n - 1) mod 65535 + 1" using False by (simp add: ones_sum_def)
  ultimately show ?thesis by linarith
qed (simp add: ones_sum_def)

lemma alike_ones_sum: "alike (ones_sum n) n"
proof (cases "n = 0")
  case False
  have "((n - 1) mod 65535 + 1) mod 65535 = (n - 1 + 1) mod 65535" by (rule mod_add_left_eq)
  then show ?thesis using False by (simp add: ones_sum_def alike_def)
qed (simp add: ones_sum_def)

lemma ones_sum_eq: "m \<le> 65535 \<Longrightarrow> alike m n \<Longrightarrow> m = ones_sum n"
  using alike_unique [OF alike_trans [OF _ alike_sym [OF alike_ones_sum]]] ones_sum_le by blast

lemma ones_sum_cong: "alike m n \<Longrightarrow> ones_sum m = ones_sum n"
  using ones_sum_eq [OF ones_sum_le alike_trans [OF alike_ones_sum]] by blast

text \<open>Data at an odd offset count 256-fold.\<close>

lemma halfwords_Cons: "alike (halfwords (a # bs)) (unat a + 256 * halfwords bs)"
proof (induction bs arbitrary: a rule: halfwords.induct)
  case (3 b c bs)
  have "alike (halfwords (c # bs)) (256 * (256 * unat c) + 256 * halfwords bs)"
    using alike_trans [OF 3 [of c] alike_add [OF alike_sym [OF alike_swap_twice [of "unat c"]] alike_refl [of "256 * halfwords bs"]]] .
  from alike_add [OF alike_refl [of "unat a + 256 * unat b"] this] show ?case by (simp add: algebra_simps)
qed simp_all

lemma halfwords_append:
  "alike (halfwords (xs @ ys)) (halfwords xs + (if even (length xs) then halfwords ys else 256 * halfwords ys))"
proof (induction xs rule: halfwords.induct)
  case (2 a)
  then show ?case using halfwords_Cons [of a ys] by simp
next
  case (3 a b bs)
  then show ?case using alike_add [OF alike_refl [of "unat a + 256 * unat b"] 3] by (simp add: add.assoc)
qed simp

section \<open>The arithmetic of the code\<close>

lemma unat_halfword: "unat (halfword a b) = unat a + 256 * unat b"
proof -
  have a: "unat (ucast a :: 32 word) = unat a" "unat (ucast b :: 32 word) = unat b"
    by (simp_all add: unsigned_ucast_eq take_bit_nat_eq_self_iff less_le_trans [OF unsigned_less])
  have lt: "unat a < 256" "unat b < 256" using unsigned_less [of a] unsigned_less [of b] by simp_all
  then have m: "unat (256 * ucast b :: 32 word) = 256 * unat b"
    using unat_mult_lem [of "256 :: 32 word" "ucast b"] a(2) by simp
  then show ?thesis
    using unat_add_lem [of "ucast a :: 32 word" "256 * ucast b"] a(1) lt by (simp add: halfword_def)
qed

lemma halfword_nat: "halfword a b = word_of_nat (unat a + 256 * unat b)"
proof -
  have "word_of_nat (unat (halfword a b)) = halfword a b" by simp
  then show ?thesis unfolding unat_halfword ..
qed

lemma len32: "LENGTH(32) = 32"
  by simp

lemma unat_less: "unat u < 4294967296" for u :: "32 word"
  using unsigned_less [of u, where 'a = nat] by simp

lemma unat_FOLD: "unat (FOLD_U32T u) = unat u div 65536 + unat u mod 65536"
proof -
  have "take_bit 32 (unat u) = unat u" by (metis take_bit_nat_eq_self unsigned_less len32)
  then have "unat (drop_bit 16 u) = drop_bit 16 (unat u)" by (simp add: unsigned_drop_bit_eq)
  then have "unat (drop_bit 16 u) = unat u div 65536" by (simp only: drop_bit_eq_div) simp
  moreover have m: "u AND 0x0000ffff = take_bit 16 u" by (simp add: take_bit_eq_mask mask_eq_exp_minus_1)
  have "unat (u AND 0x0000ffff) = unat u mod 65536"
    unfolding m by (simp only: unsigned_take_bit_eq) (simp add: take_bit_eq_mod)
  moreover have "unat u div 65536 + unat u mod 65536 < 4294967296"
  proof -
    have "unat u < 4294967296" by (rule unat_less)
    moreover have "unat u div 65536 * 65536 + unat u mod 65536 = unat u" by (rule div_mult_mod_eq)
    ultimately show ?thesis by linarith
  qed
  ultimately show ?thesis
    using unat_add_lem [of "drop_bit 16 u" "u AND 0x0000ffff"] unfolding FOLD_U32T_def by simp
qed

lemma alike_FOLD: "alike (unat (FOLD_U32T u)) (unat u)"
  using alike_sym [OF alike_wrap [of "unat u div 65536" "unat u mod 65536"]] by (simp add: unat_FOLD mult.commute)

lemma unat_SWAP:
  assumes "unat u \<le> 65535"
  shows "unat (SWAP_BYTES_IN_WORD u) = 256 * (unat u mod 256) + unat u div 256"
proof -
  let ?a = "push_bit 8 (take_bit 8 u)" and ?b = "drop_bit 8 u"
  have hi: "\<not> bit u n" if "16 \<le> n" for n
  proof -
    have "unat u < 2 ^ 16" using assms by simp
    then have "take_bit 16 (unat u) = unat u" by (rule take_bit_nat_eq_self)
    then have "\<not> bit (unat u) n" using that bit_take_bit_iff [of 16 "unat u" n] by simp
    then show ?thesis by (auto simp: bit_unsigned_iff)
  qed
  have "(0xff00 :: 32 word) = mask 16 AND NOT (mask 8)" by (simp add: mask_eq_exp_minus_1)
  then have b: "drop_bit 8 (u AND 0xff00) = ?b"
  proof (simp only:, intro bit_eqI)
    fix n
    show "bit (drop_bit 8 (u AND (mask 16 AND NOT (mask 8)))) n = bit ?b n"
      using hi [of "n + 8"] by (cases "n < 8") (auto simp: bit_simps add.commute not_less)
  qed
  have "push_bit 8 (u AND 0xff) = ?a" by (simp add: take_bit_eq_mask mask_eq_exp_minus_1)
  moreover have "?a OR ?b = ?a + ?b"
    by (rule disjunctive_add [symmetric]) (use hi in \<open>auto simp: bit_simps\<close>)
  ultimately have "SWAP_BYTES_IN_WORD u = ?a + ?b" using b by (simp add: SWAP_BYTES_IN_WORD_def)
  moreover have "unat ?b = unat u div 256"
  proof -
    have "take_bit 32 (unat u) = unat u" by (metis take_bit_nat_eq_self unsigned_less len32)
    then have "unat ?b = drop_bit 8 (unat u)" by (simp add: unsigned_drop_bit_eq)
    then show ?thesis by (simp only: drop_bit_eq_div) simp
  qed
  moreover have "unat ?a = 256 * (unat u mod 256)"
  proof -
    have t: "unat (take_bit 8 u) = unat u mod 256" by (simp only: unsigned_take_bit_eq) (simp add: take_bit_eq_mod)
    moreover have "unat (256 * take_bit 8 u) = 256 * unat (take_bit 8 u)"
    proof -
      have "unat u mod 256 < 16777216" by (rule less_trans [of _ 256]) simp_all
      then show ?thesis using unat_mult_lem [of 256 "take_bit 8 u"] t by simp
    qed
    ultimately show ?thesis by (simp add: push_bit_eq_mult mult.commute)
  qed
  moreover have "256 * (unat u mod 256) + unat u div 256 < 2 ^ 32" using assms by simp
  ultimately show ?thesis using unat_add_lem [of ?a ?b] by simp
qed

text \<open>Folding once brings a sum of two halfwords into range, and folding twice any word.\<close>

lemma FOLD_once:
  assumes "unat u \<le> 2 * 65535"
  shows "unat (FOLD_U32T u) \<le> 65535"
proof -
  have "unat u div 65536 * 65536 + unat u mod 65536 = unat u" "unat u mod 65536 < 65536"
    by (rule div_mult_mod_eq, simp)
  then show ?thesis using assms unfolding unat_FOLD by linarith
qed

lemma FOLD_le: "unat (FOLD_U32T u) \<le> 2 * 65535"
proof -
  have "unat u div 65536 * 65536 + unat u mod 65536 = unat u" "unat u mod 65536 < 65536" "unat u < 4294967296"
    by (rule div_mult_mod_eq, simp, rule unat_less)
  then show ?thesis unfolding unat_FOLD by linarith
qed

lemma FOLD_twice:
  shows "unat (FOLD_U32T (FOLD_U32T u)) \<le> 65535" "alike (unat (FOLD_U32T (FOLD_U32T u))) (unat u)"
  using FOLD_once [OF FOLD_le] alike_trans [OF alike_FOLD alike_FOLD] by blast+

lemma SWAP_spec:
  assumes "unat u \<le> 65535"
  shows "unat (SWAP_BYTES_IN_WORD u) \<le> 65535" "alike (unat (SWAP_BYTES_IN_WORD u)) (256 * unat u)"
proof -
  have e: "unat u div 256 * 256 + unat u mod 256 = unat u" "unat u mod 256 < 256"
    by (rule div_mult_mod_eq, simp)
  then show "unat (SWAP_BYTES_IN_WORD u) \<le> 65535" using assms unfolding unat_SWAP [OF assms] by linarith
  have "256 * unat u = 65536 * (unat u div 256) + 256 * (unat u mod 256)" using e(1) by linarith
  then show "alike (unat (SWAP_BYTES_IN_WORD u)) (256 * unat u)"
    using alike_sym [OF alike_wrap [of "unat u div 256" "256 * (unat u mod 256)"]] unfolding unat_SWAP [OF assms]
    by (simp only: add.commute)
qed

lemma sum_loop_spec:
  "sum_loop bs acc = (s, r) \<Longrightarrow> s + word_of_nat (unat (if r \<noteq> [] then hd r else 0)) = acc + word_of_nat (halfwords bs)"
  by (induction bs acc rule: sum_loop.induct) (auto simp: halfword_nat algebra_simps split: if_splits)

lemma halfwords_le: "halfwords bs \<le> 65535 * ((length bs + 1) div 2)"
proof (induction bs rule: halfwords.induct)
  case (2 a)
  then show ?case using unsigned_less [of a, where 'a = nat] by simp
next
  case (3 a b bs)
  have "unat a < 256" "unat b < 256" using unsigned_less [of a, where 'a = nat] unsigned_less [of b, where 'a = nat] by simp_all
  then have "unat a + 256 * unat b \<le> 65535" by linarith
  then show ?case using 3 by simp
qed simp

section \<open>The checksum is the ones' complement sum\<close>

lemma standard_chksum:
  assumes "length bs \<le> 0x20000"
  shows "unat (lwip_standard_chksum at_odd bs) = ones_sum (halfwords bs)"
proof -
  define t1 where "t1 = (if at_odd \<and> bs \<noteq> [] then hd bs else 0)"
  define ds where "ds = (if at_odd \<and> bs \<noteq> [] then tl bs else bs)"
  obtain s r where sr: "sum_loop ds 0 = (s, r)" by fastforce
  define u where "u = s + halfword (if r \<noteq> [] then hd r else 0) t1"
  let ?n = "halfwords ds + 256 * unat t1"
  have w: "u = word_of_nat ?n"
    using sum_loop_spec [OF sr] by (simp add: u_def halfword_nat algebra_simps)
  have "?n < 4294967296"
  proof (cases "at_odd \<and> bs \<noteq> []")
    case True
    then have "length ds \<le> 0x1ffff" using assms by (cases bs) (simp_all add: ds_def)
    then have "(length ds + 1) div 2 \<le> 65536" by simp
    then have "halfwords ds \<le> 65535 * 65536" using halfwords_le [of ds] by linarith
    moreover have "unat t1 < 256" using unsigned_less [of t1, where 'a = nat] by simp
    ultimately show ?thesis by simp
  next
    case False
    then have "t1 = 0" "ds = bs" by (simp_all only: t1_def ds_def if_False)
    moreover have "(length bs + 1) div 2 \<le> 65536" using assms by simp
    then have "halfwords bs \<le> 65535 * 65536" using halfwords_le [of bs] by linarith
    ultimately show ?thesis by simp
  qed
  moreover have "unat (word_of_nat m :: 32 word) = m" if "m < 4294967296" for m using that by (simp add: unat_of_nat)
  ultimately have u: "unat u = ?n" unfolding w by blast
  let ?f = "FOLD_U32T (FOLD_U32T u)"
  let ?r = "if at_odd then SWAP_BYTES_IN_WORD ?f else ?f"
  have c: "lwip_standard_chksum at_odd bs = ucast ?r"
    using sr by (auto simp: lwip_standard_chksum_def Let_def u_def ds_def t1_def)
  have r: "unat ?r \<le> 65535" using FOLD_twice(1) [of u] SWAP_spec(1) by simp
  have "alike (unat ?r) (halfwords bs)"
  proof (cases at_odd)
    case True
    have "alike (unat ?r) (256 * ?n)"
      using True alike_trans [OF SWAP_spec(2) [OF FOLD_twice(1) [of u]] alike_swap [OF FOLD_twice(2) [of u]]] u by simp
    moreover have "alike (256 * ?n) (halfwords bs)"
    proof (cases bs)
      case (Cons b cs)
      have "alike (256 * (256 * unat b) + 256 * halfwords cs) (unat b + 256 * halfwords cs)"
        by (rule alike_add [OF alike_swap_twice alike_refl])
      then show ?thesis
        using True Cons alike_trans [OF _ alike_sym [OF halfwords_Cons [of b cs]]] by (simp add: ds_def t1_def algebra_simps)
    qed (simp add: ds_def t1_def)
    ultimately show ?thesis by (rule alike_trans)
  next
    case False
    then show ?thesis using FOLD_twice(2) [of u] u by (simp add: ds_def t1_def)
  qed
  moreover have "unat (ucast ?r :: 16 word) = unat ?r"
    using r by (simp add: unsigned_ucast_eq take_bit_nat_eq_self_iff)
  ultimately show ?thesis using ones_sum_eq [OF r] c by simp
qed

lemma unat_NOT: "unat (NOT w) = 65535 - unat w" for w :: "16 word"
proof -
  have "NOT w = (- 1) - w" by (simp add: not_eq_complement)
  moreover have "w \<le> - 1" by (rule word_n1_ge)
  moreover have "unat (- 1 :: 16 word) = 65535" by (simp add: unsigned_minus_1_eq_mask mask_eq_exp_minus_1)
  ultimately show ?thesis using unat_sub [of w "- 1"] by simp
qed

lemma inet_chksum_sum:
  "length bs \<le> 0x20000 \<Longrightarrow> unat (inet_chksum at_odd bs) = 65535 - ones_sum (halfwords bs)"
  by (simp add: inet_chksum_def unat_NOT standard_chksum)

section \<open>Chains\<close>

text \<open>The sum kept over a chain, which is swapped while the data before have an odd length.\<close>

definition chain_inv :: "byte list \<Rightarrow> 32 word \<Rightarrow> bool \<Rightarrow> bool" where
  "chain_inv xs acc swapped \<longleftrightarrow> unat acc \<le> 65535 \<and> swapped = odd (length xs) \<and>
     alike (unat acc) (if swapped then 256 * halfwords xs else halfwords xs)"

lemma chain_step:
  fixes at_odd :: bool
  assumes "chain_inv xs acc swapped" "length bs \<le> 0x20000"
  defines "acc' \<equiv> FOLD_U32T (acc + ucast (lwip_standard_chksum at_odd bs))"
  shows "if odd (length bs) then chain_inv (xs @ bs) (SWAP_BYTES_IN_WORD acc') (\<not> swapped) else chain_inv (xs @ bs) acc' swapped"
proof -
  let ?c = "ucast (lwip_standard_chksum at_odd bs) :: 32 word"
  have c: "unat ?c = ones_sum (halfwords bs)"
    using standard_chksum [OF assms(2), of at_odd] le_less_trans [OF ones_sum_le [of "halfwords bs"], of 4294967296]
    by (simp add: unsigned_ucast_eq take_bit_nat_eq_self_iff)
  have a: "unat acc \<le> 65535" "alike (unat acc) (if swapped then 256 * halfwords xs else halfwords xs)" "swapped = odd (length xs)"
    using assms(1) unfolding chain_inv_def by blast+
  have s: "unat (acc + ?c) = unat acc + unat ?c"
    using unat_add_lem [of acc ?c] a(1) c ones_sum_le [of "halfwords bs"] by simp
  have le: "unat (acc + ?c) \<le> 2 * 65535" using s a(1) c ones_sum_le [of "halfwords bs"] by linarith
  have le': "unat acc' \<le> 65535" unfolding acc'_def by (rule FOLD_once [OF le])
  have "alike (unat acc') ((if swapped then 256 * halfwords xs else halfwords xs) + halfwords bs)"
    unfolding acc'_def using alike_trans [OF alike_FOLD [of "acc + ?c"]] alike_add [OF a(2) alike_ones_sum [of "halfwords bs"]]
    by (simp only: s c)
  moreover have "alike ((if swapped then 256 * halfwords xs else halfwords xs) + halfwords bs)
      (if swapped then 256 * halfwords (xs @ bs) else halfwords (xs @ bs))"
  proof (cases swapped)
    case True
    have "alike (256 * halfwords (xs @ bs)) (256 * (halfwords xs + 256 * halfwords bs))"
      using alike_swap [OF halfwords_append [of xs bs]] True a(3) by simp
    moreover have "alike (256 * (halfwords xs + 256 * halfwords bs)) (256 * halfwords xs + halfwords bs)"
      using alike_add [OF alike_refl alike_swap_twice, of "256 * halfwords xs" "halfwords bs"] by (simp add: algebra_simps)
    ultimately have "alike (256 * halfwords xs + halfwords bs) (256 * halfwords (xs @ bs))" by (rule alike_sym [OF alike_trans])
    then show ?thesis using True by simp
  next
    case False
    then show ?thesis using alike_sym [OF halfwords_append [of xs bs]] a(3) by simp
  qed
  ultimately have al: "alike (unat acc') (if swapped then 256 * halfwords (xs @ bs) else halfwords (xs @ bs))" by (rule alike_trans)
  show ?thesis
  proof (cases "odd (length bs)")
    case True
    have "alike (unat (SWAP_BYTES_IN_WORD acc')) (256 * (if swapped then 256 * halfwords (xs @ bs) else halfwords (xs @ bs)))"
      using alike_trans [OF SWAP_spec(2) [OF le'] alike_swap [OF al]] .
    then have "alike (unat (SWAP_BYTES_IN_WORD acc')) (if \<not> swapped then 256 * halfwords (xs @ bs) else halfwords (xs @ bs))"
      using alike_trans [OF _ alike_swap_twice [of "halfwords (xs @ bs)"]] by (cases swapped) simp_all
    then show ?thesis using True SWAP_spec(1) [OF le'] a(3) by (simp add: chain_inv_def)
  next
    case False
    then show ?thesis using al le' a(3) by (simp add: chain_inv_def)
  qed
qed

lemma chain_loop_spec:
  assumes "\<forall>(a, bs) \<in> set p. length bs \<le> 0x20000" "chain_inv xs acc swapped" "chain_loop p acc swapped = (acc', swapped')"
  shows "chain_inv (xs @ concat (map snd p)) acc' swapped'"
  using assms
proof (induction p arbitrary: xs acc swapped)
  case (Cons q p)
  obtain a bs where q: "q = (a, bs)" by fastforce
  let ?c = "FOLD_U32T (acc + ucast (lwip_standard_chksum a bs))"
  have "length bs \<le> 0x20000" using Cons.prems(1) q by auto
  note st = chain_step [OF Cons.prems(2) this, of a]
  have t: "\<forall>(a, bs) \<in> set p. length bs \<le> 0x20000" using Cons.prems(1) by simp
  show ?case
  proof (cases "odd (length bs)")
    case True
    then have "chain_loop p (SWAP_BYTES_IN_WORD ?c) (\<not> swapped) = (acc', swapped')" "chain_inv (xs @ bs) (SWAP_BYTES_IN_WORD ?c) (\<not> swapped)"
      using Cons.prems(3) st by (simp_all add: q Let_def odd_iff_mod_2_eq_one)
    from Cons.IH [OF t this(2,1)] show ?thesis by (simp add: q)
  next
    case False
    then have "chain_loop p ?c swapped = (acc', swapped')" "chain_inv (xs @ bs) ?c swapped"
      using Cons.prems(3) st by (simp_all add: q Let_def even_iff_mod_2_eq_zero)
    from Cons.IH [OF t this(2,1)] show ?thesis by (simp add: q)
  qed
qed simp

lemma chain_sum_spec:
  assumes "\<forall>(a, bs) \<in> set p. length bs \<le> 0x20000"
  shows "unat (chain_sum p) \<le> 65535" "alike (unat (chain_sum p)) (halfwords (concat (map snd p)))"
proof -
  obtain acc swapped where r: "chain_loop p 0 False = (acc, swapped)" by fastforce
  have "chain_inv [] 0 False" by (simp add: chain_inv_def)
  from chain_loop_spec [OF assms this r] have "chain_inv (concat (map snd p)) acc swapped" by simp
  then have i: "unat acc \<le> 65535" "alike (unat acc) (if swapped then 256 * halfwords (concat (map snd p)) else halfwords (concat (map snd p)))"
    unfolding chain_inv_def by blast+
  show "unat (chain_sum p) \<le> 65535" using r i(1) SWAP_spec(1) by (simp add: chain_sum_def)
  show "alike (unat (chain_sum p)) (halfwords (concat (map snd p)))"
  proof (cases swapped)
    case True
    then have "alike (unat (SWAP_BYTES_IN_WORD acc)) (256 * (256 * halfwords (concat (map snd p))))"
      using alike_trans [OF SWAP_spec(2) [OF i(1)] alike_swap [OF i(2)]] by simp
    then show ?thesis using r True alike_trans [OF _ alike_swap_twice] by (simp add: chain_sum_def)
  next
    case False
    then show ?thesis using r i(2) by (simp add: chain_sum_def)
  qed
qed

lemma complement_low:
  fixes acc :: "32 word"
  assumes "unat acc \<le> 65535"
  shows "unat (ucast (NOT (acc AND 0xffff)) :: 16 word) = 65535 - unat acc"
proof -
  have m: "acc AND 0xffff = take_bit 16 acc" by (simp add: take_bit_eq_mask mask_eq_exp_minus_1)
  have "(ucast (NOT (acc AND 0xffff)) :: 16 word) = NOT (ucast acc)"
    unfolding m by (rule bit_eqI) (auto simp: bit_simps)
  moreover have "unat (ucast acc :: 16 word) = unat acc"
    using assms by (simp add: unsigned_ucast_eq take_bit_nat_eq_self_iff)
  ultimately show ?thesis by (simp add: unat_NOT)
qed

lemma pbuf_sum:
  assumes "\<forall>(at_odd, bs) \<in> set p. length bs \<le> 0x20000"
  shows "unat (inet_chksum_pbuf p) = 65535 - ones_sum (halfwords (concat (map snd p)))"
proof -
  have "unat (inet_chksum_pbuf p) = 65535 - unat (chain_sum p)"
    unfolding inet_chksum_pbuf_def by (rule complement_low [OF chain_sum_spec(1) [OF assms]])
  also have "unat (chain_sum p) = ones_sum (halfwords (concat (map snd p)))" by (rule ones_sum_eq [OF chain_sum_spec [OF assms]])
  finally show ?thesis .
qed

section \<open>Properties\<close>

text \<open>
  C19. The checksum of a chain of buffers is the complement of the ones' complement sum of all their data, wherever the data are
  split and wherever the buffers lie, and so is the checksum of one buffer of these data, at any address.
\<close>

theorem inet_chksum_pbuf_is_sum:
  assumes "\<forall>(at_odd, bs) \<in> set p. length bs \<le> 0x20000"
  shows "unat (inet_chksum_pbuf p) = 65535 - ones_sum (halfwords (concat (map snd p))) \<and>
    (length (concat (map snd p)) \<le> 0x20000 \<longrightarrow> inet_chksum_pbuf p = inet_chksum at_odd (concat (map snd p)))"
proof -
  let ?d = "concat (map snd p)"
  note u = pbuf_sum [OF assms]
  moreover have "inet_chksum_pbuf p = inet_chksum at_odd ?d" if "length ?d \<le> 0x20000"
  proof -
    have "unat (inet_chksum_pbuf p) = unat (inet_chksum at_odd ?d)" by (simp add: u inet_chksum_sum [OF that])
    then show ?thesis by (rule unsigned_word_eqI)
  qed
  ultimately show ?thesis by blast
qed

theorem inet_chksum_pbuf_is_sum_witness:
  "inet_chksum_pbuf [(False, [1]), (True, [2, 3]), (True, []), (False, [4, 5, 6])] = inet_chksum True [1, 2, 3, 4, 5, 6] \<and>
   unat (inet_chksum_pbuf [(False, [1]), (True, [2, 3])]) = 65535 - (1 + 2 * 256 + 3)"
  using inet_chksum_pbuf_is_sum [of "[(False, [1]), (True, [2, 3]), (True, []), (False, [4, 5, 6])]" True]
    inet_chksum_pbuf_is_sum [of "[(False, [1]), (True, [2, 3])]"]
  by (simp add: ones_sum_def)

text \<open>
  C20. A packet that carries its checksum is accepted: when the checksum has been computed over the data with 0 in its place,
  the checksum over the data with it is 0, wherever the receiver has put them.
\<close>

theorem checksum_verifies:
  fixes a b :: bool
  assumes "even (length xs)" "length xs + length ys + 2 \<le> 0x20000"
  defines "c \<equiv> inet_chksum a (xs @ [0, 0] @ ys)"
  shows "inet_chksum b (xs @ [ucast c, ucast (drop_bit 8 c)] @ ys) = 0"
proof -
  have parts: "alike (halfwords (xs @ [l, h] @ ys)) (unat l + 256 * unat h + (halfwords xs + halfwords ys))" for l h
    using halfwords_append [of xs "l # h # ys"] assms(1) by (simp add: algebra_simps)
  let ?n = "halfwords xs + halfwords ys"
  have "ones_sum (halfwords (xs @ [0, 0] @ ys)) = ones_sum ?n" using ones_sum_cong [OF parts [of 0 0]] by simp
  then have c: "unat c = 65535 - ones_sum ?n" using assms(2) inet_chksum_sum [of "xs @ [0, 0] @ ys" a] by (simp add: c_def)
  let ?l = "ucast c :: byte" and ?h = "ucast (drop_bit 8 c) :: byte"
  have lh: "unat ?l + 256 * unat ?h = unat c"
  proof -
    have l: "unat ?l = unat c mod 256" by (simp only: unsigned_ucast_eq) (simp add: take_bit_eq_mod)
    have "unat c < 65536" using unsigned_less [of c, where 'a = nat] by simp
    then have "unat c div 256 < 256" by (intro less_mult_imp_div_less) simp
    moreover have "unat (drop_bit 8 c) = unat c div 256"
      using \<open>unat c < 65536\<close> by (simp only: unsigned_drop_bit_eq) (simp add: take_bit_nat_eq_self drop_bit_eq_div)
    ultimately have "unat ?h = unat c div 256" by (simp only: unsigned_ucast_eq) (simp add: take_bit_nat_eq_self)
    then show ?thesis using l by simp
  qed
  have "alike (halfwords (xs @ [?l, ?h] @ ys)) (unat c + ones_sum ?n)"
    using alike_trans [OF parts [of ?l ?h]] alike_add [OF alike_refl alike_sym [OF alike_ones_sum [of ?n]]] lh by simp
  moreover have "unat c + ones_sum ?n = 65535" using c ones_sum_le [of ?n] by simp
  ultimately have "ones_sum (halfwords (xs @ [?l, ?h] @ ys)) = 65535" using ones_sum_eq [of 65535] alike_sym by (metis order_refl)
  then have "unat (inet_chksum b (xs @ [?l, ?h] @ ys)) = 0" using assms(2) by (simp add: inet_chksum_sum)
  then show ?thesis by (simp add: unat_eq_zero)
qed

theorem checksum_verifies_witness:
  "inet_chksum False [0x45, 0x00, 0, 0, 0xFF, 0x45] = 0xB9BB \<and> inet_chksum True [0x45, 0x00, 0xBB, 0xB9, 0xFF, 0x45] = 0"
proof -
  have "unat (inet_chksum False [0x45, 0x00, 0, 0, 0xFF, 0x45]) = unat (0xB9BB :: 16 word)"
    by (simp add: inet_chksum_sum ones_sum_def)
  then have "inet_chksum False [0x45, 0x00, 0, 0, 0xFF, 0x45] = 0xB9BB" by (rule unsigned_word_eqI)
  moreover have "(0xB9BB :: byte) = 0xBB" by (simp add: word_unat_eq_iff)
  moreover from calculation have "inet_chksum True [0x45, 0x00, 0xB9BB, 0xB9, 0xFF, 0x45] = 0"
    using checksum_verifies [of "[0x45, 0x00]" "[0xFF, 0x45]" True False] by simp
  ultimately show ?thesis by (simp only:)
qed

text \<open>
  A changed halfword is detected: two packets that differ in one aligned halfword and are both accepted have 0 and
  0xffff there.
\<close>

lemma mod_cancel: "(a + n) mod k = (b + n) mod k \<Longrightarrow> a mod k = b mod k" for a b n k :: nat
proof -
  assume "(a + n) mod k = (b + n) mod k"
  then have "(int a + int n) mod int k = (int b + int n) mod int k" by (metis of_nat_add zmod_int)
  then have "(int a + int n - int n) mod int k = (int b + int n - int n) mod int k" by (rule mod_diff_cong) simp
  then show ?thesis by (simp add: of_nat_mod [symmetric])
qed

lemma residue_cases:
  fixes m n :: nat
  assumes "m mod 65535 = n mod 65535" "m \<le> 65535" "n \<le> 65535"
  shows "m = n \<or> m = 0 \<and> n = 65535 \<or> m = 65535 \<and> n = 0"
proof -
  have "v mod 65535 = (if v = 65535 then 0 else v)" if "v \<le> 65535" for v :: nat using that by auto
  from this [OF assms(2)] this [OF assms(3)] show ?thesis using assms(1) by (metis (full_types))
qed

lemma bytes_of_halfword:
  "l = word_of_nat ((unat l + 256 * unat h) mod 256)" "h = word_of_nat ((unat l + 256 * unat h) div 256)" for l h :: byte
proof -
  have "unat l < 256" using unsigned_less [of l, where 'a = nat] by simp
  then have "(unat l + 256 * unat h) mod 256 = unat l" "(unat l + 256 * unat h) div 256 = unat h" by simp_all
  then show "l = word_of_nat ((unat l + 256 * unat h) mod 256)" "h = word_of_nat ((unat l + 256 * unat h) div 256)"
    by simp_all
qed

lemma accepted_sum:
  assumes "length bs \<le> 0x20000" "inet_chksum a bs = 0"
  shows "halfwords bs mod 65535 = 0"
proof -
  have "65535 - ones_sum (halfwords bs) = 0" using inet_chksum_sum [OF assms(1), of a] assms(2) by simp
  then have "ones_sum (halfwords bs) = 65535" using ones_sum_le [of "halfwords bs"] by linarith
  then show ?thesis using alike_ones_sum [of "halfwords bs"] by (simp add: alike_def)
qed

theorem checksum_detects:
  assumes "even (length xs)" "length xs + length ys + 2 \<le> 0x20000"
    and "inet_chksum a (xs @ [l, h] @ ys) = 0" "inet_chksum b (xs @ [l', h'] @ ys) = 0"
  shows "l = l' \<and> h = h' \<or> {(l, h), (l', h')} = {(0, 0), (0xff, 0xff)}"
proof -
  let ?n = "halfwords xs + halfwords ys" and ?v = "unat l + 256 * unat h" and ?v' = "unat l' + 256 * unat h'"
  have parts: "halfwords (xs @ [l, h] @ ys) mod 65535 = (unat l + 256 * unat h + ?n) mod 65535" for l h
    using halfwords_append [of xs "l # h # ys"] assms(1) by (simp add: alike_def algebra_simps)
  have "(?v + ?n) mod 65535 = (?v' + ?n) mod 65535"
    using accepted_sum [OF _ assms(3)] accepted_sum [OF _ assms(4)] assms(2) parts [of l h] parts [of l' h'] by simp
  then have eq: "?v mod 65535 = ?v' mod 65535" by (rule mod_cancel)
  have lt: "unat l < 256" "unat h < 256" "unat l' < 256" "unat h' < 256"
    using unsigned_less [of l, where 'a = nat] unsigned_less [of h, where 'a = nat]
      unsigned_less [of l', where 'a = nat] unsigned_less [of h', where 'a = nat] by simp_all
  have "?v \<le> 65535" "?v' \<le> 65535" using lt by linarith+
  from residue_cases [OF eq this] consider "?v = ?v'" | "?v = 0" "?v' = 65535" | "?v = 65535" "?v' = 0" by iprover
  then show ?thesis
  proof cases
    case 1
    then show ?thesis using bytes_of_halfword by metis
  next
    case 2
    then show ?thesis using bytes_of_halfword [where l = l and h = h, unfolded 2(1)] bytes_of_halfword [where l = l' and h = h', unfolded 2(2)] by simp
  next
    case 3
    then show ?thesis using bytes_of_halfword [where l = l and h = h, unfolded 3(1)] bytes_of_halfword [where l = l' and h = h', unfolded 3(2)] by auto
  qed
qed

theorem checksum_detects_witness:
  "(0::byte) = 0xff \<and> (0::byte) = 0xff \<or> {(0::byte, 0::byte), (0xff, 0xff)} = {(0, 0), (0xff, 0xff)}"
proof (rule checksum_detects [where xs = "[0xff, 0xff]" and ys = "[]" and a = True and b = False])
  have "unat (inet_chksum True [0xff, 0xff, 0, 0]) = 0" "unat (inet_chksum False [0xff, 0xff, 0xff, 0xff]) = 0"
    by (simp_all add: inet_chksum_sum ones_sum_def)
  then show "inet_chksum True ([0xff, 0xff] @ [0, 0] @ []) = 0" "inet_chksum False ([0xff, 0xff] @ [0xff, 0xff] @ []) = 0"
    by (simp_all add: unat_eq_zero)
qed simp_all

section \<open>The pseudo header\<close>

text \<open>The bytes of an address in memory, and the header of twelve bytes that the checksum of a segment includes.\<close>

definition mem_bytes :: "32 word \<Rightarrow> byte list" where
  "mem_bytes w = [ucast w, ucast (drop_bit 8 w), ucast (drop_bit 16 w), ucast (drop_bit 24 w)]"

definition pseudo_header :: "32 word \<Rightarrow> 32 word \<Rightarrow> byte \<Rightarrow> 16 word \<Rightarrow> byte list" where
  "pseudo_header src dest proto proto_len =
     mem_bytes src @ mem_bytes dest @ [0, proto, ucast (drop_bit 8 proto_len), ucast proto_len]"

lemma unat_drop: "unat (drop_bit n w) = unat w div 2 ^ n" for w :: "'a::len word"
proof -
  have "unat (drop_bit n w) = drop_bit n (unat w)" by (simp add: unsigned_drop_bit_eq take_bit_nat_eq_self)
  then show ?thesis by (simp only: drop_bit_eq_div)
qed

lemma unat_widen: "unat (ucast w :: 32 word) = unat w" for w :: "16 word"
  by (simp add: unsigned_ucast_eq take_bit_nat_eq_self_iff less_le_trans [OF unsigned_less])

lemma unat_byte:
  "unat (ucast (drop_bit n w) :: byte) = unat w div 2 ^ n mod 256" for w :: "'a::len word"
  by (simp only: unsigned_ucast_eq) (simp add: take_bit_eq_mod unat_drop)

lemma unat_low: "unat (w AND 0xffff) = unat w mod 65536" for w :: "32 word"
proof -
  have m: "w AND 0xffff = take_bit 16 w" by (simp add: take_bit_eq_mask mask_eq_exp_minus_1)
  show ?thesis unfolding m by (simp only: unsigned_take_bit_eq) (simp add: take_bit_eq_mod)
qed

lemma unat_high: "unat (drop_bit 16 w AND 0xffff) = unat w div 65536" for w :: "32 word"
proof -
  have "unat (drop_bit 16 w) = unat w div 65536"
by (simp add: unat_drop)
  moreover have "unat w div 65536 < 65536" using unat_less [of w] by (intro less_mult_imp_div_less) simp
  ultimately show ?thesis by (simp add: unat_low)
qed

lemma unat_htons: "unat (ucast (lwip_htons n) :: 32 word) = 256 * (unat n mod 256) + unat n div 256"
proof -
  have low: "(0xff :: 16 word) = mask 8" "(0xff :: 32 word) = mask 8"
    and high: "(0xff00 :: 16 word) = push_bit 8 (mask 8)" "(0xff00 :: 32 word) = push_bit 8 (mask 8)"
    by (simp_all add: mask_eq_exp_minus_1)
  have "(ucast (lwip_htons n) :: 32 word) = SWAP_BYTES_IN_WORD (ucast n)"
    unfolding lwip_htons_def SWAP_BYTES_IN_WORD_def
    unfolding low high by (rule bit_eqI) (auto simp: bit_simps)
  moreover have "unat n < 65536" using unsigned_less [of n, where 'a = nat] by simp
  ultimately show ?thesis using unat_SWAP [of "ucast n"] by (simp add: unat_widen)
qed

lemma halfwords_mem_bytes: "halfwords (mem_bytes w) = unat (w AND 0xffff) + unat (drop_bit 16 w AND 0xffff)"
proof -
  have b: "unat (ucast w :: byte) = unat w mod 256" using unat_byte [of 0 w] by simp
  let ?u = "unat w"
  have "?u mod 65536 = ?u mod 256 + 256 * (?u div 256 mod 256)" using mod_mult2_eq [of ?u 256 256] by simp
  moreover have "?u div 65536 = ?u div 65536 mod 256 + 256 * (?u div 16777216 mod 256)"
  proof -
    have "?u div 16777216 < 256" using unat_less [of w] by (intro less_mult_imp_div_less) simp
    moreover have "?u div 16777216 = ?u div 65536 div 256" by (simp add: div_mult2_eq [symmetric])
    ultimately show ?thesis by simp
  qed
  ultimately show ?thesis unfolding unat_high unfolding unat_low by (simp add: mem_bytes_def b unat_byte)
qed

lemma unat_sum_add: "unat a \<le> m \<Longrightarrow> unat b \<le> n \<Longrightarrow> m + n < 4294967296 \<Longrightarrow> unat (a + b) = unat a + unat b"
  for a b :: "32 word"
  using unat_add_lem [of a b] by simp

lemma add_pseudo_header_spec:
  assumes "unat acc \<le> 65535"
  shows "unat (add_pseudo_header acc src dest proto len) =
    65535 - ones_sum (halfwords (pseudo_header src dest proto len) + unat acc)"
proof -
  have lo: "unat (w AND 0xffff) \<le> 65535" "unat (drop_bit 16 w AND 0xffff) \<le> 65535" for w :: "32 word"
    using mod_less_divisor [of 65536 "unat w"] mod_less_divisor [of 65536 "unat (drop_bit 16 w)"]
    unfolding unat_low by linarith+
  have ht: "unat (ucast (lwip_htons n) :: 32 word) \<le> 65535" for n
    using unsigned_less [of "lwip_htons n", where 'a = nat] by (simp add: unat_widen)
  let ?a1 = "acc + (src AND 0xffff)"
  let ?a2 = "?a1 + (drop_bit 16 src AND 0xffff)"
  let ?a3 = "?a2 + (dest AND 0xffff)"
  let ?a4 = "?a3 + (drop_bit 16 dest AND 0xffff)"
  let ?a5 = "?a4 + ucast (lwip_htons (ucast proto))"
  let ?a6 = "?a5 + ucast (lwip_htons len)"
  have s1: "unat ?a1 = unat acc + unat (src AND 0xffff)" by (rule unat_sum_add [OF assms lo(1)]) simp
  then have "unat ?a1 \<le> 131070" using assms lo(1) [of src] by linarith
  then have s2: "unat ?a2 = unat ?a1 + unat (drop_bit 16 src AND 0xffff)" by (rule unat_sum_add [OF _ lo(2)]) simp
  then have "unat ?a2 \<le> 196605" using \<open>unat ?a1 \<le> 131070\<close> lo(2) [of src] by linarith
  then have s3: "unat ?a3 = unat ?a2 + unat (dest AND 0xffff)" by (rule unat_sum_add [OF _ lo(1)]) simp
  then have "unat ?a3 \<le> 262140" using \<open>unat ?a2 \<le> 196605\<close> lo(1) [of dest] by linarith
  then have s4: "unat ?a4 = unat ?a3 + unat (drop_bit 16 dest AND 0xffff)" by (rule unat_sum_add [OF _ lo(2)]) simp
  then have "unat ?a4 \<le> 327675" using \<open>unat ?a3 \<le> 262140\<close> lo(2) [of dest] by linarith
  then have s5: "unat ?a5 = unat ?a4 + unat (ucast (lwip_htons (ucast proto)) :: 32 word)" by (rule unat_sum_add [OF _ ht]) simp
  then have "unat ?a5 \<le> 393210" using \<open>unat ?a4 \<le> 327675\<close> ht [of "ucast proto"] by linarith
  then have s6: "unat ?a6 = unat ?a5 + unat (ucast (lwip_htons len) :: 32 word)" by (rule unat_sum_add [OF _ ht]) simp
  have h: "unat (ucast (lwip_htons (ucast proto)) :: 32 word) = 256 * unat proto"
  proof -
    have "unat proto < 256" using unsigned_less [of proto, where 'a = nat] by simp
    moreover have "unat (ucast proto :: 16 word) = unat proto"
      by (simp add: unsigned_ucast_eq take_bit_nat_eq_self_iff less_le_trans [OF unsigned_less])
    ultimately show ?thesis by (simp add: unat_htons)
  qed
  have l: "unat (ucast (drop_bit 8 len) :: byte) = unat len div 256" "unat (ucast len :: byte) = unat len mod 256"
  proof -
    have "unat len < 65536" using unsigned_less [of len, where 'a = nat] by simp
    then have "unat len div 256 < 256" by (intro less_mult_imp_div_less) simp
    then show "unat (ucast (drop_bit 8 len) :: byte) = unat len div 256" by (simp add: unat_byte)
    show "unat (ucast len :: byte) = unat len mod 256" using unat_byte [of 0 len] by simp
  qed
  have "halfwords (mem_bytes w @ bs) = halfwords (mem_bytes w) + halfwords bs" for w bs by (simp add: mem_bytes_def)
  then have "halfwords (pseudo_header src dest proto len) = halfwords (mem_bytes src) + halfwords (mem_bytes dest) +
      256 * unat proto + (unat len div 256 + 256 * (unat len mod 256))"
    by (simp add: pseudo_header_def l)
  then have n: "unat ?a6 = halfwords (pseudo_header src dest proto len) + unat acc"
    using s1 s2 s3 s4 s5 s6 h unat_htons [of len] halfwords_mem_bytes [of src] halfwords_mem_bytes [of dest] by linarith
  have "unat (FOLD_U32T (FOLD_U32T ?a6)) = ones_sum (unat ?a6)"
    by (rule ones_sum_eq [OF FOLD_twice])
  moreover have "add_pseudo_header acc src dest proto len = ucast (NOT (FOLD_U32T (FOLD_U32T ?a6) AND 0xffff))"
    by (simp only: add_pseudo_header_def Let_def)
  ultimately show ?thesis using complement_low [OF FOLD_twice(1) [of ?a6]] n by simp
qed

text \<open>
  The checksum of a segment is that of one buffer that holds the pseudo header and then the data, however these are split.
\<close>

theorem inet_chksum_pseudo_is_sum:
  assumes "\<forall>(at_odd, bs) \<in> set p. length bs \<le> 0x20000"
  shows "inet_chksum_pseudo p src dest proto len =
    inet_chksum_pbuf ((False, pseudo_header src dest proto len) # p)"
proof -
  let ?h = "pseudo_header src dest proto len" and ?d = "concat (map snd p)"
  have len: "length ?h = 12" by (simp add: pseudo_header_def mem_bytes_def)
  then have q: "\<forall>(at_odd, bs) \<in> set ((False, ?h) # p). length bs \<le> 0x20000" using assms by simp
  have "alike (halfwords ?h + unat (chain_sum p)) (halfwords ?h + halfwords ?d)"
    by (rule alike_add [OF alike_refl chain_sum_spec(2) [OF assms]])
  moreover have "alike (halfwords ?h + halfwords ?d) (halfwords (?h @ ?d))"
    using alike_sym [OF halfwords_append [of ?h ?d]] len by simp
  ultimately have "ones_sum (halfwords ?h + unat (chain_sum p)) = ones_sum (halfwords (?h @ ?d))"
    using ones_sum_cong alike_trans by blast
  then have "unat (inet_chksum_pseudo p src dest proto len) = unat (inet_chksum_pbuf ((False, ?h) # p))"
    using add_pseudo_header_spec [OF chain_sum_spec(1) [OF assms]] pbuf_sum [OF q] by (simp add: inet_chksum_pseudo_def)
  then show ?thesis by (rule unsigned_word_eqI)
qed

theorem inet_chksum_pseudo_is_sum_witness:
  "inet_chksum_pseudo [(True, [0x12]), (False, [0x34, 0x56])] 0x0100A8C0 0x0200A8C0 17 3 =
   inet_chksum_pbuf [(False, pseudo_header 0x0100A8C0 0x0200A8C0 17 3), (True, [0x12]), (False, [0x34, 0x56])]"
  using inet_chksum_pseudo_is_sum [of "[(True, [0x12]), (False, [0x34, 0x56])]"] by simp

end
