(* ===== verification/Lwip_Ip_Addr.thy ===== *)
theory Lwip_Ip_Addr
  imports Lwip_Chksum
begin

text \<open>
  The tools for Internet addresses, \<open>src/LwIP/src/core/ipv4/ip_addr.c\<close>: reading and printing the dotted form, broadcast
  addresses and netmasks. Addresses are words in network byte order, as the code keeps them; a string is its bytes from the pointer on, and
  after the last one comes the 0 that ends it.
\<close>

section \<open>Byte order\<close>

definition lwip_htonl :: "32 word \<Rightarrow> 32 word" where
  "lwip_htonl n = push_bit 24 (n AND 0xff) OR push_bit 8 (n AND 0xff00) OR
     drop_bit 8 (n AND 0xff0000) OR drop_bit 24 (n AND 0xff000000)"

abbreviation (input) IPADDR_NONE :: "32 word" where "IPADDR_NONE \<equiv> 0xffffffff"
abbreviation (input) IPADDR_ANY :: "32 word" where "IPADDR_ANY \<equiv> 0x00000000"
abbreviation (input) IPADDR_BROADCAST :: "32 word" where "IPADDR_BROADCAST \<equiv> 0xffffffff"

section \<open>Broadcast addresses and netmasks\<close>

record netif =
  netif_flags :: byte
  netif_addr :: "32 word"
  netif_netmask :: "32 word"

abbreviation (input) NETIF_FLAG_BROADCAST :: byte where "NETIF_FLAG_BROADCAST \<equiv> 0x02"

definition ip_addr_netcmp :: "32 word \<Rightarrow> 32 word \<Rightarrow> 32 word \<Rightarrow> bool" where
  "ip_addr_netcmp addr1 addr2 nm \<longleftrightarrow> addr1 AND nm = addr2 AND nm"

definition ip4_addr_isbroadcast :: "32 word \<Rightarrow> netif \<Rightarrow> bool" where
  "ip4_addr_isbroadcast addr netif =
     (if NOT addr = IPADDR_ANY \<or> addr = IPADDR_ANY then True
      else if netif_flags netif AND NETIF_FLAG_BROADCAST = 0 then False
      else if addr = netif_addr netif then False
      else if ip_addr_netcmp addr (netif_addr netif) (netif_netmask netif) \<and>
        addr AND NOT (netif_netmask netif) = IPADDR_BROADCAST AND NOT (netif_netmask netif) then True
      else False)"

text \<open>The two loops over the bits from the highest one down: the first zero, and that no one is left.\<close>

lemma drop_bit_less: "w \<noteq> 0 \<Longrightarrow> unat (drop_bit 1 w) < unat w" for w :: "32 word"
  using unat_gt_0 [of w] by (simp add: unat_drop)

function first_zero :: "32 word \<Rightarrow> 32 word \<Rightarrow> 32 word" where
  "first_zero nm m = (if m \<noteq> 0 then (if nm AND m = 0 then m else first_zero nm (drop_bit 1 m)) else m)"
  by auto
termination by (relation "measure (\<lambda>(nm, m). unat m)") (simp_all only: in_measure prod.case wf_measure drop_bit_less not_False_eq_True)

function no_ones :: "32 word \<Rightarrow> 32 word \<Rightarrow> bool" where
  "no_ones nm m = (if m \<noteq> 0 then (if nm AND m \<noteq> 0 then False else no_ones nm (drop_bit 1 m)) else True)"
  by auto
termination by (relation "measure (\<lambda>(nm, m). unat m)") (simp_all only: in_measure prod.case wf_measure drop_bit_less not_False_eq_True)

declare first_zero.simps [simp del] no_ones.simps [simp del]

definition ip4_addr_netmask_valid :: "32 word \<Rightarrow> bool" where
  "ip4_addr_netmask_valid netmask =
     (let nm_hostorder = lwip_htonl netmask in no_ones nm_hostorder (first_zero nm_hostorder (push_bit 31 1)))"

section \<open>Reading\<close>

definition in_range :: "byte \<Rightarrow> byte \<Rightarrow> byte \<Rightarrow> bool" where
  "in_range c lo up \<longleftrightarrow> c \<ge> lo \<and> c \<le> up"

definition isdigit :: "byte \<Rightarrow> bool" where "isdigit c \<longleftrightarrow> in_range c 48 57"
definition isxdigit :: "byte \<Rightarrow> bool" where "isxdigit c \<longleftrightarrow> isdigit c \<or> in_range c 97 102 \<or> in_range c 65 70"
definition islower :: "byte \<Rightarrow> bool" where "islower c \<longleftrightarrow> in_range c 97 122"
definition isspace :: "byte \<Rightarrow> bool" where "isspace c \<longleftrightarrow> c \<in> {32, 12, 10, 13, 9, 11}"

text \<open>The character at the pointer.\<close>

fun current :: "byte list \<Rightarrow> byte" where
  "current [] = 0"
| "current (c # cs) = c"

text \<open>The digits of one part; the value wraps around.\<close>

fun part_loop :: "32 word \<Rightarrow> byte list \<Rightarrow> 32 word \<Rightarrow> 32 word \<times> byte list" where
  "part_loop radix [] val = (val, [])"
| "part_loop radix (c # cs) val =
     (if isdigit c then part_loop radix cs (val * radix + (ucast c - 48))
      else if radix = 16 \<and> isxdigit c then part_loop radix cs (push_bit 4 val OR (ucast c + 10 - (if islower c then 97 else 65)))
      else (val, c # cs))"

lemma part_loop_length: "length (snd (part_loop radix cs val)) \<le> length cs"
  by (induction radix cs val rule: part_loop.induct) auto

definition part_radix :: "byte list \<Rightarrow> 32 word \<times> byte list" where
  "part_radix cp =
     (if current cp = 48 then
        let cp = tl cp in if current cp = 120 \<or> current cp = 88 then (16, tl cp) else (8, cp)
      else (10, cp))"

text \<open>The parts before the last one, the last one, and what follows; \<open>None\<close> is the result 0.\<close>

function parts_loop :: "byte list \<Rightarrow> 32 word list \<Rightarrow> (32 word list \<times> 32 word \<times> byte list) option" where
  "parts_loop cp parts =
     (if \<not> isdigit (current cp) then None
      else let (radix, cp') = part_radix cp; (val, rest) = part_loop radix cp' 0 in
        if current rest = 46 then
          (if length parts \<ge> 3 then None else parts_loop (tl rest) (parts @ [val]))
        else Some (parts, val, rest))"
  by auto
termination
  by (relation "measure (\<lambda>(cp, parts). 3 - length parts)") auto

declare parts_loop.simps [simp del]

definition ipaddr_aton :: "byte list \<Rightarrow> 32 word option" where
  "ipaddr_aton cp = do {
     (parts, val, rest) \<leftarrow> parts_loop cp [];
     if current rest \<noteq> 0 \<and> \<not> isspace (current rest) then None
     else do {
       val \<leftarrow> (if length parts + 1 = 1 then Some val
         else if length parts + 1 = 2 then
           (if val > 0xffffff then None else Some (val OR push_bit 24 (parts ! 0)))
         else if length parts + 1 = 3 then
           (if val > 0xffff then None else Some (val OR (push_bit 24 (parts ! 0) OR push_bit 16 (parts ! 1))))
         else
           (if val > 0xff then None
            else Some (val OR (push_bit 24 (parts ! 0) OR push_bit 16 (parts ! 1) OR push_bit 8 (parts ! 2)))));
       Some (lwip_htonl val) } }"

definition ipaddr_addr :: "byte list \<Rightarrow> 32 word" where
  "ipaddr_addr cp = (case ipaddr_aton cp of Some val \<Rightarrow> val | None \<Rightarrow> IPADDR_NONE)"

section \<open>Printing\<close>

text \<open>The digits of a byte, from the last one, in the array of three.\<close>

function inv_loop :: "byte \<Rightarrow> byte list \<Rightarrow> byte list option" where
  "inv_loop ap digits =
     (let rem = ap mod 10; ap = ap div 10 in
      if length digits < 3 then (let digits = digits @ [48 + rem] in if ap \<noteq> 0 then inv_loop ap digits else Some digits)
      else None)"
  by auto
termination by (relation "measure (\<lambda>(ap, digits). 3 - length digits)") auto

declare inv_loop.simps [simp del]

text \<open>
  Characters put at \<open>rp\<close>, which is \<open>buf + len\<close>, while there is room for them; the flag is false when \<open>NULL\<close> is returned.
\<close>

fun put_loop :: "byte list \<Rightarrow> int \<Rightarrow> buffer \<Rightarrow> int \<Rightarrow> (buffer \<times> int \<times> bool) option" where
  "put_loop [] buflen buf len = Some (buf, len, True)"
| "put_loop (c # cs) buflen buf len =
     (if len \<ge> buflen then Some (buf, len + 1, False)
      else do { buf \<leftarrow> store buf (nat len) c; put_loop cs buflen buf (len + 1) })"

fun octet_loop :: "byte list \<Rightarrow> int \<Rightarrow> buffer \<Rightarrow> int \<Rightarrow> (buffer \<times> int \<times> bool) option" where
  "octet_loop [] buflen buf len = Some (buf, len, True)"
| "octet_loop (a # as) buflen buf len = do {
     digits \<leftarrow> inv_loop a [];
     (buf, len, ok) \<leftarrow> put_loop (rev digits) buflen buf len;
     if \<not> ok then Some (buf, len, False)
     else do {
       (buf, len, ok) \<leftarrow> put_loop [46] buflen buf len;
       if \<not> ok then Some (buf, len, False) else octet_loop as buflen buf len } }"

definition ipaddr_ntoa_r :: "32 word \<Rightarrow> buffer \<Rightarrow> int \<Rightarrow> (buffer \<times> bool) option" where
  "ipaddr_ntoa_r addr buf buflen = do {
     (buf, len, ok) \<leftarrow> octet_loop (mem_bytes addr) buflen buf 0;
     if \<not> ok then Some (buf, False)
     else do { buf \<leftarrow> store buf (nat (len - 1)) 0; Some (buf, True) } }"

text \<open>The array \<open>str\<close> of 16 characters is static; it is passed and returned.\<close>

definition ipaddr_ntoa :: "32 word \<Rightarrow> buffer \<Rightarrow> (buffer \<times> bool) option" where
  "ipaddr_ntoa addr str = ipaddr_ntoa_r addr str 16"


section \<open>A printed address reads back\<close>

text \<open>The character of a digit, and the digits of a byte as they are printed.\<close>

definition ascii_digit :: "nat \<Rightarrow> byte" where
  "ascii_digit d = 48 + word_of_nat d"

definition decimal :: "byte \<Rightarrow> byte list" where
  "decimal b = (let n = unat b in
     if n < 10 then [ascii_digit n]
     else if n < 100 then [ascii_digit (n div 10), ascii_digit (n mod 10)]
     else [ascii_digit (n div 100), ascii_digit (n div 10 mod 10), ascii_digit (n mod 10)])"

lemma digit_cases:
  assumes "d < 10"
  shows "d = 0 \<or> d = 1 \<or> d = 2 \<or> d = 3 \<or> d = 4 \<or> d = 5 \<or> d = 6 \<or> d = 7 \<or> d = 8 \<or> d = (9 :: nat)"
  using assms by presburger

lemma ascii_digit:
  assumes "d < 10"
  shows "isdigit (ascii_digit d)" "ucast (ascii_digit d) - 48 = (word_of_nat d :: 32 word)" "ascii_digit d = 48 \<longleftrightarrow> d = 0"
  using digit_cases [OF assms] by (elim disjE; simp add: ascii_digit_def isdigit_def in_range_def)+

lemma inv_loop_step:
  assumes "length ds < 3"
  shows "inv_loop b ds = (let ds' = ds @ [ascii_digit (unat b mod 10)] in
    if unat b \<ge> 10 then inv_loop (word_of_nat (unat b div 10)) ds' else Some ds')"
proof -
  have "b mod 10 = word_of_nat (unat (b mod 10))" "b div 10 = word_of_nat (unat (b div 10))" by simp_all
  then have "b mod 10 = word_of_nat (unat b mod 10)" "b div 10 = word_of_nat (unat b div 10)"
    unfolding unat_mod_distrib unat_div_distrib by simp_all
  moreover have "b div 10 = 0 \<longleftrightarrow> unat b < 10"
    by (simp add: unat_eq_zero [symmetric] unat_div_distrib div_eq_0_iff)
  ultimately show ?thesis using assms
    by (subst inv_loop.simps) (simp add: Let_def ascii_digit_def not_le)
qed

lemma inv_loop_decimal: "inv_loop b [] = Some (rev (decimal b))"
proof -
  let ?n = "unat b"
  have u: "unat (word_of_nat (?n div 10) :: byte) = ?n div 10" "unat (word_of_nat (?n div 100) :: byte) = ?n div 100"
    using unat_byte_lt [of b] by (simp_all add: unat_of_nat)
  have d: "?n div 10 div 10 = ?n div 100" by (simp add: div_mult2_eq [symmetric])
  have "?n div 100 < 10" using unat_byte_lt [of b] by simp
  note h = this
  consider "?n < 10" | "10 \<le> ?n" "?n < 100" | "10 \<le> ?n" "100 \<le> ?n" by linarith
  then show ?thesis
  proof cases
    case 1
    then show ?thesis by (simp add: inv_loop_step decimal_def)
  next
    case 2
    then have "?n div 10 < 10" by simp
    then show ?thesis using 2 u by (simp add: inv_loop_step decimal_def Let_def)
  next
    case 3
    then have "10 \<le> ?n div 10" using div_le_mono [of 100 ?n 10] by simp
    then show ?thesis using 3 u d h by (simp add: inv_loop_step decimal_def Let_def)
  qed
qed

lemma decimal_value: "foldl (\<lambda>v c. v * 10 + (ucast c - 48)) 0 (decimal b) = (ucast b :: 32 word)"
proof -
  let ?n = "unat b"
  have t: "?n div 10 = 10 * (?n div 100) + ?n div 10 mod 10"
    using mult_div_mod_eq [of 10 "?n div 10"] by (simp add: div_mult2_eq [symmetric])
  have n: "?n = 10 * (?n div 10) + ?n mod 10" by simp
  have n2: "?n = 10 * (10 * (?n div 100) + ?n div 10 mod 10) + ?n mod 10" unfolding t [symmetric] by (rule n)
  have c: "(ucast b :: 32 word) = word_of_nat ?n" by simp
  have w: "(ucast b :: 32 word) = word_of_nat (?n div 10) * 10 + word_of_nat (?n mod 10)"
    "(ucast b :: 32 word) = (word_of_nat (?n div 100) * 10 + word_of_nat (?n div 10 mod 10)) * 10 + word_of_nat (?n mod 10)"
    unfolding c by (subst n, simp only: of_nat_add of_nat_mult of_nat_numeral mult.commute)
      (subst n2, simp only: of_nat_add of_nat_mult of_nat_numeral mult.commute)
  have d: "?n div 100 < 10" using unat_byte_lt [of b] by simp
  consider "?n < 10" | "10 \<le> ?n" "?n < 100" | "100 \<le> ?n" by linarith
  then show ?thesis
  proof cases
    case 1
    then show ?thesis by (simp add: decimal_def ascii_digit(2))
  next
    case 2
    then show ?thesis using w(1) by (simp add: decimal_def Let_def ascii_digit(2))
  next
    case 3
    then show ?thesis using w(2) d by (simp add: decimal_def Let_def ascii_digit(2))
  qed
qed

lemma decimal_digits:
  "list_all isdigit (decimal b)" "decimal b \<noteq> []" "length (decimal b) \<le> 3"
  "hd (decimal b) = 48 \<Longrightarrow> decimal b = [48] \<and> b = 0"
proof -
  have "unat b div 100 < 10" using unat_byte_lt [of b] by simp
  moreover have "unat b div 100 \<noteq> 0" if "\<not> unat b < 100" using that by (simp add: div_eq_0_iff)
  moreover have "unat b div 10 \<noteq> 0" if "\<not> unat b < 10" using that by (simp add: div_eq_0_iff)
  ultimately show "list_all isdigit (decimal b)" "decimal b \<noteq> []" "length (decimal b) \<le> 3"
    "hd (decimal b) = 48 \<Longrightarrow> decimal b = [48] \<and> b = 0"
    by (auto simp: decimal_def Let_def ascii_digit unat_eq_zero split: if_splits)
qed

section \<open>The properties\<close>

lemma put_loop_append:
  "length cs \<le> length old \<Longrightarrow> int (length pre + length cs) \<le> buflen \<Longrightarrow>
   put_loop cs buflen (pre @ old) (int (length pre)) =
     Some (pre @ cs @ drop (length cs) old, int (length pre + length cs), True)"
proof (induction cs arbitrary: pre old)
  case (Cons c cs)
  then obtain x xs where old: "old = x # xs" by (cases old) auto
  show ?case using Cons.IH [of xs "pre @ [c]"] Cons.prems by (simp add: old store_def algebra_simps)
qed simp

lemma put_loop_append':
  "length cs \<le> length old \<Longrightarrow> int (length pre + length cs) \<le> buflen \<Longrightarrow> n = int (length pre) \<Longrightarrow>
   put_loop cs buflen (pre @ old) n = Some (pre @ cs @ drop (length cs) old, int (length pre + length cs), True)"
  using put_loop_append by blast

definition dotted :: "byte list \<Rightarrow> byte list" where
  "dotted as = concat (map (\<lambda>a. decimal a @ [46]) as)"

lemma octet_loop_append:
  "length (dotted as) \<le> length old \<Longrightarrow> int (length pre + length (dotted as)) \<le> buflen \<Longrightarrow> n = int (length pre) \<Longrightarrow>
   octet_loop as buflen (pre @ old) n =
     Some (pre @ dotted as @ drop (length (dotted as)) old, int (length pre + length (dotted as)), True)"
proof (induction as arbitrary: pre old n)
  case (Cons a as)
  let ?pre = "pre @ decimal a @ [46]" and ?old = "drop (length (decimal a) + 1) old"
  have d: "dotted (a # as) = decimal a @ [46] @ dotted as" by (simp add: dotted_def)
  have p1: "put_loop (decimal a) buflen (pre @ old) n =
      Some ((pre @ decimal a) @ drop (length (decimal a)) old, int (length (pre @ decimal a)), True)"
    using put_loop_append' [of "decimal a" old pre buflen n] Cons.prems by (simp add: d)
  have p2: "put_loop [46] buflen ((pre @ decimal a) @ drop (length (decimal a)) old) (int (length (pre @ decimal a))) =
      Some (?pre @ ?old, int (length ?pre), True)"
    using put_loop_append' [of "[46]" "drop (length (decimal a)) old" "pre @ decimal a" buflen] Cons.prems by (simp add: d)
  have "octet_loop as buflen (?pre @ ?old) (int (length ?pre)) =
      Some (?pre @ dotted as @ drop (length (dotted as)) ?old, int (length ?pre + length (dotted as)), True)"
    by (rule Cons.IH) (use Cons.prems in \<open>auto simp: d\<close>)
  then show ?case using p1 p2 by (simp add: inv_loop_decimal d ac_simps)
qed (simp add: dotted_def)

lemma part_loop_digits:
  "list_all isdigit ds \<Longrightarrow> part_loop 10 (ds @ rest) val = part_loop 10 rest (foldl (\<lambda>v c. v * 10 + (ucast c - 48)) val ds)"
  by (induction ds arbitrary: val) simp_all

lemma part_decimal:
  assumes "current rest \<in> {0, 46}"
  shows "isdigit (current (decimal b @ rest))"
    "(let (radix, cp') = part_radix (decimal b @ rest) in part_loop radix cp' 0) = (ucast b, rest)"
proof -
  obtain c cs where ds: "decimal b = c # cs" using decimal_digits(2) [of b] by (cases "decimal b") auto
  show "isdigit (current (decimal b @ rest))" using decimal_digits(1) [of b] by (simp add: ds)
  have nd: "\<not> isdigit (current rest)" "current rest \<noteq> 120" "current rest \<noteq> 88" "current rest \<noteq> 48"
    using assms by (auto simp: isdigit_def in_range_def)
  have stop: "part_loop radix rest v = (v, rest)" if "radix \<noteq> 16" for radix v
    using nd that by (cases rest) auto
  show "(let (radix, cp') = part_radix (decimal b @ rest) in part_loop radix cp' 0) = (ucast b, rest)"
  proof (cases "c = 48")
    case True
    then have "decimal b = [48] \<and> b = 0" by (intro decimal_digits(4)) (simp add: ds)
    moreover have "decimal 0 = [48]" by (simp add: decimal_def ascii_digit_def)
    ultimately show ?thesis using nd stop by (simp add: part_radix_def)
  next
    case False
    then show ?thesis
      using part_loop_digits [OF decimal_digits(1), of b rest 0] stop decimal_value [of b] by (simp add: part_radix_def ds)
  qed
qed

lemma parts_loop_decimal:
  assumes "current rest \<in> {0, 46}"
  shows "parts_loop (decimal b @ rest) parts =
    (if current rest = 46 then (if length parts \<ge> 3 then None else parts_loop (tl rest) (parts @ [ucast b]))
     else Some (parts, ucast b, rest))"
proof -
  obtain radix cp' where r: "part_radix (decimal b @ rest) = (radix, cp')" by fastforce
  then have "part_loop radix cp' 0 = (ucast b, rest)" using part_decimal(2) [OF assms, of b] by simp
  then show ?thesis using r part_decimal(1) [OF assms, of b] by (subst parts_loop.simps) simp
qed

lemma htonl_bytes:
  "lwip_htonl (ucast (ucast (drop_bit 24 w) :: byte) OR (push_bit 24 (ucast (ucast w :: byte)) OR
     push_bit 16 (ucast (ucast (drop_bit 8 w) :: byte)) OR push_bit 8 (ucast (ucast (drop_bit 16 w) :: byte)))) = w"
proof -
  have m: "(0xff :: 32 word) = mask 8" "(0xff00 :: 32 word) = push_bit 8 (mask 8)"
    "(0xff0000 :: 32 word) = push_bit 16 (mask 8)" "(0xff000000 :: 32 word) = push_bit 24 (mask 8)"
    by (simp_all add: mask_eq_exp_minus_1)
  let ?v = "ucast (ucast (drop_bit 24 w) :: byte) OR (push_bit 24 (ucast (ucast w :: byte)) OR
     push_bit 16 (ucast (ucast (drop_bit 8 w) :: byte)) OR push_bit 8 (ucast (ucast (drop_bit 16 w) :: byte))) :: 32 word"
  show ?thesis unfolding lwip_htonl_def m
  proof (rule bit_word_eqI)
    fix n :: nat
    assume "n < LENGTH(32)"
    consider "n < 8" | "8 \<le> n" "n < 16" | "16 \<le> n" "n < 24" | "24 \<le> n" by linarith
    then show "bit (push_bit 24 (?v AND mask 8) OR push_bit 8 (?v AND push_bit 8 (mask 8)) OR drop_bit 8 (?v AND push_bit 16 (mask 8)) OR drop_bit 24 (?v AND push_bit 24 (mask 8))) n = bit w n"
      using \<open>n < LENGTH(32)\<close> by cases (simp_all add: bit_simps less_diff_conv2)
  qed
qed

lemma byte_value_le: "ucast (b :: byte) \<le> (0xff :: 32 word)"
proof -
  have "unat (ucast b :: 32 word) = unat b"
    by (simp add: unsigned_ucast_eq take_bit_nat_eq_self_iff less_le_trans [OF unsigned_less])
  then show ?thesis using unat_byte_lt [of b] by (simp add: word_le_nat_alt)
qed

lemma aton_dotted:
  "ipaddr_aton (decimal a @ [46] @ decimal b @ [46] @ decimal c @ [46] @ decimal d @ 0 # rest) =
     Some (lwip_htonl (ucast d OR (push_bit 24 (ucast a) OR push_bit 16 (ucast b) OR push_bit 8 (ucast c))))"
  using byte_value_le [of d]
  by (simp add: ipaddr_aton_def parts_loop_decimal not_le [symmetric])

lemma dotted_length: "length (dotted as) \<le> 4 * length as"
proof (induction as)
  case (Cons a as)
  then show ?case using decimal_digits(3) [of a] by (simp add: dotted_def)
qed (simp add: dotted_def)

lemma ntoa_r_dotted:
  assumes "dotted (mem_bytes addr) = s @ [46]" "int (length (s @ [46])) \<le> buflen" "buflen \<le> int (length buf)"
  shows "ipaddr_ntoa_r addr buf buflen = Some (s @ 0 # drop (length (s @ [46])) buf, True)"
proof -
  have "octet_loop (mem_bytes addr) buflen buf 0 = Some (s @ 46 # drop (length (s @ [46])) buf, int (length s) + 1, True)"
    using octet_loop_append [of "mem_bytes addr" buf "[]" buflen 0] assms by simp
  then show ?thesis by (simp add: ipaddr_ntoa_r_def store_def)
qed

text \<open>
  C26. An address that is printed into a buffer of 16 characters, or into any one with room for it, reads back as the same address.
\<close>

theorem ntoa_aton:
  assumes "16 \<le> buflen" "buflen \<le> int (length buf)"
  shows "\<exists>str. ipaddr_ntoa_r addr buf buflen = Some (str, True) \<and> ipaddr_aton str = Some addr \<and> length str = length buf"
proof -
  let ?a = "ucast addr :: byte" and ?b = "ucast (drop_bit 8 addr) :: byte" and ?c = "ucast (drop_bit 16 addr) :: byte"
    and ?d = "ucast (drop_bit 24 addr) :: byte"
  let ?s = "decimal ?a @ [46] @ decimal ?b @ [46] @ decimal ?c @ [46] @ decimal ?d"
  have d: "dotted (mem_bytes addr) = ?s @ [46]" by (simp add: dotted_def mem_bytes_def)
  have l: "length (?s @ [46]) \<le> 16" using dotted_length [of "mem_bytes addr"] unfolding d by (simp add: mem_bytes_def)
  let ?rest = "drop (length (?s @ [46])) buf"
  have "ipaddr_ntoa_r addr buf buflen = Some (?s @ 0 # ?rest, True)"
    by (rule ntoa_r_dotted [OF d]) (use l assms in simp_all)
  moreover have "ipaddr_aton (?s @ 0 # ?rest) = Some addr"
    using aton_dotted [of ?a ?b ?c ?d ?rest] htonl_bytes [of addr] by simp
  moreover have "length (?s @ 0 # ?rest) = length buf" using l assms by simp
  ultimately show ?thesis by blast
qed

theorem ntoa_aton_witness:
  "\<exists>str. ipaddr_ntoa_r 0x0A01A8C0 (replicate 16 0xff) 16 = Some (str, True) \<and> ipaddr_aton str = Some 0x0A01A8C0 \<and>
     length str = length (replicate 16 (0xff :: byte))"
  by (rule ntoa_aton) simp_all

text \<open>Only the last part is compared with its range: \<open>0.256.0.1\<close> reads as \<open>1.0.0.1\<close>.\<close>

theorem aton_part_out_of_range:
  "ipaddr_aton [48, 46, 50, 53, 54, 46, 48, 46, 49] = Some 0x01000001 \<and>
   ipaddr_aton [49, 46, 48, 46, 48, 46, 49] = Some 0x01000001"
  by (simp add: ipaddr_aton_def parts_loop.simps part_radix_def isdigit_def in_range_def lwip_htonl_def)

section \<open>Netmasks\<close>

lemma exp_nonzero: "k < 32 \<Longrightarrow> (2 :: 32 word) ^ k \<noteq> 0"
  by (simp add: exp_eq_zero_iff)

lemma drop_exp: "Suc k < 32 \<Longrightarrow> drop_bit 1 ((2 :: 32 word) ^ Suc k) = 2 ^ k"
  by (simp only: push_bit_of_1 [symmetric]) (rule bit_word_eqI, auto simp: bit_simps)

lemma drop_one: "drop_bit 1 (1 :: 32 word) = 0"
  by simp

lemma no_ones_spec: "k < 32 \<Longrightarrow> no_ones nm (2 ^ k) \<longleftrightarrow> (\<forall>i\<le>k. \<not> bit nm i)"
proof (induction k)
  case 0
  have "no_ones nm 0" by (subst no_ones.simps) simp
  then show ?case using and_exp_eq_0_iff_not_bit [of nm 0] by (subst no_ones.simps) simp
next
  case (Suc k)
  then show ?case using and_exp_eq_0_iff_not_bit [of nm "Suc k"] exp_nonzero [of "Suc k"] drop_exp [of k]
    by (subst no_ones.simps) (auto simp: le_Suc_eq simp del: power_Suc)
qed

lemma first_zero_spec:
  "k < 32 \<Longrightarrow> no_ones nm (first_zero nm (2 ^ k)) \<longleftrightarrow> (\<exists>n\<le>Suc k. \<forall>i\<le>k. bit nm i \<longleftrightarrow> n \<le> i)"
proof (induction k)
  case 0
  have z: "no_ones nm 0" "first_zero nm 0 = 0" by (subst no_ones.simps, simp) (subst first_zero.simps, simp)
  show ?case
  proof (cases "bit nm 0")
    case True
    then have "first_zero nm (2 ^ 0) = 0" using and_exp_eq_0_iff_not_bit [of nm 0] z by (subst first_zero.simps) simp
    then show ?thesis using True z by auto
  next
    case False
    then have "first_zero nm (2 ^ 0) = 2 ^ 0" using and_exp_eq_0_iff_not_bit [of nm 0] by (subst first_zero.simps) simp
    then show ?thesis using False no_ones_spec [of 0 nm] by auto
  qed
next
  case (Suc k)
  note step = and_exp_eq_0_iff_not_bit [of nm "Suc k"] exp_nonzero [OF Suc.prems] drop_exp [OF Suc.prems]
  show ?case
  proof (cases "bit nm (Suc k)")
    case True
    then have "first_zero nm (2 ^ Suc k) = first_zero nm (2 ^ k)" using step by (subst first_zero.simps) (simp del: power_Suc)
    moreover have "(\<exists>n\<le>Suc (Suc k). \<forall>i\<le>Suc k. bit nm i \<longleftrightarrow> n \<le> i) \<longleftrightarrow> (\<exists>n\<le>Suc k. \<forall>i\<le>k. bit nm i \<longleftrightarrow> n \<le> i)"
      using True by (auto simp: le_Suc_eq)
    ultimately show ?thesis using Suc by simp
  next
    case False
    then have "first_zero nm (2 ^ Suc k) = 2 ^ Suc k" using step by (subst first_zero.simps) (simp del: power_Suc)
    moreover have "(\<exists>n\<le>Suc (Suc k). \<forall>i\<le>Suc k. bit nm i \<longleftrightarrow> n \<le> i) \<longleftrightarrow> (\<forall>i\<le>Suc k. \<not> bit nm i)"
    proof
      assume "\<exists>n\<le>Suc (Suc k). \<forall>i\<le>Suc k. bit nm i \<longleftrightarrow> n \<le> i"
      then obtain n where n: "bit nm i \<longleftrightarrow> n \<le> i" if "i \<le> Suc k" for i by blast
      then have "\<not> n \<le> Suc k" using False by blast
      then show "\<forall>i\<le>Suc k. \<not> bit nm i" using n by auto
    next
      assume "\<forall>i\<le>Suc k. \<not> bit nm i"
      then show "\<exists>n\<le>Suc (Suc k). \<forall>i\<le>Suc k. bit nm i \<longleftrightarrow> n \<le> i" by (intro exI [of _ "Suc (Suc k)"]) auto
    qed
    ultimately show ?thesis using no_ones_spec [OF Suc.prems] by (simp del: power_Suc)
  qed
qed

text \<open>The netmasks that are valid are those that begin with ones and then have zeros only.\<close>

theorem netmask_valid_prefix:
  "ip4_addr_netmask_valid netmask \<longleftrightarrow> (\<exists>n\<le>32. lwip_htonl netmask = NOT (mask n))"
proof -
  let ?h = "lwip_htonl netmask"
  have "ip4_addr_netmask_valid netmask \<longleftrightarrow> (\<exists>n\<le>32. \<forall>i\<le>31. bit ?h i \<longleftrightarrow> n \<le> i)"
    using first_zero_spec [of 31 ?h] by (simp add: ip4_addr_netmask_valid_def push_bit_of_1)
  moreover have "(\<forall>i\<le>31. bit ?h i \<longleftrightarrow> n \<le> i) \<longleftrightarrow> ?h = NOT (mask n)" for n
  proof
    assume a: "\<forall>i\<le>31. bit ?h i \<longleftrightarrow> n \<le> i"
    show "?h = NOT (mask n)"
    proof (rule bit_word_eqI)
      fix i assume "i < LENGTH(32)"
      then have "i \<le> 31" by simp
      then show "bit ?h i = bit (NOT (mask n) :: 32 word) i" using a \<open>i < LENGTH(32)\<close> by (auto simp: bit_simps not_less)
    qed
  qed (auto simp: bit_simps not_less)
  ultimately show ?thesis by simp
qed

end
