(* ===== verification/Lwip_Pbuf.thy ===== *)
theory Lwip_Pbuf
  imports Prelude
begin

text \<open>
  The packet buffers of the TCP/IP stack, \<open>src/LwIP/src/core/pbuf.c\<close>: chains of buffers with reference counts in an explicit heap,
  taken from the two pools of \<open>memp.c\<close> or from \<open>malloc\<close>.
\<close>

section \<open>Buffers\<close>

datatype pbuf_layer = PBUF_TRANSPORT | PBUF_IP | PBUF_LINK | PBUF_RAW

datatype pbuf_type = PBUF_RAM | PBUF_ROM | PBUF_REF | PBUF_POOL

text \<open>
  The payload is a place in a block of memory: the block that follows the struct, which has the address of the struct here, or for
  \<open>PBUF_ROM\<close> and \<open>PBUF_REF\<close> any other one.
\<close>

record pbuf =
  pnext :: "nat option"
  payload :: "(nat \<times> nat) option"
  tot_len :: "16 word"
  plen :: "16 word"
  ptype :: pbuf_type
  pflags :: byte
  pref :: "16 word"

text \<open>
  The structs that are allocated and the contents of all blocks; the lists of free elements of the two pools, from the first one; the
  request to free out-of-order segments, and whether the queue of the stack has room for it.
\<close>

record mem =
  heap :: "nat \<Rightarrow> pbuf option"
  block :: "nat \<Rightarrow> byte list"
  free_pool :: "nat list"
  free_refs :: "nat list"
  pbuf_free_ooseq_pending :: bool
  tcpip_callback_ok :: bool

definition pbuf_pool_is_empty :: "mem \<Rightarrow> mem" where
  "pbuf_pool_is_empty m =
     (let queued = pbuf_free_ooseq_pending m;
          m = m\<lparr>pbuf_free_ooseq_pending := True\<rparr>
      in if \<not> queued \<and> \<not> tcpip_callback_ok m then m\<lparr>pbuf_free_ooseq_pending := False\<rparr> else m)"

text \<open>\<open>memp_malloc\<close> and \<open>memp_free\<close> for the two pools of buffers.\<close>

definition pool_malloc :: "mem \<Rightarrow> (nat \<times> mem) option" where
  "pool_malloc m = (case free_pool m of [] \<Rightarrow> None | a # as \<Rightarrow> Some (a, m\<lparr>free_pool := as\<rparr>))"

definition refs_malloc :: "mem \<Rightarrow> (nat \<times> mem) option" where
  "refs_malloc m = (case free_refs m of [] \<Rightarrow> None | a # as \<Rightarrow> Some (a, m\<lparr>free_refs := as\<rparr>))"

definition update :: "nat \<Rightarrow> (pbuf \<Rightarrow> pbuf) \<Rightarrow> mem \<Rightarrow> mem option" where
  "update a f m = map_option (\<lambda>b. m\<lparr>heap := (heap m)(a \<mapsto> f b)\<rparr>) (heap m a)"

section \<open>Freeing\<close>

definition release :: "nat \<Rightarrow> pbuf \<Rightarrow> mem \<Rightarrow> mem" where
  "release a b m =
     (let m = m\<lparr>heap := (heap m)(a := None)\<rparr> in
      case ptype b of
        PBUF_POOL \<Rightarrow> m\<lparr>free_pool := a # free_pool m\<rparr>
      | PBUF_ROM \<Rightarrow> m\<lparr>free_refs := a # free_refs m\<rparr>
      | PBUF_REF \<Rightarrow> m\<lparr>free_refs := a # free_refs m\<rparr>
      | PBUF_RAM \<Rightarrow> m)"

text \<open>The loop over the chain; a reference count of 0 fails an assertion.\<close>

partial_function (option) free_loop :: "nat option \<Rightarrow> byte \<Rightarrow> mem \<Rightarrow> (byte \<times> mem) option" where
  "free_loop p count m =
     (case p of None \<Rightarrow> Some (count, m)
      | Some a \<Rightarrow> do {
          b \<leftarrow> heap m a;
          if \<not> pref b > 0 then None
          else do {
            let b = b\<lparr>pref := pref b - 1\<rparr>;
            let m = m\<lparr>heap := (heap m)(a \<mapsto> b)\<rparr>;
            if pref b = 0 then free_loop (pnext b) (count + 1) (release a b m) else Some (count, m) } })"

declare free_loop.simps [code]

definition pbuf_free :: "nat option \<Rightarrow> mem \<Rightarrow> (byte \<times> mem) option" where
  "pbuf_free p m = (if p = None then None else free_loop p 0 m)"

definition pbuf_ref :: "nat option \<Rightarrow> mem \<Rightarrow> mem option" where
  "pbuf_ref p m = (case p of None \<Rightarrow> Some m | Some a \<Rightarrow> update a (\<lambda>b. b\<lparr>pref := pref b + 1\<rparr>) m)"

section \<open>Allocation\<close>

definition LWIP_MEM_ALIGN_SIZE :: "nat \<Rightarrow> nat" where
  "LWIP_MEM_ALIGN_SIZE n = (n + 4 - 1) div 4 * 4"

abbreviation (input) PBUF_TRANSPORT_HLEN :: nat where "PBUF_TRANSPORT_HLEN \<equiv> 20"
abbreviation (input) PBUF_IP_HLEN :: nat where "PBUF_IP_HLEN \<equiv> 20"

text \<open>
  The length of the link header and the size of the buffers of the pool come from headers outside the repository; they are
  arguments, \<open>hlen\<close> and \<open>bufsize\<close>.
\<close>

definition header_offset :: "nat \<Rightarrow> pbuf_layer \<Rightarrow> nat" where
  "header_offset hlen layer = (case layer of
     PBUF_TRANSPORT \<Rightarrow> hlen + PBUF_IP_HLEN + PBUF_TRANSPORT_HLEN
   | PBUF_IP \<Rightarrow> hlen + PBUF_IP_HLEN
   | PBUF_LINK \<Rightarrow> hlen
   | PBUF_RAW \<Rightarrow> 0)"

text \<open>
  The tail of a chain from the pool, behind the buffer \<open>r\<close>; false when the pool is empty. The flags and the type of the struct are set first, its
  other fields as they come.
\<close>

function alloc_tail :: "nat \<Rightarrow> nat \<Rightarrow> nat \<Rightarrow> mem \<Rightarrow> (bool \<times> mem) option" where
  "alloc_tail bufsize rem_len r m =
     (if rem_len > 0 then
        case pool_malloc m of
          None \<Rightarrow> Some (False, pbuf_pool_is_empty m)
        | Some (q, m) \<Rightarrow> do {
            m \<leftarrow> update r (\<lambda>b. b\<lparr>pnext := Some q\<rparr>) m;
            if \<not> rem_len < 0xffff then None
            else
              let len = min rem_len bufsize;
                  m = m\<lparr>heap := (heap m)(q \<mapsto> \<lparr>pnext = None, payload = Some (q, 0), tot_len = word_of_nat rem_len,
                    plen = word_of_nat len, ptype = PBUF_POOL, pflags = 0, pref = 1\<rparr>)\<rparr>
              in alloc_tail bufsize (rem_len - len) q m }
      else Some (True, m))"
  by auto
termination
  by (relation "measure (\<lambda>(_, _, _, m). length (free_pool m))")
    (auto simp: pool_malloc_def update_def split: list.splits)

declare alloc_tail.simps [simp del]

text \<open>\<open>malloc\<close> is what the memory manager returns for \<open>PBUF_RAM\<close>, the address of a block.\<close>

definition pbuf_alloc ::
  "nat \<Rightarrow> nat \<Rightarrow> nat option \<Rightarrow> pbuf_layer \<Rightarrow> 16 word \<Rightarrow> pbuf_type \<Rightarrow> mem \<Rightarrow> (nat option \<times> mem) option" where
  "pbuf_alloc hlen bufsize malloc layer len type m =
     (let offset = header_offset hlen layer in
      case type of
        PBUF_POOL \<Rightarrow> (case pool_malloc m of
            None \<Rightarrow> Some (None, pbuf_pool_is_empty m)
          | Some (p, m) \<Rightarrow>
              if \<not> bufsize > LWIP_MEM_ALIGN_SIZE offset then None
              else do {
                let first = min (unat len) (bufsize - LWIP_MEM_ALIGN_SIZE offset);
                let m = m\<lparr>heap := (heap m)(p \<mapsto> \<lparr>pnext = None, payload = Some (p, LWIP_MEM_ALIGN_SIZE offset), tot_len = len,
                  plen = word_of_nat first, ptype = PBUF_POOL, pflags = 0, pref = 1\<rparr>)\<rparr>;
                (ok, m) \<leftarrow> alloc_tail bufsize (unat len - first) p m;
                if ok then Some (Some p, m)
                else do { (_, m) \<leftarrow> pbuf_free (Some p) m; Some (None, m) } })
      | PBUF_RAM \<Rightarrow> (case malloc of None \<Rightarrow> Some (None, m)
          | Some p \<Rightarrow> Some (Some p, m\<lparr>heap := (heap m)(p \<mapsto> \<lparr>pnext = None, payload = Some (p, LWIP_MEM_ALIGN_SIZE offset),
              tot_len = len, plen = len, ptype = type, pflags = 0, pref = 1\<rparr>)\<rparr>))
      | _ \<Rightarrow> (case refs_malloc m of None \<Rightarrow> Some (None, m)
          | Some (p, m) \<Rightarrow> Some (Some p, m\<lparr>heap := (heap m)(p \<mapsto> \<lparr>pnext = None, payload = None, tot_len = len, plen = len, ptype = type,
              pflags = 0, pref = 1\<rparr>)\<rparr>)))"

section \<open>Changing the length\<close>

text \<open>The loop over the buffers that stay; \<open>None\<close> is a failed assertion.\<close>

partial_function (option) realloc_loop :: "nat option \<Rightarrow> 16 word \<Rightarrow> int \<Rightarrow> mem \<Rightarrow> (nat \<times> 16 word \<times> mem) option" where
  "realloc_loop q rem_len grow m = do {
     a \<leftarrow> q;
     b \<leftarrow> heap m a;
     if rem_len > plen b then
       if \<not> grow < 0xffff then None
       else realloc_loop (pnext b) (rem_len - plen b) grow (m\<lparr>heap := (heap m)(a \<mapsto> b\<lparr>tot_len := tot_len b + word_of_int grow\<rparr>)\<rparr>)
     else Some (a, rem_len, m) }"

declare realloc_loop.simps [code]

definition pbuf_realloc :: "nat \<Rightarrow> 16 word \<Rightarrow> mem \<Rightarrow> mem option" where
  "pbuf_realloc p new_len m = do {
     b \<leftarrow> heap m p;
     if new_len \<ge> tot_len b then Some m
     else do {
       let grow = uint new_len - uint (tot_len b);
       (q, rem_len, m) \<leftarrow> realloc_loop (Some p) new_len grow m;
       m \<leftarrow> update q (\<lambda>b. b\<lparr>plen := rem_len\<rparr>) m;
       m \<leftarrow> update q (\<lambda>b. b\<lparr>tot_len := plen b\<rparr>) m;
       b \<leftarrow> heap m q;
       m \<leftarrow> (if pnext b \<noteq> None then map_option snd (pbuf_free (pnext b) m) else Some m);
       update q (\<lambda>b. b\<lparr>pnext := None\<rparr>) m } }"

text \<open>Hiding or revealing a header; the result is false when it fails. The size is a signed halfword.\<close>

definition pbuf_header :: "nat \<Rightarrow> int \<Rightarrow> mem \<Rightarrow> (bool \<times> mem) option" where
  "pbuf_header p inc m =
     (if inc = 0 then Some (True, m)
      else do {
        b \<leftarrow> heap m p;
        if inc < 0 \<and> \<not> - inc \<le> uint (plen b) then Some (False, m)
        else do {
          r \<leftarrow> (if ptype b = PBUF_RAM \<or> ptype b = PBUF_POOL then do {
                  (k, off) \<leftarrow> payload b;
                  Some (if int off - inc < 0 then None else Some (b\<lparr>payload := Some (k, nat (int off - inc))\<rparr>)) }
                else if inc < 0 \<and> - inc \<le> uint (plen b) then do {
                  (k, off) \<leftarrow> payload b;
                  Some (Some (b\<lparr>payload := Some (k, nat (int off - inc))\<rparr>)) }
                else Some None);
          case r of None \<Rightarrow> Some (False, m)
          | Some b \<Rightarrow> Some (True, m\<lparr>heap := (heap m)(p \<mapsto>
              b\<lparr>plen := plen b + word_of_int inc, tot_len := tot_len b + word_of_int inc\<rparr>)\<rparr>) } })"

section \<open>Chains\<close>

partial_function (option) clen_loop :: "nat option \<Rightarrow> byte \<Rightarrow> mem \<Rightarrow> byte option" where
  "clen_loop p len m =
     (case p of None \<Rightarrow> Some len
      | Some a \<Rightarrow> do { b \<leftarrow> heap m a; clen_loop (pnext b) (len + 1) m })"

declare clen_loop.simps [code]

definition pbuf_clen :: "nat option \<Rightarrow> mem \<Rightarrow> byte option" where
  "pbuf_clen p m = clen_loop p 0 m"

text \<open>The loop to the last buffer, with the total length of the second chain.\<close>

partial_function (option) cat_loop :: "nat \<Rightarrow> nat \<Rightarrow> mem \<Rightarrow> (nat \<times> mem) option" where
  "cat_loop p t m = do {
     b \<leftarrow> heap m p;
     case pnext b of None \<Rightarrow> Some (p, m)
     | Some q \<Rightarrow> do {
         c \<leftarrow> heap m t;
         cat_loop q t (m\<lparr>heap := (heap m)(p \<mapsto> b\<lparr>tot_len := tot_len b + tot_len c\<rparr>)\<rparr>) } }"

declare cat_loop.simps [code]

definition pbuf_cat :: "nat option \<Rightarrow> nat option \<Rightarrow> mem \<Rightarrow> mem option" where
  "pbuf_cat h t m =
     (case (h, t) of
        (Some h, Some t) \<Rightarrow> do {
          (p, m) \<leftarrow> cat_loop h t m;
          b \<leftarrow> heap m p;
          c \<leftarrow> heap m t;
          if tot_len b \<noteq> plen b then None
          else update p (\<lambda>b. b\<lparr>pnext := Some t\<rparr>) (m\<lparr>heap := (heap m)(p \<mapsto> b\<lparr>tot_len := tot_len b + tot_len c\<rparr>)\<rparr>) }
      | _ \<Rightarrow> Some m)"

definition pbuf_chain :: "nat option \<Rightarrow> nat option \<Rightarrow> mem \<Rightarrow> mem option" where
  "pbuf_chain h t m = do { m \<leftarrow> pbuf_cat h t m; pbuf_ref t m }"

definition pbuf_dechain :: "nat \<Rightarrow> mem \<Rightarrow> (nat option \<times> mem) option" where
  "pbuf_dechain p m = do {
     b \<leftarrow> heap m p;
     (tail_gone, m) \<leftarrow> (case pnext b of
         None \<Rightarrow> Some (1, m)
       | Some q \<Rightarrow> do {
           c \<leftarrow> heap m q;
           if tot_len c \<noteq> tot_len b - plen b then None
           else do {
             m \<leftarrow> update q (\<lambda>c. c\<lparr>tot_len := tot_len b - plen b\<rparr>) m;
             m \<leftarrow> update p (\<lambda>b. b\<lparr>pnext := None\<rparr>) m;
             m \<leftarrow> update p (\<lambda>b. b\<lparr>tot_len := plen b\<rparr>) m;
             pbuf_free (Some q) m } });
     c \<leftarrow> heap m p;
     if tot_len c \<noteq> plen c then None
     else Some (if tail_gone > 0 then None else pnext b, m) }"

section \<open>Data\<close>

text \<open>The bytes from an offset of the payload on, and writing there; an access outside the block is an error.\<close>

definition payload_bytes :: "pbuf \<Rightarrow> nat \<Rightarrow> nat \<Rightarrow> mem \<Rightarrow> byte list option" where
  "payload_bytes b offset n m =
     (if n = 0 then Some []
      else do { (k, off) \<leftarrow> payload b; fetch (Some (drop (off + offset) (block m k))) n })"

definition payload_write :: "pbuf \<Rightarrow> nat \<Rightarrow> byte list \<Rightarrow> mem \<Rightarrow> mem option" where
  "payload_write b offset bs m =
     (if bs = [] then Some m
      else do { (k, off) \<leftarrow> payload b; c \<leftarrow> copy_in (block m k) (off + offset) bs; Some (m\<lparr>block := (block m)(k := c)\<rparr>) })"

datatype err = ERR_OK | ERR_ARG | ERR_VAL

text \<open>The check of \<open>pbuf_copy\<close> for the end of a packet in a queue of packets; true when it is passed.\<close>

definition no_queue :: "nat option \<Rightarrow> mem \<Rightarrow> bool option" where
  "no_queue p m = (case p of None \<Rightarrow> Some True
     | Some a \<Rightarrow> do { b \<leftarrow> heap m a; Some (plen b = tot_len b \<longrightarrow> pnext b = None) })"

partial_function (option) copy_loop :: "nat \<Rightarrow> nat \<Rightarrow> nat \<Rightarrow> nat \<Rightarrow> mem \<Rightarrow> (err \<times> mem) option" where
  "copy_loop p_to offset_to p_from offset_from m = do {
     t \<leftarrow> heap m p_to;
     f \<leftarrow> heap m p_from;
     let len = (if unat (plen t) - offset_to \<ge> unat (plen f) - offset_from then unat (plen f) - offset_from
       else unat (plen t) - offset_to);
     bs \<leftarrow> payload_bytes f offset_from len m;
     m \<leftarrow> payload_write t offset_to bs m;
     let offset_to = offset_to + len;
     let offset_from = offset_from + len;
     let (offset_from, from) = (if offset_from \<ge> unat (plen f) then (0, pnext f) else (offset_from, Some p_from));
     let (full, offset_to, to) = (if offset_to = unat (plen t) then (True, 0, pnext t) else (False, offset_to, Some p_to));
     if full \<and> \<not> (to \<noteq> None \<or> from = None) then Some (ERR_ARG, m)
     else do {
       ok \<leftarrow> no_queue from m;
       if \<not> ok then Some (ERR_VAL, m)
       else do {
         ok \<leftarrow> no_queue to m;
         if \<not> ok then Some (ERR_VAL, m)
         else case from of None \<Rightarrow> Some (ERR_OK, m)
           | Some p \<Rightarrow> do { q \<leftarrow> to; copy_loop q offset_to p offset_from m } } } }"

declare copy_loop.simps [code]

definition pbuf_copy :: "nat option \<Rightarrow> nat option \<Rightarrow> mem \<Rightarrow> (err \<times> mem) option" where
  "pbuf_copy p_to p_from m =
     (case (p_to, p_from) of
        (Some t, Some f) \<Rightarrow> do {
          tb \<leftarrow> heap m t;
          fb \<leftarrow> heap m f;
          if \<not> tot_len tb \<ge> tot_len fb then Some (ERR_ARG, m) else copy_loop t 0 f 0 m }
      | _ \<Rightarrow> Some (ERR_ARG, m))"

text \<open>The bytes that are copied out, in order, and so their number; the buffer of the caller receives them from its start.\<close>

partial_function (option) copy_partial_loop :: "nat option \<Rightarrow> nat \<Rightarrow> nat \<Rightarrow> mem \<Rightarrow> buffer \<Rightarrow> nat \<Rightarrow> (buffer \<times> nat) option" where
  "copy_partial_loop p len offset m dataptr left =
     (case p of None \<Rightarrow> Some (dataptr, left)
      | Some a \<Rightarrow>
          if len = 0 then Some (dataptr, left)
          else do {
            b \<leftarrow> heap m a;
            if offset \<noteq> 0 \<and> offset \<ge> unat (plen b) then copy_partial_loop (pnext b) len (offset - unat (plen b)) m dataptr left
            else do {
              let n = min len (unat (plen b) - offset);
              bs \<leftarrow> payload_bytes b offset n m;
              dataptr \<leftarrow> copy_in dataptr left bs;
              copy_partial_loop (pnext b) (len - n) 0 m dataptr (left + n) } })"

declare copy_partial_loop.simps [code]

definition pbuf_copy_partial :: "nat option \<Rightarrow> buffer \<Rightarrow> 16 word \<Rightarrow> 16 word \<Rightarrow> mem \<Rightarrow> (buffer \<times> nat) option" where
  "pbuf_copy_partial p dataptr len offset m =
     (if p = None then Some (dataptr, 0) else copy_partial_loop p (unat len) (unat offset) m dataptr 0)"

partial_function (option) take_loop :: "nat option \<Rightarrow> byte list \<Rightarrow> mem \<Rightarrow> mem option" where
  "take_loop p bs m =
     (if bs = [] then Some m
      else do {
        a \<leftarrow> p;
        b \<leftarrow> heap m a;
        let n = min (length bs) (unat (plen b));
        m \<leftarrow> payload_write b 0 (take n bs) m;
        take_loop (pnext b) (drop n bs) m })"

declare take_loop.simps [code]

text \<open>The data are the \<open>len\<close> bytes at \<open>dataptr\<close>.\<close>

definition pbuf_take :: "nat \<Rightarrow> byte list \<Rightarrow> mem \<Rightarrow> (err \<times> mem) option" where
  "pbuf_take p data m = do {
     b \<leftarrow> heap m p;
     if unat (tot_len b) < length data then Some (ERR_ARG, m)
     else map_option (Pair ERR_OK) (take_loop (Some p) data m) }"

definition pbuf_coalesce :: "nat \<Rightarrow> nat option \<Rightarrow> nat \<Rightarrow> pbuf_layer \<Rightarrow> mem \<Rightarrow> (nat \<times> mem) option" where
  "pbuf_coalesce hlen malloc p layer m = do {
     b \<leftarrow> heap m p;
     if pnext b = None then Some (p, m)
     else do {
       (q, m) \<leftarrow> pbuf_alloc hlen 0 malloc layer (tot_len b) PBUF_RAM m;
       case q of None \<Rightarrow> Some (p, m)
       | Some a \<Rightarrow> do {
           (e, m) \<leftarrow> pbuf_copy q (Some p) m;
           if e \<noteq> ERR_OK then None
           else do { (_, m) \<leftarrow> pbuf_free (Some p) m; Some (a, m) } } } }"

section \<open>Searching\<close>

text \<open>The buffer that an offset lies in.\<close>

partial_function (option) skip_loop :: "nat option \<Rightarrow> nat \<Rightarrow> mem \<Rightarrow> (nat option \<times> nat) option" where
  "skip_loop q start m =
     (case q of None \<Rightarrow> Some (None, start)
      | Some a \<Rightarrow> do {
          b \<leftarrow> heap m a;
          if unat (plen b) \<le> start then skip_loop (pnext b) (start - unat (plen b)) m else Some (q, start) })"

declare skip_loop.simps [code]

definition pbuf_get_at :: "nat option \<Rightarrow> 16 word \<Rightarrow> mem \<Rightarrow> byte option" where
  "pbuf_get_at p offset m = do {
     (q, copy_from) \<leftarrow> skip_loop p (unat offset) m;
     case q of None \<Rightarrow> Some 0
     | Some a \<Rightarrow> do { b \<leftarrow> heap m a; bs \<leftarrow> payload_bytes b copy_from 1 m; Some (hd bs) } }"

function memcmp_loop :: "nat option \<Rightarrow> nat \<Rightarrow> byte list \<Rightarrow> nat \<Rightarrow> mem \<Rightarrow> (16 word) option" where
  "memcmp_loop q start s2 i m =
     (if i < length s2 then do {
        a \<leftarrow> pbuf_get_at q (word_of_nat (start + i)) m;
        let b = s2 ! i;
        if a \<noteq> b then Some (word_of_nat (i + 1)) else memcmp_loop q start s2 (i + 1) m }
      else Some 0)"
  by auto
termination by (relation "measure (\<lambda>(q, start, s2, i, m). length s2 - i)") auto

declare memcmp_loop.simps [simp del]

definition pbuf_memcmp :: "nat option \<Rightarrow> 16 word \<Rightarrow> byte list \<Rightarrow> mem \<Rightarrow> (16 word) option" where
  "pbuf_memcmp p offset s2 m = do {
     (q, start) \<leftarrow> skip_loop p (unat offset) m;
     case q of None \<Rightarrow> Some 0xffff | Some a \<Rightarrow> memcmp_loop q start s2 0 m }"

partial_function (option) memfind_loop :: "nat option \<Rightarrow> byte list \<Rightarrow> 16 word \<Rightarrow> 16 word \<Rightarrow> mem \<Rightarrow> (16 word) option" where
  "memfind_loop p s i last_start m =
     (if i \<le> last_start then do {
        plus \<leftarrow> pbuf_memcmp p i s m;
        if plus = 0 then Some i else memfind_loop p s (i + plus) last_start m }
      else Some 0xFFFF)"

declare memfind_loop.simps [code]

definition pbuf_memfind :: "nat \<Rightarrow> byte list \<Rightarrow> 16 word \<Rightarrow> mem \<Rightarrow> (16 word) option" where
  "pbuf_memfind p s start_offset m = do {
     b \<leftarrow> heap m p;
     let last_start = tot_len b - word_of_nat (length s);
     if unat (tot_len b) \<ge> length s + unat start_offset then memfind_loop (Some p) s start_offset last_start m
     else Some 0xFFFF }"

text \<open>The string is given by its bytes without the 0 that ends it.\<close>

definition pbuf_strstr :: "nat \<Rightarrow> byte list \<Rightarrow> mem \<Rightarrow> (16 word) option" where
  "pbuf_strstr p substr m = do {
     b \<leftarrow> heap m p;
     if substr = [] \<or> tot_len b = 0xFFFF then Some 0xFFFF
     else if length substr \<ge> 0xFFFF then Some 0xFFFF
     else pbuf_memfind p substr 0 m }"

end
