(* ===== verification/Lwip_Pbuf_Chain.thy ===== *)
theory Lwip_Pbuf_Chain
  imports Lwip_Pbuf "HOL-Library.Multiset"
begin

text \<open>
  Chains of packet buffers: what a packet is in the heap, and that it is freed, allocated, concatenated, taken apart and shortened
  as a sequence of bytes.
\<close>

section \<open>Chains\<close>

text \<open>The addresses of the buffers of a chain.\<close>

fun chain :: "mem \<Rightarrow> nat option \<Rightarrow> nat list \<Rightarrow> bool" where
  "chain m p [] \<longleftrightarrow> p = None"
| "chain m p (a # as) \<longleftrightarrow> p = Some a \<and> (\<exists>b. heap m a = Some b \<and> chain m (pnext b) as)"

abbreviation buf :: "mem \<Rightarrow> nat \<Rightarrow> pbuf" where "buf m a \<equiv> the (heap m a)"

lemma chain_cong:
  "chain m p xs \<Longrightarrow> (\<And>a. a \<in> set xs \<Longrightarrow> \<exists>b. heap m' a = Some b \<and> pnext b = pnext (buf m a)) \<Longrightarrow> chain m' p xs"
proof (induction xs arbitrary: p)
  case (Cons a as)
  then obtain b where b: "p = Some a" "heap m a = Some b" "chain m (pnext b) as" by auto
  then have "chain m' (pnext b) as" using Cons.IH [OF b(3)] Cons.prems(2) by simp
  moreover obtain b' where "heap m' a = Some b'" "pnext b' = pnext b" using Cons.prems(2) [of a] b(2) by auto
  ultimately show ?case using b(1) by auto
qed simp

lemma chain_same: "chain m p xs \<Longrightarrow> (\<And>a. a \<in> set xs \<Longrightarrow> heap m' a = heap m a) \<Longrightarrow> chain m' p xs"
  by (induction xs arbitrary: p) auto

lemma chain_allocated: "chain m p xs \<Longrightarrow> a \<in> set xs \<Longrightarrow> \<exists>b. heap m a = Some b"
  by (induction xs arbitrary: p) auto

section \<open>Freeing a chain\<close>

text \<open>The buffers at the head of a chain that nothing else refers to.\<close>

definition unshared :: "mem \<Rightarrow> nat list \<Rightarrow> nat list" where
  "unshared m xs = takeWhile (\<lambda>a. pref (buf m a) = 1) xs"

definition of_types :: "pbuf_type set \<Rightarrow> mem \<Rightarrow> nat list \<Rightarrow> nat list" where
  "of_types T m xs = filter (\<lambda>a. ptype (buf m a) \<in> T) xs"

text \<open>They are freed, and the buffer behind them loses one reference.\<close>

definition freed :: "mem \<Rightarrow> nat list \<Rightarrow> mem" where
  "freed m xs = (let ys = unshared m xs; zs = drop (length ys) xs in
     m\<lparr>heap := (\<lambda>a. if a \<in> set ys then None
           else if zs \<noteq> [] \<and> a = hd zs then map_option (\<lambda>b. b\<lparr>pref := pref b - 1\<rparr>) (heap m a) else heap m a),
       free_pool := rev (of_types {PBUF_POOL} m ys) @ free_pool m,
       free_refs := rev (of_types {PBUF_ROM, PBUF_REF} m ys) @ free_refs m\<rparr>)"

lemma free_loop_spec:
  "chain m p xs \<Longrightarrow> distinct xs \<Longrightarrow> \<forall>a \<in> set xs. pref (buf m a) > 0 \<Longrightarrow>
   free_loop p n m = Some (n + word_of_nat (length (unshared m xs)), freed m xs)"
proof (induction xs arbitrary: p n m)
  case Nil
  then show ?case by (subst free_loop.simps) (simp add: freed_def unshared_def of_types_def)
next
  case (Cons a as)
  then obtain b where b: "p = Some a" "heap m a = Some b" "chain m (pnext b) as" by auto
  have r: "pref b > 0" using Cons.prems(3) b(2) by simp
  show ?case
  proof (cases "pref b = 1")
    case False
    then have "pref b - 1 \<noteq> 0" by simp
    then have "free_loop p n m = Some (n, m\<lparr>heap := (heap m)(a \<mapsto> b\<lparr>pref := pref b - 1\<rparr>)\<rparr>)"
      using b(1,2) r by (subst free_loop.simps) (simp add: Let_def)
    moreover have "unshared m (a # as) = []" using False b(2) by (simp add: unshared_def)
    moreover have "freed m (a # as) = m\<lparr>heap := (heap m)(a \<mapsto> b\<lparr>pref := pref b - 1\<rparr>)\<rparr>"
      using False b(2) by (auto simp: freed_def unshared_def of_types_def fun_eq_iff intro!: mem.equality)
    ultimately show ?thesis by simp
  next
    case True
    define m1 where "m1 = release a (b\<lparr>pref := 0\<rparr>) (m\<lparr>heap := (heap m)(a \<mapsto> b\<lparr>pref := 0\<rparr>)\<rparr>)"
    have m1: "heap m1 = (heap m)(a := None)" "block m1 = block m" "pbuf_free_ooseq_pending m1 = pbuf_free_ooseq_pending m"
      "tcpip_callback_ok m1 = tcpip_callback_ok m"
      "free_pool m1 = (if ptype b = PBUF_POOL then [a] else []) @ free_pool m"
      "free_refs m1 = (if ptype b \<in> {PBUF_ROM, PBUF_REF} then [a] else []) @ free_refs m"
      by (cases "ptype b"; simp add: m1_def release_def Let_def)+
    have nin: "a \<notin> set as" using Cons.prems(2) by simp
    then have same: "heap m1 x = heap m x" if "x \<in> set as" for x using m1(1) that by auto
    have c1: "chain m1 (pnext b) as" by (rule chain_same [OF b(3) same])
    have "free_loop p n m = free_loop (pnext b) (n + 1) m1"
      using b(1,2) r True by (subst free_loop.simps) (simp add: m1_def Let_def)
    also have "\<dots> = Some (n + 1 + word_of_nat (length (unshared m1 as)), freed m1 as)"
      by (rule Cons.IH [OF c1]) (use Cons.prems(2,3) same in auto)
    also have "unshared m1 as = unshared m as"
      unfolding unshared_def by (rule takeWhile_cong) (use same in auto)
    also have "freed m1 as = freed m (a # as)"
    proof -
      have u: "unshared m (a # as) = a # unshared m as" using True b(2) by (simp add: unshared_def)
      have "set (unshared m as) \<subseteq> set as" by (auto simp: unshared_def dest: set_takeWhileD)
      then have t: "of_types T m1 (unshared m as) = of_types T m (unshared m as)" for T
        unfolding of_types_def by (intro filter_cong) (use same in auto)
      have u1: "unshared m1 as = unshared m as" unfolding unshared_def by (rule takeWhile_cong) (use same in auto)
      show ?thesis
      proof (rule mem.equality)
        have hz: "hd (drop (length (unshared m as)) as) \<noteq> a" if "drop (length (unshared m as)) as \<noteq> []"
          using nin that by (metis hd_in_set in_set_dropD)
        show "heap (freed m1 as) = heap (freed m (a # as))"
          using hz by (auto simp: freed_def u u1 m1(1) Let_def fun_eq_iff)
      qed (simp_all add: freed_def u u1 m1 t Let_def, simp_all add: of_types_def b(2))
    qed
    finally show ?thesis using True b(2) by (simp add: unshared_def)
  qed
qed

lemma pbuf_free_spec:
  assumes "chain m (Some a) (a # as)" "distinct (a # as)" "\<forall>x \<in> set (a # as). pref (buf m x) > 0"
  shows "pbuf_free (Some a) m = Some (word_of_nat (length (unshared m (a # as))), freed m (a # as))"
  using free_loop_spec [OF assms, of 0] by (simp add: pbuf_free_def)

section \<open>Packets\<close>

text \<open>The lengths: the total length of a buffer is that of the chain from it on.\<close>

definition total :: "mem \<Rightarrow> nat list \<Rightarrow> nat" where
  "total m xs = sum_list (map (\<lambda>a. unat (plen (buf m a))) xs)"

fun totals :: "mem \<Rightarrow> nat list \<Rightarrow> bool" where
  "totals m [] \<longleftrightarrow> True"
| "totals m (a # as) \<longleftrightarrow> unat (tot_len (buf m a)) = total m (a # as) \<and> totals m as"

text \<open>The payload lies in its block; the bytes of a buffer.\<close>

definition sane :: "mem \<Rightarrow> nat \<Rightarrow> bool" where
  "sane m a \<longleftrightarrow> plen (buf m a) = 0 \<or>
     (\<exists>k off. payload (buf m a) = Some (k, off) \<and> off + unat (plen (buf m a)) \<le> length (block m k))"

definition bytes :: "mem \<Rightarrow> nat \<Rightarrow> byte list" where
  "bytes m a = (case payload (buf m a) of None \<Rightarrow> [] | Some (k, off) \<Rightarrow> take (unat (plen (buf m a))) (drop off (block m k)))"

definition packet :: "mem \<Rightarrow> nat option \<Rightarrow> nat list \<Rightarrow> bool" where
  "packet m p xs \<longleftrightarrow> chain m p xs \<and> distinct xs \<and> totals m xs \<and> (\<forall>a \<in> set xs. sane m a)"

definition data :: "mem \<Rightarrow> nat list \<Rightarrow> byte list" where
  "data m xs = concat (map (bytes m) xs)"

lemma total_simps [simp]: "total m [] = 0" "total m (a # as) = unat (plen (buf m a)) + total m as"
  by (simp_all add: total_def)

lemma total_append: "total m (xs @ ys) = total m xs + total m ys"
  by (simp add: total_def)

lemma data_simps [simp]: "data m [] = []" "data m (a # as) = bytes m a @ data m as"
  by (simp_all add: data_def)

lemma length_bytes: "sane m a \<Longrightarrow> length (bytes m a) = unat (plen (buf m a))"
  by (auto simp: sane_def bytes_def split: option.split)

lemma length_data: "\<forall>a \<in> set xs. sane m a \<Longrightarrow> length (data m xs) = total m xs"
  by (induction xs) (simp_all add: length_bytes)

lemma totals_same: "totals m xs \<Longrightarrow> (\<And>a. a \<in> set xs \<Longrightarrow> tot_len (buf m' a) = tot_len (buf m a) \<and> plen (buf m' a) = plen (buf m a)) \<Longrightarrow> totals m' xs"
proof (induction xs)
  case (Cons a as)
  have "total m' (a # as) = total m (a # as)" using Cons.prems(2) by (simp add: total_def cong: map_cong)
  then show ?case using Cons by simp
qed simp

lemma packet_tot_len:
  assumes "packet m (Some p) (p # xs)"
  obtains b where "heap m p = Some b" "unat (tot_len b) = total m (p # xs)"
  using assms by (auto simp: packet_def)

section \<open>Allocation is all or nothing\<close>

definition pool_ok :: "nat \<Rightarrow> mem \<Rightarrow> bool" where
  "pool_ok bufsize m \<longleftrightarrow> distinct (free_pool m) \<and> (\<forall>a \<in> set (free_pool m). heap m a = None \<and> length (block m a) = bufsize)"

text \<open>A buffer as it comes from the pool.\<close>

definition fresh :: "nat \<Rightarrow> nat \<Rightarrow> mem \<Rightarrow> nat \<Rightarrow> bool" where
  "fresh bufsize off m a \<longleftrightarrow> (\<exists>b. heap m a = Some b \<and> payload b = Some (a, off) \<and> off + unat (plen b) \<le> bufsize \<and>
     ptype b = PBUF_POOL \<and> pref b = 1)"

lemma alloc_tail_spec:
  assumes "0 < bufsize" "rem_len < 0xffff" "pool_ok bufsize m" "heap m r = Some b" "pnext b = None" "r \<notin> set (free_pool m)"
  shows "\<exists>ok m' ys. alloc_tail bufsize rem_len r m = Some (ok, m') \<and> ys @ free_pool m' = free_pool m \<and>
    chain m' (Some r) (r # ys) \<and> (\<forall>a \<in> set ys. fresh bufsize 0 m' a) \<and>
    (\<forall>a. a \<notin> set (r # ys) \<longrightarrow> heap m' a = heap m a) \<and> heap m' r = Some (b\<lparr>pnext := (if ys = [] then None else Some (hd ys))\<rparr>) \<and>
    block m' = block m \<and> free_refs m' = free_refs m \<and>
    (ok \<longrightarrow> totals m' ys \<and> total m' ys = rem_len) \<and> (\<not> ok \<longrightarrow> free_pool m' = [] \<and> length ys * bufsize < rem_len)"
  using assms(2-)
proof (induction "free_pool m" arbitrary: m r b rem_len)
  case Nil
  show ?case
  proof (cases "rem_len > 0")
    case True
    then have "alloc_tail bufsize rem_len r m = Some (False, pbuf_pool_is_empty m)"
      using Nil.hyps by (subst alloc_tail.simps) (simp add: pool_malloc_def)
    moreover have "heap (pbuf_pool_is_empty m) = heap m" "free_pool (pbuf_pool_is_empty m) = []"
      "block (pbuf_pool_is_empty m) = block m" "free_refs (pbuf_pool_is_empty m) = free_refs m"
      using Nil.hyps by (simp_all add: pbuf_pool_is_empty_def Let_def)
    moreover have "b\<lparr>pnext := None\<rparr> = b" using Nil.prems(4) by simp
    ultimately show ?thesis using Nil True by (intro exI [of _ False] exI [of _ "pbuf_pool_is_empty m"] exI [of _ "[]"]) auto
  next
    case False
    then have "alloc_tail bufsize rem_len r m = Some (True, m)" by (subst alloc_tail.simps) simp
    moreover have "b\<lparr>pnext := None\<rparr> = b" using Nil.prems(4) by simp
    ultimately show ?thesis using Nil False by (intro exI [of _ True] exI [of _ m] exI [of _ "[]"]) auto
  qed
next
  case (Cons q as)
  show ?case
  proof (cases "rem_len > 0")
    case False
    then have "alloc_tail bufsize rem_len r m = Some (True, m)" by (subst alloc_tail.simps) simp
    moreover have "b\<lparr>pnext := None\<rparr> = b" using Cons.prems(4) by simp
    ultimately show ?thesis using Cons.prems False by (intro exI [of _ True] exI [of _ m] exI [of _ "[]"]) auto
  next
    case True
    let ?len = "min rem_len bufsize"
    let ?qb = "\<lparr>pnext = None, payload = Some (q, 0), tot_len = word_of_nat rem_len, plen = word_of_nat ?len, ptype = PBUF_POOL,
      pflags = 0, pref = 1\<rparr>"
    define m1 where "m1 = m\<lparr>free_pool := as, heap := (heap m)(r \<mapsto> b\<lparr>pnext := Some q\<rparr>, q \<mapsto> ?qb)\<rparr>"
    have fp: "free_pool m = q # as" using Cons.hyps(2) by simp
    then have ne: "q \<noteq> r" "q \<notin> set as" "r \<notin> set as" using Cons.prems(2,5) by (auto simp: pool_ok_def)
    have step: "alloc_tail bufsize rem_len r m = alloc_tail bufsize (rem_len - ?len) q m1"
      using True fp Cons.prems(1,3) by (subst alloc_tail.simps) (simp add: pool_malloc_def update_def m1_def Let_def)
    have p1: "pool_ok bufsize m1" using Cons.prems(2) fp ne by (auto simp: pool_ok_def m1_def)
    have "heap m1 q = Some ?qb" "as = free_pool m1" by (simp_all add: m1_def)
    note q1 = this
    obtain ok m' ys where IH: "alloc_tail bufsize (rem_len - ?len) q m1 = Some (ok, m')" "ys @ free_pool m' = as"
      "chain m' (Some q) (q # ys)" "\<forall>a \<in> set ys. fresh bufsize 0 m' a" "\<forall>a. a \<notin> set (q # ys) \<longrightarrow> heap m' a = heap m1 a"
      "heap m' q = Some (?qb\<lparr>pnext := (if ys = [] then None else Some (hd ys))\<rparr>)" "block m' = block m1" "free_refs m' = free_refs m1"
      "ok \<longrightarrow> totals m' ys \<and> total m' ys = rem_len - ?len" "\<not> ok \<longrightarrow> free_pool m' = [] \<and> length ys * bufsize < rem_len - ?len"
    proof -
      have "rem_len - ?len < 0xffff" "pnext ?qb = None" "q \<notin> set (free_pool m1)" using Cons.prems(1) ne(2) by (simp_all add: m1_def)
      from Cons.hyps(1) [OF q1(2) this(1) p1 q1(1) this(2,3)] show thesis using that unfolding q1(2) by blast
    qed
    have rys: "r \<notin> set (q # ys)" using IH(2) ne by auto
    have hr: "heap m' r = Some (b\<lparr>pnext := Some q\<rparr>)" using IH(5) rys ne by (auto simp: m1_def)
    have len: "unat (word_of_nat ?len :: 16 word) = ?len" "unat (word_of_nat rem_len :: 16 word) = rem_len"
      using Cons.prems(1) by (simp_all add: unat_of_nat)
    show ?thesis
    proof (intro exI [of _ ok] exI [of _ m'] exI [of _ "q # ys"] conjI allI impI ballI)
      show "alloc_tail bufsize rem_len r m = Some (ok, m')" using step IH(1) by simp
      show "(q # ys) @ free_pool m' = free_pool m" using IH(2) fp by simp
      show "chain m' (Some r) (r # q # ys)" using IH(3) hr by auto
      show "fresh bufsize 0 m' a" if "a \<in> set (q # ys)" for a using that IH(4,6) len(1) by (auto simp: fresh_def)
      show "heap m' a = heap m a" if "a \<notin> set (r # q # ys)" for a using that IH(5) by (simp add: m1_def)
      show "heap m' r = Some (b\<lparr>pnext := (if q # ys = [] then None else Some (hd (q # ys)))\<rparr>)" using hr by simp
      show "block m' = block m" "free_refs m' = free_refs m" using IH(7,8) by (simp_all add: m1_def)
      show "totals m' (q # ys)" "total m' (q # ys) = rem_len" if ok using IH(6,9) that len by auto
      show "free_pool m' = []" "length (q # ys) * bufsize < rem_len" if "\<not> ok" using IH(10) that by auto
    qed
  qed
qed

lemma fresh_room: "\<forall>a \<in> set ys. fresh bufsize 0 m a \<Longrightarrow> total m ys \<le> length ys * bufsize"
  by (induction ys) (auto simp: fresh_def)

lemma freed_all:
  assumes "\<forall>a \<in> set xs. pref (buf m a) = 1 \<and> ptype (buf m a) = PBUF_POOL"
  shows "unshared m xs = xs" "freed m xs = m\<lparr>heap := (\<lambda>a. if a \<in> set xs then None else heap m a), free_pool := rev xs @ free_pool m\<rparr>"
proof -
  show u: "unshared m xs = xs" using assms by (simp add: unshared_def)
  have "of_types {PBUF_POOL} m xs = xs" "of_types {PBUF_ROM, PBUF_REF} m xs = []" using assms by (auto simp: of_types_def)
  then show "freed m xs = m\<lparr>heap := (\<lambda>a. if a \<in> set xs then None else heap m a), free_pool := rev xs @ free_pool m\<rparr>"
    by (simp add: freed_def u Let_def cong: if_cong)
qed

lemma freshD: "fresh bufsize off m a \<Longrightarrow> pref (buf m a) = 1 \<and> ptype (buf m a) = PBUF_POOL"
  by (auto simp: fresh_def)

lemma fresh_sane: "fresh bufsize off m a \<Longrightarrow> length (block m a) = bufsize \<Longrightarrow> sane m a"
  by (auto simp: fresh_def sane_def)

text \<open>
  C21. A packet from the pool is allocated whole, when the free buffers hold its header and its bytes, as a chain of buffers with one reference
  each, taken from the pool in order; else nothing is allocated and all buffers are in the pool again.
\<close>

theorem pbuf_alloc_all_or_nothing:
  assumes pool: "pool_ok bufsize m" and off: "off = LWIP_MEM_ALIGN_SIZE (header_offset hlen layer)" "off < bufsize"
  shows "if free_pool m \<noteq> [] \<and> off + unat len \<le> length (free_pool m) * bufsize
    then \<exists>p xs m'. pbuf_alloc hlen bufsize malloc layer len PBUF_POOL m = Some (Some p, m') \<and> packet m' (Some p) (p # xs) \<and>
      total m' (p # xs) = unat len \<and> fresh bufsize off m' p \<and> (\<forall>a \<in> set xs. fresh bufsize 0 m' a) \<and> p # xs @ free_pool m' = free_pool m \<and>
      (\<forall>a. a \<notin> set (p # xs) \<longrightarrow> heap m' a = heap m a) \<and> block m' = block m \<and> free_refs m' = free_refs m
    else \<exists>m'. pbuf_alloc hlen bufsize malloc layer len PBUF_POOL m = Some (None, m') \<and> heap m' = heap m \<and> block m' = block m \<and>
      mset (free_pool m') = mset (free_pool m) \<and> free_refs m' = free_refs m"
proof (cases "free_pool m")
  case Nil
  then have "pbuf_alloc hlen bufsize malloc layer len PBUF_POOL m = Some (None, pbuf_pool_is_empty m)"
    by (simp add: pbuf_alloc_def pool_malloc_def Let_def)
  then show ?thesis using Nil by (auto simp: pbuf_pool_is_empty_def Let_def)
next
  case (Cons p as)
  let ?first = "min (unat len) (bufsize - off)"
  let ?b = "\<lparr>pnext = None, payload = Some (p, off), tot_len = len, plen = word_of_nat ?first, ptype = PBUF_POOL, pflags = 0, pref = 1\<rparr>"
  define m1 where "m1 = m\<lparr>free_pool := as, heap := (heap m)(p \<mapsto> ?b)\<rparr>"
  have as: "p \<notin> set as" "distinct as" "heap m p = None" "\<And>a. a \<in> set (p # as) \<Longrightarrow> heap m a = None \<and> length (block m a) = bufsize"
    using pool Cons by (auto simp: pool_ok_def)
  have small: "unat len < 65536" using unsigned_less [of len, where ?'a = nat] by simp
  then have first: "unat (word_of_nat ?first :: 16 word) = ?first" by (simp add: unat_of_nat)
  have rem: "unat len - ?first < 0xffff"
  proof -
    show ?thesis using off(2) small by (cases "unat len = 0") auto
  qed
  have "pool_ok bufsize m1" "heap m1 p = Some ?b" "pnext ?b = None" "p \<notin> set (free_pool m1)" "0 < bufsize"
    using as off(2) by (auto simp: pool_ok_def m1_def)
  from alloc_tail_spec [OF this(5) rem this(1-4)]
  obtain ok m' ys where tail: "alloc_tail bufsize (unat len - ?first) p m1 = Some (ok, m')" "ys @ free_pool m' = free_pool m1"
    "chain m' (Some p) (p # ys)" "\<forall>a \<in> set ys. fresh bufsize 0 m' a" "\<forall>a. a \<notin> set (p # ys) \<longrightarrow> heap m' a = heap m1 a"
    "heap m' p = Some (?b\<lparr>pnext := (if ys = [] then None else Some (hd ys))\<rparr>)" "block m' = block m1" "free_refs m' = free_refs m1"
    "ok \<longrightarrow> totals m' ys \<and> total m' ys = unat len - ?first" "\<not> ok \<longrightarrow> free_pool m' = [] \<and> length ys * bufsize < unat len - ?first"
    by blast
  have tail2: "ys @ free_pool m' = as" using tail(2) by (simp add: m1_def)
  have fp: "fresh bufsize off m' p" using tail(6) first off(2) by (simp add: fresh_def)
  have d: "distinct (p # ys)" "set ys \<subseteq> set as" using as(1,2) tail2 by auto
  have other: "heap m' a = heap m a" if "a \<notin> set (p # ys)" for a using that tail(5) by (simp add: m1_def)
  have call: "pbuf_alloc hlen bufsize malloc layer len PBUF_POOL m = do {
      (ok, m) \<leftarrow> alloc_tail bufsize (unat len - ?first) p m1;
      if ok then Some (Some p, m) else do { (_, m) \<leftarrow> pbuf_free (Some p) m; Some (None, m) } }"
    using Cons off by (simp add: pbuf_alloc_def pool_malloc_def m1_def Let_def)
  show ?thesis
  proof (cases ok)
    case True
    have tot: "total m' (p # ys) = unat len" using tail(6,9) first True by simp
    have "total m' (p # ys) + off \<le> Suc (length ys) * bufsize"
      using fresh_room [OF tail(4)] tail(6) first off(2) by simp
    moreover have "Suc (length ys) * bufsize \<le> length (free_pool m) * bufsize"
      using Cons tail2 by (intro mult_le_mono1) auto
    ultimately have "total m' (p # ys) + off \<le> length (free_pool m) * bufsize" by (rule le_trans)
    then have room: "free_pool m \<noteq> []" "off + unat len \<le> length (free_pool m) * bufsize" using tot Cons by (simp_all only: add.commute) simp_all
    have "sane m' a" if "a \<in> set (p # ys)" for a
    proof -
      have "fresh bufsize (if a = p then off else 0) m' a" using that fp tail(4) by auto
      moreover have "length (block m' a) = bufsize" using that as(4) [of a] d(2) tail(7) by (auto simp: m1_def)
      ultimately show ?thesis by (rule fresh_sane)
    qed
    then have pk: "packet m' (Some p) (p # ys)"
      using tail(3,6,9) d tot True by (simp add: packet_def)
    then show ?thesis
    proof -
      have "pbuf_alloc hlen bufsize malloc layer len PBUF_POOL m = Some (Some p, m')" using call tail(1) True by simp
      moreover have "p # ys @ free_pool m' = free_pool m" "block m' = block m" "free_refs m' = free_refs m"
        using tail2 Cons tail(7,8) by (simp_all add: m1_def)
      ultimately show ?thesis using room pk tot fp tail(4) other by (simp only: if_True simp_thms) blast
    qed
  next
    case False
    have full: "free_pool m' = []" "ys = as" using tail2 tail(10) False by auto
    have "unat len - ?first > length ys * bufsize" using tail(10) False by simp
    then have "\<not> off + unat len \<le> length (free_pool m) * bufsize" using Cons full(2) off(2) by simp
    moreover have all: "\<forall>a \<in> set (p # ys). pref (buf m' a) = 1 \<and> ptype (buf m' a) = PBUF_POOL"
      using freshD fp tail(4) by auto
    moreover have "pbuf_free (Some p) m' = Some (word_of_nat (length (p # ys)), m'\<lparr>heap := heap m, free_pool := rev (p # ys)\<rparr>)"
    proof -
      have "\<forall>a \<in> set (p # ys). 0 < pref (buf m' a)" using all by simp
      moreover have "(\<lambda>a. if a \<in> set (p # ys) then None else heap m' a) = heap m" using other as(4) d(2) by (auto simp: fun_eq_iff)
      ultimately show ?thesis
        using pbuf_free_spec [OF tail(3) d(1)] freed_all [OF all] full(1) by simp
    qed
    ultimately show ?thesis using call tail(1,7,8) False Cons full(2) by (simp add: m1_def)
  qed
qed

section \<open>Concatenation\<close>

definition lengthen :: "16 word \<Rightarrow> nat set \<Rightarrow> mem \<Rightarrow> mem" where
  "lengthen n A m = m\<lparr>heap := (\<lambda>a. if a \<in> A then map_option (\<lambda>b. b\<lparr>tot_len := tot_len b + n\<rparr>) (heap m a) else heap m a)\<rparr>"

lemma cat_loop_spec:
  "chain m (Some p) (p # xs) \<Longrightarrow> distinct (p # xs) \<Longrightarrow> t \<notin> set (p # xs) \<Longrightarrow> heap m t = Some c \<Longrightarrow>
   cat_loop p t m = Some (last (p # xs), lengthen (tot_len c) (set (butlast (p # xs))) m)"
proof (induction xs arbitrary: p m)
  case Nil
  then show ?case by (subst cat_loop.simps) (auto simp: lengthen_def)
next
  case (Cons q as)
  then obtain b where b: "heap m p = Some b" "pnext b = Some q" "chain m (Some q) (q # as)" by auto
  define m1 where "m1 = m\<lparr>heap := (heap m)(p \<mapsto> b\<lparr>tot_len := tot_len b + tot_len c\<rparr>)\<rparr>"
  have "cat_loop p t m = cat_loop q t m1" using b Cons.prems(4) by (subst cat_loop.simps) (simp add: m1_def)
  also have "\<dots> = Some (last (q # as), lengthen (tot_len c) (set (butlast (q # as))) m1)"
  proof (rule Cons.IH)
    show "chain m1 (Some q) (q # as)" by (rule chain_same [OF b(3)]) (use Cons.prems(2) in \<open>auto simp: m1_def\<close>)
  qed (use Cons.prems in \<open>auto simp: m1_def\<close>)
  also have "lengthen (tot_len c) (set (butlast (q # as))) m1 = lengthen (tot_len c) (set (butlast (p # q # as))) m"
  proof -
    have "p \<notin> set (butlast (q # as))" using Cons.prems(2) in_set_butlastD by fastforce
    then show ?thesis using b(1) by (auto simp: lengthen_def m1_def fun_eq_iff)
  qed
  finally show ?case by simp
qed

lemma totals_last: "totals m (p # xs) \<Longrightarrow> tot_len (buf m (last (p # xs))) = plen (buf m (last (p # xs)))"
  by (induction xs arbitrary: p) (auto simp: word_unat_eq_iff)

lemma bytes_same:
  "payload (buf m' a) = payload (buf m a) \<Longrightarrow> plen (buf m' a) = plen (buf m a) \<Longrightarrow> block m' = block m \<Longrightarrow>
   bytes m' a = bytes m a \<and> sane m' a = sane m a"
  by (simp add: bytes_def sane_def split: option.split)

lemma packet_same:
  assumes pk: "packet m p xs" and h: "\<And>a. a \<in> set xs \<Longrightarrow> heap m' a = heap m a" and bk: "block m' = block m"
  shows "packet m' p xs" "data m' xs = data m xs" "total m' xs = total m xs"
proof -
  have "bytes m' a = bytes m a \<and> sane m' a = sane m a" if "a \<in> set xs" for a by (rule bytes_same) (simp_all add: h [OF that] bk)
  then show "data m' xs = data m xs" "packet m' p xs"
    using pk chain_same [of m p xs m'] totals_same [of m xs m'] h by (auto simp: data_def packet_def cong: map_cong)
  show "total m' xs = total m xs" using h by (simp add: total_def cong: map_cong)
qed

lemma totals_le: "totals m xs \<Longrightarrow> a \<in> set xs \<Longrightarrow> unat (tot_len (buf m a)) \<le> total m xs"
  by (induction xs) auto

lemma totals_appendI:
  "totals m xs \<Longrightarrow> totals m' ys \<Longrightarrow>
   \<forall>a \<in> set xs. plen (buf m' a) = plen (buf m a) \<and> unat (tot_len (buf m' a)) = unat (tot_len (buf m a)) + total m' ys \<Longrightarrow>
   totals m' (xs @ ys) \<and> total m' (xs @ ys) = total m xs + total m' ys"
  by (induction xs) auto

lemma chain_append:
  "chain m p (xs @ [a]) \<Longrightarrow> chain m' q ys \<Longrightarrow> (\<forall>x \<in> set xs. \<exists>b. heap m' x = Some b \<and> pnext b = pnext (buf m x)) \<Longrightarrow>
   heap m' a = Some b' \<Longrightarrow> pnext b' = q \<Longrightarrow> chain m' p (xs @ [a] @ ys)"
  by (induction xs arbitrary: p) fastforce+

text \<open>What \<open>pbuf_cat\<close> makes of the heap.\<close>

definition catted :: "nat \<Rightarrow> nat list \<Rightarrow> mem \<Rightarrow> mem" where
  "catted t xs m = m\<lparr>heap := (\<lambda>a. if a \<in> set xs then map_option (\<lambda>b. b\<lparr>tot_len := tot_len b + tot_len (buf m t),
     pnext := (if a = last xs then Some t else pnext b)\<rparr>) (heap m a) else heap m a)\<rparr>"

lemma pbuf_cat_catted:
  assumes "packet m (Some h) (h # xs)" "heap m t = Some c" "t \<notin> set (h # xs)"
  shows "pbuf_cat (Some h) (Some t) m = Some (catted t (h # xs) m)"
proof -
  let ?l = "last (h # xs)" and ?m = "lengthen (tot_len c) (set (butlast (h # xs))) m"
  have p: "chain m (Some h) (h # xs)" "distinct (h # xs)" "totals m (h # xs)" using assms(1) by (auto simp: packet_def)
  have sp: "set (h # xs) = insert ?l (set (butlast (h # xs)))"
    using append_butlast_last_id [of "h # xs"] by (metis Un_insert_right append_Nil2 list.distinct(1) list.simps(15) set_append set_empty)
  have nl: "?l \<notin> set (butlast (h # xs))"
    using p(2) append_butlast_last_id [of "h # xs"] by (metis distinct_butlast list.distinct(1) not_distinct_conv_prefix)
  obtain b where b: "heap m ?l = Some b" using chain_allocated [OF p(1)] last_in_set [of "h # xs"] by blast
  have tl: "tot_len b = plen b" using totals_last [OF p(3)] b by simp
  have "cat_loop h t m = Some (?l, ?m)" by (rule cat_loop_spec [OF p(1,2) assms(3,2)])
  moreover have hm: "heap ?m ?l = Some b" "heap ?m t = Some c"
  proof -
    show "heap ?m ?l = Some b" using nl b by (simp add: lengthen_def del: butlast.simps last.simps)
    have "t \<notin> set (butlast (h # xs))" using assms(3) in_set_butlastD by fast
    then show "heap ?m t = Some c" using assms(2) by (simp add: lengthen_def del: butlast.simps)
  qed
  ultimately have "pbuf_cat (Some h) (Some t) m =
      Some (?m\<lparr>heap := (heap ?m)(?l \<mapsto> b\<lparr>tot_len := tot_len b + tot_len c, pnext := Some t\<rparr>)\<rparr>)"
    using tl by (simp add: pbuf_cat_def update_def)
  also have "?m\<lparr>heap := (heap ?m)(?l \<mapsto> b\<lparr>tot_len := tot_len b + tot_len c, pnext := Some t\<rparr>)\<rparr> = catted t (h # xs) m"
  proof (rule mem.equality)
    show "heap (?m\<lparr>heap := (heap ?m)(?l \<mapsto> b\<lparr>tot_len := tot_len b + tot_len c, pnext := Some t\<rparr>)\<rparr>) = heap (catted t (h # xs) m)"
    proof
      fix a
      consider "a = ?l" | "a \<noteq> ?l" "a \<in> set (butlast (h # xs))" | "a \<noteq> ?l" "a \<notin> set (butlast (h # xs))" by blast
      then show "heap (?m\<lparr>heap := (heap ?m)(?l \<mapsto> b\<lparr>tot_len := tot_len b + tot_len c, pnext := Some t\<rparr>)\<rparr>) a = heap (catted t (h # xs) m) a"
      proof cases
        case 1
        then have "a \<in> set (h # xs)" by (simp only: last_in_set list.distinct not_False_eq_True)
        then show ?thesis using 1 b assms(2) by (simp add: catted_def del: butlast.simps last.simps list.set)
      next
        case 2
        then have "a \<in> set (h # xs)" using sp by blast
        then show ?thesis using 2 assms(2) by (cases "heap m a") (simp_all add: catted_def lengthen_def del: butlast.simps last.simps list.set)
      next
        case 3
        then have "a \<notin> set (h # xs)" using sp by blast
        then show ?thesis using 3 by (simp add: catted_def lengthen_def del: butlast.simps last.simps list.set)
      qed
    qed
  qed (simp_all add: catted_def lengthen_def)
  finally show ?thesis .
qed

text \<open>
  Two packets are concatenated: one packet holds the bytes of the first and then those of the second, all total lengths fit, and no
  reference count changes.
\<close>

theorem pbuf_cat_appends:
  assumes "packet m (Some h) (h # xs)" "packet m (Some t) (t # ys)" "set (h # xs) \<inter> set (t # ys) = {}"
    "total m (h # xs) + total m (t # ys) < 65536"
  shows "\<exists>m'. pbuf_cat (Some h) (Some t) m = Some m' \<and> packet m' (Some h) (h # xs @ t # ys) \<and>
    data m' (h # xs @ t # ys) = data m (h # xs) @ data m (t # ys) \<and> block m' = block m \<and>
    (\<forall>a. a \<notin> set (h # xs) \<longrightarrow> heap m' a = heap m a) \<and> (\<forall>a. map_option pref (heap m' a) = map_option pref (heap m a))"
proof -
  define m' where "m' = catted t (h # xs) m"
  obtain c where c: "heap m t = Some c" "unat (tot_len c) = total m (t # ys)" using assms(2) by (rule packet_tot_len)
  have call: "pbuf_cat (Some h) (Some t) m = Some m'"
    unfolding m'_def by (rule pbuf_cat_catted [OF assms(1) c(1)]) (use assms(3) in auto)
  have p: "chain m (Some h) (h # xs)" "distinct (h # xs)" "totals m (h # xs)" "\<forall>a \<in> set (h # xs). sane m a"
    using assms(1) by (auto simp: packet_def)
  have q: "chain m (Some t) (t # ys)" "distinct (t # ys)" "totals m (t # ys)" "\<forall>a \<in> set (t # ys). sane m a"
    using assms(2) by (auto simp: packet_def)
  have old: "heap m' a = heap m a" if "a \<notin> set (h # xs)" for a using that by (simp add: m'_def catted_def)
  have new: "\<exists>b. heap m' a = Some b \<and> payload b = payload (buf m a) \<and> plen b = plen (buf m a) \<and> pref b = pref (buf m a) \<and>
      tot_len b = tot_len (buf m a) + tot_len c \<and> pnext b = (if a = last (h # xs) then Some t else pnext (buf m a))"
    if "a \<in> set (h # xs)" for a
    using chain_allocated [OF p(1) that] that c(1) by (auto simp: m'_def catted_def)
  have old_ys: "heap m' a = heap m a" if "a \<in> set (t # ys)" for a using old that assms(3) by blast
  have bl: "block m' = block m" by (simp add: m'_def catted_def)
  have by_eq: "bytes m' a = bytes m a \<and> sane m' a = sane m a \<and> plen (buf m' a) = plen (buf m a)" if "a \<in> set (h # xs) \<union> set (t # ys)" for a
  proof -
    have "payload (buf m' a) = payload (buf m a) \<and> plen (buf m' a) = plen (buf m a)"
    proof (cases "a \<in> set (h # xs)")
      case True
      then show ?thesis using new by force
    next
      case False
      then show ?thesis using old by simp
    qed
    then show ?thesis using bytes_same bl by blast
  qed
  have tot_t: "totals m' (t # ys)" "total m' (t # ys) = total m (t # ys)"
    using totals_same [OF q(3), of m'] old_ys by (simp_all add: total_def cong: map_cong)
  have le: "unat (tot_len (buf m a)) \<le> total m (h # xs)" if "a \<in> set (h # xs)" for a
    using totals_le [OF p(3) that] .
  have "\<forall>a \<in> set (h # xs). plen (buf m' a) = plen (buf m a) \<and> unat (tot_len (buf m' a)) = unat (tot_len (buf m a)) + total m' (t # ys)"
  proof
    fix a assume a: "a \<in> set (h # xs)"
    have "unat (tot_len (buf m a)) + unat (tot_len c) < 2 ^ LENGTH(16)" using le [OF a] c(2) assms(4) by simp
    then have "unat (tot_len (buf m a) + tot_len c) = unat (tot_len (buf m a)) + unat (tot_len c)"
      by (simp only: unat_plus_if') simp
    then show "plen (buf m' a) = plen (buf m a) \<and> unat (tot_len (buf m' a)) = unat (tot_len (buf m a)) + total m' (t # ys)"
      using new [OF a] c(2) tot_t(2) by auto
  qed
  from totals_appendI [OF p(3) tot_t(1) this] have tots: "totals m' ((h # xs) @ t # ys)" by simp
  have ch: "chain m' (Some h) ((h # xs) @ t # ys)"
  proof -
    let ?bs = "butlast (h # xs)" and ?l = "last (h # xs)"
    have e: "?bs @ [?l] = h # xs" by simp
    have "?l \<in> set (h # xs)" by (rule last_in_set) simp
    from new [OF this] obtain bl where "heap m' ?l = Some bl" "pnext bl = Some t" by auto
    moreover have "\<forall>x \<in> set ?bs. \<exists>b. heap m' x = Some b \<and> pnext b = pnext (buf m x)"
    proof
      fix x assume x: "x \<in> set ?bs"
      then have "x \<noteq> ?l" using p(2) e by (metis distinct_butlast list.distinct(1) not_distinct_conv_prefix)
      then show "\<exists>b. heap m' x = Some b \<and> pnext b = pnext (buf m x)" using new [OF in_set_butlastD [OF x]] by auto
    qed
    moreover have "chain m (Some h) (?bs @ [?l])" "chain m' (Some t) (t # ys)"
      using p(1) chain_same [OF q(1) old_ys] by (simp_all only: e)
    ultimately have "chain m' (Some h) (?bs @ [?l] @ t # ys)" using chain_append [of m "Some h" ?bs ?l m' "Some t" "t # ys"] by blast
    then show ?thesis using e by (metis append.assoc)
  qed
  have "packet m' (Some h) ((h # xs) @ t # ys)"
    unfolding packet_def using ch tots p(2,4) q(2,4) assms(3) by_eq by (simp, blast)
  moreover have "data m' ((h # xs) @ t # ys) = data m (h # xs) @ data m (t # ys)"
    using by_eq by (simp add: data_def cong: map_cong)
  moreover have "map_option pref (heap m' a) = map_option pref (heap m a)" for a
    by (simp add: m'_def catted_def option.map_comp comp_def)
  ultimately show ?thesis using call bl old by (intro exI [of _ m']) auto
qed

section \<open>Round trips\<close>

text \<open>Taking off a buffer undoes chaining it: the tail is a packet again, with the reference count of before.\<close>

theorem dechain_undoes_chain:
  assumes "packet m (Some h) [h]" "packet m (Some t) (t # ys)" "h \<noteq> t" "0 < pref (buf m t)" "pref (buf m t) < 0xffff"
  shows "\<exists>m'. pbuf_chain (Some h) (Some t) m = Some m' \<and> pnext (buf m' h) = Some t \<and> pref (buf m' t) = pref (buf m t) + 1 \<and>
    pbuf_dechain h m' = Some (Some t, m)"
proof -
  obtain b c where b: "heap m h = Some b" "tot_len b = plen b" "pnext b = None" and c: "heap m t = Some c"
    using assms(1,2) by (auto simp: packet_def word_unat_eq_iff)
  let ?b = "b\<lparr>tot_len := tot_len b + tot_len c, pnext := Some t\<rparr>" and ?c = "c\<lparr>pref := pref c + 1\<rparr>"
  define m' where "m' = m\<lparr>heap := (heap m)(h \<mapsto> ?b, t \<mapsto> ?c)\<rparr>"
  have "pbuf_cat (Some h) (Some t) m = Some (catted t [h] m)"
    by (rule pbuf_cat_catted [OF assms(1) c]) (use assms(3) in auto)
  then have chain: "pbuf_chain (Some h) (Some t) m = Some m'"
    using b c assms(3) by (auto simp: pbuf_chain_def pbuf_ref_def update_def catted_def m'_def fun_eq_iff)
  have r: "0 < pref c + 1" "pref c + 1 - 1 = pref c" "pref c \<noteq> 0"
    using assms(4,5) c by (auto simp: word_less_nat_alt unat_plus_if')
  have b': "b\<lparr>pnext := None, tot_len := plen b\<rparr> = b" using b by simp
  have "pbuf_dechain h m' = Some (Some t, m'\<lparr>heap := (heap m')(t \<mapsto> c, h \<mapsto> b)\<rparr>)"
    using assms(3) b r by (simp add: b' pbuf_dechain_def m'_def update_def pbuf_free_def free_loop.simps [of "Some t"] fun_upd_twist)
  moreover have "m'\<lparr>heap := (heap m')(t \<mapsto> c, h \<mapsto> b)\<rparr> = m" using b(1) c by (auto simp: m'_def fun_eq_iff)
  ultimately show ?thesis using chain assms(3) c by (intro exI [of _ m']) (simp add: m'_def)
qed

text \<open>A header that is hidden or revealed comes back, and the lengths follow.\<close>

theorem pbuf_header_back:
  assumes "heap m p = Some b" "ptype b \<in> {PBUF_RAM, PBUF_POOL}" "payload b = Some (k, off)"
    "inc \<le> int off" "- inc \<le> uint (plen b)" "plen b \<le> tot_len b" "uint (tot_len b) + inc < 65536"
  shows "\<exists>m'. pbuf_header p inc m = Some (True, m') \<and> pbuf_header p (- inc) m' = Some (True, m) \<and>
    uint (plen (buf m' p)) = uint (plen b) + inc \<and> uint (tot_len (buf m' p)) = uint (tot_len b) + inc \<and>
    payload (buf m' p) = Some (k, nat (int off - inc))"
proof (cases "inc = 0")
  case True
  then show ?thesis using assms by (intro exI [of _ m]) (simp add: pbuf_header_def)
next
  case False
  let ?b = "b\<lparr>payload := Some (k, nat (int off - inc)), plen := plen b + word_of_int inc, tot_len := tot_len b + word_of_int inc\<rparr>"
  define m' where "m' = m\<lparr>heap := (heap m)(p \<mapsto> ?b)\<rparr>"
  have le: "uint (plen b) \<le> uint (tot_len b)" using assms(6) by (simp add: word_le_def)
  have w: "uint (x + word_of_int inc) = uint x + inc" if "- inc \<le> uint x" "uint x + inc < 65536" for x :: "16 word"
  proof -
    have "x + word_of_int inc = word_of_int (uint x + inc)" by simp
    then show ?thesis using that by (simp only: uint_word_of_int) (simp add: take_bit_int_eq_self)
  qed
  have w1: "uint (plen b + word_of_int inc) = uint (plen b) + inc" "uint (tot_len b + word_of_int inc) = uint (tot_len b) + inc"
    using w assms(5,7) le by simp_all
  have "pbuf_header p inc m = Some (True, m')"
    using assms(1-5) False by (auto simp: pbuf_header_def m'_def)
  moreover have "pbuf_header p (- inc) m' = Some (True, m)"
  proof -
    have "plen b + word_of_int inc + word_of_int (- inc) = plen b" "tot_len b + word_of_int inc + word_of_int (- inc) = tot_len b"
      by simp_all
    moreover have "(heap m)(p \<mapsto> b) = heap m" using assms(1) by auto
    moreover have b': "b\<lparr>payload := Some (k, off)\<rparr> = b" using assms(3) by simp
    ultimately show ?thesis
      using assms(2-5) False w1 by (auto simp: b' pbuf_header_def m'_def)
  qed
  ultimately show ?thesis using w1 by (intro exI [of _ m']) (simp add: m'_def)
qed

section \<open>Shortening\<close>

lemma freed_cong:
  assumes "\<forall>a \<in> set zs. heap m' a = heap m a" "free_pool m' = free_pool m" "free_refs m' = free_refs m"
  shows "\<forall>a \<in> set zs. heap (freed m' zs) a = heap (freed m zs) a" "free_pool (freed m' zs) = free_pool (freed m zs)"
    "free_refs (freed m' zs) = free_refs (freed m zs)" "\<forall>a. a \<notin> set zs \<longrightarrow> heap (freed m' zs) a = heap m' a"
    "block (freed m' zs) = block m'"
proof -
  have u: "unshared m' zs = unshared m zs" unfolding unshared_def by (rule takeWhile_cong) (use assms(1) in auto)
  have sub: "set (unshared m zs) \<subseteq> set zs" by (auto simp: unshared_def dest: set_takeWhileD)
  then have t: "of_types T m' (unshared m zs) = of_types T m (unshared m zs)" for T
    unfolding of_types_def by (intro filter_cong) (use assms(1) in auto)
  show "\<forall>a \<in> set zs. heap (freed m' zs) a = heap (freed m zs) a" using assms(1) by (auto simp: freed_def u Let_def)
  show "free_pool (freed m' zs) = free_pool (freed m zs)" "free_refs (freed m' zs) = free_refs (freed m zs)"
    using assms(2,3) by (simp_all add: freed_def u t Let_def)
  have "hd (drop n zs) \<in> set zs" if "drop n zs \<noteq> []" for n using that by (metis hd_in_set in_set_dropD)
  then show "\<forall>a. a \<notin> set zs \<longrightarrow> heap (freed m' zs) a = heap m' a" using sub by (auto simp: freed_def u Let_def)
  show "block (freed m' zs) = block m'" by (simp add: freed_def Let_def)
qed

lemma realloc_loop_spec:
  "chain m (Some p) (p # xs) \<Longrightarrow> distinct (p # xs) \<Longrightarrow> unat rem_len \<le> total m (p # xs) \<Longrightarrow> grow < 0xffff \<Longrightarrow>
   \<exists>ys q zs left. p # xs = ys @ q # zs \<and>
     realloc_loop (Some p) rem_len grow m = Some (q, left, lengthen (word_of_int grow) (set ys) m) \<and>
     total m ys + unat left = unat rem_len \<and> unat left \<le> unat (plen (buf m q))"
proof (induction xs arbitrary: p rem_len m)
  case Nil
  then obtain b where b: "heap m p = Some b" by auto
  then have "\<not> rem_len > plen b" using Nil.prems(3) by (simp add: word_less_nat_alt)
  then show ?case using b
    by (intro exI [of _ "[]"] exI [of _ p] exI [of _ rem_len])
      (subst realloc_loop.simps, auto simp: lengthen_def word_less_nat_alt)
next
  case (Cons q' as)
  then obtain b where b: "heap m p = Some b" "pnext b = Some q'" "chain m (Some q') (q' # as)" by auto
  show ?case
  proof (cases "rem_len > plen b")
    case False
    then have "realloc_loop (Some p) rem_len grow m = Some (p, rem_len, m)" using b(1) by (subst realloc_loop.simps) simp
    then show ?thesis using b False
      by (intro exI [of _ "[]"] exI [of _ p] exI [of _ "q' # as"] exI [of _ rem_len]) (auto simp: lengthen_def word_less_nat_alt)
  next
    case True
    define m1 where "m1 = m\<lparr>heap := (heap m)(p \<mapsto> b\<lparr>tot_len := tot_len b + word_of_int grow\<rparr>)\<rparr>"
    have step: "realloc_loop (Some p) rem_len grow m = realloc_loop (Some q') (rem_len - plen b) grow m1"
      using b(1,2) True Cons.prems(4) by (subst realloc_loop.simps) (simp add: m1_def)
    have same: "heap m1 a = heap m a" if "a \<in> set (q' # as)" for a using that Cons.prems(2) by (auto simp: m1_def)
    have pl: "plen (buf m1 a) = plen (buf m a)" for a using b(1) by (simp add: m1_def)
    have tot: "total m1 xs = total m xs" for xs by (simp add: total_def pl)
    have sub: "unat (rem_len - plen b) = unat rem_len - unat (plen b)" using True by (simp add: unat_sub less_imp_le)
    obtain ys q zs left where IH: "q' # as = ys @ q # zs"
      "realloc_loop (Some q') (rem_len - plen b) grow m1 = Some (q, left, lengthen (word_of_int grow) (set ys) m1)"
      "total m1 ys + unat left = unat (rem_len - plen b)" "unat left \<le> unat (plen (buf m1 q))"
    proof -
      have "chain m1 (Some q') (q' # as)" by (rule chain_same [OF b(3) same])
      moreover have "distinct (q' # as)" using Cons.prems(2) by simp
      moreover have "unat (rem_len - plen b) \<le> total m1 (q' # as)" using sub Cons.prems(3) b(1) unfolding tot by simp
      ultimately show thesis using Cons.IH [of m1 q' "rem_len - plen b"] Cons.prems(4) that by blast
    qed
    have "lengthen (word_of_int grow) (set ys) m1 = lengthen (word_of_int grow) (set (p # ys)) m"
    proof -
      have "p \<notin> set ys" using Cons.prems(2) IH(1) by (metis Un_iff distinct.simps(2) set_append)
      then show ?thesis using b(1) by (auto simp: lengthen_def m1_def fun_eq_iff)
    qed
    moreover have "unat (plen b) \<le> unat rem_len" using True by (simp add: word_less_nat_alt)
    ultimately show ?thesis using step IH b(1) sub
      by (intro exI [of _ "p # ys"] exI [of _ q] exI [of _ zs] exI [of _ left]) (simp add: tot pl)
  qed
qed

lemma unat_shrink: "d \<le> unat x \<Longrightarrow> unat (x + word_of_int (- int d)) = unat x - d" for x :: "16 word"
proof -
  assume d: "d \<le> unat x"
  have "x + word_of_int (- int d) = word_of_nat (unat x - d)" using d by (simp add: of_nat_diff)
  moreover have "unat x - d < 65536" using unsigned_less [of x, where ?'a = nat] by simp
  ultimately show ?thesis by (simp add: unat_of_nat)
qed

lemma totals_shrink:
  "totals m (xs @ us) \<Longrightarrow> totals m' ys \<Longrightarrow>
   \<forall>a \<in> set xs. plen (buf m' a) = plen (buf m a) \<and> unat (tot_len (buf m' a)) + total m us = unat (tot_len (buf m a)) + total m' ys \<Longrightarrow>
   totals m' (xs @ ys) \<and> total m' (xs @ ys) = total m xs + total m' ys"
  by (induction xs) (auto simp: total_append)

lemma totals_ge: "totals m (xs @ us) \<Longrightarrow> a \<in> set xs \<Longrightarrow> total m us \<le> unat (tot_len (buf m a))"
  by (induction xs) (auto simp: total_append)

lemma chain_tail: "chain m p (ys @ q # zs) \<Longrightarrow> heap m q = Some b \<Longrightarrow> chain m (pnext b) zs"
  by (induction ys arbitrary: p) auto

lemma chain_prefix:
  "chain m p (ys @ q # zs) \<Longrightarrow> (\<forall>x \<in> set ys. \<exists>b. heap m' x = Some b \<and> pnext b = pnext (buf m x)) \<Longrightarrow>
   heap m' q = Some b' \<Longrightarrow> pnext b' = None \<Longrightarrow> chain m' p (ys @ [q])"
  by (induction ys arbitrary: p) fastforce+

lemma realloc_end:
  assumes "chain m (Some p) (ys @ q # zs)" "distinct (ys @ q # zs)" "\<forall>a \<in> set zs. 0 < pref (buf m a)"
    "m1 = lengthen n (set ys) m" "heap m q = Some b"
  shows "\<exists>m'. (do {
      m \<leftarrow> update q (\<lambda>b. b\<lparr>plen := left\<rparr>) m1;
      m \<leftarrow> update q (\<lambda>b. b\<lparr>tot_len := plen b\<rparr>) m;
      b \<leftarrow> heap m q;
      m \<leftarrow> (if pnext b \<noteq> None then map_option snd (pbuf_free (pnext b) m) else Some m);
      update q (\<lambda>b. b\<lparr>pnext := None\<rparr>) m }) = Some m' \<and>
    heap m' q = Some (b\<lparr>plen := left, tot_len := left, pnext := None\<rparr>) \<and>
    (\<forall>a \<in> set ys. heap m' a = map_option (\<lambda>b. b\<lparr>tot_len := tot_len b + n\<rparr>) (heap m a)) \<and>
    (\<forall>a \<in> set zs. heap m' a = heap (freed m zs) a) \<and> free_pool m' = free_pool (freed m zs) \<and> free_refs m' = free_refs (freed m zs) \<and>
    (\<forall>a. a \<notin> set (ys @ q # zs) \<longrightarrow> heap m' a = heap m a) \<and> block m' = block m"
proof -
  let ?b = "b\<lparr>plen := left, tot_len := left\<rparr>"
  have d: "q \<notin> set ys" "q \<notin> set zs" "set ys \<inter> set zs = {}" "distinct zs" using assms(2) by auto
  have cz: "chain m (pnext b) zs" by (rule chain_tail [OF assms(1,5)])
  define m2 where "m2 = m1\<lparr>heap := (heap m1)(q \<mapsto> ?b)\<rparr>"
  have hq: "heap m1 q = Some b" using d(1) assms(5) by (simp add: assms(4) lengthen_def)
  have hz: "\<forall>a \<in> set zs. heap m2 a = heap m a" using d by (auto simp: m2_def assms(4) lengthen_def)
  have pools: "free_pool m2 = free_pool m" "free_refs m2 = free_refs m" "block m2 = block m"
    by (simp_all add: m2_def assms(4) lengthen_def)
  have free: "(if pnext b \<noteq> None then map_option snd (pbuf_free (pnext b) m2) else Some m2) = Some (freed m2 zs)"
  proof (cases zs)
    case Nil
    then show ?thesis using cz by (simp add: freed_def unshared_def of_types_def)
  next
    case (Cons z zs')
    then have "pnext b = Some z" using cz by simp
    moreover have "chain m2 (pnext b) zs" by (rule chain_same [OF cz]) (use hz in auto)
    ultimately show ?thesis
      using pbuf_free_spec [of m2 z zs'] assms(3) d(4) hz Cons by auto
  qed
  note fc = freed_cong [OF hz pools(1,2)]
  define m' where "m' = (freed m2 zs)\<lparr>heap := (heap (freed m2 zs))(q \<mapsto> ?b\<lparr>pnext := None\<rparr>)\<rparr>"
  have hq1: "heap m2 q = Some ?b" by (simp add: m2_def)
  have hq2: "heap (freed m2 zs) q = Some ?b" using fc(4) d(2) by (simp add: m2_def)
  have "(do {
      m \<leftarrow> update q (\<lambda>b. b\<lparr>plen := left\<rparr>) m1;
      m \<leftarrow> update q (\<lambda>b. b\<lparr>tot_len := plen b\<rparr>) m;
      b \<leftarrow> heap m q;
      m \<leftarrow> (if pnext b \<noteq> None then map_option snd (pbuf_free (pnext b) m) else Some m);
      update q (\<lambda>b. b\<lparr>pnext := None\<rparr>) m }) = Some m'"
    using hq free hq1 hq2 

    by (cases "pnext b = None") (auto simp add: update_def m'_def m2_def [symmetric])
  moreover have "heap m' q = Some (b\<lparr>plen := left, tot_len := left, pnext := None\<rparr>)" by (simp add: m'_def)
  moreover have "\<forall>a \<in> set ys. heap m' a = map_option (\<lambda>b. b\<lparr>tot_len := tot_len b + n\<rparr>) (heap m a)"
    using d fc(4) by (auto simp: m'_def m2_def assms(4) lengthen_def)
  moreover have "\<forall>a \<in> set zs. heap m' a = heap (freed m zs) a" using fc(1) d(2) by (auto simp: m'_def)
  moreover have "free_pool m' = free_pool (freed m zs)" "free_refs m' = free_refs (freed m zs)" "block m' = block m"
    using fc(2,3,5) pools(3) by (simp_all add: m'_def)
  moreover have "\<forall>a. a \<notin> set (ys @ q # zs) \<longrightarrow> heap m' a = heap m a"
    using fc(4) by (auto simp: m'_def m2_def assms(4) lengthen_def)
  ultimately show ?thesis by (intro exI [of _ m']) simp
qed

text \<open>
  C22. A packet is shortened to its first bytes, with all lengths adjusted; the buffers that hold none of them are freed, up to the first that
  somebody else refers to.
\<close>

theorem pbuf_realloc_truncates:
  assumes pk: "packet m (Some p) (p # xs)" and refs: "\<forall>a \<in> set (p # xs). 0 < pref (buf m a)"
    and le: "unat new_len \<le> total m (p # xs)"
  shows "\<exists>ys zs m'. p # xs = ys @ zs \<and> pbuf_realloc p new_len m = Some m' \<and> packet m' (Some p) ys \<and>
    data m' ys = take (unat new_len) (data m (p # xs)) \<and> total m' ys = unat new_len \<and> block m' = block m \<and>
    (\<forall>a \<in> set zs. heap m' a = heap (freed m zs) a) \<and> free_pool m' = free_pool (freed m zs) \<and> free_refs m' = free_refs (freed m zs) \<and>
    (\<forall>a. a \<notin> set (p # xs) \<longrightarrow> heap m' a = heap m a)"
proof -
  obtain pb where pb: "heap m p = Some pb" "unat (tot_len pb) = total m (p # xs)" using pk by (rule packet_tot_len)
  have q: "chain m (Some p) (p # xs)" "distinct (p # xs)" "totals m (p # xs)" "\<forall>a \<in> set (p # xs). sane m a"
    using pk by (auto simp: packet_def)
  have ld: "length (data m (p # xs)) = total m (p # xs)" by (rule length_data [OF q(4)])
  show ?thesis
  proof (cases "unat new_len = total m (p # xs)")
    case True
    then have "pbuf_realloc p new_len m = Some m" using pb by (simp add: pbuf_realloc_def word_le_nat_alt)
    then show ?thesis using pk True ld
      by (intro exI [of _ "p # xs"] exI [of _ "[]"] exI [of _ m])
        (simp add: freed_def unshared_def of_types_def del: data_simps total_simps)
  next
    case False
    define d where "d = total m (p # xs) - unat new_len"
    have grow: "uint new_len - uint (tot_len pb) = - int d" 
    proof -
      have "int d = int (unat (tot_len pb)) - int (unat new_len)" unfolding d_def pb(2) using le by (rule of_nat_diff)
      then show ?thesis by simp
    qed
    obtain ys q' zs left where loop: "p # xs = ys @ q' # zs"
      "realloc_loop (Some p) new_len (- int d) m = Some (q', left, lengthen (word_of_int (- int d)) (set ys) m)"
      "total m ys + unat left = unat new_len" "unat left \<le> unat (plen (buf m q'))"
    proof -
      have "- int d < 0xffff" by simp
      from realloc_loop_spec [OF q(1,2) le this] show thesis using that by blast
    qed
    obtain b where b: "heap m q' = Some b" using chain_allocated [OF q(1)] loop(1) by auto
    obtain m' where m': "pbuf_realloc p new_len m = Some m'" "heap m' q' = Some (b\<lparr>plen := left, tot_len := left, pnext := None\<rparr>)"
      "\<forall>a \<in> set ys. heap m' a = map_option (\<lambda>b. b\<lparr>tot_len := tot_len b + word_of_int (- int d)\<rparr>) (heap m a)"
      "\<forall>a \<in> set zs. heap m' a = heap (freed m zs) a" "free_pool m' = free_pool (freed m zs)" "free_refs m' = free_refs (freed m zs)"
      "\<forall>a. a \<notin> set (ys @ q' # zs) \<longrightarrow> heap m' a = heap m a" "block m' = block m"
    proof -
      have "\<not> tot_len pb \<le> new_len" using le False pb(2) by (simp add: word_le_nat_alt)
      then have "pbuf_realloc p new_len m = do {
          (q, left, m) \<leftarrow> realloc_loop (Some p) new_len (- int d) m;
          m \<leftarrow> update q (\<lambda>b. b\<lparr>plen := left\<rparr>) m;
          m \<leftarrow> update q (\<lambda>b. b\<lparr>tot_len := plen b\<rparr>) m;
          b \<leftarrow> heap m q;
          m \<leftarrow> (if pnext b \<noteq> None then map_option snd (pbuf_free (pnext b) m) else Some m);
          update q (\<lambda>b. b\<lparr>pnext := None\<rparr>) m }"
        using pb(1) by (simp add: pbuf_realloc_def grow Let_def)
      moreover have "chain m (Some p) (ys @ q' # zs)" "distinct (ys @ q' # zs)" "\<forall>a \<in> set zs. 0 < pref (buf m a)"
        using q(1,2) refs unfolding loop(1) by simp_all
      ultimately show thesis using realloc_end [OF _ _ _ refl b, of p ys zs left "word_of_int (- int d)"] that loop(2) by auto
    qed
    have nq: "q' \<notin> set ys" using q(2) loop(1) by simp
    have al: "\<exists>b. heap m a = Some b" if "a \<in> set ys" for a using chain_allocated [OF q(1)] that loop(1) by auto
    have same: "\<exists>b. heap m' a = Some b \<and> pnext b = pnext (buf m a) \<and> payload b = payload (buf m a) \<and> plen b = plen (buf m a) \<and>
        tot_len b = tot_len (buf m a) + word_of_int (- int d)" if "a \<in> set ys" for a
      using m'(3) al [OF that] that by auto
    have ty: "bytes m' a = bytes m a \<and> sane m' a = sane m a" if "a \<in> set ys" for a
      by (rule bytes_same) (use same [OF that] m'(8) in auto)
    have tq: "sane m' q'" "bytes m' q' = take (unat left) (bytes m q')"
    proof -
      have s: "sane m q'" using q(4) loop(1) by simp
      show "sane m' q'"
      proof (cases "plen b = 0")
        case True
        then have "left = 0" using loop(4) b by (simp add: word_unat_eq_iff)
        then show ?thesis using m'(2) by (simp add: sane_def)
      next
        case False
        then show ?thesis using m'(2,8) s loop(4) b by (auto simp: sane_def)
      qed
      show "bytes m' q' = take (unat left) (bytes m q')"
        using m'(2,8) loop(4) b by (simp add: bytes_def min_absorb1 split: option.split)
    qed
    have tot_d: "d + unat left = total m (q' # zs)" using loop(1,3) le by (simp add: d_def total_append)
    have "totals m' [q']" using m'(2) by simp
    moreover have "\<forall>a \<in> set ys. plen (buf m' a) = plen (buf m a) \<and>
        unat (tot_len (buf m' a)) + total m (q' # zs) = unat (tot_len (buf m a)) + total m' [q']"
    proof
      fix a assume a: "a \<in> set ys"
      have "total m (q' # zs) \<le> unat (tot_len (buf m a))" using totals_ge [OF _ a] q(3) unfolding loop(1) by blast
      then have d: "d \<le> unat (tot_len (buf m a))" using tot_d by simp
      note unat_shrink [OF d]
      then show "plen (buf m' a) = plen (buf m a) \<and>
          unat (tot_len (buf m' a)) + total m (q' # zs) = unat (tot_len (buf m a)) + total m' [q']"
        using same [OF a] m'(2) tot_d d by auto
    qed
    ultimately have tots: "totals m' (ys @ [q'])" "total m' (ys @ [q']) = unat new_len"
      using totals_shrink [of m ys "q' # zs" m' "[q']"] q(3) loop(3) m'(2) unfolding loop(1) by auto
    have "chain m' (Some p) (ys @ [q'])"
    proof (rule chain_prefix [OF _ _ m'(2)])
      show "chain m (Some p) (ys @ q' # zs)" using q(1) unfolding loop(1) .
      show "\<forall>x \<in> set ys. \<exists>b. heap m' x = Some b \<and> pnext b = pnext (buf m x)" using same by blast
    qed simp
    then have "packet m' (Some p) (ys @ [q'])" using tots(1) q(2,4) ty tq(1) unfolding loop(1) packet_def by auto
    moreover have "data m' (ys @ [q']) = take (unat new_len) (data m (p # xs))"
    proof -
      have "length (data m ys) = total m ys" by (rule length_data) (use q(4) loop(1) in auto)
      moreover have "data m' ys = data m ys" using ty by (simp add: data_def cong: map_cong)
      moreover have "length (bytes m q') = unat (plen (buf m q'))" by (rule length_bytes) (use q(4) loop(1) in auto)
      moreover have "unat new_len - total m ys = unat left" using loop(3) by simp
      ultimately show ?thesis using tq(2) loop(3,4) unfolding loop(1) by (simp add: data_def)
    qed
    ultimately show ?thesis using loop(1) tots(2) m'
      by (intro exI [of _ "ys @ [q']"] exI [of _ zs] exI [of _ m']) auto
  qed
qed

section \<open>Examples\<close>

text \<open>A packet of two buffers from the pool, and another of one; two buffers of 8 bytes are free.\<close>

definition example_buf :: "nat option \<Rightarrow> nat \<times> nat \<Rightarrow> 16 word \<Rightarrow> 16 word \<Rightarrow> pbuf" where
  "example_buf n pl tot len = \<lparr>pnext = n, payload = Some pl, tot_len = tot, plen = len, ptype = PBUF_POOL, pflags = 0, pref = 1\<rparr>"

definition example_mem :: mem where
  "example_mem = \<lparr>heap = [7 \<mapsto> example_buf (Some 2) (7, 1) 5 3, 2 \<mapsto> example_buf None (2, 0) 2 2, 6 \<mapsto> example_buf None (6, 0) 3 3],
     block = (\<lambda>_. replicate 8 0)(7 := [0, 97, 97, 98, 0, 0, 0, 0], 2 := [99, 100, 0, 0, 0, 0, 0, 0], 6 := [97, 97, 98, 0, 0, 0, 0, 0]),
     free_pool = [4, 5], free_refs = [], pbuf_free_ooseq_pending = False, tcpip_callback_ok = True\<rparr>"

lemma example_packets:
  "packet example_mem (Some 7) [7, 2]" "packet example_mem (Some 6) [6]"
  "data example_mem [7, 2] = [97, 97, 98, 99, 100]" "data example_mem [6] = [97, 97, 98]"
  "total example_mem [7, 2] = 5" "total example_mem [6] = 3"
  by (simp_all add: packet_def example_mem_def example_buf_def sane_def bytes_def)

lemma example_refs: "\<forall>a \<in> {7, 2, 6}. pref (buf example_mem a) = 1"
  by (simp add: example_mem_def example_buf_def)

lemma example_pool: "pool_ok 8 example_mem"
  by (simp add: pool_ok_def example_mem_def)

theorem pbuf_alloc_all_or_nothing_witness:
  "(\<exists>p xs m'. pbuf_alloc 14 8 None PBUF_RAW 10 PBUF_POOL example_mem = Some (Some p, m') \<and> total m' (p # xs) = 10 \<and>
     p # xs @ free_pool m' = [4, 5]) \<and>
   (\<exists>m'. pbuf_alloc 14 8 None PBUF_RAW 17 PBUF_POOL example_mem = Some (None, m') \<and> mset (free_pool m') = {#4, 5#})"
proof -
  have o: "(0 :: nat) = LWIP_MEM_ALIGN_SIZE (header_offset 14 PBUF_RAW)" by (simp add: LWIP_MEM_ALIGN_SIZE_def header_offset_def)
  have f: "free_pool example_mem = [4, 5]" by (simp add: example_mem_def)
  show ?thesis
    using pbuf_alloc_all_or_nothing [OF example_pool o, of 10 None] pbuf_alloc_all_or_nothing [OF example_pool o, of 17 None]
    by (simp add: f del: total_simps) blast
qed

theorem pbuf_cat_appends_witness:
  "\<exists>m'. pbuf_cat (Some 6) (Some 7) example_mem = Some m' \<and> data m' [6, 7, 2] = [97, 97, 98, 97, 97, 98, 99, 100]"
  using pbuf_cat_appends [OF example_packets(2,1)] example_packets(3-6) by (auto simp del: data_simps total_simps)

theorem pbuf_realloc_truncates_witness:
  "\<exists>ys zs m'. [7, 2] = ys @ zs \<and> pbuf_realloc 7 4 example_mem = Some m' \<and> data m' ys = [97, 97, 98, 99]"
  using pbuf_realloc_truncates [OF example_packets(1), of 4] example_packets(3,5) example_refs
  by (auto simp del: data_simps total_simps)

theorem dechain_undoes_chain_witness:
  "\<exists>m'. pbuf_chain (Some 6) (Some 7) example_mem = Some m' \<and> pbuf_dechain 6 m' = Some (Some 7, example_mem)"
  using dechain_undoes_chain [OF example_packets(2,1)] example_refs by auto

theorem pbuf_header_back_witness:
  "\<exists>m'. pbuf_header 7 (- 2) example_mem = Some (True, m') \<and> pbuf_header 7 2 m' = Some (True, example_mem)"
  using pbuf_header_back [of example_mem 7 "example_buf (Some 2) (7, 1) 5 3" 7 1 "- 2"]
  by (auto simp: example_mem_def example_buf_def)

end
