(* ===== verification/Lwip_Pbuf_Data.thy ===== *)
theory Lwip_Pbuf_Data
  imports Lwip_Pbuf_Chain
begin

text \<open>
  The data of packets: copied out, copied in, copied from packet to packet, made one buffer, compared and searched.
\<close>

section \<open>Copying out\<close>

lemma payload_bytes_sane:
  assumes "sane m a" "heap m a = Some b" "offset + n \<le> unat (plen b)"
  shows "payload_bytes b offset n m = Some (take n (drop offset (bytes m a)))"
proof (cases "n = 0")
  case False
  then obtain k off where p: "payload b = Some (k, off)" "off + unat (plen b) \<le> length (block m k)"
    using assms by (auto simp: sane_def)
  moreover have "take n (drop (off + offset) (block m k)) = take n (drop offset (take (unat (plen b)) (drop off (block m k))))"
    using assms(3) by (simp add: drop_take min_def add.commute)
  ultimately show ?thesis using assms False by (simp add: payload_bytes_def fetch_def bytes_def)
qed (simp add: payload_bytes_def)

lemma copy_partial_loop_spec:
  "chain m p xs \<Longrightarrow> \<forall>a \<in> set xs. sane m a \<Longrightarrow> left + length (take len (drop offset (data m xs))) \<le> length dst \<Longrightarrow>
   copy_partial_loop p len offset m dst left =
     map_option (\<lambda>d. (d, left + length (take len (drop offset (data m xs))))) (copy_in dst left (take len (drop offset (data m xs))))"
proof (induction xs arbitrary: p len offset dst left)
  case Nil
  then show ?case by (subst copy_partial_loop.simps) (simp add: copy_in_def)
next
  case (Cons a as)
  then obtain b where b: "p = Some a" "heap m a = Some b" "chain m (pnext b) as" by auto
  have sane: "sane m a" "\<forall>a \<in> set as. sane m a" using Cons.prems(2) by simp_all
  have len: "length (bytes m a) = unat (plen b)" using length_bytes [OF sane(1)] b(2) by simp
  consider (none) "len = 0" | (skip) "len \<noteq> 0" "offset \<noteq> 0" "offset \<ge> unat (plen b)" | (copy) "len \<noteq> 0" "offset = 0 \<or> offset < unat (plen b)"
    by linarith
  then show ?case
  proof cases
    case none
    then show ?thesis using b Cons.prems(3) by (subst copy_partial_loop.simps) (simp add: copy_in_def)
  next
    case skip
    have "copy_partial_loop p len offset m dst left = copy_partial_loop (pnext b) len (offset - unat (plen b)) m dst left"
      using skip b by (subst copy_partial_loop.simps) simp
    moreover have "drop offset (data m (a # as)) = drop (offset - unat (plen b)) (data m as)" using skip len by simp
    ultimately show ?thesis using Cons.IH [OF b(3) sane(2)] Cons.prems(3) by simp
  next
    case copy
    define n where "n = min len (unat (plen b) - offset)"
    define out where "out = take n (drop offset (bytes m a))"
    have le: "offset \<le> unat (plen b)" using copy by auto
    then have lo: "length out = n" using len by (simp add: out_def n_def)
    have split: "take len (drop offset (data m (a # as))) = out @ take (len - n) (data m as)"
      using le len by (auto simp: out_def n_def min_def)
    obtain d where d: "copy_in dst left out = Some d" using Cons.prems(3) lo unfolding split by (simp add: copy_in_def)
    have "copy_partial_loop p len offset m dst left = copy_partial_loop (pnext b) (len - n) 0 m d (left + n)"
      using copy b payload_bytes_sane [OF sane(1) b(2), of offset n] le d
      by (subst copy_partial_loop.simps) (auto simp: n_def [symmetric] out_def [symmetric] Let_def, auto simp: n_def)
    also have "\<dots> = map_option (\<lambda>e. (e, left + n + length (take (len - n) (data m as)))) (copy_in d (left + n) (take (len - n) (data m as)))"
      using Cons.IH [OF b(3) sane(2), of "left + n" "len - n" 0 d] Cons.prems(3) copy_in_length [OF d] lo unfolding split by simp
    also have "copy_in d (left + n) (take (len - n) (data m as)) = copy_in dst left (out @ take (len - n) (data m as))"
      using copy_in_append [of dst left out "take (len - n) (data m as)"] d lo by simp
    finally show ?thesis unfolding split using lo by (simp add: add.assoc)
  qed
qed

text \<open>A part of a packet is copied out: as many bytes as are asked for, from the offset on, or fewer at the end of the packet.\<close>

theorem pbuf_copy_partial_copies_out:
  assumes "packet m (Some p) xs" "out = take (unat len) (drop (unat offset) (data m xs))" "length out \<le> length dst"
  shows "pbuf_copy_partial (Some p) dst len offset m = Some (out @ drop (length out) dst, length out)"
  using copy_partial_loop_spec [of m "Some p" xs 0 "unat len" "unat offset" dst] assms
  by (simp add: pbuf_copy_partial_def packet_def copy_in_def)

section \<open>Copying in\<close>

text \<open>The payload of a buffer from the heap or the pool lies in its own block.\<close>

definition owned :: "mem \<Rightarrow> nat \<Rightarrow> bool" where
  "owned m a \<longleftrightarrow> (\<exists>off. payload (buf m a) = Some (a, off) \<and> off + unat (plen (buf m a)) \<le> length (block m a))"

text \<open>Only the contents of the blocks of these buffers change.\<close>

definition only_data :: "nat set \<Rightarrow> mem \<Rightarrow> mem \<Rightarrow> bool" where
  "only_data A m m' \<longleftrightarrow> (\<exists>f. m' = m\<lparr>block := f\<rparr> \<and> (\<forall>k. length (f k) = length (block m k)) \<and> (\<forall>k. k \<notin> A \<longrightarrow> f k = block m k))"

lemma owned_sane: "owned m a \<Longrightarrow> sane m a"
  by (auto simp: owned_def sane_def)

lemma only_data_refl: "only_data A m m"
  by (auto simp: only_data_def intro: exI [of _ "block m"])

lemma only_data_trans: "only_data A m m' \<Longrightarrow> only_data A m' m'' \<Longrightarrow> only_data A m m''"
  by (auto simp: only_data_def)

lemma only_data_mono: "only_data A m m' \<Longrightarrow> A \<subseteq> B \<Longrightarrow> only_data B m m'"
  by (auto simp: only_data_def)

lemma only_data_heap: "only_data A m m' \<Longrightarrow> heap m' = heap m"
  by (auto simp: only_data_def)

lemma only_data_owned: "only_data A m m' \<Longrightarrow> owned m' a = owned m a"
  by (auto simp: only_data_def owned_def)

lemma only_data_bytes: "only_data A m m' \<Longrightarrow> owned m a \<Longrightarrow> a \<notin> A \<Longrightarrow> bytes m' a = bytes m a"
  by (auto simp: only_data_def owned_def bytes_def)

lemma only_data_data: "only_data A m m' \<Longrightarrow> \<forall>a \<in> set xs. owned m a \<Longrightarrow> set xs \<inter> A = {} \<Longrightarrow> data m' xs = data m xs"
  by (induction xs) (auto simp: only_data_bytes)

lemma only_data_packet: "only_data A m m' \<Longrightarrow> packet m p xs \<Longrightarrow> \<forall>a \<in> set xs. owned m a \<Longrightarrow> packet m' p xs"
proof -
  assume o: "only_data A m m'" and p: "packet m p xs" and pr: "\<forall>a \<in> set xs. owned m a"
  note h = only_data_heap [OF o]
  have "chain m' p xs" by (rule chain_same [where m = m]) (use p h in \<open>auto simp: packet_def\<close>)
  moreover have "totals m' xs" by (rule totals_same [where m = m]) (use p h in \<open>auto simp: packet_def\<close>)
  moreover have "\<forall>a \<in> set xs. sane m' a" using pr only_data_owned [OF o] owned_sane by blast
  ultimately show ?thesis using p by (simp add: packet_def)
qed

lemma payload_write_owned:
  assumes "owned m a" "heap m a = Some b" "offset + length bs \<le> unat (plen b)"
  obtains m' where "payload_write b offset bs m = Some m'" "only_data {a} m m'"
    "bytes m' a = take offset (bytes m a) @ bs @ drop (offset + length bs) (bytes m a)"
proof (cases "bs = []")
  case True
  then show thesis using that [of m] by (simp add: payload_write_def only_data_refl)
next
  case False
  obtain off where p: "payload b = Some (a, off)" "off + unat (plen b) \<le> length (block m a)"
    using assms(1,2) by (auto simp: owned_def)
  define c where "c = take (off + offset) (block m a) @ bs @ drop (off + offset + length bs) (block m a)"
  have room: "off + offset + length bs \<le> length (block m a)" using p(2) assms(3) by simp
  have "payload_write b offset bs m = Some (m\<lparr>block := (block m)(a := c)\<rparr>)"
    using False p(1) room by (simp add: payload_write_def copy_in_def c_def)
  moreover have "only_data {a} m (m\<lparr>block := (block m)(a := c)\<rparr>)"
    using room by (auto simp: only_data_def c_def)
  moreover have "take (unat (plen b)) (drop off c) = take offset (bytes m a) @ bs @ drop (offset + length bs) (bytes m a)"
  proof -
    have "drop off c = take offset (drop off (block m a)) @ bs @ drop (offset + length bs) (drop off (block m a))"
      using room by (simp add: c_def drop_take ac_simps)
    moreover have "bytes m a = take (unat (plen b)) (drop off (block m a))" using p(1) assms(2) by (simp add: bytes_def)
    moreover have "length (take offset (drop off (block m a))) = offset" using room by simp
    moreover have "min (unat (plen b)) offset = offset" using assms(3) by simp
    ultimately show ?thesis using assms(3) by (simp add: drop_take)
  qed
  ultimately show thesis using that p(1) assms(2) by (simp add: bytes_def)
qed

lemma take_loop_spec:
  "chain m p xs \<Longrightarrow> distinct xs \<Longrightarrow> \<forall>a \<in> set xs. owned m a \<Longrightarrow> length bs \<le> total m xs \<Longrightarrow>
   \<exists>m'. take_loop p bs m = Some m' \<and> only_data (set xs) m m' \<and> data m' xs = bs @ drop (length bs) (data m xs)"
proof (induction xs arbitrary: p bs m)
  case Nil
  then show ?case by (subst take_loop.simps) (simp add: only_data_refl)
next
  case (Cons a as)
  show ?case
  proof (cases "bs = []")
    case True
    then show ?thesis by (subst take_loop.simps) (simp add: only_data_refl)
  next
    case False
    obtain b where b: "p = Some a" "heap m a = Some b" "chain m (pnext b) as" using Cons.prems(1) by auto
    have pr: "owned m a" "\<forall>a \<in> set as. owned m a" using Cons.prems(3) by simp_all
    have len: "length (bytes m a) = unat (plen b)" using length_bytes [OF owned_sane [OF pr(1)]] b(2) by simp
    define n where "n = min (length bs) (unat (plen b))"
    obtain m1 where m1: "payload_write b 0 (take n bs) m = Some m1" "only_data {a} m m1"
      "bytes m1 a = take n bs @ drop n (bytes m a)"
    proof -
      have l: "length (take n bs) = n" "n \<le> unat (plen b)" by (simp_all add: n_def)
      show thesis by (rule payload_write_owned [OF pr(1) b(2), of 0 "take n bs"]) (use l that in auto)
    qed
    have h: "heap m1 = heap m" by (rule only_data_heap [OF m1(2)])
    have step: "take_loop p bs m = take_loop (pnext b) (drop n bs) m1"
      using False b m1(1) by (subst take_loop.simps) (simp add: n_def [symmetric] Let_def)
    have "chain m1 (pnext b) as" by (rule chain_same [OF b(3)]) (simp add: h)
    moreover have "\<forall>a \<in> set as. owned m1 a" using pr(2) only_data_owned [OF m1(2)] by simp
    moreover have "length (drop n bs) \<le> total m1 as" using Cons.prems(4) b(2) h by (simp add: n_def total_def)
    ultimately obtain m' where IH: "take_loop (pnext b) (drop n bs) m1 = Some m'" "only_data (set as) m1 m'"
      "data m' as = drop n bs @ drop (length (drop n bs)) (data m1 as)"
      using Cons.IH [of m1 "pnext b" "drop n bs"] Cons.prems(2) by auto
    have od: "only_data (set (a # as)) m m'"
      by (rule only_data_trans [OF only_data_mono [OF m1(2)] only_data_mono [OF IH(2)]]) auto
    have "bytes m' a = bytes m1 a"
      by (rule only_data_bytes [OF IH(2)]) (use Cons.prems(2) pr(1) only_data_owned [OF m1(2)] in auto)
    moreover have "data m1 as = data m as" by (rule only_data_data [OF m1(2) pr(2)]) (use Cons.prems(2) in auto)
    ultimately have "data m' (a # as) = bs @ drop (length bs) (data m (a # as))"
      using IH(3) m1(3) len by (auto simp: n_def min_def)
    then show ?thesis using step IH(1) od by auto
  qed
qed

text \<open>
  C24. Data that fit in a packet are put in it over any split into buffers, and copying them out gives them back; data that do not fit are
  refused and change nothing.
\<close>

theorem pbuf_take_then_copy_partial:
  assumes "packet m (Some p) (p # xs)" "\<forall>a \<in> set (p # xs). owned m a"
  shows "if length bs \<le> total m (p # xs)
    then \<exists>m'. pbuf_take p bs m = Some (ERR_OK, m') \<and> only_data (set (p # xs)) m m' \<and> packet m' (Some p) (p # xs) \<and>
      data m' (p # xs) = bs @ drop (length bs) (data m (p # xs)) \<and>
      pbuf_copy_partial (Some p) (replicate (length bs) 0) (word_of_nat (length bs)) 0 m' = Some (bs, length bs)
    else pbuf_take p bs m = Some (ERR_ARG, m)"
proof (cases "length bs \<le> total m (p # xs)")
  case True
  obtain b where b: "heap m p = Some b" "unat (tot_len b) = total m (p # xs)" by (rule packet_tot_len [OF assms(1)])
  obtain m' where m': "take_loop (Some p) bs m = Some m'" "only_data (set (p # xs)) m m'"
    "data m' (p # xs) = bs @ drop (length bs) (data m (p # xs))"
    using take_loop_spec [of m "Some p" "p # xs" bs] assms True unfolding packet_def by blast
  have pk: "packet m' (Some p) (p # xs)" by (rule only_data_packet [OF m'(2) assms])
  have "length bs < 65536" using True b unsigned_less [of "tot_len b", where ?'a = nat] by simp
  then have "unat (word_of_nat (length bs) :: 16 word) = length bs" by (simp add: unat_of_nat)
  then have "pbuf_copy_partial (Some p) (replicate (length bs) 0) (word_of_nat (length bs)) 0 m' = Some (bs, length bs)"
  proof -
    have "take (length bs) (drop 0 (data m' (p # xs))) = bs" unfolding m'(3) by simp
    then show ?thesis
      using copy_partial_loop_spec [of m' "Some p" "p # xs" 0 "length bs" 0 "replicate (length bs) 0"] pk \<open>unat (word_of_nat _) = _\<close>
      by (simp del: data_simps add: pbuf_copy_partial_def packet_def copy_in_def)
  qed
  moreover have "pbuf_take p bs m = Some (ERR_OK, m')"
    using m'(1) True b by (simp add: pbuf_take_def)
  ultimately show ?thesis using True m' pk by auto
next
  case False
  obtain b where "heap m p = Some b" "unat (tot_len b) = total m (p # xs)" by (rule packet_tot_len [OF assms(1)])
  then show ?thesis using False by (simp add: pbuf_take_def)
qed

section \<open>Searching\<close>

lemma skip_loop_spec:
  "chain m p xs \<Longrightarrow>
   (if start < total m xs
    then \<exists>ys a zs. xs = ys @ a # zs \<and> total m ys \<le> start \<and> start - total m ys < unat (plen (buf m a)) \<and> chain m (Some a) (a # zs) \<and>
      skip_loop p start m = Some (Some a, start - total m ys)
    else skip_loop p start m = Some (None, start - total m xs))"
proof (induction xs arbitrary: p start)
  case Nil
  then show ?case by (subst skip_loop.simps) simp
next
  case (Cons c as)
  then obtain b where b: "p = Some c" "heap m c = Some b" "chain m (pnext b) as" by auto
  show ?case
  proof (cases "unat (plen b) \<le> start")
    case True
    have step: "skip_loop p start m = skip_loop (pnext b) (start - unat (plen b)) m"
      using b True by (subst skip_loop.simps) simp
    show ?thesis
    proof (cases "start < total m (c # as)")
      case lt: True
      then have "start - unat (plen b) < total m as" using b(2) True by simp
      then obtain ys a zs where IH: "as = ys @ a # zs" "total m ys \<le> start - unat (plen b)"
        "start - unat (plen b) - total m ys < unat (plen (buf m a))" "chain m (Some a) (a # zs)"
        "skip_loop (pnext b) (start - unat (plen b)) m = Some (Some a, start - unat (plen b) - total m ys)"
        using Cons.IH [OF b(3), of "start - unat (plen b)"] by (simp only: if_True) blast
      have t: "total m (c # ys) = unat (plen b) + total m ys" using b(2) by simp
      have "total m (c # ys) \<le> start" "start - total m (c # ys) = start - unat (plen b) - total m ys" using IH(2) True t by simp_all
      then show ?thesis using IH(1,3,4,5) lt step
        by (simp only: if_True) (intro exI [of _ "c # ys"] exI [of _ a] exI [of _ zs] conjI, simp_all del: chain.simps total_simps)
    next
      case False
      then have "\<not> start - unat (plen b) < total m as" using b(2) True by simp
      then show ?thesis using Cons.IH [OF b(3), of "start - unat (plen b)"] step False b(2) by simp
    qed
  next
    case False
    then have "skip_loop p start m = Some (Some c, start)" using b by (subst skip_loop.simps) simp
    moreover have "start < total m (c # as)" using False b(2) by simp
    ultimately show ?thesis using False b
      by (simp only: if_True) (intro exI [of _ "[]"] exI [of _ c] exI [of _ as], simp)
  qed
qed

lemma get_at_spec:
  assumes "chain m p xs" "\<forall>a \<in> set xs. sane m a"
  shows "pbuf_get_at p offset m = Some (if unat offset < total m xs then data m xs ! unat offset else 0)"
proof (cases "unat offset < total m xs")
  case True
  then obtain ys a zs where s: "xs = ys @ a # zs" "total m ys \<le> unat offset" "unat offset - total m ys < unat (plen (buf m a))"
    "chain m (Some a) (a # zs)" "skip_loop p (unat offset) m = Some (Some a, unat offset - total m ys)"
    using skip_loop_spec [OF assms(1), of "unat offset"] by (simp only: if_True) blast
  obtain b where b: "heap m a = Some b" using s(4) by auto
  have sa: "sane m a" "\<forall>a \<in> set ys. sane m a" using assms(2) s(1) by simp_all
  let ?k = "unat offset - total m ys"
  have len: "length (bytes m a) = unat (plen b)" "length (data m ys) = total m ys"
    using length_bytes [OF sa(1)] length_data [OF sa(2)] b by simp_all
  have k: "?k < length (bytes m a)" using s(3) len b by simp
  have "payload_bytes b ?k 1 m = Some (take 1 (drop ?k (bytes m a)))"
    by (rule payload_bytes_sane [OF sa(1) b]) (use s(3) b in simp)
  moreover have "hd (take 1 (drop ?k (bytes m a))) = bytes m a ! ?k" using k by (simp add: hd_drop_conv_nth)
  moreover have "data m xs ! unat offset = bytes m a ! ?k"
    using s(1,2) k len by (simp add: data_def nth_append)
  ultimately show ?thesis using s(5) b True by (simp add: pbuf_get_at_def)
next
  case False
  then show ?thesis using skip_loop_spec [OF assms(1), of "unat offset"] by (simp add: pbuf_get_at_def)
qed

text \<open>The first place where two sequences of bytes differ.\<close>

fun differ_at :: "byte list \<Rightarrow> byte list \<Rightarrow> nat" where
  "differ_at (x # s) (y # d) = (if x = y then Suc (differ_at s d) else 0)"
| "differ_at _ _ = 0"

lemma differ_at_le: "differ_at s d \<le> length s"
  by (induction s d rule: differ_at.induct) auto

lemma differ_at_all: "length s \<le> length d \<Longrightarrow> differ_at s d = length s \<longleftrightarrow> take (length s) d = s"
  by (induction s d rule: differ_at.induct) auto

lemma differ_at_drop: "i \<le> differ_at s d \<Longrightarrow> differ_at s d = i + differ_at (drop i s) (drop i d)"
proof (induction s d arbitrary: i rule: differ_at.induct)
  case (1 x s y d)
  then show ?case by (cases i) (auto split: if_splits)
qed auto

lemma memcmp_loop_spec:
  assumes "chain m q xs" "\<forall>a \<in> set xs. sane m a" "start + length s \<le> total m xs" "total m xs < 65536"
    "i \<le> differ_at s (drop start (data m xs))"
  shows "memcmp_loop q start s i m = Some (if take (length s) (drop start (data m xs)) = s then 0
    else word_of_nat (differ_at s (drop start (data m xs)) + 1))"
  using assms(5)
proof (induction "length s - i" arbitrary: i)
  case 0
  have ld: "length s \<le> length (drop start (data m xs))" using length_data [OF assms(2)] assms(3) by simp
  have "differ_at s (drop start (data m xs)) = length s" "\<not> i < length s"
    using 0 differ_at_le [of s "drop start (data m xs)"] by simp_all
  then show ?case using differ_at_all [OF ld] by (subst memcmp_loop.simps) simp
next
  case (Suc n)
  let ?d = "drop start (data m xs)"
  have ld: "length (data m xs) = total m xs" by (rule length_data [OF assms(2)])
  have i: "i < length s" using Suc.hyps(2) by simp
  then have si: "start + i < total m xs" using assms(3) by simp
  then have u: "unat (word_of_nat (start + i) :: 16 word) = start + i" using assms(4) by (simp only: unat_of_nat) simp
  have get: "pbuf_get_at q (word_of_nat (start + i)) m = Some (?d ! i)"
    using get_at_spec [OF assms(1,2), of "word_of_nat (start + i)"] u si ld by simp
  have dr: "drop i s = s ! i # drop (Suc i) s" "drop i ?d = ?d ! i # drop (Suc i) ?d"
    by (rule Cons_nth_drop_Suc [symmetric, OF i], rule Cons_nth_drop_Suc [symmetric]) (use si ld in simp)
  have at: "differ_at s ?d = i + (if s ! i = ?d ! i then Suc (differ_at (drop (Suc i) s) (drop (Suc i) ?d)) else 0)"
    using differ_at_drop [OF Suc.prems] by (simp only: dr differ_at.simps)
  show ?case
  proof (cases "?d ! i = s ! i")
    case True
    then have "memcmp_loop q start s i m = memcmp_loop q start s (Suc i) m"
      using i get by (subst memcmp_loop.simps) simp
    moreover have "Suc i \<le> differ_at s ?d" using at True by simp
    ultimately show ?thesis using Suc.hyps(1) [of "Suc i"] Suc.hyps(2) by simp
  next
    case False
    then have "memcmp_loop q start s i m = Some (word_of_nat (i + 1))"
      using i get by (subst memcmp_loop.simps) simp
    moreover have "differ_at s ?d = i" using at False by simp
    moreover have "take (length s) ?d \<noteq> s" using differ_at_all [of s ?d] \<open>differ_at s ?d = i\<close> i ld assms(3) by simp
    ultimately show ?thesis by simp
  qed
qed

lemma memcmp_spec:
  assumes "chain m p xs" "\<forall>a \<in> set xs. sane m a" "unat offset + length s \<le> total m xs" "unat offset < total m xs" "total m xs < 65536"
  shows "pbuf_memcmp p offset s m = Some (if take (length s) (drop (unat offset) (data m xs)) = s then 0
    else word_of_nat (differ_at s (drop (unat offset) (data m xs)) + 1))"
proof -
  obtain ys a zs where s: "xs = ys @ a # zs" "total m ys \<le> unat offset" "chain m (Some a) (a # zs)"
    "skip_loop p (unat offset) m = Some (Some a, unat offset - total m ys)"
    using skip_loop_spec [OF assms(1), of "unat offset"] assms(4) by (simp only: if_True) blast
  let ?k = "unat offset - total m ys"
  have sa: "\<forall>a \<in> set (a # zs). sane m a" "\<forall>a \<in> set ys. sane m a" using assms(2) s(1) by simp_all
  have d: "drop ?k (data m (a # zs)) = drop (unat offset) (data m xs)"
    using s(1,2) length_data [OF sa(2)] by (simp add: data_def)
  have "?k + length s \<le> total m (a # zs)" "total m (a # zs) < 65536" using s(1,2) assms(3,5) by (simp_all add: total_append)
  from memcmp_loop_spec [OF s(3) sa(1) this, of 0] show ?thesis using s(4) by (simp del: data_simps total_simps add: d pbuf_memcmp_def)
qed

lemma memfind_loop_spec:
  assumes "chain m p xs" "\<forall>a \<in> set xs. sane m a" "s \<noteq> []" "length s \<le> total m xs" "total m xs < 65536"
    "unat last_start = total m xs - length s"
  shows "\<exists>r. memfind_loop p s i last_start m = Some r \<and>
    (r \<noteq> 0xFFFF \<longrightarrow> i \<le> r \<and> unat r + length s \<le> total m xs \<and> take (length s) (drop (unat r) (data m xs)) = s)"
proof (induction "total m xs - unat i" arbitrary: i rule: less_induct)
  case less
  show ?case
  proof (cases "i \<le> last_start")
    case False
    then show ?thesis by (subst memfind_loop.simps) simp
  next
    case True
    then have i: "unat i + length s \<le> total m xs" "unat i < total m xs"
      using assms(3,4,6) by (simp_all add: word_le_nat_alt, cases s, simp_all)
    let ?k = "differ_at s (drop (unat i) (data m xs))"
    have cmp: "pbuf_memcmp p i s m = Some (if take (length s) (drop (unat i) (data m xs)) = s then 0 else word_of_nat (?k + 1))"
      by (rule memcmp_spec [OF assms(1,2) i assms(5)])
    show ?thesis
    proof (cases "take (length s) (drop (unat i) (data m xs)) = s")
      case match: True
      then have "memfind_loop p s i last_start m = Some i" using cmp True by (subst memfind_loop.simps) simp
      then show ?thesis using match i by simp
    next
      case False
      have "length s \<le> length (drop (unat i) (data m xs))" using length_data [OF assms(2)] i by simp
      then have "?k < length s" using False differ_at_all differ_at_le [of s "drop (unat i) (data m xs)"] by (metis le_neq_implies_less)
      then have k: "unat i + (?k + 1) < 65536" "unat i + (?k + 1) \<le> total m xs" using i assms(5) by simp_all
      then have u: "unat (word_of_nat (?k + 1) :: 16 word) = ?k + 1" by (simp only: unat_of_nat) simp
      then have ui: "unat (i + word_of_nat (?k + 1)) = unat i + (?k + 1)" using k by (simp add: unat_plus_if')
      have "(word_of_nat (?k + 1) :: 16 word) \<noteq> 0" using u by (metis unat_0 add_is_0 one_neq_zero)
      then have step: "memfind_loop p s i last_start m = memfind_loop p s (i + word_of_nat (?k + 1)) last_start m"
        using cmp True False by (subst memfind_loop.simps) simp
      have "total m xs - unat (i + word_of_nat (?k + 1)) < total m xs - unat i" using ui i(2) k by simp
      from less [OF this] obtain r where r: "memfind_loop p s (i + word_of_nat (?k + 1)) last_start m = Some r"
        "r \<noteq> 0xFFFF \<longrightarrow> i + word_of_nat (?k + 1) \<le> r \<and> unat r + length s \<le> total m xs \<and> take (length s) (drop (unat r) (data m xs)) = s"
        by blast
      have "i \<le> r" if "i + word_of_nat (?k + 1) \<le> r" using that ui by (simp only: word_le_nat_alt)
      then show ?thesis using step r by auto
    qed
  qed
qed

text \<open>The search ends; an index it returns is that of an occurrence at or behind the start.\<close>

theorem pbuf_memfind_sound:
  assumes "packet m (Some p) (p # xs)" "s \<noteq> []"
  shows "\<exists>r. pbuf_memfind p s start m = Some r \<and>
    (r \<noteq> 0xFFFF \<longrightarrow> start \<le> r \<and> unat r + length s \<le> total m (p # xs) \<and> take (length s) (drop (unat r) (data m (p # xs))) = s)"
proof -
  obtain b where b: "heap m p = Some b" "unat (tot_len b) = total m (p # xs)" using assms(1) by (rule packet_tot_len)
  show ?thesis
  proof (cases "total m (p # xs) \<ge> length s + unat start")
    case True
    have t: "total m (p # xs) < 65536" using b(2) unsigned_less [of "tot_len b", where ?'a = nat] by simp
    have le: "length s \<le> total m (p # xs)" using True by simp
    then have "unat (word_of_nat (length s) :: 16 word) = length s" using t by (simp only: unat_of_nat) simp
    then have "unat (tot_len b - word_of_nat (length s)) = total m (p # xs) - length s"
      using b(2) le by (simp add: unat_sub_if' word_le_nat_alt)
    from memfind_loop_spec [OF _ _ assms(2) le t this, of "Some p" start] show ?thesis
      using assms(1) b True by (simp add: pbuf_memfind_def packet_def Let_def del: total_simps data_simps)
  next
    case False
    then show ?thesis using b by (simp add: pbuf_memfind_def)
  qed
qed

text \<open>
  C36. The search misses occurrences: after a mismatch it goes on behind the byte that differs, and not one byte further. The string \<open>xy\<close>
  is not found in \<open>xxy\<close>.
\<close>

theorem pbuf_strstr_misses:
  assumes "packet m (Some p) (p # xs)" "data m (p # xs) = [x, x, y]" "x \<noteq> y"
  shows "pbuf_strstr p [x, y] m = Some 0xFFFF \<and> take 2 (drop 1 (data m (p # xs))) = [x, y]"
proof -
  obtain b where b: "heap m p = Some b" "unat (tot_len b) = total m (p # xs)" using assms(1) by (rule packet_tot_len)
  have pk: "chain m (Some p) (p # xs)" "\<forall>a \<in> set (p # xs). sane m a" using assms(1) by (simp_all add: packet_def)
  have t: "total m (p # xs) = 3" using length_data [OF pk(2)] unfolding assms(2) by simp
  then have tl: "tot_len b = 3" using b(2) by (simp add: word_unat_eq_iff)
  have "pbuf_memcmp (Some p) 0 [x, y] m = Some 2"
    using memcmp_spec [OF pk, of 0 "[x, y]"] assms(3) unfolding assms(2) t by simp
  then have "memfind_loop (Some p) [x, y] 0 1 m = Some 0xFFFF"
    by (subst memfind_loop.simps) (simp, subst memfind_loop.simps, simp add: word_le_nat_alt)
  then show ?thesis using b(1) tl unfolding assms(2) by (simp add: pbuf_strstr_def pbuf_memfind_def)
qed

section \<open>Copying a packet\<close>

definition filled :: "mem \<Rightarrow> nat list \<Rightarrow> bool" where
  "filled m xs \<longleftrightarrow> (\<forall>a \<in> set xs. 0 < plen (buf m a))"

lemma no_queue_packet: "chain m p xs \<Longrightarrow> totals m xs \<Longrightarrow> filled m xs \<Longrightarrow> no_queue p m = Some True"
proof (cases xs)
  case (Cons a as)
  assume "chain m p xs" "totals m xs" "filled m xs"
  with Cons show ?thesis by (cases as) (auto simp: no_queue_def filled_def word_less_nat_alt)
qed (simp add: no_queue_def)

lemma copy_step:
  assumes "heap m t = Some tb" "heap m f = Some fb" "len = min (unat (plen tb) - ot) (unat (plen fb) - off)"
    "payload_bytes fb off len m = Some bs" "payload_write tb ot bs m = Some m1"
    "(off', from') = (if off + len \<ge> unat (plen fb) then (0, pnext fb) else (off + len, Some f))"
    "(full, ot', to') = (if ot + len = unat (plen tb) then (True, 0, pnext tb) else (False, ot + len, Some t))"
    "full \<Longrightarrow> to' \<noteq> None \<or> from' = None" "no_queue from' m1 = Some True" "no_queue to' m1 = Some True"
  shows "copy_loop t ot f off m = (case from' of None \<Rightarrow> Some (ERR_OK, m1)
    | Some p \<Rightarrow> do { q \<leftarrow> to'; copy_loop q ot' p off' m1 })"
proof -
  have l: "(if unat (plen fb) - off \<le> unat (plen tb) - ot then unat (plen fb) - off else unat (plen tb) - ot) = len"
    using assms(3) by simp
  show ?thesis
    using assms(8-10)
    by (subst copy_loop.simps)
      (simp only: assms(1,2,4,5) bind.bind_lunit l Let_def assms(6,7) [symmetric] prod.case, auto split: option.split)
qed

lemma copy_loop_spec:
  assumes "chain m (Some t) (t # ts)" "totals m (t # ts)" "filled m (t # ts)" "\<forall>a \<in> set (t # ts). owned m a" "distinct (t # ts)"
    "chain m (Some f) (f # fs)" "totals m (f # fs)" "filled m (f # fs)" "\<forall>a \<in> set (f # fs). owned m a"
    "set (t # ts) \<inter> set (f # fs) = {}" "ot < unat (plen (buf m t))" "off < unat (plen (buf m f))"
    "total m (f # fs) - off \<le> total m (t # ts) - ot"
  shows "\<exists>m'. copy_loop t ot f off m = Some (ERR_OK, m') \<and> only_data (set (t # ts)) m m' \<and>
    data m' (t # ts) = take ot (data m (t # ts)) @ drop off (data m (f # fs)) @ drop (ot + (total m (f # fs) - off)) (data m (t # ts))"
  using assms
proof (induction "total m (f # fs) - off" arbitrary: t ts f fs ot off m rule: less_induct)
  case less
  note p = less.prems
  obtain tb fb where b: "heap m t = Some tb" "heap m f = Some fb" "chain m (pnext tb) ts" "chain m (pnext fb) fs"
    using p(1,6) by auto
  define len where "len = min (unat (plen tb) - ot) (unat (plen fb) - off)"
  have len: "0 < len" "ot + len \<le> unat (plen tb)" "off + len \<le> unat (plen fb)" using p(11,12) b by (auto simp: len_def)
  have own: "owned m t" "owned m f" "\<forall>a \<in> set ts. owned m a" "\<forall>a \<in> set fs. owned m a" using p(4,9) by simp_all
  have lb: "length (bytes m t) = unat (plen tb)" "length (bytes m f) = unat (plen fb)"
    using length_bytes [OF owned_sane] own b by simp_all
  have lts: "length (data m ts) = total m ts" "length (data m fs) = total m fs" using own(3,4) owned_sane by (simp_all add: length_data)
  define bs where "bs = take len (drop off (bytes m f))"
  have bs: "payload_bytes fb off len m = Some bs" "length bs = len"
    using payload_bytes_sane [OF owned_sane [OF own(2)] b(2) len(3)] lb len(3) by (simp_all add: bs_def)
  obtain m1 where m1: "payload_write tb ot bs m = Some m1" "only_data {t} m m1"
    "bytes m1 t = take ot (bytes m t) @ bs @ drop (ot + length bs) (bytes m t)"
    by (rule payload_write_owned [OF own(1) b(1), of ot bs]) (use len(2) bs(2) in auto)
  have h: "heap m1 = heap m" by (rule only_data_heap [OF m1(2)])
  have same: "chain m1 q xs = chain m q xs" "totals m1 xs = totals m xs" "filled m1 xs = filled m xs" "total m1 xs = total m xs" for q xs
    using chain_same [of _ q xs] totals_same [of _ xs] h by (auto simp: filled_def total_def)
  have ow: "owned m1 a = owned m a" for a by (rule only_data_owned [OF m1(2)])
  have dts: "data m1 ts = data m ts" by (rule only_data_data [OF m1(2) own(3)]) (use p(5) in auto)
  have df: "data m1 fs = data m fs" "data m1 (f # fs) = data m (f # fs)"
    by (rule only_data_data [OF m1(2)]; use own p(10) in auto)+
  have fl: "filled m ts" "filled m fs" "totals m ts" "totals m fs" using p(2,3,7,8) by (auto simp: filled_def)
  have od: "only_data (set (t # ts)) m m1" by (rule only_data_mono [OF m1(2)]) simp
  define from' where "from' = (if off + len \<ge> unat (plen fb) then pnext fb else Some f)"
  define off' where "off' = (if off + len \<ge> unat (plen fb) then 0 else off + len)"
  define fs' where "fs' = (if off + len \<ge> unat (plen fb) then fs else f # fs)"
  define to' where "to' = (if ot + len = unat (plen tb) then pnext tb else Some t)"
  define ot' where "ot' = (if ot + len = unat (plen tb) then 0 else ot + len)"
  define ts' where "ts' = (if ot + len = unat (plen tb) then ts else t # ts)"
  have cf: "chain m from' fs'" "totals m fs'" "filled m fs'" "\<forall>a \<in> set fs'. owned m a" "set fs' \<subseteq> set (f # fs)" "data m1 fs' = data m fs'"
    using p(6,7,8,9) b(4) fl df by (auto simp: from'_def fs'_def)
  have ct: "chain m to' ts'" "totals m ts'" "filled m ts'" "\<forall>a \<in> set ts'. owned m a" "set ts' \<subseteq> set (t # ts)" "distinct ts'"
    using p(1,2,3,4,5) b(3) fl by (auto simp: to'_def ts'_def)
  have rest: "drop off' (data m fs') = drop (off + len) (data m (f # fs))" "total m fs' - off' = total m (f # fs) - off - len"
    using len(3) lb(2) b(2) by (auto simp: off'_def fs'_def)
  have room: "total m ts' - ot' = total m (t # ts) - ot - len"
    using len(2) b(1) by (auto simp: ot'_def ts'_def)
  have src: "drop off (data m (f # fs)) = bs @ drop (off + len) (data m (f # fs))"
    using len(3) lb(2) by (simp add: bs_def) (metis append.assoc append_take_drop_id drop_drop add.commute)
  have pos: "0 < total m ts' - ot'" if "fs' \<noteq> []"
  proof -
    have "0 < total m fs' - off'"
    proof (cases "off + len \<ge> unat (plen fb)")
      case True
      then show ?thesis using that cf(3) by (cases fs') (simp_all add: off'_def fs'_def filled_def word_less_nat_alt)
    next
      case False
      then show ?thesis using b(2) by (simp add: off'_def fs'_def)
    qed
    then show ?thesis using rest(2) room p(13) by linarith
  qed
  define r where "r = total m fs' - off'"
  have r: "ot + (total m (f # fs) - off) = ot + len + r" using rest(2) len(3) b(2) by (simp add: r_def)
  have D1: "data m1 (t # ts) = take ot (data m (t # ts)) @ bs @ drop (ot + len) (data m (t # ts))"
    using m1(3) bs(2) len(2) lb(1) dts by simp
  have step: "copy_loop t ot f off m = (case from' of None \<Rightarrow> Some (ERR_OK, m1) | Some p \<Rightarrow> do { q \<leftarrow> to'; copy_loop q ot' p off' m1 })"
  proof (rule copy_step [OF b(1,2) len_def bs(1) m1(1)])
    show "(off', from') = (if off + len \<ge> unat (plen fb) then (0, pnext fb) else (off + len, Some f))"
      by (simp add: off'_def from'_def)
    show "(ot + len = unat (plen tb), ot', to') = (if ot + len = unat (plen tb) then (True, 0, pnext tb) else (False, ot + len, Some t))"
      by (simp add: ot'_def to'_def)
    show "no_queue from' m1 = Some True" "no_queue to' m1 = Some True"
      using no_queue_packet [of m1 from' fs'] no_queue_packet [of m1 to' ts'] cf ct same by simp_all
    show "to' \<noteq> None \<or> from' = None" if "ot + len = unat (plen tb)"
    proof (rule ccontr)
      assume "\<not> (to' \<noteq> None \<or> from' = None)"
      then have "ts' = []" "fs' \<noteq> []" using ct(1) cf(1) by (cases ts'; cases fs'; auto)+
      then show False using pos by simp
    qed
  qed
  show ?case
  proof (cases from')
    case None
    then have "fs' = []" using cf(1) by (cases fs') auto
    then have "drop (off + len) (data m (f # fs)) = []" "r = 0" using rest(1) by (simp_all add: r_def)
    then have "data m1 (t # ts) = take ot (data m (t # ts)) @ drop off (data m (f # fs)) @ drop (ot + (total m (f # fs) - off)) (data m (t # ts))"
      unfolding D1 src r by simp
    then show ?thesis using step None od by (intro exI [of _ m1]) simp
  next
    case (Some f')
    then obtain fs2 where fs2: "fs' = f' # fs2" using cf(1) by (cases fs') auto
    then obtain t' ts2 where ts2: "ts' = t' # ts2" using pos by (cases ts') auto
    then have to: "to' = Some t'" using ct(1) by simp
    have "total m1 (f' # fs2) - off' < total m (f # fs) - off"
      using rest(2) len(1,3) b(2) unfolding same fs2 [symmetric] by simp
    moreover have "set (t' # ts2) \<inter> set (f' # fs2) = {}" using ct(5) cf(5) p(10) unfolding ts2 fs2 by blast
    moreover have "ot' < unat (plen (buf m1 t'))"
      using len(2) b(1) ct(3) ts2 h by (auto simp: ot'_def ts'_def filled_def word_less_nat_alt split: if_splits)
    moreover have "off' < unat (plen (buf m1 f'))"
      using len(3) b(2) cf(3) fs2 h by (auto simp: off'_def fs'_def filled_def word_less_nat_alt split: if_splits)
    moreover have "total m1 (f' # fs2) - off' \<le> total m1 (t' # ts2) - ot'"
      using rest(2) room p(13) unfolding same fs2 [symmetric] ts2 [symmetric] by linarith
    moreover have "chain m1 (Some t') (t' # ts2)" "chain m1 (Some f') (f' # fs2)"
      using ct(1) cf(1) unfolding same ts2 [symmetric] fs2 [symmetric] to Some .
    moreover have "totals m1 (t' # ts2)" "totals m1 (f' # fs2)" "filled m1 (t' # ts2)" "filled m1 (f' # fs2)" "distinct (t' # ts2)"
      "\<forall>a \<in> set (t' # ts2). owned m1 a" "\<forall>a \<in> set (f' # fs2). owned m1 a"
      using ct cf unfolding same ow ts2 [symmetric] fs2 [symmetric] by blast+
    ultimately obtain m' where m': "copy_loop t' ot' f' off' m1 = Some (ERR_OK, m')" "only_data (set ts') m1 m'"
      "data m' ts' = take ot' (data m1 ts') @ drop off' (data m1 fs') @ drop (ot' + r) (data m1 ts')"
      using less.hyps [of m1 f' fs2 off' t' ts2 ot'] unfolding r_def same fs2 ts2 by blast
    have R: "drop off' (data m1 fs') = drop (off + len) (data m (f # fs))" using cf(6) rest(1) by simp
    have "data m' (t # ts) = take ot (data m (t # ts)) @ drop off (data m (f # fs)) @ drop (ot + (total m (f # fs) - off)) (data m (t # ts))"
    proof (cases "ot + len = unat (plen tb)")
      case True
      then have ts': "ts' = ts" "ot' = 0" by (simp_all add: ts'_def ot'_def)
      have "bytes m' t = bytes m1 t"
        by (rule only_data_bytes [OF m'(2)]) (use ow own(1) p(5) ts' in auto)
      then show ?thesis unfolding src r using m'(3) R m1(3) bs(2) True lb(1) dts ts' by simp
    next
      case False
      then have ts': "ts' = t # ts" "ot' = ot + len" by (simp_all add: ts'_def ot'_def)
      have "length (take ot (data m (t # ts)) @ bs) = ot + len" using len(2) lb(1) bs(2) by simp
      then have "take (ot + len) (data m1 (t # ts)) = take ot (data m (t # ts)) @ bs"
        "drop (ot + len + r) (data m1 (t # ts)) = drop (ot + len + r) (data m (t # ts))"
        unfolding D1 append.assoc [symmetric] by (simp_all del: data_simps add: ac_simps)
      then show ?thesis unfolding src r using m'(3) unfolding R ts' by (simp del: data_simps)
    qed
    moreover have "only_data (set (t # ts)) m m'"
      by (rule only_data_trans [OF od only_data_mono [OF m'(2) ct(5)]])
    ultimately show ?thesis using step Some to m'(1) by (intro exI [of _ m']) simp
  qed
qed

text \<open>
  A packet is copied into another whose buffers are split in any other way, and the bytes behind it stay; a packet that is too long is
  refused.
\<close>

theorem pbuf_copy_copies:
  assumes "packet m (Some t) (t # ts)" "packet m (Some f) (f # fs)" "filled m (t # ts)" "filled m (f # fs)"
    "\<forall>a \<in> set (t # ts) \<union> set (f # fs). owned m a" "set (t # ts) \<inter> set (f # fs) = {}"
  shows "if total m (f # fs) \<le> total m (t # ts)
    then \<exists>m'. pbuf_copy (Some t) (Some f) m = Some (ERR_OK, m') \<and> only_data (set (t # ts)) m m' \<and>
      data m' (t # ts) = data m (f # fs) @ drop (length (data m (f # fs))) (data m (t # ts))
    else pbuf_copy (Some t) (Some f) m = Some (ERR_ARG, m)"
proof -
  obtain tb where tb: "heap m t = Some tb" "unat (tot_len tb) = total m (t # ts)" using assms(1) by (rule packet_tot_len)
  obtain fb where fb: "heap m f = Some fb" "unat (tot_len fb) = total m (f # fs)" using assms(2) by (rule packet_tot_len)
  show ?thesis
  proof (cases "total m (f # fs) \<le> total m (t # ts)")
    case True
    have call: "pbuf_copy (Some t) (Some f) m = copy_loop t 0 f 0 m"
      using tb fb True by (simp add: pbuf_copy_def word_le_nat_alt del: total_simps)
    have ld: "length (data m (f # fs)) = total m (f # fs)" by (rule length_data) (use assms(2) in \<open>simp add: packet_def\<close>)
    have "0 < unat (plen (buf m t))" "0 < unat (plen (buf m f))" using assms(3,4) by (simp_all add: filled_def word_less_nat_alt)
    moreover have "\<forall>a \<in> set (t # ts). owned m a" "\<forall>a \<in> set (f # fs). owned m a" using assms(5) by blast+
    moreover have "total m (f # fs) - 0 \<le> total m (t # ts) - 0" using True by simp
    ultimately obtain m' where "copy_loop t 0 f 0 m = Some (ERR_OK, m')" "only_data (set (t # ts)) m m'"
      "data m' (t # ts) = take 0 (data m (t # ts)) @ drop 0 (data m (f # fs)) @ drop (0 + (total m (f # fs) - 0)) (data m (t # ts))"
      using copy_loop_spec [of m t ts f fs 0 0] assms(1-4,6) unfolding packet_def by blast
    then show ?thesis using True call ld by (simp del: data_simps total_simps)
  next
    case False
    then show ?thesis using tb fb by (simp add: pbuf_copy_def word_le_nat_alt del: total_simps)
  qed
qed

text \<open>
  C23. A chain is made one buffer with the same bytes, when there is memory for it; the buffers of the chain are freed, up to the first that
  somebody else refers to.
\<close>

theorem pbuf_coalesce_keeps_data:
  assumes pk: "packet m (Some p) (p # xs)" and xs: "xs \<noteq> []" and fl: "filled m (p # xs)"
    and ow: "\<forall>a \<in> set (p # xs). owned m a \<and> 0 < pref (buf m a)"
    and q: "heap m q = None" "LWIP_MEM_ALIGN_SIZE (header_offset hlen layer) + total m (p # xs) \<le> length (block m q)"
  shows "\<exists>m'. pbuf_coalesce hlen (Some q) p layer m = Some (q, m') \<and> packet m' (Some q) [q] \<and> data m' [q] = data m (p # xs) \<and>
    (\<forall>a \<in> set (p # xs). heap m' a = heap (freed m (p # xs)) a) \<and> free_pool m' = free_pool (freed m (p # xs)) \<and>
    free_refs m' = free_refs (freed m (p # xs)) \<and> (\<forall>a. a \<notin> set (q # p # xs) \<longrightarrow> heap m' a = heap m a)"
proof -
  obtain b where b: "heap m p = Some b" "unat (tot_len b) = total m (p # xs)" using pk by (rule packet_tot_len)
  have c: "chain m (Some p) (p # xs)" "distinct (p # xs)" "totals m (p # xs)" "\<forall>a \<in> set (p # xs). sane m a"
    using pk by (auto simp: packet_def)
  have nn: "pnext b \<noteq> None" using c(1) b(1) xs by (cases xs) auto
  have nq: "q \<notin> set (p # xs)" using chain_allocated [OF c(1), of q] q(1) by auto
  let ?off = "LWIP_MEM_ALIGN_SIZE (header_offset hlen layer)"
  let ?b = "\<lparr>pnext = None, payload = Some (q, ?off), tot_len = tot_len b, plen = tot_len b, ptype = PBUF_RAM, pflags = 0, pref = 1\<rparr>"
  define m1 where "m1 = m\<lparr>heap := (heap m)(q \<mapsto> ?b)\<rparr>"
  have hs: "heap m1 a = heap m a" if "a \<in> set (p # xs)" for a using that nq by (auto simp: m1_def)
  have bk: "block m1 = block m" by (simp add: m1_def)
  have d1: "data m1 (p # xs) = data m (p # xs)" "total m1 (p # xs) = total m (p # xs)" and pk1: "packet m1 (Some p) (p # xs)"
    using packet_same [OF pk _ bk] hs by blast+
  have oq: "owned m1 q" using q(2) b(2) by (simp add: owned_def m1_def)
  have pkq: "packet m1 (Some q) [q]" using owned_sane [OF oq] by (simp add: packet_def m1_def)
  have "0 < plen (buf m p)" using fl by (simp add: filled_def)
  then have "0 < total m (p # xs)" by (simp add: word_less_nat_alt)
  then have fq: "filled m1 [q]" "total m1 [q] = total m (p # xs)" using b(2) by (simp_all add: filled_def m1_def word_less_nat_alt)
  have "filled m1 (p # xs)" "\<forall>a \<in> set [q] \<union> set (p # xs). owned m1 a" "set [q] \<inter> set (p # xs) = {}"
    using fl hs ow oq bk nq by (auto simp: filled_def owned_def)
  with pbuf_copy_copies [OF pkq pk1 fq(1) this] obtain m2 where m2: "pbuf_copy (Some q) (Some p) m1 = Some (ERR_OK, m2)" "only_data {q} m1 m2"
    "data m2 [q] = data m1 (p # xs) @ drop (length (data m1 (p # xs))) (data m1 [q])"
    using fq(2) d1 by (auto simp del: data_simps total_simps)
  have h2: "heap m2 = heap m1" by (rule only_data_heap [OF m2(2)])
  have pools: "free_pool m2 = free_pool m" "free_refs m2 = free_refs m" using m2(2) by (auto simp: only_data_def m1_def)
  have hz: "\<forall>a \<in> set (p # xs). heap m2 a = heap m a" using h2 hs by simp
  note fc = freed_cong [OF hz pools]
  have "length (data m1 [q]) = length (data m1 (p # xs))"
    using length_data [of "[q]" m1] length_data [of "p # xs" m1] pkq pk1 fq(2) d1(2) by (simp add: packet_def del: data_simps total_simps)
  then have dq: "data m2 [q] = data m (p # xs)" using m2(3) d1(1) by (simp del: data_simps)
  have "chain m2 (Some p) (p # xs)" by (rule chain_same [OF c(1)]) (use hz in blast)
  then have free: "pbuf_free (Some p) m2 = Some (word_of_nat (length (unshared m2 (p # xs))), freed m2 (p # xs))"
    by (rule pbuf_free_spec [OF _ c(2)]) (use hz ow in auto)
  have alloc: "pbuf_alloc hlen 0 (Some q) layer (tot_len b) PBUF_RAM m = Some (Some q, m1)"
    by (simp add: pbuf_alloc_def m1_def Let_def)
  have "pbuf_coalesce hlen (Some q) p layer m = Some (q, freed m2 (p # xs))"
    using nn by (cases "pnext b") (simp_all add: pbuf_coalesce_def b(1) alloc m2(1) free)
  moreover have hq: "heap (freed m2 (p # xs)) q = heap m2 q" using fc(4) nq by blast
  moreover have bs: "bytes (freed m2 (p # xs)) q = bytes m2 q \<and> sane (freed m2 (p # xs)) q = sane m2 q"
    by (rule bytes_same) (simp_all add: hq fc(5))
  moreover have "packet m2 (Some q) [q]" by (rule only_data_packet [OF m2(2) pkq]) (use oq in simp)
  moreover have "heap (freed m2 (p # xs)) a = heap m a" if "a \<notin> set (q # p # xs)" for a
    using fc(4) that h2 by (simp add: m1_def)
  ultimately show ?thesis using fc(1-3) dq by (intro exI [of _ "freed m2 (p # xs)"]) (auto simp: packet_def)
qed

section \<open>Examples\<close>

lemma example_owned: "\<forall>a \<in> {7, 2, 6}. owned example_mem a" "filled example_mem [7, 2]" "filled example_mem [6]"
  by (simp_all add: owned_def filled_def example_mem_def example_buf_def)

theorem pbuf_copy_partial_copies_out_witness:
  "pbuf_copy_partial (Some 7) [0, 0, 0, 0] 3 2 example_mem = Some ([98, 99, 100, 0], 3)"
  using pbuf_copy_partial_copies_out [OF example_packets(1) refl, of 3 2 "[0, 0, 0, 0]"] unfolding example_packets(3) by simp

theorem pbuf_take_then_copy_partial_witness:
  "\<exists>m'. pbuf_take 7 [1, 2, 3, 4] example_mem = Some (ERR_OK, m') \<and> data m' [7, 2] = [1, 2, 3, 4, 100] \<and>
     pbuf_copy_partial (Some 7) [0, 0, 0, 0] 4 0 m' = Some ([1, 2, 3, 4], 4)"
proof -
  have "replicate 4 (0 :: byte) = [0, 0, 0, 0]" by (simp add: numeral_eq_Suc)
  then show ?thesis
    using pbuf_take_then_copy_partial [OF example_packets(1), of "[1, 2, 3, 4]"] example_owned(1) example_packets(3,5)
    by (auto simp del: data_simps total_simps)
qed

theorem pbuf_memfind_sound_witness:
  "\<exists>r. pbuf_memfind 7 [98, 99] 0 example_mem = Some r \<and> (r = 0xFFFF \<or> take 2 (drop (unat r) [97, 97, 98, 99, 100]) = [98, 99 :: byte])"
  using pbuf_memfind_sound [OF example_packets(1), of "[98, 99]" 0] unfolding example_packets(3) by (auto simp: numeral_2_eq_2)

theorem pbuf_strstr_misses_witness: "pbuf_strstr 6 [97, 98] example_mem = Some 0xFFFF"
  using pbuf_strstr_misses [OF example_packets(2,4)] by simp

theorem pbuf_copy_copies_witness:
  "\<exists>m'. pbuf_copy (Some 7) (Some 6) example_mem = Some (ERR_OK, m') \<and> data m' [7, 2] = [97, 97, 98, 99, 100]"
  using pbuf_copy_copies [OF example_packets(1,2) example_owned(2,3)] example_owned(1) example_packets(3-6)
  by (auto simp del: data_simps total_simps)

theorem pbuf_coalesce_keeps_data_witness:
  "\<exists>m'. pbuf_coalesce 14 (Some 3) 7 PBUF_RAW example_mem = Some (3, m') \<and> data m' [3] = [97, 97, 98, 99, 100]"
proof -
  have "heap example_mem 3 = None" "LWIP_MEM_ALIGN_SIZE (header_offset 14 PBUF_RAW) + total example_mem [7, 2] \<le> length (block example_mem 3)"
    by (simp_all add: example_mem_def example_buf_def LWIP_MEM_ALIGN_SIZE_def header_offset_def)
  then show ?thesis
    using pbuf_coalesce_keeps_data [OF example_packets(1) _ example_owned(2), of 3 14 PBUF_RAW] example_owned(1) example_refs
    unfolding example_packets(3) by auto
qed

end
