(* ===== verification/Lwip_Netbuf.thy ===== *)
theory Lwip_Netbuf
  imports Lwip_Pbuf_Chain
begin

text \<open>
  The network buffers of the sequential interface, \<open>src/LwIP/src/api/netbuf.c\<close>: a packet with a place in it.
\<close>

section \<open>Network buffers\<close>

text \<open>The structs come from a pool of their own, of which the number of free elements is kept.\<close>

record netbuf =
  packet_buf :: "nat option"
  ptr :: "nat option"
  addr :: "32 word"
  port :: "16 word"

definition netbuf_new :: "nat \<Rightarrow> netbuf option \<times> nat" where
  "netbuf_new pool = (if pool > 0 then (Some \<lparr>packet_buf = None, ptr = None, addr = 0, port = 0\<rparr>, pool - 1) else (None, pool))"

definition free_packet :: "netbuf \<Rightarrow> mem \<Rightarrow> mem option" where
  "free_packet nb m = (if packet_buf nb \<noteq> None then map_option snd (pbuf_free (packet_buf nb) m) else Some m)"

definition netbuf_delete :: "netbuf option \<Rightarrow> nat \<Rightarrow> mem \<Rightarrow> (nat \<times> mem) option" where
  "netbuf_delete nb pool m = (case nb of None \<Rightarrow> Some (pool, m) | Some nb \<Rightarrow> do { m \<leftarrow> free_packet nb m; Some (pool + 1, m) })"

text \<open>The result is the payload; a buffer that is too short fails an assertion.\<close>

definition netbuf_alloc :: "nat \<Rightarrow> nat option \<Rightarrow> netbuf \<Rightarrow> 16 word \<Rightarrow> mem \<Rightarrow> ((nat \<times> nat) option \<times> netbuf \<times> mem) option" where
  "netbuf_alloc hlen malloc nb sz m = do {
     m \<leftarrow> free_packet nb m;
     (p, m) \<leftarrow> pbuf_alloc hlen 0 malloc PBUF_TRANSPORT sz PBUF_RAM m;
     let nb = nb\<lparr>packet_buf := p\<rparr>;
     case p of None \<Rightarrow> Some (None, nb, m)
     | Some a \<Rightarrow> do {
         b \<leftarrow> heap m a;
         if \<not> plen b \<ge> sz then None else Some (payload b, nb\<lparr>ptr := p\<rparr>, m) } }"

definition netbuf_free :: "netbuf \<Rightarrow> mem \<Rightarrow> (netbuf \<times> mem) option" where
  "netbuf_free nb m = do { m \<leftarrow> free_packet nb m; Some (nb\<lparr>packet_buf := None, ptr := None\<rparr>, m) }"

text \<open>The result is true when there was memory.\<close>

definition netbuf_ref :: "nat \<Rightarrow> netbuf \<Rightarrow> nat \<times> nat \<Rightarrow> 16 word \<Rightarrow> mem \<Rightarrow> (bool \<times> netbuf \<times> mem) option" where
  "netbuf_ref hlen nb dataptr sz m = do {
     m \<leftarrow> free_packet nb m;
     (p, m) \<leftarrow> pbuf_alloc hlen 0 None PBUF_TRANSPORT 0 PBUF_REF m;
     let nb = nb\<lparr>packet_buf := p\<rparr>;
     case p of None \<Rightarrow> Some (False, nb\<lparr>ptr := None\<rparr>, m)
     | Some a \<Rightarrow> do {
         m \<leftarrow> update a (\<lambda>b. b\<lparr>payload := Some dataptr, plen := sz, tot_len := sz\<rparr>) m;
         Some (True, nb\<lparr>ptr := p\<rparr>, m) } }"

definition netbuf_chain :: "netbuf \<Rightarrow> netbuf \<Rightarrow> nat \<Rightarrow> mem \<Rightarrow> (netbuf \<times> nat \<times> mem) option" where
  "netbuf_chain head tail pool m = do {
     m \<leftarrow> pbuf_cat (packet_buf head) (packet_buf tail) m;
     Some (head\<lparr>ptr := packet_buf head\<rparr>, pool + 1, m) }"

text \<open>The place and the length of the data, or none for \<open>ERR_BUF\<close>.\<close>

definition netbuf_data :: "netbuf \<Rightarrow> mem \<Rightarrow> ((nat \<times> nat) option \<times> 16 word) option option" where
  "netbuf_data nb m = (case ptr nb of None \<Rightarrow> Some None
     | Some a \<Rightarrow> do { b \<leftarrow> heap m a; Some (Some (payload b, plen b)) })"

definition netbuf_next :: "netbuf \<Rightarrow> mem \<Rightarrow> (int \<times> netbuf) option" where
  "netbuf_next nb m = do {
     a \<leftarrow> ptr nb;
     b \<leftarrow> heap m a;
     case pnext b of None \<Rightarrow> Some (- 1, nb)
     | Some c \<Rightarrow> do {
         let nb = nb\<lparr>ptr := Some c\<rparr>;
         d \<leftarrow> heap m c;
         Some (if pnext d = None then 1 else 0, nb) } }"

definition netbuf_first :: "netbuf \<Rightarrow> netbuf" where
  "netbuf_first nb = nb\<lparr>ptr := packet_buf nb\<rparr>"

section \<open>Properties\<close>

fun next_times :: "nat \<Rightarrow> netbuf \<Rightarrow> mem \<Rightarrow> netbuf option" where
  "next_times 0 nb m = Some nb"
| "next_times (Suc k) nb m = do { (r, nb) \<leftarrow> netbuf_next nb m; next_times k nb m }"

lemma next_chain:
  "chain m (Some a) (a # as) \<Longrightarrow> k < length (a # as) \<Longrightarrow> next_times k (nb\<lparr>ptr := Some a\<rparr>) m = Some (nb\<lparr>ptr := Some ((a # as) ! k)\<rparr>)"
proof (induction k arbitrary: a as)
  case (Suc k)
  then obtain c cs where as: "as = c # cs" by (cases as) auto
  then obtain b d where b: "heap m a = Some b" "pnext b = Some c" "heap m c = Some d" "chain m (Some c) (c # cs)"
    using Suc.prems(1) by auto
  then have "netbuf_next (nb\<lparr>ptr := Some a\<rparr>) m = Some (if pnext d = None then 1 else 0, nb\<lparr>ptr := Some c\<rparr>)"
    by (simp add: netbuf_next_def)
  then show ?case using Suc.IH [OF b(4)] Suc.prems(2) as by simp
qed simp

lemma chain_nth:
  "chain m (Some a) (a # as) \<Longrightarrow> k < length (a # as) \<Longrightarrow>
   \<exists>b. heap m ((a # as) ! k) = Some b \<and> pnext b = (if Suc k < length (a # as) then Some ((a # as) ! Suc k) else None)"
proof (induction k arbitrary: a as)
  case 0
  then show ?case by (cases as) auto
next
  case (Suc k)
  then obtain c cs where as: "as = c # cs" by (cases as) auto
  then have "chain m (Some c) (c # cs)" using Suc.prems(1) by auto
  from Suc.IH [OF this] Suc.prems(2) as show ?case by (auto split: if_splits)
qed

text \<open>
  Going through a network buffer from its start, the \<open>k\<close>-th part is the \<open>k\<close>-th buffer of the packet, and the result of the next step
  tells whether there are parts left, so that all its data are seen, in order and once.
\<close>

theorem netbuf_parts:
  assumes "packet m (packet_buf nb) xs" "k < length xs"
  shows "\<exists>nb'. next_times k (netbuf_first nb) m = Some nb' \<and>
    netbuf_data nb' m = Some (Some (payload (buf m (xs ! k)), plen (buf m (xs ! k)))) \<and>
    map_option fst (netbuf_next nb' m) = Some (if Suc k = length xs then - 1 else if Suc (Suc k) = length xs then 1 else 0)"
proof -
  obtain a as where xs: "xs = a # as" using assms(2) by (cases xs) auto
  then have c: "packet_buf nb = Some a" "chain m (Some a) (a # as)" using assms(1) by (auto simp: packet_def)
  let ?nb = "nb\<lparr>ptr := Some (xs ! k)\<rparr>"
  have "next_times k (netbuf_first nb) m = Some ?nb" using next_chain [OF c(2), of k nb] assms(2) xs c(1) by (simp add: netbuf_first_def)
  moreover obtain b where b: "heap m (xs ! k) = Some b" "pnext b = (if Suc k < length xs then Some (xs ! Suc k) else None)"
    using chain_nth [OF c(2), of k] assms(2) xs by auto
  moreover have "map_option fst (netbuf_next ?nb m) = Some (if Suc k = length xs then - 1 else if Suc (Suc k) = length xs then 1 else 0)"
  proof (cases "Suc k < length xs")
    case True
    then obtain d where "heap m (xs ! Suc k) = Some d" "pnext d = (if Suc (Suc k) < length xs then Some (xs ! Suc (Suc k)) else None)"
      using chain_nth [OF c(2), of "Suc k"] xs by auto
    then show ?thesis using b True by (auto simp: netbuf_next_def)
  next
    case False
    then show ?thesis using b assms(2) by (simp add: netbuf_next_def)
  qed
  ultimately show ?thesis by (auto simp: netbuf_data_def)
qed

text \<open>
  When there is no memory for new data, the old packet has been freed but the place in it is kept: asking for the data then reads a buffer
  that is in the pool again.
\<close>

theorem netbuf_alloc_dangles:
  assumes "packet m (Some p) (p # xs)" "\<forall>a \<in> set (p # xs). 0 < pref (buf m a)" "pref (buf m p) = 1"
    "packet_buf nb = Some p" "ptr nb = Some p"
  shows "\<exists>nb' m'. netbuf_alloc hlen None nb sz m = Some (None, nb', m') \<and> packet_buf nb' = None \<and> ptr nb' = Some p \<and>
    heap m' p = None \<and> netbuf_data nb' m' = None"
proof -
  have "chain m (Some p) (p # xs)" "distinct (p # xs)" using assms(1) by (simp_all add: packet_def)
  from pbuf_free_spec [OF this assms(2)] have free: "free_packet nb m = Some (freed m (p # xs))"
    using assms(4) by (simp add: free_packet_def)
  have "p \<in> set (unshared m (p # xs))" using assms(3) by (simp add: unshared_def)
  then have gone: "heap (freed m (p # xs)) p = None" by (simp add: freed_def Let_def)
  show ?thesis
    by (intro exI [of _ "nb\<lparr>packet_buf := None\<rparr>"] exI [of _ "freed m (p # xs)"])
      (simp add: netbuf_alloc_def free pbuf_alloc_def gone assms(5) netbuf_data_def Let_def)
qed

definition example_netbuf :: netbuf where
  "example_netbuf = \<lparr>packet_buf = Some 7, ptr = Some 7, addr = 0, port = 0\<rparr>"

theorem netbuf_parts_witness:
  "\<exists>nb'. next_times 1 (netbuf_first example_netbuf) example_mem = Some nb' \<and> netbuf_data nb' example_mem = Some (Some (Some (2, 0), 2)) \<and>
     map_option fst (netbuf_next nb' example_mem) = Some (- 1)"
proof -
  have "packet example_mem (packet_buf example_netbuf) [7, 2]" using example_packets(1) by (simp add: example_netbuf_def)
  from netbuf_parts [OF this, of 1] show ?thesis by (simp add: example_mem_def example_buf_def)
qed

theorem netbuf_alloc_dangles_witness:
  "\<exists>nb' m'. netbuf_alloc 14 None example_netbuf 100 example_mem = Some (None, nb', m') \<and> ptr nb' = Some 7 \<and> netbuf_data nb' m' = None"
proof -
  have "packet_buf example_netbuf = Some 7" "ptr example_netbuf = Some 7" by (simp_all add: example_netbuf_def)
  from netbuf_alloc_dangles [OF example_packets(1) _ _ this, of 14 100] show ?thesis using example_refs by auto
qed

end
