(* ===== verification/Lwip_Timeouts.thy ===== *)
theory Lwip_Timeouts
  imports Prelude
begin

text \<open>
  The time-outs of the TCP/IP thread, \<open>src/LwIP/src/core/timers.c\<close>, and the mailbox it waits on,
  \<open>src/LwIP/port/sys_arch.c\<close>.
\<close>

section \<open>Time-outs\<close>

text \<open>The handlers of this file, and those of other code.\<close>

datatype handler =
  Tcpip_tcp_timer | Ip_reass_timer | Arp_timer | Dhcp_timer_coarse | Dhcp_timer_fine | Igmp_timer | Dns_timer | Other nat

record sys_timeo =
  time :: "32 word"
  h :: "handler option"
  arg :: "nat option"

text \<open>
  The list of the time-outs, each with the time after the one before; the elements that are left in the pool; whether the timer of TCP
  runs; the state of the protocols.
\<close>

record 's timeouts =
  next_timeout :: "sys_timeo list"
  free_timeouts :: nat
  tcpip_tcp_timer_active :: bool
  stack :: 's

text \<open>The loop of \<open>sys_timeout\<close>, from the element that the new one comes behind.\<close>

fun place :: "sys_timeo \<Rightarrow> sys_timeo list \<Rightarrow> sys_timeo list" where
  "place timeout [] = []"
| "place timeout (t # ts) =
     (let timeout = timeout\<lparr>time := time timeout - time t\<rparr> in
      case ts of
        [] \<Rightarrow> [t, timeout]
      | u # us \<Rightarrow>
          if time u > time timeout then t # timeout # u\<lparr>time := time u - time timeout\<rparr> # us
          else t # place timeout ts)"

text \<open>An empty pool fails an assertion.\<close>

definition sys_timeout :: "32 word \<Rightarrow> handler option \<Rightarrow> nat option \<Rightarrow> 's timeouts \<Rightarrow> 's timeouts option" where
  "sys_timeout msecs handler a s =
     (if free_timeouts s = 0 then None
      else
        let s = s\<lparr>free_timeouts := free_timeouts s - 1\<rparr>;
            timeout = \<lparr>time = msecs, h = handler, arg = a\<rparr>
        in Some (s\<lparr>next_timeout := (case next_timeout s of
             [] \<Rightarrow> [timeout]
           | t # ts \<Rightarrow> if time t > msecs then timeout # t\<lparr>time := time t - msecs\<rparr> # ts else place timeout (t # ts))\<rparr>))"

text \<open>The loop of \<open>sys_untimeout\<close>; \<open>None\<close> when there is no match.\<close>

fun unlink :: "handler option \<Rightarrow> nat option \<Rightarrow> sys_timeo list \<Rightarrow> sys_timeo list option" where
  "unlink handler a [] = None"
| "unlink handler a (t # ts) =
     (if h t = handler \<and> arg t = a then
        Some (case ts of [] \<Rightarrow> [] | u # us \<Rightarrow> u\<lparr>time := time u + time t\<rparr> # us)
      else map_option ((#) t) (unlink handler a ts))"

definition sys_untimeout :: "handler option \<Rightarrow> nat option \<Rightarrow> 's timeouts \<Rightarrow> 's timeouts" where
  "sys_untimeout handler a s =
     (case unlink handler a (next_timeout s) of None \<Rightarrow> s
      | Some ts \<Rightarrow> s\<lparr>next_timeout := ts, free_timeouts := free_timeouts s + 1\<rparr>)"

section \<open>The timers of the protocols\<close>

text \<open>
  The functions of the protocols, \<open>tcp_tmr\<close> and so on, are arguments: \<open>tmr\<close> gives what each does to their state. \<open>tcp_needed\<close> is
  \<open>tcp_active_pcbs || tcp_tw_pcbs\<close>.
\<close>

definition tcpip_tcp_timer :: "(handler \<Rightarrow> 's \<Rightarrow> 's) \<Rightarrow> ('s \<Rightarrow> bool) \<Rightarrow> 's timeouts \<Rightarrow> 's timeouts option" where
  "tcpip_tcp_timer tmr tcp_needed s =
     (let s = s\<lparr>stack := tmr Tcpip_tcp_timer (stack s)\<rparr> in
      if tcp_needed (stack s) then sys_timeout 250 (Some Tcpip_tcp_timer) None s
      else Some (s\<lparr>tcpip_tcp_timer_active := False\<rparr>))"

definition tcp_timer_needed :: "('s \<Rightarrow> bool) \<Rightarrow> 's timeouts \<Rightarrow> 's timeouts option" where
  "tcp_timer_needed tcp_needed s =
     (if \<not> tcpip_tcp_timer_active s \<and> tcp_needed (stack s)
      then sys_timeout 250 (Some Tcpip_tcp_timer) None (s\<lparr>tcpip_tcp_timer_active := True\<rparr>)
      else Some s)"

abbreviation (input) IP_TMR_INTERVAL :: "32 word" where "IP_TMR_INTERVAL \<equiv> 1000"
abbreviation (input) ARP_TMR_INTERVAL :: "32 word" where "ARP_TMR_INTERVAL \<equiv> 5000"
abbreviation (input) DHCP_COARSE_TIMER_MSECS :: "32 word" where "DHCP_COARSE_TIMER_MSECS \<equiv> 60000"
abbreviation (input) DHCP_FINE_TIMER_MSECS :: "32 word" where "DHCP_FINE_TIMER_MSECS \<equiv> 500"
abbreviation (input) IGMP_TMR_INTERVAL :: "32 word" where "IGMP_TMR_INTERVAL \<equiv> 100"
abbreviation (input) DNS_TMR_INTERVAL :: "32 word" where "DNS_TMR_INTERVAL \<equiv> 1000"

definition ip_reass_timer :: "(handler \<Rightarrow> 's \<Rightarrow> 's) \<Rightarrow> 's timeouts \<Rightarrow> 's timeouts option" where
  "ip_reass_timer tmr s = sys_timeout IP_TMR_INTERVAL (Some Ip_reass_timer) None (s\<lparr>stack := tmr Ip_reass_timer (stack s)\<rparr>)"

definition arp_timer :: "(handler \<Rightarrow> 's \<Rightarrow> 's) \<Rightarrow> 's timeouts \<Rightarrow> 's timeouts option" where
  "arp_timer tmr s = sys_timeout ARP_TMR_INTERVAL (Some Arp_timer) None (s\<lparr>stack := tmr Arp_timer (stack s)\<rparr>)"

definition dhcp_timer_coarse :: "(handler \<Rightarrow> 's \<Rightarrow> 's) \<Rightarrow> 's timeouts \<Rightarrow> 's timeouts option" where
  "dhcp_timer_coarse tmr s =
     sys_timeout DHCP_COARSE_TIMER_MSECS (Some Dhcp_timer_coarse) None (s\<lparr>stack := tmr Dhcp_timer_coarse (stack s)\<rparr>)"

definition dhcp_timer_fine :: "(handler \<Rightarrow> 's \<Rightarrow> 's) \<Rightarrow> 's timeouts \<Rightarrow> 's timeouts option" where
  "dhcp_timer_fine tmr s =
     sys_timeout DHCP_FINE_TIMER_MSECS (Some Dhcp_timer_fine) None (s\<lparr>stack := tmr Dhcp_timer_fine (stack s)\<rparr>)"

definition igmp_timer :: "(handler \<Rightarrow> 's \<Rightarrow> 's) \<Rightarrow> 's timeouts \<Rightarrow> 's timeouts option" where
  "igmp_timer tmr s = sys_timeout IGMP_TMR_INTERVAL (Some Igmp_timer) None (s\<lparr>stack := tmr Igmp_timer (stack s)\<rparr>)"

definition dns_timer :: "(handler \<Rightarrow> 's \<Rightarrow> 's) \<Rightarrow> 's timeouts \<Rightarrow> 's timeouts option" where
  "dns_timer tmr s = sys_timeout DNS_TMR_INTERVAL (Some Dns_timer) None (s\<lparr>stack := tmr Dns_timer (stack s)\<rparr>)"

definition sys_timeouts_init :: "'s timeouts \<Rightarrow> 's timeouts option" where
  "sys_timeouts_init s = do {
     s \<leftarrow> sys_timeout IP_TMR_INTERVAL (Some Ip_reass_timer) None s;
     s \<leftarrow> sys_timeout ARP_TMR_INTERVAL (Some Arp_timer) None s;
     s \<leftarrow> sys_timeout DHCP_COARSE_TIMER_MSECS (Some Dhcp_timer_coarse) None s;
     s \<leftarrow> sys_timeout DHCP_FINE_TIMER_MSECS (Some Dhcp_timer_fine) None s;
     s \<leftarrow> sys_timeout IGMP_TMR_INTERVAL (Some Igmp_timer) None s;
     sys_timeout DNS_TMR_INTERVAL (Some Dns_timer) None s }"

text \<open>The call of a handler through its pointer; handlers of other code are an argument.\<close>

definition call_handler :: "(handler \<Rightarrow> 's \<Rightarrow> 's) \<Rightarrow> ('s \<Rightarrow> bool) \<Rightarrow>
    (nat \<Rightarrow> nat option \<Rightarrow> 's timeouts \<Rightarrow> 's timeouts option) \<Rightarrow> handler \<Rightarrow> nat option \<Rightarrow> 's timeouts \<Rightarrow> 's timeouts option" where
  "call_handler tmr tcp_needed other handler a s = (case handler of
     Tcpip_tcp_timer \<Rightarrow> tcpip_tcp_timer tmr tcp_needed s
   | Ip_reass_timer \<Rightarrow> ip_reass_timer tmr s
   | Arp_timer \<Rightarrow> arp_timer tmr s
   | Dhcp_timer_coarse \<Rightarrow> dhcp_timer_coarse tmr s
   | Dhcp_timer_fine \<Rightarrow> dhcp_timer_fine tmr s
   | Igmp_timer \<Rightarrow> igmp_timer tmr s
   | Dns_timer \<Rightarrow> dns_timer tmr s
   | Other n \<Rightarrow> other n a s)"

section \<open>Waiting for a message\<close>

abbreviation (input) SYS_ARCH_TIMEOUT :: "32 word" where "SYS_ARCH_TIMEOUT \<equiv> 0xffffffff"

text \<open>
  The receiving call of the queue, \<open>recv\<close>, with the ticks to wait, and the tick count are those of the kernel, over a world that
  changes meanwhile; a tick is a millisecond.
\<close>

partial_function (option) receive_loop :: "(32 word \<Rightarrow> 'w \<Rightarrow> 'm option \<times> 'w) \<Rightarrow> 'w \<Rightarrow> ('m \<times> 'w) option" where
  "receive_loop recv w =
     (case recv 0xffffffff w of (Some msg, w) \<Rightarrow> Some (msg, w) | (None, w) \<Rightarrow> receive_loop recv w)"

declare receive_loop.simps [code]

definition sys_arch_mbox_fetch ::
  "(32 word \<Rightarrow> 'w \<Rightarrow> 'm option \<times> 'w) \<Rightarrow> ('w \<Rightarrow> 32 word) \<Rightarrow> 32 word \<Rightarrow> 'w \<Rightarrow> (32 word \<times> 'm option \<times> 'w) option" where
  "sys_arch_mbox_fetch recv ticks timeout w =
     (let start = ticks w in
      if timeout \<noteq> 0 then
        case recv timeout w of
          (Some msg, w) \<Rightarrow> Some (ticks w - start, Some msg, w)
        | (None, w) \<Rightarrow> Some (SYS_ARCH_TIMEOUT, None, w)
      else do {
        (msg, w) \<leftarrow> receive_loop recv w;
        let elapsed = ticks w - start;
        Some (if elapsed = 0 then 1 else elapsed, Some msg, w) })"

partial_function (option) sys_timeouts_mbox_fetch ::
  "(handler \<Rightarrow> 's \<Rightarrow> 's) \<Rightarrow> ('s \<Rightarrow> bool) \<Rightarrow> (nat \<Rightarrow> nat option \<Rightarrow> 's timeouts \<Rightarrow> 's timeouts option) \<Rightarrow>
   (32 word \<Rightarrow> 'w \<Rightarrow> 'm option \<times> 'w) \<Rightarrow> ('w \<Rightarrow> 32 word) \<Rightarrow> 's timeouts \<Rightarrow> 'w \<Rightarrow> ('m option \<times> 's timeouts \<times> 'w) option" where
  "sys_timeouts_mbox_fetch tmr tcp_needed other recv ticks s w =
     (case next_timeout s of
        [] \<Rightarrow> do { (time_needed, msg, w) \<leftarrow> sys_arch_mbox_fetch recv ticks 0 w; Some (msg, s, w) }
      | t # ts \<Rightarrow> do {
          (time_needed, msg, w) \<leftarrow> (if time t > 0 then sys_arch_mbox_fetch recv ticks (time t) w else Some (SYS_ARCH_TIMEOUT, None, w));
          if time_needed = SYS_ARCH_TIMEOUT then do {
            s \<leftarrow> (case h t of
                None \<Rightarrow> Some (s\<lparr>next_timeout := ts, free_timeouts := free_timeouts s + 1\<rparr>)
              | Some handler \<Rightarrow> call_handler tmr tcp_needed other handler (arg t)
                  (s\<lparr>next_timeout := ts, free_timeouts := free_timeouts s + 1\<rparr>));
            sys_timeouts_mbox_fetch tmr tcp_needed other recv ticks s w }
          else Some (msg, s\<lparr>next_timeout := t\<lparr>time := (if time_needed < time t then time t - time_needed else 0)\<rparr> # ts\<rparr>, w) })"

declare sys_timeouts_mbox_fetch.simps [code]

end
