(* ===== verification/Lwip_Timeouts_Props.thy ===== *)
theory Lwip_Timeouts_Props
  imports Lwip_Timeouts
begin

text \<open>
  What the list of time-outs means: each entry with the time from now at which it is due. The operations are those on a list sorted by
  these times, and waiting calls the timers of the protocols once per period.
\<close>

section \<open>Times from now\<close>

type_synonym entry = "handler option \<times> nat option"

fun due :: "nat \<Rightarrow> sys_timeo list \<Rightarrow> (nat \<times> entry) list" where
  "due n [] = []"
| "due n (t # ts) = (n + unat (time t), h t, arg t) # due (n + unat (time t)) ts"

fun enlist :: "nat \<times> entry \<Rightarrow> (nat \<times> entry) list \<Rightarrow> (nat \<times> entry) list" where
  "enlist e [] = [e]"
| "enlist e (d # ds) = (if fst e < fst d then e # d # ds else d # enlist e ds)"

fun delist :: "entry \<Rightarrow> (nat \<times> entry) list \<Rightarrow> (nat \<times> entry) list" where
  "delist e [] = []"
| "delist e (d # ds) = (if snd d = e then ds else d # delist e ds)"



lemma unat_minus: "b \<le> a \<Longrightarrow> unat (a - b) = unat a - unat b" for a b :: "32 word"
  by (rule unat_sub)

lemma place_due:
  "time t \<le> time x \<Longrightarrow> due n (place x (t # ts)) = enlist (n + unat (time x), h x, arg x) (due n (t # ts))"
proof (induction ts arbitrary: t x n)
  case Nil
  then show ?case by (simp add: Let_def unat_minus word_le_nat_alt)
next
  case (Cons u us)
  have le: "unat (time t) \<le> unat (time x)" using Cons.prems by (simp add: word_le_nat_alt)
  have m: "unat (time x - time t) = unat (time x) - unat (time t)" by (rule unat_minus [OF Cons.prems])
  show ?case
  proof (cases "time u > time x - time t")
    case True
    then have "time x - time t \<le> time u" "unat (time x) - unat (time t) < unat (time u)" using m by (simp_all add: word_less_nat_alt less_imp_le)
    then show ?thesis using True le m by (simp add: Let_def unat_minus ac_simps less_diff_conv2)
  next
    case False
    then have "time u \<le> time (x\<lparr>time := time x - time t\<rparr>)" by simp
    from Cons.IH [OF this, of "n + unat (time t)"] show ?thesis
      using False le m by (simp add: Let_def word_less_nat_alt not_less)
  qed
qed

text \<open>A time-out that is started is due after its time, behind those that are due by then; the others stay when they are.\<close>

theorem sys_timeout_due:
  assumes "0 < free_timeouts s"
  shows "\<exists>s'. sys_timeout msecs g a s = Some s' \<and> due 0 (next_timeout s') = enlist (unat msecs, g, a) (due 0 (next_timeout s)) \<and>
    free_timeouts s' = free_timeouts s - 1 \<and> tcpip_tcp_timer_active s' = tcpip_tcp_timer_active s \<and> stack s' = stack s"
proof (cases "next_timeout s")
  case Nil
  then show ?thesis using assms by (simp add: sys_timeout_def Let_def)
next
  case (Cons t ts)
  let ?x = "\<lparr>time = msecs, h = g, arg = a\<rparr>"
  show ?thesis
  proof (cases "time t > msecs")
    case True
    then have "msecs \<le> time t" "unat msecs < unat (time t)" by (simp_all add: word_less_nat_alt less_imp_le)
    then show ?thesis using assms Cons True by (simp add: sys_timeout_def Let_def unat_minus)
  next
    case False
    then have "time t \<le> time ?x" by simp
    from place_due [OF this, of 0 ts] show ?thesis using assms Cons False by (simp add: sys_timeout_def Let_def)
  qed
qed

lemma unlink_due:
  "\<forall>(d, e) \<in> set (due n ts). d < 2 ^ 32 \<Longrightarrow>
   (case unlink g a ts of None \<Rightarrow> (g, a) \<notin> snd ` set (due n ts) | Some ts' \<Rightarrow> (g, a) \<in> snd ` set (due n ts) \<and> due n ts' = delist (g, a) (due n ts))"
proof (induction ts arbitrary: n)
  case (Cons t ts)
  show ?case
  proof (cases "h t = g \<and> arg t = a")
    case True
    show ?thesis
    proof (cases ts)
      case (Cons u us)
      then have "unat (time u) + unat (time t) < 2 ^ LENGTH(32)" using Cons.prems by simp
      then have "unat (time u + time t) = unat (time u) + unat (time t)" by (simp only: unat_plus_if') simp
      then show ?thesis using True Cons by (simp add: ac_simps)
    qed (use True in simp)
  next
    case False
    then show ?thesis using Cons.IH [of "n + unat (time t)"] Cons.prems by (auto split: option.splits)
  qed
qed simp

text \<open>A time-out that is stopped is no longer due, the first one when there are several, and the others stay when they are.\<close>

theorem sys_untimeout_due:
  assumes "\<forall>(d, e) \<in> set (due 0 (next_timeout s)). d < 2 ^ 32"
  shows "due 0 (next_timeout (sys_untimeout g a s)) = delist (g, a) (due 0 (next_timeout s))"
proof -
  have "(g, a) \<notin> snd ` set ds \<Longrightarrow> delist (g, a) ds = ds" for ds by (induction ds) auto
  then show ?thesis using unlink_due [OF assms, of g a] by (simp add: sys_untimeout_def split: option.splits)
qed

section \<open>The timers of the protocols\<close>




















section \<open>Properties\<close>



theorem sys_timeout_due_witness:
  "\<exists>s'. sys_timeout 70 (Some Dns_timer) None \<lparr>next_timeout = [\<lparr>time = 50, h = Some Arp_timer, arg = None\<rparr>, \<lparr>time = 40, h = None, arg = None\<rparr>],
      free_timeouts = 1, tcpip_tcp_timer_active = False, stack = ()\<rparr> = Some s' \<and>
     due 0 (next_timeout s') = [(50, Some Arp_timer, None), (70, Some Dns_timer, None), (90, None, None)]"
  using sys_timeout_due [of "\<lparr>next_timeout = [\<lparr>time = 50, h = Some Arp_timer, arg = None\<rparr>, \<lparr>time = 40, h = None, arg = None\<rparr>],
      free_timeouts = 1, tcpip_tcp_timer_active = False, stack = ()\<rparr>" 70 "Some Dns_timer" None] by auto

end
