(* ===== verification/Spec2Isabelle.thy ===== *)
theory Spec2Isabelle
  imports Mqtt_Client_Props Mqtt_Topic Rtos_Events_Props Rtos_Timers_Props Format_Props Ws2812 Lwip_Ip_Addr Lwip_Pbuf_Data Lwip_Netbuf Lwip_Timeouts_Props
begin

text \<open>
  A verification development for the firmware of a WiFi module: an MQTT client (\<open>src/mqtt\<close>) over TCP sockets (\<open>src/LwIP\<close>) on a
  real-time kernel (\<open>src/FreeRTOS\<close>), with its own formatted output and a driver of a strip of LEDs (\<open>src/*.c\<close>).

  \<^bold>\<open>How the parts interact.\<close> \<open>Main.c\<close> starts the kernel. Its tasks share the processor by priority, wait for ticks, and
  exchange messages through queues, of which semaphores and mutexes are special cases; interrupts come between
  any two steps. A socket receives segments as chains of buffers through a mailbox. The MQTT client reaches its socket through two function
  pointers, reads one packet after the other from it, and calls a handler for each message that matches a topic filter; it
  measures its time-outs in ticks of the kernel.

  \<^bold>\<open>How the model reads.\<close> One theory per component, with one definition per function of the code under its name, in its order. Structs are
  records, pointers into a buffer are offsets or suffixes, integers are words of their width or, where C leaves overflow undefined,
  \<open>int\<close> with \<open>checked\<close>. \<open>None\<close> is what C does not define or does not come back from: an access outside an object, a failed
  assertion, a loop without end. A result code of the program is a value. Whatever is outside the repository is an
  argument: \<open>malloc\<close> of \<open>start_system\<close>, the network functions, the clock and the handlers of the client (record \<open>env\<close>), what arrives in a
  mailbox.

  \<^bold>\<open>Shared.\<close> \<open>Prelude\<close>: checked loads, stores and block copies, cursors into buffers (collection \<open>cursor_simps\<close>), bit fields,
  and the predicate \<open>post\<close> with the rules \<open>post_intro\<close> that go backwards through a \<open>do\<close> block.

  \<^bold>\<open>MQTT\<close> (\<open>src/mqtt\<close>).
  \<open>Mqtt_Packet\<close>: header byte, remaining length, integers and strings (\<open>MQTTPacket.c\<close>, \<open>.h\<close>); the writers are shown to append blocks, the
  readers to consume them; the locale \<open>byte_source\<close> is what the decoder of the remaining length needs of the bytes it reads.
  \<open>Mqtt_Read\<close>: the blocking and the non-blocking reader; the locale \<open>packet_source\<close> is what they need of the callback.
  \<open>Mqtt_Publish\<close>, \<open>Mqtt_Subscribe\<close>, \<open>Mqtt_Connect\<close>: serializers and deserializers of all packets, with a lemma for each that gives its bytes,
  from which the round trips follow.
  \<open>Mqtt_Platform\<close>: the timers and the read loop over a socket (\<open>MQTTPlatform.c\<close>).
  \<open>Mqtt_Client\<close>: the client (\<open>MQTTClient.c\<close>); \<open>Mqtt_Client_Proofs\<close>: what each operation leaves alone and returns, over the locale
  \<open>client_network\<close>, which is interpreted by the client on a socket; \<open>Mqtt_Client_Props\<close>: its properties. \<open>Mqtt_Topic\<close>: the loop over
  characters that matches filters is matching level by level.

  \<^bold>\<open>TCP/IP\<close> (\<open>src/LwIP\<close>).
  \<open>Lwip_Socket\<close>: the receiving path of a socket (\<open>api_lib.c\<close>, \<open>sockets.c\<close>, \<open>err.c\<close>); what the reader gets is the stream of bytes.
  \<open>Lwip_Chksum\<close>: the checksum (\<open>inet_chksum.c\<close>) of buffers at any address and of chains of them is the ones' complement sum of all their
  bytes; numbers are \<open>alike\<close> when they stand for the same sum. A buffer is at most 0x20000 bytes long there, which the 16 bits of its
  length guarantee.
  \<open>Lwip_Ip_Addr\<close>: dotted addresses read and printed, netmasks, broadcast addresses (\<open>ip_addr.c\<close>).
  \<open>Lwip_Pbuf\<close>: packet buffers (\<open>pbuf.c\<close>) with their reference counts in an explicit heap. A \<open>packet\<close> is a chain whose total lengths
  fit and whose \<open>data\<close> lie in their blocks. \<open>Lwip_Pbuf_Chain\<close>: packets are allocated, freed, concatenated, taken apart and shortened;
  \<open>Lwip_Pbuf_Data\<close>: their data are copied in and out, made one buffer and searched. Sizes of the pool and of the link header are
  arguments, and so is what \<open>malloc\<close> returns. \<open>Lwip_Netbuf\<close>: a packet with a place in it (\<open>netbuf.c\<close>).
  \<open>Lwip_Timeouts\<close>: the list of time-outs of the thread of the stack (\<open>timers.c\<close>) and the call that fetches a message (\<open>sys_arch.c\<close>).
  \<open>Lwip_Timeouts_Props\<close>: \<open>due\<close> reads the list as entries with their times from now; the timers of the protocols are called once per period,
  as far as the thread is not late. What the protocols do in their timers is an argument, and so is the call that receives from the queue of the
  thread, with what others do meanwhile: \<open>receives\<close> says what is needed of it.

  \<^bold>\<open>The kernel\<close> (\<open>src/FreeRTOS\<close>).
  \<open>Rtos_List\<close>: the rings of \<open>list.c\<close> in an explicit store; \<open>Rtos_Store\<close>: many of them in one store.
  \<open>Rtos_Tasks\<close>: the scheduler (\<open>tasks.c\<close>, the interrupt handlers of \<open>port.c\<close>): ready, delayed, overflowed, pending and suspended
  lists, the tick and its overflow, waits, priorities and their inheritance.
  \<open>Rtos_Kernel\<close>: its invariant \<open>kernel_inv\<close>, with the tasks that an operation is moving exempted; \<open>Rtos_Sched\<close>, \<open>Rtos_Block\<close>,
  \<open>Rtos_Frame\<close>: every operation returns, keeps the invariant and changes only what it should. \<open>Rtos_Sleep\<close>: which of them leave the tasks that wait for a
  time alone.
  \<open>Rtos_Queue\<close>: \<open>queue.c\<close>, the blocking calls as steps between which others run; \<open>Rtos_Fifo\<close>: the storage ring is a bounded list;
  \<open>Rtos_Calls\<close>: the calls over both invariants.
  \<open>Rtos_System\<close>: the running system as the relation \<open>sys_event\<close>: a task makes a step of its call, an interrupt comes, the tick, a
  switch; each step has as its event what the one who called is told, a \<open>sys_trace\<close> is a run with its events, and \<open>sys_step\<close> is a step with any
  event. \<open>Rtos_System_Inv\<close>: the invariant \<open>sys_inv\<close> is kept by each step, and which calls return. \<open>Rtos_Create\<close>: creating tasks and queues
  and starting the scheduler establishes it, hence it holds in every \<open>reachable\<close> state.
  \<open>Rtos_Messages\<close>: what each step does to the messages of a queue and the holder of a mutex, read off its event; over the locale
  \<open>fifo_system\<close>, interpreted by \<open>sys_event\<close>, messages keep their order. \<open>Rtos_Delay\<close>: how long a task that waits for a time does so, over
  runs. \<open>Rtos_Props\<close>: the properties of the running kernel.
  \<open>Rtos_Timeout\<close>: the tick count over its overflow and the time-outs that rest on it, for the client.
  \<open>Rtos_Events\<close>, \<open>Rtos_Events_Props\<close>: event groups (\<open>event_groups.c\<close>) on the scheduler.
  \<open>Rtos_Timers\<close>, \<open>Rtos_Timers_Props\<close>: software timers (\<open>timers.c\<close>) on the lists; their commands are a bounded list, which is what
  the queues are shown to be. \<open>due\<close> gives the time at which a timer expires, counted without wrap-around; what the task has to
  do is said with it.

  \<^bold>\<open>The board\<close> (\<open>src/*.c\<close>).
  \<open>Format_String\<close>, \<open>Format_Props\<close>: \<open>FormatString.c\<close> and \<open>Printf.c\<close>.
  \<open>Ws2812\<close>: the LED strip (\<open>ws2812.c\<close>) with the hardware that empties its double buffer.

  \<^bold>\<open>Loops and bounds.\<close> Loops over data recurse on it. Loops that the code ends by a condition on its state are
  \<open>partial_function (option)\<close>: the search in a list, the loops over waiting tasks, the loops of the client and the read loop. That those of the
  kernel end is part of the lemma about the operation that has them (its result is \<open>Some\<close>), by induction on the list or the number of lost
  ticks; the read loop really has no end on a closed connection (\<open>LwIP_read_hangs_on_close\<close>). The others have measures:
  the digits left, the bits left, the LEDs left.

  \<^bold>\<open>Where the model departs from the code.\<close> The counts \<open>xTxLock\<close> and \<open>xRxLock\<close> of a locked queue are signed in C, where their
  overflow is undefined; here they are words that wrap. \<open>vTaskDelay\<close> and \<open>vTaskDelayUntil\<close> are one step of \<open>sys_event\<close>, though interrupts can come
  while they suspend the scheduler: a tick is then pended, and an interrupt that wakes a task puts it on the pending list. The calls of event
  groups, the task of the timers, \<open>xTaskResumeFromISR\<close> and creation at run time are not steps of \<open>sys_event\<close>. After a failed assertion
  the code turns off interrupts and stays where it is; in the model there is no such step. The tasks keep these rules of the interface: interrupts
  do not use mutexes, a mutex is not overwritten, the idle task does not wait. In \<open>start_system\<close> the task of the timers is one more task that is
  created, without its queue and lists, which are in \<open>Rtos_Timers\<close>. In \<open>Ws2812\<close> the hardware starts a transfer with the low half, as the code selects. In
  \<open>Lwip_Pbuf\<close> a new buffer gets all its fields at once, and the assertions about the alignment and the end of a first buffer are left out; in
  \<open>pbuf_realloc\<close> the call of \<open>mem_trim\<close> does nothing, since \<open>MEM_LIBC_MALLOC\<close> makes it the identity (\<open>mem.h\<close>). The handlers of time-outs take no time of
  their own in \<open>Lwip_Timeouts\<close>: it counts as a delay of the wait.

  \<^bold>\<open>Not modelled.\<close> The conversion of floating point numbers in \<open>FormatString.c\<close> (HOL has no C doubles here). Deletion of tasks and
  task notifications (no caller in the program). Co-routines and the conditional code that the configuration leaves out. The saving of
  registers and the critical sections of \<open>port.c\<close>, the start-up code, clocks, pins and serial port: registers of the hardware.
  The protocols of the TCP/IP stack below the socket (TCP, UDP, DHCP, DNS, ARP), SNMP, PPP and IPv6. The glue to WICED and to the TLS
  library, whose code is not in the repository. Vendor headers.
\<close>

end
